(* ===== verification/USD_Prelude.thy ===== *)
theory USD_Prelude
  imports Main "HOL-Library.Multiset" "HOL-Library.List_Lexorder" "HOL-Library.Char_ord"
    "HOL-Library.Sublist"
begin

text \<open>
  Shared vocabulary of the development: the type of tokens, the collections the component
  proofs draw on, facts on lists the components share, and models of the algorithms of the
  C++ standard library that the modelled sources call (\<open>std::sort\<close>, \<open>std::lower_bound\<close>,
  \<open>std::upper_bound\<close>, \<open>std::binary_search\<close>, \<open>std::unique\<close>, \<open>std::merge\<close>).
  The algorithms take the comparison they are called with as an argument; what they promise
  for a comparison that is a strict linear order is proved once, in the locale
  \<open>comparator\<close>, which every component interprets on the comparison its code uses.
\<close>

text \<open>A \<open>TfToken\<close> is an interned string; equality of tokens is equality of their strings.\<close>

type_synonym token = string

named_theorems path_queries \<open>unfolding rules of the path predicates\<close>
named_theorems std_algorithms \<open>characterisations of the standard algorithms\<close>

section \<open>Lists\<close>

lemma takeWhile_nth_length:
  "length (takeWhile P xs) < length xs \<Longrightarrow> \<not> P (xs ! length (takeWhile P xs))"
  by (rule nth_length_takeWhile)

lemma nth_before_takeWhile: "i < length (takeWhile P xs) \<Longrightarrow> P (xs ! i)"
  by (metis nth_mem set_takeWhileD takeWhile_nth)

lemma drop_eq_Cons_nth: "i < length xs \<Longrightarrow> drop i xs = xs ! i # drop (Suc i) xs"
  by (rule Cons_nth_drop_Suc [symmetric])

lemma take_Suc_snoc: "i < length xs \<Longrightarrow> take (Suc i) xs = take i xs @ [xs ! i]"
  by (rule take_Suc_conv_app_nth)

lemma dropWhile_eq_drop_length: "dropWhile P xs = drop (length (takeWhile P xs)) xs"
  by (rule dropWhile_eq_drop)

lemma takeWhile_eq_take_length: "takeWhile P xs = take (length (takeWhile P xs)) xs"
  by (rule takeWhile_eq_take)

text \<open>Two sorted lists of a strict order with the same elements are the same list.\<close>

lemma sorted_wrt_set_unique:
  assumes "sorted_wrt R xs" "sorted_wrt R ys" "set xs = set ys"
    and irrefl: "\<And>x. \<not> R x x" and trans: "\<And>x y z. R x y \<Longrightarrow> R y z \<Longrightarrow> R x z"
  shows "xs = ys"
  using assms(1-3)
proof (induction xs arbitrary: ys)
  case Nil
  then show ?case by simp
next
  case (Cons x xs)
  then obtain y ys' where ys: "ys = y # ys'" by (cases ys) auto
  have asym: "R a b \<Longrightarrow> R b a \<Longrightarrow> False" for a b
    using irrefl trans by blast
  have xy: "x = y"
  proof (rule ccontr)
    assume "x \<noteq> y"
    with Cons.prems ys have "x \<in> set ys'" "y \<in> set xs" by auto
    with Cons.prems ys have "R y x" "R x y" by auto
    then show False by (rule asym)
  qed
  have "x \<notin> set xs" "y \<notin> set ys'"
    using Cons.prems ys irrefl by auto
  with Cons.prems ys xy have "set xs = set ys'" by auto
  with Cons.IH [of ys'] Cons.prems ys xy show ?case by simp
qed

lemma sorted_wrt_mset_unique:
  assumes "sorted_wrt R xs" "sorted_wrt R ys" "mset xs = mset ys"
    and antisym: "\<And>x y. R x y \<Longrightarrow> R y x \<Longrightarrow> x = y"
  shows "xs = ys"
  using assms(1-3)
proof (induction xs arbitrary: ys)
  case Nil
  then show ?case by simp
next
  case (Cons x xs)
  then obtain y ys' where ys: "ys = y # ys'" by (cases ys) auto
  have xy: "x = y"
  proof (rule ccontr)
    assume ne: "x \<noteq> y"
    have "x \<in> set ys" "y \<in> set (x # xs)"
      using Cons.prems(3) ys by (metis list.set_intros(1) set_mset_mset)+
    with ne ys have "x \<in> set ys'" "y \<in> set xs" by auto
    with Cons.prems ys have "R y x" "R x y" by auto
    with antisym ne show False by blast
  qed
  with Cons.prems ys Cons.IH [of ys'] show ?case by simp
qed

text \<open>Prefixes of lists: by index, and in the lexicographic order.\<close>

lemma prefix_nth:
  "length ps \<le> length xs \<Longrightarrow> prefix ps xs \<longleftrightarrow> (\<forall>i < length ps. xs ! i = ps ! i)"
proof -
  assume len: "length ps \<le> length xs"
  have "prefix ps xs \<longleftrightarrow> take (length ps) xs = ps"
    by (metis append_eq_conv_conj append_take_drop_id prefix_def)
  also have "\<dots> \<longleftrightarrow> (\<forall>i < length ps. xs ! i = ps ! i)"
    using len by (auto simp: list_eq_iff_nth_eq)
  finally show ?thesis .
qed

lemma all_nth_prefix:
  "length ps \<le> length xs \<Longrightarrow> list_all (\<lambda>i. xs ! i = ps ! i) [0..<length ps] \<longleftrightarrow> prefix ps xs"
  by (auto simp: prefix_nth list_all_iff)

lemma list_prefix_less:
  fixes xs :: "'n::linorder list"
  shows "prefix ps xs \<Longrightarrow> xs \<noteq> ps \<Longrightarrow> ps < xs"
proof (induction ps arbitrary: xs)
  case (Cons p ps)
  then show ?case by (cases xs) auto
next
  case Nil
  then show ?case by (cases xs) auto
qed

lemma list_prefix_convex:
  fixes xs :: "'n::linorder list"
  shows "prefix ps xs \<Longrightarrow> ps \<le> ys \<Longrightarrow> ys \<le> xs \<Longrightarrow> prefix ps ys"
proof (induction ps arbitrary: xs ys)
  case (Cons p ps)
  from Cons.prems(1) obtain xs' where xs: "xs = p # xs'" "prefix ps xs'" by (cases xs) auto
  with Cons.prems(2,3) obtain y ys' where ys: "ys = y # ys'" by (cases ys) auto
  with xs Cons.prems(2,3) have "y = p" "ps \<le> ys'" "ys' \<le> xs'" by auto
  with Cons.IH [OF xs(2)] ys show ?case by simp
qed simp

section \<open>Algorithms of the standard library\<close>

subsection \<open>Definitions\<close>

text \<open>
  The binary search behind \<open>std::lower_bound\<close> and \<open>std::upper_bound\<close>: a subrange
  of \<open>len\<close> elements from \<open>first\<close> is halved until it is empty.
\<close>

function partition_point_loop :: "('a \<Rightarrow> bool) \<Rightarrow> 'a list \<Rightarrow> nat \<Rightarrow> nat \<Rightarrow> nat" where
  "partition_point_loop P xs first len =
     (if len = 0 then first
      else let half = len div 2; mid = first + half in
        if P (xs ! mid) then partition_point_loop P xs (Suc mid) (len - half - 1)
        else partition_point_loop P xs first half)"
  by pat_completeness auto
termination
  by (relation "measure (\<lambda>(P, xs, first, len). len)") auto

declare partition_point_loop.simps [simp del]

definition std_lower_bound :: "('a \<Rightarrow> 'b \<Rightarrow> bool) \<Rightarrow> 'a list \<Rightarrow> 'b \<Rightarrow> nat" where
  "std_lower_bound lt xs v = partition_point_loop (\<lambda>e. lt e v) xs 0 (length xs)"

definition std_upper_bound :: "('b \<Rightarrow> 'a \<Rightarrow> bool) \<Rightarrow> 'a list \<Rightarrow> 'b \<Rightarrow> nat" where
  "std_upper_bound lt xs v = partition_point_loop (\<lambda>e. \<not> lt v e) xs 0 (length xs)"

definition std_binary_search ::
    "('a \<Rightarrow> 'b \<Rightarrow> bool) \<Rightarrow> ('b \<Rightarrow> 'a \<Rightarrow> bool) \<Rightarrow> 'a list \<Rightarrow> 'b \<Rightarrow> bool" where
  "std_binary_search lt lt' xs v =
     (let i = std_lower_bound lt xs v in i < length xs \<and> \<not> lt' v (xs ! i))"

fun insert_by :: "('a \<Rightarrow> 'a \<Rightarrow> bool) \<Rightarrow> 'a \<Rightarrow> 'a list \<Rightarrow> 'a list" where
  "insert_by lt x [] = [x]"
| "insert_by lt x (y # ys) =
     (if lt y x then y # insert_by lt x ys else x # y # ys)"

definition std_sort :: "('a \<Rightarrow> 'a \<Rightarrow> bool) \<Rightarrow> 'a list \<Rightarrow> 'a list" where
  "std_sort lt xs = foldr (insert_by lt) xs []"

text \<open>\<open>std::unique\<close> compares the last element it kept with the next one.\<close>

fun std_unique :: "('a \<Rightarrow> 'a \<Rightarrow> bool) \<Rightarrow> 'a list \<Rightarrow> 'a list" where
  "std_unique p [] = []"
| "std_unique p [x] = [x]"
| "std_unique p (x # y # zs) =
     (if p x y then std_unique p (x # zs) else x # std_unique p (y # zs))"

fun std_merge :: "('a \<Rightarrow> 'a \<Rightarrow> bool) \<Rightarrow> 'a list \<Rightarrow> 'a list \<Rightarrow> 'a list" where
  "std_merge lt [] ys = ys"
| "std_merge lt (x # xs) [] = x # xs"
| "std_merge lt (x # xs) (y # ys) =
     (if lt y x then y # std_merge lt (x # xs) ys else x # std_merge lt xs (y # ys))"

subsection \<open>Facts that need no order\<close>

lemma partition_point_loop_correct:
  assumes "\<And>i. first \<le> i \<Longrightarrow> i < first + len \<Longrightarrow> P (xs ! i) \<longleftrightarrow> i < k"
    and "first \<le> k" "k \<le> first + len"
  shows "partition_point_loop P xs first len = k"
  using assms
proof (induction P xs first len rule: partition_point_loop.induct)
  case (1 P xs first len)
  show ?case
  proof (cases "len = 0")
    case True
    with 1 show ?thesis by (simp add: partition_point_loop.simps [of P xs first])
  next
    case False
    define mid where "mid = first + len div 2"
    have half: "len div 2 < len" using False by simp
    show ?thesis
    proof (cases "P (xs ! mid)")
      case True
      have "mid < k" using True "1.prems"(1) [of mid] half by (simp add: mid_def)
      then have "partition_point_loop P xs (Suc mid) (len - len div 2 - 1) = k"
        using "1.prems" half True False
        by (intro "1.IH"(1) [OF False refl mid_def]) (auto simp: mid_def)
      with False True show ?thesis
        by (simp add: partition_point_loop.simps [of P xs first] Let_def mid_def)
    next
      case nP: False
      have "k \<le> mid" using nP "1.prems"(1) [of mid] half by (simp add: mid_def)
      then have "partition_point_loop P xs first (len div 2) = k"
        using "1.prems" half nP False
        by (intro "1.IH"(2) [OF False refl mid_def]) (auto simp: mid_def)
      with False nP show ?thesis
        by (simp add: partition_point_loop.simps [of P xs first] Let_def mid_def)
    qed
  qed
qed

text \<open>On a partitioned list the search returns the length of its longest good prefix.\<close>

lemma partition_point_takeWhile:
  assumes "sorted_wrt (\<lambda>x y. P y \<longrightarrow> P x) xs"
  shows "partition_point_loop P xs 0 (length xs) = length (takeWhile P xs)"
proof (rule partition_point_loop_correct)
  fix i assume i: "i < 0 + length xs"
  show "P (xs ! i) \<longleftrightarrow> i < length (takeWhile P xs)"
  proof
    assume P: "P (xs ! i)"
    show "i < length (takeWhile P xs)"
    proof (rule ccontr)
      let ?j = "length (takeWhile P xs)"
      assume "\<not> i < ?j"
      then have "?j \<le> i" by simp
      then have "P (xs ! ?j)"
        using P i sorted_wrt_nth_less [OF assms, of ?j i] by (cases "?j = i") auto
      moreover have "\<not> P (xs ! ?j)"
        using \<open>?j \<le> i\<close> i by (intro takeWhile_nth_length) simp
      ultimately show False by simp
    qed
  qed (rule nth_before_takeWhile)
qed (auto simp: length_takeWhile_le)

lemma mset_insert_by [simp]: "mset (insert_by lt x xs) = add_mset x (mset xs)"
  by (induction xs) auto

lemma mset_std_sort [simp]: "mset (std_sort lt xs) = mset xs"
  unfolding std_sort_def by (induction xs) auto

lemma set_std_sort [simp]: "set (std_sort lt xs) = set xs"
  by (metis mset_std_sort set_mset_mset)

lemma length_std_sort [simp]: "length (std_sort lt xs) = length xs"
  by (metis mset_std_sort size_mset)

lemma distinct_std_sort [simp]: "distinct (std_sort lt xs) = distinct xs"
  by (metis mset_std_sort mset_eq_imp_distinct_iff)

lemma mset_std_merge [simp]: "mset (std_merge lt xs ys) = mset xs + mset ys"
  by (induction lt xs ys rule: std_merge.induct) auto

lemma set_std_merge [simp]: "set (std_merge lt xs ys) = set xs \<union> set ys"
  by (metis mset_std_merge set_mset_mset set_mset_union)

lemma set_std_unique_subset: "set (std_unique p xs) \<subseteq> set xs"
  by (induction p xs rule: std_unique.induct) auto

lemma std_unique_sorted_wrt: "sorted_wrt R xs \<Longrightarrow> sorted_wrt R (std_unique p xs)"
proof (induction p xs rule: std_unique.induct)
  case (3 p x y zs)
  then show ?case using set_std_unique_subset [of p "y # zs"] by auto
qed auto

subsection \<open>The contract of a comparison\<close>

text \<open>
  What \<open>std::sort\<close> and its kin ask of the comparison they are given, strengthened to a
  linear order: every comparison of the modelled code distinguishes distinct elements.
\<close>

locale comparator =
  fixes less :: "'a \<Rightarrow> 'a \<Rightarrow> bool"
  assumes irrefl: "\<not> less x x"
    and trans: "less x y \<Longrightarrow> less y z \<Longrightarrow> less x z"
    and total: "x \<noteq> y \<Longrightarrow> less x y \<or> less y x"
begin

lemma asym: "less x y \<Longrightarrow> \<not> less y x"
  using irrefl trans by blast

lemma not_less: "\<not> less x y \<longleftrightarrow> less y x \<or> x = y"
  using asym irrefl total by blast

lemma not_less_trans: "\<not> less y x \<Longrightarrow> \<not> less z y \<Longrightarrow> \<not> less z x"
  using not_less trans by blast

lemma less_weak_trans: "less x y \<Longrightarrow> \<not> less z y \<Longrightarrow> less x z"
  using not_less trans by blast

lemma weak_less_trans: "\<not> less y x \<Longrightarrow> less y z \<Longrightarrow> less x z"
  using not_less trans by blast

lemma sorted_insert_by:
  "sorted_wrt (\<lambda>x y. \<not> less y x) ys \<Longrightarrow> sorted_wrt (\<lambda>x y. \<not> less y x) (insert_by less x ys)"
proof (induction ys)
  case (Cons y ys)
  have "set (insert_by less x ys) = insert x (set ys)"
    by (metis mset_insert_by set_mset_add_mset_insert set_mset_mset)
  with Cons show ?case by (auto dest: asym) (metis not_less trans)
qed simp

lemma sorted_std_sort: "sorted_wrt (\<lambda>x y. \<not> less y x) (std_sort less xs)"
  unfolding std_sort_def by (induction xs) (auto intro: sorted_insert_by)

lemma sorted_strict:
  "sorted_wrt (\<lambda>x y. \<not> less y x) xs \<Longrightarrow> distinct xs \<Longrightarrow> sorted_wrt less xs"
  by (induction xs) (auto, metis total)

lemma sorted_weak: "sorted_wrt less xs \<Longrightarrow> sorted_wrt (\<lambda>x y. \<not> less y x) xs"
  by (rule sorted_wrt_mono_rel [of xs less]) (auto dest: asym)

lemma sorted_distinct: "sorted_wrt less xs \<Longrightarrow> distinct xs"
  by (induction xs) (auto simp: irrefl)

lemma std_sort_sorted:
  assumes "sorted_wrt (\<lambda>x y. \<not> less y x) ys" "mset xs = mset ys"
  shows "std_sort less xs = ys"
  by (rule sorted_wrt_mset_unique [OF sorted_std_sort assms(1)])
    (use assms(2) not_less in auto)

lemma std_sort_idem: "sorted_wrt (\<lambda>x y. \<not> less y x) xs \<Longrightarrow> std_sort less xs = xs"
  by (rule std_sort_sorted) auto

lemma sorted_std_merge:
  "sorted_wrt (\<lambda>x y. \<not> less y x) xs \<Longrightarrow> sorted_wrt (\<lambda>x y. \<not> less y x) ys \<Longrightarrow>
   sorted_wrt (\<lambda>x y. \<not> less y x) (std_merge less xs ys)"
proof (induction xs arbitrary: ys)
  case (Cons x xs)
  note Cons_IH = Cons.IH and x_xs = Cons.prems(1)
  from Cons.prems(2) show ?case
  proof (induction ys)
    case (Cons y ys)
    show ?case
    proof (cases "less y x")
      case True
      with Cons x_xs show ?thesis
        by (auto dest: asym less_weak_trans)
    next
      case False
      with Cons.prems x_xs show ?thesis
        by (auto simp: Cons_IH dest: weak_less_trans not_less_trans)
    qed
  qed (use x_xs in simp)
qed simp

text \<open>Binary search on a sorted list, for any key that compares monotonically.\<close>

lemma std_lower_bound_sorted:
  assumes "sorted_wrt (\<lambda>x y. \<not> less y x) xs"
  shows "std_lower_bound less xs v = length (takeWhile (\<lambda>e. less e v) xs)"
  unfolding std_lower_bound_def
  by (rule partition_point_takeWhile, rule sorted_wrt_mono_rel [OF _ assms])
    (metis not_less trans)

lemma std_upper_bound_sorted:
  assumes "sorted_wrt (\<lambda>x y. \<not> less y x) xs"
  shows "std_upper_bound less xs v = length (takeWhile (\<lambda>e. \<not> less v e) xs)"
  unfolding std_upper_bound_def
  by (rule partition_point_takeWhile, rule sorted_wrt_mono_rel [OF _ assms])
    (metis not_less trans)

lemma takeWhile_less_eq_filter:
  "sorted_wrt (\<lambda>x y. \<not> less y x) xs \<Longrightarrow> takeWhile (\<lambda>e. less e v) xs = filter (\<lambda>e. less e v) xs"
proof (induction xs)
  case (Cons x xs)
  show ?case
  proof (cases "less x v")
    case True
    with Cons show ?thesis by simp
  next
    case False
    then have "\<forall>y \<in> set xs. \<not> less y v"
      using Cons.prems not_less_trans by auto
    with False show ?thesis by simp
  qed
qed simp

lemma std_binary_search_sorted:
  assumes "sorted_wrt (\<lambda>x y. \<not> less y x) xs"
  shows "std_binary_search less less xs v \<longleftrightarrow> v \<in> set xs"
proof -
  let ?i = "length (takeWhile (\<lambda>e. less e v) xs)"
  have lb: "std_lower_bound less xs v = ?i" by (rule std_lower_bound_sorted [OF assms])
  show ?thesis
  proof
    assume "std_binary_search less less xs v"
    then have i: "?i < length xs" "\<not> less v (xs ! ?i)"
      by (auto simp: std_binary_search_def lb Let_def)
    moreover have "\<not> less (xs ! ?i) v" by (rule takeWhile_nth_length [OF i(1)])
    ultimately have "xs ! ?i = v" using not_less asym by blast
    with i show "v \<in> set xs" by (metis nth_mem)
  next
    assume v: "v \<in> set xs"
    have i: "?i < length xs"
    proof (rule ccontr)
      assume "\<not> ?i < length xs"
      then have "takeWhile (\<lambda>e. less e v) xs = xs"
        by (metis length_takeWhile_le linorder_not_less order_antisym take_all takeWhile_eq_take)
      with v have "less v v" by (metis set_takeWhileD)
      then show False by (simp add: irrefl)
    qed
    from v obtain j where j: "j < length xs" "xs ! j = v" by (auto simp: in_set_conv_nth)
    have "?i \<le> j" using j irrefl by (metis linorder_not_less nth_before_takeWhile)
    then have "\<not> less v (xs ! ?i)"
      using j sorted_wrt_nth_less [OF assms, of ?i j] irrefl by (cases "?i = j") auto
    with i show "std_binary_search less less xs v"
      by (simp add: std_binary_search_def lb Let_def)
  qed
qed

end

end
