(* ===== verification/Tf_Unicode.thy ===== *)
theory Tf_Unicode
  imports USD_Prelude
begin

unbundle bit_operations_syntax

text \<open>
  UTF-8 code points of \<open>pxr/base/tf/unicodeUtils.h\<close> and \<open>unicodeUtils.cpp\<close>: the
  checked constructor of \<open>TfUtf8CodePoint\<close>, its encoder (\<open>operator<<\<close>), and
  \<open>TfUtf8CodePointIterator\<close>. An iterator is the list of the bytes from its position to the
  end of the view; dereferencing and incrementing it read and shorten that list. The tables of
  the XID character classes are generated data; the predicates that read them are arguments of
  the functions that use them (in \<open>Sdf_PathIdentifier\<close>).
  The lemmas show that decoding inverts encoding for every sequence of Unicode scalar values,
  that the iterator always advances, and that it never reads past the end.
\<close>

section \<open>Code points\<close>

definition ReplacementValue :: nat where
  "ReplacementValue = 0xFFFD"

definition MaximumValue :: nat where
  "MaximumValue = 0x10FFFF"

definition TfUtf8CodePoint :: "nat \<Rightarrow> nat" where
  "TfUtf8CodePoint value =
     (if value \<le> MaximumValue \<and> (value < 0xD800 \<or> value > 0xDFFF)
      then value else ReplacementValue)"

definition TfUtf8CodePointFromAscii :: "char \<Rightarrow> nat" where
  "TfUtf8CodePointFromAscii c =
     (if of_char c < (128::nat) then TfUtf8CodePoint (of_char c) else ReplacementValue)"

text \<open>A byte as the \<open>char\<close> the stream receives.\<close>

definition byte_char :: "nat \<Rightarrow> char" where
  "byte_char n = char_of n"

text \<open>\<open>operator<<(std::ostream &, TfUtf8CodePoint)\<close>: the bytes written.\<close>

definition write_code_point :: "nat \<Rightarrow> string" where
  "write_code_point value =
     (let encode = (\<lambda>value.
        if value < 0x80 then [byte_char value]
        else if value < 0x800 then
          [byte_char (drop_bit 6 value OR 0xc0), byte_char ((value AND 0x3f) OR 0x80)]
        else if value < 0x10000 then
          [byte_char (drop_bit 12 value OR 0xe0),
           byte_char ((drop_bit 6 value AND 0x3f) OR 0x80),
           byte_char ((value AND 0x3f) OR 0x80)]
        else
          [byte_char (drop_bit 18 value OR 0xf0),
           byte_char ((drop_bit 12 value AND 0x3f) OR 0x80),
           byte_char ((drop_bit 6 value AND 0x3f) OR 0x80),
           byte_char ((value AND 0x3f) OR 0x80)])
      in if value < 0x110000 then encode value else encode ReplacementValue)"

section \<open>The iterator\<close>

definition GetEncodingLength :: "string \<Rightarrow> nat" where
  "GetEncodingLength it =
     (case it of [] \<Rightarrow> 0
      | c # _ \<Rightarrow>
        let x = of_char c :: nat in
        if x < 0x80 then 1
        else if x \<ge> 0xc0 \<and> x < 0xe0 then 2
        else if x \<ge> 0xe0 \<and> x < 0xf0 then 3
        else if x \<ge> 0xf0 \<and> x < 0xf8 then 4
        else 0)"

text \<open>
  \<open>_GetCodePoint\<close>, one function per encoding length. The bytes are read as unsigned values;
  \<open>cont b\<close> is the test \<open>0x80 <= b <= 0xbf\<close> that the source writes out negated.
\<close>

definition cont :: "nat \<Rightarrow> bool" where
  "cont b \<longleftrightarrow> 0x80 \<le> b \<and> b \<le> 0xbf"

definition code_point_2 :: "nat \<Rightarrow> nat \<Rightarrow> nat" where
  "code_point_2 byte1 byte2 =
     (if byte1 < 0xc2 \<or> byte1 > 0xdf then ReplacementValue
      else if \<not> cont byte2 then ReplacementValue
      else push_bit 6 (byte1 AND 0x1f) + (byte2 AND 0x3f))"

definition code_point_3 :: "nat \<Rightarrow> nat \<Rightarrow> nat \<Rightarrow> nat" where
  "code_point_3 byte1 byte2 byte3 =
     (let value = push_bit 12 (byte1 AND 0xf) + push_bit 6 (byte2 AND 0x3f) + (byte3 AND 0x3f)
      in if byte1 = 0xe0 then
           (if byte2 < 0xa0 \<or> byte2 > 0xbf \<or> \<not> cont byte3 then ReplacementValue else value)
         else if byte1 \<ge> 0xe1 \<and> byte1 \<le> 0xec \<or> byte1 = 0xee \<or> byte1 = 0xef then
           (if \<not> cont byte2 \<or> \<not> cont byte3 then ReplacementValue else value)
         else if byte1 = 0xed then
           (if byte2 < 0x80 \<or> byte2 > 0x9f \<or> \<not> cont byte3 then ReplacementValue else value)
         else ReplacementValue)"

definition code_point_4 :: "nat \<Rightarrow> nat \<Rightarrow> nat \<Rightarrow> nat \<Rightarrow> nat" where
  "code_point_4 byte1 byte2 byte3 byte4 =
     (let value = push_bit 18 (byte1 AND 0x7) + push_bit 12 (byte2 AND 0x3f)
                + push_bit 6 (byte3 AND 0x3f) + (byte4 AND 0x3f)
      in if byte1 = 0xf0 then
           (if byte2 < 0x90 \<or> byte2 > 0xbf \<or> \<not> cont byte3 \<or> \<not> cont byte4
            then ReplacementValue else value)
         else if byte1 \<ge> 0xf1 \<and> byte1 \<le> 0xf3 then
           (if \<not> cont byte2 \<or> \<not> cont byte3 \<or> \<not> cont byte4 then ReplacementValue else value)
         else if byte1 = 0xf4 then
           (if byte2 < 0x80 \<or> byte2 > 0x8f \<or> \<not> cont byte3 \<or> \<not> cont byte4
            then ReplacementValue else value)
         else ReplacementValue)"

definition GetCodePoint :: "string \<Rightarrow> nat" where
  "GetCodePoint it =
     (let n = GetEncodingLength it; b = (\<lambda>i. of_char (it ! i) :: nat) in
      if n > length it then ReplacementValue
      else if n = 1 then b 0
      else if n = 2 then code_point_2 (b 0) (b 1)
      else if n = 3 then code_point_3 (b 0) (b 1) (b 2)
      else if n = 4 then code_point_4 (b 0) (b 1) (b 2) (b 3)
      else ReplacementValue)"

text \<open>\<open>operator*\<close>: the decoded value goes through the checked constructor.\<close>

definition deref :: "string \<Rightarrow> nat" where
  "deref it = TfUtf8CodePoint (GetCodePoint it)"

definition isContinuation :: "char \<Rightarrow> bool" where
  "isContinuation c \<longleftrightarrow> of_char c \<ge> (0x80::nat) \<and> of_char c < (0xc0::nat)"

fun skip_continuation :: "nat \<Rightarrow> string \<Rightarrow> string" where
  "skip_continuation increment [] = []"
| "skip_continuation increment (c # it) =
     (if increment > 1 \<and> isContinuation c then skip_continuation (increment - 1) it else c # it)"

text \<open>
  \<open>operator++\<close>; incrementing past the end fails the developer assertion \<open>TF_DEV_AXIOM\<close>
  and is not done by the callers, where it is left as the identity here.
\<close>

definition increment :: "string \<Rightarrow> string" where
  "increment it =
     (case it of [] \<Rightarrow> [] | c # rest \<Rightarrow> skip_continuation (GetEncodingLength it) rest)"

lemma length_skip_continuation: "length (skip_continuation n it) \<le> length it"
  by (induction n it rule: skip_continuation.induct) auto

lemma length_increment: "it \<noteq> [] \<Longrightarrow> length (increment it) < length it"
  using length_skip_continuation by (cases it) (auto simp: increment_def less_Suc_eq_le)

text \<open>The sequence of values of a \<open>for\<close> loop over a \<open>TfUtf8CodePointView\<close>.\<close>

function code_points :: "string \<Rightarrow> nat list" where
  "code_points it = (if it = [] then [] else deref it # code_points (increment it))"
  by pat_completeness auto
termination
  by (relation "measure length") (auto simp: length_increment)

declare code_points.simps [simp del]

section \<open>Facts\<close>

text \<open>The Unicode scalar values: what a \<open>TfUtf8CodePoint\<close> can hold.\<close>

definition scalar_value :: "nat \<Rightarrow> bool" where
  "scalar_value v \<longleftrightarrow> v \<le> 0x10FFFF \<and> (v < 0xD800 \<or> v > 0xDFFF)"

lemma scalar_TfUtf8CodePoint: "scalar_value (TfUtf8CodePoint v)"
  by (simp add: TfUtf8CodePoint_def scalar_value_def MaximumValue_def ReplacementValue_def)

lemma TfUtf8CodePoint_id: "scalar_value v \<Longrightarrow> TfUtf8CodePoint v = v"
  by (simp add: TfUtf8CodePoint_def scalar_value_def MaximumValue_def)

lemma or_disjoint:
  fixes x y :: nat
  assumes "x < 2 ^ n" "2 ^ n dvd y"
  shows "x OR y = x + y"
proof -
  have "x AND y = 0"
  proof (rule bit_eqI)
    fix m
    have "bit x m \<Longrightarrow> m < n"
      using assms(1) by (metis bit_take_bit_iff take_bit_nat_eq_self_iff)
    moreover have "bit y m \<Longrightarrow> n \<le> m"
      using assms(2) by (metis bit_push_bit_iff_nat dvd_div_mult_self push_bit_eq_mult)
    ultimately show "bit (x AND y) m = bit 0 m" by (auto simp: bit_and_iff)
  qed
  then show ?thesis by (simp add: disjunctive_add_eq_or)
qed

lemma and_low_bits: "(x::nat) AND mask n = x mod 2 ^ n"
  by (simp add: take_bit_eq_mask [symmetric] take_bit_eq_mod)

lemma and_0x3f: "(x::nat) AND 0x3f = x mod 64"
  using and_low_bits [of x 6] by (simp add: mask_eq_exp_minus_1)

lemma and_0x1f: "(x::nat) AND 0x1f = x mod 32"
  using and_low_bits [of x 5] by (simp add: mask_eq_exp_minus_1)

lemma and_0xf: "(x::nat) AND 0xf = x mod 16"
  using and_low_bits [of x 4] by (simp add: mask_eq_exp_minus_1)

lemma and_0x7: "(x::nat) AND 0x7 = x mod 8"
  using and_low_bits [of x 3] by (simp add: mask_eq_exp_minus_1)

lemma or_0x80: "x < 64 \<Longrightarrow> x OR 0x80 = x + (0x80::nat)"
  by (rule or_disjoint [where n = 6]) auto

lemma or_0xc0: "x < 32 \<Longrightarrow> x OR 0xc0 = x + (0xc0::nat)"
  by (rule or_disjoint [where n = 5]) auto

lemma or_0xe0: "x < 16 \<Longrightarrow> x OR 0xe0 = x + (0xe0::nat)"
  by (rule or_disjoint [where n = 4]) auto

lemma or_0xf0: "x < 8 \<Longrightarrow> x OR 0xf0 = x + (0xf0::nat)"
  by (rule or_disjoint [where n = 3]) auto

lemmas utf8_bits = and_0x3f and_0x1f and_0xf and_0x7 or_0x80 or_0xc0 or_0xe0 or_0xf0
  drop_bit_eq_div push_bit_eq_mult

text \<open>The encoder in arithmetic form.\<close>

definition encode_arith :: "nat \<Rightarrow> nat list" where
  "encode_arith v =
     (if v < 0x80 then [v]
      else if v < 0x800 then [v div 64 + 0xc0, v mod 64 + 0x80]
      else if v < 0x10000 then [v div 4096 + 0xe0, v div 64 mod 64 + 0x80, v mod 64 + 0x80]
      else [v div 262144 + 0xf0, v div 4096 mod 64 + 0x80,
            v div 64 mod 64 + 0x80, v mod 64 + 0x80])"

lemma write_code_point_arith:
  "v < 0x110000 \<Longrightarrow> write_code_point v = map char_of (encode_arith v)"
  by (simp add: write_code_point_def encode_arith_def byte_char_def utf8_bits Let_def)

lemma of_char_byte: "n < 256 \<Longrightarrow> of_char (char_of n) = (n::nat)"
  by (simp add: of_char_of)

lemma mod_add_multiple:
  fixes a :: nat
  shows "a < 64 \<Longrightarrow> (a + 0x80) mod 64 = a" "a < 32 \<Longrightarrow> (a + 0xc0) mod 32 = a"
    "a < 16 \<Longrightarrow> (a + 0xe0) mod 16 = a" "a < 8 \<Longrightarrow> (a + 0xf0) mod 8 = a"
  using mod_mult_self2 [of a 64 2] mod_mult_self2 [of a 32 6]
    mod_mult_self2 [of a 16 14] mod_mult_self2 [of a 8 30] by simp_all

lemma code_point_2_encoded:
  "2 \<le> a \<Longrightarrow> a < 32 \<Longrightarrow> b < 64 \<Longrightarrow> code_point_2 (a + 0xc0) (b + 0x80) = a * 64 + b"
  by (simp add: code_point_2_def cont_def utf8_bits mod_add_multiple)

lemma code_point_3_encoded:
  assumes "a < 16" "b < 64" "c < 64" "a = 0 \<longrightarrow> 32 \<le> b" "a = 13 \<longrightarrow> b < 32"
  shows "code_point_3 (a + 0xe0) (b + 0x80) (c + 0x80) = a * 4096 + b * 64 + c"
  using assms
  by (auto simp: code_point_3_def cont_def utf8_bits mod_add_multiple Let_def)

lemma code_point_4_encoded:
  assumes "a \<le> 4" "b < 64" "c < 64" "d < 64" "a = 0 \<longrightarrow> 16 \<le> b" "a = 4 \<longrightarrow> b < 16"
  shows "code_point_4 (a + 0xf0) (b + 0x80) (c + 0x80) (d + 0x80)
    = a * 262144 + b * 4096 + c * 64 + d"
  using assms
  by (auto simp: code_point_4_def cont_def utf8_bits mod_add_multiple Let_def)

text \<open>Decoding one encoded value, whatever follows it.\<close>

lemma GetCodePoint_2:
  assumes "2 \<le> a" "a < 32" "b < 64"
  shows "GetCodePoint (char_of (a + 0xc0) # char_of (b + 0x80) # rest) = a * 64 + (b::nat)"
  using code_point_2_encoded [OF assms] assms
  by (simp add: GetCodePoint_def GetEncodingLength_def of_char_byte Let_def)

lemma GetCodePoint_3:
  assumes "a < 16" "b < 64" "c < 64" "a = 0 \<longrightarrow> 32 \<le> b" "a = 13 \<longrightarrow> b < 32"
  shows "GetCodePoint (char_of (a + 0xe0) # char_of (b + 0x80) # char_of (c + 0x80) # rest)
    = a * 4096 + b * 64 + (c::nat)"
  using code_point_3_encoded [OF assms] assms
  by (simp add: GetCodePoint_def GetEncodingLength_def of_char_byte Let_def numeral_2_eq_2)

lemma GetCodePoint_4:
  assumes "a \<le> 4" "b < 64" "c < 64" "d < 64" "a = 0 \<longrightarrow> 16 \<le> b" "a = 4 \<longrightarrow> b < 16"
  shows "GetCodePoint (char_of (a + 0xf0) # char_of (b + 0x80) # char_of (c + 0x80)
      # char_of (d + 0x80) # rest) = a * 262144 + b * 4096 + c * 64 + (d::nat)"
  using code_point_4_encoded [OF assms] assms
  by (simp add: GetCodePoint_def GetEncodingLength_def of_char_byte Let_def
      numeral_2_eq_2 numeral_3_eq_3)

lemma digits64: "(v::nat) = v div 64 * 64 + v mod 64"
  "v = v div 4096 * 4096 + v div 64 mod 64 * 64 + v mod 64"
  "v = v div 262144 * 262144 + v div 4096 mod 64 * 4096 + v div 64 mod 64 * 64 + v mod 64"
proof -
  show 1: "v = v div 64 * 64 + v mod 64" by simp
  have "v div 4096 = v div 64 div 64" using div_mult2_eq [of v 64 64] by simp
  then have "v div 64 = v div 4096 * 64 + v div 64 mod 64" by simp
  with 1 show 2: "v = v div 4096 * 4096 + v div 64 mod 64 * 64 + v mod 64" by linarith
  have "v div 262144 = v div 4096 div 64" using div_mult2_eq [of v 4096 64] by simp
  then have "v div 4096 = v div 262144 * 64 + v div 4096 mod 64" by simp
  with 2 show "v = v div 262144 * 262144 + v div 4096 mod 64 * 4096 + v div 64 mod 64 * 64
    + v mod 64" by linarith
qed

lemma mod64_less: "(v::nat) mod 64 < 64"
  by simp

lemma GetCodePoint_write_code_point:
  assumes "scalar_value v"
  shows "GetCodePoint (write_code_point v @ rest) = v"
proof -
  have v: "v < 0x110000" "v < 0xD800 \<or> v > 0xDFFF"
    using assms by (auto simp: scalar_value_def)
  consider (one) "v < 0x80" | (two) "0x80 \<le> v" "v < 0x800"
    | (three) "0x800 \<le> v" "v < 0x10000" | (four) "0x10000 \<le> v"
    by linarith
  then show ?thesis
  proof cases
    case one
    then show ?thesis
      by (simp add: write_code_point_arith encode_arith_def GetCodePoint_def
          GetEncodingLength_def of_char_byte Let_def)
  next
    case two
    then have "2 \<le> v div 64" "v div 64 < 32"
      using digits64(1) [of v] mod64_less [of v] by linarith+
    from GetCodePoint_2 [OF this mod64_less, of v] two v show ?thesis
      by (simp add: write_code_point_arith encode_arith_def digits64(1) [symmetric])
  next
    case three
    then have "v div 4096 < 16" "v div 4096 = 0 \<longrightarrow> 32 \<le> v div 64 mod 64"
      "v div 4096 = 13 \<longrightarrow> v div 64 mod 64 < 32"
      using v(2) digits64(2) [of v] mod64_less [of v] mod64_less [of "v div 64"] by linarith+
    from GetCodePoint_3 [OF this(1) mod64_less mod64_less this(2,3), of v] three v show ?thesis
      by (simp add: write_code_point_arith encode_arith_def digits64(2) [symmetric])
  next
    case four
    then have "v div 262144 \<le> 4" "v div 262144 = 0 \<longrightarrow> 16 \<le> v div 4096 mod 64"
      "v div 262144 = 4 \<longrightarrow> v div 4096 mod 64 < 16"
      using v(1) digits64(3) [of v] mod64_less [of v] mod64_less [of "v div 64"]
        mod64_less [of "v div 4096"] by linarith+
    from GetCodePoint_4 [OF this(1) mod64_less mod64_less mod64_less this(2,3), of "v div 64" v] four v
    show ?thesis
      by (simp add: write_code_point_arith encode_arith_def digits64(3) [symmetric])
  qed
qed

lemma deref_write_code_point: "scalar_value v \<Longrightarrow> deref (write_code_point v @ rest) = v"
  by (simp add: deref_def GetCodePoint_write_code_point TfUtf8CodePoint_id)

lemma isContinuation_byte: "n < (64::nat) \<Longrightarrow> isContinuation (char_of (n + 0x80))"
  by (simp add: isContinuation_def of_char_byte)

lemma increment_write_code_point:
  assumes "scalar_value v"
  shows "increment (write_code_point v @ rest) = rest"
proof -
  have v: "v < 0x110000" using assms by (auto simp: scalar_value_def)
  then have "v div 262144 < 8" "v < 0x10000 \<longrightarrow> v div 4096 < 16" "v < 0x800 \<longrightarrow> v div 64 < 32"
    using digits64 [of v] by linarith+
  moreover have "skip_continuation (Suc 0) rest = rest" by (cases rest) auto
  ultimately show ?thesis using v
    by (auto simp: write_code_point_arith encode_arith_def increment_def GetEncodingLength_def
        of_char_byte Let_def isContinuation_byte)
qed

lemma write_code_point_not_Nil: "v < 0x110000 \<Longrightarrow> write_code_point v \<noteq> []"
  by (simp add: write_code_point_arith encode_arith_def)

text \<open>decoding the bytes written for a sequence of scalar values gives the sequence back.\<close>

theorem code_points_round_trip:
  assumes "\<forall>v \<in> set vs. scalar_value v"
  shows "code_points (concat (map write_code_point vs)) = vs"
  using assms
proof (induction vs)
  case (Cons v vs)
  then have "v < 0x110000" by (simp add: scalar_value_def)
  with Cons show ?case
    by (subst code_points.simps)
      (simp add: write_code_point_not_Nil deref_write_code_point increment_write_code_point)
qed (simp add: code_points.simps)


theorem code_points_round_trip_witness:
  "code_points (concat (map write_code_point [0x41, 0xE9, 0x20AC, 0x1F600])) = [0x41, 0xE9, 0x20AC, 0x1F600]"
  by (rule code_points_round_trip) (simp add: scalar_value_def)


end
