(* ===== verification/Sdf_PathIdentifier.thy ===== *)
theory Sdf_PathIdentifier
  imports Tf_Unicode
begin

text \<open>
  The identifiers of \<open>SdfPath\<close> (\<open>pxr/usd/sdf/path.cpp\<close>): which names are valid, and how names
  with namespaces are taken apart and joined. Names are UTF-8 and read by the iterator of
  \<open>Tf_Unicode\<close>; an iterator is the rest of the name. The character classes XID_Start and
  XID_Continue come from tables generated at build time and are an argument; of those the
  theorems use that the namespace delimiter, a colon, belongs to neither.
\<close>

section \<open>Valid identifiers\<close>

record char_classes =
  XidStart :: "nat \<Rightarrow> bool"
  XidContinue :: "nat \<Rightarrow> bool"

definition theNamespaceDelimiter :: char where
  "theNamespaceDelimiter = CHR '':''"

definition IsValidIdentifierStart :: "char_classes \<Rightarrow> nat \<Rightarrow> bool" where
  "IsValidIdentifierStart cc codePoint \<longleftrightarrow>
     codePoint = TfUtf8CodePointFromAscii (CHR ''_'') \<or> XidStart cc codePoint"

definition IsValidIdentifier :: "char_classes \<Rightarrow> string \<Rightarrow> bool" where
  "IsValidIdentifier cc name =
     (if name = [] then False
      else if \<not> IsValidIdentifierStart cc (deref name) then False
      else list_all (XidContinue cc) (code_points (increment name)))"

text \<open>\<open>std::string_view::find\<close> of a character, \<open>None\<close> for \<open>npos\<close>.\<close>

fun find_char :: "char \<Rightarrow> string \<Rightarrow> nat option" where
  "find_char c [] = None"
| "find_char c (x # xs) = (if x = c then Some 0 else map_option Suc (find_char c xs))"

text \<open>The loop of \<open>IsValidNamespacedIdentifier\<close> over the remainder.\<close>

function namespaced_loop :: "char_classes \<Rightarrow> string \<Rightarrow> bool" where
  "namespaced_loop cc remainder =
     (if remainder = [] then True
      else
        case find_char theNamespaceDelimiter remainder of
          None \<Rightarrow> IsValidIdentifier cc remainder
        | Some index \<Rightarrow>
            if index = 0 then False
            else if index = length remainder - 1 then False
            else if \<not> IsValidIdentifier cc (take index remainder) then False
            else namespaced_loop cc (drop (index + 1) remainder))"
  by pat_completeness auto
termination
  by (relation "measure (length o snd)") auto

declare namespaced_loop.simps [simp del]

definition IsValidNamespacedIdentifier :: "char_classes \<Rightarrow> string \<Rightarrow> bool" where
  "IsValidNamespacedIdentifier cc name = (if name = [] then False else namespaced_loop cc name)"

section \<open>Taking names apart\<close>

text \<open>The characters from one iterator up to another one.\<close>

definition string_between :: "string \<Rightarrow> string \<Rightarrow> string" where
  "string_between start stop = take (length start - length stop) start"

text \<open>The loop of \<open>TokenizeIdentifier\<close>: the start of the current token, the iterator and the
  tokens so far.\<close>

function tokenize_loop :: "char_classes \<Rightarrow> string \<Rightarrow> string \<Rightarrow> string list \<Rightarrow> string list" where
  "tokenize_loop cc anchor it result =
     (if it = [] then result @ [string_between anchor it]
      else if deref it = TfUtf8CodePointFromAscii theNamespaceDelimiter then
        let result = result @ [string_between anchor it];
            anchor = increment it
        in if \<not> IsValidIdentifierStart cc (deref anchor) then []
           else tokenize_loop cc anchor (increment anchor) result
      else if \<not> XidContinue cc (deref it) then []
      else tokenize_loop cc anchor (increment it) result)"
  by pat_completeness auto
termination
proof (relation "measure (\<lambda>(cc, anchor, it, result). length it)", goal_cases)
  case (2 cc anchor it result x xa)
  then have "length (increment it) < length it" by (simp add: length_increment)
  moreover have "length (increment (increment it)) \<le> length (increment it)"
    using length_increment [of "increment it"] by (cases "increment it = []") (auto simp: increment_def [of "[]"])
  ultimately show ?case using 2 by simp
qed (auto simp: length_increment)

declare tokenize_loop.simps [simp del]

definition TokenizeIdentifier :: "char_classes \<Rightarrow> string \<Rightarrow> string list" where
  "TokenizeIdentifier cc name =
     (if name = [] \<or> last name = theNamespaceDelimiter then []
      else if \<not> IsValidIdentifierStart cc (deref name) then []
      else tokenize_loop cc name (increment name) [])"

section \<open>Joining names\<close>

text \<open>\<open>TfStringJoin\<close> with the delimiter.\<close>

fun TfStringJoin :: "string list \<Rightarrow> string \<Rightarrow> string" where
  "TfStringJoin [] separator = []"
| "TfStringJoin [s] separator = s"
| "TfStringJoin (s # ss) separator = s @ separator @ TfStringJoin ss separator"

definition JoinIdentifier :: "string list \<Rightarrow> string" where
  "JoinIdentifier names =
     (if list_ex (\<lambda>s. s = []) names
      then TfStringJoin (filter (\<lambda>s. s \<noteq> []) names) [theNamespaceDelimiter]
      else TfStringJoin names [theNamespaceDelimiter])"

definition JoinIdentifier_tokens :: "token list \<Rightarrow> string" where
  "JoinIdentifier_tokens names = TfStringJoin (filter (\<lambda>s. s \<noteq> []) names) [theNamespaceDelimiter]"

definition JoinIdentifier2 :: "string \<Rightarrow> string \<Rightarrow> string" where
  "JoinIdentifier2 lhs rhs =
     (if lhs = [] then rhs else if rhs = [] then lhs else lhs @ [theNamespaceDelimiter] @ rhs)"

text \<open>\<open>rfind\<close> is the search in the reversed string.\<close>

definition StripNamespace :: "string \<Rightarrow> string" where
  "StripNamespace name =
     (case find_char theNamespaceDelimiter (rev name) of
        None \<Rightarrow> name
      | Some k \<Rightarrow> drop (length name - k) name)"

text \<open>The character at the end of the string is the terminating zero.\<close>

definition StripPrefixNamespace :: "string \<Rightarrow> string \<Rightarrow> string \<times> bool" where
  "StripPrefixNamespace name matchNamespace =
     (if matchNamespace = [] then (name, False)
      else if take (length matchNamespace) name = matchNamespace then
        (let n = length matchNamespace in
         if last matchNamespace = theNamespaceDelimiter then (drop n name, True)
         else if n < length name \<and> name ! n = theNamespaceDelimiter
         then (drop (n + 1) name, True)
         else (name, False))
      else (name, False))"

section \<open>The iterator at a delimiter\<close>

lemma colon: "TfUtf8CodePointFromAscii theNamespaceDelimiter = 0x3A"
  by (simp add: TfUtf8CodePointFromAscii_def theNamespaceDelimiter_def TfUtf8CodePoint_def MaximumValue_def)

lemma ReplacementValue_id [simp]: "TfUtf8CodePoint ReplacementValue = ReplacementValue"
  by (simp add: TfUtf8CodePoint_def)

lemma mod_of_interval:
  fixes b :: nat
  assumes "q * m \<le> b" "b < q * m + m"
  shows "b mod m = b - q * m"
proof -
  have "b mod m = (b - q * m + q * m) mod m" using assms(1) by simp
  also have "\<dots> = (b - q * m) mod m" by (rule mod_mult_self1)
  also have "\<dots> = b - q * m" using assms by (intro mod_less) linarith
  finally show ?thesis .
qed

lemma byte_mods:
  fixes b :: nat
  shows "0xc2 \<le> b \<Longrightarrow> b \<le> 0xdf \<Longrightarrow> b mod 32 \<ge> 2" "0xa0 \<le> b \<Longrightarrow> b \<le> 0xbf \<Longrightarrow> b mod 64 \<ge> 32"
    "0xe1 \<le> b \<Longrightarrow> b \<le> 0xef \<Longrightarrow> b mod 16 \<ge> 1" "0x90 \<le> b \<Longrightarrow> b \<le> 0xbf \<Longrightarrow> b mod 64 \<ge> 16"
    "0xf1 \<le> b \<Longrightarrow> b \<le> 0xf4 \<Longrightarrow> b mod 8 \<ge> 1"
  using mod_of_interval [of 6 32 b] mod_of_interval [of 2 64 b] mod_of_interval [of 14 16 b]
    mod_of_interval [of 30 8 b] by simp_all

text \<open>Only a byte below 128 stands for a code point below 128.\<close>

lemma code_point_not_ascii:
  "code_point_2 a b \<ge> 0x80" "code_point_3 a b c \<ge> 0x80" "code_point_4 a b c d \<ge> 0x80"
  using byte_mods(1) [of a] byte_mods(2) [of b] byte_mods(3) [of a] byte_mods(4) [of b] byte_mods(5) [of a]
  by (auto simp: code_point_2_def code_point_3_def code_point_4_def cont_def utf8_bits
      ReplacementValue_def Let_def not_less not_le)

lemma deref_ascii: "it \<noteq> [] \<Longrightarrow> deref it = v \<Longrightarrow> v < 0x80 \<Longrightarrow> of_char (hd it) = v"
  using code_point_not_ascii
  by (cases it) (auto simp: deref_def GetCodePoint_def GetEncodingLength_def Let_def ReplacementValue_def
      TfUtf8CodePoint_def MaximumValue_def not_less [symmetric] split: if_splits)

lemma deref_delimiter: "deref (theNamespaceDelimiter # it) = 0x3A"
  by (simp add: deref_def GetCodePoint_def GetEncodingLength_def theNamespaceDelimiter_def
      TfUtf8CodePoint_def MaximumValue_def)

lemma delimiter_value: "of_char theNamespaceDelimiter = (0x3A :: nat)"
  by (simp add: theNamespaceDelimiter_def)

lemma deref_eq_delimiter: "it \<noteq> [] \<Longrightarrow> deref it = 0x3A \<longleftrightarrow> hd it = theNamespaceDelimiter"
proof
  assume "it \<noteq> []" "deref it = 0x3A"
  from deref_ascii [OF this] have "of_char (hd it) = (of_char theNamespaceDelimiter :: nat)"
    by (simp add: delimiter_value)
  then show "hd it = theNamespaceDelimiter" by simp
qed (metis deref_delimiter list.collapse)

lemma increment_delimiter: "increment (theNamespaceDelimiter # it) = it"
  by (cases it) (simp_all add: increment_def GetEncodingLength_def theNamespaceDelimiter_def)

text \<open>A delimiter is no continuation byte: what follows it has no influence on the code points before it.\<close>

lemma skip_continuation_append:
  "skip_continuation n (s @ theNamespaceDelimiter # r) = skip_continuation n s @ theNamespaceDelimiter # r"
  by (induction n s rule: skip_continuation.induct)
    (auto simp: isContinuation_def theNamespaceDelimiter_def)

lemma increment_append:
  "s \<noteq> [] \<Longrightarrow> increment (s @ theNamespaceDelimiter # r) = increment s @ theNamespaceDelimiter # r"
  by (cases s) (auto simp: increment_def skip_continuation_append GetEncodingLength_def)

lemma code_point_delimiter:
  "code_point_2 a 0x3A = ReplacementValue"
  "code_point_3 a 0x3A c = ReplacementValue" "code_point_3 a b 0x3A = ReplacementValue"
  "code_point_4 a 0x3A c d = ReplacementValue" "code_point_4 a b 0x3A d = ReplacementValue"
  "code_point_4 a b c 0x3A = ReplacementValue"
  by (auto simp: code_point_2_def code_point_3_def code_point_4_def cont_def Let_def)

lemma GetCodePoint_append:
  assumes "s \<noteq> []"
  shows "GetCodePoint (s @ theNamespaceDelimiter # r) = GetCodePoint s"
proof -
  let ?w = "s @ theNamespaceDelimiter # r"
  define n where "n = GetEncodingLength s"
  have n: "GetEncodingLength ?w = n"
    using assms by (cases s) (simp_all add: GetEncodingLength_def n_def)
  have le: "n = 0 \<or> n = 1 \<or> n = 2 \<or> n = 3 \<or> n = 4"
    by (simp add: n_def GetEncodingLength_def Let_def split: list.splits)
  have pos: "length s > 0" using assms by simp
  show ?thesis
  proof (cases "n \<le> length s")
    case True
    then have "?w ! i = s ! i" if "i < n" for i using that by (simp add: nth_append)
    with True le show ?thesis by (auto simp: GetCodePoint_def n n_def [symmetric] Let_def)
  next
    case False
    have "?w ! length s = theNamespaceDelimiter" by simp
    then have at: "of_char (?w ! i) = (0x3A :: nat)" if "i = length s" for i
      using that by (simp add: delimiter_value del: nth_append_length)
    consider "n = 2" "length s = 1" | "n = 3" "length s = 1 \<or> length s = 2"
      | "n = 4" "length s = 1 \<or> length s = 2 \<or> length s = 3"
      using False le pos by linarith
    then have "GetCodePoint ?w = ReplacementValue"
      by cases (auto simp: GetCodePoint_def n Let_def at code_point_delimiter simp del: nth_append_length)
    with False show ?thesis by (simp add: GetCodePoint_def n_def [symmetric])
  qed
qed

lemma deref_append: "s \<noteq> [] \<Longrightarrow> deref (s @ theNamespaceDelimiter # r) = deref s"
  by (simp add: deref_def GetCodePoint_append)

section \<open>The parts of a name\<close>

text \<open>The reference: the parts of a name between its delimiters.\<close>

definition before_delimiter :: "string \<Rightarrow> string" where
  "before_delimiter name = takeWhile (\<lambda>c. c \<noteq> theNamespaceDelimiter) name"

definition after_delimiter :: "string \<Rightarrow> string" where
  "after_delimiter name = tl (dropWhile (\<lambda>c. c \<noteq> theNamespaceDelimiter) name)"

function name_parts :: "string \<Rightarrow> string list" where
  "name_parts name =
     (if theNamespaceDelimiter \<in> set name
      then before_delimiter name # name_parts (after_delimiter name)
      else [name])"
  by pat_completeness auto
termination
proof (relation "measure length", goal_cases)
  case (2 name)
  then have "dropWhile (\<lambda>c. c \<noteq> theNamespaceDelimiter) name \<noteq> []" by (auto simp: dropWhile_eq_Nil_conv)
  then show ?case
    using length_dropWhile_le [of "\<lambda>c. c \<noteq> theNamespaceDelimiter" name]
    by (cases "dropWhile (\<lambda>c. c \<noteq> theNamespaceDelimiter) name") (simp_all add: after_delimiter_def)
qed simp

declare name_parts.simps [simp del]

lemma name_split:
  assumes "theNamespaceDelimiter \<in> set name"
  shows "name = before_delimiter name @ theNamespaceDelimiter # after_delimiter name"
proof -
  have d: "dropWhile (\<lambda>c. c \<noteq> theNamespaceDelimiter) name \<noteq> []"
    using assms by (auto simp: dropWhile_eq_Nil_conv)
  then have "hd (dropWhile (\<lambda>c. c \<noteq> theNamespaceDelimiter) name) = theNamespaceDelimiter"
    using hd_dropWhile by blast
  with d show ?thesis
    unfolding before_delimiter_def after_delimiter_def by (metis list.collapse takeWhile_dropWhile_id)
qed

lemma before_no_delimiter: "theNamespaceDelimiter \<notin> set (before_delimiter name)"
  by (auto simp: before_delimiter_def dest: set_takeWhileD)

lemma parts_delimiter:
  assumes "theNamespaceDelimiter \<notin> set s"
  shows "before_delimiter (s @ theNamespaceDelimiter # r) = s"
    and "after_delimiter (s @ theNamespaceDelimiter # r) = r"
    and "name_parts (s @ theNamespaceDelimiter # r) = s # name_parts r"
    and "name_parts s = [s]"
proof -
  have ne: "x \<noteq> theNamespaceDelimiter" if "x \<in> set s" for x using that assms by blast
  show b: "before_delimiter (s @ theNamespaceDelimiter # r) = s"
    unfolding before_delimiter_def using ne by (subst takeWhile_append2) auto
  show a: "after_delimiter (s @ theNamespaceDelimiter # r) = r"
    unfolding after_delimiter_def using ne by (subst dropWhile_append2) auto
  show "name_parts (s @ theNamespaceDelimiter # r) = s # name_parts r"
    by (subst name_parts.simps) (simp add: a b)
  show "name_parts s = [s]" using assms by (subst name_parts.simps) simp
qed

lemma find_char_takeWhile:
  "find_char c xs = (if c \<in> set xs then Some (length (takeWhile (\<lambda>x. x \<noteq> c) xs)) else None)"
  by (induction xs) auto

lemma name_parts_not_Nil [simp]: "name_parts name \<noteq> []"
  by (subst name_parts.simps) simp

lemma join_name_parts: "TfStringJoin (name_parts name) [theNamespaceDelimiter] = name"
proof (induction name rule: name_parts.induct)
  case (1 name)
  show ?case
  proof (cases "theNamespaceDelimiter \<in> set name")
    case True
    obtain p ps where "name_parts (after_delimiter name) = p # ps"
      by (metis list.exhaust name_parts_not_Nil)
    with 1 [OF True] name_split [OF True] show ?thesis
      by (subst name_parts.simps) (simp add: True)
  qed (simp add: name_parts.simps [of name])
qed

lemma IsValidIdentifier_Nil [simp]: "\<not> IsValidIdentifier cc []"
  by (simp add: IsValidIdentifier_def)

lemma namespaced_loop_parts:
  "name \<noteq> [] \<Longrightarrow> namespaced_loop cc name \<longleftrightarrow> list_all (IsValidIdentifier cc) (name_parts name)"
proof (induction name rule: name_parts.induct)
  case (1 name)
  show ?case
  proof (cases "theNamespaceDelimiter \<in> set name")
    case False
    with "1.prems" show ?thesis
      by (subst namespaced_loop.simps, subst name_parts.simps) (simp add: find_char_takeWhile)
  next
    case True
    let ?b = "before_delimiter name" and ?a = "after_delimiter name"
    note split = name_split [OF True]
    have index: "find_char theNamespaceDelimiter name = Some (length ?b)"
      using True by (simp add: find_char_takeWhile before_delimiter_def)
    have len: "length name = length ?b + 1 + length ?a" by (subst split) simp
    have parts: "take (length ?b) name = ?b" "drop (length ?b + 1) name = ?a"
      by (subst split, simp)+
    have empty: "name_parts [] = [[]]" by (subst name_parts.simps) simp
    show ?thesis
    proof (cases "?a = []")
      case True
      then show ?thesis using \<open>theNamespaceDelimiter \<in> set name\<close> "1.prems" len empty
        by (subst namespaced_loop.simps, subst name_parts.simps) (auto simp: index)
    next
      case False
      with "1.IH" [OF True False] "1.prems" True len show ?thesis
        by (subst namespaced_loop.simps, subst name_parts.simps)
          (auto simp: index parts [simplified])
    qed
  qed
qed

section \<open>The tokenizer follows the parts\<close>

lemma skip_continuation_suffix: "\<exists>t. it = t @ skip_continuation n it"
proof (induction n it rule: skip_continuation.induct)
  case (2 n c it)
  then show ?case by (cases "n > 1 \<and> isContinuation c") (auto intro: exI [of _ "c # _"])
qed simp

lemma increment_suffix:
  assumes "it \<noteq> []"
  obtains t where "t \<noteq> []" "it = t @ increment it"
proof -
  obtain c r where it: "it = c # r" using assms by (cases it) auto
  obtain t where "r = t @ skip_continuation (GetEncodingLength it) r"
    using skip_continuation_suffix by blast
  then have "it = (c # t) @ increment it" by (simp add: it increment_def)
  then show ?thesis using that by blast
qed

text \<open>One step of the iterator inside a part.\<close>

lemma part_step:
  assumes "it \<noteq> []" "hd it \<noteq> theNamespaceDelimiter"
  obtains t where "t \<noteq> []" "it = t @ increment it"
    and "hd (name_parts it) = t @ increment (hd (name_parts it))" "hd (name_parts it) \<noteq> []"
    and "deref it = deref (hd (name_parts it))"
    and "name_parts (increment it) = increment (hd (name_parts it)) # tl (name_parts it)"
proof (cases "theNamespaceDelimiter \<in> set it")
  case True
  define s r where "s = before_delimiter it" "r = after_delimiter it"
  have it: "it = s @ theNamespaceDelimiter # r" unfolding s_r_def by (rule name_split [OF True])
  have s: "s \<noteq> []" using assms it by auto
  have no: "theNamespaceDelimiter \<notin> set s" by (simp add: s_r_def before_no_delimiter)
  obtain t where t: "t \<noteq> []" "s = t @ increment s" using increment_suffix [OF s] by blast
  have inc: "increment it = increment s @ theNamespaceDelimiter # r"
    unfolding it by (rule increment_append [OF s])
  have "theNamespaceDelimiter \<notin> set (increment s)" using no t(2) by (metis Un_iff set_append)
  then show ?thesis
    using t parts_delimiter(3) [OF no, of r] parts_delimiter(3) [of "increment s" r] deref_append [OF s, of r] s
    by (intro that [of t]) (simp_all add: inc, simp_all add: it)
next
  case False
  obtain t where t: "t \<noteq> []" "it = t @ increment it" using increment_suffix [OF assms(1)] by blast
  have "theNamespaceDelimiter \<notin> set (increment it)" using False t(2) by (metis Un_iff set_append)
  then show ?thesis
    using t assms(1) parts_delimiter(4) [OF False] parts_delimiter(4) [of "increment it"]
    by (intro that [of t]) simp_all
qed

lemma start_not_delimiter:
  assumes "\<not> XidStart cc 0x3A" "it \<noteq> []" "IsValidIdentifierStart cc (deref it)"
  shows "hd it \<noteq> theNamespaceDelimiter"
  using assms deref_eq_delimiter [OF assms(2)]
  by (auto simp: IsValidIdentifierStart_def TfUtf8CodePointFromAscii_def TfUtf8CodePoint_def MaximumValue_def)

lemma last_increment:
  assumes "it \<noteq> []" "increment it \<noteq> []"
  shows "last (increment it) = last it"
  using increment_suffix [OF assms(1)] assms(2) by (metis last_append)

lemma IsValidIdentifier_head:
  assumes "\<not> XidStart cc 0x3A" "it \<noteq> []"
  shows "IsValidIdentifier cc (hd (name_parts it)) \<longleftrightarrow> IsValidIdentifierStart cc (deref it) \<and>
    list_all (XidContinue cc) (code_points (increment (hd (name_parts it))))"
proof (cases "hd it = theNamespaceDelimiter")
  case True
  then have "it = [] @ theNamespaceDelimiter # tl it" using assms(2) by (metis append_Nil list.collapse)
  then have "hd (name_parts it) = []" using parts_delimiter(3) [of "[]" "tl it"] by simp
  with start_not_delimiter [OF assms] True show ?thesis by auto
next
  case False
  from part_step [OF assms(2) False] show ?thesis
    by (metis IsValidIdentifier_def)
qed

lemma tokenize_loop_parts:
  assumes "\<not> XidStart cc 0x3A" "tok \<noteq> []" "it = [] \<or> last it \<noteq> theNamespaceDelimiter"
  shows "tokenize_loop cc (tok @ it) it result =
    (if list_all (XidContinue cc) (code_points (hd (name_parts it)))
        \<and> list_all (IsValidIdentifier cc) (tl (name_parts it))
     then result @ (tok @ hd (name_parts it)) # tl (name_parts it) else [])"
  using assms(2,3)
proof (induction it arbitrary: tok result rule: measure_induct_rule [where f = length])
  case (less it)
  have between: "string_between (tok @ it) it = tok" by (simp add: string_between_def)
  consider (stop) "it = []" | (delimiter) "it \<noteq> []" "hd it = theNamespaceDelimiter"
    | (other) "it \<noteq> []" "hd it \<noteq> theNamespaceDelimiter" by blast
  then show ?case
  proof cases
    case stop
    then show ?thesis using between parts_delimiter(4) [of "[]"]
      by (subst tokenize_loop.simps) (simp add: code_points.simps)
  next
    case delimiter
    define r where "r = tl it"
    have it: "it = theNamespaceDelimiter # r" using delimiter by (metis list.collapse r_def)
    have r: "r \<noteq> []" "last r \<noteq> theNamespaceDelimiter" using less.prems(2) it by (auto split: if_splits)
    have parts: "name_parts it = [] # name_parts r" using parts_delimiter(3) [of "[]" r] it by simp
    have nil: "code_points [] = []" by (simp add: code_points.simps)
    have valid: "list_all (IsValidIdentifier cc) (name_parts r) \<longleftrightarrow> IsValidIdentifierStart cc (deref r)
        \<and> list_all (XidContinue cc) (code_points (increment (hd (name_parts r))))
        \<and> list_all (IsValidIdentifier cc) (tl (name_parts r))"
      using IsValidIdentifier_head [OF assms(1) r(1)]
      by (cases "name_parts r") auto
    have step: "tokenize_loop cc (tok @ it) it result =
        (if \<not> IsValidIdentifierStart cc (deref r) then []
         else tokenize_loop cc r (increment r) (result @ [tok]))"
      using delimiter(1) between deref_delimiter [of r] increment_delimiter [of r]
      by (subst tokenize_loop.simps) (simp add: colon it)
    show ?thesis
    proof (cases "IsValidIdentifierStart cc (deref r)")
      case False
      then show ?thesis using valid by (simp add: step parts)
    next
      case True
      from part_step [OF r(1) start_not_delimiter [OF assms(1) r(1) True]] obtain t where t:
        "t \<noteq> []" "r = t @ increment r" "hd (name_parts r) = t @ increment (hd (name_parts r))"
        "name_parts (increment r) = increment (hd (name_parts r)) # tl (name_parts r)" by metis
      have short: "length (increment r) < length it" using length_increment [OF r(1)] it by simp
      have "increment r = [] \<or> last (increment r) \<noteq> theNamespaceDelimiter"
        using last_increment [OF r(1)] r(2) by auto
      note IH = less.IH [OF short t(1) this, of "result @ [tok]", folded t(2)]
      have ps: "name_parts r = (t @ increment (hd (name_parts r))) # tl (name_parts r)"
        using t(3) by (metis list.collapse name_parts_not_Nil)
      show ?thesis using IH valid True t(4) ps by (simp add: step parts nil)
    qed
  next
    case other
    from part_step [OF other] obtain t where t: "t \<noteq> []" "it = t @ increment it"
      "hd (name_parts it) = t @ increment (hd (name_parts it))" "hd (name_parts it) \<noteq> []"
      "deref it = deref (hd (name_parts it))"
      "name_parts (increment it) = increment (hd (name_parts it)) # tl (name_parts it)" by metis
    have points: "code_points (hd (name_parts it))
        = deref it # code_points (increment (hd (name_parts it)))"
      using t(4,5) by (subst code_points.simps) simp
    have step: "tokenize_loop cc (tok @ it) it result =
        (if \<not> XidContinue cc (deref it) then [] else tokenize_loop cc (tok @ it) (increment it) result)"
      using other deref_eq_delimiter [OF other(1)] by (subst tokenize_loop.simps) (simp add: colon)
    have "increment it = [] \<or> last (increment it) \<noteq> theNamespaceDelimiter"
      using last_increment [OF other(1)] less.prems(2) other(1) by auto
    note IH = less.IH [OF length_increment [OF other(1)] _ this, of "tok @ t" result]
    have "(tok @ t) @ increment it = tok @ it" "(tok @ t) @ increment (hd (name_parts it)) = tok @ hd (name_parts it)"
      using t(2,3) by simp_all
    with IH less.prems(1) t(6) show ?thesis by (simp only: step points) simp
  qed
qed

lemma last_part_empty:
  "name \<noteq> [] \<Longrightarrow> last name = theNamespaceDelimiter \<Longrightarrow> last (name_parts name) = []"
proof (induction name rule: name_parts.induct)
  case (1 name)
  then have D: "theNamespaceDelimiter \<in> set name" by (metis last_in_set)
  have parts: "name_parts name = before_delimiter name # name_parts (after_delimiter name)"
    using D by (subst name_parts.simps) simp
  show ?case
  proof (cases "after_delimiter name = []")
    case True
    have "name_parts [] = [[]]" using parts_delimiter(4) [of "[]"] by simp
    with True show ?thesis unfolding parts by simp
  next
    case False
    with name_split [OF D] "1.prems"(2) have "last (after_delimiter name) = theNamespaceDelimiter"
      by (metis last_ConsR last_append list.distinct(1))
    with "1.IH" [OF D False] show ?thesis unfolding parts by simp
  qed
qed

lemma TokenizeIdentifier_valid:
  assumes "\<not> XidStart cc 0x3A"
  shows "TokenizeIdentifier cc name = (if IsValidNamespacedIdentifier cc name then name_parts name else [])"
proof (cases "name = [] \<or> last name = theNamespaceDelimiter")
  case True
  have "\<not> list_all (IsValidIdentifier cc) (name_parts name)" if "name \<noteq> []"
    using True that last_part_empty [of name] last_in_set [OF name_parts_not_Nil, of name]
    by (auto simp: list_all_iff intro!: bexI [of _ "[]"])
  with True show ?thesis
    by (auto simp: TokenizeIdentifier_def IsValidNamespacedIdentifier_def namespaced_loop_parts)
next
  case False
  then have name: "name \<noteq> []" "last name \<noteq> theNamespaceDelimiter" by auto
  have valid: "IsValidNamespacedIdentifier cc name \<longleftrightarrow> IsValidIdentifierStart cc (deref name)
      \<and> list_all (XidContinue cc) (code_points (increment (hd (name_parts name))))
      \<and> list_all (IsValidIdentifier cc) (tl (name_parts name))"
    using IsValidIdentifier_head [OF assms name(1)] name(1)
    by (cases "name_parts name") (auto simp: IsValidNamespacedIdentifier_def namespaced_loop_parts)
  show ?thesis
  proof (cases "IsValidIdentifierStart cc (deref name)")
    case False
    then show ?thesis using valid name by (simp add: TokenizeIdentifier_def)
  next
    case True
    from part_step [OF name(1) start_not_delimiter [OF assms name(1) True]] obtain t where t:
      "t \<noteq> []" "name = t @ increment name" "hd (name_parts name) = t @ increment (hd (name_parts name))"
      "name_parts (increment name) = increment (hd (name_parts name)) # tl (name_parts name)" by metis
    have "increment name = [] \<or> last (increment name) \<noteq> theNamespaceDelimiter"
      using last_increment [OF name(1)] name(2) by auto
    note loop = tokenize_loop_parts [OF assms t(1) this, of "[]", folded t(2)]
    have "name_parts name = (t @ increment (hd (name_parts name))) # tl (name_parts name)"
      using t(3) by (metis list.collapse name_parts_not_Nil)
    with loop valid True name t(4) show ?thesis by (simp add: TokenizeIdentifier_def)
  qed
qed

text \<open>The two readings of a namespaced name agree, on all byte strings: the tokenizer, which walks over
  the code points of the whole name, returns tokens exactly if the validity check, which cuts
  the name at delimiters, accepts it; the tokens are then the parts between the delimiters,
  and joining them gives the name.\<close>

theorem TokenizeIdentifier_parts:
  assumes "\<not> XidStart cc 0x3A"
  shows "TokenizeIdentifier cc name = (if IsValidNamespacedIdentifier cc name then name_parts name else [])
    \<and> (IsValidNamespacedIdentifier cc name \<longrightarrow>
        list_all (IsValidIdentifier cc) (TokenizeIdentifier cc name)
        \<and> JoinIdentifier (TokenizeIdentifier cc name) = name)"
proof -
  have valid: "list_all (IsValidIdentifier cc) (name_parts name)" if "IsValidNamespacedIdentifier cc name"
    using that namespaced_loop_parts [of name cc]
    by (auto simp: IsValidNamespacedIdentifier_def split: if_splits)
  have "\<not> list_ex (\<lambda>s. s = []) (name_parts name)" if "IsValidNamespacedIdentifier cc name"
    using valid [OF that] by (auto simp: list_ex_iff list_all_iff)
  then show ?thesis
    using valid by (simp add: TokenizeIdentifier_valid [OF assms] JoinIdentifier_def join_name_parts)
qed

lemma code_points_delimiter:
  "code_points (s @ theNamespaceDelimiter # r) = code_points s @ 0x3A # code_points r"
proof (induction s rule: code_points.induct)
  case (1 s)
  show ?case
  proof (cases "s = []")
    case True
    then show ?thesis
      by (subst code_points.simps)
        (simp add: deref_delimiter increment_delimiter code_points.simps [of "[]"])
  next
    case False
    with 1 [OF False] show ?thesis
      by (subst (1 2) code_points.simps) (simp add: deref_append increment_append)
  qed
qed

lemma valid_no_delimiter:
  assumes "\<not> XidStart cc 0x3A" "\<not> XidContinue cc 0x3A" "IsValidIdentifier cc name"
  shows "theNamespaceDelimiter \<notin> set name"
proof
  assume "theNamespaceDelimiter \<in> set name"
  then obtain s r where name: "name = s @ theNamespaceDelimiter # r" by (metis split_list)
  have "s \<noteq> []"
    using assms(1,3) start_not_delimiter [OF assms(1), of name]
    by (auto simp: name IsValidIdentifier_def split: if_splits)
  then have "code_points (increment name) = code_points (increment s) @ 0x3A # code_points r"
    by (simp add: name increment_append code_points_delimiter)
  then have "0x3A \<in> set (code_points (increment name))" by simp
  with assms(2,3) show False by (auto simp: IsValidIdentifier_def list_all_iff split: if_splits)
qed

lemma name_parts_join:
  "names \<noteq> [] \<Longrightarrow> \<forall>n \<in> set names. theNamespaceDelimiter \<notin> set n \<Longrightarrow>
   name_parts (TfStringJoin names [theNamespaceDelimiter]) = names"
  by (induction names "[theNamespaceDelimiter]" rule: TfStringJoin.induct)
    (auto simp: parts_delimiter)

lemma StripNamespace_delimiter: "StripNamespace (a @ theNamespaceDelimiter # x) = StripNamespace x"
proof -
  have find: "find_char c (xs @ ys) = (case find_char c xs of Some k \<Rightarrow> Some k
      | None \<Rightarrow> map_option (\<lambda>k. k + length xs) (find_char c ys))" for c xs ys
    by (induction xs) (auto split: option.splits simp: option.map_comp comp_def option.map_ident)
  have le: "k \<le> length xs" if "find_char c xs = Some k" for c xs k
    using that length_takeWhile_le [of "\<lambda>y. y \<noteq> c" xs] by (auto simp: find_char_takeWhile split: if_splits)
  show ?thesis
  proof (cases "find_char theNamespaceDelimiter (rev x)")
    case None
    then show ?thesis by (simp add: StripNamespace_def find)
  next
    case (Some k)
    then have "k \<le> length x" using le [OF Some] by simp
    then have "length (a @ theNamespaceDelimiter # x) - k = length (a @ [theNamespaceDelimiter]) + (length x - k)"
      by simp
    then show ?thesis using Some by (simp add: StripNamespace_def find Suc_diff_le)
  qed
qed

lemma StripNamespace_join:
  "names \<noteq> [] \<Longrightarrow> \<forall>n \<in> set names. theNamespaceDelimiter \<notin> set n \<Longrightarrow>
   StripNamespace (TfStringJoin names [theNamespaceDelimiter]) = last names"
proof (induction names "[theNamespaceDelimiter]" rule: TfStringJoin.induct)
  case (2 s)
  then show ?case by (simp add: StripNamespace_def find_char_takeWhile)
qed (simp_all add: StripNamespace_delimiter)

text \<open>Joining valid identifiers gives a valid namespaced identifier, which the tokenizer takes apart
  again, and stripping its namespace leaves the last of them.\<close>

theorem JoinIdentifier_round_trip:
  assumes "\<not> XidStart cc 0x3A" "\<not> XidContinue cc 0x3A"
    and "names \<noteq> []" "list_all (IsValidIdentifier cc) names"
  shows "IsValidNamespacedIdentifier cc (JoinIdentifier names)
    \<and> TokenizeIdentifier cc (JoinIdentifier names) = names
    \<and> StripNamespace (JoinIdentifier names) = last names"
proof -
  have no: "\<forall>n \<in> set names. theNamespaceDelimiter \<notin> set n"
    using assms(4) valid_no_delimiter [OF assms(1,2)] by (auto simp: list_all_iff)
  have "\<not> list_ex (\<lambda>s. s = []) names" using assms(4) by (auto simp: list_ex_iff list_all_iff)
  then have join: "JoinIdentifier names = TfStringJoin names [theNamespaceDelimiter]"
    by (simp add: JoinIdentifier_def)
  have parts: "name_parts (JoinIdentifier names) = names"
    unfolding join by (rule name_parts_join [OF assms(3) no])
  have "JoinIdentifier names \<noteq> []"
    using parts assms(3,4) parts_delimiter(4) [of "[]"] by (auto simp: list_all_iff)
  then have "IsValidNamespacedIdentifier cc (JoinIdentifier names)"
    using assms(4) by (simp add: IsValidNamespacedIdentifier_def namespaced_loop_parts parts)
  then show ?thesis
    using StripNamespace_join [OF assms(3) no]
    by (simp add: TokenizeIdentifier_valid [OF assms(1)] parts [unfolded join] join)
qed

text \<open>A namespace that was joined to a name is stripped again, with or without its delimiter, and a
  name that does not start with the namespace and a delimiter is left alone.\<close>

theorem StripPrefixNamespace_join:
  assumes "ns \<noteq> []" "last ns \<noteq> theNamespaceDelimiter"
  shows "StripPrefixNamespace (ns @ [theNamespaceDelimiter] @ name) ns = (name, True)
    \<and> StripPrefixNamespace (ns @ [theNamespaceDelimiter] @ name) (ns @ [theNamespaceDelimiter]) = (name, True)
    \<and> ((\<nexists>rest. whole = ns @ [theNamespaceDelimiter] @ rest) \<longrightarrow>
        StripPrefixNamespace whole ns = (whole, False))"
proof -
  have "\<exists>rest. whole = ns @ [theNamespaceDelimiter] @ rest"
    if "take (length ns) whole = ns" "length ns < length whole" "whole ! length ns = theNamespaceDelimiter"
    using that by (intro exI [of _ "drop (Suc (length ns)) whole"])
      (metis append_Cons append_Nil id_take_nth_drop)
  then show ?thesis using assms by (auto simp: StripPrefixNamespace_def Let_def)
qed

section \<open>Instances\<close>

text \<open>The character classes restricted to ASCII.\<close>

definition ascii_classes :: char_classes where
  "ascii_classes = \<lparr>XidStart = (\<lambda>v. 0x41 \<le> v \<and> v \<le> 0x5A \<or> 0x61 \<le> v \<and> v \<le> 0x7A),
     XidContinue = (\<lambda>v. 0x41 \<le> v \<and> v \<le> 0x5A \<or> 0x61 \<le> v \<and> v \<le> 0x7A \<or> 0x30 \<le> v \<and> v \<le> 0x39 \<or> v = 0x5F)\<rparr>"

lemma TokenizeIdentifier_parts_witness:
  "TokenizeIdentifier ascii_classes ''a:b1''
   = (if IsValidNamespacedIdentifier ascii_classes ''a:b1'' then name_parts ''a:b1'' else [])"
  using TokenizeIdentifier_parts [of ascii_classes "''a:b1''"] by (simp add: ascii_classes_def)

lemma JoinIdentifier_round_trip_witness:
  "TokenizeIdentifier ascii_classes (JoinIdentifier [''a'', ''b1'']) = [''a'', ''b1'']"
proof -
  have "IsValidIdentifier ascii_classes ''a''" "IsValidIdentifier ascii_classes ''b1''"
    by (simp_all add: IsValidIdentifier_def IsValidIdentifierStart_def ascii_classes_def deref_def
        GetCodePoint_def GetEncodingLength_def increment_def TfUtf8CodePoint_def MaximumValue_def
        code_points.simps [of "[]"] code_points.simps [of "''1''"])
  then show ?thesis
    using JoinIdentifier_round_trip [of ascii_classes "[''a'', ''b1'']"] by (simp add: ascii_classes_def)
qed

lemma StripPrefixNamespace_join_witness:
  "StripPrefixNamespace ''a:b1'' ''a'' = (''b1'', True)"
  using StripPrefixNamespace_join [of "''a''" "''b1''" "[]"] by (simp add: theNamespaceDelimiter_def)

end
