(* ===== verification/Sdf_Path.thy ===== *)
theory Sdf_Path
  imports USD_Prelude "HOL-Library.Sublist"
begin

text \<open>
  The data model of \<open>SdfPath\<close> (\<open>pxr/usd/sdf/path.h\<close>, \<open>path.cpp\<close>, \<open>pathNode.h\<close>), the
  predicates on paths, prefixes and parents.
  A path of the code is a pair of handles, \<open>_primPart\<close> and \<open>_propPart\<close>, to nodes of two
  forests of immutable, interned nodes: a node is determined by its kind, its value and its
  parent. A node is therefore the list of nodes from its root to itself, and two handles are
  equal exactly if the lists are: \<open>prim_part\<close> and \<open>prop_part\<close> list the nodes from the root
  down, and \<open>path_root\<close> tells which of the two root nodes the prim part hangs from. A null
  \<open>_primPart\<close> is \<open>NullRoot\<close> with no nodes; a null \<open>_propPart\<close> is the empty list. A prim node
  whose parent pointer is null (which \<open>FindOrCreatePrim\<close> makes when it is called with a null
  parent) is a nonempty list under \<open>NullRoot\<close>.
  \<open>GetElementCount\<close> of a node is the length of its list, \<open>GetParentNode\<close> is \<open>butlast\<close>.
\<close>

section \<open>Nodes and paths\<close>

datatype path_root = AbsoluteRoot | RelativeRoot | NullRoot

datatype prim_node =
    PrimNode token
  | PrimVariantSelectionNode token token

datatype sdf_path =
    SdfPath (path_root: path_root) (prim_part: "prim_node list") (prop_part: "prop_node list")
and prop_node =
    PrimPropertyNode token
  | TargetNode sdf_path
  | MapperNode sdf_path
  | RelationalAttributeNode token
  | MapperArgNode token
  | ExpressionNode

text \<open>\<open>Sdf_PathNode::NodeType\<close>, in the order of the enumeration.\<close>

datatype node_type = RootNodeT | PrimNodeT | PrimVariantSelectionNodeT | PrimPropertyNodeT
  | TargetNodeT | MapperNodeT | RelationalAttributeNodeT | MapperArgNodeT | ExpressionNodeT

fun node_type_index :: "node_type \<Rightarrow> nat" where
  "node_type_index RootNodeT = 0"
| "node_type_index PrimNodeT = 1"
| "node_type_index PrimVariantSelectionNodeT = 2"
| "node_type_index PrimPropertyNodeT = 3"
| "node_type_index TargetNodeT = 4"
| "node_type_index MapperNodeT = 5"
| "node_type_index RelationalAttributeNodeT = 6"
| "node_type_index MapperArgNodeT = 7"
| "node_type_index ExpressionNodeT = 8"

fun prim_node_type :: "prim_node \<Rightarrow> node_type" where
  "prim_node_type (PrimNode _) = PrimNodeT"
| "prim_node_type (PrimVariantSelectionNode _ _) = PrimVariantSelectionNodeT"

fun prop_node_type :: "prop_node \<Rightarrow> node_type" where
  "prop_node_type (PrimPropertyNode _) = PrimPropertyNodeT"
| "prop_node_type (TargetNode _) = TargetNodeT"
| "prop_node_type (MapperNode _) = MapperNodeT"
| "prop_node_type (RelationalAttributeNode _) = RelationalAttributeNodeT"
| "prop_node_type (MapperArgNode _) = MapperArgNodeT"
| "prop_node_type ExpressionNode = ExpressionNodeT"

text \<open>The node a prim handle points to; only meaningful for a handle that is not null.\<close>

definition prim_handle_type :: "prim_node list \<Rightarrow> node_type" where
  "prim_handle_type ns = (if ns = [] then RootNodeT else prim_node_type (last ns))"

type_synonym prim_handle = "path_root \<times> prim_node list"

definition prim_handle :: "sdf_path \<Rightarrow> prim_handle" where
  "prim_handle p = (path_root p, prim_part p)"

definition null_prim_handle :: prim_handle where
  "null_prim_handle = (NullRoot, [])"

text \<open>\<open>GetParentNode\<close> of a prim node: the parent of either root node is null.\<close>

fun parent_prim :: "prim_handle \<Rightarrow> prim_handle" where
  "parent_prim (r, ns) = (if ns = [] then null_prim_handle else (r, butlast ns))"

text \<open>Strings of \<open>SdfPathTokens\<close> (\<open>tokens.h\<close>).\<close>

definition parentPathElement :: token where "parentPathElement = ''..''"
definition absoluteIndicator :: token where "absoluteIndicator = ''/''"
definition relativeRoot :: token where "relativeRoot = ''.''"
definition expressionIndicator :: token where "expressionIndicator = ''expression''"
definition namespaceDelimiter :: char where "namespaceDelimiter = CHR '':''"

text \<open>\<open>Sdf_PathNode::GetName\<close>.\<close>

fun prim_node_name :: "prim_node \<Rightarrow> token" where
  "prim_node_name (PrimNode name) = name"
| "prim_node_name (PrimVariantSelectionNode vset vsel) = (if vsel = [] then vset else vsel)"

fun prop_node_name :: "prop_node \<Rightarrow> token" where
  "prop_node_name (PrimPropertyNode name) = name"
| "prop_node_name (TargetNode _) = []"
| "prop_node_name (MapperNode _) = []"
| "prop_node_name (RelationalAttributeNode name) = name"
| "prop_node_name (MapperArgNode name) = name"
| "prop_node_name ExpressionNode = expressionIndicator"

definition prim_handle_name :: "prim_handle \<Rightarrow> token" where
  "prim_handle_name h =
     (case h of (r, ns) \<Rightarrow>
        if ns \<noteq> [] then prim_node_name (last ns)
        else case r of AbsoluteRoot \<Rightarrow> absoluteIndicator | RelativeRoot \<Rightarrow> relativeRoot
          | NullRoot \<Rightarrow> [])"

text \<open>\<open>Sdf_PathNode::GetTargetPath\<close>; the default is the empty path.\<close>

definition EmptyPath :: sdf_path where "EmptyPath = SdfPath NullRoot [] []"
definition AbsoluteRootPath :: sdf_path where "AbsoluteRootPath = SdfPath AbsoluteRoot [] []"
definition ReflexiveRelativePath :: sdf_path where
  "ReflexiveRelativePath = SdfPath RelativeRoot [] []"

fun node_target_path :: "prop_node \<Rightarrow> sdf_path" where
  "node_target_path (TargetNode p) = p"
| "node_target_path (MapperNode p) = p"
| "node_target_path _ = EmptyPath"

fun is_target_or_mapper :: "prop_node \<Rightarrow> bool" where
  "is_target_or_mapper (TargetNode _) = True"
| "is_target_or_mapper (MapperNode _) = True"
| "is_target_or_mapper _ = False"

fun is_variant_selection :: "prim_node \<Rightarrow> bool" where
  "is_variant_selection (PrimVariantSelectionNode _ _) = True"
| "is_variant_selection (PrimNode _) = False"

text \<open>The flags \<open>_nodeFlags\<close> accumulate along the parents.\<close>

definition nodes_ContainsTargetPath :: "prop_node list \<Rightarrow> bool" where
  "nodes_ContainsTargetPath ns = list_ex is_target_or_mapper ns"

definition nodes_ContainsPrimVariantSelection :: "prim_node list \<Rightarrow> bool" where
  "nodes_ContainsPrimVariantSelection ns = list_ex is_variant_selection ns"

definition name_IsNamespaced :: "token \<Rightarrow> bool" where
  "name_IsNamespaced name = list_ex (\<lambda>c. c = namespaceDelimiter) name"

fun node_IsNamespaced :: "prop_node \<Rightarrow> bool" where
  "node_IsNamespaced (PrimPropertyNode name) = name_IsNamespaced name"
| "node_IsNamespaced (RelationalAttributeNode name) = name_IsNamespaced name"
| "node_IsNamespaced _ = False"

section \<open>Queries\<close>

text \<open>\<open>IsEmpty\<close> looks at the prim part only.\<close>

definition IsEmpty :: "sdf_path \<Rightarrow> bool" where
  "IsEmpty p \<longleftrightarrow> prim_handle p = null_prim_handle"

definition GetPathElementCount :: "sdf_path \<Rightarrow> nat" where
  "GetPathElementCount p = length (prim_part p) + length (prop_part p)"

definition IsAbsolutePath :: "sdf_path \<Rightarrow> bool" where
  "IsAbsolutePath p \<longleftrightarrow> \<not> IsEmpty p \<and> path_root p = AbsoluteRoot"

definition IsAbsoluteRootPath :: "sdf_path \<Rightarrow> bool" where
  "IsAbsoluteRootPath p \<longleftrightarrow> prop_part p = [] \<and> \<not> IsEmpty p \<and>
     path_root p = AbsoluteRoot \<and> length (prim_part p) = 0"

definition IsPrimPath :: "sdf_path \<Rightarrow> bool" where
  "IsPrimPath p \<longleftrightarrow> prop_part p = [] \<and> \<not> IsEmpty p \<and>
     (prim_handle_type (prim_part p) = PrimNodeT \<or> p = ReflexiveRelativePath)"

definition IsAbsoluteRootOrPrimPath :: "sdf_path \<Rightarrow> bool" where
  "IsAbsoluteRootOrPrimPath p \<longleftrightarrow> prop_part p = [] \<and> \<not> IsEmpty p \<and>
     (prim_handle_type (prim_part p) = PrimNodeT \<or> p = AbsoluteRootPath \<or>
      p = ReflexiveRelativePath)"

definition IsRootPrimPath :: "sdf_path \<Rightarrow> bool" where
  "IsRootPrimPath p \<longleftrightarrow> prop_part p = [] \<and> \<not> IsEmpty p \<and>
     path_root p = AbsoluteRoot \<and> length (prim_part p) = 1"

text \<open>The type of the node the property handle points to, if there is one.\<close>

definition prop_handle_is :: "node_type list \<Rightarrow> sdf_path \<Rightarrow> bool" where
  "prop_handle_is ts p \<longleftrightarrow>
     prop_part p \<noteq> [] \<and> List.member ts (prop_node_type (last (prop_part p)))"

definition IsPropertyPath :: "sdf_path \<Rightarrow> bool" where
  "IsPropertyPath = prop_handle_is [PrimPropertyNodeT, RelationalAttributeNodeT]"

definition IsPrimPropertyPath :: "sdf_path \<Rightarrow> bool" where
  "IsPrimPropertyPath = prop_handle_is [PrimPropertyNodeT]"

definition IsNamespacedPropertyPath :: "sdf_path \<Rightarrow> bool" where
  "IsNamespacedPropertyPath p \<longleftrightarrow>
     prop_part p \<noteq> [] \<and> node_IsNamespaced (last (prop_part p)) \<and>
     prop_handle_is [PrimPropertyNodeT, RelationalAttributeNodeT] p"

definition IsPrimVariantSelectionPath :: "sdf_path \<Rightarrow> bool" where
  "IsPrimVariantSelectionPath p \<longleftrightarrow> prop_part p = [] \<and> \<not> IsEmpty p \<and>
     prim_handle_type (prim_part p) = PrimVariantSelectionNodeT"

definition IsPrimOrPrimVariantSelectionPath :: "sdf_path \<Rightarrow> bool" where
  "IsPrimOrPrimVariantSelectionPath p \<longleftrightarrow> prop_part p = [] \<and> \<not> IsEmpty p \<and>
     (prim_handle_type (prim_part p) = PrimNodeT \<or>
      prim_handle_type (prim_part p) = PrimVariantSelectionNodeT \<or> p = ReflexiveRelativePath)"

definition ContainsPrimVariantSelection :: "sdf_path \<Rightarrow> bool" where
  "ContainsPrimVariantSelection p \<longleftrightarrow>
     \<not> IsEmpty p \<and> nodes_ContainsPrimVariantSelection (prim_part p)"

definition ContainsTargetPath :: "sdf_path \<Rightarrow> bool" where
  "ContainsTargetPath p \<longleftrightarrow> prop_part p \<noteq> [] \<and> nodes_ContainsTargetPath (prop_part p)"

definition IsRelationalAttributePath :: "sdf_path \<Rightarrow> bool" where
  "IsRelationalAttributePath = prop_handle_is [RelationalAttributeNodeT]"

definition IsTargetPath :: "sdf_path \<Rightarrow> bool" where
  "IsTargetPath = prop_handle_is [TargetNodeT]"

definition IsMapperPath :: "sdf_path \<Rightarrow> bool" where
  "IsMapperPath = prop_handle_is [MapperNodeT]"

definition IsMapperArgPath :: "sdf_path \<Rightarrow> bool" where
  "IsMapperArgPath = prop_handle_is [MapperArgNodeT]"

definition IsExpressionPath :: "sdf_path \<Rightarrow> bool" where
  "IsExpressionPath = prop_handle_is [ExpressionNodeT]"

lemmas [path_queries] = IsEmpty_def prim_handle_def null_prim_handle_def
  IsAbsolutePath_def IsAbsoluteRootPath_def IsPrimPath_def IsAbsoluteRootOrPrimPath_def
  IsRootPrimPath_def IsPropertyPath_def IsPrimPropertyPath_def IsPrimVariantSelectionPath_def
  IsPrimOrPrimVariantSelectionPath_def prop_handle_is_def prim_handle_type_def
  IsRelationalAttributePath_def IsTargetPath_def IsMapperPath_def IsMapperArgPath_def
  IsExpressionPath_def EmptyPath_def AbsoluteRootPath_def ReflexiveRelativePath_def

definition GetNameToken :: "sdf_path \<Rightarrow> token" where
  "GetNameToken p =
     (if prop_part p \<noteq> [] then prop_node_name (last (prop_part p))
      else prim_handle_name (prim_handle p))"

definition GetVariantSelection :: "sdf_path \<Rightarrow> token \<times> token" where
  "GetVariantSelection p =
     (if IsPrimVariantSelectionPath p then
        (case last (prim_part p) of PrimVariantSelectionNode vset vsel \<Rightarrow> (vset, vsel)
         | PrimNode _ \<Rightarrow> ([], []))
      else ([], []))"

section \<open>Prefixes and ancestors\<close>

text \<open>Following \<open>GetParentNode\<close> a given number of times.\<close>

primrec walk_up :: "nat \<Rightarrow> 'n list \<Rightarrow> 'n list" where
  "walk_up 0 ns = ns"
| "walk_up (Suc k) ns = walk_up k (butlast ns)"

text \<open>\<open>while (node && node != prefixNode) node = node->GetParentNode()\<close>\<close>

function walk_up_until :: "'n list \<Rightarrow> 'n list \<Rightarrow> 'n list" where
  "walk_up_until ns stop =
     (if ns = [] \<or> ns = stop then ns else walk_up_until (butlast ns) stop)"
  by pat_completeness auto
termination
  by (relation "measure (\<lambda>(ns, stop). length ns)") (auto simp: length_greater_0_conv [symmetric] simp del: length_greater_0_conv)

declare walk_up_until.simps [simp del]

definition HasPrefix :: "sdf_path \<Rightarrow> sdf_path \<Rightarrow> bool" where
  "HasPrefix p pre =
     (if IsEmpty pre \<or> IsEmpty p then False
      else if prop_part pre \<noteq> [] then
        (if prim_handle p \<noteq> prim_handle pre \<or> prop_part p = [] then False
         else walk_up_until (prop_part p) (prop_part pre) = prop_part pre)
      else if path_root p = AbsoluteRoot \<and> pre = AbsoluteRootPath then True
      else
        let prefixDepth = length (prim_part pre); curDepth = length (prim_part p) in
        if curDepth < prefixDepth then False
        else (path_root p, walk_up (curDepth - prefixDepth) (prim_part p)) = prim_handle pre)"

definition path_of_handle :: "prim_handle \<Rightarrow> prop_node list \<Rightarrow> sdf_path" where
  "path_of_handle h ps = SdfPath (fst h) (snd h) ps"

definition GetParentPath :: "sdf_path \<Rightarrow> sdf_path" where
  "GetParentPath p =
     (if IsEmpty p then p
      else if prop_part p \<noteq> [] then
        SdfPath (path_root p) (prim_part p) (butlast (prop_part p))
      else if path_root p = AbsoluteRoot \<or>
          (prim_handle p \<noteq> (RelativeRoot, []) \<and>
           prim_handle_name (prim_handle p) \<noteq> parentPathElement)
        then path_of_handle (parent_prim (prim_handle p)) []
      else SdfPath (path_root p) (prim_part p @ [PrimNode parentPathElement]) [])"

text \<open>The walks of \<open>GetPrimPath\<close> and \<open>GetPrimOrPrimVariantSelectionPath\<close>: a root node
  is of neither kind, and its parent is null.\<close>

function nearest_prim :: "(node_type \<Rightarrow> bool) \<Rightarrow> prim_handle \<Rightarrow> prim_handle" where
  "nearest_prim good (r, ns) =
     (if ns = [] then null_prim_handle
      else if good (prim_node_type (last ns)) then (r, ns)
      else nearest_prim good (r, butlast ns))"
  by pat_completeness auto
termination
  by (relation "measure (\<lambda>(good, h). length (snd h))") (auto simp: length_greater_0_conv [symmetric] simp del: length_greater_0_conv)

declare nearest_prim.simps [simp del]

definition GetPrimPath :: "sdf_path \<Rightarrow> sdf_path" where
  "GetPrimPath p = path_of_handle (nearest_prim (\<lambda>t. t = PrimNodeT) (prim_handle p)) []"

definition GetPrimOrPrimVariantSelectionPath :: "sdf_path \<Rightarrow> sdf_path" where
  "GetPrimOrPrimVariantSelectionPath p =
     path_of_handle (nearest_prim (\<lambda>t. t = PrimNodeT \<or> t = PrimVariantSelectionNodeT)
       (prim_handle p)) []"

definition GetAbsoluteRootOrPrimPath :: "sdf_path \<Rightarrow> sdf_path" where
  "GetAbsoluteRootOrPrimPath p = (if p = AbsoluteRootPath then p else GetPrimPath p)"

text \<open>\<open>GetPrefixes\<close> fills a span from its last element; the loops are listed leaf first.\<close>

fun prefixes_loop :: "nat \<Rightarrow> prim_handle \<Rightarrow> prop_node list \<Rightarrow> sdf_path list" where
  "prefixes_loop 0 h ps = []"
| "prefixes_loop (Suc n) h ps =
     path_of_handle h ps #
     (if ps \<noteq> [] then prefixes_loop n h (butlast ps)
      else prefixes_loop n (parent_prim h) [])"

definition GetPrefixes :: "nat \<Rightarrow> sdf_path \<Rightarrow> sdf_path list" where
  "GetPrefixes numPrefixes p =
     (let elemCount = GetPathElementCount p;
          n = (if numPrefixes = 0 \<or> numPrefixes > elemCount then elemCount else numPrefixes)
      in rev (prefixes_loop n (prim_handle p) (prop_part p)))"

text \<open>\<open>_GetNextTargetNode\<close>: the nearest target or mapper node at or above a node.\<close>

function next_target_walk :: "prop_node list \<Rightarrow> prop_node list" where
  "next_target_walk ns =
     (if ns \<noteq> [] \<and> \<not> is_target_or_mapper (last ns) then next_target_walk (butlast ns) else ns)"
  by pat_completeness auto
termination
  by (relation "measure length") (auto simp: length_greater_0_conv [symmetric] simp del: length_greater_0_conv)

declare next_target_walk.simps [simp del]

definition GetNextTargetNode :: "prop_node list \<Rightarrow> prop_node list" where
  "GetNextTargetNode ns =
     (if ns = [] \<or> \<not> nodes_ContainsTargetPath ns then [] else next_target_walk ns)"

definition GetTargetPath :: "sdf_path \<Rightarrow> sdf_path" where
  "GetTargetPath p =
     (if prop_part p = [] then EmptyPath
      else let targetNode = GetNextTargetNode (prop_part p) in
        if targetNode \<noteq> [] then node_target_path (last targetNode) else EmptyPath)"

text \<open>
  \<open>GetAllTargetPathsRecursively\<close>: the loop visits the target and mapper nodes from the leaf
  to the root and recurses into each target before it goes on.
\<close>

lemma node_target_size:
  "n \<in> set ps \<Longrightarrow> is_target_or_mapper n \<Longrightarrow> size (node_target_path n) < Suc (size_list size ps)"
  by (induction ps) (auto elim!: is_target_or_mapper.elims)

function GetAllTargetPathsRecursively :: "sdf_path \<Rightarrow> sdf_path list" where
  "GetAllTargetPathsRecursively (SdfPath r ns ps) =
     concat (map (\<lambda>n. if is_target_or_mapper n
       then node_target_path n # GetAllTargetPathsRecursively (node_target_path n) else [])
       (rev ps))"
  by pat_completeness auto
termination
  by (relation "measure size") (auto dest: node_target_size)

text \<open>\<open>SdfPathAncestorsRange::iterator::operator++\<close>\<close>

definition ancestors_next :: "sdf_path \<Rightarrow> sdf_path" where
  "ancestors_next p =
     (if IsEmpty p then p
      else if prop_part p \<noteq> [] then path_of_handle (prim_handle p) (butlast (prop_part p))
      else if length (prim_part p) > 1 then path_of_handle (parent_prim (prim_handle p)) []
      else EmptyPath)"

subsection \<open>Facts\<close>

lemma walk_up_take: "k \<le> length ns \<Longrightarrow> walk_up k ns = take (length ns - k) ns"
  by (induction k arbitrary: ns) (auto simp: butlast_conv_take)

lemma walk_up_until_prefix: "prefix (walk_up_until ns stop) ns"
proof (induction ns stop rule: walk_up_until.induct)
  case (1 ns stop)
  then show ?case
    by (subst walk_up_until.simps) (auto intro: prefix_order.trans prefixeq_butlast)
qed

lemma walk_up_until_found: "stop \<noteq> [] \<Longrightarrow> prefix stop ns \<Longrightarrow> walk_up_until ns stop = stop"
proof (induction ns stop rule: walk_up_until.induct)
  case (1 ns stop)
  show ?case
  proof (cases "ns = [] \<or> ns = stop")
    case False
    with 1(3) have "prefix stop (butlast ns)"
      by (metis append_butlast_last_id prefix_snoc)
    with 1 False show ?thesis by (subst walk_up_until.simps) simp
  qed (use 1 in \<open>auto simp: walk_up_until.simps [of ns]\<close>)
qed

lemma HasPrefix_iff:
  "HasPrefix p q \<longleftrightarrow> \<not> IsEmpty p \<and> \<not> IsEmpty q \<and> path_root p = path_root q \<and>
     (if prop_part q = [] then prefix (prim_part q) (prim_part p)
      else prim_part p = prim_part q \<and> prefix (prop_part q) (prop_part p))"
proof (cases "prop_part q = []")
  case True
  have w: "walk_up (length xs - length ys) xs = ys \<longleftrightarrow> prefix ys xs"
    if "length ys \<le> length xs" for xs ys :: "prim_node list"
  proof -
    have "walk_up (length xs - length ys) xs = take (length ys) xs"
      using that by (simp add: walk_up_take)
    then show ?thesis by (metis append_eq_conv_conj prefix_def append_take_drop_id)
  qed
  show ?thesis using True w [of "prim_part q" "prim_part p"]
    by (cases q) (auto simp: HasPrefix_def Let_def prim_handle_def AbsoluteRootPath_def
        IsEmpty_def null_prim_handle_def dest: prefix_length_le)
next
  case False
  then show ?thesis
    using walk_up_until_found [of "prop_part q" "prop_part p"]
      walk_up_until_prefix [of "prop_part p" "prop_part q"]
    by (auto simp: HasPrefix_def prim_handle_def)
qed

end
