(* ===== verification/Prefix_Sets.thy ===== *)
theory Prefix_Sets
  imports USD_Prelude
begin

text \<open>
  The interface between the hierarchical keys of the code (\<open>SdfPath\<close> with
  \<open>operator<\<close> and \<open>HasPrefix\<close>, \<open>HdDataSourceLocator\<close> likewise) and the classes that keep
  sorted vectors of such keys standing for everything below them
  (\<open>UsdStagePopulationMask\<close>, \<open>HdDataSourceLocatorSet\<close>). The locale states what those
  classes rely on: the order is linear, a prefix comes before what it prefixes, the keys
  between a prefix and something it prefixes have that prefix too, and the prefixes of one
  key form a chain. The lemmas about normalized vectors are proved once here.
\<close>

text \<open>A vector is normalized if it is sorted and no element is a prefix of another one.\<close>

definition normalized :: "('a \<Rightarrow> 'a \<Rightarrow> bool) \<Rightarrow> ('a \<Rightarrow> 'a \<Rightarrow> bool) \<Rightarrow> 'a list \<Rightarrow> bool" where
  "normalized lt has_prefix xs \<longleftrightarrow>
     sorted_wrt lt xs \<and> (\<forall>x \<in> set xs. \<forall>y \<in> set xs. has_prefix x y \<longrightarrow> x = y)"

text \<open>What a vector stands for: its elements and everything below them.\<close>

definition covers :: "('a \<Rightarrow> 'a \<Rightarrow> bool) \<Rightarrow> 'a list \<Rightarrow> 'a \<Rightarrow> bool" where
  "covers has_prefix xs x \<longleftrightarrow> (\<exists>p \<in> set xs. has_prefix x p)"

lemma covers_Nil [simp]: "\<not> covers hp [] x"
  by (simp add: covers_def)

lemma covers_Cons [simp]: "covers hp (p # ps) x \<longleftrightarrow> hp x p \<or> covers hp ps x"
  by (auto simp: covers_def)

lemma covers_append [simp]: "covers hp (ps @ qs) x \<longleftrightarrow> covers hp ps x \<or> covers hp qs x"
  by (auto simp: covers_def)

lemma covers_set: "set ps = set qs \<Longrightarrow> covers hp ps x = covers hp qs x"
  by (simp add: covers_def)

locale prefix_ordered = comparator less
  for less :: "'a \<Rightarrow> 'a \<Rightarrow> bool" +
  fixes valid :: "'a \<Rightarrow> bool" and has_prefix :: "'a \<Rightarrow> 'a \<Rightarrow> bool"
  assumes prefix_refl: "valid x \<Longrightarrow> has_prefix x x"
    and prefix_valid: "has_prefix x p \<Longrightarrow> valid x \<and> valid p"
    and prefix_trans: "has_prefix x p \<Longrightarrow> has_prefix p q \<Longrightarrow> has_prefix x q"
    and prefix_less: "has_prefix x p \<Longrightarrow> x \<noteq> p \<Longrightarrow> less p x"
    and prefix_convex: "has_prefix x p \<Longrightarrow> less p y \<Longrightarrow> less y x \<Longrightarrow> has_prefix y p"
    and prefix_chain: "has_prefix x p \<Longrightarrow> has_prefix x q \<Longrightarrow> has_prefix p q \<or> has_prefix q p"
begin

abbreviation "norm \<equiv> normalized less has_prefix"
abbreviation "cov \<equiv> covers has_prefix"

lemma prefix_antisym: "has_prefix x y \<Longrightarrow> has_prefix y x \<Longrightarrow> x = y"
  using asym prefix_less by blast

lemma less_not_prefix: "less x y \<Longrightarrow> \<not> has_prefix x y"
  using asym irrefl prefix_less by blast

text \<open>Keys below unrelated prefixes are ordered as the prefixes are.\<close>

lemma unrelated_below:
  assumes "less p q" "\<not> has_prefix q p" "has_prefix x p" "has_prefix y q"
  shows "less x y"
proof -
  have "less x q"
  proof (rule ccontr)
    assume "\<not> less x q"
    then have "q = x \<or> less q x" using not_less by blast
    with assms prefix_convex show False by blast
  qed
  with assms(4) show ?thesis using trans prefix_less by blast
qed

lemma norm_Nil [simp]: "norm []"
  by (simp add: normalized_def)

lemma norm_Cons:
  "norm (x # xs) \<longleftrightarrow> norm xs \<and> (\<forall>y \<in> set xs. less x y \<and> \<not> has_prefix y x)"
  using irrefl less_not_prefix by (fastforce simp: normalized_def)

lemma norm_append:
  "norm (xs @ ys) \<longleftrightarrow> norm xs \<and> norm ys \<and> (\<forall>x \<in> set xs. \<forall>y \<in> set ys. less x y \<and> \<not> has_prefix y x)"
  by (induction xs) (auto simp: norm_Cons)

lemma norm_sorted: "norm xs \<Longrightarrow> sorted_wrt less xs"
  by (simp add: normalized_def)

lemma norm_weak_sorted: "norm xs \<Longrightarrow> sorted_wrt (\<lambda>x y. \<not> less y x) xs"
  by (rule sorted_weak) (simp add: normalized_def)

lemma norm_distinct: "norm xs \<Longrightarrow> distinct xs"
  by (rule sorted_distinct) (simp add: normalized_def)

lemma norm_prefix_eq: "norm xs \<Longrightarrow> x \<in> set xs \<Longrightarrow> y \<in> set xs \<Longrightarrow> has_prefix x y \<Longrightarrow> x = y"
  by (simp add: normalized_def)

lemma norm_take: "norm xs \<Longrightarrow> norm (take n xs)"
  by (metis append_take_drop_id norm_append)

lemma norm_drop: "norm xs \<Longrightarrow> norm (drop n xs)"
  by (metis append_take_drop_id norm_append)

text \<open>A normalized vector is the canonical representation of what it stands for.\<close>

lemma norm_canonical:
  assumes "norm xs" "norm ys" "\<forall>x \<in> set xs. valid x" "\<forall>y \<in> set ys. valid y"
    and eq: "\<And>x. valid x \<Longrightarrow> cov xs x \<longleftrightarrow> cov ys x"
  shows "xs = ys"
proof -
  have sub: "set as \<subseteq> set bs"
    if n: "norm as" "norm bs" and v: "\<forall>x \<in> set as. valid x" "\<forall>x \<in> set bs. valid x"
      and e: "\<And>x. valid x \<Longrightarrow> cov as x \<longleftrightarrow> cov bs x" for as bs
  proof
    fix a assume a: "a \<in> set as"
    with v e have "cov bs a" by (metis covers_def prefix_refl)
    then obtain b where b: "b \<in> set bs" "has_prefix a b" by (auto simp: covers_def)
    with v e have "cov as b" by (metis covers_def prefix_refl)
    then obtain a' where a': "a' \<in> set as" "has_prefix b a'" by (auto simp: covers_def)
    with b have "has_prefix a a'" by (blast intro: prefix_trans)
    with n a a' have "a = a'" by (auto simp: normalized_def)
    with b a' prefix_antisym have "a = b" by blast
    with b show "a \<in> set bs" by simp
  qed
  have "set xs = set ys"
    using sub [OF assms(1-4) eq] sub [OF assms(2,1,4,3)] eq by blast
  with assms(1,2) show ?thesis
    by (intro sorted_wrt_set_unique [of less]) (auto simp: normalized_def irrefl intro: trans)
qed

text \<open>
  Removing descendants: \<open>std::unique\<close> on a sorted vector, with the predicate "the second has
  the first as a prefix", keeps exactly the elements with no other element as a prefix.
\<close>

lemma std_unique_prefix_hd:
  "std_unique (\<lambda>l r. has_prefix r l) (x # xs) =
   x # std_unique (\<lambda>l r. has_prefix r l) (dropWhile (\<lambda>y. has_prefix y x) xs)"
proof (induction xs)
  case (Cons y ys)
  then show ?case by (cases "has_prefix y x") auto
qed simp

lemma dropWhile_prefix_none:
  assumes "sorted_wrt (\<lambda>x y. \<not> less y x) (x # xs)" "y \<in> set (dropWhile (\<lambda>y. has_prefix y x) xs)"
  shows "\<not> has_prefix y x"
proof
  assume yx: "has_prefix y x"
  obtain z zs where d: "dropWhile (\<lambda>y. has_prefix y x) xs = z # zs"
    using assms(2) by (cases "dropWhile (\<lambda>y. has_prefix y x) xs") auto
  then have z: "\<not> has_prefix z x" by (metis dropWhile_eq_Cons_conv)
  obtain us where xs: "xs = us @ z # zs" by (metis d takeWhile_dropWhile_id)
  have "\<not> less z x" "z \<in> set xs" using assms(1) xs by auto
  moreover have "y = z \<or> \<not> less y z" using assms d xs by (auto simp: sorted_wrt_append)
  moreover have "z \<noteq> x" using z yx prefix_valid prefix_refl by blast
  ultimately have "less x z" "y = z \<or> less z y" using not_less by blast+
  with yx z prefix_convex show False by blast
qed

lemma norm_std_unique:
  "sorted_wrt (\<lambda>x y. \<not> less y x) xs \<Longrightarrow> \<forall>x \<in> set xs. valid x \<Longrightarrow>
   norm (std_unique (\<lambda>l r. has_prefix r l) xs)"
proof (induction xs rule: length_induct)
  case (1 xs)
  show ?case
  proof (cases xs)
    case (Cons x ys)
    let ?d = "dropWhile (\<lambda>y. has_prefix y x) ys"
    let ?u = "std_unique (\<lambda>l r. has_prefix r l) ?d"
    have s: "sorted_wrt (\<lambda>x y. \<not> less y x) ?d"
      using "1.prems"(1) Cons by (metis dropWhile_eq_drop sorted_wrt.simps(2) sorted_wrt_drop)
    have sub: "set ?d \<subseteq> set ys" by (auto dest: set_dropWhileD)
    have n: "norm ?u"
      using "1.IH" s "1.prems"(2) Cons sub
      by (metis (no_types, lifting) length_Cons length_dropWhile_le less_Suc_eq_le list.set_intros(2) subsetD)
    have "less x y \<and> \<not> has_prefix y x" if y: "y \<in> set ?u" for y
    proof -
      have yd: "y \<in> set ?d" using y set_std_unique_subset by fast
      have np: "\<not> has_prefix y x"
        using dropWhile_prefix_none [OF _ yd] "1.prems"(1) Cons by simp
      have "\<not> less y x" "valid x" using yd sub "1.prems" Cons by auto
      with np show ?thesis using not_less prefix_refl by blast
    qed
    with n show ?thesis unfolding Cons std_unique_prefix_hd norm_Cons by blast
  qed simp
qed

lemma cov_std_unique:
  assumes "\<forall>x \<in> set xs. valid x"
  shows "cov (std_unique (\<lambda>l r. has_prefix r l) xs) z \<longleftrightarrow> cov xs z"
  using assms
proof (induction "\<lambda>l r. has_prefix r l" xs rule: std_unique.induct)
  case (3 x y zs)
  then show ?case by (auto intro: prefix_trans)
qed auto

subsection \<open>Searching and inserting\<close>

text \<open>
  Seen from a key, a normalized vector falls into the elements before it (smaller and not
  a prefix of it), its prefix if there is one, and the greater elements, those below the key
  first.
\<close>

abbreviation before :: "'a \<Rightarrow> 'a \<Rightarrow> bool" where
  "before x e \<equiv> less e x \<and> \<not> has_prefix x e"

abbreviation from_key :: "'a \<Rightarrow> 'a list \<Rightarrow> 'a list" where
  "from_key x xs \<equiv> dropWhile (before x) xs"

lemma before_closed:
  "less a b \<Longrightarrow> \<not> has_prefix b a \<Longrightarrow> before x b \<Longrightarrow> before x a"
  using trans prefix_convex by blast

lemma before_partition: "norm xs \<Longrightarrow> sorted_wrt (\<lambda>a b. before x b \<longrightarrow> before x a) xs"
proof (induction xs)
  case (Cons a xs)
  then show ?case unfolding norm_Cons sorted_wrt.simps using before_closed by blast
qed simp

lemma lower_bound_before:
  assumes "norm xs" "\<And>e. e \<in> set xs \<Longrightarrow> lt e x \<longleftrightarrow> before x e"
  shows "std_lower_bound lt xs x = length (takeWhile (before x) xs)"
proof -
  have "sorted_wrt (\<lambda>a b. lt b x \<longrightarrow> lt a x) xs"
    using before_partition [OF assms(1), of x] assms(2)
    by (simp add: sorted_wrt_iff_nth_less)
  then have "std_lower_bound lt xs x = length (takeWhile (\<lambda>e. lt e x) xs)"
    unfolding std_lower_bound_def by (rule partition_point_takeWhile)
  also have "takeWhile (\<lambda>e. lt e x) xs = takeWhile (before x) xs"
    using assms(2) by (intro takeWhile_cong) auto
  finally show ?thesis .
qed

lemma takeWhile_before: "e \<in> set (takeWhile (before x) xs) \<Longrightarrow> less e x \<and> \<not> has_prefix x e"
  by (drule set_takeWhileD) simp

lemma not_before_from_key: "norm xs \<Longrightarrow> e \<in> set (from_key x xs) \<Longrightarrow> \<not> before x e"
proof (induction xs)
  case (Cons a xs)
  show ?case
  proof (cases "before x a")
    case True
    with Cons show ?thesis by (simp add: norm_Cons)
  next
    case False
    with Cons.prems(2) have "e = a \<or> e \<in> set xs" by auto
    moreover have "less a f \<and> \<not> has_prefix f a" if "f \<in> set xs" for f
      using Cons.prems(1) that unfolding norm_Cons by blast
    ultimately show ?thesis using before_closed [of a e x] False by blast
  qed
qed simp

lemma norm_from_key: "norm xs \<Longrightarrow> norm (from_key x xs)"
  unfolding dropWhile_eq_drop by (rule norm_drop)

text \<open>A key with a prefix in the vector finds it at once, and it is the only one.\<close>

lemma cov_below: "cov xs x \<Longrightarrow> has_prefix z x \<Longrightarrow> cov xs z"
  by (auto simp: covers_def intro: prefix_trans)

lemma cov_dropWhile_below:
  "cov (dropWhile (\<lambda>e. has_prefix e x) ys) z \<or> has_prefix z x \<longleftrightarrow> cov ys z \<or> has_prefix z x"
  by (induction ys) (auto intro: prefix_trans)

lemma cov_split: "cov xs z \<longleftrightarrow> cov (takeWhile P xs) z \<or> cov (dropWhile P xs) z"
  using covers_append [of has_prefix "takeWhile P xs" "dropWhile P xs" z]
  unfolding takeWhile_dropWhile_id .

lemma cov_from_key: "cov xs x \<longleftrightarrow> cov (from_key x xs) x"
proof -
  have "\<not> cov (takeWhile (before x) xs) x" by (auto simp: covers_def dest: takeWhile_before)
  with cov_split [of xs x "before x"] show ?thesis by blast
qed

lemma cov_search:
  assumes "norm xs"
  shows "cov xs x \<longleftrightarrow> (case from_key x xs of [] \<Rightarrow> False | e # _ \<Rightarrow> has_prefix x e)"
proof (cases "from_key x xs")
  case Nil
  show ?thesis unfolding cov_from_key [of xs x] Nil by simp
next
  case (Cons e es)
  have n: "norm (e # es)" using norm_from_key [OF assms, of x] Cons by simp
  have "\<not> before x e" using not_before_from_key [OF assms, of e x] Cons by simp
  then have "\<not> has_prefix x f \<or> has_prefix x e" if "f \<in> set es" for f
  proof -
    have "less e f" "\<not> has_prefix f e" using n that by (auto simp: norm_Cons)
    then show ?thesis
      using \<open>\<not> before x e\<close> by (metis less_not_prefix prefix_less trans)
  qed
  then show ?thesis unfolding cov_from_key [of xs x] Cons by (auto simp: covers_def)
qed

text \<open>The vector meets a key if a prefix of it or something below it is in the vector.\<close>

lemma meets_search:
  assumes "norm xs"
  shows "(\<exists>e \<in> set xs. has_prefix x e \<or> has_prefix e x) \<longleftrightarrow>
     (case from_key x xs of [] \<Rightarrow> False | e # _ \<Rightarrow> has_prefix x e \<or> has_prefix e x)"
proof (cases "from_key x xs")
  case Nil
  then have "\<forall>e \<in> set xs. before x e" by simp
  then have "\<not> (\<exists>e \<in> set xs. has_prefix x e \<or> has_prefix e x)" using less_not_prefix by blast
  then show ?thesis unfolding Nil by simp
next
  case (Cons e es)
  have e: "e \<in> set xs" using Cons by (metis list.set_intros(1) set_dropWhileD)
  have n: "norm (e # es)" using norm_from_key [OF assms, of x] Cons by simp
  have ne: "\<not> before x e" using not_before_from_key [OF assms, of e x] Cons by simp
  have "has_prefix x e \<or> has_prefix e x" if f: "f \<in> set xs" "has_prefix x f \<or> has_prefix f x" for f
  proof (cases "f \<in> set (e # es)")
    case True
    have "f = e \<or> less e f \<and> \<not> has_prefix f e" using n True by (auto simp: norm_Cons)
    then show ?thesis
      using f(2) ne not_less [of e x] trans prefix_less prefix_convex less_not_prefix by metis
  next
    case False
    then have "f \<in> set (takeWhile (before x) xs)"
      using f(1) Cons by (metis Un_iff set_append takeWhile_dropWhile_id)
    then have "before x f" using takeWhile_before by blast
    with f(2) less_not_prefix show ?thesis by blast
  qed
  with e show ?thesis unfolding Cons by auto
qed

text \<open>Elements below the key that are not covered by one follow the place where it belongs.\<close>

lemma below_first:
  assumes "norm xs" "\<not> cov xs x" "valid x"
  shows "\<forall>e \<in> set (dropWhile (\<lambda>e. has_prefix e x) (from_key x xs)). less x e \<and> \<not> has_prefix e x"
proof -
  let ?r = "from_key x xs" and ?d = "dropWhile (\<lambda>e. has_prefix e x) (from_key x xs)"
  have n: "norm ?r" by (rule norm_from_key [OF assms(1)])
  have gt: "less x e \<or> e = x" if "e \<in> set ?r" for e
    using not_before_from_key [OF assms(1) that] assms(2) that not_less
    by (meson covers_def set_dropWhileD)
  show ?thesis
  proof
    fix e assume e: "e \<in> set ?d"
    then obtain h t where d: "?d = h # t" by (cases ?d) auto
    then have h: "\<not> has_prefix h x" by (metis dropWhile_eq_Cons_conv)
    have "h \<in> set ?r" using d by (metis list.set_intros(1) set_dropWhileD)
    with gt have "less x h \<or> h = x" by blast
    then have xh: "less x h" using h prefix_refl [OF assms(3)] by blast
    have "norm (h # t)" using n d by (metis dropWhile_eq_drop norm_drop)
    then have he: "e = h \<or> less h e" using e d by (auto simp: norm_Cons)
    then have "\<not> has_prefix e x" using h xh prefix_convex by blast
    with xh he show "less x e \<and> \<not> has_prefix e x" using trans by blast
  qed
qed

definition insert_key :: "'a \<Rightarrow> 'a list \<Rightarrow> 'a list" where
  "insert_key x xs =
     takeWhile (before x) xs @ x # dropWhile (\<lambda>e. has_prefix e x) (from_key x xs)"

lemma norm_insert_key:
  assumes "norm xs" "\<not> cov xs x" "valid x"
  shows "norm (insert_key x xs)"
proof -
  define t r where "t = takeWhile (before x) xs" and "r = from_key x xs"
  define d where "d = dropWhile (\<lambda>e. has_prefix e x) r"
  obtain us where us: "r = us @ d" unfolding d_def by (metis takeWhile_dropWhile_id)
  have "norm (t @ r)" using assms(1) by (simp add: t_def r_def)
  then have "norm t" "norm d" "\<forall>a \<in> set t. \<forall>b \<in> set d. less a b \<and> \<not> has_prefix b a"
    unfolding us norm_append by auto
  moreover have "\<forall>a \<in> set t. less a x \<and> \<not> has_prefix x a"
    unfolding t_def using takeWhile_before by blast
  moreover have "\<forall>e \<in> set d. less x e \<and> \<not> has_prefix e x"
    unfolding d_def r_def by (rule below_first [OF assms])
  ultimately have "norm (t @ x # d)" unfolding norm_append norm_Cons by auto
  then show ?thesis by (simp add: insert_key_def t_def r_def d_def)
qed

lemma set_insert_key:
  "set (insert_key x xs) \<subseteq> insert x (set xs)"
  unfolding insert_key_def by (auto dest: set_takeWhileD set_dropWhileD)

lemma cov_insert_key:
  assumes "valid z"
  shows "cov (insert_key x xs) z \<longleftrightarrow> has_prefix z x \<or> cov xs z"
proof -
  from cov_dropWhile_below [of x "from_key x xs" z] cov_split [of xs z "before x"] show ?thesis
    unfolding insert_key_def by auto
qed

text \<open>The neighbours of the place a binary search by the order finds.\<close>

lemma lower_bound_neighbours:
  assumes "norm xs" "valid x" "it = length (takeWhile (\<lambda>e. less e x) xs)"
  shows "(it < length xs \<and> xs ! it = x) \<or> (0 < it \<and> has_prefix x (xs ! (it - 1))) \<longleftrightarrow> cov xs x"
    and "(0 < it \<and> has_prefix x (xs ! (it - 1))) \<or> (it < length xs \<and> has_prefix (xs ! it) x)
      \<longleftrightarrow> (\<exists>e \<in> set xs. has_prefix x e \<or> has_prefix e x)"
proof -
  have le: "it \<le> length xs" using assms(3) length_takeWhile_le by blast
  have lt: "less (xs ! i) x" if "i < it" for i
    using that unfolding assms(3) by (rule nth_before_takeWhile)
  have sorted: "less (xs ! i) (xs ! j)" "\<not> has_prefix (xs ! j) (xs ! i)" if "i < j" "j < length xs" for i j
  proof -
    show less: "less (xs ! i) (xs ! j)"
      by (rule sorted_wrt_nth_less [OF norm_sorted [OF assms(1)] that])
    have mem: "xs ! i \<in> set xs" "xs ! j \<in> set xs" using that by auto
    show "\<not> has_prefix (xs ! j) (xs ! i)"
    proof
      assume "has_prefix (xs ! j) (xs ! i)"
      then have "xs ! j = xs ! i" by (rule norm_prefix_eq [OF assms(1) mem(2,1)])
      with less have "less (xs ! i) (xs ! i)" by (simp only:)
      with irrefl show False by blast
    qed
  qed
  have ge: "\<not> less (xs ! i) x" if "it \<le> i" "i < length xs" for i
  proof -
    have "\<not> less (xs ! it) x"
      unfolding assms(3) by (rule takeWhile_nth_length) (use that assms(3) in simp)
    moreover have "i = it \<or> less (xs ! it) (xs ! i)" using sorted(1) [of it i] that by linarith
    ultimately show ?thesis using trans by blast
  qed
  have up: "it < length xs \<and> has_prefix (xs ! it) x" if i: "i < length xs" "has_prefix (xs ! i) x" for i
  proof -
    have "it \<le> i" using i lt less_not_prefix by (meson linorder_not_le)
    then have "it < length xs" using i(1) by simp
    moreover have "has_prefix (xs ! it) x"
    proof (cases "i = it")
      case False
      with \<open>it \<le> i\<close> i(1) have "less (xs ! it) (xs ! i)" by (intro sorted) auto
      moreover have "x = xs ! it \<or> less x (xs ! it)"
        using ge [OF order_refl \<open>it < length xs\<close>] not_less by blast
      ultimately show ?thesis using prefix_convex [OF i(2)] prefix_refl [OF assms(2)] by metis
    qed (use i in simp)
    ultimately show ?thesis by blast
  qed
  have down: "0 < it \<and> has_prefix x (xs ! (it - 1)) \<or> it < length xs \<and> xs ! it = x"
    if i: "i < length xs" "has_prefix x (xs ! i)" for i
  proof (cases "xs ! i = x")
    case True
    then have "has_prefix (xs ! i) x" using prefix_refl [OF assms(2)] by simp
    then have it: "it < length xs" "has_prefix (xs ! it) x" using up [OF i(1)] by blast+
    then have p: "has_prefix (xs ! it) (xs ! i)" using True by simp
    have "xs ! it = xs ! i" by (rule norm_prefix_eq [OF assms(1) _ _ p]) (use i it in auto)
    with True it show ?thesis by simp
  next
    case False
    then have "less (xs ! i) x" using prefix_less i(2) by blast
    then have "i < it" using ge i(1) by (meson linorder_not_le)
    have "i = it - 1"
    proof (rule ccontr)
      assume "i \<noteq> it - 1"
      with \<open>i < it\<close> have i': "i < it - 1" "it - 1 < it" "it - 1 < length xs" using le by auto
      from sorted [OF i'(1,3)] lt [OF i'(2)] prefix_convex [OF i(2)] show False by blast
    qed
    with i \<open>i < it\<close> show ?thesis by auto
  qed
  have mem: "0 < it \<Longrightarrow> xs ! (it - 1) \<in> set xs" "it < length xs \<Longrightarrow> xs ! it \<in> set xs"
    using le by auto
  show "(it < length xs \<and> xs ! it = x) \<or> (0 < it \<and> has_prefix x (xs ! (it - 1))) \<longleftrightarrow> cov xs x"
    using down mem prefix_refl [OF assms(2)] unfolding covers_def by (metis in_set_conv_nth)
  show "(0 < it \<and> has_prefix x (xs ! (it - 1))) \<or> (it < length xs \<and> has_prefix (xs ! it) x)
      \<longleftrightarrow> (\<exists>e \<in> set xs. has_prefix x e \<or> has_prefix e x)"
    using down up mem prefix_refl [OF assms(2)] by (metis in_set_conv_nth)
qed

text \<open>
  The elements below a key that the vector does not contain a prefix of are one stretch,
  from the lower bound on.
\<close>

lemma below_stretch:
  assumes norm: "norm ls" and valid: "valid l"
    and it: "it = length (takeWhile (\<lambda>e. less e l) ls)"
  shows "\<forall>e \<in> set (take it ls). \<not> has_prefix e l"
    and "\<forall>e \<in> set (dropWhile (\<lambda>e. has_prefix e l) (drop it ls)). \<not> has_prefix e l"
    and "sorted_wrt (\<lambda>a b. has_prefix b l \<longrightarrow> has_prefix a l) (drop it ls)"
proof -
  show "\<forall>e \<in> set (take it ls). \<not> has_prefix e l"
    unfolding it takeWhile_eq_take [symmetric]
    using less_not_prefix by (blast dest: set_takeWhileD)
  have s: "sorted_wrt (\<lambda>x y. \<not> less y x) (drop it ls)"
    by (rule norm_weak_sorted [OF norm_drop [OF norm]])
  have ge: "\<not> less e l" if e: "e \<in> set (drop it ls)" for e
  proof -
    have "it < length ls" using e by (metis drop_all empty_iff linorder_not_le list.set(1))
    then have d: "drop it ls = ls ! it # drop (Suc it) ls" by (rule drop_eq_Cons_nth)
    have "\<not> less (ls ! it) l"
      unfolding it by (rule takeWhile_nth_length) (use \<open>it < length ls\<close> it in simp)
    moreover have "e = ls ! it \<or> \<not> less e (ls ! it)"
      using s e unfolding d by auto
    ultimately show ?thesis using not_less_trans by blast
  qed
  with s have sl: "sorted_wrt (\<lambda>x y. \<not> less y x) (l # drop it ls)" by simp
  then show "\<forall>e \<in> set (dropWhile (\<lambda>e. has_prefix e l) (drop it ls)). \<not> has_prefix e l"
    using dropWhile_prefix_none by blast
  from s show "sorted_wrt (\<lambda>a b. has_prefix b l \<longrightarrow> has_prefix a l) (drop it ls)"
  proof (rule sorted_wrt_mono_rel [rotated])
    fix a b assume "a \<in> set (drop it ls)" "\<not> less b a"
    with ge have "\<not> less a l" "\<not> less b a" by auto
    then show "has_prefix b l \<longrightarrow> has_prefix a l"
      using prefix_convex not_less prefix_refl [OF valid] by metis
  qed
qed

text \<open>One step of a merge of two normalized vectors.\<close>

lemma merge_below:
  assumes "norm (l # ls)" "norm (r # rs)" "has_prefix r l"
  shows "\<forall>y \<in> set (dropWhile (\<lambda>x. has_prefix x l) rs). less l y \<and> \<not> has_prefix y l"
proof
  fix y assume y: "y \<in> set (dropWhile (\<lambda>x. has_prefix x l) rs)"
  then have y_rs: "y \<in> set rs" by (rule set_dropWhileD)
  have lr: "l = r \<or> less l r" using assms(3) prefix_less by blast
  have "less r y" using assms(2) y_rs by (simp add: norm_Cons)
  with lr have "less l y" using trans by blast
  moreover have "sorted_wrt less (l # rs)"
    using lr assms(2) norm_sorted trans unfolding norm_Cons sorted_wrt.simps by blast
  then have "\<not> has_prefix y l" using y by (intro dropWhile_prefix_none [OF sorted_weak])
  ultimately show "less l y \<and> \<not> has_prefix y l" by blast
qed

lemma merge_apart:
  assumes "norm (r # rs)" "less l r" "\<not> has_prefix r l"
  shows "\<forall>y \<in> set (r # rs). less l y \<and> \<not> has_prefix y l"
proof
  fix y assume "y \<in> set (r # rs)"
  then have "y = r \<or> less r y" using assms(1) by (auto simp: norm_Cons)
  with assms(2,3) trans prefix_convex show "less l y \<and> \<not> has_prefix y l" by blast
qed

lemma meet_below:
  assumes "norm (l # ls)" "norm (r # rs)" "has_prefix r l"
  shows "cov (l # ls) z \<and> cov (r # rs) z \<longleftrightarrow>
    cov (takeWhile (\<lambda>x. has_prefix x l) (r # rs)) z \<or>
    cov ls z \<and> cov (dropWhile (\<lambda>x. has_prefix x l) (r # rs)) z"
proof -
  let ?T = "takeWhile (\<lambda>x. has_prefix x l) (r # rs)" and ?D = "dropWhile (\<lambda>x. has_prefix x l) (r # rs)"
  have T: "has_prefix z l" if cov: "cov ?T z"
  proof -
    obtain t where "t \<in> set ?T" "has_prefix z t" using cov unfolding covers_def by blast
    then show ?thesis using prefix_trans by (blast dest: set_takeWhileD)
  qed
  have noT: "\<not> cov ?T z" if ls: "cov ls z"
  proof
    assume "cov ?T z"
    then have zl: "has_prefix z l" by (rule T)
    obtain p where p: "p \<in> set ls" "has_prefix z p" using ls unfolding covers_def by blast
    with assms(1) have "less l p" "\<not> has_prefix p l" by (auto simp: norm_Cons)
    with prefix_chain [OF zl p(2)] less_not_prefix show False by blast
  qed
  have noD: "\<not> cov ?D z" if "has_prefix z l"
  proof
    assume "cov ?D z"
    then obtain q where q: "q \<in> set ?D" "has_prefix z q" unfolding covers_def by blast
    have "?D = dropWhile (\<lambda>x. has_prefix x l) rs" using assms(3) by simp
    with q(1) have "q \<in> set (dropWhile (\<lambda>x. has_prefix x l) rs)" by (simp only:)
    with merge_below [OF assms] have "less l q \<and> \<not> has_prefix q l" by blast
    with prefix_chain [OF that q(2)] less_not_prefix show False by blast
  qed
  show ?thesis
    unfolding covers_Cons [of has_prefix l ls]
    using cov_split [of "r # rs" z "\<lambda>x. has_prefix x l"] T noT noD by blast
qed

lemma meet_apart:
  assumes "norm (r # rs)" "less l r" "\<not> has_prefix r l"
  shows "cov (l # ls) z \<and> cov (r # rs) z \<longleftrightarrow> cov ls z \<and> cov (r # rs) z"
proof -
  have "\<not> cov (r # rs) z" if zl: "has_prefix z l"
  proof
    assume "cov (r # rs) z"
    then obtain q where q: "q \<in> set (r # rs)" "has_prefix z q" unfolding covers_def by blast
    with merge_apart [OF assms] have "less l q" "\<not> has_prefix q l" by auto
    with prefix_chain [OF zl q(2)] less_not_prefix show False by blast
  qed
  then show ?thesis by auto
qed

text \<open>A stretch of a vector, followed by keys that are covered by the rest of the vector.\<close>

lemma norm_stretch:
  assumes "norm xs" "norm ys" "\<forall>y \<in> set ys. cov (dropWhile P xs) y" "\<forall>x \<in> set xs. valid x"
  shows "norm (takeWhile P xs @ ys)"
proof -
  have apart: "less t e \<and> \<not> has_prefix e t" if "t \<in> set (takeWhile P xs)" "e \<in> set (dropWhile P xs)" for t e
  proof -
    have "norm (takeWhile P xs @ dropWhile P xs)" using assms(1) by simp
    with that show ?thesis unfolding norm_append by blast
  qed
  have "less t y \<and> \<not> has_prefix y t" if t: "t \<in> set (takeWhile P xs)" and y: "y \<in> set ys" for t y
  proof -
    obtain e where e: "e \<in> set (dropWhile P xs)" "has_prefix y e"
      using assms(3) y unfolding covers_def by blast
    have "valid t" using t assms(4) by (blast dest: set_takeWhileD)
    with apart [OF t e(1)] e(2) show ?thesis
      using unrelated_below prefix_refl prefix_chain less_not_prefix by meson
  qed
  moreover have "norm (takeWhile P xs)" by (subst takeWhile_eq_take) (rule norm_take [OF assms(1)])
  ultimately show ?thesis using assms(2) unfolding norm_append by blast
qed

subsection \<open>The predecessor of a key\<close>

lemma lower_bound_found:
  assumes "sorted_wrt less xs" "x \<in> set xs"
  shows "length (takeWhile (\<lambda>e. less e x) xs) < length xs
    \<and> xs ! length (takeWhile (\<lambda>e. less e x) xs) = x"
proof -
  obtain us vs where xs: "xs = us @ x # vs" using assms(2) by (meson split_list)
  have "takeWhile (\<lambda>e. less e x) xs = us"
    using assms(1) irrefl unfolding xs by (simp add: sorted_wrt_append takeWhile_append2)
  then show ?thesis by (simp add: xs)
qed

text \<open>In a sorted vector, every strict prefix of a key is a prefix of the element before the place
  of the key.\<close>

lemma prefix_of_predecessor:
  assumes "sorted_wrt less xs" "\<forall>e \<in> set xs. valid e" "c \<in> set xs" "has_prefix x c" "c \<noteq> x"
  defines "i \<equiv> length (takeWhile (\<lambda>e. less e x) xs)"
  shows "i > 0" "has_prefix (xs ! (i - 1)) c" "c \<in> set (take i xs)" "less (xs ! (i - 1)) x"
proof -
  obtain us vs where xs: "xs = us @ c # vs" using assms(3) by (meson split_list)
  have c: "less c x" using prefix_less assms(4,5) by metis
  have us: "less u x" if "u \<in> set us" for u
    using that assms(1) c trans unfolding xs by (auto simp: sorted_wrt_append)
  have tw: "takeWhile (\<lambda>e. less e x) xs = us @ c # takeWhile (\<lambda>e. less e x) vs"
    using us c unfolding xs by (simp add: takeWhile_append2)
  then show i: "i > 0" by (simp add: i_def)
  have take: "take i xs = takeWhile (\<lambda>e. less e x) xs" unfolding i_def by (rule takeWhile_eq_take [symmetric])
  then show "c \<in> set (take i xs)" by (simp add: tw)
  have le: "i \<le> length xs" unfolding i_def by (rule length_takeWhile_le)
  have "take i xs \<noteq> []" by (simp add: take tw)
  with le have e: "xs ! (i - 1) = last (takeWhile (\<lambda>e. less e x) xs)"
    unfolding take [symmetric] by (simp add: last_conv_nth min_absorb2)
  then show less: "less (xs ! (i - 1)) x" using tw by (metis last_in_set list.distinct(1) append_is_Nil_conv set_takeWhileD)
  have "xs ! (i - 1) \<in> set (c # takeWhile (\<lambda>e. less e x) vs)"
    unfolding e tw by (metis last_appendR last_in_set list.distinct(1))
  then have "xs ! (i - 1) = c \<or> less c (xs ! (i - 1))"
    using assms(1) unfolding xs by (auto simp: sorted_wrt_append dest: set_takeWhileD)
  then show "has_prefix (xs ! (i - 1)) c"
    using prefix_convex [OF assms(4) _ less] prefix_refl assms(2,3) by auto
qed

end

end
