(* ===== verification/Sdf_PathOrder.thy ===== *)
theory Sdf_PathOrder
  imports Sdf_Path Prefix_Sets
begin

text \<open>
  The order of paths, \<open>SdfPath::operator<\<close> (\<open>path.h\<close>, \<open>path.cpp\<close>) and
  \<open>Sdf_PathNode::Compare\<close> (\<open>pathNode.h\<close>).
  The types of nodes and paths are made instances of \<open>linorder\<close> by a structural
  definition; \<open>operator_less\<close> is the code's algorithm, which walks both node chains up to
  their first difference, and \<open>less_path_eq_operator_less\<close> shows that it computes the
  order of the instance. Since \<open>operator_less\<close> compares target paths with \<open><\<close> again, this
  says that the code's order is a strict linear order.
\<close>

section \<open>Linear orders on nodes and paths\<close>

fun less_prim_node :: "prim_node \<Rightarrow> prim_node \<Rightarrow> bool" where
  "less_prim_node (PrimNode a) (PrimNode b) \<longleftrightarrow> a < b"
| "less_prim_node (PrimNode _) (PrimVariantSelectionNode _ _) \<longleftrightarrow> True"
| "less_prim_node (PrimVariantSelectionNode _ _) (PrimNode _) \<longleftrightarrow> False"
| "less_prim_node (PrimVariantSelectionNode a b) (PrimVariantSelectionNode c d) \<longleftrightarrow>
     a < c \<or> a = c \<and> b < d"

instantiation prim_node :: linorder
begin
definition less_prim_node_inst: "(x :: prim_node) < y \<longleftrightarrow> less_prim_node x y"
definition less_eq_prim_node_inst: "(x :: prim_node) \<le> y \<longleftrightarrow> x = y \<or> less_prim_node x y"
instance
proof
  fix x y z :: prim_node
  show "x < y \<longleftrightarrow> x \<le> y \<and> \<not> y \<le> x"
    unfolding less_prim_node_inst less_eq_prim_node_inst by (cases x; cases y) auto
  show "x \<le> x" by (simp add: less_eq_prim_node_inst)
  show "x \<le> y \<Longrightarrow> y \<le> z \<Longrightarrow> x \<le> z"
    unfolding less_eq_prim_node_inst by (cases x; cases y; cases z) auto
  show "x \<le> y \<Longrightarrow> y \<le> x \<Longrightarrow> x = y"
    unfolding less_eq_prim_node_inst by (cases x; cases y) auto
  show "x \<le> y \<or> y \<le> x"
    unfolding less_eq_prim_node_inst by (cases x; cases y) auto
qed
end

instantiation path_root :: linorder
begin
definition root_rank :: "path_root \<Rightarrow> nat" where
  "root_rank r = (case r of AbsoluteRoot \<Rightarrow> 0 | RelativeRoot \<Rightarrow> 1 | NullRoot \<Rightarrow> 2)"
definition less_path_root_inst: "(x :: path_root) < y \<longleftrightarrow> root_rank x < root_rank y"
definition less_eq_path_root_inst: "(x :: path_root) \<le> y \<longleftrightarrow> root_rank x \<le> root_rank y"
instance
  by standard (auto simp: less_path_root_inst less_eq_path_root_inst root_rank_def
      split: path_root.splits)
end

text \<open>Property nodes and paths are ordered together: a target node holds a path.\<close>

fun less_sdf_path :: "sdf_path \<Rightarrow> sdf_path \<Rightarrow> bool"
  and less_prop_nodes :: "prop_node list \<Rightarrow> prop_node list \<Rightarrow> bool"
  and less_prop_node :: "prop_node \<Rightarrow> prop_node \<Rightarrow> bool" where
  "less_sdf_path (SdfPath r ns ps) (SdfPath r' ns' ps') \<longleftrightarrow>
     (let e = (r = NullRoot \<and> ns = [] \<and> ps = []); e' = (r' = NullRoot \<and> ns' = [] \<and> ps' = []) in
      if e \<or> e' then e \<and> \<not> e'
      else if r \<noteq> r' then r < r'
      else if ns \<noteq> ns' then ns < ns'
      else less_prop_nodes ps ps')"
| "less_prop_nodes [] ps' \<longleftrightarrow> ps' \<noteq> []"
| "less_prop_nodes (x # xs) [] \<longleftrightarrow> False"
| "less_prop_nodes (x # xs) (y # ys) \<longleftrightarrow> (if x = y then less_prop_nodes xs ys else less_prop_node x y)"
| "less_prop_node (TargetNode p) (TargetNode q) \<longleftrightarrow> less_sdf_path p q"
| "less_prop_node (MapperNode p) (MapperNode q) \<longleftrightarrow> less_sdf_path p q"
| "less_prop_node (PrimPropertyNode a) (PrimPropertyNode b) \<longleftrightarrow> a < b"
| "less_prop_node (RelationalAttributeNode a) (RelationalAttributeNode b) \<longleftrightarrow> a < b"
| "less_prop_node (MapperArgNode a) (MapperArgNode b) \<longleftrightarrow> a < b"
| "less_prop_node x y \<longleftrightarrow>
     node_type_index (prop_node_type x) < node_type_index (prop_node_type y)"

text \<open>The order lexicographically: root, prim nodes, property nodes; the empty path first.\<close>

lemma less_sdf_path_lex:
  "less_sdf_path p q \<longleftrightarrow>
     (if p = EmptyPath \<or> q = EmptyPath then p = EmptyPath \<and> q \<noteq> EmptyPath
      else path_root p < path_root q \<or> path_root p = path_root q \<and>
        (prim_part p < prim_part q \<or> prim_part p = prim_part q \<and>
         less_prop_nodes (prop_part p) (prop_part q)))"
  by (cases p; cases q) (simp add: EmptyPath_def Let_def; blast)

lemma less_prop_nodes_irrefl: "\<not> less_prop_nodes ps ps"
  by (induction ps) auto

lemma less_sdf_path_irrefl: "\<not> less_sdf_path p p"
  by (cases p) (auto simp: less_prop_nodes_irrefl)

lemma less_prop_node_irrefl: "\<not> less_prop_node n n"
  by (cases n) (auto simp: less_sdf_path_irrefl)

text \<open>Nodes of different types compare by their types, nodes of one type by their values.\<close>

lemma less_prop_node_type:
  "prop_node_type x \<noteq> prop_node_type y \<Longrightarrow> less_prop_node x y \<longleftrightarrow>
     node_type_index (prop_node_type x) < node_type_index (prop_node_type y)"
  by (cases x; cases y) auto

lemma node_type_index_inject: "node_type_index s = node_type_index t \<longleftrightarrow> s = t"
  by (cases s; cases t; simp)

lemma less_prop_nodes_trans:
  assumes "\<And>x y z. x \<in> set xs \<Longrightarrow> less_prop_node x y \<Longrightarrow> less_prop_node y z \<Longrightarrow> less_prop_node x z"
  shows "less_prop_nodes xs ys \<Longrightarrow> less_prop_nodes ys zs \<Longrightarrow> less_prop_nodes xs zs"
  using assms
proof (induction xs arbitrary: ys zs)
  case Nil
  from Nil.prems(1,2) show ?case by (cases ys; cases zs) auto
next
  case (Cons x xs)
  from Cons.prems(1) obtain y ys' where ys: "ys = y # ys'" by (cases ys) auto
  with Cons.prems(2) obtain z zs' where zs: "zs = z # zs'" by (cases zs) auto
  have tr: "less_prop_node x y \<Longrightarrow> less_prop_node y z \<Longrightarrow> less_prop_node x z"
    using Cons.prems(3) [of x] by auto
  show ?case
  proof -
    have "less_prop_nodes xs ys' \<Longrightarrow> less_prop_nodes ys' zs' \<Longrightarrow> less_prop_nodes xs zs'"
      by (rule Cons.IH) (use Cons.prems(3) in auto)
    with Cons.prems(1,2) tr less_prop_node_irrefl [of x] show ?thesis
      unfolding ys zs less_prop_nodes.simps by metis
  qed
qed

lemma less_trans:
  "less_sdf_path p q \<Longrightarrow> less_sdf_path q s \<Longrightarrow> less_sdf_path p s"
  "less_prop_node x y \<Longrightarrow> less_prop_node y z \<Longrightarrow> less_prop_node x z"
proof (induction p and x arbitrary: q s and y z)
  case (SdfPath r ns ps)
  have tr: "less_prop_nodes ps ys \<Longrightarrow> less_prop_nodes ys zs \<Longrightarrow> less_prop_nodes ps zs" for ys zs
    by (rule less_prop_nodes_trans [OF SdfPath.IH])
  from SdfPath.prems show ?case
    unfolding less_sdf_path_lex sdf_path.sel
    by (metis (no_types, lifting) tr order.strict_trans)
next
  case (TargetNode p)
  from TargetNode.prems show ?case by (cases y; cases z) (auto dest: TargetNode.IH)
next
  case (MapperNode p)
  from MapperNode.prems show ?case by (cases y; cases z) (auto dest: MapperNode.IH)
next
  case (PrimPropertyNode n)
  then show ?case by (cases y; cases z) auto
next
  case (RelationalAttributeNode n)
  then show ?case by (cases y; cases z) auto
next
  case (MapperArgNode n)
  then show ?case by (cases y; cases z) auto
next
  case ExpressionNode
  then show ?case by (cases y; cases z) auto
qed

lemma less_prop_nodes_total:
  assumes "\<And>x y. x \<in> set xs \<Longrightarrow> x \<noteq> y \<Longrightarrow> less_prop_node x y \<or> less_prop_node y x"
  shows "xs \<noteq> ys \<Longrightarrow> less_prop_nodes xs ys \<or> less_prop_nodes ys xs"
  using assms
proof (induction xs arbitrary: ys)
  case (Cons x xs)
  note Cons_IH = Cons.IH and ne = Cons.prems(1) and Cons_elems = Cons.prems(2)
  show ?case
  proof (cases ys)
    case (Cons y ys')
    have "xs \<noteq> ys' \<Longrightarrow> less_prop_nodes xs ys' \<or> less_prop_nodes ys' xs"
      by (rule Cons_IH) (use Cons_elems in auto)
    moreover have "x \<noteq> y \<Longrightarrow> less_prop_node x y \<or> less_prop_node y x"
      by (rule Cons_elems) auto
    ultimately show ?thesis using ne unfolding Cons less_prop_nodes.simps by metis
  qed simp
qed (auto simp: neq_Nil_conv)

lemma less_total:
  "p \<noteq> q \<Longrightarrow> less_sdf_path p q \<or> less_sdf_path q p"
  "x \<noteq> y \<Longrightarrow> less_prop_node x y \<or> less_prop_node y x"
proof (induction p and x arbitrary: q and y)
  case (SdfPath r ns ps)
  have tot: "ps \<noteq> ys \<Longrightarrow> less_prop_nodes ps ys \<or> less_prop_nodes ys ps" for ys
    by (rule less_prop_nodes_total [OF SdfPath.IH])
  from SdfPath.prems tot [of "prop_part q"] show ?case
    unfolding less_sdf_path_lex sdf_path.sel
    by (metis linorder_neqE sdf_path.collapse)
next
  case (TargetNode p)
  from TargetNode.prems show ?case by (cases y) (auto dest: TargetNode.IH)
next
  case (MapperNode p)
  from MapperNode.prems show ?case by (cases y) (auto dest: MapperNode.IH)
next
  case (PrimPropertyNode n)
  then show ?case by (cases y) auto
next
  case (RelationalAttributeNode n)
  then show ?case by (cases y) auto
next
  case (MapperArgNode n)
  then show ?case by (cases y) auto
next
  case ExpressionNode
  then show ?case by (cases y) auto
qed

instantiation sdf_path :: linorder
begin
definition less_sdf_path_inst: "(x :: sdf_path) < y \<longleftrightarrow> less_sdf_path x y"
definition less_eq_sdf_path_inst: "(x :: sdf_path) \<le> y \<longleftrightarrow> x = y \<or> less_sdf_path x y"
instance
proof
  fix x y z :: sdf_path
  show "x < y \<longleftrightarrow> x \<le> y \<and> \<not> y \<le> x"
    unfolding less_sdf_path_inst less_eq_sdf_path_inst
    using less_sdf_path_irrefl less_trans(1) by blast
  show "x \<le> x" by (simp add: less_eq_sdf_path_inst)
  show "x \<le> y \<Longrightarrow> y \<le> z \<Longrightarrow> x \<le> z"
    unfolding less_eq_sdf_path_inst using less_trans(1) by blast
  show "x \<le> y \<Longrightarrow> y \<le> x \<Longrightarrow> x = y"
    unfolding less_eq_sdf_path_inst using less_sdf_path_irrefl less_trans(1) by blast
  show "x \<le> y \<or> y \<le> x"
    unfolding less_eq_sdf_path_inst using less_total(1) by blast
qed
end

section \<open>The code's comparison\<close>

text \<open>\<open>Sdf_PathNode::Compare<LessThan>\<close>: node types first, then the values.\<close>

definition prim_node_Compare :: "prim_node \<Rightarrow> prim_node \<Rightarrow> bool" where
  "prim_node_Compare l r =
     (if prim_node_type l \<noteq> prim_node_type r
      then node_type_index (prim_node_type l) < node_type_index (prim_node_type r)
      else case (l, r) of
        (PrimNode a, PrimNode b) \<Rightarrow> a < b
      | (PrimVariantSelectionNode a b, PrimVariantSelectionNode c d) \<Rightarrow> a < c \<or> a = c \<and> b < d
      | _ \<Rightarrow> False)"

definition prop_node_Compare :: "prop_node \<Rightarrow> prop_node \<Rightarrow> bool" where
  "prop_node_Compare l r =
     (if prop_node_type l \<noteq> prop_node_type r
      then node_type_index (prop_node_type l) < node_type_index (prop_node_type r)
      else case (l, r) of
        (PrimPropertyNode a, PrimPropertyNode b) \<Rightarrow> a < b
      | (TargetNode a, TargetNode b) \<Rightarrow> a < b
      | (MapperNode a, MapperNode b) \<Rightarrow> a < b
      | (RelationalAttributeNode a, RelationalAttributeNode b) \<Rightarrow> a < b
      | (MapperArgNode a, MapperArgNode b) \<Rightarrow> a < b
      | _ \<Rightarrow> False)"

text \<open>The last loop of \<open>_LessThanCompareNodes\<close>: walk up until the parents are equal.\<close>

function compare_at_divergence :: "('n \<Rightarrow> 'n \<Rightarrow> bool) \<Rightarrow> 'n list \<Rightarrow> 'n list \<Rightarrow> bool" where
  "compare_at_divergence cmp l r =
     (let lp = butlast l; rp = butlast r in
      if lp \<noteq> rp then compare_at_divergence cmp lp rp else cmp (last l) (last r))"
  by pat_completeness auto
termination
proof (relation "measure (\<lambda>(cmp, l, r). length l + length r)")
  fix cmp :: "'n \<Rightarrow> 'n \<Rightarrow> bool" and l r lp rp :: "'n list"
  assume "lp = butlast l" "rp = butlast r" "lp \<noteq> rp"
  then have "0 < length l \<or> 0 < length r" by auto
  then have "length (butlast l) + length (butlast r) < length l + length r"
    by (cases l; cases r) auto
  with \<open>lp = _\<close> \<open>rp = _\<close> show "((cmp, lp, rp), cmp, l, r) \<in> measure (\<lambda>(cmp, l, r). length l + length r)"
    by simp
qed auto

declare compare_at_divergence.simps [simp del]

definition LessThanCompareNodes :: "('n \<Rightarrow> 'n \<Rightarrow> bool) \<Rightarrow> 'n list \<Rightarrow> 'n list \<Rightarrow> bool" where
  "LessThanCompareNodes cmp l r =
     (let lCount = length l; rCount = length r in
      if lCount = 0 \<or> rCount = 0 then lCount = 0 \<and> rCount \<noteq> 0
      else let l' = walk_up (lCount - rCount) l; r' = walk_up (rCount - lCount) r in
        if l' = r' then lCount < rCount else compare_at_divergence cmp l' r')"

definition LessThanInternal :: "sdf_path \<Rightarrow> sdf_path \<Rightarrow> bool" where
  "LessThanInternal lhs rhs =
     (let lIsAbs = (path_root lhs = AbsoluteRoot); rIsAbs = (path_root rhs = AbsoluteRoot) in
      if lIsAbs \<noteq> rIsAbs then lIsAbs
      else if prim_handle lhs \<noteq> prim_handle rhs then
        LessThanCompareNodes prim_node_Compare (prim_part lhs) (prim_part rhs)
      else if prop_part lhs = [] \<or> prop_part rhs = [] then prop_part lhs = []
      else LessThanCompareNodes prop_node_Compare (prop_part lhs) (prop_part rhs))"

definition operator_less :: "sdf_path \<Rightarrow> sdf_path \<Rightarrow> bool" where
  "operator_less lhs rhs =
     (if lhs = rhs then False
      else if IsEmpty lhs \<or> IsEmpty rhs then IsEmpty lhs \<and> \<not> IsEmpty rhs
      else LessThanInternal lhs rhs)"

subsection \<open>It is the lexicographic order\<close>

fun lex_less :: "('n \<Rightarrow> 'n \<Rightarrow> bool) \<Rightarrow> 'n list \<Rightarrow> 'n list \<Rightarrow> bool" where
  "lex_less cmp [] ys \<longleftrightarrow> ys \<noteq> []"
| "lex_less cmp (x # xs) [] \<longleftrightarrow> False"
| "lex_less cmp (x # xs) (y # ys) \<longleftrightarrow> (if x = y then lex_less cmp xs ys else cmp x y)"

lemma lex_less_append_same: "lex_less cmp (xs @ us) (xs @ vs) = lex_less cmp us vs"
  by (induction xs) auto

lemma lex_less_diverged:
  "length xs = length ys \<Longrightarrow> xs \<noteq> ys \<Longrightarrow> lex_less cmp (xs @ us) (ys @ vs) = lex_less cmp xs ys"
  by (induction xs ys rule: list_induct2) auto

lemma compare_at_divergence_lex:
  "length l = length r \<Longrightarrow> l \<noteq> r \<Longrightarrow> compare_at_divergence cmp l r = lex_less cmp l r"
proof (induction l arbitrary: r rule: rev_induct)
  case (snoc a lp)
  then obtain rp b where r: "r = rp @ [b]" by (cases r rule: rev_cases) auto
  have step: "compare_at_divergence cmp (lp @ [a]) (rp @ [b]) =
    (if lp \<noteq> rp then compare_at_divergence cmp lp rp else cmp a b)"
    by (subst compare_at_divergence.simps) simp
  show ?case
  proof (cases "lp = rp")
    case True
    with snoc.prems r show ?thesis
      unfolding r step by (simp add: lex_less_append_same)
  next
    case False
    with snoc r show ?thesis unfolding r step by (simp add: lex_less_diverged)
  qed
qed simp

lemma LessThanCompareNodes_lex:
  assumes "l \<noteq> r"
  shows "LessThanCompareNodes cmp l r = lex_less cmp l r"
proof (cases "l = [] \<or> r = []")
  case True
  with assms show ?thesis
    by (cases l; cases r) (auto simp: LessThanCompareNodes_def)
next
  case False
  define m where "m = min (length l) (length r)"
  have lin: "length l \<le> length r \<or> length r \<le> length l" by (rule nat_le_linear)
  have walk: "walk_up (length l - length r) l = take m l" "walk_up (length r - length l) r = take m r"
    using lin by (auto simp: walk_up_take m_def min_def)
  have len: "length (take m l) = length (take m r)" by (simp add: m_def)
  have split: "lex_less cmp l r = lex_less cmp (take m l @ drop m l) (take m r @ drop m r)"
    by simp
  show ?thesis
  proof (cases "take m l = take m r")
    case True
    have "lex_less cmp l r = lex_less cmp (drop m l) (drop m r)"
      by (subst split, subst True) (rule lex_less_append_same)
    moreover have "drop m l = [] \<or> drop m r = []" using lin by (simp add: m_def)
    moreover have "drop m l \<noteq> [] \<or> drop m r \<noteq> []"
      using assms True by (metis append_take_drop_id)
    ultimately have "lex_less cmp l r \<longleftrightarrow> drop m r \<noteq> []"
      by (cases "drop m l"; cases "drop m r") auto
    moreover have "drop m r \<noteq> [] \<longleftrightarrow> length l < length r"
      by (cases "length l \<le> length r") (simp_all add: m_def order_less_le eq_commute)
    ultimately show ?thesis using False True
      by (simp add: LessThanCompareNodes_def Let_def walk)
  next
    case ne: False
    have "lex_less cmp l r = lex_less cmp (take m l) (take m r)"
      by (subst split) (rule lex_less_diverged [OF len ne])
    with False ne compare_at_divergence_lex [OF len ne] show ?thesis
      by (simp add: LessThanCompareNodes_def Let_def walk)
  qed
qed

lemma prim_node_Compare_less: "prim_node_Compare x y \<longleftrightarrow> x < y"
  by (cases x; cases y) (auto simp: prim_node_Compare_def less_prim_node_inst)

lemma prop_node_Compare_less: "prop_node_Compare x y \<longleftrightarrow> less_prop_node x y"
proof (cases "prop_node_type x = prop_node_type y")
  case False
  then show ?thesis by (simp add: prop_node_Compare_def less_prop_node_type)
next
  case True
  then show ?thesis
    by (cases x; cases y) (simp_all add: prop_node_Compare_def less_sdf_path_inst)
qed

lemma lex_less_prims: "lex_less prim_node_Compare xs ys \<longleftrightarrow> xs < ys"
proof (induction xs arbitrary: ys)
  case Nil
  then show ?case by (cases ys) auto
next
  case (Cons x xs)
  then show ?case by (cases ys) (auto simp: prim_node_Compare_less)
qed

lemma lex_less_props: "lex_less prop_node_Compare xs ys \<longleftrightarrow> less_prop_nodes xs ys"
proof (induction xs arbitrary: ys)
  case (Cons x xs)
  then show ?case by (cases ys) (auto simp: prop_node_Compare_less)
qed simp

text \<open>Paths whose prim part hangs from a root node, as every path built by the API does
  but for the failures described in \<open>Sdf_PathEdit\<close>.\<close>

definition rooted :: "sdf_path \<Rightarrow> bool" where
  "rooted p \<longleftrightarrow> path_root p \<noteq> NullRoot \<or> p = EmptyPath"

text \<open>C3: The comparison the code runs is the linear order of the instance, for rooted paths.\<close>

theorem less_path_eq_operator_less:
  assumes "rooted p" "rooted q"
  shows "operator_less p q \<longleftrightarrow> p < q"
proof (cases "p = EmptyPath \<or> q = EmptyPath")
  case True
  have "IsEmpty a \<longleftrightarrow> a = EmptyPath" if "rooted a" for a
    using that by (cases a) (auto simp: rooted_def path_queries)
  with True assms show ?thesis
    by (auto simp: operator_less_def less_sdf_path_inst less_sdf_path_lex)
next
  case False
  with assms have "path_root p \<noteq> NullRoot" "path_root q \<noteq> NullRoot" by (auto simp: rooted_def)
  moreover from this have "\<not> IsEmpty p" "\<not> IsEmpty q" by (auto simp: path_queries)
  moreover have "p = q \<longleftrightarrow> path_root p = path_root q \<and> prim_part p = prim_part q
    \<and> prop_part p = prop_part q" by (cases p; cases q) simp
  ultimately show ?thesis using False
    by (cases "path_root p"; cases "path_root q"; cases "prop_part p"; cases "prop_part q")
      (simp_all add: operator_less_def LessThanInternal_def less_sdf_path_inst less_sdf_path_lex
        less_path_root_inst root_rank_def Let_def prim_handle_def LessThanCompareNodes_lex
        lex_less_prims lex_less_props less_prop_nodes_irrefl prop_node_Compare_less)
qed

theorem less_path_eq_operator_less_witness:
  "operator_less (SdfPath AbsoluteRoot [PrimNode ''A''] [PrimPropertyNode ''p''])
     (SdfPath AbsoluteRoot [PrimNode ''A'', PrimNode ''B''] []) \<longleftrightarrow>
   SdfPath AbsoluteRoot [PrimNode ''A''] [PrimPropertyNode ''p'']
     < SdfPath AbsoluteRoot [PrimNode ''A'', PrimNode ''B''] []"
  by (rule less_path_eq_operator_less) (simp_all add: rooted_def)

section \<open>Paths as prefix-ordered keys\<close>

lemma props_prefix_less: "prefix ps xs \<Longrightarrow> xs \<noteq> ps \<Longrightarrow> less_prop_nodes ps xs"
proof (induction ps arbitrary: xs)
  case (Cons p ps)
  then show ?case by (cases xs) auto
qed simp

lemma props_prefix_convex:
  "prefix ps xs \<Longrightarrow> less_prop_nodes ps ys \<Longrightarrow> less_prop_nodes ys xs \<Longrightarrow> prefix ps ys"
proof (induction ps arbitrary: xs ys)
  case (Cons p ps)
  from Cons.prems(1) obtain xs' where xs: "xs = p # xs'" "prefix ps xs'" by (cases xs) auto
  from Cons.prems(2) obtain y ys' where ys: "ys = y # ys'" by (cases ys) auto
  have "y = p"
    using Cons.prems(2,3) xs ys less_prop_node_irrefl [of p] less_trans(2) [of p y p]
    by (auto split: if_splits)
  with Cons.prems(2,3) Cons.IH [OF xs(2)] xs ys show ?case by simp
qed simp

lemma less_path_lex: "\<not> IsEmpty p \<Longrightarrow> \<not> IsEmpty q \<Longrightarrow> p < q \<longleftrightarrow>
    path_root p < path_root q \<or> path_root p = path_root q \<and>
    (prim_part p < prim_part q \<or> prim_part p = prim_part q \<and>
     less_prop_nodes (prop_part p) (prop_part q))"
  by (auto simp: less_sdf_path_inst less_sdf_path_lex path_queries)

lemma less_path_nonempty: "p < q \<Longrightarrow> \<not> IsEmpty p \<Longrightarrow> q < x \<Longrightarrow> \<not> IsEmpty x \<Longrightarrow>
    path_root p = path_root x \<Longrightarrow> path_root q = path_root p \<and> \<not> IsEmpty q"
  by (cases p; cases q; cases x)
    (auto simp: less_sdf_path_inst less_sdf_path_lex path_queries split: if_splits)

lemma path_eq_iff: "p = q \<longleftrightarrow> path_root p = path_root q \<and> prim_part p = prim_part q \<and>
    prop_part p = prop_part q"
  by (cases p; cases q) simp

interpretation paths: prefix_ordered "(<) :: sdf_path \<Rightarrow> sdf_path \<Rightarrow> bool" "\<lambda>p. \<not> IsEmpty p" HasPrefix
proof
  fix x y z p q :: sdf_path
  show "\<not> x < x" by simp
  show "x < y \<Longrightarrow> y < z \<Longrightarrow> x < z" by simp
  show "x \<noteq> y \<Longrightarrow> x < y \<or> y < x" by auto
  show "\<not> IsEmpty x \<Longrightarrow> HasPrefix x x" by (simp add: HasPrefix_iff)
  show "HasPrefix x p \<Longrightarrow> \<not> IsEmpty x \<and> \<not> IsEmpty p" by (simp add: HasPrefix_iff)
  show "HasPrefix x p \<Longrightarrow> HasPrefix p q \<Longrightarrow> HasPrefix x q"
    by (auto simp: HasPrefix_iff split: if_splits intro: prefix_order.trans)
  show "HasPrefix x p \<Longrightarrow> HasPrefix x q \<Longrightarrow> HasPrefix p q \<or> HasPrefix q p"
    by (auto simp: HasPrefix_iff split: if_splits dest: prefix_same_cases)
  show "HasPrefix x p \<Longrightarrow> x \<noteq> p \<Longrightarrow> p < x"
    by (auto simp: HasPrefix_iff less_path_lex path_eq_iff split: if_splits
        intro: list_prefix_less props_prefix_less)
  show "HasPrefix x p \<Longrightarrow> p < y \<Longrightarrow> y < x \<Longrightarrow> HasPrefix y p"
  proof -
    assume h: "HasPrefix x p" and py: "p < y" and yx: "y < x"
    then have v: "\<not> IsEmpty x" "\<not> IsEmpty p" "path_root x = path_root p"
      by (auto simp: HasPrefix_iff)
    with less_path_nonempty [OF py _ yx] have y: "path_root y = path_root p" "\<not> IsEmpty y"
      by auto
    from py yx v y show "HasPrefix y p"
      using h list_prefix_convex [of "prim_part p" "prim_part x" "prim_part y"]
        props_prefix_convex [of "prop_part p" "prop_part x" "prop_part y"]
      by (auto simp: HasPrefix_iff less_path_lex split: if_splits)
  qed
qed

text \<open>Prefixes are exactly what repeated \<open>GetParentPath\<close> reaches on absolute paths.\<close>

lemma GetParentPath_absolute:
  "path_root p = AbsoluteRoot \<Longrightarrow> GetParentPath p =
     (if prop_part p \<noteq> [] then SdfPath AbsoluteRoot (prim_part p) (butlast (prop_part p))
      else if prim_part p \<noteq> [] then SdfPath AbsoluteRoot (butlast (prim_part p)) []
      else EmptyPath)"
  by (auto simp: GetParentPath_def path_queries path_of_handle_def)

end
