(* ===== verification/Sdf_PathEdit.thy ===== *)
theory Sdf_PathEdit
  imports Sdf_PathIdentifier Sdf_PathOrder
begin

text \<open>
  Building and rewriting paths (\<open>pxr/usd/sdf/path.cpp\<close>, \<open>pathNode.cpp\<close>): appending elements
  and paths, and replacing names and prefixes.

  Nodes are interned: \<open>_FindOrCreate\<close> looks a node up by its parent and value and asks whether
  it is valid only if it is not in the table. What the tables contain when an operation runs is
  part of the environment; it depends on all paths of the process, and other threads change
  it. The per-thread caches hold nodes of the tables. A node of the property forest that starts
  a property part is looked up without a parent, by its name alone.
  A failed append is the empty path, as in the code; diagnostics are not modelled.
\<close>

record path_env =
  classes :: char_classes
  has_prim :: "prim_handle \<Rightarrow> prim_node \<Rightarrow> bool"
  has_prop :: "prop_node list \<Rightarrow> prop_node \<Rightarrow> bool"

section \<open>Appending elements\<close>

text \<open>\<open>_FindOrCreate\<close>: the node if it is in the table or valid.\<close>

definition FindOrCreate :: "bool \<Rightarrow> bool \<Rightarrow> 'n list \<Rightarrow> 'n \<Rightarrow> 'n list option" where
  "FindOrCreate present isValid parent node = (if present \<or> isValid then Some (parent @ [node]) else None)"

definition AppendChild :: "path_env \<Rightarrow> sdf_path \<Rightarrow> token \<Rightarrow> sdf_path" where
  "AppendChild env p childName =
     (if prop_part p \<noteq> [] then EmptyPath
      else
        let isValid =
              (if \<not> IsAbsoluteRootOrPrimPath p \<and> \<not> IsPrimVariantSelectionPath p
                 \<and> p \<noteq> ReflexiveRelativePath then False
               else if childName = parentPathElement then False
               else IsValidIdentifier (classes env) childName)
        in case FindOrCreate (has_prim env (prim_handle p) (PrimNode childName)) isValid
              (prim_part p) (PrimNode childName) of
             None \<Rightarrow> if childName = parentPathElement then GetParentPath p else EmptyPath
           | Some ns \<Rightarrow> SdfPath (path_root p) ns [])"

definition AppendProperty :: "path_env \<Rightarrow> sdf_path \<Rightarrow> token \<Rightarrow> sdf_path" where
  "AppendProperty env p propName =
     (if prop_part p \<noteq> [] then EmptyPath
      else
        let isValid =
              (if \<not> IsValidNamespacedIdentifier (classes env) propName then False
               else if \<not> IsPrimVariantSelectionPath p \<and> \<not> IsPrimPath p
                 \<and> p \<noteq> ReflexiveRelativePath then False
               else True)
        in case FindOrCreate (has_prop env [] (PrimPropertyNode propName)) isValid
              [] (PrimPropertyNode propName) of
             None \<Rightarrow> EmptyPath
           | Some ps \<Rightarrow> SdfPath (path_root p) (prim_part p) ps)"

definition AppendVariantSelection :: "path_env \<Rightarrow> sdf_path \<Rightarrow> token \<Rightarrow> token \<Rightarrow> sdf_path" where
  "AppendVariantSelection env p variantSet variant =
     (let node = PrimVariantSelectionNode variantSet variant in
      case FindOrCreate (has_prim env (prim_handle p) node)
          (IsPrimOrPrimVariantSelectionPath p) (prim_part p) node of
        None \<Rightarrow> EmptyPath
      | Some ns \<Rightarrow> SdfPath (path_root p) ns [])"

text \<open>The operations that extend the property part differ in the node and its validity.\<close>

definition append_prop_node :: "path_env \<Rightarrow> sdf_path \<Rightarrow> bool \<Rightarrow> prop_node \<Rightarrow> sdf_path" where
  "append_prop_node env p isValid node =
     (case FindOrCreate (has_prop env (prop_part p) node) isValid (prop_part p) node of
        None \<Rightarrow> EmptyPath
      | Some ps \<Rightarrow> SdfPath (path_root p) (prim_part p) ps)"

definition AppendTarget :: "path_env \<Rightarrow> sdf_path \<Rightarrow> sdf_path \<Rightarrow> sdf_path" where
  "AppendTarget env p targetPath =
     append_prop_node env p
       (if \<not> IsPropertyPath p then False else targetPath \<noteq> EmptyPath) (TargetNode targetPath)"

definition AppendRelationalAttribute :: "path_env \<Rightarrow> sdf_path \<Rightarrow> token \<Rightarrow> sdf_path" where
  "AppendRelationalAttribute env p attrName =
     append_prop_node env p
       (if \<not> IsValidNamespacedIdentifier (classes env) attrName then False else IsTargetPath p)
       (RelationalAttributeNode attrName)"

definition AppendMapper :: "path_env \<Rightarrow> sdf_path \<Rightarrow> sdf_path \<Rightarrow> sdf_path" where
  "AppendMapper env p targetPath =
     append_prop_node env p
       (if \<not> IsPropertyPath p then False else targetPath \<noteq> EmptyPath) (MapperNode targetPath)"

definition AppendMapperArg :: "path_env \<Rightarrow> sdf_path \<Rightarrow> token \<Rightarrow> sdf_path" where
  "AppendMapperArg env p argName =
     append_prop_node env p
       (if \<not> IsValidIdentifier (classes env) argName then False else IsMapperPath p)
       (MapperArgNode argName)"

definition AppendExpression :: "path_env \<Rightarrow> sdf_path \<Rightarrow> sdf_path" where
  "AppendExpression env p = append_prop_node env p (IsPropertyPath p) ExpressionNode"

definition ReplaceName :: "path_env \<Rightarrow> sdf_path \<Rightarrow> token \<Rightarrow> sdf_path" where
  "ReplaceName env p newName =
     (if IsPrimPath p then AppendChild env (GetParentPath p) newName
      else if IsPrimPropertyPath p then AppendProperty env (GetParentPath p) newName
      else if IsRelationalAttributePath p
      then AppendRelationalAttribute env (GetParentPath p) newName
      else EmptyPath)"

text \<open>\<open>_AppendNode\<close>, for the nodes of the two forests.\<close>

fun AppendPrimNode :: "path_env \<Rightarrow> sdf_path \<Rightarrow> prim_node \<Rightarrow> sdf_path" where
  "AppendPrimNode env path (PrimNode name) = AppendChild env path name"
| "AppendPrimNode env path (PrimVariantSelectionNode vset vsel) = AppendVariantSelection env path vset vsel"

fun AppendPropNode :: "path_env \<Rightarrow> sdf_path \<Rightarrow> prop_node \<Rightarrow> sdf_path" where
  "AppendPropNode env path (PrimPropertyNode name) = AppendProperty env path name"
| "AppendPropNode env path (TargetNode target) = AppendTarget env path target"
| "AppendPropNode env path (RelationalAttributeNode name) = AppendRelationalAttribute env path name"
| "AppendPropNode env path (MapperNode target) = AppendMapper env path target"
| "AppendPropNode env path (MapperArgNode name) = AppendMapperArg env path name"
| "AppendPropNode env path ExpressionNode = AppendExpression env path"

text \<open>The nodes without their variant selections, from the root down, appended to the root.\<close>

definition StripAllVariantSelections :: "path_env \<Rightarrow> sdf_path \<Rightarrow> sdf_path" where
  "StripAllVariantSelections env p =
     (if \<not> ContainsPrimVariantSelection p then p
      else
        let primNodes = filter (\<lambda>n. \<not> is_variant_selection n) (prim_part p);
            stripPath = foldl (AppendPrimNode env) (SdfPath (path_root p) [] []) primNodes
        in SdfPath (path_root stripPath) (prim_part stripPath) (prop_part p))"

section \<open>Appending a path\<close>

datatype path_node = PrimN prim_node | PropN prop_node

fun AppendNode :: "path_env \<Rightarrow> sdf_path \<Rightarrow> path_node \<Rightarrow> sdf_path" where
  "AppendNode env path (PrimN n) = AppendPrimNode env path n"
| "AppendNode env path (PropN n) = AppendPropNode env path n"

fun append_nodes :: "path_env \<Rightarrow> sdf_path \<Rightarrow> path_node list \<Rightarrow> sdf_path" where
  "append_nodes env result [] = result"
| "append_nodes env result (n # ns) =
     (if result = EmptyPath then result else append_nodes env (AppendNode env result n) ns)"

definition AppendPath :: "path_env \<Rightarrow> sdf_path \<Rightarrow> sdf_path \<Rightarrow> sdf_path" where
  "AppendPath env p newSuffix =
     (if p = EmptyPath then EmptyPath
      else if newSuffix = EmptyPath then EmptyPath
      else if IsAbsolutePath newSuffix then EmptyPath
      else if newSuffix = ReflexiveRelativePath then p
      else if prop_part p \<noteq> [] \<or>
          prim_handle_type (prim_part p) \<notin> {RootNodeT, PrimNodeT, PrimVariantSelectionNodeT}
      then EmptyPath
      else
        let tailNodes = map PrimN (prim_part newSuffix) @ map PropN (prop_part newSuffix) in
        if (case hd tailNodes of PropN n \<Rightarrow> prop_node_type n = PrimPropertyNodeT | PrimN _ \<Rightarrow> False)
            \<and> p = AbsoluteRootPath
        then EmptyPath
        else append_nodes env p tailNodes)"

section \<open>Replacing prefixes\<close>

text \<open>The loop over the prim nodes below the old prefix. Prim nodes are created below whatever
  the prim part of the new path is, without a check; other nodes are appended.\<close>

definition replace_prim_step :: "path_env \<Rightarrow> sdf_path \<Rightarrow> prim_node \<Rightarrow> sdf_path" where
  "replace_prim_step env newPath n =
     (case n of
        PrimNode name \<Rightarrow> SdfPath (path_root newPath) (prim_part newPath @ [PrimNode name]) (prop_part newPath)
      | PrimVariantSelectionNode _ _ \<Rightarrow> AppendPrimNode env newPath n)"

definition ReplacePrimPrefix :: "path_env \<Rightarrow> sdf_path \<Rightarrow> sdf_path \<Rightarrow> sdf_path \<Rightarrow> sdf_path" where
  "ReplacePrimPrefix env p oldPrefix newPrefix =
     (let prefixDepth = length (prim_part oldPrefix);
          curDepth = length (prim_part p)
      in if curDepth < prefixDepth then p
         else if (path_root p, walk_up (curDepth - prefixDepth) (prim_part p)) \<noteq> prim_handle oldPrefix
         then p
         else
           let newPath = foldl (replace_prim_step env) newPrefix (drop prefixDepth (prim_part p))
           in SdfPath (path_root newPath) (prim_part newPath) (prop_part p))"

text \<open>The walk of \<open>_ReplaceTargetPathPrefixes\<close> up to the first ancestor without targets: that
  ancestor and the nodes below it.\<close>

function split_at_targets :: "prop_node list \<Rightarrow> prop_node list \<Rightarrow> prop_node list \<times> prop_node list" where
  "split_at_targets ps tail =
     (if ps \<noteq> [] \<and> nodes_ContainsTargetPath ps then split_at_targets (butlast ps) (last ps # tail)
      else (ps, tail))"
  by pat_completeness auto
termination
  by (relation "measure (\<lambda>(ps, tail). length ps)")
    (auto simp: length_greater_0_conv [symmetric] simp del: length_greater_0_conv)

declare split_at_targets.simps [simp del]

text \<open>The switch over a node and its target with the prefix replaced.\<close>

definition replace_prop_step :: "path_env \<Rightarrow> bool \<Rightarrow> sdf_path \<Rightarrow> prop_node \<times> sdf_path \<Rightarrow> sdf_path" where
  "replace_prop_step env fixTargetPaths newPath = (\<lambda>(n, target).
     case n of
       PrimPropertyNode name \<Rightarrow> SdfPath (path_root newPath) (prim_part newPath) [PrimPropertyNode name]
     | TargetNode _ \<Rightarrow>
         if fixTargetPaths then AppendTarget env newPath target else AppendPropNode env newPath n
     | MapperNode _ \<Rightarrow>
         if fixTargetPaths then AppendMapper env newPath target else AppendPropNode env newPath n
     | _ \<Rightarrow> AppendPropNode env newPath n)"

text \<open>The property nodes of the path come with a list of the replaced targets.\<close>

definition ReplaceTargetPathPrefixes :: "path_env \<Rightarrow> sdf_path list \<Rightarrow> sdf_path \<Rightarrow> sdf_path" where
  "ReplaceTargetPathPrefixes env targets p =
     (if \<not> nodes_ContainsTargetPath (prop_part p) then p
      else
        let (rest, tail) = split_at_targets (prop_part p) [] in
        foldl (replace_prop_step env True) (SdfPath (path_root p) (prim_part p) rest)
          (zip tail (drop (length rest) targets)))"

definition ReplacePropPrefix ::
    "path_env \<Rightarrow> sdf_path list \<Rightarrow> sdf_path \<Rightarrow> sdf_path \<Rightarrow> sdf_path \<Rightarrow> bool \<Rightarrow> sdf_path" where
  "ReplacePropPrefix env targets p oldPrefix newPrefix fixTargetPaths =
     (let prefixDepth = length (prop_part oldPrefix);
          curDepth = length (prop_part p)
      in if curDepth < prefixDepth
         then (if fixTargetPaths \<and> nodes_ContainsTargetPath (prop_part p)
               then ReplaceTargetPathPrefixes env targets p else p)
         else if walk_up (curDepth - prefixDepth) (prop_part p) \<noteq> prop_part oldPrefix
         then (if fixTargetPaths \<and> ContainsTargetPath p
               then ReplaceTargetPathPrefixes env targets p else p)
         else foldl (replace_prop_step env fixTargetPaths) newPrefix
           (zip (drop prefixDepth (prop_part p)) (drop prefixDepth targets)))"

text \<open>\<open>ReplacePrefix\<close> with the targets of the property nodes already replaced.\<close>

definition replace_prefix_with ::
    "path_env \<Rightarrow> sdf_path list \<Rightarrow> sdf_path \<Rightarrow> sdf_path \<Rightarrow> sdf_path \<Rightarrow> bool \<Rightarrow> sdf_path" where
  "replace_prefix_with env targets p oldPrefix newPrefix fixTargetPaths =
     (if IsEmpty p \<or> oldPrefix = newPrefix then p
      else if IsEmpty oldPrefix \<or> IsEmpty newPrefix then EmptyPath
      else if p = oldPrefix then newPrefix
      else if prop_part oldPrefix = [] then
        let newPath = ReplacePrimPrefix env p oldPrefix newPrefix in
        if fixTargetPaths \<and> prop_part p \<noteq> [] \<and> nodes_ContainsTargetPath (prop_part p)
        then ReplaceTargetPathPrefixes env targets newPath else newPath
      else if prop_part p = [] then p
      else if prim_handle p \<noteq> prim_handle oldPrefix then
        (if fixTargetPaths \<and> nodes_ContainsTargetPath (prop_part p)
         then ReplaceTargetPathPrefixes env targets p else p)
      else ReplacePropPrefix env targets p oldPrefix newPrefix fixTargetPaths)"

function ReplacePrefix :: "path_env \<Rightarrow> sdf_path \<Rightarrow> sdf_path \<Rightarrow> sdf_path \<Rightarrow> bool \<Rightarrow> sdf_path" where
  "ReplacePrefix env (SdfPath r ns ps) oldPrefix newPrefix fixTargetPaths =
     replace_prefix_with env
       (map (\<lambda>n. if is_target_or_mapper n
          then ReplacePrefix env (node_target_path n) oldPrefix newPrefix True else EmptyPath) ps)
       (SdfPath r ns ps) oldPrefix newPrefix fixTargetPaths"
  by pat_completeness auto
termination
  by (relation "measure (\<lambda>(env, p, old, new, fixt). size p)") (auto dest: node_target_size)

end
