(* ===== verification/Sdf_PathValid.thy ===== *)
theory Sdf_PathValid
  imports Sdf_PathEdit
begin

text \<open>
  Well-formed paths, and the operations of \<open>Sdf_PathEdit\<close> that keep them
  (\<open>pxr/usd/sdf/path.cpp\<close>): which of them return a well-formed path, with which nodes, and
  where they do not.
\<close>

section \<open>Well-formed paths\<close>

text \<open>A prim node below a root or another prim. A name of two dots would be taken for the parent.\<close>

fun prim_node_ok :: "path_env \<Rightarrow> prim_node \<Rightarrow> bool" where
  "prim_node_ok env (PrimNode name) \<longleftrightarrow> name \<noteq> parentPathElement \<and> IsValidIdentifier (classes env) name"
| "prim_node_ok env (PrimVariantSelectionNode vset vsel) \<longleftrightarrow>
     prim_node_name (PrimVariantSelectionNode vset vsel) \<noteq> parentPathElement"

text \<open>An absolute path has no dots and does not start with a variant selection, the dots of a
  relative path come first.\<close>

definition prims_ok :: "path_env \<Rightarrow> path_root \<Rightarrow> prim_node list \<Rightarrow> bool" where
  "prims_ok env r ns =
     (case r of
        AbsoluteRoot \<Rightarrow> list_all (prim_node_ok env) ns \<and> (ns \<noteq> [] \<longrightarrow> \<not> is_variant_selection (hd ns))
      | RelativeRoot \<Rightarrow> list_all (prim_node_ok env) (dropWhile (\<lambda>n. n = PrimNode parentPathElement) ns)
      | NullRoot \<Rightarrow> False)"

definition is_property_node :: "prop_node \<Rightarrow> bool" where
  "is_property_node n \<longleftrightarrow> prop_node_type n = PrimPropertyNodeT \<or> prop_node_type n = RelationalAttributeNodeT"

text \<open>Which node may follow which, nothing for the first one.\<close>

fun prop_follows :: "path_env \<Rightarrow> prop_node option \<Rightarrow> prop_node \<Rightarrow> bool" where
  "prop_follows env prev (PrimPropertyNode name) \<longleftrightarrow>
     prev = None \<and> IsValidNamespacedIdentifier (classes env) name"
| "prop_follows env prev (TargetNode t) \<longleftrightarrow> prev \<noteq> None \<and> is_property_node (the prev) \<and> t \<noteq> EmptyPath"
| "prop_follows env prev (MapperNode t) \<longleftrightarrow> prev \<noteq> None \<and> is_property_node (the prev) \<and> t \<noteq> EmptyPath"
| "prop_follows env prev (RelationalAttributeNode name) \<longleftrightarrow>
     prev \<noteq> None \<and> prop_node_type (the prev) = TargetNodeT \<and> IsValidNamespacedIdentifier (classes env) name"
| "prop_follows env prev (MapperArgNode name) \<longleftrightarrow>
     prev \<noteq> None \<and> prop_node_type (the prev) = MapperNodeT \<and> IsValidIdentifier (classes env) name"
| "prop_follows env prev ExpressionNode \<longleftrightarrow> prev \<noteq> None \<and> is_property_node (the prev)"

fun props_chain :: "path_env \<Rightarrow> prop_node option \<Rightarrow> prop_node list \<Rightarrow> bool" where
  "props_chain env prev [] \<longleftrightarrow> True"
| "props_chain env prev (n # ns) \<longleftrightarrow> prop_follows env prev n \<and> props_chain env (Some n) ns"

text \<open>A well-formed path: no property of the absolute root, and well-formed targets.\<close>

function path_ok :: "path_env \<Rightarrow> sdf_path \<Rightarrow> bool" where
  "path_ok env (SdfPath r ns ps) \<longleftrightarrow>
     prims_ok env r ns \<and> props_chain env None ps \<and>
     (ps \<noteq> [] \<longrightarrow> \<not> (r = AbsoluteRoot \<and> ns = [])) \<and>
     list_all (\<lambda>n. if is_target_or_mapper n then path_ok env (node_target_path n) else True) ps"
  by pat_completeness auto
termination
  by (relation "measure (\<lambda>(env, p). size p)") (auto dest: node_target_size)

definition props_ok :: "path_env \<Rightarrow> prop_node list \<Rightarrow> bool" where
  "props_ok env ps \<longleftrightarrow> props_chain env None ps \<and>
     list_all (\<lambda>n. is_target_or_mapper n \<longrightarrow> path_ok env (node_target_path n)) ps"

lemma path_ok_iff:
  "path_ok env p \<longleftrightarrow> prims_ok env (path_root p) (prim_part p) \<and> props_ok env (prop_part p) \<and>
     (prop_part p \<noteq> [] \<longrightarrow> \<not> (path_root p = AbsoluteRoot \<and> prim_part p = []))"
  by (cases p) (auto simp: props_ok_def list_all_iff)

declare path_ok.simps [simp del]

text \<open>The tables contain nodes of well-formed paths only.\<close>

definition tables_ok :: "path_env \<Rightarrow> bool" where
  "tables_ok env \<longleftrightarrow>
     (\<forall>h n. has_prim env h n \<longrightarrow> prims_ok env (fst h) (snd h @ [n])) \<and>
     (\<forall>ps n. has_prop env ps n \<longrightarrow> props_ok env (ps @ [n]))"

lemma prims_ok_rooted: "prims_ok env r ns \<Longrightarrow> r \<noteq> NullRoot"
  by (auto simp: prims_ok_def)

lemma path_ok_rooted: "path_ok env p \<Longrightarrow> path_root p \<noteq> NullRoot"
  using prims_ok_rooted [of env "path_root p" "prim_part p"] by (simp add: path_ok_iff)

lemma prims_ok_Nil [simp]: "prims_ok env AbsoluteRoot []" "prims_ok env RelativeRoot []"
  by (simp_all add: prims_ok_def)

lemma dropWhile_snoc:
  "dropWhile P (xs @ [x]) = (if dropWhile P xs = [] then dropWhile P [x] else dropWhile P xs @ [x])"
  by (induction xs) auto

lemma prims_ok_snoc:
  assumes "prims_ok env r ns" "prim_node_ok env n" "ns = [] \<Longrightarrow> r = AbsoluteRoot \<Longrightarrow> \<not> is_variant_selection n"
  shows "prims_ok env r (ns @ [n])"
proof -
  have "n \<noteq> PrimNode parentPathElement" using assms(2) by auto
  with assms show ?thesis
    by (cases r) (simp_all add: prims_ok_def dropWhile_snoc hd_append)
qed

lemma prims_ok_butlast: "prims_ok env r (ns @ [n]) \<Longrightarrow> prims_ok env r ns"
  by (cases r) (auto simp: prims_ok_def dropWhile_snoc hd_append simp del: dropWhile_eq_Nil_conv split: if_splits)

lemma prim_node_ok_name: "prim_node_ok env n \<Longrightarrow> prim_node_name n \<noteq> parentPathElement"
  by (cases n) auto

lemma prims_ok_dots:
  assumes "prims_ok env RelativeRoot ns" "ns \<noteq> [] \<Longrightarrow> prim_node_name (last ns) = parentPathElement"
  shows "prims_ok env RelativeRoot (ns @ [PrimNode parentPathElement])"
proof (cases "dropWhile (\<lambda>n. n = PrimNode parentPathElement) ns = []")
  case False
  then have "last (dropWhile (\<lambda>n. n = PrimNode parentPathElement) ns) = last ns"
    using last_appendR [OF False] by (metis takeWhile_dropWhile_id)
  then have "prim_node_ok env (last ns)"
    using assms(1) last_in_set [OF False] by (auto simp: prims_ok_def list_all_iff)
  then show ?thesis using assms(2) False prim_node_ok_name by fastforce
qed (simp add: prims_ok_def dropWhile_snoc del: dropWhile_eq_Nil_conv)

lemma props_chain_append:
  "props_chain env prev (ps @ qs) \<longleftrightarrow> props_chain env prev ps \<and>
     props_chain env (if ps = [] then prev else Some (last ps)) qs"
  by (induction ps arbitrary: prev) auto

lemma props_ok_snoc:
  "props_ok env (ps @ [n]) \<longleftrightarrow> props_ok env ps \<and>
     prop_follows env (if ps = [] then None else Some (last ps)) n \<and>
     (is_target_or_mapper n \<longrightarrow> path_ok env (node_target_path n))"
  by (auto simp: props_ok_def props_chain_append)

section \<open>The operations build well-formed paths\<close>

text \<open>What an operation returns: the empty path on an error.\<close>

definition built_ok :: "path_env \<Rightarrow> sdf_path \<Rightarrow> bool" where
  "built_ok env p \<longleftrightarrow> p = EmptyPath \<or> path_ok env p"

lemma props_ok_Nil [simp]: "props_ok env []"
  by (simp add: props_ok_def)

lemma built_ok_roots [simp]:
  "built_ok env EmptyPath" "built_ok env AbsoluteRootPath" "built_ok env ReflexiveRelativePath"
  by (simp_all add: built_ok_def path_ok_iff AbsoluteRootPath_def ReflexiveRelativePath_def)

lemma prims_path_ok: "path_ok env (SdfPath r ns []) \<longleftrightarrow> prims_ok env r ns"
  by (simp add: path_ok_iff)

lemma tables_prim:
  "tables_ok env \<Longrightarrow> has_prim env (prim_handle p) n \<Longrightarrow> prims_ok env (path_root p) (prim_part p @ [n])"
  unfolding tables_ok_def prim_handle_def by fastforce

lemma built_GetParentPath:
  assumes "built_ok env p"
  shows "built_ok env (GetParentPath p)"
proof (cases "p = EmptyPath")
  case True then have "IsEmpty p" by (simp add: path_queries)
  with assms show ?thesis by (simp add: GetParentPath_def)
next
  case False
  with assms have ok: "path_ok env p" by (simp add: built_ok_def)
  obtain r ns ps where p: "p = SdfPath r ns ps" by (cases p)
  have prims: "prims_ok env r ns" using ok p by (simp add: path_ok_iff)
  consider (node) n qs where "ps = qs @ [n]"
    | (up) "ps = []" "r = AbsoluteRoot \<or> ns \<noteq> [] \<and> prim_node_name (last ns) \<noteq> parentPathElement"
    | (dots) "ps = []" "r = RelativeRoot" "ns \<noteq> [] \<Longrightarrow> prim_node_name (last ns) = parentPathElement"
    using prims_ok_rooted [OF prims] by (cases ps rule: rev_cases; cases r) auto
  then show ?thesis
  proof cases
    case node
    then show ?thesis using ok p
      by (auto simp: GetParentPath_def built_ok_def path_ok_iff props_ok_snoc path_queries)
  next
    case up
    then show ?thesis using prims p prims_ok_rooted [OF prims]
      by (cases ns rule: rev_cases)
        (auto simp: GetParentPath_def built_ok_def prims_path_ok path_of_handle_def
          prim_handle_name_def path_queries dest: prims_ok_butlast)
  next
    case dots
    then show ?thesis using prims p prims_ok_dots [of env ns]
      by (auto simp: GetParentPath_def built_ok_def prims_path_ok prim_handle_name_def path_queries)
  qed
qed

lemma built_append_prim:
  assumes "tables_ok env" "built_ok env p" "has_prim env (prim_handle p) n \<or> valid"
    "valid \<Longrightarrow> prop_part p = [] \<and> \<not> IsEmpty p \<and> prim_node_ok env n \<and> (is_variant_selection n \<longrightarrow> p \<noteq> AbsoluteRootPath)"
  shows "path_ok env (SdfPath (path_root p) (prim_part p @ [n]) [])"
proof (cases "has_prim env (prim_handle p) n")
  case True then show ?thesis using tables_prim [OF assms(1)] by (simp add: prims_path_ok)
next
  case False
  with assms(2-4) show ?thesis
    by (cases p) (auto simp: prims_path_ok built_ok_def path_ok_iff path_queries intro: prims_ok_snoc)
qed

lemma built_AppendChild:
  assumes "tables_ok env" "built_ok env p"
  shows "built_ok env (AppendChild env p name)"
proof -
  let ?valid = "(IsAbsoluteRootOrPrimPath p \<or> IsPrimVariantSelectionPath p) \<and> name \<noteq> parentPathElement
    \<and> IsValidIdentifier (classes env) name"
  have "path_ok env (SdfPath (path_root p) (prim_part p @ [PrimNode name]) [])"
    if "has_prim env (prim_handle p) (PrimNode name) \<or> ?valid"
    using assms that
    by (rule built_append_prim) (auto simp: IsAbsoluteRootOrPrimPath_def IsPrimVariantSelectionPath_def)
  moreover have "IsAbsoluteRootOrPrimPath ReflexiveRelativePath" by (simp add: path_queries)
  ultimately show ?thesis
    using built_GetParentPath [OF assms(2)] unfolding AppendChild_def FindOrCreate_def Let_def
    by (auto simp: built_ok_def)
qed

lemma built_AppendVariantSelection:
  assumes "tables_ok env" "built_ok env p" "prim_node_name (PrimVariantSelectionNode s v) \<noteq> parentPathElement"
  shows "built_ok env (AppendVariantSelection env p s v)"
proof -
  have "path_ok env (SdfPath (path_root p) (prim_part p @ [PrimVariantSelectionNode s v]) [])"
    if "has_prim env (prim_handle p) (PrimVariantSelectionNode s v) \<or> IsPrimOrPrimVariantSelectionPath p"
    using assms(1,2) that
    by (rule built_append_prim) (use assms(3) in \<open>auto simp: path_queries\<close>)
  then show ?thesis
    unfolding AppendVariantSelection_def FindOrCreate_def Let_def by (auto simp: built_ok_def)
qed

lemma built_AppendProperty:
  assumes "tables_ok env" "built_ok env p" "p \<noteq> EmptyPath" "p \<noteq> AbsoluteRootPath"
  shows "built_ok env (AppendProperty env p name)"
proof -
  have "props_ok env [PrimPropertyNode name]"
    if "has_prop env [] (PrimPropertyNode name) \<or> IsValidNamespacedIdentifier (classes env) name"
    using that assms(1) by (auto simp: tables_ok_def props_ok_def dest!: spec [of _ "[]"])
  moreover have "\<not> (path_root p = AbsoluteRoot \<and> prim_part p = [])" if "prop_part p = []"
    using that assms(4) by (cases p) (auto simp: AbsoluteRootPath_def)
  ultimately show ?thesis using assms(2,3)
    unfolding AppendProperty_def FindOrCreate_def Let_def by (auto simp: built_ok_def path_ok_iff)
qed

text \<open>The five operations on the property part.\<close>

lemma built_append_prop_node:
  assumes "tables_ok env" "built_ok env p" "prop_node_type n \<noteq> PrimPropertyNodeT"
    "valid \<Longrightarrow> prop_part p \<noteq> [] \<and> prop_follows env (Some (last (prop_part p))) n \<and>
      (is_target_or_mapper n \<longrightarrow> path_ok env (node_target_path n))"
  shows "built_ok env (append_prop_node env p valid n)"
proof (cases "has_prop env (prop_part p) n \<or> valid")
  case True
  have new: "props_ok env (prop_part p @ [n]) \<and> prop_part p \<noteq> []"
  proof (cases "has_prop env (prop_part p) n")
    case True
    with assms(1) have ok: "props_ok env (prop_part p @ [n])" by (simp add: tables_ok_def)
    moreover have "prop_part p \<noteq> []"
      using ok assms(3) by (cases n) (auto simp: props_ok_snoc)
    ultimately show ?thesis by blast
  next
    case False
    with True have v: "prop_part p \<noteq> []" "prop_follows env (Some (last (prop_part p))) n"
      "is_target_or_mapper n \<longrightarrow> path_ok env (node_target_path n)" using assms(4) by auto
    moreover have "props_ok env (prop_part p)"
      using assms(2) v(1) by (auto simp: built_ok_def path_ok_iff EmptyPath_def)
    ultimately show ?thesis by (simp add: props_ok_snoc)
  qed
  then have "path_ok env p" using assms(2) by (auto simp: built_ok_def EmptyPath_def)
  with True new show ?thesis
    by (auto simp: append_prop_node_def FindOrCreate_def built_ok_def path_ok_iff [of env "SdfPath _ _ _"]
        path_ok_iff [of env p])
qed (simp add: append_prop_node_def FindOrCreate_def)

lemma IsPropertyPath_last:
  "IsPropertyPath p \<longleftrightarrow> prop_part p \<noteq> [] \<and> is_property_node (last (prop_part p))"
  by (auto simp: IsPropertyPath_def prop_handle_is_def is_property_node_def)

lemma built_target:
  assumes "tables_ok env" "built_ok env p" "built_ok env t"
  shows "built_ok env (AppendTarget env p t)" "built_ok env (AppendMapper env p t)"
  unfolding AppendTarget_def AppendMapper_def
  using assms(3) [unfolded built_ok_def]
  by (auto intro!: built_append_prop_node [OF assms(1,2)] simp: IsPropertyPath_last split: if_splits)

lemma built_property_parts:
  assumes "tables_ok env" "built_ok env p"
  shows "built_ok env (AppendRelationalAttribute env p name)" "built_ok env (AppendMapperArg env p name)"
    "built_ok env (AppendExpression env p)"
  unfolding AppendRelationalAttribute_def AppendMapperArg_def AppendExpression_def
  by (auto intro!: built_append_prop_node [OF assms] simp: IsPropertyPath_last
      IsTargetPath_def IsMapperPath_def prop_handle_is_def)

text \<open>The paths that clients make with the public operations.\<close>

inductive path_built :: "path_env \<Rightarrow> sdf_path \<Rightarrow> bool" for env where
  empty: "path_built env EmptyPath"
| absolute: "path_built env AbsoluteRootPath"
| relative: "path_built env ReflexiveRelativePath"
| child: "path_built env p \<Longrightarrow> path_built env (AppendChild env p name)"
| property: "path_built env p \<Longrightarrow> p \<noteq> EmptyPath \<Longrightarrow> p \<noteq> AbsoluteRootPath \<Longrightarrow>
    path_built env (AppendProperty env p name)"
| variant: "path_built env p \<Longrightarrow> prim_node_name (PrimVariantSelectionNode vset vsel) \<noteq> parentPathElement \<Longrightarrow>
    path_built env (AppendVariantSelection env p vset vsel)"
| target: "path_built env p \<Longrightarrow> path_built env t \<Longrightarrow> path_built env (AppendTarget env p t)"
| attribute: "path_built env p \<Longrightarrow> path_built env (AppendRelationalAttribute env p name)"
| mapper: "path_built env p \<Longrightarrow> path_built env t \<Longrightarrow> path_built env (AppendMapper env p t)"
| argument: "path_built env p \<Longrightarrow> path_built env (AppendMapperArg env p name)"
| expression: "path_built env p \<Longrightarrow> path_built env (AppendExpression env p)"
| parent: "path_built env p \<Longrightarrow> path_built env (GetParentPath p)"


text \<open>\<open>AppendProperty\<close> does not check the path itself when the property node exists: on the
  absolute root and on the empty path it then returns a path that is not well-formed instead
  of the error, so its outcome depends on the paths other clients hold.\<close>

theorem AppendProperty_unchecked:
  "AppendProperty env AbsoluteRootPath name =
     (if has_prop env [] (PrimPropertyNode name) then SdfPath AbsoluteRoot [] [PrimPropertyNode name]
      else EmptyPath)
   \<and> AppendProperty env EmptyPath name =
     (if has_prop env [] (PrimPropertyNode name) then SdfPath NullRoot [] [PrimPropertyNode name]
      else EmptyPath)
   \<and> \<not> path_ok env (SdfPath AbsoluteRoot [] [PrimPropertyNode name])
   \<and> \<not> path_ok env (SdfPath NullRoot [] [PrimPropertyNode name])"
  by (auto simp: AppendProperty_def FindOrCreate_def path_queries path_ok_iff prims_ok_def)

lemma AppendVariantSelection_property:
  assumes "prop_part p \<noteq> []"
  shows "AppendVariantSelection env p vset vsel =
     (if has_prim env (prim_handle p) (PrimVariantSelectionNode vset vsel)
      then SdfPath (path_root p) (prim_part p @ [PrimVariantSelectionNode vset vsel]) [] else EmptyPath)"
  using assms by (simp add: AppendVariantSelection_def FindOrCreate_def IsPrimOrPrimVariantSelectionPath_def)

section \<open>Appending well-formed parts\<close>

lemma prims_ok_prefix: "prims_ok env r (ns @ ms) \<Longrightarrow> prims_ok env r ns"
proof (induction ms rule: rev_induct)
  case (snoc m ms)
  then show ?case using prims_ok_butlast [of env r "ns @ ms" m] by simp
qed simp

lemma prims_ok_dots_only:
  assumes "prims_ok env r (ns @ [PrimNode parentPathElement])"
  shows "r = RelativeRoot \<and> (ns \<noteq> [] \<longrightarrow> last ns = PrimNode parentPathElement)"
proof -
  have "r = RelativeRoot" using assms by (cases r) (auto simp: prims_ok_def)
  moreover have "\<forall>n \<in> set ns. n = PrimNode parentPathElement"
    using assms calculation by (auto simp: prims_ok_def dropWhile_snoc split: if_splits)
  ultimately show ?thesis using last_in_set by blast
qed

lemma prims_ok_last:
  "prims_ok env r (ns @ [n]) \<Longrightarrow> n \<noteq> PrimNode parentPathElement \<Longrightarrow>
     prim_node_ok env n \<and> (r = AbsoluteRoot \<longrightarrow> ns = [] \<longrightarrow> \<not> is_variant_selection n)"
  by (cases r) (auto simp: prims_ok_def dropWhile_snoc split: if_splits)

lemma AppendChild_parent:
  assumes "tables_ok env" "path_ok env p" "prop_part p = []"
  shows "AppendChild env p parentPathElement = GetParentPath p"
proof (cases "has_prim env (prim_handle p) (PrimNode parentPathElement)")
  case True
  have dots: "path_root p = RelativeRoot \<and> (prim_part p \<noteq> [] \<longrightarrow> last (prim_part p) = PrimNode parentPathElement)"
    using prims_ok_dots_only [OF tables_prim [OF assms(1) True]] .
  then have "GetParentPath p = SdfPath (path_root p) (prim_part p @ [PrimNode parentPathElement]) []"
    using assms(3)
    by (cases p) (auto simp: GetParentPath_def IsEmpty_def prim_handle_def null_prim_handle_def prim_handle_name_def)
  then show ?thesis using True assms(3) by (simp add: AppendChild_def FindOrCreate_def)
qed (use assms(3) in \<open>simp add: AppendChild_def FindOrCreate_def\<close>)

lemma AppendPrimNode_ok:
  assumes "prims_ok env r (ns @ [n])" "n \<noteq> PrimNode parentPathElement"
  shows "AppendPrimNode env (SdfPath r ns []) n = SdfPath r (ns @ [n]) []"
proof -
  have r: "r \<noteq> NullRoot" using prims_ok_rooted [OF assms(1)] .
  have n: "prim_node_ok env n" "r = AbsoluteRoot \<Longrightarrow> ns = [] \<Longrightarrow> \<not> is_variant_selection n"
    using prims_ok_last [OF assms] by auto
  have "prim_node_type m = PrimNodeT \<or> prim_node_type m = PrimVariantSelectionNodeT" for m
    by (cases m) auto
  then show ?thesis using n r
    by (cases n; cases r)
      (auto simp: AppendChild_def AppendVariantSelection_def FindOrCreate_def Let_def path_queries)
qed

lemma append_nodes_prims:
  assumes "prims_ok env r (ns @ ms)" "PrimNode parentPathElement \<notin> set ms"
  shows "append_nodes env (SdfPath r ns []) (map PrimN ms @ xs) = append_nodes env (SdfPath r (ns @ ms) []) xs"
  using assms
proof (induction ms arbitrary: ns)
  case (Cons m ms)
  have ok: "prims_ok env r (ns @ [m])" using Cons.prems(1) prims_ok_prefix [of env r "ns @ [m]" ms] by simp
  then have "r \<noteq> NullRoot" by (rule prims_ok_rooted)
  then show ?case using Cons.IH [of "ns @ [m]"] Cons.prems AppendPrimNode_ok [OF ok]
    by (auto simp: EmptyPath_def)
qed simp

lemma AppendPropNode_ok:
  assumes "path_ok env (SdfPath r ns (ps @ [n]))"
  shows "AppendPropNode env (SdfPath r ns ps) n = SdfPath r ns (ps @ [n])"
proof -
  have props: "prop_follows env (if ps = [] then None else Some (last ps)) n"
    and root: "\<not> (r = AbsoluteRoot \<and> ns = [])" and r: "r \<noteq> NullRoot"
    using assms path_ok_rooted [OF assms] by (auto simp: path_ok_iff props_ok_snoc)
  have "prim_node_type m = PrimNodeT \<or> prim_node_type m = PrimVariantSelectionNodeT" for m
    by (cases m) auto
  with props root r show ?thesis
    by (cases n; cases r)
      (auto simp: AppendProperty_def AppendTarget_def AppendMapper_def AppendRelationalAttribute_def
        AppendMapperArg_def AppendExpression_def append_prop_node_def FindOrCreate_def
        IsPropertyPath_last IsTargetPath_def IsMapperPath_def prop_handle_is_def IsPrimPath_def
        IsPrimVariantSelectionPath_def prim_handle_type_def IsEmpty_def prim_handle_def
        null_prim_handle_def ReflexiveRelativePath_def split: if_splits)
qed

lemma path_ok_props_prefix: "path_ok env (SdfPath r ns (ps @ qs)) \<Longrightarrow> path_ok env (SdfPath r ns ps)"
proof (induction qs rule: rev_induct)
  case (snoc q qs)
  then have "path_ok env (SdfPath r ns (ps @ qs))"
    by (auto simp: path_ok_iff [of env "SdfPath r ns _"] append_assoc [symmetric] props_ok_snoc
        simp del: append_assoc)
  with snoc show ?case by blast
qed simp

lemma path_ok_target:
  "path_ok env (SdfPath r ns ps) \<Longrightarrow> n \<in> set ps \<Longrightarrow> is_target_or_mapper n \<Longrightarrow> path_ok env (node_target_path n)"
  by (auto simp: path_ok.simps list_all_iff)

lemma append_nodes_props:
  assumes "path_ok env (SdfPath r ns (ps @ qs))"
  shows "append_nodes env (SdfPath r ns ps) (map PropN qs) = SdfPath r ns (ps @ qs)"
  using assms
proof (induction qs arbitrary: ps)
  case (Cons q qs)
  have ok: "path_ok env (SdfPath r ns (ps @ [q]))"
    using Cons.prems path_ok_props_prefix [of env r ns "ps @ [q]" qs] by simp
  then have "r \<noteq> NullRoot" using path_ok_rooted by fastforce
  then show ?case using Cons.IH [of "ps @ [q]"] Cons.prems AppendPropNode_ok [OF ok]
    by (auto simp: EmptyPath_def)
qed simp

lemma append_nodes_Empty [simp]: "append_nodes env EmptyPath xs = EmptyPath"
  by (cases xs) auto

lemma GetParentPath_Empty [simp]: "GetParentPath EmptyPath = EmptyPath"
  by (simp add: GetParentPath_def path_queries)

lemma GetParentPaths_Empty [simp]: "(GetParentPath ^^ k) EmptyPath = EmptyPath"
  by (induction k) auto

lemma GetParentPath_prim: "prop_part p = [] \<Longrightarrow> prop_part (GetParentPath p) = []"
  by (auto simp: GetParentPath_def path_of_handle_def)

lemma append_nodes_parents:
  assumes "tables_ok env" "built_ok env p" "prop_part p = []"
  shows "append_nodes env p (replicate k (PrimN (PrimNode parentPathElement)) @ xs) =
    append_nodes env ((GetParentPath ^^ k) p) xs"
  using assms(2,3)
proof (induction k arbitrary: p)
  case (Suc k)
  show ?case
  proof (cases "p = EmptyPath")
    case False
    with Suc.prems have "AppendChild env p parentPathElement = GetParentPath p"
      using AppendChild_parent [OF assms(1)] by (simp add: built_ok_def)
    then show ?thesis
      using Suc.IH [of "GetParentPath p"] built_GetParentPath Suc.prems GetParentPath_prim False
      by (simp add: funpow_swap1)
  qed simp
qed simp

lemma built_GetParentPaths:
  "built_ok env p \<Longrightarrow> prop_part p = [] \<Longrightarrow> built_ok env ((GetParentPath ^^ k) p) \<and> prop_part ((GetParentPath ^^ k) p) = []"
  by (induction k) (auto simp: built_GetParentPath GetParentPath_prim)

text \<open>The leading dots of a path and the prim nodes after them.\<close>

definition leading_parents :: "prim_node list \<Rightarrow> nat" where
  "leading_parents ns = length (takeWhile (\<lambda>n. n = PrimNode parentPathElement) ns)"

definition after_parents :: "prim_node list \<Rightarrow> prim_node list" where
  "after_parents ns = dropWhile (\<lambda>n. n = PrimNode parentPathElement) ns"

lemma split_parents: "ns = replicate (leading_parents ns) (PrimNode parentPathElement) @ after_parents ns"
  by (induction ns) (auto simp: leading_parents_def after_parents_def)

lemma after_parents_ok:
  assumes "prims_ok env RelativeRoot ns"
  shows "PrimNode parentPathElement \<notin> set (after_parents ns)"
  using assms by (auto simp: prims_ok_def after_parents_def list_all_iff)


section \<open>Examples\<close>

text \<open>A process that holds no paths.\<close>

definition empty_tables :: "char_classes \<Rightarrow> path_env" where
  "empty_tables cs = \<lparr>classes = cs, has_prim = (\<lambda>_ _. False), has_prop = (\<lambda>_ _. False)\<rparr>"

lemma tables_ok_empty: "tables_ok (empty_tables cs)"
  by (simp add: tables_ok_def empty_tables_def)

definition example_env :: path_env where "example_env = empty_tables ascii_classes"

definition example_target :: sdf_path where
  "example_target =
     AppendTarget example_env
       (AppendProperty example_env (AppendVariantSelection example_env
         (AppendChild example_env AbsoluteRootPath ''A'') ''v'' ''x'') ''x'')
       (AppendChild example_env (GetParentPath ReflexiveRelativePath) ''B'')"

lemma example_names [simp]:
  "IsValidIdentifier ascii_classes ''A''" "IsValidIdentifier ascii_classes ''B''"
  "IsValidIdentifier ascii_classes ''C''" "IsValidNamespacedIdentifier ascii_classes ''x''"
  by (simp_all add: IsValidIdentifier_def IsValidIdentifierStart_def ascii_classes_def deref_def
        GetCodePoint_def GetEncodingLength_def increment_def TfUtf8CodePoint_def MaximumValue_def
        code_points.simps [of "[]"] IsValidNamespacedIdentifier_def namespaced_loop.simps [of _ "[CHR 0x78]"]
        theNamespaceDelimiter_def)

lemma example_classes [simp]:
  "classes example_env = ascii_classes" "has_prim example_env h n = False" "has_prop example_env ps m = False"
  by (simp_all add: example_env_def empty_tables_def)

lemma example_target_value:
  "example_target = SdfPath AbsoluteRoot [PrimNode ''A'', PrimVariantSelectionNode ''v'' ''x'']
     [PrimPropertyNode ''x'', TargetNode (SdfPath RelativeRoot [PrimNode ''..'', PrimNode ''B''] [])]"
  by (simp add: example_target_def AppendTarget_def append_prop_node_def AppendProperty_def
      AppendVariantSelection_def AppendChild_def FindOrCreate_def GetParentPath_def path_queries
      parentPathElement_def)



end
