(* ===== verification/Sdf_PathSearch.thy ===== *)
theory Sdf_PathSearch
  imports Sdf_PathOrder
begin

text \<open>
  Common prefixes and suffixes of paths (\<open>pxr/usd/sdf/path.cpp\<close>) and the searches for
  prefixes in sorted ranges of paths (\<open>pxr/usd/sdf/path.h\<close>). The null node above a root is
  the handle \<open>null_prim_handle\<close>.
\<close>

section \<open>Common prefixes and suffixes\<close>

text \<open>The walk of \<open>GetCommonPrefix\<close> in the prim forest, to the same depth and then up in both.\<close>

function common_prim_walk :: "prim_handle \<Rightarrow> prim_handle \<Rightarrow> prim_handle" where
  "common_prim_walk h1 h2 =
     (if h1 = h2 then h1
      else if h1 = null_prim_handle \<or> h2 = null_prim_handle then null_prim_handle
      else common_prim_walk (parent_prim h1) (parent_prim h2))"
  by pat_completeness auto
termination
proof (relation "measure (\<lambda>(h1, h2). length (snd h1) + (if h1 = null_prim_handle then 0 else 1))", goal_cases)
  case (2 h1 h2)
  then show ?case by (cases h1) (auto simp: null_prim_handle_def)
qed simp

declare common_prim_walk.simps [simp del]

function common_walk :: "'n list \<Rightarrow> 'n list \<Rightarrow> 'n list" where
  "common_walk ns1 ns2 =
     (if ns1 = ns2 then ns1
      else if ns1 = [] \<or> ns2 = [] then []
      else common_walk (butlast ns1) (butlast ns2))"
  by pat_completeness auto
termination
  by (relation "measure (\<lambda>(ns1, ns2). length ns1)")
    (auto simp: length_greater_0_conv [symmetric] simp del: length_greater_0_conv)

declare common_walk.simps [simp del]

definition to_depth :: "nat \<Rightarrow> 'n list \<Rightarrow> 'n list" where
  "to_depth d ns = walk_up (length ns - d) ns"

definition GetCommonPrefix :: "sdf_path \<Rightarrow> sdf_path \<Rightarrow> sdf_path" where
  "GetCommonPrefix path1 path2 =
     (if IsEmpty path2 then EmptyPath
      else if prop_part path1 = [] \<or> prop_part path2 = [] \<or> prim_handle path1 \<noteq> prim_handle path2
      then
        let d = min (length (prim_part path1)) (length (prim_part path2)) in
        path_of_handle (common_prim_walk (path_root path1, to_depth d (prim_part path1))
          (path_root path2, to_depth d (prim_part path2))) []
      else
        let d = min (length (prop_part path1)) (length (prop_part path2)) in
        SdfPath (path_root path1) (prim_part path1)
          (common_walk (to_depth d (prop_part path1)) (to_depth d (prop_part path2))))"

text \<open>The loops of \<open>RemoveCommonSuffix\<close>: \<open>Compare\<close> looks at the nodes, not at their parents.\<close>

function suffix_walk :: "nat \<Rightarrow> 'n list \<Rightarrow> 'n list \<Rightarrow> 'n list \<times> 'n list" where
  "suffix_walk k ns1 ns2 =
     (if length ns1 > k \<and> length ns2 > k \<and> last ns1 = last ns2
      then suffix_walk k (butlast ns1) (butlast ns2)
      else (ns1, ns2))"
  by pat_completeness auto
termination
  by (relation "measure (\<lambda>(k, ns1, ns2). length ns1)") auto

declare suffix_walk.simps [simp del]

definition RemoveCommonSuffix :: "sdf_path \<Rightarrow> sdf_path \<Rightarrow> bool \<Rightarrow> sdf_path \<times> sdf_path" where
  "RemoveCommonSuffix p otherPath stopAtRootPrim =
     (if IsEmpty p \<or> IsEmpty otherPath \<or> ((prop_part p \<noteq> []) \<noteq> (prop_part otherPath \<noteq> []))
      then (p, otherPath)
      else
        let (thisProp, otherProp) = suffix_walk 0 (prop_part p) (prop_part otherPath) in
        if thisProp \<noteq> [] \<or> otherProp \<noteq> []
        then (SdfPath (path_root p) (prim_part p) thisProp,
              SdfPath (path_root otherPath) (prim_part otherPath) otherProp)
        else
          let (thisPrim, otherPrim) = suffix_walk 1 (prim_part p) (prim_part otherPath) in
          if length thisPrim > 1 \<and> length otherPrim > 1
          then (SdfPath (path_root p) thisPrim [], SdfPath (path_root otherPath) otherPrim [])
          else if \<not> stopAtRootPrim \<and> length thisPrim \<ge> 1 \<and> length otherPrim \<ge> 1
              \<and> last thisPrim = last otherPrim
          then (SdfPath (path_root p) (butlast thisPrim) [],
                SdfPath (path_root otherPath) (butlast otherPrim) [])
          else (SdfPath (path_root p) thisPrim [], SdfPath (path_root otherPath) otherPrim []))"

section \<open>Searching sorted paths\<close>

text \<open>\<open>SdfPathFindPrefixedRange\<close>: the bounds of the range as offsets.\<close>

definition FindPrefixedRange :: "sdf_path list \<Rightarrow> sdf_path \<Rightarrow> nat \<times> nat" where
  "FindPrefixedRange ps pre =
     (let first = std_lower_bound (<) ps pre
      in (first, first + partition_point_loop (\<lambda>p. HasPrefix p pre) (drop first ps) 0 (length ps - first)))"

lemma partition_point_le: "partition_point_loop P xs first len \<le> first + len"
proof (induction P xs first len rule: partition_point_loop.induct)
  case (1 P xs first len)
  then show ?case by (subst partition_point_loop.simps) (fastforce simp: Let_def)
qed

text \<open>The loop of \<open>Sdf_PathFindLongestPrefixImpl\<close> over a range that gets shorter: \<open>None\<close> is the end.\<close>

function longest_prefix_loop :: "sdf_path list \<Rightarrow> sdf_path \<Rightarrow> nat \<Rightarrow> nat option" where
  "longest_prefix_loop ps newPath result =
     (let hi = result;
          result = std_lower_bound (<) (take hi ps) newPath
      in if result < hi \<and> ps ! result = newPath then Some result
         else if result = 0 then None
         else if HasPrefix newPath (ps ! (result - 1)) then Some (result - 1)
         else longest_prefix_loop ps (GetCommonPrefix newPath (ps ! (result - 1))) (result - 1))"
  by pat_completeness auto
termination
proof (relation "measure (\<lambda>(ps, p, k). k)", goal_cases)
  case (2 ps newPath result hi r)
  then show ?case using partition_point_le [of "\<lambda>e. e < newPath" "take result ps" 0 "length (take result ps)"]
    by (auto simp: std_lower_bound_def)
qed simp

declare longest_prefix_loop.simps [simp del]

definition FindLongestPrefixImpl :: "sdf_path list \<Rightarrow> sdf_path \<Rightarrow> bool \<Rightarrow> nat option" where
  "FindLongestPrefixImpl ps path strictPrefix =
     (if ps = [] then None
      else
        let result = std_lower_bound (<) ps path in
        if \<not> strictPrefix \<and> result < length ps \<and> ps ! result = path then Some result
        else if result = 0 then None
        else if HasPrefix path (ps ! (result - 1)) then Some (result - 1)
        else longest_prefix_loop ps (GetCommonPrefix path (ps ! (result - 1))) (result - 1))"

definition FindLongestPrefix :: "sdf_path list \<Rightarrow> sdf_path \<Rightarrow> nat option" where
  "FindLongestPrefix ps path = FindLongestPrefixImpl ps path False"

definition FindLongestStrictPrefix :: "sdf_path list \<Rightarrow> sdf_path \<Rightarrow> nat option" where
  "FindLongestStrictPrefix ps path = FindLongestPrefixImpl ps path True"

section \<open>The common prefix is the greatest one\<close>

lemma common_walk_prefix:
  "length ns1 = length ns2 \<Longrightarrow> prefix r (common_walk ns1 ns2) \<longleftrightarrow> prefix r ns1 \<and> prefix r ns2"
proof (induction ns1 ns2 rule: common_walk.induct)
  case (1 ns1 ns2)
  show ?case
  proof (cases "ns1 = ns2 \<or> ns1 = [] \<or> ns2 = []")
    case True
    with "1.prems" show ?thesis by (subst common_walk.simps) auto
  next
    case False
    then have up: "prefix r ns \<longleftrightarrow> prefix r (butlast ns)" if "r \<noteq> ns" "ns \<noteq> []" for ns
      using that by (metis append_butlast_last_id prefix_snoc)
    have "prefix r ns1 \<and> prefix r ns2 \<longleftrightarrow> prefix r (butlast ns1) \<and> prefix r (butlast ns2)"
    proof (cases "r = ns1 \<or> r = ns2")
      case True
      have "\<not> prefix ns1 ns2" "\<not> prefix ns2 ns1"
        using False "1.prems" by (auto simp: prefix_def)
      moreover have "\<not> prefix ns1 (butlast ns1)" "\<not> prefix ns2 (butlast ns2)"
        using False by (auto dest: prefix_length_le simp: length_greater_0_conv [symmetric] simp del: length_greater_0_conv)
      ultimately show ?thesis using True by blast
    next
      case rne: False
      then show ?thesis using up [of ns1] up [of ns2] False by blast
    qed
    then show ?thesis using False "1.IH" "1.prems" by (subst common_walk.simps) simp
  qed
qed

lemma common_prim_walk_same:
  "r \<noteq> NullRoot \<Longrightarrow> length ns1 = length ns2 \<Longrightarrow>
   common_prim_walk (r, ns1) (r, ns2) = (r, common_walk ns1 ns2)"
proof (induction ns1 ns2 rule: common_walk.induct)
  case (1 ns1 ns2)
  then show ?case
    by (subst common_prim_walk.simps, subst common_walk.simps) (auto simp: null_prim_handle_def)
qed

lemma common_prim_walk_other:
  assumes "r1 \<noteq> NullRoot" "r2 \<noteq> NullRoot" "r1 \<noteq> r2" "length ns1 = length ns2"
  shows "common_prim_walk (r1, ns1) (r2, ns2) = null_prim_handle"
  using assms(4)
proof (induction ns1 arbitrary: ns2 rule: rev_induct)
  case Nil
  have "common_prim_walk null_prim_handle null_prim_handle = null_prim_handle"
    by (subst common_prim_walk.simps) simp
  with Nil assms show ?case
    by (subst common_prim_walk.simps) (simp add: null_prim_handle_def)
next
  case (snoc x xs)
  then obtain ys y where "ns2 = ys @ [y]" by (metis length_Suc_conv_rev length_append_singleton)
  with snoc assms show ?case
    by (subst common_prim_walk.simps) (simp add: null_prim_handle_def)
qed

lemma to_depth_take: "to_depth d ns = take d ns"
  by (cases "d \<le> length ns") (simp_all add: to_depth_def walk_up_take)

lemma prefix_take_min:
  "prefix r (take (min (length xs) (length ys)) xs) \<and> prefix r (take (min (length xs) (length ys)) ys)
   \<longleftrightarrow> prefix r xs \<and> prefix r ys"
proof -
  have "prefix r (take d zs) \<longleftrightarrow> prefix r zs \<and> length r \<le> d" for d and zs
  proof
    assume h: "prefix r (take d zs)"
    from prefix_length_le [OF this] have "length r \<le> d" by simp
    moreover have "prefix r zs" using h take_is_prefix by (rule prefix_order.trans)
    ultimately show "prefix r zs \<and> length r \<le> d" by blast
  next
    assume h: "prefix r zs \<and> length r \<le> d"
    then have "length r \<le> length (take d zs)" by (simp add: prefix_length_le)
    with h show "prefix r (take d zs)" using prefix_length_prefix take_is_prefix by blast
  qed
  then show ?thesis by (auto dest: prefix_length_le)
qed

lemma rooted_not_empty: "path_root p \<noteq> NullRoot \<Longrightarrow> \<not> IsEmpty p"
  by (simp add: path_queries)

lemma GetCommonPrefix_greatest_aux:
  assumes "path_root p \<noteq> NullRoot" "path_root q \<noteq> NullRoot"
  shows "HasPrefix (GetCommonPrefix p q) z \<longleftrightarrow> HasPrefix p z \<and> HasPrefix q z"
proof -
  note ne = rooted_not_empty [OF assms(1)] rooted_not_empty [OF assms(2)]
  have len: "length (take (min (length xs) (length ys)) xs) = length (take (min (length xs) (length ys)) ys)"
    for xs ys :: "'n list" by simp
  note walk = common_walk_prefix [OF len, unfolded prefix_take_min]
  show ?thesis
  proof (cases "prop_part p = [] \<or> prop_part q = [] \<or> prim_handle p \<noteq> prim_handle q")
    case prim: True
    show ?thesis
    proof (cases "path_root p = path_root q")
      case True
      let ?d = "min (length (prim_part p)) (length (prim_part q))"
      let ?c = "common_walk (take ?d (prim_part p)) (take ?d (prim_part q))"
      have eq: "GetCommonPrefix p q = SdfPath (path_root p) ?c []"
        using prim ne True assms
        by (simp add: GetCommonPrefix_def Let_def to_depth_take common_prim_walk_same path_of_handle_def)
      have props: "HasPrefix p z \<and> HasPrefix q z \<longrightarrow> prop_part z = []"
        using prim by (auto simp: HasPrefix_iff prim_handle_def split: if_splits)
      have c: "\<not> IsEmpty (SdfPath (path_root p) ?c [])" using assms by (simp add: path_queries)
      show ?thesis
        using props walk [of "prim_part z" "prim_part p" "prim_part q"] ne True c
        unfolding eq HasPrefix_iff by (cases "prop_part z = []") auto
    next
      case False
      then have "GetCommonPrefix p q = EmptyPath"
        using prim ne assms
        by (simp add: GetCommonPrefix_def Let_def to_depth_take common_prim_walk_other path_of_handle_def
            null_prim_handle_def EmptyPath_def)
      with False show ?thesis by (auto simp: HasPrefix_iff IsEmpty_def EmptyPath_def prim_handle_def null_prim_handle_def)
    qed
  next
    case False
    then have same: "path_root p = path_root q" "prim_part p = prim_part q" by (auto simp: prim_handle_def)
    let ?d = "min (length (prop_part p)) (length (prop_part q))"
    let ?c = "common_walk (take ?d (prop_part p)) (take ?d (prop_part q))"
    have eq: "GetCommonPrefix p q = SdfPath (path_root p) (prim_part p) ?c"
      using False ne by (simp add: GetCommonPrefix_def Let_def to_depth_take)
    have c: "\<not> IsEmpty (SdfPath (path_root p) (prim_part p) ?c)" using assms by (simp add: path_queries)
    show ?thesis
      using walk [of "prop_part z" "prop_part p" "prop_part q"] same ne c
      unfolding eq HasPrefix_iff by (cases "prop_part z = []") auto
  qed
qed

text \<open>C28: The prefixes of the common prefix of two paths are exactly the prefixes they share.\<close>

theorem GetCommonPrefix_greatest:
  assumes "path_root p \<noteq> NullRoot" "path_root q \<noteq> NullRoot"
  shows "HasPrefix (GetCommonPrefix p q) z \<longleftrightarrow> HasPrefix p z \<and> HasPrefix q z"
  using GetCommonPrefix_greatest_aux [OF assms] .

section \<open>Searches find what they promise\<close>

lemma filter_takeWhile: "sorted_wrt (\<lambda>a b. P b \<longrightarrow> P a) xs \<Longrightarrow> filter P xs = takeWhile P xs"
  by (induction xs) (auto simp: filter_empty_conv)

lemma lower_bound_sorted_paths:
  fixes ps :: "sdf_path list"
  shows "sorted_wrt (<) ps \<Longrightarrow> std_lower_bound (<) ps x = length (takeWhile (\<lambda>e. e < x) ps)"
  by (rule paths.std_lower_bound_sorted [OF paths.sorted_weak])

lemma FindPrefixedRange_filtered:
  assumes "sorted_wrt (<) ps" "list_all (\<lambda>p. \<not> IsEmpty p) ps" "\<not> IsEmpty pre"
    and "FindPrefixedRange ps pre = (first, second)"
  shows "first \<le> second \<and> second \<le> length ps
    \<and> take (second - first) (drop first ps) = filter (\<lambda>p. HasPrefix p pre) ps"
proof -
  let ?P = "\<lambda>p. HasPrefix p pre"
  have first: "first = length (takeWhile (\<lambda>e. e < pre) ps)"
    using assms(4) lower_bound_sorted_paths [OF assms(1)] by (simp add: FindPrefixedRange_def Let_def)
  have rest: "drop first ps = dropWhile (\<lambda>e. e < pre) ps"
    unfolding first by (rule dropWhile_eq_drop [symmetric])
  have sorted: "sorted_wrt (<) (drop first ps)" using assms(1) by (rule sorted_wrt_drop)
  have ge: "\<not> e < pre" if "e \<in> set (drop first ps)" for e
  proof (cases "drop first ps")
    case (Cons x xs)
    then have "\<not> x < pre" using rest hd_dropWhile [of "\<lambda>e. e < pre" ps] by force
    moreover have "e = x \<or> x < e" using that sorted Cons by auto
    ultimately show ?thesis by (meson order.strict_trans)
  qed (use that in simp)
  have down: "sorted_wrt (\<lambda>a b. ?P b \<longrightarrow> ?P a) (drop first ps)"
  proof (rule sorted_wrt_mono_rel [OF _ sorted])
    fix a b assume ab: "a \<in> set (drop first ps)" "b \<in> set (drop first ps)" "a < b"
    have "a = pre \<or> pre < a" using ge [OF ab(1)] by auto
    with ab(3) assms(3) show "?P b \<longrightarrow> ?P a"
      using paths.prefix_convex [of b pre a] paths.prefix_refl by blast
  qed
  have "second = first + length (takeWhile ?P (drop first ps))"
    using assms(4) partition_point_takeWhile [OF down] lower_bound_sorted_paths [OF assms(1)]
    by (simp add: FindPrefixedRange_def Let_def first)
  moreover have "filter ?P (take first ps) = []"
  proof -
    have "take first ps = takeWhile (\<lambda>e. e < pre) ps" unfolding first by (rule takeWhile_eq_take [symmetric])
    then have "e < pre" if "e \<in> set (take first ps)" for e using that by (metis set_takeWhileD)
    then show ?thesis
      by (auto simp: filter_empty_conv dest: paths.prefix_less paths.asym)
  qed
  moreover have "filter ?P ps = filter ?P (take first ps) @ filter ?P (drop first ps)"
    by (metis append_take_drop_id filter_append)
  moreover have "length (takeWhile ?P (drop first ps)) \<le> length ps - first"
    using length_takeWhile_le [of ?P "drop first ps"] by simp
  moreover have "first \<le> length ps" unfolding first by (rule length_takeWhile_le)
  ultimately show ?thesis
    by (simp add: filter_takeWhile [OF down] takeWhile_eq_take [symmetric])
qed

text \<open>C27: In a sorted range of paths, the subrange found is the sublist of the paths with the prefix.\<close>

theorem FindPrefixedRange_filter:
  assumes "sorted_wrt (<) ps" "list_all (\<lambda>p. \<not> IsEmpty p) ps" "\<not> IsEmpty pre"
    and "FindPrefixedRange ps pre = (first, second)"
  shows "first \<le> second \<and> second \<le> length ps
    \<and> take (second - first) (drop first ps) = filter (\<lambda>p. HasPrefix p pre) ps"
  using FindPrefixedRange_filtered [OF assms] .

text \<open>The result of the search: a prefix of the path, not the path itself if it is strict, and
  the longest one; or none exists.\<close>

definition prefix_candidate :: "sdf_path \<Rightarrow> bool \<Rightarrow> sdf_path \<Rightarrow> bool" where
  "prefix_candidate path strictPrefix c \<longleftrightarrow> HasPrefix path c \<and> (strictPrefix \<longrightarrow> c \<noteq> path)"

definition longest_prefix_found :: "sdf_path list \<Rightarrow> (sdf_path \<Rightarrow> bool) \<Rightarrow> nat option \<Rightarrow> bool" where
  "longest_prefix_found ps cand r =
     (case r of
        None \<Rightarrow> list_all (\<lambda>c. \<not> cand c) ps
      | Some i \<Rightarrow> i < length ps \<and> cand (ps ! i) \<and> list_all (\<lambda>c. cand c \<longrightarrow> HasPrefix (ps ! i) c) ps)"

text \<open>One step: all candidates are strict prefixes of a path; the place before its own decides.\<close>

lemma predecessor_step:
  fixes new :: sdf_path
  assumes "sorted_wrt (<) ps" "list_all (\<lambda>p. \<not> IsEmpty p) ps" "hi \<le> length ps"
    and cand: "\<forall>c \<in> set ps. cand c \<longrightarrow> c \<in> set (take hi ps) \<and> HasPrefix new c \<and> c \<noteq> new"
  defines "i \<equiv> std_lower_bound (<) (take hi ps) new"
  shows "i = 0 \<Longrightarrow> list_all (\<lambda>c. \<not> cand c) ps"
    and "i > 0 \<Longrightarrow> i \<le> hi \<and> ps ! (i - 1) < new
      \<and> (\<forall>c \<in> set ps. cand c \<longrightarrow> HasPrefix (ps ! (i - 1)) c \<and> c \<in> set (take i ps))"
proof -
  let ?xs = "take hi ps"
  have sorted: "sorted_wrt (<) ?xs" using assms(1) by (rule sorted_wrt_take)
  have valid: "\<forall>e \<in> set ?xs. \<not> IsEmpty e" using assms(2) by (auto simp: list_all_iff dest: in_set_takeD)
  have i: "i = length (takeWhile (\<lambda>e. e < new) ?xs)"
    unfolding i_def by (rule lower_bound_sorted_paths [OF sorted])
  have le: "i \<le> hi" using length_takeWhile_le [of "\<lambda>e. e < new" ?xs] unfolding i by simp
  have pred: "i > 0" "HasPrefix (?xs ! (i - 1)) c" "c \<in> set (take i ?xs)" if "c \<in> set ps" "cand c" for c
  proof -
    from cand that have c: "c \<in> set ?xs" "HasPrefix new c" "c \<noteq> new" by blast+
    show "i > 0" "HasPrefix (?xs ! (i - 1)) c" "c \<in> set (take i ?xs)"
      using paths.prefix_of_predecessor(1-3) [OF sorted valid c] unfolding i by blast+
  qed
  show "i = 0 \<Longrightarrow> list_all (\<lambda>c. \<not> cand c) ps" using pred(1) by (auto simp: list_all_iff)
  assume pos: "i > 0"
  have at: "?xs ! (i - 1) = ps ! (i - 1)" "take i ?xs = take i ps"
    using pos le by (simp_all add: min_absorb1)
  have "?xs ! (i - 1) = takeWhile (\<lambda>e. e < new) ?xs ! (i - 1)"
    using pos unfolding i by (intro takeWhile_nth [symmetric]) simp
  moreover have "takeWhile (\<lambda>e. e < new) ?xs ! (i - 1) \<in> set (takeWhile (\<lambda>e. e < new) ?xs)"
    using pos unfolding i by (intro nth_mem) simp
  ultimately have "ps ! (i - 1) < new" unfolding at by (metis set_takeWhileD)
  with pred le show "i \<le> hi \<and> ps ! (i - 1) < new
      \<and> (\<forall>c \<in> set ps. cand c \<longrightarrow> HasPrefix (ps ! (i - 1)) c \<and> c \<in> set (take i ps))"
    unfolding at by blast
qed

lemma candidate_found:
  assumes "list_all (\<lambda>p. \<not> IsEmpty p) ps" "j < length ps" "cand (ps ! j)"
    and "\<forall>c \<in> set ps. cand c \<longrightarrow> HasPrefix (ps ! j) c"
  shows "longest_prefix_found ps cand (Some j)"
  using assms by (simp add: longest_prefix_found_def list_all_iff)

lemma GetCommonPrefix_rooted:
  assumes "path_root p \<noteq> NullRoot" "path_root q \<noteq> NullRoot"
  shows "path_root (GetCommonPrefix p q) \<noteq> NullRoot \<or> GetCommonPrefix p q = EmptyPath"
proof (cases "path_root p = path_root q")
  case True
  then show ?thesis using assms rooted_not_empty [OF assms(2)]
    by (simp add: GetCommonPrefix_def Let_def to_depth_take common_prim_walk_same path_of_handle_def)
next
  case False
  then show ?thesis using assms rooted_not_empty [OF assms(2)]
    by (simp add: GetCommonPrefix_def Let_def to_depth_take common_prim_walk_other path_of_handle_def
        prim_handle_def null_prim_handle_def EmptyPath_def)
qed

lemma not_less_empty: "path_root e \<noteq> NullRoot \<Longrightarrow> \<not> e < EmptyPath"
  by (cases e; cases "path_root e")
    (auto simp: less_sdf_path_inst less_sdf_path_lex path_queries less_path_root_inst root_rank_def)

text \<open>The loop keeps: the prefixes of \<open>newPath\<close> are prefixes of the path, and all candidates are
  among them and before the end of the range.\<close>

definition loop_invariant :: "sdf_path list \<Rightarrow> sdf_path \<Rightarrow> bool \<Rightarrow> sdf_path \<Rightarrow> nat \<Rightarrow> bool" where
  "loop_invariant ps path strict new hi \<longleftrightarrow>
     (path_root new \<noteq> NullRoot \<or> new = EmptyPath) \<and> hi \<le> length ps \<and> \<not> HasPrefix new path \<and>
     (\<forall>c. HasPrefix new c \<longrightarrow> HasPrefix path c) \<and>
     (\<forall>c \<in> set ps. prefix_candidate path strict c \<longrightarrow> c \<in> set (take hi ps) \<and> HasPrefix new c)"

lemma loop_invariant_candidate:
  "loop_invariant ps path strict new hi \<Longrightarrow> HasPrefix new c \<Longrightarrow> prefix_candidate path strict c"
  unfolding loop_invariant_def prefix_candidate_def by metis

lemma loop_invariant_common:
  assumes inv: "loop_invariant ps path strict new hi"
    and e: "path_root (ps ! (i - 1)) \<noteq> NullRoot" "ps ! (i - 1) < new" "0 < i" "i \<le> hi"
    and not: "\<not> HasPrefix new (ps ! (i - 1))"
    and cand: "\<forall>c \<in> set ps. prefix_candidate path strict c \<longrightarrow>
      HasPrefix (ps ! (i - 1)) c \<and> c \<in> set (take i ps)"
  shows "loop_invariant ps path strict (GetCommonPrefix new (ps ! (i - 1))) (i - 1)"
proof -
  let ?e = "ps ! (i - 1)"
  have new: "path_root new \<noteq> NullRoot"
    using inv not_less_empty [OF e(1)] e(2) unfolding loop_invariant_def by blast
  note common = GetCommonPrefix_greatest_aux [OF new e(1)]
  have len: "i - 1 < length ps" using e(3,4) inv unfolding loop_invariant_def by linarith
  have "take i ps = take (i - 1) ps @ [?e]"
    using take_Suc_conv_app_nth [OF len] e(3) by simp
  then have "c \<in> set (take (i - 1) ps)" if "c \<in> set (take i ps)" "c \<noteq> ?e" for c
    using that by auto
  with cand not inv have "\<forall>c \<in> set ps. prefix_candidate path strict c \<longrightarrow>
      c \<in> set (take (i - 1) ps) \<and> HasPrefix (GetCommonPrefix new ?e) c"
    unfolding common loop_invariant_def by metis
  with inv GetCommonPrefix_rooted [OF new e(1)] len show ?thesis
    unfolding loop_invariant_def common by auto
qed

lemma longest_prefix_loop_found:
  assumes sorted: "sorted_wrt (<) ps"
    and rooted: "list_all (\<lambda>p. path_root p \<noteq> NullRoot) ps"
    and "loop_invariant ps path strict new hi"
  shows "longest_prefix_found ps (prefix_candidate path strict) (longest_prefix_loop ps new hi)"
  using assms(3)
proof (induction hi arbitrary: new rule: less_induct)
  case (less hi)
  note inv = less.prems
  let ?cand = "prefix_candidate path strict"
  let ?i = "std_lower_bound (<) (take hi ps) new"
  have valid: "list_all (\<lambda>p. \<not> IsEmpty p) ps"
    using rooted rooted_not_empty by (auto simp: list_all_iff)
  have hi: "hi \<le> length ps" using inv by (simp add: loop_invariant_def)
  show ?case
  proof (cases "?i < hi \<and> ps ! ?i = new")
    case True
    then have "new \<in> set ps" using hi by (metis nth_mem order_less_le_trans)
    then have "HasPrefix new new" using valid paths.prefix_refl by (simp add: list_all_iff)
    then have "longest_prefix_found ps ?cand (Some ?i)"
      using inv True hi loop_invariant_candidate [OF inv] valid
      by (intro candidate_found) (auto simp: loop_invariant_def)
    with True show ?thesis by (subst longest_prefix_loop.simps) (simp add: Let_def)
  next
    case False
    have "c \<noteq> new" if "c \<in> set (take hi ps)" for c
    proof
      assume "c = new"
      with that paths.lower_bound_found [OF sorted_wrt_take [OF sorted], of new hi] hi
      have "?i < hi" "take hi ps ! ?i = new"
        by (simp_all add: lower_bound_sorted_paths [OF sorted_wrt_take [OF sorted]])
      with False show False by (simp only: nth_take) blast
    qed
    then have "\<forall>c \<in> set ps. ?cand c \<longrightarrow> c \<in> set (take hi ps) \<and> HasPrefix new c \<and> c \<noteq> new"
      using inv unfolding loop_invariant_def by blast
    note step = predecessor_step [OF sorted valid hi this]
    show ?thesis
    proof (cases "?i = 0")
      case True
      with step(1) False show ?thesis
        by (subst longest_prefix_loop.simps) (auto simp: Let_def longest_prefix_found_def)
    next
      case pos: False
      let ?e = "ps ! (?i - 1)"
      from pos have e: "?i \<le> hi" "?e < new"
        "\<forall>c \<in> set ps. ?cand c \<longrightarrow> HasPrefix ?e c \<and> c \<in> set (take ?i ps)" using step(2) by blast+
      have in_ps: "?i - 1 < length ps" using e(1) hi pos by linarith
      show ?thesis
      proof (cases "HasPrefix new ?e")
        case True
        then have "longest_prefix_found ps ?cand (Some (?i - 1))"
          using e(3) in_ps loop_invariant_candidate [OF inv True] valid by (intro candidate_found) auto
        with True False pos show ?thesis by (subst longest_prefix_loop.simps) (auto simp: Let_def)
      next
        case not: False
        have "path_root ?e \<noteq> NullRoot" using rooted in_ps by (simp add: list_all_length)
        then have "loop_invariant ps path strict (GetCommonPrefix new ?e) (?i - 1)"
          using e pos not by (intro loop_invariant_common [OF inv]) simp_all
        moreover have "?i - 1 < hi" using e(1) pos by linarith
        ultimately have "longest_prefix_found ps ?cand (longest_prefix_loop ps (GetCommonPrefix new ?e) (?i - 1))"
          by (intro less.IH)
        with not False pos show ?thesis by (subst longest_prefix_loop.simps) (auto simp: Let_def)
      qed
    qed
  qed
qed

lemma loop_invariant_first:
  assumes "path_root path \<noteq> NullRoot" "path_root (ps ! (i - 1)) \<noteq> NullRoot"
    and "0 < i" "i \<le> length ps" "ps ! (i - 1) < path" "\<not> HasPrefix path (ps ! (i - 1))"
    and "\<forall>c \<in> set ps. prefix_candidate path strict c \<longrightarrow>
      HasPrefix (ps ! (i - 1)) c \<and> c \<in> set (take i ps)"
  shows "loop_invariant ps path strict (GetCommonPrefix path (ps ! (i - 1))) (i - 1)"
proof -
  let ?e = "ps ! (i - 1)"
  note common = GetCommonPrefix_greatest_aux [OF assms(1,2)]
  have len: "i - 1 < length ps" using assms(3,4) by linarith
  have "\<not> HasPrefix ?e path" using assms(5) paths.less_not_prefix by blast
  moreover have "c \<in> set (take (i - 1) ps)" if "c \<in> set (take i ps)" "c \<noteq> ?e" for c
    using that take_Suc_conv_app_nth [OF len] assms(3) by auto
  ultimately show ?thesis
    using assms(6,7) len GetCommonPrefix_rooted [OF assms(1,2)]
    unfolding loop_invariant_def common prefix_candidate_def by fastforce
qed

lemma FindLongestPrefix_found:
  assumes sorted: "sorted_wrt (<) ps" and rooted: "list_all (\<lambda>p. path_root p \<noteq> NullRoot) ps"
    and path: "path_root path \<noteq> NullRoot"
  shows "longest_prefix_found ps (\<lambda>c. HasPrefix path c \<and> (strict \<longrightarrow> c \<noteq> path))
    (FindLongestPrefixImpl ps path strict)"
proof -
  let ?cand = "prefix_candidate path strict" and ?i = "std_lower_bound (<) ps path"
  have valid: "list_all (\<lambda>p. \<not> IsEmpty p) ps"
    using rooted rooted_not_empty by (auto simp: list_all_iff)
  have self: "HasPrefix path path" by (rule paths.prefix_refl [OF rooted_not_empty [OF path]])
  have "longest_prefix_found ps ?cand (FindLongestPrefixImpl ps path strict)"
  proof (cases "ps = [] \<or> \<not> strict \<and> ?i < length ps \<and> ps ! ?i = path")
    case True
    then show ?thesis using self
      by (auto simp: FindLongestPrefixImpl_def Let_def longest_prefix_found_def prefix_candidate_def list_all_iff)
  next
    case False
    have "c \<noteq> path" if "c \<in> set ps" "?cand c" for c
      using that False paths.lower_bound_found [OF sorted, of path]
      by (auto simp: prefix_candidate_def lower_bound_sorted_paths [OF sorted])
    then have "\<forall>c \<in> set ps. ?cand c \<longrightarrow> c \<in> set (take (length ps) ps) \<and> HasPrefix path c \<and> c \<noteq> path"
      unfolding take_all [OF order_refl] prefix_candidate_def by blast
    note step = predecessor_step [OF sorted valid order_refl this, unfolded take_all [OF order_refl]]
    show ?thesis
    proof (cases "?i = 0")
      case True
      with step(1) False show ?thesis
        by (auto simp: FindLongestPrefixImpl_def Let_def longest_prefix_found_def)
    next
      case pos: False
      let ?e = "ps ! (?i - 1)"
      from pos have e: "?i \<le> length ps" "?e < path"
        "\<forall>c \<in> set ps. ?cand c \<longrightarrow> HasPrefix ?e c \<and> c \<in> set (take ?i ps)" using step(2) by blast+
      have in_ps: "?i - 1 < length ps" using e(1) pos by linarith
      have root_e: "path_root ?e \<noteq> NullRoot" using rooted in_ps by (simp add: list_all_length)
      have "longest_prefix_found ps ?cand (if HasPrefix path ?e then Some (?i - 1)
          else longest_prefix_loop ps (GetCommonPrefix path ?e) (?i - 1))"
      proof (cases "HasPrefix path ?e")
        case True
        then have "?cand ?e" using e(2) by (auto simp: prefix_candidate_def)
        then show ?thesis using True e(3) in_ps valid by (simp add: candidate_found)
      next
        case not: False
        have "loop_invariant ps path strict (GetCommonPrefix path ?e) (?i - 1)"
          using not e pos by (intro loop_invariant_first [OF path root_e]) simp_all
        from longest_prefix_loop_found [OF sorted rooted this] not show ?thesis by simp
      qed
      with False pos show ?thesis by (auto simp: FindLongestPrefixImpl_def Let_def)
    qed
  qed
  then show ?thesis by (simp add: prefix_candidate_def [abs_def])
qed

text \<open>C25: The search of a sorted range for the longest prefix of a path, strict or not, finds it exactly if
  there is one.\<close>

theorem FindLongestPrefix_longest:
  assumes sorted: "sorted_wrt (<) ps" and rooted: "list_all (\<lambda>p. path_root p \<noteq> NullRoot) ps"
    and path: "path_root path \<noteq> NullRoot"
  shows "longest_prefix_found ps (\<lambda>c. HasPrefix path c \<and> (strict \<longrightarrow> c \<noteq> path))
    (FindLongestPrefixImpl ps path strict)"
  using FindLongestPrefix_found [OF assms] .

section \<open>Common suffixes\<close>

lemma suffix_walk_suffix:
  "suffix_walk k ns1 ns2 = (us, vs) \<Longrightarrow>
   (\<exists>s. ns1 = us @ s \<and> ns2 = vs @ s) \<and> (length us \<le> k \<or> length vs \<le> k \<or> last us \<noteq> last vs)"
proof (induction k ns1 ns2 arbitrary: us vs rule: suffix_walk.induct)
  case (1 k ns1 ns2)
  show ?case
  proof (cases "length ns1 > k \<and> length ns2 > k \<and> last ns1 = last ns2")
    case True
    with "1.prems" have walk: "suffix_walk k (butlast ns1) (butlast ns2) = (us, vs)"
      by (subst (asm) suffix_walk.simps) simp
    from "1.IH" [OF True walk] obtain s where s: "butlast ns1 = us @ s" "butlast ns2 = vs @ s"
      "length us \<le> k \<or> length vs \<le> k \<or> last us \<noteq> last vs" by blast
    have "ns1 \<noteq> []" "ns2 \<noteq> []" using True by auto
    then have "ns1 = us @ (s @ [last ns1])" "ns2 = vs @ (s @ [last ns1])"
      using s True by (metis append_assoc append_butlast_last_id)+
    with s(3) show ?thesis by blast
  next
    case False
    with "1.prems" have "us = ns1" "vs = ns2" by (subst (asm) suffix_walk.simps, simp)+
    with False show ?thesis by auto
  qed
qed

text \<open>Where the removal stops: at different nodes, or at the end of one of the paths.\<close>

definition suffix_stop :: "bool \<Rightarrow> sdf_path \<Rightarrow> sdf_path \<Rightarrow> bool" where
  "suffix_stop stopAtRootPrim p q =
     (if prop_part p \<noteq> [] \<or> prop_part q \<noteq> []
      then prop_part p = [] \<or> prop_part q = [] \<or> last (prop_part p) \<noteq> last (prop_part q)
      else let k = (if stopAtRootPrim then 1 else 0) in
        length (prim_part p) \<le> k \<or> length (prim_part q) \<le> k
        \<or> last (prim_part p) \<noteq> last (prim_part q))"

text \<open>Removing the common suffix of two paths takes the same nodes off both, property nodes before
  prim nodes, and as many as possible.\<close>

theorem RemoveCommonSuffix_suffix:
  assumes "\<not> IsEmpty p" "\<not> IsEmpty q" "prop_part p = [] \<longleftrightarrow> prop_part q = []"
    and "RemoveCommonSuffix p q stop = (p', q')"
  shows "path_root p' = path_root p \<and> path_root q' = path_root q
    \<and> (\<exists>s. prop_part p = prop_part p' @ s \<and> prop_part q = prop_part q' @ s)
    \<and> (\<exists>s. prim_part p = prim_part p' @ s \<and> prim_part q = prim_part q' @ s
         \<and> (s \<noteq> [] \<longrightarrow> prop_part p' = [] \<and> prop_part q' = []))
    \<and> suffix_stop stop p' q'"
proof -
  obtain ps qs where props: "suffix_walk 0 (prop_part p) (prop_part q) = (ps, qs)" by fastforce
  obtain ns ms where prims: "suffix_walk 1 (prim_part p) (prim_part q) = (ns, ms)" by fastforce
  note walks = suffix_walk_suffix [OF props] suffix_walk_suffix [OF prims]
  consider (props) "ps \<noteq> [] \<or> qs \<noteq> []" | (prims) "ps = []" "qs = []" "length ns > 1 \<and> length ms > 1"
    | (up) "ps = []" "qs = []" "\<not> (length ns > 1 \<and> length ms > 1)"
        "\<not> stop \<and> length ns \<ge> 1 \<and> length ms \<ge> 1 \<and> last ns = last ms"
    | (roots) "ps = []" "qs = []" "\<not> (length ns > 1 \<and> length ms > 1)"
        "\<not> (\<not> stop \<and> length ns \<ge> 1 \<and> length ms \<ge> 1 \<and> last ns = last ms)" by blast
  then show ?thesis
  proof cases
    case props
    then have "p' = SdfPath (path_root p) (prim_part p) ps" "q' = SdfPath (path_root q) (prim_part q) qs"
      using assms \<open>suffix_walk 0 _ _ = _\<close> by (auto simp: RemoveCommonSuffix_def)
    with walks(1) props show ?thesis by (auto simp: suffix_stop_def)
  next
    case prims
    then have "p' = SdfPath (path_root p) ns []" "q' = SdfPath (path_root q) ms []"
      using assms props \<open>suffix_walk 1 _ _ = _\<close> by (auto simp: RemoveCommonSuffix_def)
    with walks prims show ?thesis by (auto simp: suffix_stop_def Let_def)
  next
    case up
    then have eq: "p' = SdfPath (path_root p) (butlast ns) []" "q' = SdfPath (path_root q) (butlast ms) []"
      using assms props prims by (auto simp: RemoveCommonSuffix_def Let_def)
    obtain s where s: "prim_part p = ns @ s" "prim_part q = ms @ s" using walks(2) by blast
    have "ns \<noteq> []" "ms \<noteq> []" using up(4) by auto
    then have "ns = butlast ns @ [last ns]" "ms = butlast ms @ [last ns]"
      using up(4) by (metis append_butlast_last_id)+
    then have "prim_part p = butlast ns @ last ns # s" "prim_part q = butlast ms @ last ns # s"
      using s by (metis append.assoc append_Cons append_Nil)+
    moreover have "length (butlast ns) = 0 \<or> length (butlast ms) = 0" using up(3) by auto
    ultimately show ?thesis using walks(1) up(1,2,4) eq
      by (auto simp: suffix_stop_def Let_def)
  next
    case roots
    then have "p' = SdfPath (path_root p) ns []" "q' = SdfPath (path_root q) ms []"
      using assms props prims by (auto simp: RemoveCommonSuffix_def Let_def)
    moreover have "stop \<or> ns = [] \<or> ms = [] \<or> last ns \<noteq> last ms" using roots(4)
      by (cases ns; cases ms) auto
    ultimately show ?thesis using walks roots(1-3) by (auto simp: suffix_stop_def Let_def)
  qed
qed

section \<open>Instances\<close>

definition abs_prim :: "token list \<Rightarrow> sdf_path" where
  "abs_prim names = SdfPath AbsoluteRoot (map PrimNode names) []"

lemma GetCommonPrefix_greatest_witness:
  "HasPrefix (GetCommonPrefix (abs_prim [''A'', ''B'']) (abs_prim [''A'', ''C''])) (abs_prim [''A''])"
  by (subst GetCommonPrefix_greatest)
    (simp_all add: abs_prim_def HasPrefix_iff path_queries)

definition example_paths :: "sdf_path list" where
  "example_paths = [abs_prim [''A''], abs_prim [''A'', ''B''], abs_prim [''A'', ''B'', ''C''], abs_prim [''C'']]"

lemma example_paths_ok:
  "sorted_wrt (<) example_paths" "list_all (\<lambda>p. \<not> IsEmpty p) example_paths"
  "list_all (\<lambda>p. path_root p \<noteq> NullRoot) example_paths"
  by (simp_all add: example_paths_def abs_prim_def less_path_lex path_queries less_prim_node_inst)

lemma FindPrefixedRange_filter_witness:
  "case FindPrefixedRange example_paths (abs_prim [''A'']) of (first, second) \<Rightarrow>
     take (second - first) (drop first example_paths)
     = [abs_prim [''A''], abs_prim [''A'', ''B''], abs_prim [''A'', ''B'', ''C'']]"
proof -
  obtain first second where range: "FindPrefixedRange example_paths (abs_prim [''A'']) = (first, second)"
    by fastforce
  have "\<not> IsEmpty (abs_prim [''A''])" by (simp add: abs_prim_def path_queries)
  from FindPrefixedRange_filter [OF example_paths_ok(1,2) this range] show ?thesis
    by (simp add: range) (simp add: example_paths_def abs_prim_def HasPrefix_iff path_queries)
qed

lemma FindLongestPrefix_longest_witness:
  "longest_prefix_found example_paths (\<lambda>c. HasPrefix (abs_prim [''A'', ''B'', ''D'']) c
      \<and> (True \<longrightarrow> c \<noteq> abs_prim [''A'', ''B'', ''D'']))
    (FindLongestPrefixImpl example_paths (abs_prim [''A'', ''B'', ''D'']) True)"
  by (rule FindLongestPrefix_longest [OF example_paths_ok(1,3)]) (simp add: abs_prim_def)

lemma RemoveCommonSuffix_suffix_witness:
  "case RemoveCommonSuffix (abs_prim [''A'', ''B'', ''X'']) (abs_prim [''C'', ''X'']) False of (p', q') \<Rightarrow>
     suffix_stop False p' q'"
proof -
  obtain p' q' where r: "RemoveCommonSuffix (abs_prim [''A'', ''B'', ''X'']) (abs_prim [''C'', ''X'']) False = (p', q')"
    by fastforce
  have "\<not> IsEmpty (abs_prim [''A'', ''B'', ''X''])" "\<not> IsEmpty (abs_prim [''C'', ''X''])"
    "prop_part (abs_prim [''A'', ''B'', ''X'']) = [] \<longleftrightarrow> prop_part (abs_prim [''C'', ''X'']) = []"
    by (simp_all add: abs_prim_def path_queries)
  from RemoveCommonSuffix_suffix [OF this r] show ?thesis by (simp add: r)
qed

end
