(* ===== verification/Sdf_PathRelative.thy ===== *)
theory Sdf_PathRelative
  imports Sdf_PathValid Sdf_PathSearch
begin

text \<open>
  Replacing target paths, and the conversions between absolute and relative paths
  (\<open>pxr/usd/sdf/path.cpp\<close>).
\<close>

section \<open>Absolute and relative paths\<close>

function ReplaceTargetPath :: "path_env \<Rightarrow> sdf_path \<Rightarrow> sdf_path \<Rightarrow> sdf_path" where
  "ReplaceTargetPath env p newTargetPath =
     (if IsEmpty p then EmptyPath
      else if newTargetPath = EmptyPath then EmptyPath
      else if prop_part p = [] then p
      else
        case last (prop_part p) of
          TargetNode _ \<Rightarrow> AppendTarget env (GetParentPath p) newTargetPath
        | RelationalAttributeNode name \<Rightarrow>
            AppendRelationalAttribute env (ReplaceTargetPath env (GetParentPath p) newTargetPath) name
        | MapperNode _ \<Rightarrow> AppendMapper env (GetParentPath p) newTargetPath
        | MapperArgNode name \<Rightarrow>
            AppendMapperArg env (ReplaceTargetPath env (GetParentPath p) newTargetPath) name
        | ExpressionNode \<Rightarrow> AppendExpression env (ReplaceTargetPath env (GetParentPath p) newTargetPath)
        | PrimPropertyNode _ \<Rightarrow> p)"
  by pat_completeness auto
termination
  by (relation "measure (\<lambda>(env, p, t). length (prop_part p))") (auto simp: GetParentPath_def)

declare ReplaceTargetPath.simps [simp del]

definition is_anchor :: "sdf_path \<Rightarrow> bool" where
  "is_anchor anchor \<longleftrightarrow> anchor \<noteq> EmptyPath \<and> IsAbsolutePath anchor
     \<and> (IsAbsoluteRootOrPrimPath anchor \<or> IsPrimVariantSelectionPath anchor)"

text \<open>The loop that appends the nodes of a relative path to the anchor.\<close>

fun append_to_anchor :: "path_env \<Rightarrow> sdf_path \<Rightarrow> prim_node list \<Rightarrow> sdf_path" where
  "append_to_anchor env result [] = result"
| "append_to_anchor env result (n # ns) =
     (let result = AppendPrimNode env result n in
      if IsEmpty result then result else append_to_anchor env result ns)"

lemma next_target_walk_prefix: "prefix (next_target_walk ns) ns"
proof (induction ns rule: next_target_walk.induct)
  case (1 ns)
  then show ?case
    by (subst next_target_walk.simps) (auto intro: prefix_order.trans prefixeq_butlast)
qed

lemma target_path_size:
  assumes "\<not> IsEmpty (GetTargetPath (SdfPath r ns ps))"
  shows "size (GetTargetPath (SdfPath r ns ps)) < Suc (size_list size ps)"
proof -
  let ?t = "GetNextTargetNode ps"
  have t: "ps \<noteq> []" "?t \<noteq> []" "GetTargetPath (SdfPath r ns ps) = node_target_path (last ?t)"
    using assms by (auto simp: GetTargetPath_def Let_def IsEmpty_def EmptyPath_def prim_handle_def
        null_prim_handle_def split: if_splits)
  then have "last ?t \<in> set ps"
    using next_target_walk_prefix [of ps]
    by (auto simp: GetNextTargetNode_def split: if_splits) (metis last_in_set set_mono_prefix subsetD)
  moreover have "is_target_or_mapper (last ?t)"
    using assms t(3) by (cases "last ?t")
      (auto simp: IsEmpty_def EmptyPath_def prim_handle_def null_prim_handle_def)
  ultimately show ?thesis unfolding t(3) by (rule node_target_size)
qed

function MakeAbsolutePath :: "path_env \<Rightarrow> sdf_path \<Rightarrow> sdf_path \<Rightarrow> sdf_path" where
  "MakeAbsolutePath env (SdfPath r ns ps) anchor =
     (if \<not> is_anchor anchor then EmptyPath
      else if IsEmpty (SdfPath r ns ps) then EmptyPath
      else
        let result = (if \<not> IsAbsolutePath (SdfPath r ns ps) then append_to_anchor env anchor ns
                      else SdfPath r ns ps)
        in if IsEmpty result then result
           else
             let result = SdfPath (path_root result) (prim_part result) ps;
                 targetPath = GetTargetPath (SdfPath r ns ps)
             in if \<not> IsEmpty targetPath
                then ReplaceTargetPath env result
                  (MakeAbsolutePath env targetPath (GetPrimPath result))
                else result)"
  by pat_completeness auto
termination
  by (relation "measure (\<lambda>(env, p, a). size p)") (auto dest!: target_path_size)

declare MakeAbsolutePath.simps [simp del]

text \<open>The walk of \<open>MakeRelativePath\<close>, over the anchor at the same depth as the path: the
  number of nodes of the anchor and the nodes of the path outside the common part.\<close>

function relative_walk :: "prim_node list \<Rightarrow> prim_node list \<Rightarrow> nat \<Rightarrow> prim_node list \<Rightarrow> nat \<times> prim_node list" where
  "relative_walk this anchor dotdots relNodes =
     (if this = anchor \<or> this = [] then (dotdots, relNodes)
      else relative_walk (butlast this) (butlast anchor) (dotdots + 1) (last this # relNodes))"
  by pat_completeness auto
termination
  by (relation "measure (\<lambda>(this, anchor, d, ns). length this)")
    (auto simp: length_greater_0_conv [symmetric] simp del: length_greater_0_conv)

declare relative_walk.simps [simp del]

text \<open>For a path that is absolute, as its anchor is.\<close>

definition relative_to :: "path_env \<Rightarrow> sdf_path \<Rightarrow> sdf_path \<Rightarrow> sdf_path" where
  "relative_to env p anchor =
     (let thisCount = length (prim_part p);
          anchorCount = length (prim_part anchor);
          (dotdotCount, relNodes) =
            relative_walk (to_depth anchorCount (prim_part p)) (to_depth thisCount (prim_part anchor))
              (anchorCount - thisCount) (drop anchorCount (prim_part p));
          result = (GetParentPath ^^ dotdotCount) ReflexiveRelativePath;
          result = foldl (AppendPrimNode env) result relNodes
      in SdfPath (path_root result) (prim_part result) (prop_part p))"

text \<open>A relative path is made absolute first; the recursive call finds its guards satisfied,
  or an empty path.\<close>

definition MakeRelativePath :: "path_env \<Rightarrow> sdf_path \<Rightarrow> sdf_path \<Rightarrow> sdf_path" where
  "MakeRelativePath env p anchor =
     (if \<not> is_anchor anchor then EmptyPath
      else if IsEmpty p then EmptyPath
      else if \<not> IsAbsolutePath p then
        let absPath = MakeAbsolutePath env p anchor in
        if IsEmpty absPath then EmptyPath else relative_to env absPath anchor
      else relative_to env p anchor)"

section \<open>Relative paths\<close>

text \<open>The walk ends at the longest common part.\<close>

lemma relative_walk_common:
  assumes "length this = length anchor"
  shows "\<exists>c \<le> length this. take c this = take c anchor \<and> (c < length this \<longrightarrow> this ! c \<noteq> anchor ! c)
    \<and> relative_walk this anchor d ns = (d + (length this - c), drop c this @ ns)"
  using assms
proof (induction this anchor d ns rule: relative_walk.induct)
  case (1 this anchor d ns)
  show ?case
  proof (cases "this = anchor \<or> this = []")
    case True
    then show ?thesis using "1.prems" by (subst relative_walk.simps) (auto intro!: exI [of _ "length this"])
  next
    case False
    then obtain xs x ys y where xy: "this = xs @ [x]" "anchor = ys @ [y]"
      using "1.prems" by (cases this rule: rev_cases; cases anchor rule: rev_cases) auto
    then have len: "length xs = length ys" using "1.prems" by simp
    obtain c where c: "c \<le> length xs" "take c xs = take c ys" "c < length xs \<longrightarrow> xs ! c \<noteq> ys ! c"
      "relative_walk xs ys (d + 1) (x # ns) = (d + 1 + (length xs - c), drop c xs @ x # ns)"
      using "1.IH" [OF False] len xy by auto
    have "this ! c \<noteq> anchor ! c" if "c < length this"
      using that c(1-3) False xy len by (cases "c = length xs") (auto simp: nth_append)
    then show ?thesis using c xy len False
      by (subst relative_walk.simps) (auto intro!: exI [of _ c])
  qed
qed

lemma GetParentPaths_relative:
  "(GetParentPath ^^ k) ReflexiveRelativePath = SdfPath RelativeRoot (replicate k (PrimNode parentPathElement)) []"
  by (induction k)
    (auto simp: ReflexiveRelativePath_def GetParentPath_def IsEmpty_def prim_handle_def null_prim_handle_def
      prim_handle_name_def replicate_append_same)

lemma GetParentPaths_absolute:
  "k \<le> length ns \<Longrightarrow> (GetParentPath ^^ k) (SdfPath AbsoluteRoot ns []) =
     SdfPath AbsoluteRoot (take (length ns - k) ns) []"
proof (induction k)
  case (Suc k)
  then have "take (length ns - k) ns \<noteq> []" by auto
  with Suc show ?case
    by (simp add: GetParentPath_def IsEmpty_def prim_handle_def null_prim_handle_def path_of_handle_def
        butlast_take)
qed simp

lemma foldl_AppendPrimNode:
  assumes "prims_ok env r (ns @ ms)" "PrimNode parentPathElement \<notin> set ms"
  shows "foldl (AppendPrimNode env) (SdfPath r ns []) ms = SdfPath r (ns @ ms) []"
  using assms
proof (induction ms arbitrary: ns)
  case (Cons m ms)
  then have "prims_ok env r (ns @ [m])" using prims_ok_prefix [of env r "ns @ [m]" ms] by simp
  with Cons AppendPrimNode_ok [of env r ns m] show ?case by auto
qed simp

lemma prims_ok_relative:
  assumes "prims_ok env AbsoluteRoot ns"
  shows "prims_ok env RelativeRoot (replicate k (PrimNode parentPathElement) @ drop c ns)"
    and "PrimNode parentPathElement \<notin> set (drop c ns)"
proof -
  have ok: "list_all (prim_node_ok env) (drop c ns)"
    using assms by (auto simp: prims_ok_def list_all_iff dest: in_set_dropD)
  then show "PrimNode parentPathElement \<notin> set (drop c ns)" by (auto simp: list_all_iff)
  then have "dropWhile (\<lambda>n. n = PrimNode parentPathElement) (drop c ns) = drop c ns"
    by (cases "drop c ns") auto
  with ok show "prims_ok env RelativeRoot (replicate k (PrimNode parentPathElement) @ drop c ns)"
    by (simp add: prims_ok_def dropWhile_append)
qed

text \<open>The relative path climbs from the anchor to the longest common part.\<close>

lemma relative_to_form:
  assumes "prims_ok env AbsoluteRoot (prim_part p)"
  shows "\<exists>c. c \<le> length (prim_part p) \<and> c \<le> length (prim_part anchor)
    \<and> take c (prim_part p) = take c (prim_part anchor)
    \<and> (c < length (prim_part p) \<longrightarrow> c < length (prim_part anchor) \<longrightarrow> prim_part p ! c \<noteq> prim_part anchor ! c)
    \<and> relative_to env p anchor = SdfPath RelativeRoot
        (replicate (length (prim_part anchor) - c) (PrimNode parentPathElement) @ drop c (prim_part p)) (prop_part p)"
proof -
  let ?ns = "prim_part p" and ?as = "prim_part anchor"
  let ?xs = "take (length ?as) ?ns" and ?ys = "take (length ?ns) ?as"
  have len: "length ?xs = length ?ys" by simp
  obtain c where c: "c \<le> length ?xs" "take c ?xs = take c ?ys" "c < length ?xs \<longrightarrow> ?xs ! c \<noteq> ?ys ! c"
    "relative_walk ?xs ?ys (length ?as - length ?ns) (drop (length ?as) ?ns) =
      (length ?as - length ?ns + (length ?xs - c), drop c ?xs @ drop (length ?as) ?ns)"
    using relative_walk_common [OF len, of "length ?as - length ?ns" "drop (length ?as) ?ns"] by blast
  have dots: "length ?as - length ?ns + (length ?xs - c) = length ?as - c" using c(1) by auto
  then have "length ?as - length ?ns + (min (length ?ns) (length ?as) - c) = length ?as - c" by (simp add: min.commute)
  note dots = dots this
  have "drop c (?xs @ drop (length ?as) ?ns) = drop c ?xs @ drop (length ?as) ?ns"
    using c(1) by (simp only: drop_append) simp
  then have rest: "drop c ?xs @ drop (length ?as) ?ns = drop c ?ns" by simp
  have "relative_to env p anchor = SdfPath RelativeRoot
      (replicate (length ?as - c) (PrimNode parentPathElement) @ drop c ?ns) (prop_part p)"
    using prims_ok_relative(1) [OF assms, of "length ?as - c" c] prims_ok_relative(2) [OF assms, of c]
    by (simp add: relative_to_def Let_def to_depth_take c(4) dots rest GetParentPaths_relative foldl_AppendPrimNode)
  moreover have "take c ?ns = take c ?as" "c \<le> length ?ns" "c \<le> length ?as"
    using c(1,2) by (auto simp: min_def split: if_splits)
  moreover have "c < length ?ns \<longrightarrow> c < length ?as \<longrightarrow> ?ns ! c \<noteq> ?as ! c" using c(3) by simp
  ultimately show ?thesis by blast
qed

section \<open>Absolute paths\<close>

lemma next_target_walk_snoc:
  "next_target_walk (ps @ [n]) = (if is_target_or_mapper n then ps @ [n] else next_target_walk ps)"
  by (subst next_target_walk.simps) simp

lemma GetTargetPath_snoc:
  "GetTargetPath (SdfPath r ns (ps @ [n])) =
     (if is_target_or_mapper n then node_target_path n else GetTargetPath (SdfPath r ns ps))"
  by (auto simp: GetTargetPath_def GetNextTargetNode_def nodes_ContainsTargetPath_def next_target_walk_snoc Let_def)

text \<open>Replacing the target path by itself.\<close>

lemma ReplaceTargetPath_same:
  assumes "path_ok env (SdfPath r ns ps)" "t \<noteq> EmptyPath"
    and "nodes_ContainsTargetPath ps \<Longrightarrow> t = GetTargetPath (SdfPath r ns ps)"
  shows "ReplaceTargetPath env (SdfPath r ns ps) t = SdfPath r ns ps"
  using assms(1,3)
proof (induction ps rule: rev_induct)
  case Nil
  then show ?case using assms(2) path_ok_rooted [OF Nil.prems(1)]
    by (subst ReplaceTargetPath.simps) (simp add: path_queries)
next
  case (snoc n ps)
  have r: "r \<noteq> NullRoot" using path_ok_rooted [OF snoc.prems(1)] by simp
  then have parent: "GetParentPath (SdfPath r ns (ps @ [n])) = SdfPath r ns ps"
    by (simp add: GetParentPath_def path_queries)
  have upper: "ReplaceTargetPath env (SdfPath r ns ps) t = SdfPath r ns ps" if "\<not> is_target_or_mapper n"
    using snoc that path_ok_props_prefix [OF snoc.prems(1)]
    by (simp add: GetTargetPath_snoc nodes_ContainsTargetPath_def)
  have target: "t = node_target_path n" if "is_target_or_mapper n"
    using snoc.prems(2) that by (simp add: GetTargetPath_snoc nodes_ContainsTargetPath_def)
  show ?case
    using AppendPropNode_ok [OF snoc.prems(1)] parent upper target assms(2) r
    by (subst ReplaceTargetPath.simps) (cases n; simp add: path_queries)
qed

text \<open>Every target along the way, at every depth, is absolute.\<close>

definition targets_absolute :: "sdf_path \<Rightarrow> bool" where
  "targets_absolute p \<longleftrightarrow> list_all IsAbsolutePath (GetAllTargetPathsRecursively p)"

lemma GetTargetPath_node:
  assumes "GetTargetPath (SdfPath r ns ps) \<noteq> EmptyPath"
  shows "\<exists>n \<in> set ps. is_target_or_mapper n \<and> GetTargetPath (SdfPath r ns ps) = node_target_path n"
  using assms
proof (induction ps rule: rev_induct)
  case Nil then show ?case by (simp add: GetTargetPath_def)
next
  case (snoc n ps) then show ?case by (auto simp: GetTargetPath_snoc split: if_splits)
qed

lemma GetPrimPath_anchor:
  assumes "path_ok env (SdfPath AbsoluteRoot ns ps)" "ps \<noteq> []"
  shows "is_anchor (GetPrimPath (SdfPath AbsoluteRoot ns ps))"
proof -
  have ns: "ns \<noteq> []" "\<not> is_variant_selection (hd ns)"
    using assms by (auto simp: path_ok_iff prims_ok_def)
  have "\<exists>ms. ms \<noteq> [] \<and> prim_node_type (last ms) = PrimNodeT \<and>
      nearest_prim (\<lambda>t. t = PrimNodeT) (AbsoluteRoot, ns) = (AbsoluteRoot, ms)"
    using ns
  proof (induction ns rule: rev_induct)
    case (snoc n ns)
    then show ?case
      by (cases "ns = []"; cases n) (auto simp: nearest_prim.simps [of _ _ "_ @ [_]"] nearest_prim.simps [of _ _ "[_]"])
  qed simp
  then show ?thesis
    by (auto simp: GetPrimPath_def is_anchor_def path_of_handle_def path_queries)
qed

lemma targets_absolute_target:
  assumes "targets_absolute (SdfPath r ns ps)" "n \<in> set ps" "is_target_or_mapper n"
  shows "IsAbsolutePath (node_target_path n) \<and> targets_absolute (node_target_path n)"
  using assms by (auto simp: targets_absolute_def list_all_iff)

text \<open>\<open>MakeAbsolutePath\<close> of an absolute path, and of a relative one in terms of it.\<close>

lemma MakeAbsolutePath_absolute:
  fixes ns ps
  defines "p \<equiv> SdfPath AbsoluteRoot ns ps"
  assumes "is_anchor anchor"
  shows "MakeAbsolutePath env p anchor =
    (if IsEmpty (GetTargetPath p) then p
     else ReplaceTargetPath env p (MakeAbsolutePath env (GetTargetPath p) (GetPrimPath p)))"
proof -
  have "\<not> IsEmpty p" "IsAbsolutePath p"
    by (simp_all add: p_def IsAbsolutePath_def IsEmpty_def prim_handle_def null_prim_handle_def)
  then show ?thesis
    unfolding p_def using assms(2) by (subst MakeAbsolutePath.simps) (simp add: Let_def)
qed

lemma MakeAbsolutePath_relative:
  assumes "is_anchor anchor" "append_to_anchor env anchor ms = SdfPath AbsoluteRoot ns []"
  shows "MakeAbsolutePath env (SdfPath RelativeRoot ms ps) anchor = MakeAbsolutePath env (SdfPath AbsoluteRoot ns ps) anchor"
proof -
  have "\<not> IsEmpty (SdfPath RelativeRoot ms ps)" "\<not> IsAbsolutePath (SdfPath RelativeRoot ms ps)"
    "\<not> IsEmpty (SdfPath AbsoluteRoot ns [])"
    by (simp_all add: IsAbsolutePath_def IsEmpty_def prim_handle_def null_prim_handle_def)
  moreover have "GetTargetPath (SdfPath RelativeRoot ms ps) = GetTargetPath (SdfPath AbsoluteRoot ns ps)"
    by (simp add: GetTargetPath_def)
  ultimately show ?thesis
    unfolding MakeAbsolutePath_absolute [OF assms(1)]
    using assms by (subst MakeAbsolutePath.simps) (simp add: Let_def)
qed

lemma absolute_targets_same:
  assumes "path_ok env (SdfPath AbsoluteRoot ns ps)" "t = GetTargetPath (SdfPath AbsoluteRoot ns ps)" "\<not> IsEmpty t"
    and "MakeAbsolutePath env t (GetPrimPath (SdfPath AbsoluteRoot ns ps)) = t"
  shows "ReplaceTargetPath env (SdfPath AbsoluteRoot ns ps)
    (MakeAbsolutePath env t (GetPrimPath (SdfPath AbsoluteRoot ns ps))) = SdfPath AbsoluteRoot ns ps"
proof -
  have "t \<noteq> EmptyPath" using assms(3) by (auto simp: path_queries)
  with assms(1,2) show ?thesis unfolding assms(4) by (intro ReplaceTargetPath_same) simp_all
qed

lemma MakeAbsolutePath_same:
  assumes "path_ok env p" "path_root p = AbsoluteRoot" "targets_absolute p" "is_anchor anchor"
  shows "MakeAbsolutePath env p anchor = p"
  using assms
proof (induction p arbitrary: anchor rule: measure_induct_rule [of size])
  case (less p)
  obtain ns ps where p: "p = SdfPath AbsoluteRoot ns ps" using less.prems(2) by (cases p) auto
  let ?t = "GetTargetPath p"
  have "MakeAbsolutePath env ?t (GetPrimPath p) = ?t" if t: "\<not> IsEmpty ?t"
  proof -
    have "?t \<noteq> EmptyPath" using t by (auto simp: path_queries)
    then obtain n where n: "n \<in> set ps" "is_target_or_mapper n" "?t = node_target_path n"
      using GetTargetPath_node [of AbsoluteRoot ns ps] p by auto
    have "path_ok env ?t" "path_root ?t = AbsoluteRoot" "targets_absolute ?t" "size ?t < size p"
      using less.prems(1,3) path_ok_target [OF _ n(1,2)] targets_absolute_target [OF _ n(1,2)]
        node_target_size [OF n(1,2)] p n(3) by (auto simp: IsAbsolutePath_def)
    moreover have "is_anchor (GetPrimPath p)"
      using GetPrimPath_anchor less.prems(1) n(1) unfolding p by fastforce
    ultimately show ?thesis using less.IH by blast
  qed
  then show ?case
    using less.prems(1,4) absolute_targets_same [of env ns ps ?t] MakeAbsolutePath_absolute [of anchor env ns ps]
    by (simp add: p)
qed

lemma AppendPrimNode_prim: "prop_part q = [] \<Longrightarrow> prop_part (AppendPrimNode env q n) = []"
  by (cases n) (auto simp: AppendChild_def AppendVariantSelection_def FindOrCreate_def Let_def
      EmptyPath_def GetParentPath_prim)

lemma append_to_anchor_nodes:
  assumes "q \<noteq> EmptyPath" "prop_part q = []"
  shows "append_to_anchor env q ns = append_nodes env q (map PrimN ns)"
  using assms
proof (induction ns arbitrary: q)
  case (Cons n ns)
  let ?q = "AppendPrimNode env q n"
  have "prop_part ?q = []" using Cons.prems(2) by (rule AppendPrimNode_prim)
  then have "IsEmpty ?q \<longleftrightarrow> ?q = EmptyPath" by (cases ?q) (auto simp: path_queries)
  then show ?case using Cons \<open>prop_part ?q = []\<close> by (cases "?q = EmptyPath") (auto simp: Let_def)
qed simp

lemma append_to_anchor_climbs:
  assumes "tables_ok env" "path_ok env (SdfPath AbsoluteRoot ns [])" "k \<le> length ns"
    and "prims_ok env AbsoluteRoot (take (length ns - k) ns @ ms)"
  shows "append_to_anchor env (SdfPath AbsoluteRoot ns []) (replicate k (PrimNode parentPathElement) @ ms) =
    SdfPath AbsoluteRoot (take (length ns - k) ns @ ms) []"
proof -
  have "PrimNode parentPathElement \<notin> set ms"
    using prims_ok_relative(2) [OF assms(4), of 0] by simp
  then have "append_nodes env (SdfPath AbsoluteRoot (take (length ns - k) ns) []) (map PrimN ms @ []) =
      SdfPath AbsoluteRoot (take (length ns - k) ns @ ms) []"
    using append_nodes_prims [OF assms(4), of "[]"] by simp
  moreover have "append_to_anchor env (SdfPath AbsoluteRoot ns []) (replicate k (PrimNode parentPathElement) @ ms) =
      append_nodes env (SdfPath AbsoluteRoot ns []) (replicate k (PrimN (PrimNode parentPathElement)) @ map PrimN ms @ [])"
    by (subst append_to_anchor_nodes) (simp_all add: EmptyPath_def)
  ultimately show ?thesis
    using append_nodes_parents [OF assms(1), of "SdfPath AbsoluteRoot ns []" k "map PrimN ms @ []"] assms(2,3)
    by (simp add: built_ok_def GetParentPaths_absolute)
qed



section \<open>Limits of \<open>MakeAbsolutePath\<close>\<close>

text \<open>The property part is added to the absolute prim part without a check: the reflexive path with a
  property becomes a property of the absolute root, which \<open>AppendPath\<close> and the parser
  refuse.\<close>

theorem MakeAbsolutePath_root_property:
  "MakeAbsolutePath env (SdfPath RelativeRoot [] [PrimPropertyNode name]) AbsoluteRootPath =
     SdfPath AbsoluteRoot [] [PrimPropertyNode name]
   \<and> \<not> path_ok env (SdfPath AbsoluteRoot [] [PrimPropertyNode name])
   \<and> AppendPath env AbsoluteRootPath (SdfPath RelativeRoot [] [PrimPropertyNode name]) = EmptyPath"
proof -
  have "GetTargetPath (SdfPath r ns [PrimPropertyNode name]) = EmptyPath" for r ns
    by (simp add: GetTargetPath_def GetNextTargetNode_def nodes_ContainsTargetPath_def)
  then have "MakeAbsolutePath env (SdfPath RelativeRoot [] [PrimPropertyNode name]) AbsoluteRootPath =
      SdfPath AbsoluteRoot [] [PrimPropertyNode name]"
    by (subst MakeAbsolutePath.simps) (simp add: is_anchor_def path_queries Let_def)
  then show ?thesis by (simp add: path_ok_iff AppendPath_def path_queries)
qed

text \<open>Only the last target of a path is made absolute, those before it stay as they are.\<close>

lemma MakeAbsolutePath_outer_targets:
  assumes "is_anchor anchor" "ps \<noteq> []" "is_property_node (last ps)" "\<not> IsEmpty t"
    and "t' = MakeAbsolutePath env t (GetPrimPath (SdfPath AbsoluteRoot ns (ps @ [TargetNode t])))" "t' \<noteq> EmptyPath"
  shows "MakeAbsolutePath env (SdfPath AbsoluteRoot ns (ps @ [TargetNode t])) anchor =
    SdfPath AbsoluteRoot ns (ps @ [TargetNode t'])"
proof -
  have "GetParentPath (SdfPath AbsoluteRoot ns (ps @ [TargetNode t])) = SdfPath AbsoluteRoot ns ps"
    by (simp add: GetParentPath_def path_queries)
  then have "ReplaceTargetPath env (SdfPath AbsoluteRoot ns (ps @ [TargetNode t])) t' =
      SdfPath AbsoluteRoot ns (ps @ [TargetNode t'])"
    using assms(2,3,6)
    by (subst ReplaceTargetPath.simps)
      (simp add: AppendTarget_def append_prop_node_def FindOrCreate_def IsPropertyPath_last IsEmpty_def
        prim_handle_def null_prim_handle_def)
  then show ?thesis
    using assms(4,5) by (simp add: MakeAbsolutePath_absolute [OF assms(1)] GetTargetPath_snoc)
qed

end
