(* ===== verification/Sdf_PathReplace.thy ===== *)
theory Sdf_PathReplace
  imports Sdf_PathValid
begin

text \<open>
  \<open>SdfPath::ReplacePrefix\<close> (\<open>pxr/usd/sdf/path.cpp\<close>) for prefixes that are prims, variant
  selections or the absolute root: the optimised walk over the nodes against a reference that
  exchanges the prefix of the path and, when asked to, of the paths in its targets.
\<close>

section \<open>Reference\<close>

fun with_target :: "prop_node \<Rightarrow> sdf_path \<Rightarrow> prop_node" where
  "with_target (TargetNode _) t = TargetNode t"
| "with_target (MapperNode _) t = MapperNode t"
| "with_target n t = n"

definition exchange_prefix :: "sdf_path \<Rightarrow> sdf_path \<Rightarrow> prim_handle \<Rightarrow> prim_handle" where
  "exchange_prefix oldPrefix newPrefix h =
     (if fst h = path_root oldPrefix \<and> prefix (prim_part oldPrefix) (snd h)
      then (path_root newPrefix, prim_part newPrefix @ drop (length (prim_part oldPrefix)) (snd h)) else h)"

function replaced :: "sdf_path \<Rightarrow> sdf_path \<Rightarrow> bool \<Rightarrow> sdf_path \<Rightarrow> sdf_path" where
  "replaced oldPrefix newPrefix fixTargets (SdfPath r ns ps) =
     path_of_handle (exchange_prefix oldPrefix newPrefix (r, ns))
       (if fixTargets
        then map (\<lambda>n. if is_target_or_mapper n
               then with_target n (replaced oldPrefix newPrefix True (node_target_path n)) else n) ps
        else ps)"
  by pat_completeness auto
termination
  by (relation "measure (\<lambda>(old, new, fixt, p). size p)") (auto dest: node_target_size)

declare replaced.simps [simp del]

section \<open>The walk over prim nodes\<close>

lemma foldl_replace_prim_step:
  assumes "prims_ok env r (ns @ ms)"
  shows "foldl (replace_prim_step env) (SdfPath r ns []) ms = SdfPath r (ns @ ms) []"
  using assms
proof (induction ms arbitrary: ns)
  case (Cons m ms)
  have ok: "prims_ok env r (ns @ [m])" using Cons.prems(1) prims_ok_prefix [of env r "ns @ [m]" ms] by simp
  have "replace_prim_step env (SdfPath r ns []) m = SdfPath r (ns @ [m]) []"
    using AppendPrimNode_ok [OF ok] by (cases m) (auto simp: replace_prim_step_def)
  then show ?case using Cons by simp
qed simp

lemma ReplacePrimPrefix_replaced:
  assumes "prop_part newPrefix = []" and "h = exchange_prefix oldPrefix newPrefix (prim_handle p)"
    and "prims_ok env (fst h) (snd h)"
  shows "ReplacePrimPrefix env p oldPrefix newPrefix = path_of_handle h (prop_part p)"
proof (cases "path_root p = path_root oldPrefix \<and> prefix (prim_part oldPrefix) (prim_part p)")
  case True
  then obtain ms where ms: "prim_part p = prim_part oldPrefix @ ms" by (auto simp: prefix_def)
  with True have h: "h = (path_root newPrefix, prim_part newPrefix @ ms)"
    by (simp add: assms(2) exchange_prefix_def prim_handle_def)
  have "SdfPath (path_root newPrefix) (prim_part newPrefix) [] = newPrefix"
    using assms(1) by (cases newPrefix) simp
  with foldl_replace_prim_step [of env "path_root newPrefix" "prim_part newPrefix" ms] assms(3)
  show ?thesis using True ms
    by (simp add: ReplacePrimPrefix_def Let_def walk_up_take prim_handle_def path_of_handle_def h)
next
  case False
  have "take (length ys) xs = ys \<longleftrightarrow> prefix ys xs" for xs ys :: "prim_node list"
    by (metis append_eq_conv_conj prefix_def append_take_drop_id)
  with False have "ReplacePrimPrefix env p oldPrefix newPrefix = p"
    by (auto simp: ReplacePrimPrefix_def Let_def walk_up_take prim_handle_def)
  moreover have "h = prim_handle p" using False by (auto simp: assms(2) exchange_prefix_def prim_handle_def)
  ultimately show ?thesis by (cases p) (simp add: path_of_handle_def prim_handle_def)
qed

section \<open>The walk over property nodes\<close>

lemma split_at_targets_append:
  assumes "\<not> nodes_ContainsTargetPath xs" "ys = [] \<or> is_target_or_mapper (hd ys)"
  shows "split_at_targets (xs @ ys) tail = (xs, ys @ tail)"
  using assms(2)
proof (induction ys arbitrary: tail rule: rev_induct)
  case Nil
  then show ?case using assms(1) by (subst split_at_targets.simps) simp
next
  case (snoc y ys)
  then have "nodes_ContainsTargetPath (xs @ ys @ [y])"
    by (cases ys) (auto simp: nodes_ContainsTargetPath_def)
  moreover have "ys = [] \<or> is_target_or_mapper (hd ys)" using snoc.prems by (cases ys) auto
  ultimately show ?case using snoc.IH [of "y # tail"]
    by (subst split_at_targets.simps) (simp add: butlast_append)
qed

lemma split_at_targets_eq:
  "split_at_targets ps [] = (takeWhile (Not \<circ> is_target_or_mapper) ps, dropWhile (Not \<circ> is_target_or_mapper) ps)"
proof -
  have "\<not> nodes_ContainsTargetPath (takeWhile (Not \<circ> is_target_or_mapper) ps)"
    by (auto simp: nodes_ContainsTargetPath_def list_ex_iff dest: set_takeWhileD)
  moreover have "dropWhile (Not \<circ> is_target_or_mapper) ps = [] \<or>
      is_target_or_mapper (hd (dropWhile (Not \<circ> is_target_or_mapper) ps))"
    using hd_dropWhile [of "Not \<circ> is_target_or_mapper" ps] by fastforce
  ultimately show ?thesis
    using split_at_targets_append [of _ _ "[]"] by (metis append_Nil2 takeWhile_dropWhile_id)
qed

text \<open>The nodes with the given targets.\<close>

definition with_targets :: "prop_node list \<Rightarrow> sdf_path list \<Rightarrow> prop_node list" where
  "with_targets ps targets = map (\<lambda>(n, t). with_target n t) (zip ps targets)"

lemma foldl_replace_prop_step:
  assumes "length ns = length targets"
    and "path_ok env (SdfPath r prims (qs @ with_targets ns targets))"
  shows "foldl (replace_prop_step env True) (SdfPath r prims qs) (zip ns targets) =
    SdfPath r prims (qs @ with_targets ns targets)"
  using assms
proof (induction ns targets arbitrary: qs rule: list_induct2)
  case (Cons n ns t targets)
  let ?m = "with_target n t"
  have ok: "path_ok env (SdfPath r prims (qs @ [?m]))"
    using Cons.prems path_ok_props_prefix [of env r prims "qs @ [?m]"]
    by (simp add: with_targets_def)
  then have "qs \<noteq> [] \<Longrightarrow> prop_node_type n \<noteq> PrimPropertyNodeT"
    by (cases n) (auto simp: path_ok_iff props_ok_snoc)
  then have "replace_prop_step env True (SdfPath r prims qs) (n, t) = SdfPath r prims (qs @ [?m])"
    using AppendPropNode_ok [OF ok] by (cases n) (auto simp: replace_prop_step_def)
  then show ?case using Cons.IH [of "qs @ [?m]"] Cons.prems by (simp add: with_targets_def)
qed (simp add: with_targets_def)

lemma with_target_same: "\<not> is_target_or_mapper n \<Longrightarrow> with_target n t = n"
  by (cases n) auto

lemma node_target_path_with: "is_target_or_mapper n \<Longrightarrow> node_target_path (with_target n t) = t"
  by (cases n) auto

lemma with_targets_split:
  assumes "length targets = length ps" "xs = takeWhile (Not \<circ> is_target_or_mapper) ps"
  shows "with_targets ps targets =
    xs @ with_targets (dropWhile (Not \<circ> is_target_or_mapper) ps) (drop (length xs) targets)"
  using assms
proof (induction ps arbitrary: targets xs)
  case (Cons p ps)
  then show ?case
    by (cases targets; cases "is_target_or_mapper p") (auto simp: with_targets_def with_target_same)
qed (simp add: with_targets_def)

lemma ReplaceTargetPathPrefixes_with_targets:
  assumes "length targets = length ps" "path_ok env (SdfPath r ns (with_targets ps targets))"
  shows "ReplaceTargetPathPrefixes env targets (SdfPath r ns ps) = SdfPath r ns (with_targets ps targets)"
proof (cases "nodes_ContainsTargetPath ps")
  case True
  let ?xs = "takeWhile (Not \<circ> is_target_or_mapper) ps" and ?ys = "dropWhile (Not \<circ> is_target_or_mapper) ps"
  note split = with_targets_split [OF assms(1) refl]
  have "length ?ys = length (drop (length ?xs) targets)"
    using assms(1) arg_cong [OF takeWhile_dropWhile_id [of "Not \<circ> is_target_or_mapper" ps], of length]
    by (simp only: length_append length_drop)
  from foldl_replace_prop_step [OF this assms(2) [unfolded split]] True
  show ?thesis by (simp add: ReplaceTargetPathPrefixes_def split_at_targets_eq split)
next
  case False
  then have "takeWhile (Not \<circ> is_target_or_mapper) ps = ps"
    by (auto simp: nodes_ContainsTargetPath_def list_ex_iff)
  then have "with_targets ps targets = ps"
    using with_targets_split [OF assms(1) refl] False
    by (simp add: with_targets_def nodes_ContainsTargetPath_def list_ex_iff dropWhile_eq_Nil_conv [THEN iffD2])
  then show ?thesis using False by (simp add: ReplaceTargetPathPrefixes_def)
qed

lemma exchange_prefix_same: "path_root old = r \<Longrightarrow> exchange_prefix old old h = h"
  by (cases h) (auto simp: exchange_prefix_def prefix_def)

lemma replaced_same: "replaced old old fixt p = p"
proof (induction p arbitrary: fixt rule: measure_induct_rule [of size])
  case (less p)
  obtain r ns ps where p: "p = SdfPath r ns ps" by (cases p)
  have "(if is_target_or_mapper n then with_target n (replaced old old True (node_target_path n)) else n) = n"
    if "n \<in> set ps" for n
    using less [of "node_target_path n" True] node_target_size [OF that] p by (cases n) auto
  then have "map (\<lambda>n. if is_target_or_mapper n then with_target n (replaced old old True (node_target_path n)) else n) ps = ps"
    by (rule map_idI)
  then show ?case
    by (simp add: p replaced.simps exchange_prefix_same [OF refl] path_of_handle_def)
qed

lemma replace_prefix_with_replaced:
  fixes r ns ps
  defines "p \<equiv> SdfPath r ns ps"
  assumes "prop_part oldPrefix = []" "prop_part newPrefix = []" "length targets = length ps"
    and "\<not> IsEmpty p" "\<not> IsEmpty oldPrefix" "\<not> IsEmpty newPrefix" "oldPrefix \<noteq> newPrefix" "p \<noteq> oldPrefix"
    and "h = exchange_prefix oldPrefix newPrefix (r, ns)"
    and "result = path_of_handle h (if fixt then with_targets ps targets else ps)" "path_ok env result"
  shows "replace_prefix_with env targets p oldPrefix newPrefix fixt = result"
proof -
  have "prims_ok env (fst h) (snd h)" using assms(11,12) by (simp add: path_ok_iff path_of_handle_def)
  then have prims: "ReplacePrimPrefix env p oldPrefix newPrefix = path_of_handle h ps"
    using ReplacePrimPrefix_replaced [of newPrefix h oldPrefix p] assms(3,10) by (simp add: p_def prim_handle_def)
  show ?thesis
  proof (cases "fixt \<and> nodes_ContainsTargetPath ps")
    case True
    then have "ReplaceTargetPathPrefixes env targets (path_of_handle h ps) = result"
      using ReplaceTargetPathPrefixes_with_targets [OF assms(4), of env "fst h" "snd h"] assms(11,12)
      by (simp add: path_of_handle_def)
    then show ?thesis using True prims assms(2,5-9)
      by (cases ps) (auto simp: replace_prefix_with_def p_def nodes_ContainsTargetPath_def)
  next
    case False
    have "with_targets ps targets = ps" if "\<not> nodes_ContainsTargetPath ps"
      using that assms(4)
      by (induction ps arbitrary: targets)
        (auto simp: with_targets_def nodes_ContainsTargetPath_def with_target_same length_Suc_conv)
    with False have "result = path_of_handle h ps" using assms(11) by auto
    then show ?thesis using False prims assms(2,5-9)
      by (auto simp: replace_prefix_with_def p_def)
  qed
qed

lemma ReplacePrefix_replaced:
  assumes "prop_part oldPrefix = []" "prop_part newPrefix = []"
    and "path_ok env oldPrefix" "path_ok env newPrefix"
    and "path_ok env p" "path_ok env (replaced oldPrefix newPrefix fixTargetPaths p)"
  shows "ReplacePrefix env p oldPrefix newPrefix fixTargetPaths = replaced oldPrefix newPrefix fixTargetPaths p"
  using assms(5,6)
proof (induction p arbitrary: fixTargetPaths rule: measure_induct_rule [of size])
  case (less p)
  obtain r ns ps where p: "p = SdfPath r ns ps" by (cases p)
  let ?ref = "\<lambda>n. replaced oldPrefix newPrefix True (node_target_path n)"
  let ?node = "\<lambda>n. if is_target_or_mapper n then with_target n (?ref n) else n"
  define targets where "targets = map (\<lambda>n. if is_target_or_mapper n
    then ReplacePrefix env (node_target_path n) oldPrefix newPrefix True else EmptyPath) ps"
  define h where "h = exchange_prefix oldPrefix newPrefix (r, ns)"
  have ref: "replaced oldPrefix newPrefix fixTargetPaths p = path_of_handle h (if fixTargetPaths then map ?node ps else ps)"
    by (simp add: p replaced.simps h_def)
  have "with_targets ps targets = map ?node ps" if fixTargetPaths
  proof -
    have "with_target n (ReplacePrefix env (node_target_path n) oldPrefix newPrefix True) = with_target n (?ref n)"
      if n: "n \<in> set ps" "is_target_or_mapper n" for n
    proof -
      have "is_target_or_mapper (?node n)" "node_target_path (?node n) = ?ref n"
        using n(2) by (cases n; simp)+
      moreover have "?node n \<in> set (map ?node ps)" unfolding set_map using n(1) by (rule imageI)
      ultimately have "path_ok env (?ref n)"
        using less.prems(2) \<open>fixTargetPaths\<close> path_ok_target [of env "fst h" "snd h" "map ?node ps" "?node n"]
        unfolding ref path_of_handle_def by simp
      with less.IH [of "node_target_path n" True] node_target_size [OF n] path_ok_target [OF _ n] less.prems(1) p
      show ?thesis by simp
    qed
    then show ?thesis
      by (auto simp: with_targets_def targets_def zip_map2 zip_same_conv_map with_target_same)
  qed
  then have result: "replaced oldPrefix newPrefix fixTargetPaths p =
      path_of_handle h (if fixTargetPaths then with_targets ps targets else ps)"
    using ref by simp
  have nonempty: "\<not> IsEmpty p" "\<not> IsEmpty oldPrefix" "\<not> IsEmpty newPrefix"
    using path_ok_rooted [OF less.prems(1)] path_ok_rooted [OF assms(3)] path_ok_rooted [OF assms(4)]
    by (auto simp: path_queries)
  have run: "ReplacePrefix env p oldPrefix newPrefix fixTargetPaths =
      replace_prefix_with env targets p oldPrefix newPrefix fixTargetPaths"
    by (simp add: p targets_def)
  consider "oldPrefix = newPrefix" | "oldPrefix \<noteq> newPrefix" "p = oldPrefix" | "oldPrefix \<noteq> newPrefix" "p \<noteq> oldPrefix"
    by blast
  then show ?case
  proof cases
    case 1
    then show ?thesis unfolding run by (simp add: replace_prefix_with_def replaced_same)
  next
    case 2
    then have "replaced oldPrefix newPrefix fixTargetPaths p = newPrefix"
      using assms(1,2) p by (cases newPrefix) (auto simp: replaced.simps exchange_prefix_def path_of_handle_def)
    with 2 nonempty show ?thesis unfolding run by (simp add: replace_prefix_with_def)
  next
    case 3
    then show ?thesis unfolding run p
      using replace_prefix_with_replaced [OF assms(1,2) _ _ nonempty(2,3) _ _ h_def result]
        nonempty(1) less.prems(2) p by (simp add: targets_def)
  qed
qed

section \<open>Absolute prefixes\<close>

lemma exchange_prefix_ok:
  assumes "prims_ok env r ns" "prims_ok env AbsoluteRoot (prim_part newPrefix)"
    and "path_root oldPrefix = AbsoluteRoot" "path_root newPrefix = AbsoluteRoot" "prim_part newPrefix \<noteq> []"
    and "h = exchange_prefix oldPrefix newPrefix (r, ns)"
  shows "prims_ok env (fst h) (snd h)" and "h = (AbsoluteRoot, []) \<Longrightarrow> r = AbsoluteRoot \<and> ns = []"
proof -
  have "list_all (prim_node_ok env) ms" if "r = AbsoluteRoot" "ns = prim_part oldPrefix @ ms" for ms
    using that assms(1) by (simp add: prims_ok_def)
  then show "prims_ok env (fst h) (snd h)"
    using assms by (auto simp: exchange_prefix_def prims_ok_def [of env AbsoluteRoot] prefix_def)
  show "h = (AbsoluteRoot, []) \<Longrightarrow> r = AbsoluteRoot \<and> ns = []"
    using assms(5,6) by (auto simp: exchange_prefix_def split: if_splits)
qed

lemma props_chain_with_target:
  assumes "\<And>n. n \<in> set ps \<Longrightarrow> f n = n \<or> (\<exists>t. t \<noteq> EmptyPath \<and> f n = with_target n t)"
    and "prev' = prev \<or> (\<exists>n t. prev = Some n \<and> prev' = Some (with_target n t))"
    and "props_chain env prev ps"
  shows "props_chain env prev' (map f ps)"
  using assms
proof (induction ps arbitrary: prev prev')
  case (Cons n ps)
  have type: "prop_node_type (with_target m t) = prop_node_type m" for m t by (cases m) auto
  have "prop_follows env prev' (f n)"
    using Cons.prems(1) [of n] Cons.prems(2,3)
    by (cases n) (auto simp: type is_property_node_def)
  moreover have "props_chain env (Some (f n)) (map f ps)"
  proof (rule Cons.IH)
    show "Some (f n) = Some n \<or> (\<exists>m t. Some n = Some m \<and> Some (f n) = Some (with_target m t))"
      using Cons.prems(1) [of n] by auto
  qed (use Cons.prems in auto)
  ultimately show ?case by simp
qed simp

lemma replaced_ok:
  assumes "path_ok env newPrefix" "path_root oldPrefix = AbsoluteRoot" "path_root newPrefix = AbsoluteRoot"
    and "prim_part newPrefix \<noteq> []" "path_ok env p"
  shows "path_ok env (replaced oldPrefix newPrefix fixTargetPaths p)"
  using assms(5)
proof (induction p arbitrary: fixTargetPaths rule: measure_induct_rule [of size])
  case (less p)
  obtain r ns ps where p: "p = SdfPath r ns ps" by (cases p)
  let ?ref = "\<lambda>n. replaced oldPrefix newPrefix True (node_target_path n)"
  let ?node = "\<lambda>n. if is_target_or_mapper n then with_target n (?ref n) else n"
  define h where "h = exchange_prefix oldPrefix newPrefix (r, ns)"
  have ok: "prims_ok env r ns" "props_chain env None ps" "ps \<noteq> [] \<Longrightarrow> \<not> (r = AbsoluteRoot \<and> ns = [])"
    using less.prems by (auto simp: p path_ok.simps)
  have new: "prims_ok env AbsoluteRoot (prim_part newPrefix)"
    using assms(1,3) by (simp add: path_ok_iff)
  note prims = exchange_prefix_ok [OF ok(1) new assms(2-4) h_def]
  have root: "\<not> (fst h = AbsoluteRoot \<and> snd h = [])" if "ps \<noteq> []"
    using ok(3) [OF that] prims(2) by (cases h) auto
  have targets: "path_ok env (?ref n)" if "n \<in> set ps" "is_target_or_mapper n" for n
    using less.IH [of "node_target_path n" True] node_target_size [OF that] path_ok_target [OF _ that] less.prems p
    by simp
  then have "?ref n \<noteq> EmptyPath" if "n \<in> set ps" "is_target_or_mapper n" for n
    using that path_ok_rooted by (fastforce simp: EmptyPath_def)
  then have "props_chain env None (map ?node ps)"
    by (intro props_chain_with_target [OF _ _ ok(2)]) auto
  then show ?case
    using less.prems prims(1) root targets
    by (auto simp: p replaced.simps h_def [symmetric] path_of_handle_def path_ok.simps list_all_iff
        node_target_path_with)
qed


text \<open>The two cases outside of it: with the absolute root as the new prefix the property of a root
  prim becomes a property of the absolute root, and with a relative root as the old prefix the parent
  elements of a path end up in the middle of an absolute path. Neither is well-formed.\<close>

theorem ReplacePrefix_malformed:
  "ReplacePrefix env (SdfPath AbsoluteRoot [n] (x # xs)) (SdfPath AbsoluteRoot [n] []) AbsoluteRootPath False =
     SdfPath AbsoluteRoot [] (x # xs)
   \<and> \<not> path_ok env (SdfPath AbsoluteRoot [] (x # xs))
   \<and> ReplacePrefix env (SdfPath RelativeRoot [PrimNode parentPathElement, PrimNode a] [])
       ReflexiveRelativePath (SdfPath AbsoluteRoot [PrimNode b] []) False =
     SdfPath AbsoluteRoot [PrimNode b, PrimNode parentPathElement, PrimNode a] []
   \<and> \<not> path_ok env (SdfPath AbsoluteRoot [PrimNode b, PrimNode parentPathElement, PrimNode a] [])"
  by (simp add: replace_prefix_with_def ReplacePrimPrefix_def replace_prim_step_def path_queries
      path_ok.simps prims_ok_def)


end
