(* ===== verification/Sdf_PathTable.thy ===== *)
theory Sdf_PathTable
  imports Sdf_PathReplace "HOL-Library.Word" "HOL-Library.Monad_Syntax"
begin

unbundle bit_operations_syntax

text \<open>
  The table of paths (\<open>pxr/usd/sdf/pathTable.h\<close>): a hash table whose entries are also linked to a
  tree, by a pointer to the first child and one to the next sibling or, at the end of the
  siblings, to the parent. Entries live in a heap of addresses. An operation is \<open>None\<close> where the code
  would follow a null or dangling pointer, use a bucket that does not exist, or not return. The hash of
  paths and the default value of the mapped type are arguments; the number of buckets is not
  bounded, as a table that fills half of the address space cannot be allocated.
\<close>

section \<open>Entries\<close>

record 'm table_entry =
  entry_key :: sdf_path
  entry_mapped :: 'm
  entry_next :: "nat option"
  entry_first_child :: "nat option"
  entry_link :: "nat option \<times> bool"

record 'm path_table =
  table_heap :: "nat \<rightharpoonup> 'm table_entry"
  table_buckets :: "nat option list"
  table_size :: nat
  table_mask :: nat
  table_fresh :: nat

definition empty_table :: "'m path_table" where
  "empty_table = \<lparr>table_heap = Map.empty, table_buckets = [], table_size = 0, table_mask = 0, table_fresh = 0\<rparr>"

definition GetNextSibling :: "'m table_entry \<Rightarrow> nat option" where
  "GetNextSibling n = (if snd (entry_link n) then fst (entry_link n) else None)"

definition GetParentLink :: "'m table_entry \<Rightarrow> nat option" where
  "GetParentLink n = (if snd (entry_link n) then None else fst (entry_link n))"

definition modify_entry :: "'m path_table \<Rightarrow> nat \<Rightarrow> ('m table_entry \<Rightarrow> 'm table_entry) \<Rightarrow> 'm path_table option" where
  "modify_entry t a f =
     do { n \<leftarrow> table_heap t a; Some (t\<lparr>table_heap := (table_heap t)(a \<mapsto> f n)\<rparr>) }"

definition AddChild :: "'m path_table \<Rightarrow> nat \<Rightarrow> nat \<Rightarrow> 'm path_table option" where
  "AddChild t self child =
     do {
       n \<leftarrow> table_heap t self;
       t \<leftarrow> modify_entry t child (entry_link_update (\<lambda>_.
              case entry_first_child n of Some c \<Rightarrow> (Some c, True) | None \<Rightarrow> (Some self, False)));
       modify_entry t self (entry_first_child_update (\<lambda>_. Some child))
     }"

partial_function (option) preceding_child :: "(nat \<rightharpoonup> 'm table_entry) \<Rightarrow> nat option \<Rightarrow> nat \<Rightarrow> nat option" where
  "preceding_child heap cur child =
     do {
       prev \<leftarrow> cur;
       n \<leftarrow> heap prev;
       if GetNextSibling n = Some child then Some prev else preceding_child heap (GetNextSibling n) child
     }"

definition RemoveChild :: "'m path_table \<Rightarrow> nat \<Rightarrow> nat \<Rightarrow> 'm path_table option" where
  "RemoveChild t self child =
     do {
       n \<leftarrow> table_heap t self;
       c \<leftarrow> table_heap t child;
       if entry_first_child n = Some child
       then modify_entry t self (entry_first_child_update (\<lambda>_. GetNextSibling c))
       else do {
         prev \<leftarrow> preceding_child (table_heap t) (entry_first_child n) child;
         modify_entry t prev (entry_link_update (\<lambda>_. entry_link c))
       }
     }"

section \<open>The hash table\<close>

definition Table_Hash :: "(sdf_path \<Rightarrow> 64 word) \<Rightarrow> 'm path_table \<Rightarrow> sdf_path \<Rightarrow> nat" where
  "Table_Hash h t path = unat (h path) AND table_mask t"

definition bucket_at :: "'a list \<Rightarrow> nat \<Rightarrow> 'a option" where
  "bucket_at bs i = (if i < length bs then Some (bs ! i) else None)"

partial_function (option) find_in_bucket ::
    "(nat \<rightharpoonup> 'm table_entry) \<Rightarrow> nat option \<Rightarrow> sdf_path \<Rightarrow> nat option option" where
  "find_in_bucket heap e key =
     (case e of
        None \<Rightarrow> Some None
      | Some a \<Rightarrow>
          do {
            n \<leftarrow> heap a;
            if entry_key n = key then Some (Some a) else find_in_bucket heap (entry_next n) key
          })"

definition Table_find :: "(sdf_path \<Rightarrow> 64 word) \<Rightarrow> 'm path_table \<Rightarrow> sdf_path \<Rightarrow> nat option option" where
  "Table_find h t path =
     (if table_size t \<noteq> 0
      then do { e \<leftarrow> bucket_at (table_buckets t) (Table_Hash h t path); find_in_bucket (table_heap t) e path }
      else Some None)"

text \<open>\<open>_Grow\<close> moves the chain of each bucket, entry by entry, to the heads of the new buckets.\<close>

partial_function (option) grow_chain ::
    "(sdf_path \<Rightarrow> nat) \<Rightarrow> nat option \<Rightarrow> (nat \<rightharpoonup> 'm table_entry) \<Rightarrow> nat option list \<Rightarrow>
     ((nat \<rightharpoonup> 'm table_entry) \<times> nat option list) option" where
  "grow_chain hash elem heap newBuckets =
     (case elem of
        None \<Rightarrow> Some (heap, newBuckets)
      | Some a \<Rightarrow>
          do {
            n \<leftarrow> heap a;
            m \<leftarrow> bucket_at newBuckets (hash (entry_key n));
            grow_chain hash (entry_next n) (heap(a \<mapsto> n\<lparr>entry_next := m\<rparr>))
              (newBuckets[hash (entry_key n) := Some a])
          })"

fun grow_buckets ::
    "(sdf_path \<Rightarrow> nat) \<Rightarrow> nat option list \<Rightarrow> (nat \<rightharpoonup> 'm table_entry) \<Rightarrow> nat option list \<Rightarrow>
     ((nat \<rightharpoonup> 'm table_entry) \<times> nat option list) option" where
  "grow_buckets hash [] heap newBuckets = Some (heap, newBuckets)"
| "grow_buckets hash (b # bs) heap newBuckets =
     do { (heap, newBuckets) \<leftarrow> grow_chain hash b heap newBuckets; grow_buckets hash bs heap newBuckets }"

definition Table_Grow :: "(sdf_path \<Rightarrow> 64 word) \<Rightarrow> 'm path_table \<Rightarrow> 'm path_table option" where
  "Table_Grow h t =
     (let t' = t\<lparr>table_mask := max 7 (2 * table_mask t + 1)\<rparr> in
      do {
        (heap, newBuckets) \<leftarrow> grow_buckets (Table_Hash h t') (table_buckets t) (table_heap t)
          (replicate (table_mask t' + 1) None);
        Some (t'\<lparr>table_heap := heap, table_buckets := newBuckets\<rparr>)
      })"

definition IsTooFull :: "'m path_table \<Rightarrow> bool" where
  "IsTooFull t \<longleftrightarrow> table_size t > length (table_buckets t)"

definition InsertInTable ::
    "(sdf_path \<Rightarrow> 64 word) \<Rightarrow> 'm path_table \<Rightarrow> sdf_path \<Rightarrow> 'm \<Rightarrow> ('m path_table \<times> nat \<times> bool) option" where
  "InsertInTable h t key v =
     do {
       t \<leftarrow> (if table_mask t = 0 then Table_Grow h t else Some t);
       e \<leftarrow> bucket_at (table_buckets t) (Table_Hash h t key);
       found \<leftarrow> find_in_bucket (table_heap t) e key;
       (case found of
          Some a \<Rightarrow> Some (t, a, False)
        | None \<Rightarrow>
            do {
              t \<leftarrow> (if IsTooFull t then Table_Grow h t else Some t);
              e \<leftarrow> bucket_at (table_buckets t) (Table_Hash h t key);
              let a = table_fresh t;
              Some (t\<lparr>table_heap := (table_heap t)(a \<mapsto> \<lparr>entry_key = key, entry_mapped = v, entry_next = e,
                        entry_first_child = None, entry_link = (None, False)\<rparr>),
                      table_buckets := (table_buckets t)[Table_Hash h t key := Some a],
                      table_size := table_size t + 1, table_fresh := a + 1\<rparr>, a, True)
            })
     }"

text \<open>The pointer that \<open>_EraseFromTable\<close> looks for is in the bucket or in the entry before.\<close>

partial_function (option) preceding_entry :: "(nat \<rightharpoonup> 'm table_entry) \<Rightarrow> nat option \<Rightarrow> nat \<Rightarrow> nat option" where
  "preceding_entry heap cur a =
     do {
       b \<leftarrow> cur;
       n \<leftarrow> heap b;
       if entry_next n = Some a then Some b else preceding_entry heap (entry_next n) a
     }"

definition EraseFromTable :: "(sdf_path \<Rightarrow> 64 word) \<Rightarrow> 'm path_table \<Rightarrow> nat \<Rightarrow> 'm path_table option" where
  "EraseFromTable h t a =
     do {
       n \<leftarrow> table_heap t a;
       e \<leftarrow> bucket_at (table_buckets t) (Table_Hash h t (entry_key n));
       t \<leftarrow> (if e = Some a
             then Some (t\<lparr>table_buckets := (table_buckets t)[Table_Hash h t (entry_key n) := entry_next n]\<rparr>)
             else do {
               b \<leftarrow> preceding_entry (table_heap t) e a;
               modify_entry t b (entry_next_update (\<lambda>_. entry_next n))
             });
       Some (t\<lparr>table_size := table_size t - 1, table_heap := (table_heap t)(a := None)\<rparr>)
     }"

section \<open>Insertion and removal\<close>

partial_function (option) Table_insert ::
    "(sdf_path \<Rightarrow> 64 word) \<Rightarrow> 'm \<Rightarrow> 'm path_table \<Rightarrow> sdf_path \<Rightarrow> 'm \<Rightarrow> ('m path_table \<times> nat \<times> bool) option" where
  "Table_insert h dflt t path v =
     do {
       (t, a, inserted) \<leftarrow> InsertInTable h t path v;
       if inserted \<and> \<not> IsEmpty (GetParentPath path)
       then do {
         (t, parent, _) \<leftarrow> Table_insert h dflt t (GetParentPath path) dflt;
         t \<leftarrow> AddChild t parent a;
         Some (t, a, True)
       }
       else Some (t, a, inserted)
     }"

text \<open>
  The recursion of \<open>_EraseSubtree\<close> and \<open>_EraseSubtreeAndSiblings\<close> and the loop of the latter, with
  its sibling and next sibling.
\<close>

datatype erase_call =
    EraseSubtree nat
  | EraseSubtreeAndSiblings nat
  | EraseSiblings "nat option" "nat option"

partial_function (option) erase_run ::
    "(sdf_path \<Rightarrow> 64 word) \<Rightarrow> erase_call \<Rightarrow> 'm path_table \<Rightarrow> 'm path_table option" where
  "erase_run h call t =
     (case call of
        EraseSubtree e \<Rightarrow>
          do {
            n \<leftarrow> table_heap t e;
            (case entry_first_child n of
               None \<Rightarrow> Some t
             | Some c \<Rightarrow> do { t \<leftarrow> erase_run h (EraseSubtreeAndSiblings c) t; EraseFromTable h t c })
          }
      | EraseSubtreeAndSiblings e \<Rightarrow>
          do {
            t \<leftarrow> erase_run h (EraseSubtree e) t;
            n \<leftarrow> table_heap t e;
            (case GetNextSibling n of
               None \<Rightarrow> erase_run h (EraseSiblings None None) t
             | Some s \<Rightarrow> do { m \<leftarrow> table_heap t s; erase_run h (EraseSiblings (Some s) (GetNextSibling m)) t })
          }
      | EraseSiblings sibling nextSibling \<Rightarrow>
          (case sibling of
             None \<Rightarrow> Some t
           | Some s \<Rightarrow>
               do {
                 t \<leftarrow> erase_run h (EraseSubtree s) t;
                 t \<leftarrow> EraseFromTable h t s;
                 (case nextSibling of
                    None \<Rightarrow> erase_run h (EraseSiblings None None) t
                  | Some s' \<Rightarrow> do { m \<leftarrow> table_heap t s'; erase_run h (EraseSiblings (Some s') (GetNextSibling m)) t })
               }))"

definition RemoveFromParent :: "(sdf_path \<Rightarrow> 64 word) \<Rightarrow> 'm path_table \<Rightarrow> nat \<Rightarrow> 'm path_table option" where
  "RemoveFromParent h t e =
     do {
       n \<leftarrow> table_heap t e;
       if entry_key n = AbsoluteRootPath then Some t
       else do {
         found \<leftarrow> Table_find h t (GetParentPath (entry_key n));
         parent \<leftarrow> found;
         RemoveChild t parent e
       }
     }"

definition erase_entry :: "(sdf_path \<Rightarrow> 64 word) \<Rightarrow> 'm path_table \<Rightarrow> nat \<Rightarrow> 'm path_table option" where
  "erase_entry h t e =
     do {
       t \<leftarrow> erase_run h (EraseSubtree e) t;
       t \<leftarrow> RemoveFromParent h t e;
       EraseFromTable h t e
     }"

definition Table_erase :: "(sdf_path \<Rightarrow> 64 word) \<Rightarrow> 'm path_table \<Rightarrow> sdf_path \<Rightarrow> ('m path_table \<times> bool) option" where
  "Table_erase h t path =
     do {
       found \<leftarrow> Table_find h t path;
       (case found of
          None \<Rightarrow> Some (t, False)
        | Some e \<Rightarrow> do { t \<leftarrow> erase_entry h t e; Some (t, True) })
     }"

partial_function (option) clear_chain :: "(nat \<rightharpoonup> 'm table_entry) \<Rightarrow> nat option \<Rightarrow> (nat \<rightharpoonup> 'm table_entry) option" where
  "clear_chain heap e =
     (case e of
        None \<Rightarrow> Some heap
      | Some a \<Rightarrow> do { n \<leftarrow> heap a; clear_chain (heap(a := None)) (entry_next n) })"

fun clear_buckets :: "nat option list \<Rightarrow> (nat \<rightharpoonup> 'm table_entry) \<Rightarrow> (nat \<rightharpoonup> 'm table_entry) option" where
  "clear_buckets [] heap = Some heap"
| "clear_buckets (b # bs) heap = do { heap \<leftarrow> clear_chain heap b; clear_buckets bs heap }"

definition Table_clear :: "'m path_table \<Rightarrow> 'm path_table option" where
  "Table_clear t =
     do {
       heap \<leftarrow> clear_buckets (table_buckets t) (table_heap t);
       Some (t\<lparr>table_heap := heap, table_buckets := replicate (length (table_buckets t)) None, table_size := 0\<rparr>)
     }"

section \<open>Iteration\<close>

text \<open>An iterator is the address of its entry; \<open>None\<close> is the end.\<close>

partial_function (option) next_up :: "(nat \<rightharpoonup> 'm table_entry) \<Rightarrow> nat option \<Rightarrow> nat option option" where
  "next_up heap p =
     (case p of
        None \<Rightarrow> Some None
      | Some a \<Rightarrow>
          do {
            n \<leftarrow> heap a;
            (case GetNextSibling n of
               Some s \<Rightarrow> Some (Some s)
             | None \<Rightarrow> next_up heap (GetParentLink n))
          })"

definition GetNextSubtree :: "'m path_table \<Rightarrow> nat option \<Rightarrow> nat option option" where
  "GetNextSubtree t i =
     (case i of
        None \<Rightarrow> Some None
      | Some a \<Rightarrow>
          do {
            n \<leftarrow> table_heap t a;
            (case GetNextSibling n of
               Some s \<Rightarrow> Some (Some s)
             | None \<Rightarrow> next_up (table_heap t) (GetParentLink n))
          })"

definition Table_increment :: "'m path_table \<Rightarrow> nat \<Rightarrow> nat option option" where
  "Table_increment t a =
     do {
       n \<leftarrow> table_heap t a;
       (case entry_first_child n of Some c \<Rightarrow> Some (Some c) | None \<Rightarrow> GetNextSubtree t (Some a))
     }"

definition Table_begin :: "(sdf_path \<Rightarrow> 64 word) \<Rightarrow> 'm path_table \<Rightarrow> nat option option" where
  "Table_begin h t = (if table_size t = 0 then Some None else Table_find h t AbsoluteRootPath)"

definition FindSubtreeRange ::
    "(sdf_path \<Rightarrow> 64 word) \<Rightarrow> 'm path_table \<Rightarrow> sdf_path \<Rightarrow> (nat option \<times> nat option) option" where
  "FindSubtreeRange h t path =
     do { first \<leftarrow> Table_find h t path; second \<leftarrow> GetNextSubtree t first; Some (first, second) }"

text \<open>A loop of a client from one iterator to another: the entries it visits.\<close>

partial_function (option) traverse :: "'m path_table \<Rightarrow> nat option \<Rightarrow> nat option \<Rightarrow> nat list option" where
  "traverse t i stop =
     (if i = stop then Some []
      else do {
        a \<leftarrow> i;
        next \<leftarrow> Table_increment t a;
        xs \<leftarrow> traverse t next stop;
        Some (a # xs)
      })"

text \<open>\<open>UpdateForRename\<close> inserts while it iterates. The first component is the coding error.\<close>

partial_function (option) rename_loop ::
    "path_env \<Rightarrow> (sdf_path \<Rightarrow> 64 word) \<Rightarrow> 'm \<Rightarrow> sdf_path \<Rightarrow> sdf_path \<Rightarrow> nat option \<Rightarrow> nat option \<Rightarrow> 'm path_table \<Rightarrow> 'm path_table option" where
  "rename_loop env h dflt oldName newName i stop t =
     (if i = stop then Some t
      else do {
        a \<leftarrow> i;
        n \<leftarrow> table_heap t a;
        (t, _, _) \<leftarrow> Table_insert h dflt t (ReplacePrefix env (entry_key n) oldName newName True) (entry_mapped n);
        next \<leftarrow> Table_increment t a;
        rename_loop env h dflt oldName newName next stop t
      })"

definition UpdateForRename ::
    "path_env \<Rightarrow> (sdf_path \<Rightarrow> 64 word) \<Rightarrow> 'm \<Rightarrow> 'm path_table \<Rightarrow> sdf_path \<Rightarrow> sdf_path \<Rightarrow> (bool \<times> 'm path_table) option" where
  "UpdateForRename env h dflt t oldName newName =
     (if GetParentPath oldName \<noteq> GetParentPath newName then Some (True, t)
      else do {
        (first, second) \<leftarrow> FindSubtreeRange h t oldName;
        t \<leftarrow> rename_loop env h dflt oldName newName first second t;
        if first \<noteq> second then do { (t, _) \<leftarrow> Table_erase h t oldName; Some (False, t) } else Some (False, t)
      })"

section \<open>Other operations\<close>

definition Table_count :: "(sdf_path \<Rightarrow> 64 word) \<Rightarrow> 'm path_table \<Rightarrow> sdf_path \<Rightarrow> nat option" where
  "Table_count h t path = do { found \<leftarrow> Table_find h t path; Some (if found \<noteq> None then 1 else 0) }"

text \<open>\<open>operator[]\<close>: the mapped value of the entry, and the table with the entry.\<close>

definition Table_index :: "(sdf_path \<Rightarrow> 64 word) \<Rightarrow> 'm \<Rightarrow> 'm path_table \<Rightarrow> sdf_path \<Rightarrow> ('m path_table \<times> 'm) option" where
  "Table_index h dflt t path =
     do { (t, a, _) \<leftarrow> Table_insert h dflt t path dflt; n \<leftarrow> table_heap t a; Some (t, entry_mapped n) }"

text \<open>A node handle holds a key and a value, or nothing once its entry is in a table.\<close>

definition insert_node ::
    "(sdf_path \<Rightarrow> 64 word) \<Rightarrow> 'm \<Rightarrow> 'm path_table \<Rightarrow> (sdf_path \<times> 'm) option \<Rightarrow>
     ('m path_table \<times> nat \<times> bool \<times> (sdf_path \<times> 'm) option) option" where
  "insert_node h dflt t node =
     do {
       (key, v) \<leftarrow> node;
       (t, a, inserted) \<leftarrow> Table_insert h dflt t key v;
       Some (t, a, inserted, if inserted then None else node)
     }"

definition Table_swap :: "'m path_table \<Rightarrow> 'm path_table \<Rightarrow> 'm path_table \<times> 'm path_table" where
  "Table_swap t other = (other, t)"

text \<open>The move constructor: the new table, and what it leaves of the other one.\<close>

definition Table_move :: "'m path_table \<Rightarrow> 'm path_table \<times> 'm path_table" where
  "Table_move other = (other, empty_table)"

text \<open>The step of the copy constructor for the entry \<open>i\<close> of the other table.\<close>

definition copy_step ::
    "(sdf_path \<Rightarrow> 64 word) \<Rightarrow> 'm path_table \<Rightarrow> 'm path_table \<Rightarrow> nat \<Rightarrow> 'm path_table option" where
  "copy_step h other t i =
     do {
       n \<leftarrow> table_heap other i;
       (t, j, _) \<leftarrow> InsertInTable h t (entry_key n) (entry_mapped n);
       m \<leftarrow> table_heap t j;
       t \<leftarrow> (case entry_first_child n of
              Some c \<Rightarrow>
                if entry_first_child m = None then do {
                  e \<leftarrow> table_heap other c;
                  (t, k, _) \<leftarrow> InsertInTable h t (entry_key e) (entry_mapped e);
                  modify_entry t j (entry_first_child_update (\<lambda>_. Some k))
                } else Some t
            | None \<Rightarrow> Some t);
       m \<leftarrow> table_heap t j;
       (case fst (entry_link n) of
          Some l \<Rightarrow>
            if fst (entry_link m) = None then do {
              e \<leftarrow> table_heap other l;
              (t, k, _) \<leftarrow> InsertInTable h t (entry_key e) (entry_mapped e);
              modify_entry t j (entry_link_update (\<lambda>_. (Some k, snd (entry_link n))))
            } else Some t
        | None \<Rightarrow> Some t)
     }"

partial_function (option) copy_loop ::
    "(sdf_path \<Rightarrow> 64 word) \<Rightarrow> 'm path_table \<Rightarrow> nat option \<Rightarrow> 'm path_table \<Rightarrow> 'm path_table option" where
  "copy_loop h other i t =
     (case i of
        None \<Rightarrow> Some t
      | Some a \<Rightarrow> do { t \<leftarrow> copy_step h other t a; next \<leftarrow> Table_increment other a; copy_loop h other next t })"

definition Table_copy :: "(sdf_path \<Rightarrow> 64 word) \<Rightarrow> 'm path_table \<Rightarrow> 'm path_table option" where
  "Table_copy h other =
     do {
       i \<leftarrow> Table_begin h other;
       copy_loop h other i
         (empty_table\<lparr>table_buckets := replicate (length (table_buckets other)) None, table_mask := table_mask other\<rparr>)
     }"

text \<open>\<open>GetBucketSizes\<close>\<close>

partial_function (option) chain_size :: "(nat \<rightharpoonup> 'm table_entry) \<Rightarrow> nat option \<Rightarrow> nat option" where
  "chain_size heap e =
     (case e of
        None \<Rightarrow> Some 0
      | Some a \<Rightarrow> do { n \<leftarrow> heap a; k \<leftarrow> chain_size heap (entry_next n); Some (Suc k) })"

fun bucket_sizes :: "(nat \<rightharpoonup> 'm table_entry) \<Rightarrow> nat option list \<Rightarrow> nat list option" where
  "bucket_sizes heap [] = Some []"
| "bucket_sizes heap (b # bs) = do { k \<leftarrow> chain_size heap b; ks \<leftarrow> bucket_sizes heap bs; Some (k # ks) }"

definition GetBucketSizes :: "'m path_table \<Rightarrow> nat list option" where
  "GetBucketSizes t = bucket_sizes (table_heap t) (table_buckets t)"

text \<open>
  The parallel loops over the buckets. The tasks take disjoint ranges of buckets, so one run is an order in
  which the buckets are visited; an entry is in one chain only.
\<close>

partial_function (option) visit_chain ::
    "(sdf_path \<Rightarrow> 'm \<Rightarrow> 'm) \<Rightarrow> nat option \<Rightarrow> (nat \<rightharpoonup> 'm table_entry) \<Rightarrow> (nat \<rightharpoonup> 'm table_entry) option" where
  "visit_chain f e heap =
     (case e of
        None \<Rightarrow> Some heap
      | Some a \<Rightarrow>
          do {
            n \<leftarrow> heap a;
            visit_chain f (entry_next n) (heap(a \<mapsto> n\<lparr>entry_mapped := f (entry_key n) (entry_mapped n)\<rparr>))
          })"

fun visit_buckets ::
    "(sdf_path \<Rightarrow> 'm \<Rightarrow> 'm) \<Rightarrow> nat list \<Rightarrow> nat option list \<Rightarrow> (nat \<rightharpoonup> 'm table_entry) \<Rightarrow> (nat \<rightharpoonup> 'm table_entry) option" where
  "visit_buckets f [] bs heap = Some heap"
| "visit_buckets f (i # is) bs heap =
     do { b \<leftarrow> bucket_at bs i; heap \<leftarrow> visit_chain f b heap; visit_buckets f is bs heap }"

definition ParallelForEach :: "(sdf_path \<Rightarrow> 'm \<Rightarrow> 'm) \<Rightarrow> nat list \<Rightarrow> 'm path_table \<Rightarrow> 'm path_table option" where
  "ParallelForEach f order t =
     do { heap \<leftarrow> visit_buckets f order (table_buckets t) (table_heap t); Some (t\<lparr>table_heap := heap\<rparr>) }"

fun clear_in_order ::
    "nat list \<Rightarrow> nat option list \<Rightarrow> (nat \<rightharpoonup> 'm table_entry) \<Rightarrow> (nat option list \<times> (nat \<rightharpoonup> 'm table_entry)) option" where
  "clear_in_order [] bs heap = Some (bs, heap)"
| "clear_in_order (i # is) bs heap =
     do { b \<leftarrow> bucket_at bs i; heap \<leftarrow> clear_chain heap b; clear_in_order is (bs[i := None]) heap }"

definition ClearInParallel :: "nat list \<Rightarrow> 'm path_table \<Rightarrow> 'm path_table option" where
  "ClearInParallel order t =
     do {
       (bs, heap) \<leftarrow> clear_in_order order (table_buckets t) (table_heap t);
       Some (t\<lparr>table_heap := heap, table_buckets := bs, table_size := 0\<rparr>)
     }"

end
