(* ===== verification/Sdf_PathTableHash.thy ===== *)
theory Sdf_PathTableHash
  imports Sdf_PathTable "HOL-Library.Multiset"
begin

text \<open>
  The hash table of \<open>SdfPathTable\<close>: the chains of its buckets hold each entry once, in the bucket of
  its hash. Seen from the tree the operations of the hash table are those of a finite map from addresses
  to the shape of an entry, which is what it holds beside the link of its chain.
\<close>

section \<open>Chains\<close>

type_synonym 'm entry_shape = "sdf_path \<times> 'm \<times> nat option \<times> nat option \<times> bool"

definition shape_of :: "'m table_entry \<Rightarrow> 'm entry_shape" where
  "shape_of n = (entry_key n, entry_mapped n, entry_first_child n, entry_link n)"

definition shapes :: "(nat \<rightharpoonup> 'm table_entry) \<Rightarrow> (nat \<rightharpoonup> 'm entry_shape)" where
  "shapes heap a = map_option shape_of (heap a)"

abbreviation table_shape :: "'m path_table \<Rightarrow> (nat \<rightharpoonup> 'm entry_shape)" where
  "table_shape t \<equiv> shapes (table_heap t)"

lemma shapes_update [simp]:
  "shapes (heap(a \<mapsto> n)) = (shapes heap)(a \<mapsto> shape_of n)" "shapes (heap(a := None)) = (shapes heap)(a := None)"
  "shapes Map.empty = Map.empty"
  by (auto simp: shapes_def)

lemma shapes_None [simp]: "shapes heap a = None \<longleftrightarrow> heap a = None"
  by (simp add: shapes_def)

lemma dom_shapes [simp]: "dom (shapes heap) = dom heap"
  by (auto simp: dom_def shapes_def)

lemma shape_of_next [simp]: "shape_of (n\<lparr>entry_next := e\<rparr>) = shape_of n"
  by (simp add: shape_of_def)

fun chain :: "(nat \<rightharpoonup> 'm table_entry) \<Rightarrow> nat option \<Rightarrow> nat list \<Rightarrow> bool" where
  "chain heap e [] \<longleftrightarrow> e = None"
| "chain heap e (a # as) \<longleftrightarrow> e = Some a \<and> (\<exists>n. heap a = Some n \<and> chain heap (entry_next n) as)"

lemma chain_cong:
  "chain heap e as \<Longrightarrow> (\<And>a. a \<in> set as \<Longrightarrow> map_option entry_next (heap' a) = map_option entry_next (heap a)) \<Longrightarrow>
   chain heap' e as"
proof (induction as arbitrary: e)
  case (Cons a as)
  then obtain n where n: "e = Some a" "heap a = Some n" "chain heap (entry_next n) as" by auto
  with Cons.prems(2) [of a] obtain n' where "heap' a = Some n'" "entry_next n' = entry_next n" by auto
  with n Cons.IH [of "entry_next n"] Cons.prems(2) show ?case by auto
qed simp

lemma chain_heap: "chain heap e as \<Longrightarrow> a \<in> set as \<Longrightarrow> a \<in> dom heap"
  by (induction as arbitrary: e) auto


text \<open>What a search for a key may answer.\<close>

definition found_key :: "(nat \<rightharpoonup> 'm table_entry) \<Rightarrow> nat set \<Rightarrow> sdf_path \<Rightarrow> nat option \<Rightarrow> bool" where
  "found_key heap A key r \<longleftrightarrow>
     (case r of
        None \<Rightarrow> (\<forall>a \<in> A. \<forall>n. heap a = Some n \<longrightarrow> entry_key n \<noteq> key)
      | Some a \<Rightarrow> a \<in> A \<and> (\<exists>n. heap a = Some n \<and> entry_key n = key))"

lemma find_in_bucket_Some:
  "heap a = Some n \<Longrightarrow>
   find_in_bucket heap (Some a) key = (if entry_key n = key then Some (Some a) else find_in_bucket heap (entry_next n) key)"
  by (simp add: find_in_bucket.simps [of heap "Some a" key])

lemma preceding_entry_Some:
  "heap b = Some n \<Longrightarrow>
   preceding_entry heap (Some b) a = (if entry_next n = Some a then Some b else preceding_entry heap (entry_next n) a)"
  by (simp add: preceding_entry.simps [of heap "Some b" a])

lemma find_in_bucket_chain: "chain heap e as \<Longrightarrow> \<exists>r. find_in_bucket heap e key = Some r \<and> found_key heap (set as) key r"
proof (induction as arbitrary: e)
  case Nil
  then show ?case by (simp add: find_in_bucket.simps found_key_def)
next
  case (Cons a as)
  then obtain n where n: "e = Some a" "heap a = Some n" "chain heap (entry_next n) as" by auto
  show ?case
  proof (cases "entry_key n = key")
    case True
    with n show ?thesis by (simp add: find_in_bucket_Some found_key_def)
  next
    case False
    from Cons.IH [OF n(3)] obtain r where "find_in_bucket heap (entry_next n) key = Some r" "found_key heap (set as) key r"
      by blast
    with n False show ?thesis
      by (auto simp: find_in_bucket_Some found_key_def split: option.splits)
  qed
qed

lemma preceding_entry_chain:
  "chain heap e (us @ b # a # vs) \<Longrightarrow> distinct (us @ b # a # vs) \<Longrightarrow> preceding_entry heap e a = Some b"
proof (induction us arbitrary: e)
  case Nil
  then show ?case by (auto simp: preceding_entry_Some)
next
  case (Cons u us)
  then obtain n where n: "e = Some u" "heap u = Some n" "chain heap (entry_next n) (us @ b # a # vs)" by auto
  then have "entry_next n \<noteq> Some a" using Cons.prems(2) by (cases us) auto
  with n Cons show ?case by (simp add: preceding_entry_Some)
qed

lemma chain_unlink:
  assumes "chain heap e (us @ b # a # vs)" "distinct (us @ b # a # vs)" "heap b = Some m" "heap a = Some n"
    "heap' b = Some (m\<lparr>entry_next := entry_next n\<rparr>)" "\<And>c. c \<noteq> a \<Longrightarrow> c \<noteq> b \<Longrightarrow> heap' c = heap c"
  shows "chain heap' e (us @ b # vs)"
  using assms(1,2)
proof (induction us arbitrary: e)
  case Nil
  then have "chain heap (entry_next n) vs" using assms(4) by auto
  moreover have "heap' c = heap c" if "c \<in> set vs" for c
    using that Nil.prems(2) by (intro assms(6)) auto
  ultimately have "chain heap' (entry_next n) vs" by (elim chain_cong) simp
  with Nil assms(5) show ?case by auto
next
  case (Cons u us)
  with assms(6) [of u] show ?case by auto
qed

section \<open>The invariant\<close>

definition buckets_ok :: "(sdf_path \<Rightarrow> nat) \<Rightarrow> (nat \<rightharpoonup> 'm table_entry) \<Rightarrow> nat option list \<Rightarrow> nat list list \<Rightarrow> bool" where
  "buckets_ok hash heap bs bl \<longleftrightarrow> length bl = length bs \<and>
     (\<forall>i < length bl. chain heap (bs ! i) (bl ! i) \<and>
       (\<forall>a \<in> set (bl ! i). \<exists>n. heap a = Some n \<and> hash (entry_key n) = i)) \<and>
     distinct (concat bl)"

definition table_ok :: "(sdf_path \<Rightarrow> 64 word) \<Rightarrow> 'm path_table \<Rightarrow> bool" where
  "table_ok h t \<longleftrightarrow>
     (\<exists>bl. buckets_ok (Table_Hash h t) (table_heap t) (table_buckets t) bl \<and> set (concat bl) = dom (table_heap t)) \<and>
     (\<forall>a b n m. table_heap t a = Some n \<longrightarrow> table_heap t b = Some m \<longrightarrow> entry_key n = entry_key m \<longrightarrow> a = b) \<and>
     finite (dom (table_heap t)) \<and> table_size t = card (dom (table_heap t)) \<and>
     (\<forall>a \<in> dom (table_heap t). a < table_fresh t) \<and>
     (if table_mask t = 0 then table_buckets t = [] else length (table_buckets t) = table_mask t + 1)"

lemma nat_and_le: "(m AND n) \<le> n" for m n :: nat
proof -
  have "int (m AND n) = int m AND int n" by (simp add: of_nat_and_eq)
  also have "\<dots> \<le> int n" by (rule AND_upper2) simp
  finally show ?thesis by simp
qed

lemma Table_Hash_bucket:
  "table_ok h t \<Longrightarrow> table_mask t \<noteq> 0 \<Longrightarrow> Table_Hash h t p < length (table_buckets t)"
  using nat_and_le [of "unat (h p)" "table_mask t"] by (simp add: table_ok_def Table_Hash_def)

lemma empty_table_ok: "table_ok h empty_table"
  by (simp add: table_ok_def empty_table_def buckets_ok_def)

lemma concat_update:
  "i < length bl \<Longrightarrow> mset (concat (bl[i := as])) + mset (bl ! i) = mset (concat bl) + mset as"
proof (induction bl arbitrary: i)
  case (Cons x bl)
  then show ?case by (cases i) (simp_all add: ac_simps)
qed simp

lemma same_bucket:
  assumes "buckets_ok hash heap bs bl" "a \<in> set (concat bl)" "heap a = Some n"
  shows "hash (entry_key n) < length bl \<and> a \<in> set (bl ! hash (entry_key n))"
proof -
  from assms(2) obtain i where i: "i < length bl" "a \<in> set (bl ! i)" by (auto simp: in_set_conv_nth [of _ bl])
  with assms(1,3) have "hash (entry_key n) = i" unfolding buckets_ok_def by fastforce
  with i show ?thesis by simp
qed

text \<open>Seen from the tree, an address holds a key, and a search answers the address of a key if there is one.\<close>

definition key_at :: "(nat \<rightharpoonup> 'm entry_shape) \<Rightarrow> nat \<Rightarrow> sdf_path \<Rightarrow> bool" where
  "key_at s a p \<longleftrightarrow> (\<exists>x. s a = Some (p, x))"

definition finds :: "(nat \<rightharpoonup> 'm entry_shape) \<Rightarrow> sdf_path \<Rightarrow> nat option \<Rightarrow> bool" where
  "finds s p r \<longleftrightarrow> (case r of None \<Rightarrow> \<forall>a. \<not> key_at s a p | Some a \<Rightarrow> key_at s a p)"

lemma key_at_shapes: "key_at (shapes heap) a p \<longleftrightarrow> (\<exists>n. heap a = Some n \<and> entry_key n = p)"
  by (auto simp: key_at_def shapes_def shape_of_def)

lemma bucket_find_ok:
  assumes "table_ok h t" "table_mask t \<noteq> 0"
  shows "\<exists>e r. bucket_at (table_buckets t) (Table_Hash h t p) = Some e \<and>
    find_in_bucket (table_heap t) e p = Some r \<and> finds (table_shape t) p r"
proof -
  from assms obtain bl where bl: "buckets_ok (Table_Hash h t) (table_heap t) (table_buckets t) bl"
    "set (concat bl) = dom (table_heap t)" unfolding table_ok_def by blast
  have i: "Table_Hash h t p < length (table_buckets t)" by (rule Table_Hash_bucket [OF assms])
  let ?i = "Table_Hash h t p"
  have "chain (table_heap t) (table_buckets t ! ?i) (bl ! ?i)" using bl(1) i by (simp add: buckets_ok_def)
  from find_in_bucket_chain [OF this, of p] obtain r where
    r: "find_in_bucket (table_heap t) (table_buckets t ! ?i) p = Some r" "found_key (table_heap t) (set (bl ! ?i)) p r"
    by blast
  have "finds (table_shape t) p r"
  proof (cases r)
    case None
    have "\<not> key_at (table_shape t) a p" for a
    proof
      assume "key_at (table_shape t) a p"
      then obtain n where n: "table_heap t a = Some n" "entry_key n = p" by (auto simp: key_at_shapes)
      then have "a \<in> set (bl ! ?i)" using same_bucket [OF bl(1) _ n(1)] bl(2) by auto
      with r(2) None n show False by (auto simp: found_key_def)
    qed
    with None show ?thesis by (simp add: finds_def)
  next
    case (Some a)
    with r(2) show ?thesis by (auto simp: found_key_def finds_def key_at_shapes)
  qed
  with r i show ?thesis by (simp add: bucket_at_def)
qed

lemma Table_find_ok:
  assumes "table_ok h t"
  shows "\<exists>r. Table_find h t p = Some r \<and> finds (table_shape t) p r"
proof (cases "table_size t = 0")
  case True
  with assms have "dom (table_heap t) = {}" by (auto simp: table_ok_def)
  then have "table_heap t = Map.empty" by simp
  with True show ?thesis by (auto simp: Table_find_def finds_def key_at_def shapes_def)
next
  case False
  then have "table_mask t \<noteq> 0" using assms by (auto simp: table_ok_def buckets_ok_def)
  from bucket_find_ok [OF assms this, of p] False show ?thesis by (auto simp: Table_find_def)
qed

section \<open>Changes of the buckets\<close>

lemma buckets_push:
  assumes ok: "buckets_ok hash heap bs bl" and a: "a \<notin> set (concat bl)"
    and i: "hash (entry_key n) = i" "i < length bs"
  shows "buckets_ok hash (heap(a \<mapsto> n\<lparr>entry_next := bs ! i\<rparr>)) (bs[i := Some a]) (bl[i := a # bl ! i])"
    "set (concat (bl[i := a # bl ! i])) = insert a (set (concat bl))"
proof -
  let ?heap = "heap(a \<mapsto> n\<lparr>entry_next := bs ! i\<rparr>)"
  have len: "length bl = length bs" using ok by (simp add: buckets_ok_def)
  have "mset (concat (bl[i := a # bl ! i])) = add_mset a (mset (concat bl))"
    using concat_update [of i bl "a # bl ! i"] i(2) len by simp
  then have m: "set (concat (bl[i := a # bl ! i])) = insert a (set (concat bl))"
      "distinct (concat (bl[i := a # bl ! i])) \<longleftrightarrow> distinct (a # concat bl)"
    by (metis set_mset_add_mset_insert set_mset_mset, metis mset.simps(2) mset_eq_imp_distinct_iff)
  show "set (concat (bl[i := a # bl ! i])) = insert a (set (concat bl))" by (rule m(1))
  have old: "chain ?heap (bs ! j) (bl ! j) \<and> a \<notin> set (bl ! j) \<and>
      (\<forall>c \<in> set (bl ! j). \<exists>m. ?heap c = Some m \<and> hash (entry_key m) = j)" if "j < length bs" for j
  proof -
    have c: "chain heap (bs ! j) (bl ! j)" "\<forall>c \<in> set (bl ! j). \<exists>m. heap c = Some m \<and> hash (entry_key m) = j"
      using ok that len by (auto simp: buckets_ok_def)
    moreover have "a \<notin> set (bl ! j)" using a that len by auto
    moreover from this c(1) have "chain ?heap (bs ! j) (bl ! j)" by (elim chain_cong) auto
    ultimately show ?thesis by auto
  qed
  have "chain ?heap (bs[i := Some a] ! j) (bl[i := a # bl ! i] ! j) \<and>
      (\<forall>c \<in> set (bl[i := a # bl ! i] ! j). \<exists>m. ?heap c = Some m \<and> hash (entry_key m) = j)" if "j < length bs" for j
  proof (cases "j = i")
    case True
    then show ?thesis using old [OF that] i len that by simp
  next
    case False
    then show ?thesis using old [OF that] by simp
  qed
  moreover have "distinct (concat (bl[i := a # bl ! i]))"
    using m(2) a ok by (simp add: buckets_ok_def)
  ultimately show "buckets_ok hash ?heap (bs[i := Some a]) (bl[i := a # bl ! i])"
    using len by (simp add: buckets_ok_def)
qed

lemma grow_chain_None: "grow_chain hash None heap nbs = Some (heap, nbs)"
  by (simp add: grow_chain.simps)

lemma grow_chain_Some:
  "heap a = Some n \<Longrightarrow> hash (entry_key n) < length nbs \<Longrightarrow>
   grow_chain hash (Some a) heap nbs =
     grow_chain hash (entry_next n) (heap(a \<mapsto> n\<lparr>entry_next := nbs ! hash (entry_key n)\<rparr>)) (nbs[hash (entry_key n) := Some a])"
  by (simp add: grow_chain.simps [of hash "Some a" heap nbs] bucket_at_def)

lemma grow_chain_ok:
  "chain heap e as \<Longrightarrow> distinct as \<Longrightarrow> buckets_ok hash heap nbs nbl \<Longrightarrow> set as \<inter> set (concat nbl) = {} \<Longrightarrow>
   \<forall>k. hash k < length nbs \<Longrightarrow>
   \<exists>heap' nbs' nbl'. grow_chain hash e heap nbs = Some (heap', nbs') \<and> buckets_ok hash heap' nbs' nbl' \<and>
     set (concat nbl') = set as \<union> set (concat nbl) \<and> shapes heap' = shapes heap \<and> length nbs' = length nbs \<and>
     (\<forall>a. a \<notin> set as \<longrightarrow> heap' a = heap a)"
proof (induction as arbitrary: e heap nbs nbl)
  case Nil
  then show ?case by (auto simp: grow_chain_None)
next
  case (Cons a as)
  then obtain n where n: "e = Some a" "heap a = Some n" "chain heap (entry_next n) as" by auto
  let ?i = "hash (entry_key n)"
  let ?heap = "heap(a \<mapsto> n\<lparr>entry_next := nbs ! ?i\<rparr>)"
  have a: "a \<notin> set (concat nbl)" "a \<notin> set as" using Cons.prems(2,4) by auto
  have i: "?i < length nbs" using Cons.prems(5) by simp
  note push = buckets_push [OF Cons.prems(3) a(1) refl i]
  have "chain ?heap (entry_next n) as" using n(3) a(2) by (elim chain_cong) auto
  moreover have "set as \<inter> set (concat (nbl[?i := a # nbl ! ?i])) = {}" using push(2) Cons.prems(4) a(2) by auto
  moreover have "distinct as" "\<forall>k. hash k < length (nbs[?i := Some a])" using Cons.prems(2,5) by auto
  ultimately obtain heap' nbs' nbl' where r:
    "grow_chain hash (entry_next n) ?heap (nbs[?i := Some a]) = Some (heap', nbs')" "buckets_ok hash heap' nbs' nbl'"
    "set (concat nbl') = set as \<union> set (concat (nbl[?i := a # nbl ! ?i]))" "shapes heap' = shapes ?heap"
    "length nbs' = length nbs" "\<forall>c. c \<notin> set as \<longrightarrow> heap' c = ?heap c"
    using Cons.IH [OF _ _ push(1)] by (metis length_list_update)
  have "shapes ?heap = shapes heap" using n(2) by (auto simp: shapes_def fun_eq_iff)
  with r n i push(2) have "grow_chain hash e heap nbs = Some (heap', nbs') \<and> buckets_ok hash heap' nbs' nbl' \<and>
     set (concat nbl') = set (a # as) \<union> set (concat nbl) \<and> shapes heap' = shapes heap \<and> length nbs' = length nbs \<and>
     (\<forall>c. c \<notin> set (a # as) \<longrightarrow> heap' c = heap c)"
    by (auto simp: grow_chain_Some)
  then show ?case by blast
qed

lemma grow_buckets_ok:
  "list_all2 (chain heap) bs bl \<Longrightarrow> distinct (concat bl) \<Longrightarrow> buckets_ok hash heap nbs nbl \<Longrightarrow>
   set (concat bl) \<inter> set (concat nbl) = {} \<Longrightarrow> \<forall>k. hash k < length nbs \<Longrightarrow>
   \<exists>heap' nbs' nbl'. grow_buckets hash bs heap nbs = Some (heap', nbs') \<and> buckets_ok hash heap' nbs' nbl' \<and>
     set (concat nbl') = set (concat bl) \<union> set (concat nbl) \<and> shapes heap' = shapes heap \<and> length nbs' = length nbs"
proof (induction bl arbitrary: bs heap nbs nbl)
  case Nil
  then show ?case by auto
next
  case (Cons as bl)
  then obtain e bs' where bs: "bs = e # bs'" "chain heap e as" "list_all2 (chain heap) bs' bl"
    by (auto simp: list_all2_Cons2)
  obtain heap1 nbs1 nbl1 where r: "grow_chain hash e heap nbs = Some (heap1, nbs1)" "buckets_ok hash heap1 nbs1 nbl1"
    "set (concat nbl1) = set as \<union> set (concat nbl)" "shapes heap1 = shapes heap" "length nbs1 = length nbs"
    "\<forall>a. a \<notin> set as \<longrightarrow> heap1 a = heap a"
    using grow_chain_ok [OF bs(2) _ Cons.prems(3) _ Cons.prems(5)] Cons.prems(2,4) by (auto simp: Int_Un_distrib2)
  have "list_all2 (chain heap1) bs' bl"
  proof (rule list.rel_mono_strong [OF bs(3)])
    fix b cs
    assume cs: "cs \<in> set bl" "chain heap b cs"
    have "heap1 c = heap c" if "c \<in> set cs" for c using that cs(1) Cons.prems(2) r(6) by auto
    with cs(2) show "chain heap1 b cs" by (elim chain_cong) simp
  qed
  moreover have "set (concat bl) \<inter> set (concat nbl1) = {}" using r(3) Cons.prems(2,4) by auto
  ultimately obtain heap' nbs' nbl' where r': "grow_buckets hash bs' heap1 nbs1 = Some (heap', nbs')"
    "buckets_ok hash heap' nbs' nbl'" "set (concat nbl') = set (concat bl) \<union> set (concat nbl1)"
    "shapes heap' = shapes heap1" "length nbs' = length nbs1"
    using Cons.IH [of heap1 bs' nbs1 nbl1] r(2,5) Cons.prems(2,5) by auto
  with r bs(1) show ?case by (intro exI [of _ heap'] exI [of _ nbs'] exI [of _ nbl']) auto
qed

section \<open>Operations of the table\<close>

lemma buckets_ok_list_all2: "buckets_ok hash heap bs bl \<Longrightarrow> list_all2 (chain heap) bs bl"
  by (simp add: buckets_ok_def list_all2_conv_all_nth)

lemma table_ok_keys:
  "table_ok h t \<Longrightarrow> table_heap t a = Some n \<Longrightarrow> table_heap t b = Some m \<Longrightarrow> entry_key n = entry_key m \<Longrightarrow> a = b"
  by (auto simp: table_ok_def)

lemma table_okI:
  assumes "buckets_ok (Table_Hash h t) (table_heap t) (table_buckets t) bl" "set (concat bl) = dom (table_heap t)"
    "\<And>a b n m. table_heap t a = Some n \<Longrightarrow> table_heap t b = Some m \<Longrightarrow> entry_key n = entry_key m \<Longrightarrow> a = b"
    "finite (dom (table_heap t))" "table_size t = card (dom (table_heap t))"
    "\<And>a. a \<in> dom (table_heap t) \<Longrightarrow> a < table_fresh t"
    "if table_mask t = 0 then table_buckets t = [] else length (table_buckets t) = table_mask t + 1"
  shows "table_ok h t"
  unfolding table_ok_def using assms by blast

lemma table_ok_facts:
  assumes "table_ok h t"
  shows "finite (dom (table_heap t))" "table_size t = card (dom (table_heap t))"
    "a \<in> dom (table_heap t) \<Longrightarrow> a < table_fresh t"
    "if table_mask t = 0 then table_buckets t = [] else length (table_buckets t) = table_mask t + 1"
  using assms by (auto simp: table_ok_def)

lemma table_ok_keys_mono:
  assumes "table_ok h t" "\<And>c x. heap c = Some x \<Longrightarrow> \<exists>y. table_heap t c = Some y \<and> entry_key y = entry_key x"
    "heap a = Some n" "heap b = Some m" "entry_key n = entry_key m"
  shows "a = b"
  using assms(2) [OF assms(3)] assms(2) [OF assms(4)] assms(5) table_ok_keys [OF assms(1)] by fastforce

lemma shapes_eq_key:
  "shapes heap' = shapes heap \<Longrightarrow> heap' a = Some n \<Longrightarrow> \<exists>m. heap a = Some m \<and> shape_of m = shape_of n"
  by (drule fun_cong [of _ _ a], cases "heap a") (auto simp: shapes_def)

lemma buckets_ok_none: "buckets_ok hash heap (replicate n None) (replicate n [])"
proof -
  have "concat (replicate n []) = []" by (induction n) auto
  then show ?thesis by (simp add: buckets_ok_def)
qed

lemma Table_Grow_ok:
  assumes "table_ok h t"
  shows "\<exists>t'. Table_Grow h t = Some t' \<and> table_ok h t' \<and> table_shape t' = table_shape t \<and>
    table_size t' = table_size t \<and> table_fresh t' = table_fresh t \<and> table_mask t' \<noteq> 0"
proof -
  from assms obtain bl where bl: "buckets_ok (Table_Hash h t) (table_heap t) (table_buckets t) bl"
    "set (concat bl) = dom (table_heap t)" unfolding table_ok_def by blast
  define m where "m = max 7 (2 * table_mask t + 1)"
  let ?t = "t\<lparr>table_mask := m\<rparr>"
  let ?none = "replicate (m + 1) (None :: nat option)"
  have hash: "\<forall>k. Table_Hash h ?t k < length ?none"
    using nat_and_le [of _ m] by (simp add: Table_Hash_def less_Suc_eq_le)
  have "set (concat bl) \<inter> set (concat (replicate (m + 1) [])) = {}" by auto
  moreover have "distinct (concat bl)" using bl(1) by (simp add: buckets_ok_def)
  ultimately
  obtain heap nbs nbl where r: "grow_buckets (Table_Hash h ?t) (table_buckets t) (table_heap t) ?none = Some (heap, nbs)"
    "buckets_ok (Table_Hash h ?t) heap nbs nbl" "set (concat nbl) = set (concat bl)"
    "shapes heap = shapes (table_heap t)" "length nbs = m + 1"
    using grow_buckets_ok [OF buckets_ok_list_all2 [OF bl(1)] _ buckets_ok_none _ hash] by auto
  have d: "dom heap = dom (table_heap t)" using r(4) by (metis dom_shapes)
  let ?t' = "?t\<lparr>table_heap := heap, table_buckets := nbs\<rparr>"
  have "Table_Grow h t = Some ?t'" using r(1) unfolding Table_Grow_def Let_def m_def [symmetric] by (simp del: replicate.simps)
  moreover have "table_ok h ?t'" unfolding table_ok_def
  proof (intro conjI)
    show "\<exists>bl. buckets_ok (Table_Hash h ?t') (table_heap ?t') (table_buckets ?t') bl \<and> set (concat bl) = dom (table_heap ?t')"
      using r(2,3) bl(2) d by (intro exI [of _ nbl]) (simp add: Table_Hash_def [abs_def])
    show "\<forall>a b n m. table_heap ?t' a = Some n \<longrightarrow> table_heap ?t' b = Some m \<longrightarrow> entry_key n = entry_key m \<longrightarrow> a = b"
    proof (intro allI impI)
      fix a b n m
      assume *: "table_heap ?t' a = Some n" "table_heap ?t' b = Some m" "entry_key n = entry_key m"
      from shapes_eq_key [OF r(4), of a n] shapes_eq_key [OF r(4), of b m] * obtain n' m' where
        "table_heap t a = Some n'" "table_heap t b = Some m'" "shape_of n' = shape_of n" "shape_of m' = shape_of m" by auto
      with * table_ok_keys [OF assms, of a n' b m'] show "a = b" by (simp add: shape_of_def)
    qed
  qed (use assms d r(5) in \<open>simp_all add: table_ok_def m_def\<close>)
  moreover have "table_shape ?t' = table_shape t" using r(4) by simp
  ultimately show ?thesis by (intro exI [of _ ?t']) (simp add: m_def)
qed

lemma InsertInTable_ok:
  assumes "table_ok h t"
  shows "\<exists>t' a inserted. InsertInTable h t p v = Some (t', a, inserted) \<and> table_ok h t' \<and> key_at (table_shape t') a p \<and>
    (if inserted then (\<forall>b. \<not> key_at (table_shape t) b p) \<and> table_shape t a = None \<and>
        table_shape t' = (table_shape t)(a \<mapsto> (p, v, None, None, False))
     else table_shape t' = table_shape t)"
proof -
  obtain t1 where t1: "(if table_mask t = 0 then Table_Grow h t else Some t) = Some t1" "table_ok h t1"
    "table_shape t1 = table_shape t" "table_mask t1 \<noteq> 0"
    using Table_Grow_ok [OF assms] assms by (cases "table_mask t = 0") auto
  obtain e r where r: "bucket_at (table_buckets t1) (Table_Hash h t1 p) = Some e"
    "find_in_bucket (table_heap t1) e p = Some r" "finds (table_shape t1) p r"
    using bucket_find_ok [OF t1(2,4)] by blast
  show ?thesis
  proof (cases r)
    case (Some a)
    with r t1 have "InsertInTable h t p v = Some (t1, a, False)" "key_at (table_shape t1) a p"
      by (simp_all add: InsertInTable_def finds_def)
    with t1 show ?thesis by auto
  next
    case None
    obtain t2 where t2: "(if IsTooFull t1 then Table_Grow h t1 else Some t1) = Some t2" "table_ok h t2"
      "table_shape t2 = table_shape t" "table_mask t2 \<noteq> 0"
      using Table_Grow_ok [OF t1(2)] t1 by (cases "IsTooFull t1") auto
    let ?a = "table_fresh t2" and ?i = "Table_Hash h t2 p"
    have i: "?i < length (table_buckets t2)" by (rule Table_Hash_bucket [OF t2(2,4)])
    let ?n = "\<lparr>entry_key = p, entry_mapped = v, entry_next = table_buckets t2 ! ?i, entry_first_child = None, entry_link = (None, False)\<rparr>"
    let ?t = "t2\<lparr>table_heap := (table_heap t2)(?a \<mapsto> ?n), table_buckets := (table_buckets t2)[?i := Some ?a],
       table_size := table_size t2 + 1, table_fresh := ?a + 1\<rparr>"
    have a: "?a \<notin> dom (table_heap t2)" using t2(2) unfolding table_ok_def by blast
    have no: "\<not> key_at (table_shape t2) b p" for b using r(3) None t1(3) t2(3) by (simp add: finds_def)
    from t2(2) obtain bl where bl: "buckets_ok (Table_Hash h t2) (table_heap t2) (table_buckets t2) bl"
      "set (concat bl) = dom (table_heap t2)" unfolding table_ok_def by blast
    have "buckets_ok (Table_Hash h t2) (table_heap ?t) (table_buckets ?t) (bl[?i := ?a # bl ! ?i])"
      "set (concat (bl[?i := ?a # bl ! ?i])) = dom (table_heap ?t)"
      using buckets_push [OF bl(1), of ?a ?n ?i] a bl(2) i by auto
    moreover have "Table_Hash h ?t = Table_Hash h t2" by (simp add: Table_Hash_def fun_eq_iff)
    moreover have "entry_key n \<noteq> p" if "table_heap t2 b = Some n" for b n using no [of b] that by (auto simp: key_at_shapes)
    ultimately have "table_ok h ?t" using t2(2,4) a unfolding table_ok_def
      by (auto simp: less_Suc_eq simp del: concat_eq_concat_iff)
    moreover have "InsertInTable h t p v = Some (?t, ?a, True)"
      using t1(1) r None t2(1) i by (simp add: InsertInTable_def bucket_at_def Let_def)
    moreover have "table_shape t ?a = None" using a t2(3) by (metis domIff shapes_None)
    moreover have "table_shape ?t = (table_shape t)(?a \<mapsto> (p, v, None, None, False))" using t2(3) by (simp add: shape_of_def)
    moreover from this have "key_at (table_shape ?t) ?a p"
      unfolding key_at_def by (intro exI [of _ "(v, None, None, False)"]) simp
    ultimately show ?thesis using no t2(3) 
      by (intro exI [of _ ?t] exI [of _ ?a] exI [of _ True]) simp
  qed
qed

lemma buckets_unlink:
  assumes ok: "buckets_ok hash heap bs bl" and i: "i < length bs" "bl ! i = us @ a # vs"
    and c: "chain heap' e (us @ vs)" "\<And>c. c \<notin> set (us @ a # vs) \<Longrightarrow> heap' c = heap c"
    and k: "\<And>c n. c \<in> set (us @ vs) \<Longrightarrow> heap c = Some n \<Longrightarrow> \<exists>m. heap' c = Some m \<and> entry_key m = entry_key n"
  shows "buckets_ok hash heap' (bs[i := e]) (bl[i := us @ vs])"
    "set (concat (bl[i := us @ vs])) = set (concat bl) - {a}"
proof -
  have len: "length bl = length bs" using ok by (simp add: buckets_ok_def)
  have m: "add_mset a (mset (concat (bl[i := us @ vs]))) = mset (concat bl)"
    using concat_update [of i bl "us @ vs"] i len by simp
  have d: "distinct (concat bl)" using ok by (simp add: buckets_ok_def)
  have "mset (a # concat (bl[i := us @ vs])) = mset (concat bl)" using m by simp
  then have m': "distinct (a # concat (bl[i := us @ vs]))" "set (a # concat (bl[i := us @ vs])) = set (concat bl)"
    using d by (metis mset_eq_imp_distinct_iff, metis mset_eq_setD)
  then show "set (concat (bl[i := us @ vs])) = set (concat bl) - {a}" by auto
  have "chain heap' (bs[i := e] ! j) (bl[i := us @ vs] ! j) \<and>
      (\<forall>c \<in> set (bl[i := us @ vs] ! j). \<exists>m. heap' c = Some m \<and> hash (entry_key m) = j)" if j: "j < length bs" for j
  proof (cases "j = i")
    case True
    have "\<exists>m. heap' c = Some m \<and> hash (entry_key m) = i" if "c \<in> set (us @ vs)" for c
    proof -
      have "c \<in> set (bl ! i)" using that i(2) by auto
      then obtain n where "heap c = Some n" "hash (entry_key n) = i" using ok i(1) len unfolding buckets_ok_def by metis
      with k [OF that] show ?thesis by fastforce
    qed
    with True c(1) i len show ?thesis by auto
  next
    case False
    have "c \<notin> set (bl ! i)" if "c \<in> set (bl ! j)" for c
      using ok that i(1) j False len unfolding buckets_ok_def by (metis option.sel)
    then have "heap' c = heap c" if "c \<in> set (bl ! j)" for c using that i(2) by (intro c(2)) auto
    moreover from this have "chain heap' (bs ! j) (bl ! j)" using ok j len by (auto simp: buckets_ok_def elim!: chain_cong)
    ultimately show ?thesis using False ok j len by (auto simp: buckets_ok_def)
  qed
  with len m'(1) show "buckets_ok hash heap' (bs[i := e]) (bl[i := us @ vs])" by (simp add: buckets_ok_def)
qed

lemma modify_entry_ok:
  assumes ok: "table_ok h t" and n: "table_heap t a = Some n"
    and f: "entry_key (f n) = entry_key n" "entry_next (f n) = entry_next n"
  shows "\<exists>t'. modify_entry t a f = Some t' \<and> table_ok h t' \<and> table_shape t' = (table_shape t)(a \<mapsto> shape_of (f n))"
proof -
  let ?t = "t\<lparr>table_heap := (table_heap t)(a \<mapsto> f n)\<rparr>"
  from ok obtain bl where bl: "buckets_ok (Table_Hash h t) (table_heap t) (table_buckets t) bl"
    "set (concat bl) = dom (table_heap t)" unfolding table_ok_def by blast
  have "chain (table_heap ?t) e as" if "chain (table_heap t) e as" for e as
    using that n f(2) by (elim chain_cong) auto
  moreover have "\<exists>m. table_heap ?t c = Some m \<and> Table_Hash h t (entry_key m) = i"
    if "\<exists>m. table_heap t c = Some m \<and> Table_Hash h t (entry_key m) = i" for c i
    using that n f(1) by auto
  ultimately have "buckets_ok (Table_Hash h t) (table_heap ?t) (table_buckets ?t) bl"
    using bl(1) unfolding buckets_ok_def by simp
  then have b: "buckets_ok (Table_Hash h ?t) (table_heap ?t) (table_buckets ?t) bl"
    by (simp add: Table_Hash_def [abs_def])
  have dom: "dom (table_heap ?t) = dom (table_heap t)" using n by auto
  have inj: "c = b" if "table_heap ?t c = Some x" "table_heap ?t b = Some y" "entry_key x = entry_key y" for b c x y
    by (rule table_ok_keys_mono [OF ok _ that]) (use n f(1) in \<open>auto split: if_splits\<close>)
  have "table_ok h ?t"
    by (rule table_okI [OF b _ inj]) (assumption | simp only: dom bl(2) | use table_ok_facts [OF ok] in simp)+
  then show ?thesis using n by (intro exI [of _ ?t]) (simp add: modify_entry_def)
qed

lemma EraseFromTable_ok:
  assumes ok: "table_ok h t" and a: "a \<in> dom (table_shape t)"
  shows "\<exists>t'. EraseFromTable h t a = Some t' \<and> table_ok h t' \<and> table_shape t' = (table_shape t)(a := None)"
proof -
  from a obtain n where n: "table_heap t a = Some n" by auto
  from ok obtain bl where bl: "buckets_ok (Table_Hash h t) (table_heap t) (table_buckets t) bl"
    "set (concat bl) = dom (table_heap t)" unfolding table_ok_def by blast
  let ?i = "Table_Hash h t (entry_key n)"
  have "a \<in> set (concat bl)" using bl(2) n by auto
  from same_bucket [OF bl(1) this n] have i: "?i < length (table_buckets t)" "a \<in> set (bl ! ?i)"
    using bl(1) by (auto simp: buckets_ok_def)
  then obtain us vs where split: "bl ! ?i = us @ a # vs" by (auto dest: split_list)
  have c: "chain (table_heap t) (table_buckets t ! ?i) (us @ a # vs)" using bl(1) i(1) split unfolding buckets_ok_def by metis
  have d: "distinct (us @ a # vs)"
    using bl(1) i(1) split by (metis buckets_ok_def distinct_concat_iff nth_mem)
  obtain heap e where r: "chain heap e (us @ vs)" "\<And>c. c \<notin> set (us @ a # vs) \<Longrightarrow> heap c = table_heap t c"
      "\<And>c. map_option entry_key (heap c) = map_option entry_key (((table_heap t)(a := None)) c)"
      "shapes heap = (shapes (table_heap t))(a := None)"
      "EraseFromTable h t a = Some (t\<lparr>table_heap := heap, table_buckets := (table_buckets t)[?i := e], table_size := table_size t - 1\<rparr>)"
  proof (cases us rule: rev_cases)
    case Nil
    then have e: "table_buckets t ! ?i = Some a" "chain (table_heap t) (entry_next n) vs" using c n by auto
    have ch: "chain ((table_heap t)(a := None)) (entry_next n) vs" using e(2) d Nil by (elim chain_cong) auto
    show thesis
      by (rule that [of "(table_heap t)(a := None)" "entry_next n"])
        (use ch e(1) i(1) n Nil in \<open>auto simp: EraseFromTable_def bucket_at_def\<close>)
  next
    case (snoc us' b)
    with c n have "b \<in> dom (table_heap t)" by (intro chain_heap) auto
    then obtain m where m: "table_heap t b = Some m" by blast
    have ab: "a \<noteq> b" using d snoc by auto
    let ?heap = "(table_heap t)(b \<mapsto> m\<lparr>entry_next := entry_next n\<rparr>, a := None)"
    have e: "table_buckets t ! ?i \<noteq> Some a" using c d snoc by (cases us') auto
    have p: "preceding_entry (table_heap t) (table_buckets t ! ?i) a = Some b"
      using preceding_entry_chain [of _ _ us' b a vs] c d snoc by simp
    have ch: "chain ?heap (table_buckets t ! ?i) (us' @ b # vs)"
      by (rule chain_unlink [of "table_heap t" _ us' b a vs m n]) (use c d snoc m n ab in auto)
    have "shapes ?heap = (shapes (table_heap t))(a := None)" using m by (auto simp: shapes_def fun_eq_iff)
    moreover have "EraseFromTable h t a = Some (t\<lparr>table_heap := ?heap,
        table_buckets := (table_buckets t)[?i := table_buckets t ! ?i], table_size := table_size t - 1\<rparr>)"
      using n e p m i(1) by (simp add: EraseFromTable_def bucket_at_def modify_entry_def)
    ultimately show thesis
      using that [of ?heap "table_buckets t ! ?i"] ch snoc m by auto
  qed
  let ?t = "t\<lparr>table_heap := heap, table_buckets := (table_buckets t)[?i := e], table_size := table_size t - 1\<rparr>"
  have key: "\<exists>m. heap c = Some m \<and> entry_key m = entry_key n'" if "c \<noteq> a" "table_heap t c = Some n'" for c n'
    using r(3) [of c] that by auto
  have dom: "dom heap = dom (table_heap t) - {a}" using arg_cong [OF r(4), of dom] by (simp add: dom_fun_upd)
  have key': "\<exists>m. heap c = Some m \<and> entry_key m = entry_key n'" if "c \<in> set (us @ vs)" "table_heap t c = Some n'" for c n'
    by (rule key) (use that d in auto)
  note unlink = buckets_unlink [OF bl(1) i(1) split r(1)]
  have b1: "buckets_ok (Table_Hash h t) heap ((table_buckets t)[?i := e]) (bl[?i := us @ vs])"
    by (rule unlink(1)) (erule r(2), rule key')
  have b2: "set (concat (bl[?i := us @ vs])) = set (concat bl) - {a}"
    by (rule unlink(2)) (erule r(2), rule key')
  have b: "buckets_ok (Table_Hash h ?t) (table_heap ?t) (table_buckets ?t) (bl[?i := us @ vs])"
    using b1 by (simp add: Table_Hash_def [abs_def])
  have b': "set (concat (bl[?i := us @ vs])) = dom (table_heap ?t)" unfolding b2 bl(2) by (simp add: dom)
  have old: "\<exists>y. table_heap t c = Some y \<and> entry_key y = entry_key x" if "table_heap ?t c = Some x" for c x
    using that r(3) [of c] by (cases "table_heap t c") (auto split: if_splits)
  have inj: "c = b" if "table_heap ?t c = Some x" "table_heap ?t b = Some y" "entry_key x = entry_key y" for b c x y
    using old that by (rule table_ok_keys_mono [OF ok])
  have "table_ok h ?t"
    by (rule table_okI [OF b b' inj]) (assumption | use a table_ok_facts [OF ok] in \<open>simp add: dom\<close>)+
  with r(4,5) show ?thesis by (intro exI [of _ ?t]) simp
qed

text \<open>\<open>clear\<close> deletes every entry and keeps the buckets.\<close>

lemma clear_chain_ok:
  "chain heap e as \<Longrightarrow> distinct as \<Longrightarrow> clear_chain heap e = Some (heap |` (- set as))"
proof (induction as arbitrary: e heap)
  case Nil
  then show ?case by (simp add: clear_chain.simps)
next
  case (Cons a as)
  then obtain n where n: "e = Some a" "heap a = Some n" "chain heap (entry_next n) as" by auto
  have "chain (heap(a := None)) (entry_next n) as" using n(3) Cons.prems(2) by (elim chain_cong) auto
  then have "clear_chain (heap(a := None)) (entry_next n) = Some ((heap(a := None)) |` (- set as))"
    by (rule Cons.IH) (use Cons.prems(2) in simp)
  moreover have "(heap(a := None)) |` (- set as) = heap |` (- set (a # as))" by (auto simp: restrict_map_def fun_eq_iff)
  ultimately show ?case using n by (simp add: clear_chain.simps [of heap "Some a"])
qed

lemma clear_buckets_ok:
  "list_all2 (chain heap) bs bl \<Longrightarrow> distinct (concat bl) \<Longrightarrow>
   clear_buckets bs heap = Some (heap |` (- set (concat bl)))"
proof (induction bl arbitrary: bs heap)
  case Nil
  then show ?case by (simp add: restrict_map_def)
next
  case (Cons as bl)
  then obtain e bs' where bs: "bs = e # bs'" "chain heap e as" "list_all2 (chain heap) bs' bl"
    by (auto simp: list_all2_Cons2)
  let ?heap = "heap |` (- set as)"
  have "list_all2 (chain ?heap) bs' bl"
  proof (rule list.rel_mono_strong [OF bs(3)])
    fix b cs
    assume cs: "cs \<in> set bl" "chain heap b cs"
    have "?heap c = heap c" if "c \<in> set cs" for c using that cs(1) Cons.prems(2) by (auto simp: restrict_map_def)
    with cs(2) show "chain ?heap b cs" by (elim chain_cong) simp
  qed
  then have "clear_buckets bs' ?heap = Some (?heap |` (- set (concat bl)))" using Cons by simp
  moreover have "?heap |` (- set (concat bl)) = heap |` (- set (concat (as # bl)))"
    by (auto simp: restrict_map_def fun_eq_iff)
  ultimately show ?case using clear_chain_ok [OF bs(2)] Cons.prems(2) bs(1) by simp
qed

lemma Table_clear_ok:
  assumes ok: "table_ok h t"
  shows "\<exists>t'. Table_clear t = Some t' \<and> table_ok h t' \<and> table_shape t' = Map.empty"
proof -
  from ok obtain bl where bl: "buckets_ok (Table_Hash h t) (table_heap t) (table_buckets t) bl"
    "set (concat bl) = dom (table_heap t)" unfolding table_ok_def by blast
  let ?t = "t\<lparr>table_heap := Map.empty, table_buckets := replicate (length (table_buckets t)) None, table_size := 0\<rparr>"
  have "distinct (concat bl)" using bl(1) by (simp add: buckets_ok_def)
  from clear_buckets_ok [OF buckets_ok_list_all2 [OF bl(1)] this]
  have "clear_buckets (table_buckets t) (table_heap t) = Some Map.empty"
    unfolding bl(2) by (simp add: restrict_map_def fun_eq_iff domIff)
  then have "Table_clear t = Some ?t" by (simp add: Table_clear_def)
  moreover have "table_ok h ?t"
    by (rule table_okI [OF _ _ _ ]) (use buckets_ok_none [of "Table_Hash h ?t" Map.empty] table_ok_facts(4) [OF ok] in auto)
  ultimately show ?thesis by (intro exI [of _ ?t]) simp
qed

end
