(* ===== verification/Sdf_PathTableTree.thy ===== *)
theory Sdf_PathTableTree
  imports Sdf_PathTableHash
begin

text \<open>
  The tree of \<open>SdfPathTable\<close>: every entry but the root is in the list of children of the entry of its
  parent path. Insertion adds the missing ancestors, with new entries that wait for their parent;
  removal erases an entry with its descendants. Neither follows a dangling pointer, and both return.
\<close>

declare split_paired_Ex [simp del]

section \<open>Absolute paths\<close>

abbreviation absolute :: "sdf_path \<Rightarrow> bool" where
  "absolute p \<equiv> path_root p = AbsoluteRoot"

lemma absolute_not_empty [simp]: "absolute p \<Longrightarrow> \<not> IsEmpty p"
  by (simp add: path_queries)

lemma absolute_root [simp]: "absolute AbsoluteRootPath"
  by (simp add: AbsoluteRootPath_def)

lemma parent_root_empty [simp]: "IsEmpty (GetParentPath AbsoluteRootPath)"
  by (simp add: GetParentPath_def AbsoluteRootPath_def path_queries path_of_handle_def)

definition depth :: "sdf_path \<Rightarrow> nat" where
  "depth p = length (prim_part p) + length (prop_part p)"

lemma absolute_parent:
  assumes "absolute p" "p \<noteq> AbsoluteRootPath"
  shows "absolute (GetParentPath p)" "depth p = Suc (depth (GetParentPath p))"
  using assms
  by (cases p; auto simp: GetParentPath_def path_queries path_of_handle_def AbsoluteRootPath_def depth_def
      Suc_pred length_greater_0_conv [symmetric] simp del: length_greater_0_conv)+

lemma parent_not_root: "absolute p \<Longrightarrow> IsEmpty (GetParentPath p) \<longleftrightarrow> p = AbsoluteRootPath"
  using absolute_parent(1) absolute_not_empty by fastforce

lemma prefix_butlast_iff: "xs \<noteq> [] \<Longrightarrow> prefix ys xs \<longleftrightarrow> ys = xs \<or> prefix ys (butlast xs)"
  by (cases xs rule: rev_cases) auto

lemma HasPrefix_parent:
  assumes "absolute q"
  shows "HasPrefix q p \<longleftrightarrow> q = p \<or> q \<noteq> AbsoluteRootPath \<and> HasPrefix (GetParentPath q) p"
proof -
  obtain ns ps where q: "q = SdfPath AbsoluteRoot ns ps" using assms by (cases q) auto
  obtain r ns' ps' where p: "p = SdfPath r ns' ps'" by (cases p) auto
  show ?thesis
    using prefix_butlast_iff [of ps ps'] prefix_butlast_iff [of ns ns']
    by (auto simp: q p HasPrefix_iff GetParentPath_def path_queries path_of_handle_def AbsoluteRootPath_def)
qed

lemma HasPrefix_depth: "HasPrefix q p \<Longrightarrow> depth p \<le> depth q \<and> (depth p = depth q \<longrightarrow> p = q)"
  by (cases p; cases q) (auto simp: HasPrefix_iff depth_def prefix_def split: if_splits)

section \<open>The invariant of the tree\<close>

definition first_of :: "nat list \<Rightarrow> nat option" where
  "first_of cs = (case cs of [] \<Rightarrow> None | c # _ \<Rightarrow> Some c)"

lemma first_of_simps [simp]: "first_of [] = None" "first_of (c # cs) = Some c"
  by (simp_all add: first_of_def)

definition sibling_link :: "nat \<Rightarrow> nat list \<Rightarrow> nat option \<times> bool" where
  "sibling_link par cs = (case cs of [] \<Rightarrow> (Some par, False) | c # _ \<Rightarrow> (Some c, True))"

lemma sibling_link_simps [simp]: "sibling_link par [] = (Some par, False)" "sibling_link par (c # cs) = (Some c, True)"
  by (simp_all add: sibling_link_def)

definition link_at :: "(nat \<rightharpoonup> 'm entry_shape) \<Rightarrow> nat \<Rightarrow> (nat option \<times> bool) option" where
  "link_at s a = map_option (\<lambda>(p, v, f, l). l) (s a)"

lemma link_at_upd [simp]: "link_at (s(x \<mapsto> (p, v, f, l))) a = (if a = x then Some l else link_at s a)"
  by (simp add: link_at_def)

lemma link_at_Some: "s a = Some (p, v, f, l) \<Longrightarrow> link_at s a = Some l"
  by (simp add: link_at_def)

fun siblings :: "(nat \<rightharpoonup> 'm entry_shape) \<Rightarrow> nat \<Rightarrow> nat list \<Rightarrow> bool" where
  "siblings s par [] \<longleftrightarrow> True"
| "siblings s par (c # cs) \<longleftrightarrow> link_at s c = Some (sibling_link par cs) \<and> siblings s par cs"

lemma siblings_cong: "siblings s par cs \<Longrightarrow> (\<And>c. c \<in> set cs \<Longrightarrow> link_at s' c = link_at s c) \<Longrightarrow> siblings s' par cs"
  by (induction cs) auto

text \<open>The entries of \<open>P\<close> wait for their parent; \<open>K\<close> gives the children of an entry, in the order of their list.\<close>

definition children_of :: "(nat \<rightharpoonup> 'm entry_shape) \<Rightarrow> nat set \<Rightarrow> sdf_path \<Rightarrow> nat set" where
  "children_of s P p = {b. b \<notin> P \<and> (\<exists>q. key_at s b q \<and> q \<noteq> AbsoluteRootPath \<and> GetParentPath q = p)}"

definition entry_ok :: "(nat \<rightharpoonup> 'm entry_shape) \<Rightarrow> nat set \<Rightarrow> (nat \<Rightarrow> nat list) \<Rightarrow> nat \<Rightarrow>
    sdf_path \<Rightarrow> nat option \<Rightarrow> nat option \<times> bool \<Rightarrow> bool" where
  "entry_ok s P K a p f l \<longleftrightarrow>
     absolute p \<and> f = first_of (K a) \<and> siblings s a (K a) \<and> distinct (K a) \<and> set (K a) = children_of s P p \<and>
     (p = AbsoluteRootPath \<longrightarrow> l = (None, False)) \<and>
     (p \<noteq> AbsoluteRootPath \<and> a \<notin> P \<longrightarrow> (\<exists>b. key_at s b (GetParentPath p)))"

definition links_ok :: "(nat \<rightharpoonup> 'm entry_shape) \<Rightarrow> nat set \<Rightarrow> (nat \<Rightarrow> nat list) \<Rightarrow> bool" where
  "links_ok s P K \<longleftrightarrow>
     (\<forall>a p v f l. s a = Some (p, v, f, l) \<longrightarrow> entry_ok s P K a p f l) \<and>
     (\<forall>a b p. key_at s a p \<longrightarrow> key_at s b p \<longrightarrow> a = b) \<and> P \<subseteq> dom s \<and> finite (dom s)"

lemma links_okD: "links_ok s P K \<Longrightarrow> s a = Some (p, v, f, l) \<Longrightarrow> entry_ok s P K a p f l"
  unfolding links_ok_def by blast

lemma links_ok_unique: "links_ok s P K \<Longrightarrow> key_at s a p \<Longrightarrow> key_at s b p \<Longrightarrow> a = b"
  by (simp add: links_ok_def)

lemma links_ok_absolute: "links_ok s P K \<Longrightarrow> key_at s a p \<Longrightarrow> absolute p"
  by (force simp: key_at_def entry_ok_def dest: links_okD)

lemma links_ok_empty: "links_ok Map.empty {} K"
  by (simp add: links_ok_def key_at_def)

lemma key_at_fun: "key_at s a p \<Longrightarrow> key_at s a q \<Longrightarrow> p = q"
  by (auto simp: key_at_def)

lemma key_atI: "s a = Some (p, x) \<Longrightarrow> key_at s a p"
  unfolding key_at_def by blast

lemma key_atE:
  assumes "key_at s a p"
  obtains v f l where "s a = Some (p, v, f, l)"
  using assms by (auto simp: key_at_def)

lemma links_ok_closed:
  assumes ok: "links_ok s P K"
  shows "key_at s a q \<Longrightarrow> HasPrefix q r \<Longrightarrow> (\<And>b q'. b \<in> P \<Longrightarrow> key_at s b q' \<Longrightarrow> \<not> HasPrefix q q') \<Longrightarrow>
    \<exists>b. key_at s b r"
proof (induction "depth q" arbitrary: a q rule: less_induct)
  case less
  show ?case
  proof (cases "q = r")
    case True
    with less.prems(1) show ?thesis by blast
  next
    case False
    from less.prems(1) obtain v f l where a: "s a = Some (q, v, f, l)" by (rule key_atE)
    have q: "absolute q" by (rule links_ok_absolute [OF ok less.prems(1)])
    with False less.prems(2) have r: "q \<noteq> AbsoluteRootPath" "HasPrefix (GetParentPath q) r"
      using HasPrefix_parent [of q r] by auto
    have "HasPrefix q q" using q HasPrefix_parent by blast
    then have "a \<notin> P" using less.prems(1,3) by blast
    then obtain b where b: "key_at s b (GetParentPath q)" using links_okD [OF ok a] r(1) by (auto simp: entry_ok_def)
    have "\<not> HasPrefix (GetParentPath q) q'" if "c \<in> P" "key_at s c q'" for c q'
      using less.prems(3) [OF that] HasPrefix_parent [OF q] r(1) by blast
    then show ?thesis using less.hyps [OF _ b r(2)] absolute_parent(2) [OF q r(1)] by simp
  qed
qed

section \<open>Insertion\<close>

lemma key_at_upd:
  "key_at (s(x \<mapsto> (p, y))) b q \<longleftrightarrow> (if b = x then q = p else key_at s b q)"
  unfolding key_at_def by (auto simp del: split_paired_Ex)

lemma children_add:
  assumes "s x = None" "p = AbsoluteRootPath \<or> x \<in> P'" "P' - {x} = P - {x}"
  shows "children_of (s(x \<mapsto> (p, y))) P' r = children_of s P r"
proof -
  have "\<not> key_at s x q" for q using assms(1) by (simp add: key_at_def)
  then show ?thesis using assms(2,3) unfolding children_of_def key_at_upd by auto
qed

lemma links_ok_add:
  assumes ok: "links_ok s P K" and x: "s x = None" and p: "absolute p" "\<And>b. \<not> key_at s b p"
    and P': "P' = (if p = AbsoluteRootPath then P else insert x P)"
  shows "links_ok (s(x \<mapsto> (p, v, None, None, False))) P' (K(x := []))"
proof -
  let ?s = "s(x \<mapsto> (p, v, None, None, False))"
  have xP: "x \<notin> P" using ok x by (auto simp: links_ok_def)
  have ch: "children_of ?s P' r = children_of s P r" for r
    by (rule children_add) (use x P' in auto)
  have key: "key_at ?s b q \<longleftrightarrow> (if b = x then q = p else key_at s b q)" for b q by (rule key_at_upd)
  have "b \<notin> children_of s P p" for b
  proof
    assume "b \<in> children_of s P p"
    then obtain q v f l where "b \<notin> P" "s b = Some (q, v, f, l)" "q \<noteq> AbsoluteRootPath" "GetParentPath q = p"
      unfolding children_of_def by (blast elim: key_atE)
    with links_okD [OF ok this(2)] p(2) show False by (auto simp: entry_ok_def)
  qed
  then have new: "children_of s P p = {}" by blast
  have "entry_ok ?s P' (K(x := [])) a q f l" if "?s a = Some (q, w, f, l)" for a q w f l
  proof (cases "a = x")
    case True
    with that p new ch P' show ?thesis by (auto simp: entry_ok_def)
  next
    case False
    with that have a: "s a = Some (q, w, f, l)" by simp
    note e = links_okD [OF ok a, unfolded entry_ok_def]
    have "c \<noteq> x" if "c \<in> set (K a)" for c
      using e that x unfolding children_of_def by (auto simp: key_at_def)
    with e have "siblings ?s a (K a)" by (auto intro: siblings_cong)
    moreover have "\<exists>b. key_at ?s b r" if "key_at s b r" for b r
      using that x unfolding key by (intro exI [of _ b]) (auto simp: key_at_def)
    moreover have "a \<notin> P' \<longrightarrow> a \<notin> P" using P' by (auto split: if_splits)
    ultimately show ?thesis using e False ch by (auto simp: entry_ok_def)
  qed
  moreover have "a = b" if "key_at ?s a q" "key_at ?s b q" for a b q
    using that p(2) links_ok_unique [OF ok] unfolding key by (auto split: if_splits)
  moreover have "P' \<subseteq> dom ?s" "finite (dom ?s)" using ok P' by (auto simp: links_ok_def split: if_splits)
  ultimately show ?thesis unfolding links_ok_def by blast
qed

lemma shapes_Some:
  "shapes heap a = Some (p, v, f, l) \<longleftrightarrow>
     (\<exists>n. heap a = Some n \<and> entry_key n = p \<and> entry_mapped n = v \<and> entry_first_child n = f \<and> entry_link n = l)"
  by (auto simp: shapes_def shape_of_def)

lemma AddChild_ok:
  assumes ok: "table_ok h t" and y: "table_shape t y = Some (q, w, f, l)" and x: "table_shape t x = Some (p, v, f', l')"
    and xy: "x \<noteq> y"
  shows "\<exists>t'. AddChild t y x = Some t' \<and> table_ok h t' \<and>
    table_shape t' = (table_shape t)(x \<mapsto> (p, v, f', case f of Some c \<Rightarrow> (Some c, True) | None \<Rightarrow> (Some y, False)),
      y \<mapsto> (q, w, Some x, l))"
proof -
  from y obtain n where n: "table_heap t y = Some n" "entry_key n = q" "entry_mapped n = w" "entry_first_child n = f" "entry_link n = l"
    by (auto simp: shapes_Some)
  from x obtain m where m: "table_heap t x = Some m" "entry_key m = p" "entry_mapped m = v" "entry_first_child m = f'"
    by (auto simp: shapes_Some)
  let ?l = "case f of Some c \<Rightarrow> (Some c, True) | None \<Rightarrow> (Some y, False)"
  obtain t1 where t1: "modify_entry t x (entry_link_update (\<lambda>_. ?l)) = Some t1" "table_ok h t1"
    "table_shape t1 = (table_shape t)(x \<mapsto> (p, v, f', ?l))"
    using modify_entry_ok [OF ok m(1), of "entry_link_update (\<lambda>_. ?l)"] m by (auto simp: shape_of_def)
  have "table_shape t1 y = Some (q, w, f, l)" using t1(3) y xy by simp
  then obtain n' where n': "table_heap t1 y = Some n'" "entry_key n' = q" "entry_mapped n' = w" "entry_link n' = l"
    by (auto simp: shapes_Some)
  obtain t2 where t2: "modify_entry t1 y (entry_first_child_update (\<lambda>_. Some x)) = Some t2" "table_ok h t2"
    "table_shape t2 = (table_shape t1)(y \<mapsto> (q, w, Some x, l))"
    using modify_entry_ok [OF t1(2) n'(1), of "entry_first_child_update (\<lambda>_. Some x)"] n' by (auto simp: shape_of_def)
  with t1 n show ?thesis by (intro exI [of _ t2]) (simp add: AddChild_def)
qed

lemma links_ok_attach:
  assumes ok: "links_ok s (insert x P) K" and y: "s y = Some (GetParentPath p, w, f, l)" and x: "s x = Some (p, v, f', l')"
    and p: "p \<noteq> AbsoluteRootPath" and xP: "x \<notin> P"
  shows "links_ok (s(x \<mapsto> (p, v, f', case f of Some c \<Rightarrow> (Some c, True) | None \<Rightarrow> (Some y, False)), y \<mapsto> (GetParentPath p, w, Some x, l)))
    P (K(y := x # K y))"
proof -
  let ?l = "case f of Some c \<Rightarrow> (Some c, True) | None \<Rightarrow> (Some y, False)"
  let ?s = "s(x \<mapsto> (p, v, f', ?l), y \<mapsto> (GetParentPath p, w, Some x, l))"
  note ex = links_okD [OF ok x, unfolded entry_ok_def]
  note ey = links_okD [OF ok y, unfolded entry_ok_def]
  have kx: "key_at s x p" and ky: "key_at s y (GetParentPath p)"
    using key_atI [of s x p] key_atI [of s y "GetParentPath p"] x y by blast+
  have pp: "GetParentPath p \<noteq> p" using absolute_parent(2) [of p] ex p by fastforce
  then have xy: "x \<noteq> y" using x y by auto
  have key: "key_at ?s b q \<longleftrightarrow> key_at s b q" for b q
    using kx ky key_at_fun [of s] unfolding key_at_upd by auto
  have x_ch: "x \<in> children_of ?s P r \<longleftrightarrow> r = GetParentPath p" for r
    using key_at_fun [of s x] kx xP p unfolding children_of_def key by auto
  have ch: "children_of ?s P r = (if r = GetParentPath p then insert x (children_of s (insert x P) r) else children_of s (insert x P) r)" for r
  proof -
    have "b \<in> children_of ?s P r \<longleftrightarrow> b = x \<and> r = GetParentPath p \<or> b \<in> children_of s (insert x P) r" for b
    proof (cases "b = x")
      case True
      then show ?thesis using x_ch [of r] by (simp add: children_of_def [of s])
    next
      case False
      then show ?thesis unfolding children_of_def key by simp
    qed
    then have "children_of ?s P r = {b. b = x \<and> r = GetParentPath p} \<union> children_of s (insert x P) r"
      unfolding Un_iff set_eq_iff mem_Collect_eq by blast
    then show ?thesis by (simp only:) simp
  qed
  have link: "link_at ?s c = link_at s c" if "c \<noteq> x" for c
    using that y by (auto simp: link_at_def)
  have K: "x \<notin> set (K a)" "siblings ?s a (K a)" if "s a = Some (q, u, g, m)" for a q u g m
  proof -
    note e = links_okD [OF ok that, unfolded entry_ok_def]
    then show "x \<notin> set (K a)" by (auto simp: children_of_def)
    then have "link_at ?s c = link_at s c" if "c \<in> set (K a)" for c using link that by metis
    with e show "siblings ?s a (K a)" by (blast intro: siblings_cong)
  qed
  have "?l = sibling_link y (K y)" using ey by (cases "K y") auto
  then have yK: "siblings ?s y (x # K y)" using K(2) [OF y] xy by simp
  have "entry_ok ?s P (K(y := x # K y)) a q g m" if "?s a = Some (q, u, g, m)" for a q u g m
  proof -
    consider "a = y" | "a = x" | "a \<noteq> x" "a \<noteq> y" by blast
    then show ?thesis
    proof cases
      case 1
      with that have *: "q = GetParentPath p" "g = Some x" "m = l" by simp_all
      show ?thesis unfolding entry_ok_def key ch * 1 using ey yK K(1) [OF y] xy by (simp del: siblings.simps)
    next
      case 2
      with that xy have *: "q = p" "g = f'" "m = ?l" by simp_all
      have "\<exists>b. key_at s b (GetParentPath p)" using ky by blast
      with ex K(2) [OF x] pp p xy show ?thesis unfolding entry_ok_def key ch * 2 by simp
    next
      case 3
      with that have a: "s a = Some (q, u, g, m)" by simp
      have "q \<noteq> GetParentPath p" using links_ok_unique [OF ok ky, of a] a 3 key_atI [of s a q] by blast
      with 3 links_okD [OF ok a] K(2) [OF a] show ?thesis unfolding entry_ok_def key ch by simp
    qed
  qed
  moreover have "a = b" if "key_at ?s a q" "key_at ?s b q" for a b q
    using that links_ok_unique [OF ok] unfolding key by blast
  moreover have "P \<subseteq> dom ?s" "finite (dom ?s)" using ok by (auto simp: links_ok_def)
  ultimately show ?thesis unfolding links_ok_def by blast
qed

text \<open>The values of the entries are those of a map, which is how a caller sees the table.\<close>

definition has_value :: "(nat \<rightharpoonup> 'm entry_shape) \<Rightarrow> sdf_path \<Rightarrow> 'm \<Rightarrow> bool" where
  "has_value s p v \<longleftrightarrow> (\<exists>a f l. s a = Some (p, v, f, l))"

definition present :: "(nat \<rightharpoonup> 'm entry_shape) \<Rightarrow> sdf_path \<Rightarrow> bool" where
  "present s p \<longleftrightarrow> (\<exists>a. key_at s a p)"

lemma present_has_value: "present s p \<longleftrightarrow> (\<exists>v. has_value s p v)"
  unfolding present_def key_at_def has_value_def by (metis surj_pair)

lemma has_value_fresh:
  "s x = None \<Longrightarrow> has_value (s(x \<mapsto> (p, v, f, l))) q w \<longleftrightarrow> has_value s q w \<or> q = p \<and> w = v"
  unfolding has_value_def by (auto simp del: split_paired_Ex) (metis option.distinct(1))+

lemma has_value_links:
  assumes "s x = Some (p, v, f, l)"
  shows "has_value (s(x \<mapsto> (p, v, f', l'))) q w \<longleftrightarrow> has_value s q w"
  unfolding has_value_def
proof (intro iffI; elim exE)
  fix a g m
  assume "(s(x \<mapsto> (p, v, f', l'))) a = Some (q, w, g, m)"
  then show "\<exists>a f l. s a = Some (q, w, f, l)" using assms by (auto split: if_splits)
next
  fix a g m
  assume "s a = Some (q, w, g, m)"
  then show "\<exists>a f l. (s(x \<mapsto> (p, v, f', l'))) a = Some (q, w, f, l)" using assms
    by (cases "a = x") (auto intro!: exI [of _ a])
qed

text \<open>What insertion adds: the entry and the missing ancestors.\<close>

definition inserted_value :: "(nat \<rightharpoonup> 'm entry_shape) \<Rightarrow> 'm \<Rightarrow> sdf_path \<Rightarrow> 'm \<Rightarrow> sdf_path \<Rightarrow> 'm \<Rightarrow> bool" where
  "inserted_value s dflt p v q w \<longleftrightarrow>
     \<not> present s p \<and> (q = p \<and> w = v \<or> q \<noteq> p \<and> HasPrefix p q \<and> \<not> present s q \<and> w = dflt)"

lemma Table_insert_ok:
  assumes "absolute p" "table_ok h t" "links_ok (table_shape t) P K"
    "\<forall>a q. a \<in> P \<longrightarrow> key_at (table_shape t) a q \<longrightarrow> \<not> HasPrefix p q"
  shows "\<exists>t' a K'. Table_insert h dflt t p v = Some (t', a, \<not> present (table_shape t) p) \<and> table_ok h t' \<and>
    links_ok (table_shape t') P K' \<and> key_at (table_shape t') a p \<and>
    (\<forall>b q. key_at (table_shape t) b q \<longrightarrow> key_at (table_shape t') b q) \<and>
    (\<forall>q w. has_value (table_shape t') q w \<longleftrightarrow> has_value (table_shape t) q w \<or> inserted_value (table_shape t) dflt p v q w)"
  using assms
proof (induction "depth p" arbitrary: p v t P K rule: less_induct)
  case less
  note p = less.prems(1) and ok = less.prems(2) and tree = less.prems(3) and pending = less.prems(4) [rule_format]
  obtain t1 x inserted where t1: "InsertInTable h t p v = Some (t1, x, inserted)" "table_ok h t1"
    "key_at (table_shape t1) x p"
    "if inserted then (\<forall>b. \<not> key_at (table_shape t) b p) \<and> table_shape t x = None \<and>
        table_shape t1 = (table_shape t)(x \<mapsto> (p, v, None, None, False))
     else table_shape t1 = table_shape t"
    using InsertInTable_ok [OF ok] by metis
  let ?s = "table_shape t"
  show ?case
  proof (cases inserted)
    case False
    with t1 have same: "table_shape t1 = ?s" by simp
    then have "present ?s p" using t1(3) by (auto simp: present_def)
    moreover have "Table_insert h dflt t p v = Some (t1, x, False)"
      using t1(1) False by (subst Table_insert.simps) simp
    ultimately show ?thesis using t1(2,3) tree same
      by (intro exI [of _ t1] exI [of _ x] exI [of _ K]) (simp add: inserted_value_def)
  next
    case True
    with t1(4) have new: "\<And>b. \<not> key_at ?s b p" "?s x = None" and s1: "table_shape t1 = ?s(x \<mapsto> (p, v, None, None, False))"
      by simp_all
    have absent: "\<not> present ?s p" using new(1) by (simp add: present_def)
    have kept: "key_at (table_shape t1) b q" if "key_at ?s b q" for b q
      using that new(2) unfolding s1 key_at_upd by (auto simp: key_at_def shapes_def)
    have value1: "has_value (table_shape t1) q w \<longleftrightarrow> has_value ?s q w \<or> q = p \<and> w = v" for q w
      unfolding s1 by (rule has_value_fresh) (rule new(2))
    show ?thesis
    proof (cases "p = AbsoluteRootPath")
      case root: True
      have "links_ok (table_shape t1) P (K(x := []))"
        using links_ok_add [OF tree new(2) p new(1), of P] root unfolding s1 by simp
      moreover have "Table_insert h dflt t p v = Some (t1, x, True)"
        using t1(1) True root by (subst Table_insert.simps) simp
      moreover have "inserted_value ?s dflt p v q w \<longleftrightarrow> q = p \<and> w = v" for q w
        using absent root HasPrefix_parent [OF p] by (auto simp: inserted_value_def)
      ultimately show ?thesis using t1(2,3) kept value1 absent
        by (intro exI [of _ t1] exI [of _ x] exI [of _ "K(x := [])"]) simp
    next
      case False
      let ?pp = "GetParentPath p"
      have pp: "absolute ?pp" "depth ?pp < depth p" using absolute_parent [OF p False] by simp_all
      have tree1: "links_ok (table_shape t1) (insert x P) (K(x := []))"
        using links_ok_add [OF tree new(2) p new(1), of "insert x P"] False unfolding s1 by simp
      have PD: "P \<subseteq> dom ?s" using tree by (simp add: links_ok_def)
      have xP: "x \<notin> P" using PD new(2) by auto
      have "\<not> HasPrefix ?pp q" if "a \<in> insert x P" "key_at (table_shape t1) a q" for a q
      proof (cases "a = x")
        case True
        then have "q = p" using that(2) t1(3) key_at_fun by metis
        then show ?thesis using pp(2) HasPrefix_depth by fastforce
      next
        case False
        then have "a \<in> P" "key_at ?s a q" using that unfolding s1 key_at_upd by auto
        from pending [OF this] show ?thesis using HasPrefix_parent [OF p] \<open>p \<noteq> AbsoluteRootPath\<close> by blast
      qed
      then have pending1: "\<forall>a q. a \<in> insert x P \<longrightarrow> key_at (table_shape t1) a q \<longrightarrow> \<not> HasPrefix ?pp q" by blast
      obtain t2 y K2 where t2: "Table_insert h dflt t1 ?pp dflt = Some (t2, y, \<not> present (table_shape t1) ?pp)" "table_ok h t2"
        "links_ok (table_shape t2) (insert x P) K2" "key_at (table_shape t2) y ?pp"
        "\<And>b q. key_at (table_shape t1) b q \<Longrightarrow> key_at (table_shape t2) b q"
        "\<And>q w. has_value (table_shape t2) q w \<longleftrightarrow> has_value (table_shape t1) q w \<or> inserted_value (table_shape t1) dflt ?pp dflt q w"
        using less.hyps [OF pp(2,1) t1(2) tree1 pending1, of dflt] by blast
      have "key_at (table_shape t2) x p" by (rule t2(5) [OF t1(3)])
      then obtain v2 f' l' where x2: "table_shape t2 x = Some (p, v2, f', l')" by (rule key_atE)
      obtain w2 f l where y2: "table_shape t2 y = Some (?pp, w2, f, l)" using t2(4) by (rule key_atE)
      have "?pp \<noteq> p" using pp(2) by auto
      then have xy: "x \<noteq> y" using x2 y2 by auto
      from AddChild_ok [OF t2(2) y2 x2 xy] obtain t3 where t3: "AddChild t2 y x = Some t3" "table_ok h t3"
        "table_shape t3 = (table_shape t2)(x \<mapsto> (p, v2, f', case f of Some c \<Rightarrow> (Some c, True) | None \<Rightarrow> (Some y, False)),
          y \<mapsto> (?pp, w2, Some x, l))" by blast
      have tree3: "links_ok (table_shape t3) P (K2(y := x # K2 y))"
        unfolding t3(3) by (rule links_ok_attach [OF t2(3) y2 x2 False xP])
      have key3: "key_at (table_shape t3) b q" if "key_at (table_shape t2) b q" for b q
        using that x2 y2 xy unfolding t3(3) key_at_upd by (auto simp: key_at_def)
      have value3: "has_value (table_shape t3) q w \<longleftrightarrow> has_value (table_shape t2) q w" for q w
      proof -
        let ?s2 = "(table_shape t2)(x \<mapsto> (p, v2, f', case f of Some c \<Rightarrow> (Some c, True) | None \<Rightarrow> (Some y, False)))"
        have "?s2 y = Some (?pp, w2, f, l)" using y2 xy by simp
        then have "has_value (table_shape t3) q w \<longleftrightarrow> has_value ?s2 q w" unfolding t3(3) by (rule has_value_links)
        also have "\<dots> \<longleftrightarrow> has_value (table_shape t2) q w" using x2 by (rule has_value_links)
        finally show ?thesis .
      qed
      have run: "Table_insert h dflt t p v = Some (t3, x, True)"
        using t1(1) True t2(1) t3(1) parent_not_root [OF p] False by (subst Table_insert.simps) simp
      have ins: "inserted_value ?s dflt p v q w \<longleftrightarrow> q = p \<and> w = v \<or> inserted_value (table_shape t1) dflt ?pp dflt q w" for q w
      proof -
        have pre: "HasPrefix p q \<and> q \<noteq> p \<longleftrightarrow> HasPrefix ?pp q" for q
          using HasPrefix_parent [OF p, of q] False HasPrefix_depth [of ?pp q] pp(2) by auto
        have "\<not> HasPrefix ?pp q'" if "b \<in> P" "key_at ?s b q'" for b q'
          using pending [OF that] pre by blast
        then have closed: "present ?s ?pp \<Longrightarrow> HasPrefix ?pp q \<Longrightarrow> present ?s q" for q
          unfolding present_def using links_ok_closed [OF tree] by blast
        have present1: "present (table_shape t1) q \<longleftrightarrow> present ?s q \<or> q = p" for q
          unfolding present_has_value value1 by blast
        have "HasPrefix ?pp ?pp" using HasPrefix_parent [OF pp(1)] by blast
        then show ?thesis using absent pre [of q] closed [of q] \<open>?pp \<noteq> p\<close> unfolding inserted_value_def present1
          by (cases "q = ?pp"; cases "q = p"; cases "HasPrefix ?pp q") auto
      qed
      have "key_at (table_shape t3) x p" by (intro key3 t2(5) t1(3))
      moreover have "\<forall>b q. key_at ?s b q \<longrightarrow> key_at (table_shape t3) b q" by (intro allI impI key3 t2(5) kept)
      moreover have "\<forall>q w. has_value (table_shape t3) q w \<longleftrightarrow> has_value ?s q w \<or> inserted_value ?s dflt p v q w"
        unfolding value3 t2(6) value1 ins by blast
      moreover have "Table_insert h dflt t p v = Some (t3, x, \<not> present ?s p)" using run absent by simp
      ultimately show ?thesis using t3(2) tree3 by blast
    qed
  qed
qed

section \<open>Subtrees\<close>

definition key_of :: "(nat \<rightharpoonup> 'm entry_shape) \<Rightarrow> nat \<Rightarrow> sdf_path" where
  "key_of s a = fst (the (s a))"

definition subtree :: "(nat \<rightharpoonup> 'm entry_shape) \<Rightarrow> sdf_path \<Rightarrow> nat set" where
  "subtree s p = {b. \<exists>q. key_at s b q \<and> HasPrefix q p}"

lemma key_of_Some [simp]: "s a = Some (p, x) \<Longrightarrow> key_of s a = p"
  by (simp add: key_of_def)

lemma key_at_key_of: "key_at s a p \<Longrightarrow> key_of s a = p"
  by (auto simp: key_at_def key_of_def)

lemma subtree_dom: "subtree s p \<subseteq> dom s"
  by (auto simp: subtree_def key_at_def)

lemma finite_subtree: "links_ok s P K \<Longrightarrow> finite (subtree s p)"
  using subtree_dom [of s p] finite_subset by (auto simp: links_ok_def)

lemma children_key:
  assumes "links_ok s {} K" "s a = Some (p, v, f, l)" "c \<in> set (K a)"
  shows "\<exists>q v' f' l'. s c = Some (q, v', f', l') \<and> q \<noteq> AbsoluteRootPath \<and> GetParentPath q = p \<and> depth q = Suc (depth p) \<and> absolute q"
proof -
  from links_okD [OF assms(1,2)] assms(3) obtain q where q: "key_at s c q" "q \<noteq> AbsoluteRootPath" "GetParentPath q = p"
    by (auto simp: entry_ok_def children_of_def)
  have "absolute q" by (rule links_ok_absolute [OF assms(1) q(1)])
  with q absolute_parent(2) [OF this q(2)] show ?thesis by (auto elim: key_atE)
qed

lemma child_above:
  assumes ok: "links_ok s {} K" and a: "s a = Some (p, v, f, l)"
  shows "key_at s b q \<Longrightarrow> HasPrefix q p \<Longrightarrow> q \<noteq> p \<Longrightarrow> \<exists>c \<in> set (K a). HasPrefix q (key_of s c)"
proof (induction "depth q" arbitrary: b q rule: less_induct)
  case less
  have q: "absolute q" by (rule links_ok_absolute [OF ok less.prems(1)])
  with less.prems(2,3) have pq: "q \<noteq> AbsoluteRootPath" "HasPrefix (GetParentPath q) p"
    using HasPrefix_parent [of q p] by auto
  show ?case
  proof (cases "GetParentPath q = p")
    case True
    have "b \<in> set (K a)" using links_okD [OF ok a] less.prems(1) pq(1) True by (auto simp: entry_ok_def children_of_def)
    moreover have "HasPrefix q (key_of s b)" using key_at_key_of [OF less.prems(1)] HasPrefix_parent [OF q] by simp
    ultimately show ?thesis by blast
  next
    case False
    from less.prems(1) obtain w g m where "s b = Some (q, w, g, m)" by (rule key_atE)
    from links_okD [OF ok this] pq(1) obtain b' where "key_at s b' (GetParentPath q)" by (auto simp: entry_ok_def)
    from less.hyps [OF _ this pq(2) False] absolute_parent(2) [OF q pq(1)]
    obtain c where "c \<in> set (K a)" "HasPrefix (GetParentPath q) (key_of s c)" by auto
    then show ?thesis using HasPrefix_parent [OF q] pq(1) by blast
  qed
qed

lemma subtree_children:
  assumes ok: "links_ok s {} K" and a: "s a = Some (p, v, f, l)"
  shows "subtree s p = insert a (\<Union>c \<in> set (K a). subtree s (key_of s c))"
proof (intro equalityI subsetI)
  fix b
  assume "b \<in> subtree s p"
  then obtain q where q: "key_at s b q" "HasPrefix q p" by (auto simp: subtree_def)
  show "b \<in> insert a (\<Union>c \<in> set (K a). subtree s (key_of s c))"
  proof (cases "q = p")
    case True
    then have "b = a" using links_ok_unique [OF ok q(1)] key_atI [of s a] a by blast
    then show ?thesis by simp
  next
    case False
    from child_above [OF ok a q False] q(1) show ?thesis by (auto simp: subtree_def)
  qed
next
  fix b
  assume "b \<in> insert a (\<Union>c \<in> set (K a). subtree s (key_of s c))"
  then consider "b = a" | c where "c \<in> set (K a)" "b \<in> subtree s (key_of s c)" by blast
  then show "b \<in> subtree s p"
  proof cases
    case 1
    have "key_at s a p" using key_atI [of s a] a by blast
    moreover have "HasPrefix p p" using links_okD [OF ok a] HasPrefix_parent [of p p] by (simp add: entry_ok_def)
    ultimately show ?thesis using 1 by (auto simp: subtree_def)
  next
    case 2
    from children_key [OF ok a 2(1)] obtain q v' f' l' where
      c: "s c = Some (q, v', f', l')" "q \<noteq> AbsoluteRootPath" "GetParentPath q = p" "absolute q" by blast
    have "HasPrefix p p" using links_okD [OF ok a] HasPrefix_parent [of p p] by (simp add: entry_ok_def)
    then have "HasPrefix q p" using HasPrefix_parent [OF c(4)] c(2,3) by blast
    with 2(2) c(1) show ?thesis unfolding subtree_def by (auto intro: paths.prefix_trans)
  qed
qed

lemma subtree_siblings:
  assumes ok: "links_ok s {} K" and a: "s a = Some (p, v, f, l)" and c: "c \<in> set (K a)" "d \<in> set (K a)" "c \<noteq> d"
  shows "subtree s (key_of s c) \<inter> subtree s (key_of s d) = {}"
proof -
  from children_key [OF ok a c(1)] obtain q v' f' l' where q: "s c = Some (q, v', f', l')" "depth q = Suc (depth p)" by blast
  from children_key [OF ok a c(2)] obtain r w' g' m' where r: "s d = Some (r, w', g', m')" "depth r = Suc (depth p)" by blast
  have "q \<noteq> r" using links_ok_unique [OF ok, of c q d] c(3) q r key_atI [of s] by blast
  then have "\<not> (HasPrefix x q \<and> HasPrefix x r)" for x
    using paths.prefix_chain [of x q r] HasPrefix_depth [of q r] HasPrefix_depth [of r q] q(2) r(2) by auto
  moreover have "key_of s c = q" "key_of s d = r" using q(1) r(1) by simp_all
  ultimately show ?thesis unfolding subtree_def by (auto dest: key_at_fun)
qed

lemma subtree_not_self:
  assumes ok: "links_ok s {} K" and a: "s a = Some (p, v, f, l)" and c: "c \<in> set (K a)"
  shows "a \<notin> subtree s (key_of s c)"
proof -
  from children_key [OF ok a c] obtain q v' f' l' where q: "s c = Some (q, v', f', l')" "depth q = Suc (depth p)" by blast
  then have "\<not> HasPrefix p q" using HasPrefix_depth [of p q] by auto
  then show ?thesis using q(1) a by (auto simp: subtree_def key_at_def)
qed

section \<open>Removal\<close>

text \<open>What a call of \<open>_EraseSubtree\<close> does, when it starts with the entries of \<open>D\<close> gone.\<close>

definition erases :: "(sdf_path \<Rightarrow> 64 word) \<Rightarrow> erase_call \<Rightarrow> (nat \<rightharpoonup> 'm entry_shape) \<Rightarrow> nat set \<Rightarrow> nat set \<Rightarrow> bool" where
  "erases h call s D E \<longleftrightarrow> (\<forall>t :: 'm path_table. table_ok h t \<longrightarrow> table_shape t = s |` (- D) \<longrightarrow>
     (\<exists>t'. erase_run h call t = Some t' \<and> table_ok h t' \<and> table_shape t' = s |` (- (D \<union> E))))"

lemma erasesD:
  "erases h call s D E \<Longrightarrow> table_ok h t \<Longrightarrow> table_shape t = s |` (- D) \<Longrightarrow>
   \<exists>t'. erase_run h call t = Some t' \<and> table_ok h t' \<and> table_shape t' = s |` (- (D \<union> E))"
  unfolding erases_def by blast

lemma EraseFromTable_restrict:
  assumes "table_ok h t" "table_shape t = s |` (- D)" "a \<in> dom s" "a \<notin> D"
  shows "\<exists>t'. EraseFromTable h t a = Some t' \<and> table_ok h t' \<and> table_shape t' = s |` (- insert a D)"
proof -
  have "a \<in> dom (table_shape t)" unfolding assms(2) using assms(3,4) by auto
  moreover have "(s |` (- D))(a := None) = s |` (- insert a D)" by (auto simp: fun_eq_iff restrict_map_def)
  ultimately show ?thesis using EraseFromTable_ok [OF assms(1), of a] assms(2) by metis
qed

lemma GetNextSibling_link:
  "entry_link n = sibling_link par cs \<Longrightarrow> GetNextSibling n = first_of cs"
  by (cases cs) (simp_all add: GetNextSibling_def)

lemma erase_siblings:
  assumes "\<And>c D. c \<in> set cs \<Longrightarrow> subtree s (key_of s c) \<inter> D = {} \<Longrightarrow>
      erases h (EraseSubtree c) s D (subtree s (key_of s c) - {c})"
    "siblings s par cs" "distinct cs"
    "\<And>c. c \<in> set cs \<Longrightarrow> c \<in> subtree s (key_of s c)"
    "\<And>c d. c \<in> set cs \<Longrightarrow> d \<in> set cs \<Longrightarrow> c \<noteq> d \<Longrightarrow> subtree s (key_of s c) \<inter> subtree s (key_of s d) = {}"
    "(\<Union>c \<in> set cs. subtree s (key_of s c)) \<inter> D = {}"
  shows "erases h (EraseSiblings (first_of cs) (if cs = [] then None else first_of (tl cs))) s D (\<Union>c \<in> set cs. subtree s (key_of s c))"
  using assms
proof (induction cs arbitrary: D)
  case Nil
  then show ?case by (simp add: erases_def erase_run.simps [of h "EraseSiblings None None"])
next
  case (Cons c cs)
  let ?sub = "\<lambda>c. subtree s (key_of s c)"
  have c: "c \<in> ?sub c" by (rule Cons.prems(4)) simp
  have dis: "?sub c \<inter> (\<Union>d \<in> set cs. ?sub d) = {}" using Cons.prems(3,5) by fastforce
  have cD: "?sub c \<inter> D = {}" "(\<Union>d \<in> set cs. ?sub d) \<inter> (D \<union> ?sub c) = {}" using Cons.prems(6) dis by auto
  have rest: "erases h (EraseSiblings (first_of cs) (if cs = [] then None else first_of (tl cs))) s (D \<union> ?sub c) (\<Union>d \<in> set cs. ?sub d)"
    by (rule Cons.IH) (use Cons.prems cD(2) in auto)
  show ?case unfolding erases_def
  proof (intro allI impI)
    fix t :: "'a path_table"
    assume t: "table_ok h t" "table_shape t = s |` (- D)"
    have "erases h (EraseSubtree c) s D (?sub c - {c})" by (rule Cons.prems(1)) (use cD(1) in simp_all)
    from erasesD [OF this t] obtain t1 where t1: "erase_run h (EraseSubtree c) t = Some t1" "table_ok h t1"
      "table_shape t1 = s |` (- (D \<union> (?sub c - {c})))" by blast
    have "c \<in> dom s" using c subtree_dom by blast
    with EraseFromTable_restrict [OF t1(2,3)] c cD(1) obtain t2 where
      t2: "EraseFromTable h t1 c = Some t2" "table_ok h t2" "table_shape t2 = s |` (- insert c (D \<union> (?sub c - {c})))" by blast
    have "insert c (D \<union> (?sub c - {c})) = D \<union> ?sub c" using c by blast
    with t2(3) have s2: "table_shape t2 = s |` (- (D \<union> ?sub c))" by simp
    from erasesD [OF rest t2(2) s2] obtain t3 where
      t3: "erase_run h (EraseSiblings (first_of cs) (if cs = [] then None else first_of (tl cs))) t2 = Some t3" "table_ok h t3"
      "table_shape t3 = s |` (- (D \<union> ?sub c \<union> (\<Union>d \<in> set cs. ?sub d)))" by blast
    have run: "erase_run h (EraseSiblings (Some c) (first_of cs)) t = Some t3"
    proof (cases cs)
      case Nil
      then show ?thesis using t1(1) t2(1) t3(1) by (subst erase_run.simps) simp
    next
      case (Cons c' cs')
      have "c' \<in> ?sub c'" "c' \<notin> D \<union> ?sub c" using Cons Cons.prems(4) [of c'] cD(2) by auto
      then have "link_at (table_shape t2) c' = Some (sibling_link par cs')"
        using Cons.prems(2) Cons unfolding s2 by (simp add: link_at_def)
      then obtain m where m: "table_heap t2 c' = Some m" "entry_link m = sibling_link par cs'"
        by (auto simp: link_at_def shapes_def shape_of_def)
      then show ?thesis using Cons t1(1) t2(1) t3(1) GetNextSibling_link [OF m(2)] by (subst erase_run.simps) simp
    qed
    have "D \<union> ?sub c \<union> (\<Union>d \<in> set cs. ?sub d) = D \<union> (\<Union>d \<in> set (c # cs). ?sub d)" by auto
    with t3 run show "\<exists>t'. erase_run h (EraseSiblings (first_of (c # cs)) (if c # cs = [] then None else first_of (tl (c # cs)))) t = Some t' \<and>
        table_ok h t' \<and> table_shape t' = s |` (- (D \<union> (\<Union>d \<in> set (c # cs). ?sub d)))" by simp
  qed
qed

lemma child_in_subtree:
  assumes "links_ok s {} K" "s a = Some (p, v, f, l)" "c \<in> set (K a)"
  shows "c \<in> subtree s (key_of s c)" "subtree s (key_of s c) \<subset> subtree s p"
proof -
  from children_key [OF assms] obtain q v' f' l' where c: "s c = Some (q, v', f', l')" by blast
  show in_c: "c \<in> subtree s (key_of s c)" using subtree_children [OF assms(1) c] c by simp
  show "subtree s (key_of s c) \<subset> subtree s p"
    using subtree_children [OF assms(1,2)] assms(3) subtree_not_self [OF assms] by blast
qed

lemma sibling_entry:
  assumes "table_shape t = s |` (- D)" "siblings s par (c # cs)" "c \<notin> D"
  shows "\<exists>m. table_heap t c = Some m \<and> GetNextSibling m = first_of cs"
proof -
  have "link_at (table_shape t) c = Some (sibling_link par cs)"
    using assms(2,3) unfolding assms(1) by (simp add: link_at_def)
  then obtain m where m: "table_heap t c = Some m" "entry_link m = sibling_link par cs"
    by (auto simp: link_at_def shapes_def shape_of_def)
  from GetNextSibling_link [OF m(2)] m(1) show ?thesis by blast
qed

lemma erase_first_child:
  assumes IH: "\<And>d D. d \<in> set (c # cs) \<Longrightarrow> subtree s (key_of s d) \<inter> D = {} \<Longrightarrow>
      erases h (EraseSubtree d) s D (subtree s (key_of s d) - {d})"
    and sib: "siblings s par (c # cs)" "distinct (c # cs)"
    and self: "\<And>d. d \<in> set (c # cs) \<Longrightarrow> d \<in> subtree s (key_of s d)"
    and dis: "\<And>d d'. d \<in> set (c # cs) \<Longrightarrow> d' \<in> set (c # cs) \<Longrightarrow> d \<noteq> d' \<Longrightarrow>
      subtree s (key_of s d) \<inter> subtree s (key_of s d') = {}"
    and D: "(\<Union>d \<in> set (c # cs). subtree s (key_of s d)) \<inter> D = {}"
  shows "erases h (EraseSubtreeAndSiblings c) s D ((\<Union>d \<in> set (c # cs). subtree s (key_of s d)) - {c})"
proof -
  let ?sub = "\<lambda>c. subtree s (key_of s c)"
  define D1 where "D1 = D \<union> (?sub c - {c})"
  have c1: "erases h (EraseSubtree c) s D (?sub c - {c})" by (rule IH) (use D in auto)
  have others: "(\<Union>d \<in> set cs. ?sub d) \<inter> ?sub c = {}" using dis sib(2) by fastforce
  then have D1: "(\<Union>d \<in> set cs. ?sub d) \<inter> D1 = {}" using D unfolding D1_def by auto
  have rest: "erases h (EraseSiblings (first_of cs) (if cs = [] then None else first_of (tl cs))) s D1 (\<Union>d \<in> set cs. ?sub d)"
    by (rule erase_siblings [OF _ _ _ _ _ D1, of h par]) (use IH self dis sib in auto)
  have c: "c \<in> ?sub c" "c \<notin> D" by (use self [of c] D in auto)
  have all: "D1 \<union> (\<Union>d \<in> set cs. ?sub d) = D \<union> ((\<Union>d \<in> set (c # cs). ?sub d) - {c})"
    using others c unfolding D1_def by auto
  show ?thesis unfolding erases_def
  proof (intro allI impI)
    fix t :: "'a path_table"
    assume t: "table_ok h t" "table_shape t = s |` (- D)"
    from erasesD [OF c1 t] obtain t1 where t1: "erase_run h (EraseSubtree c) t = Some t1" "table_ok h t1"
      "table_shape t1 = s |` (- D1)" unfolding D1_def by blast
    from erasesD [OF rest t1(2,3)] obtain t2 where
      t2: "erase_run h (EraseSiblings (first_of cs) (if cs = [] then None else first_of (tl cs))) t1 = Some t2" "table_ok h t2"
      "table_shape t2 = s |` (- (D1 \<union> (\<Union>d \<in> set cs. ?sub d)))" by blast
    have "c \<notin> D1" using c(2) by (simp add: D1_def)
    from sibling_entry [OF t1(3) sib(1) this] obtain m where m: "table_heap t1 c = Some m" "GetNextSibling m = first_of cs" by blast
    have "erase_run h (EraseSubtreeAndSiblings c) t = Some t2"
    proof (cases cs)
      case Nil
      then show ?thesis using t1(1) t2(1) m by (subst erase_run.simps) simp
    next
      case (Cons c' cs')
      then have "c' \<notin> D1" "siblings s par (c' # cs')" using D1 self [of c'] sib(1) by auto
      from sibling_entry [OF t1(3) this(2,1)] Cons t1(1) t2(1) m show ?thesis by (subst erase_run.simps) auto
    qed
    with t2(2,3) show "\<exists>t'. erase_run h (EraseSubtreeAndSiblings c) t = Some t' \<and> table_ok h t' \<and>
        table_shape t' = s |` (- (D \<union> ((\<Union>d \<in> set (c # cs). ?sub d) - {c})))" unfolding all by blast
  qed
qed

lemma erase_subtree:
  assumes ok: "links_ok s {} K"
  shows "s a = Some (p, v, f, l) \<Longrightarrow> subtree s p \<inter> D = {} \<Longrightarrow> erases h (EraseSubtree a) s D (subtree s p - {a})"
proof (induction "card (subtree s p)" arbitrary: a p v f l D rule: less_induct)
  case less
  note a = less.prems(1)
  note e = links_okD [OF ok a, unfolded entry_ok_def]
  let ?sub = "\<lambda>c. subtree s (key_of s c)"
  have sub: "subtree s p = insert a (\<Union>c \<in> set (K a). ?sub c)" by (rule subtree_children [OF ok a])
  have IH: "erases h (EraseSubtree c) s D' (?sub c - {c})" if "c \<in> set (K a)" "?sub c \<inter> D' = {}" for c D'
  proof -
    from children_key [OF ok a that(1)] obtain q v' f' l' where c: "s c = Some (q, v', f', l')" by blast
    have "card (subtree s q) < card (subtree s p)"
      using child_in_subtree(2) [OF ok a that(1)] c finite_subtree [OF ok] by (simp add: psubset_card_mono)
    from less.hyps [OF this c] that(2) c show ?thesis by simp
  qed
  have self: "a \<notin> ?sub c" if "c \<in> set (K a)" for c by (rule subtree_not_self [OF ok a that])
  show ?case unfolding erases_def
  proof (intro allI impI)
    fix t :: "'a path_table"
    assume t: "table_ok h t" "table_shape t = s |` (- D)"
    have "table_shape t a = Some (p, v, f, l)" using a less.prems(2) sub unfolding t(2) by auto
    then obtain n where n: "table_heap t a = Some n" "entry_first_child n = first_of (K a)" using e by (auto simp: shapes_Some)
    show "\<exists>t'. erase_run h (EraseSubtree a) t = Some t' \<and> table_ok h t' \<and> table_shape t' = s |` (- (D \<union> (subtree s p - {a})))"
    proof (cases "K a")
      case Nil
      then have "erase_run h (EraseSubtree a) t = Some t" using n by (subst erase_run.simps) simp
      then show ?thesis using t sub Nil by simp
    next
      case (Cons c cs)
      let ?E = "(\<Union>d \<in> set (c # cs). ?sub d) - {c}"
      have c: "c \<in> set (K a)" by (simp add: Cons)
      have "erases h (EraseSubtreeAndSiblings c) s D ?E"
        unfolding Cons [symmetric]
        by (rule erase_first_child [of c cs s h a D, folded Cons])
          (rule IH, assumption+, use e in blast, use e in blast, erule child_in_subtree(1) [OF ok a],
            erule (2) subtree_siblings [OF ok a], use less.prems(2) sub in blast)
      from erasesD [OF this t] obtain t1 where t1: "erase_run h (EraseSubtreeAndSiblings c) t = Some t1" "table_ok h t1"
        "table_shape t1 = s |` (- (D \<union> ?E))" by blast
      have "c \<in> ?sub c" by (rule child_in_subtree(1) [OF ok a c])
      then have c': "c \<in> dom s" "c \<notin> D \<union> ?E" using subtree_dom less.prems(2) sub c by auto
      from EraseFromTable_restrict [OF t1(2,3) c'] obtain t2 where t2: "EraseFromTable h t1 c = Some t2" "table_ok h t2"
        "table_shape t2 = s |` (- insert c (D \<union> ?E))" by blast
      have "insert c (D \<union> ?E) = D \<union> (subtree s p - {a})"
        using \<open>c \<in> ?sub c\<close> self unfolding sub Cons by auto
      with t2(3) have "table_shape t2 = s |` (- (D \<union> (subtree s p - {a})))" by simp
      moreover have "erase_run h (EraseSubtree a) t = Some t2" using n Cons t1(1) t2(1) by (subst erase_run.simps) simp
      ultimately show ?thesis using t2(2) by blast
    qed
  qed
qed

text \<open>\<open>RemoveChild\<close> changes the first child of the parent or the link of the preceding child.\<close>

definition core_at :: "(nat \<rightharpoonup> 'm entry_shape) \<Rightarrow> nat \<Rightarrow> (sdf_path \<times> 'm) option" where
  "core_at s a = map_option (\<lambda>(p, v, f, l). (p, v)) (s a)"

definition first_at :: "(nat \<rightharpoonup> 'm entry_shape) \<Rightarrow> nat \<Rightarrow> nat option option" where
  "first_at s a = map_option (\<lambda>(p, v, f, l). f) (s a)"

lemma parts_at_upd [simp]:
  "core_at (s(x \<mapsto> (p, v, f, l))) a = (if a = x then Some (p, v) else core_at s a)"
  "first_at (s(x \<mapsto> (p, v, f, l))) a = (if a = x then Some f else first_at s a)"
  by (simp_all add: core_at_def first_at_def)

lemma parts_at:
  assumes "s a = Some (p, v, f, l)"
  shows "core_at s a = Some (p, v)" "first_at s a = Some f" "link_at s a = Some l"
  using assms by (simp_all add: core_at_def first_at_def link_at_def)

lemma core_at_Some: "core_at s a = Some (p, v) \<longleftrightarrow> (\<exists>f l. s a = Some (p, v, f, l))"
  by (auto simp: core_at_def)

lemma key_at_core: "key_at s a p \<longleftrightarrow> (\<exists>v. core_at s a = Some (p, v))"
  unfolding core_at_Some key_at_def by (metis surj_pair)

lemma has_value_core: "has_value s p v \<longleftrightarrow> (\<exists>a. core_at s a = Some (p, v))"
  unfolding core_at_Some has_value_def by blast

lemma siblings_append:
  "siblings s par (us @ e # vs) \<Longrightarrow> siblings s par (e # vs)"
  by (induction us) auto

lemma preceding_child_siblings:
  "siblings (table_shape t) par (us @ b # e # vs) \<Longrightarrow> distinct (us @ b # e # vs) \<Longrightarrow>
   preceding_child (table_heap t) (first_of (us @ b # e # vs)) e = Some b"
proof (induction us)
  case Nil
  from sibling_entry [of t "table_shape t" "{}" par b "e # vs"] Nil(1) obtain m where
    "table_heap t b = Some m" "GetNextSibling m = Some e" by (auto simp: restrict_map_def)
  then show ?case by (subst preceding_child.simps) simp
next
  case (Cons u us)
  from sibling_entry [of t "table_shape t" "{}" par u "us @ b # e # vs"] Cons.prems(1) obtain m where
    m: "table_heap t u = Some m" "GetNextSibling m = first_of (us @ b # e # vs)" by (auto simp: restrict_map_def)
  moreover have "first_of (us @ b # e # vs) \<noteq> Some e" using Cons.prems(2) by (cases us) auto
  ultimately show ?case using Cons by (subst preceding_child.simps) simp
qed

lemma RemoveChild_ok:
  assumes ok: "table_ok h t" and par: "table_shape t par = Some (q, w, first_of (us @ e # vs), m)"
    and sib: "siblings (table_shape t) par (us @ e # vs)" "distinct (us @ e # vs)"
  shows "\<exists>t'. RemoveChild t par e = Some t' \<and> table_ok h t' \<and> (\<forall>a. core_at (table_shape t') a = core_at (table_shape t) a) \<and>
    (\<forall>a. first_at (table_shape t') a = (if a = par then Some (first_of (us @ vs)) else first_at (table_shape t) a)) \<and>
    siblings (table_shape t') par (us @ vs) \<and>
    (\<forall>a. a \<notin> set (us @ vs) \<longrightarrow> link_at (table_shape t') a = link_at (table_shape t) a)"
proof -
  from par obtain n where n: "table_heap t par = Some n" "entry_key n = q" "entry_mapped n = w"
    "entry_first_child n = first_of (us @ e # vs)" "entry_link n = m" by (auto simp: shapes_Some)
  have "siblings (table_shape t) par (e # vs)" by (rule siblings_append [OF sib(1)])
  then have "link_at (table_shape t) e = Some (sibling_link par vs)" by simp
  then obtain c where c: "table_heap t e = Some c" "entry_link c = sibling_link par vs"
    by (auto simp: link_at_def shapes_def shape_of_def)
  show ?thesis
  proof (cases us rule: rev_cases)
    case Nil
    obtain t' where t': "modify_entry t par (entry_first_child_update (\<lambda>_. first_of vs)) = Some t'" "table_ok h t'"
      "table_shape t' = (table_shape t)(par \<mapsto> (q, w, first_of vs, m))"
      using modify_entry_ok [OF ok n(1), of "entry_first_child_update (\<lambda>_. first_of vs)"] n by (auto simp: shape_of_def)
    have link: "link_at (table_shape t') a = link_at (table_shape t) a" for a
      using parts_at(3) [of "table_shape t" par] par unfolding t'(3) by auto
    have "siblings (table_shape t) par vs" using sib(1) Nil by simp
    then have "siblings (table_shape t') par vs" by (rule siblings_cong) (rule link)
    moreover have "RemoveChild t par e = Some t'"
      using n c Nil t'(1) GetNextSibling_link [OF c(2)] by (simp add: RemoveChild_def)
    ultimately show ?thesis using t' link Nil parts_at(1) [of "table_shape t" par] par by (intro exI [of _ t']) simp
  next
    case (snoc us' b)
    have pre: "preceding_child (table_heap t) (first_of (us' @ b # e # vs)) e = Some b"
      by (rule preceding_child_siblings) (use sib snoc in simp_all)
    have first: "first_of (us @ e # vs) \<noteq> Some e" "first_of (us @ e # vs) = first_of (us @ vs)"
      using sib(2) snoc by (cases us'; auto)+
    have "siblings (table_shape t) par (b # e # vs)" by (rule siblings_append [of _ _ us']) (use sib(1) snoc in simp)
    then have "link_at (table_shape t) b \<noteq> None" by simp
    then obtain x where x: "table_heap t b = Some x" by (auto simp: link_at_def)
    obtain t' where t': "modify_entry t b (entry_link_update (\<lambda>_. sibling_link par vs)) = Some t'" "table_ok h t'"
      "table_shape t' = (table_shape t)(b \<mapsto> (entry_key x, entry_mapped x, entry_first_child x, sibling_link par vs))"
      using modify_entry_ok [OF ok x, of "entry_link_update (\<lambda>_. sibling_link par vs)"] by (auto simp: shape_of_def)
    have xs: "table_shape t b = Some (entry_key x, entry_mapped x, entry_first_child x, entry_link x)"
      using x by (simp add: shapes_def shape_of_def)
    have link: "link_at (table_shape t') a = (if a = b then Some (sibling_link par vs) else link_at (table_shape t) a)" for a
      unfolding t'(3) by simp
    have "siblings (table_shape t') par (us' @ b # vs)"
      using sib unfolding snoc
    proof (induction us')
      case Nil
      then have "siblings (table_shape t) par vs" by simp
      then have "siblings (table_shape t') par vs" by (rule siblings_cong) (use Nil(2) link in auto)
      with link show ?case by simp
    next
      case (Cons u us')
      then show ?case using link by (cases us') auto
    qed
    moreover have "RemoveChild t par e = Some t'"
      using n c pre t'(1) first(1) snoc by (simp add: RemoveChild_def)
    ultimately show ?thesis using t' snoc first(2) link parts_at [of "table_shape t" b, OF xs] parts_at(2) [of "table_shape t" par, OF par]
      by (intro exI [of _ t']) auto
  qed
qed

lemma child_of_outside:
  assumes ok: "links_ok s {} K" and a: "s a = Some (q, w, g, m)" "\<not> HasPrefix q p" and e: "key_at s e p"
    and c: "c \<in> set (K a)" "c \<noteq> e"
  shows "c \<notin> subtree s p"
proof
  assume sub: "c \<in> subtree s p"
  from children_key [OF ok a(1) c(1)] obtain r v' f' l' where
    r: "s c = Some (r, v', f', l')" "r \<noteq> AbsoluteRootPath" "GetParentPath r = q" "absolute r" by blast
  have "HasPrefix r p" using sub r(1) by (auto simp: subtree_def key_at_def)
  then have "r = p" using HasPrefix_parent [OF r(4)] r(3) a(2) by blast
  then show False using links_ok_unique [OF ok e, of c] key_atI [of s c] r(1) c(2) by blast
qed

text \<open>The invariant after an entry has been erased with everything below it.\<close>

lemma links_ok_erased:
  assumes ok: "links_ok s {} K" and e: "key_at s e p" and par: "s par = Some (GetParentPath p, w, g, m)" "p \<noteq> AbsoluteRootPath"
    and K: "K par = us @ e # vs"
    and core: "\<And>a. core_at s' a = (if a \<in> subtree s p then None else core_at s a)"
    and first: "\<And>a. a \<notin> subtree s p \<Longrightarrow> first_at s' a = (if a = par then Some (first_of (us @ vs)) else first_at s a)"
    and sib: "siblings s' par (us @ vs)"
    and link: "\<And>a. a \<notin> subtree s p \<Longrightarrow> a \<notin> set (us @ vs) \<Longrightarrow> link_at s' a = link_at s a"
  shows "links_ok s' {} (K(par := us @ vs))"
proof -
  let ?K = "K(par := us @ vs)"
  have p: "absolute p" by (rule links_ok_absolute [OF ok e])
  have key: "key_at s' a q \<longleftrightarrow> key_at s a q \<and> \<not> HasPrefix q p" for a q
    unfolding key_at_core core using key_at_fun [of s a q] by (auto simp: subtree_def key_at_core)
  have ch: "children_of s' {} q = children_of s {} q - subtree s p" for q
    unfolding children_of_def key by (auto simp: subtree_def dest: key_at_fun)
  have kpar: "key_at s par (GetParentPath p)" using par(1) key_atI [of s par] by blast
  have "\<not> HasPrefix (GetParentPath p) p"
    using HasPrefix_depth [of "GetParentPath p" p] absolute_parent(2) [OF p par(2)] by auto
  then have par_out: "par \<notin> subtree s p" using key_at_fun [OF kpar] by (auto simp: subtree_def)
  note epar = links_okD [OF ok par(1), unfolded entry_ok_def K]
  have "entry_ok s' {} ?K a q f l" if "s' a = Some (q, v, f, l)" for a q v f l
  proof -
    have l: "link_at s' a = Some l" by (rule parts_at(3) [of s' a, OF that])
    have out: "a \<notin> subtree s p" "core_at s a = Some (q, v)" using core [of a] parts_at(1) [of s' a, OF that] by (auto split: if_splits)
    then obtain f' l' where a: "s a = Some (q, v, f', l')" by (auto simp: core_at_Some)
    note ea = links_okD [OF ok a, unfolded entry_ok_def]
    have q: "\<not> HasPrefix q p" using out(1) a by (auto simp: subtree_def key_at_def)
    have f: "f = first_of (?K a)"
      using first [OF out(1)] parts_at(2) [of s' a, OF that] parts_at(2) [of s a, OF a] ea by (auto split: if_splits)
    have out_ch: "c \<notin> subtree s p" if "c \<in> set (K a)" "c \<noteq> e" for c by (rule child_of_outside [OF ok a q e that])
    have e_sub: "e \<in> subtree s p" using e HasPrefix_parent [OF p] by (auto simp: subtree_def)
    have e_ch: "e \<in> children_of s {} q \<longleftrightarrow> a = par"
    proof -
      have "e \<in> children_of s {} q \<longleftrightarrow> q = GetParentPath p"
        unfolding children_of_def using key_at_fun [OF e] e par(2) by blast
      also have "\<dots> \<longleftrightarrow> a = par"
        using links_ok_unique [OF ok kpar, of a] key_at_fun [OF kpar, of q] key_atI [of s a q] a by blast
      finally show ?thesis .
    qed
    have set: "set (?K a) = children_of s' {} q"
    proof (cases "a = par")
      case True
      then have K_a: "set (K a) = insert e (set (us @ vs))" "e \<notin> set (us @ vs)" using K epar by auto
      have K_q: "children_of s {} q = insert e (set (us @ vs))" using ea K_a(1) by simp
      have "set (us @ vs) \<inter> subtree s p = {}" using out_ch K_a by fastforce
      then have "insert e (set (us @ vs)) - subtree s p = set (us @ vs)" using e_sub by blast
      with True show ?thesis unfolding ch K_q by simp
    next
      case False
      then have "e \<notin> set (K a)" using ea e_ch by simp
      then have "set (K a) \<inter> subtree s p = {}" using out_ch by blast
      then have "set (K a) - subtree s p = set (K a)" by blast
      with ea False show ?thesis unfolding ch by simp
    qed
    have "siblings s' a (?K a)"
    proof (cases "a = par")
      case True
      with sib show ?thesis by simp
    next
      case False
      have "link_at s' c = link_at s c" if c: "c \<in> set (K a)" for c
      proof (rule link)
        show "c \<notin> subtree s p" by (rule out_ch [OF c]) (use c ea e_ch False in blast)
        have "q \<noteq> GetParentPath p" using links_ok_unique [OF ok kpar, of a] key_atI [of s a] a False by blast
        then show "c \<notin> set (us @ vs)" using c ea epar by (auto simp: children_of_def dest: key_at_fun)
      qed
      with ea False show ?thesis by (auto intro: siblings_cong)
    qed
    moreover have "l = (None, False)" if root: "q = AbsoluteRootPath"
    proof -
      have "a \<notin> children_of s {} (GetParentPath p)" using key_at_fun [of s a] key_atI [of s a] a root by (auto simp: children_of_def)
      then have "link_at s' a = link_at s a" by (intro link [OF out(1)]) (use epar in auto)
      with ea root l parts_at(3) [of s a, OF a] show ?thesis by simp
    qed
    moreover have "\<exists>b. key_at s' b (GetParentPath q)" if "q \<noteq> AbsoluteRootPath"
      using ea that q HasPrefix_parent [of q p] unfolding key by auto
    moreover have "distinct (?K a)" using ea epar by auto
    ultimately show ?thesis using ea f set unfolding entry_ok_def by simp
  qed
  moreover have "a = b" if "key_at s' a q" "key_at s' b q" for a b q
    using that links_ok_unique [OF ok] unfolding key by blast
  moreover have "dom s' \<subseteq> dom s"
  proof
    fix a
    assume "a \<in> dom s'"
    then have "core_at s' a \<noteq> None" by (auto simp: core_at_def)
    then have "core_at s a \<noteq> None" using core [of a] by (simp split: if_splits)
    then show "a \<in> dom s" by (cases "s a") (auto simp: core_at_def)
  qed
  then have "finite (dom s')" using ok finite_subset by (auto simp: links_ok_def)
  ultimately show ?thesis unfolding links_ok_def by blast
qed

text \<open>Removal of an entry: its subtree, its place among the children of the parent, the entry.\<close>

lemma absolute_below_root: "absolute q \<Longrightarrow> HasPrefix q AbsoluteRootPath"
  by (simp add: HasPrefix_iff AbsoluteRootPath_def path_queries)

lemma subtree_of_root:
  assumes ok: "links_ok s {} K"
  shows "subtree s AbsoluteRootPath = dom s"
proof -
  have "HasPrefix q AbsoluteRootPath" if "key_at s a q" for a q
    using links_ok_absolute [OF ok that] by (rule absolute_below_root)
  then show ?thesis by (force simp: subtree_def key_at_def)
qed

lemma RemoveFromParent_ok:
  assumes t: "table_ok h t" "table_shape t = s |` (- (subtree s p - {e}))" and ok: "links_ok s {} K" and e: "key_at s e p"
    and par: "p \<noteq> AbsoluteRootPath" "s par = Some (GetParentPath p, w, g, m)" and K: "K par = us @ e # vs"
  shows "par \<notin> subtree s p \<and> (\<exists>t'. RemoveFromParent h t e = Some t' \<and> table_ok h t' \<and>
    (\<forall>a. core_at (table_shape t') a = core_at (table_shape t) a) \<and>
    (\<forall>a. first_at (table_shape t') a = (if a = par then Some (first_of (us @ vs)) else first_at (table_shape t) a)) \<and>
    siblings (table_shape t') par (us @ vs) \<and>
    (\<forall>a. a \<notin> set (us @ vs) \<longrightarrow> link_at (table_shape t') a = link_at (table_shape t) a))"
proof -
  have p: "absolute p" by (rule links_ok_absolute [OF ok e])
  note epar = links_okD [OF ok par(2), unfolded entry_ok_def]
  have kpar: "key_at s par (GetParentPath p)" using par(2) key_atI [of s par] by blast
  have up: "\<not> HasPrefix (GetParentPath p) p"
    using HasPrefix_depth [of "GetParentPath p" p] absolute_parent(2) [OF p par(1)] by auto
  then have par_out: "par \<notin> subtree s p" using key_at_fun [OF kpar] by (auto simp: subtree_def)
  then have s_par: "table_shape t par = Some (GetParentPath p, w, first_of (us @ e # vs), m)"
    unfolding t(2) using par epar K by simp
  have others: "c \<notin> subtree s p - {e}" if "c \<in> set (K par)" for c
    using child_of_outside [OF ok par(2) up e that] by blast
  have "siblings (table_shape t) par (K par)"
  proof (rule siblings_cong)
    show "siblings s par (K par)" using epar by simp
    show "link_at (table_shape t) c = link_at s c" if "c \<in> set (K par)" for c
      unfolding t(2) using others [OF that] by (auto simp: link_at_def restrict_map_def)
  qed
  then have sib: "siblings (table_shape t) par (us @ e # vs)" "distinct (us @ e # vs)" using epar K by simp_all
  have key: "key_at s a q" if "key_at (table_shape t) a q" for a q
    using that unfolding t(2) key_at_def by (auto simp: restrict_map_def split: if_splits)
  obtain r where r: "Table_find h t (GetParentPath p) = Some r" "finds (table_shape t) (GetParentPath p) r"
    using Table_find_ok [OF t(1)] by blast
  have "key_at (table_shape t) par (GetParentPath p)" using s_par key_atI [of "table_shape t" par] by blast
  then have "r = Some par"
    using r(2) links_ok_unique [OF ok kpar] key by (cases r) (auto simp: finds_def)
  moreover obtain n where "table_heap t e = Some n" "entry_key n = p"
  proof -
    from e obtain v f l where "s e = Some (p, v, f, l)" by (rule key_atE)
    then have "table_shape t e = Some (p, v, f, l)" unfolding t(2) by (simp add: restrict_map_def)
    then show ?thesis using that by (auto simp: shapes_Some)
  qed
  ultimately have "RemoveFromParent h t e = RemoveChild t par e" using r(1) par(1) by (simp add: RemoveFromParent_def)
  then show ?thesis using par_out RemoveChild_ok [OF t(1) s_par sib] by simp
qed

lemma erase_entry_ok:
  assumes t: "table_ok h t" and ok: "links_ok (table_shape t) {} K" and e: "key_at (table_shape t) e p"
  shows "\<exists>t' K'. erase_entry h t e = Some t' \<and> table_ok h t' \<and> links_ok (table_shape t') {} K' \<and>
    (\<forall>a. core_at (table_shape t') a = (if a \<in> subtree (table_shape t) p then None else core_at (table_shape t) a))"
proof -
  let ?s = "table_shape t"
  let ?D = "subtree ?s p - {e}"
  from e obtain v f l where s_e: "?s e = Some (p, v, f, l)" by (rule key_atE)
  have p: "absolute p" by (rule links_ok_absolute [OF ok e])
  have e_sub: "e \<in> subtree ?s p" using e HasPrefix_parent [OF p] by (auto simp: subtree_def)
  have "table_shape t = ?s |` (- {})" by (simp add: restrict_map_def)
  from erasesD [OF erase_subtree [OF ok s_e, of "{}"] t this] obtain t1 where
    t1: "erase_run h (EraseSubtree e) t = Some t1" "table_ok h t1" "table_shape t1 = ?s |` (- ?D)" by auto
  from s_e have s1_e: "table_shape t1 e = Some (p, v, f, l)" unfolding t1(3) by simp
  show ?thesis
  proof (cases "p = AbsoluteRootPath")
    case True
    from s1_e obtain n where n: "table_heap t1 e = Some n" "entry_key n = p" by (auto simp: shapes_Some)
    have "e \<in> dom ?s" "e \<notin> ?D" using s_e by (simp_all add: domI del: dom_shapes)
    from EraseFromTable_restrict [OF t1(2,3) this] obtain t2 where
      t2: "EraseFromTable h t1 e = Some t2" "table_ok h t2" "table_shape t2 = ?s |` (- insert e ?D)" by blast
    have all: "subtree ?s p = dom ?s" using subtree_of_root [OF ok] True by simp
    then have "insert e ?D = dom ?s" using e_sub by auto
    then have s2: "table_shape t2 = Map.empty" unfolding t2(3) by (auto simp: restrict_map_def fun_eq_iff domIff)
    moreover have "erase_entry h t e = Some t2" using t1(1) t2(1) n True by (simp add: erase_entry_def RemoveFromParent_def)
    moreover have "core_at ?s a = None" if "a \<notin> subtree ?s p" for a using that all by (auto simp: core_at_def)
    ultimately show ?thesis using t2(2) links_ok_empty [of K] by (intro exI [of _ t2] exI [of _ K]) (simp add: core_at_def)
  next
    case False
    from links_okD [OF ok s_e] False obtain par where kpar: "key_at ?s par (GetParentPath p)" by (auto simp: entry_ok_def)
    from kpar obtain w g m where par: "?s par = Some (GetParentPath p, w, g, m)" by (rule key_atE)
    note epar = links_okD [OF ok par, unfolded entry_ok_def]
    have "e \<in> children_of ?s {} (GetParentPath p)" using e False by (auto simp: children_of_def)
    then have "e \<in> set (K par)" using epar by simp
    then obtain us vs where K: "K par = us @ e # vs" by (auto dest: split_list)
    from RemoveFromParent_ok [OF t1(2,3) ok e False par K] obtain t2 where t2: "RemoveFromParent h t1 e = Some t2" "table_ok h t2"
      "\<And>a. core_at (table_shape t2) a = core_at (table_shape t1) a"
      "\<And>a. first_at (table_shape t2) a = (if a = par then Some (first_of (us @ vs)) else first_at (table_shape t1) a)"
      "siblings (table_shape t2) par (us @ vs)"
      "\<And>a. a \<notin> set (us @ vs) \<Longrightarrow> link_at (table_shape t2) a = link_at (table_shape t1) a" by blast
    have "core_at (table_shape t2) e \<noteq> None" unfolding t2(3) using s1_e by (simp add: core_at_def)
    then have "e \<in> dom (table_shape t2)" by (simp add: core_at_def domIff del: dom_shapes)
    from EraseFromTable_ok [OF t2(2) this] obtain t3 where
      t3: "EraseFromTable h t2 e = Some t3" "table_ok h t3" "table_shape t3 = (table_shape t2)(e := None)" by blast
    have out: "core_at (table_shape t1) a = core_at ?s a" "first_at (table_shape t1) a = first_at ?s a"
      "link_at (table_shape t1) a = link_at ?s a" "a \<noteq> e" if "a \<notin> subtree ?s p" for a
      using that e_sub unfolding t1(3) by (auto simp: core_at_def first_at_def link_at_def restrict_map_def)
    have core3: "core_at (table_shape t3) a = (if a \<in> subtree ?s p then None else core_at ?s a)" for a
    proof (cases "a \<in> subtree ?s p")
      case True
      then have "a \<noteq> e \<Longrightarrow> core_at (table_shape t1) a = None" unfolding t1(3) by (simp add: core_at_def)
      then have "a \<noteq> e \<Longrightarrow> core_at (table_shape t2) a = None" using t2(3) [of a] by simp
      with True show ?thesis unfolding t3(3) by (cases "a = e") (simp_all add: core_at_def)
    next
      case False
      have "core_at (table_shape t3) a = core_at (table_shape t2) a" unfolding t3(3) using out(4) [OF False] by (simp add: core_at_def)
      with False show ?thesis using t2(3) [of a] out(1) [OF False] by simp
    qed
    have "e \<notin> set (us @ vs)" using epar K by simp
    then have sib3: "siblings (table_shape t3) par (us @ vs)"
      unfolding t3(3) by (intro siblings_cong [OF t2(5)]) (auto simp: link_at_def)
    have "links_ok (table_shape t3) {} (K(par := us @ vs))"
    proof (rule links_ok_erased [OF ok e par False K core3 _ sib3])
      fix a
      assume a: "a \<notin> subtree ?s p"
      show "first_at (table_shape t3) a = (if a = par then Some (first_of (us @ vs)) else first_at ?s a)"
        unfolding t3(3) using t2(4) [of a] out(2,4) [OF a] by (simp add: first_at_def)
      show "link_at (table_shape t3) a = link_at ?s a" if "a \<notin> set (us @ vs)"
        unfolding t3(3) using t2(6) [OF that] out(3,4) [OF a] by (simp add: link_at_def)
    qed
    moreover have "erase_entry h t e = Some t3" using t1(1) t2(1) t3(1) by (simp add: erase_entry_def)
    ultimately show ?thesis using t3(2) core3 by blast
  qed
qed

end
