(* ===== verification/Sdf_PathTableMap.thy ===== *)
theory Sdf_PathTableMap
  imports Sdf_PathTableTree
begin

text \<open>
  What a client of \<open>SdfPathTable\<close> sees: a map from absolute paths to values that is closed under
  ancestors. Insertion adds the missing ancestors with the default value, removal takes the descendants
  with it; the entries below a path are a contiguous part of the iteration.
\<close>

declare split_paired_Ex [simp del]

section \<open>The map\<close>

fun heap_items :: "(nat \<rightharpoonup> 'm table_entry) \<Rightarrow> nat \<Rightarrow> (sdf_path \<times> 'm) list" where
  "heap_items heap 0 = []"
| "heap_items heap (Suc a) =
     (case heap a of None \<Rightarrow> [] | Some n \<Rightarrow> [(entry_key n, entry_mapped n)]) @ heap_items heap a"

definition table_contents :: "'m path_table \<Rightarrow> sdf_path \<Rightarrow> 'm option" where
  "table_contents t = map_of (heap_items (table_heap t) (table_fresh t))"

definition insert_spec :: "'m \<Rightarrow> (sdf_path \<Rightarrow> 'm option) \<Rightarrow> sdf_path \<Rightarrow> 'm \<Rightarrow> sdf_path \<Rightarrow> 'm option" where
  "insert_spec dflt m p v =
     (if m p \<noteq> None then m
      else (\<lambda>q. if q = p then Some v else if HasPrefix p q \<and> m q = None then Some dflt else m q))"

definition erase_spec :: "(sdf_path \<Rightarrow> 'm option) \<Rightarrow> sdf_path \<Rightarrow> sdf_path \<Rightarrow> 'm option" where
  "erase_spec m p = (\<lambda>q. if HasPrefix q p then None else m q)"

section \<open>Contents\<close>

definition client_ok :: "(sdf_path \<Rightarrow> 64 word) \<Rightarrow> 'm path_table \<Rightarrow> bool" where
  "client_ok h t \<longleftrightarrow> table_ok h t \<and> (\<exists>K. links_ok (table_shape t) {} K)"

lemma has_value_unique:
  assumes ok: "links_ok s P K" and "has_value s p v" "has_value s p w"
  shows "v = w"
proof -
  from assms(2,3) obtain a b where ab: "core_at s a = Some (p, v)" "core_at s b = Some (p, w)" unfolding has_value_core by blast
  then have "a = b" by (intro links_ok_unique [OF ok]) (auto simp: key_at_core)
  with ab show ?thesis by simp
qed

lemma has_value_heap:
  "has_value (table_shape t) p v \<longleftrightarrow> (\<exists>a n. table_heap t a = Some n \<and> entry_key n = p \<and> entry_mapped n = v)"
  unfolding has_value_def shapes_Some by blast

lemma heap_items_iff:
  "(q, w) \<in> set (heap_items heap k) \<longleftrightarrow> (\<exists>a n. a < k \<and> heap a = Some n \<and> entry_key n = q \<and> entry_mapped n = w)"
proof (induction k)
  case (Suc k)
  then show ?case by (cases "heap k") (auto simp: less_Suc_eq)
qed simp

lemma table_contents_iff:
  assumes "client_ok h t"
  shows "table_contents t p = Some v \<longleftrightarrow> has_value (table_shape t) p v"
proof -
  let ?xs = "heap_items (table_heap t) (table_fresh t)"
  have t: "table_ok h t" using assms by (simp add: client_ok_def)
  have "a < table_fresh t" if "table_heap t a = Some n" for a n using that by (intro table_ok_facts(3) [OF t]) auto
  then have mem: "(q, w) \<in> set ?xs \<longleftrightarrow> has_value (table_shape t) q w" for q w
    unfolding heap_items_iff has_value_heap by blast
  show ?thesis
  proof
    assume "table_contents t p = Some v"
    then show "has_value (table_shape t) p v" unfolding table_contents_def mem [symmetric] by (rule map_of_SomeD)
  next
    assume v: "has_value (table_shape t) p v"
    then have "map_of ?xs p \<noteq> None" using weak_map_of_SomeI [of p v ?xs] by (auto simp: mem)
    then obtain w where w: "map_of ?xs p = Some w" by blast
    then have "has_value (table_shape t) p w" unfolding mem [symmetric] by (rule map_of_SomeD)
    moreover obtain K where "links_ok (table_shape t) {} K" using assms by (auto simp: client_ok_def)
    ultimately have "v = w" using v by (blast intro: has_value_unique)
    with w show "table_contents t p = Some v" by (simp add: table_contents_def)
  qed
qed

lemma table_contents_None: "client_ok h t \<Longrightarrow> table_contents t p = None \<longleftrightarrow> \<not> present (table_shape t) p"
  unfolding present_has_value using table_contents_iff by (metis not_Some_eq)

lemma table_contents_eqI:
  assumes "client_ok h t" "\<And>p v. has_value (table_shape t) p v \<longleftrightarrow> m p = Some v"
  shows "table_contents t = m"
proof
  fix p
  show "table_contents t p = m p"
    using table_contents_iff [OF assms(1), of p] assms(2) [of p] by (cases "m p"; cases "table_contents t p") auto
qed

lemma IsAbsolutePath_absolute: "IsAbsolutePath p \<Longrightarrow> absolute p"
  by (simp add: IsAbsolutePath_def path_queries)

lemma empty_table_client: "client_ok h empty_table" "table_contents empty_table = Map.empty"
  using empty_table_ok [of h] links_ok_empty by (auto simp: client_ok_def empty_table_def table_contents_def)

section \<open>Refinement\<close>

lemma insert_client:
  assumes t: "client_ok h t" and p: "absolute p"
  shows "\<exists>t' a. Table_insert h dflt t p v = Some (t', a, table_contents t p = None) \<and> client_ok h t' \<and>
    table_contents t' = insert_spec dflt (table_contents t) p v \<and> key_at (table_shape t') a p"
proof -
  from t obtain K where ok: "table_ok h t" "links_ok (table_shape t) {} K" by (auto simp: client_ok_def)
  from Table_insert_ok [OF p ok, of dflt v] obtain t' a K' where t': "Table_insert h dflt t p v = Some (t', a, \<not> present (table_shape t) p)"
    "table_ok h t'" "links_ok (table_shape t') {} K'" "key_at (table_shape t') a p"
    "\<And>q w. has_value (table_shape t') q w \<longleftrightarrow> has_value (table_shape t) q w \<or> inserted_value (table_shape t) dflt p v q w" by auto
  have c: "client_ok h t'" using t' by (auto simp: client_ok_def)
  note none = table_contents_None [OF t]
  have "table_contents t' = insert_spec dflt (table_contents t) p v"
  proof (rule table_contents_eqI [OF c])
    fix q w
    have "has_value (table_shape t) q w \<Longrightarrow> present (table_shape t) q" by (auto simp: present_has_value)
    then show "has_value (table_shape t') q w \<longleftrightarrow> insert_spec dflt (table_contents t) p v q = Some w"
      unfolding t'(5) inserted_value_def insert_spec_def none
      using table_contents_iff [OF t, of q w] none [of q] by auto
  qed
  with t'(1,4) c none [of p] show ?thesis by auto
qed

lemma erase_client:
  assumes t: "client_ok h t" and p: "absolute p"
  shows "\<exists>t'. Table_erase h t p = Some (t', table_contents t p \<noteq> None) \<and> client_ok h t' \<and>
    table_contents t' = erase_spec (table_contents t) p"
proof -
  from t obtain K where ok: "table_ok h t" "links_ok (table_shape t) {} K" by (auto simp: client_ok_def)
  from Table_find_ok [OF ok(1), of p] obtain r where r: "Table_find h t p = Some r" "finds (table_shape t) p r" by blast
  show ?thesis
  proof (cases r)
    case None
    then have absent: "\<not> present (table_shape t) p" using r(2) by (simp add: finds_def present_def)
    have "\<not> has_value (table_shape t) q w" if "HasPrefix q p" for q w
      using links_ok_closed [OF ok(2) _ that] absent unfolding present_has_value has_value_core present_def key_at_core by blast
    then have "table_contents t = erase_spec (table_contents t) p"
      by (intro table_contents_eqI [OF t]) (auto simp: erase_spec_def table_contents_iff [OF t])
    with t r(1) None absent table_contents_None [OF t] show ?thesis by (simp add: Table_erase_def)
  next
    case (Some e)
    then have e: "key_at (table_shape t) e p" using r(2) by (simp add: finds_def)
    from erase_entry_ok [OF ok e] obtain t' K' where t': "erase_entry h t e = Some t'" "table_ok h t'"
      "links_ok (table_shape t') {} K'"
      "\<And>a. core_at (table_shape t') a = (if a \<in> subtree (table_shape t) p then None else core_at (table_shape t) a)" by blast
    have c: "client_ok h t'" using t' by (auto simp: client_ok_def)
    have "has_value (table_shape t') q w \<longleftrightarrow> has_value (table_shape t) q w \<and> \<not> HasPrefix q p" for q w
    proof -
      have "core_at (table_shape t') a = Some (q, w) \<longleftrightarrow> core_at (table_shape t) a = Some (q, w) \<and> \<not> HasPrefix q p" for a
        unfolding t'(4) subtree_def using key_at_fun [of "table_shape t" a q] by (auto simp: key_at_core)
      then show ?thesis unfolding has_value_core by blast
    qed
    then have "table_contents t' = erase_spec (table_contents t) p"
      by (intro table_contents_eqI [OF c]) (auto simp: erase_spec_def table_contents_iff [OF t])
    moreover have "table_contents t p \<noteq> None" using table_contents_None [OF t] e by (auto simp: present_def)
    ultimately show ?thesis using r(1) Some t'(1) c by (simp add: Table_erase_def)
  qed
qed

lemma clear_client:
  assumes "client_ok h t"
  shows "\<exists>t'. Table_clear t = Some t' \<and> client_ok h t' \<and> table_contents t' = Map.empty"
proof -
  from assms Table_clear_ok obtain t' where t': "Table_clear t = Some t'" "table_ok h t'" "table_shape t' = Map.empty"
    unfolding client_ok_def by blast
  then have c: "client_ok h t'" using links_ok_empty by (auto simp: client_ok_def)
  then have "table_contents t' = Map.empty" by (rule table_contents_eqI) (simp add: t'(3) has_value_def)
  with t' c show ?thesis by blast
qed

end
