(* ===== verification/Sdf_PathTableIter.thy ===== *)
theory Sdf_PathTableIter
  imports Sdf_PathTableMap
begin

text \<open>
  Iteration over \<open>SdfPathTable\<close>: from an entry to its first child, else to the next sibling of it or of
  the nearest ancestor that has one. The subtree of an entry is what is visited up to the result of
  \<open>GetNextSubtree\<close>.
\<close>

declare split_paired_Ex [simp del]

section \<open>The next subtree\<close>

lemma entry_Some: "s = table_shape t \<Longrightarrow> s a = Some (p, v, f, l) \<Longrightarrow>
  \<exists>n. table_heap t a = Some n \<and> entry_first_child n = f \<and> entry_link n = l"
  by (auto simp: shapes_Some)

lemma next_subtree_root:
  assumes "table_shape t a = Some (p, v, f, (None, False))"
  shows "GetNextSubtree t (Some a) = Some None"
  using entry_Some [OF refl assms]
  by (auto simp: GetNextSubtree_def GetNextSibling_def GetParentLink_def next_up.simps [of _ None])

lemma next_up_next_subtree: "next_up (table_heap t) (Some a) = GetNextSubtree t (Some a)"
  by (subst next_up.simps) (simp add: GetNextSubtree_def)

lemma next_subtree_child:
  assumes "siblings (table_shape t) par (c # cs)"
  shows "GetNextSubtree t (Some c) = (if cs = [] then GetNextSubtree t (Some par) else Some (first_of cs))"
proof -
  from assms have "link_at (table_shape t) c = Some (sibling_link par cs)" by simp
  then obtain n where n: "table_heap t c = Some n" "entry_link n = sibling_link par cs"
    by (auto simp: link_at_def shapes_def shape_of_def)
  show ?thesis
  proof (cases cs)
    case Nil
    with n have "GetNextSibling n = None" "GetParentLink n = Some par" by (simp_all add: GetNextSibling_def GetParentLink_def)
    with n(1) Nil show ?thesis by (simp add: GetNextSubtree_def [of t "Some c"] next_up_next_subtree)
  next
    case (Cons c' cs')
    with n have "GetNextSibling n = Some c'" by (simp add: GetNextSibling_def)
    with n(1) Cons show ?thesis by (simp add: GetNextSubtree_def)
  qed
qed

lemma child_position:
  assumes ok: "links_ok s {} K" and a: "s a = Some (p, v, f, l)" and p: "p \<noteq> AbsoluteRootPath"
  shows "\<exists>par w g m us vs. s par = Some (GetParentPath p, w, g, m) \<and> K par = us @ a # vs \<and> siblings s par (a # vs)"
proof -
  from links_okD [OF ok a] p obtain par where "key_at s par (GetParentPath p)" by (auto simp: entry_ok_def)
  then obtain w g m where par: "s par = Some (GetParentPath p, w, g, m)" by (rule key_atE)
  note e = links_okD [OF ok par, unfolded entry_ok_def]
  have "a \<in> children_of s {} (GetParentPath p)" using key_atI [of s a p] a p by (auto simp: children_of_def)
  then have "a \<in> set (K par)" using e by simp
  then obtain us vs where K: "K par = us @ a # vs" by (auto dest: split_list)
  have "siblings s par (a # vs)" by (rule siblings_append [of _ _ us]) (use e K in simp)
  with par K show ?thesis by blast
qed

text \<open>It exists, and is not in the subtree.\<close>

lemma next_subtree_outside:
  assumes ok: "links_ok (table_shape t) {} K"
  shows "table_shape t a = Some (p, v, f, l) \<Longrightarrow>
    \<exists>N. GetNextSubtree t (Some a) = Some N \<and> (\<forall>b. N = Some b \<longrightarrow> b \<in> dom (table_shape t) \<and> b \<notin> subtree (table_shape t) p)"
proof (induction "depth p" arbitrary: a p v f l rule: less_induct)
  case less
  note a = less.prems
  let ?s = "table_shape t"
  note e = links_okD [OF ok a, unfolded entry_ok_def]
  show ?case
  proof (cases "p = AbsoluteRootPath")
    case True
    with e a next_subtree_root [of t a] show ?thesis by simp
  next
    case False
    from child_position [OF ok a False] obtain par w g m us vs where
      par: "?s par = Some (GetParentPath p, w, g, m)" "K par = us @ a # vs" "siblings ?s par (a # vs)" by blast
    have a_in: "a \<in> set (K par)" using par(2) by simp
    show ?thesis
    proof (cases vs)
      case Nil
      have "depth (GetParentPath p) < depth p" using absolute_parent(2) [of p] e False by simp
      from less.hyps [OF this par(1)] obtain N where N: "GetNextSubtree t (Some par) = Some N"
        "\<And>b. N = Some b \<Longrightarrow> b \<in> dom ?s \<and> b \<notin> subtree ?s (GetParentPath p)" by blast
      have "subtree ?s p \<subseteq> subtree ?s (GetParentPath p)"
        using child_in_subtree(2) [OF ok par(1) a_in] a by auto
      with N next_subtree_child [OF par(3)] Nil show ?thesis by auto
    next
      case (Cons c cs)
      have c: "c \<in> set (K par)" "c \<noteq> a" using par(2) Cons links_okD [OF ok par(1)] by (auto simp: entry_ok_def)
      have "c \<in> subtree ?s (key_of ?s c)" by (rule child_in_subtree(1) [OF ok par(1) c(1)])
      moreover have "subtree ?s (key_of ?s c) \<inter> subtree ?s p = {}" using subtree_siblings [OF ok par(1) c(1) a_in c(2)] a by simp
      moreover have "c \<in> dom ?s" using calculation(1) subtree_dom by blast
      ultimately show ?thesis using next_subtree_child [OF par(3)] Cons by auto
    qed
  qed
qed

section \<open>Visiting a subtree\<close>

definition visits :: "'m path_table \<Rightarrow> nat option \<Rightarrow> nat list \<Rightarrow> nat option \<Rightarrow> bool" where
  "visits t i xs N \<longleftrightarrow> distinct xs \<and>
     (\<forall>stop. stop \<notin> Some ` set xs \<longrightarrow> traverse t i stop = map_option ((@) xs) (traverse t N stop))"

lemma visits_Nil: "visits t N [] N"
proof -
  have "map_option ((@) []) x = x" for x :: "nat list option" by (cases x) simp_all
  then show ?thesis by (simp add: visits_def)
qed

lemma visits_append:
  assumes "visits t i xs j" "visits t j ys N" "set xs \<inter> set ys = {}"
  shows "visits t i (xs @ ys) N"
proof -
  have "traverse t i stop = map_option ((@) (xs @ ys)) (traverse t N stop)" if "stop \<notin> Some ` set (xs @ ys)" for stop
  proof -
    from assms(1) that have "traverse t i stop = map_option ((@) xs) (traverse t j stop)" by (auto simp: visits_def)
    also have "traverse t j stop = map_option ((@) ys) (traverse t N stop)" using assms(2) that by (auto simp: visits_def)
    finally show ?thesis by (cases "traverse t N stop") simp_all
  qed
  with assms show ?thesis by (auto simp: visits_def)
qed

lemma visits_step:
  assumes "Table_increment t a = Some i" "visits t i xs N" "a \<notin> set xs"
  shows "visits t (Some a) (a # xs) N"
proof -
  have "traverse t (Some a) stop = map_option ((@) (a # xs)) (traverse t N stop)" if "stop \<notin> Some ` set (a # xs)" for stop
  proof -
    have "traverse t (Some a) stop = map_option ((#) a) (traverse t i stop)"
      using that assms(1) by (subst traverse.simps) (cases "traverse t i stop"; auto)
    also have "traverse t i stop = map_option ((@) xs) (traverse t N stop)" using assms(2) that by (auto simp: visits_def)
    finally show ?thesis by (cases "traverse t N stop") simp_all
  qed
  with assms show ?thesis by (auto simp: visits_def)
qed

lemma visits_subtree:
  assumes ok: "links_ok (table_shape t) {} K"
  shows "table_shape t a = Some (p, v, f, l) \<Longrightarrow> GetNextSubtree t (Some a) = Some N \<Longrightarrow>
    \<exists>xs. visits t (Some a) xs N \<and> set xs = subtree (table_shape t) p"
proof (induction "card (subtree (table_shape t) p)" arbitrary: a p v f l N rule: less_induct)
  case less
  note a = less.prems(1) and N = less.prems(2)
  let ?s = "table_shape t"
  let ?sub = "\<lambda>c. subtree ?s (key_of ?s c)"
  note e = links_okD [OF ok a, unfolded entry_ok_def]
  have kids: "\<exists>xs. visits t (if cs = [] then N else first_of cs) xs N \<and> set xs = (\<Union>c \<in> set cs. ?sub c)" if "K a = us @ cs" for us cs
    using that
  proof (induction cs arbitrary: us)
    case Nil
    then show ?case using visits_Nil [of t N] by (intro exI [of _ "[]"]) simp
  next
    case (Cons c cs)
    have c: "c \<in> set (K a)" using Cons.prems by simp
    from children_key [OF ok a c] obtain q v' f' l' where q: "?s c = Some (q, v', f', l')" by blast
    have "card (subtree ?s q) < card (subtree ?s p)"
      using child_in_subtree(2) [OF ok a c] q finite_subtree [OF ok] by (simp add: psubset_card_mono)
    moreover have "siblings ?s a (c # cs)" by (rule siblings_append [of _ _ us]) (use e Cons.prems in simp)
    from next_subtree_child [OF this] N have "GetNextSubtree t (Some c) = Some (if cs = [] then N else first_of cs)" by simp
    ultimately obtain xs where xs: "visits t (Some c) xs (if cs = [] then N else first_of cs)" "set xs = subtree ?s q"
      using less.hyps [OF _ q] by blast
    from Cons.IH [of "us @ [c]"] Cons.prems obtain ys where
      ys: "visits t (if cs = [] then N else first_of cs) ys N" "set ys = (\<Union>c \<in> set cs. ?sub c)" by auto
    have "set xs \<inter> set ys = {}"
    proof -
      have "?sub c \<inter> ?sub d = {}" if "d \<in> set cs" for d
        using subtree_siblings [OF ok a c, of d] that e Cons.prems by auto
      then show ?thesis using xs(2) ys(2) q by auto
    qed
    from visits_append [OF xs(1) ys(1) this] xs(2) ys(2) q show ?case by (intro exI [of _ "xs @ ys"]) simp
  qed
  from kids [of "[]" "K a"] obtain xs where
    xs: "visits t (if K a = [] then N else first_of (K a)) xs N" "set xs = (\<Union>c \<in> set (K a). ?sub c)" by auto
  obtain n where n: "table_heap t a = Some n" "entry_first_child n = first_of (K a)"
    using entry_Some [OF refl a] e by auto
  have "Table_increment t a = Some (if K a = [] then N else first_of (K a))"
    using n N by (cases "K a") (simp_all add: Table_increment_def)
  moreover have "a \<notin> set xs" using subtree_not_self [OF ok a] xs(2) by auto
  ultimately have "visits t (Some a) (a # xs) N" using visits_step xs(1) by blast
  with xs(2) subtree_children [OF ok a] show ?case by (intro exI [of _ "a # xs"]) simp
qed

lemma traverse_suffix:
  "traverse t i stop = Some zs \<Longrightarrow> a \<in> set zs \<Longrightarrow> \<exists>us vs. zs = us @ vs \<and> traverse t (Some a) stop = Some vs"
proof (induction zs arbitrary: i)
  case (Cons z zs)
  from Cons.prems(1) have i: "i = Some z" and "\<exists>j. traverse t j stop = Some zs"
    by (subst (asm) traverse.simps; auto split: if_splits option.splits simp: bind_eq_Some_conv)+
  then obtain j where j: "traverse t j stop = Some zs" by blast
  show ?case
  proof (cases "a = z")
    case True
    with Cons.prems(1) i show ?thesis by (intro exI [of _ "[]"] exI [of _ "z # zs"]) simp
  next
    case False
    with Cons.IH [OF j] Cons.prems(2) obtain us vs where "zs = us @ vs" "traverse t (Some a) stop = Some vs" by auto
    then show ?thesis by (intro exI [of _ "z # us"] exI [of _ vs]) simp
  qed
qed simp

section \<open>Ranges\<close>

text \<open>What a loop over a list of entries sees.\<close>

definition table_items :: "'m path_table \<Rightarrow> nat list \<Rightarrow> (sdf_path \<times> 'm) list" where
  "table_items t xs = map (\<lambda>a. let n = the (table_heap t a) in (entry_key n, entry_mapped n)) xs"

lemma table_items_core:
  assumes "set xs \<subseteq> dom (table_shape t)"
  shows "table_items t xs = map (\<lambda>a. the (core_at (table_shape t) a)) xs"
  unfolding table_items_def by (rule map_cong [OF refl]) (use assms in \<open>auto simp: core_at_def shapes_def shape_of_def\<close>)

lemma items_map:
  assumes t: "client_ok h t" and xs: "distinct xs" "set xs = subtree (table_shape t) p"
  shows "distinct (map fst (table_items t xs))" "map_of (table_items t xs) = table_contents t |` {q. HasPrefix q p}"
proof -
  let ?s = "table_shape t"
  from t obtain K where ok: "links_ok ?s {} K" by (auto simp: client_ok_def)
  have dom: "set xs \<subseteq> dom ?s" using xs(2) subtree_dom by blast
  have core: "\<exists>v. core_at ?s a = Some (key_of ?s a, v) \<and> key_at ?s a (key_of ?s a)" if "a \<in> set xs" for a
  proof -
    from that dom obtain q v f l where "?s a = Some (q, v, f, l)" by (metis domIff in_mono not_Some_eq prod_cases4)
    then show ?thesis using key_atI [of ?s a] by (auto simp: core_at_def)
  qed
  have keys: "map fst (table_items t xs) = map (key_of ?s) xs"
    unfolding table_items_core [OF dom] using core by fastforce
  have "inj_on (key_of ?s) (set xs)"
  proof (rule inj_onI)
    fix a b
    assume "a \<in> set xs" "b \<in> set xs" "key_of ?s a = key_of ?s b"
    with core [of a] core [of b] show "a = b" by (metis links_ok_unique [OF ok])
  qed
  with xs(1) show dist: "distinct (map fst (table_items t xs))" unfolding keys by (simp add: distinct_map)
  have mem: "(q, v) \<in> set (table_items t xs) \<longleftrightarrow> has_value ?s q v \<and> HasPrefix q p" for q v
  proof
    assume "(q, v) \<in> set (table_items t xs)"
    then obtain a where a: "a \<in> set xs" "(q, v) = the (core_at ?s a)" unfolding table_items_core [OF dom] by auto
    with core [OF a(1)] have "core_at ?s a = Some (q, v)" by auto
    moreover from this a(1) xs(2) have "HasPrefix q p" by (auto simp: subtree_def key_at_core)
    ultimately show "has_value ?s q v \<and> HasPrefix q p" by (auto simp: has_value_core)
  next
    assume q: "has_value ?s q v \<and> HasPrefix q p"
    then obtain a where a: "core_at ?s a = Some (q, v)" by (auto simp: has_value_core)
    with q have "a \<in> set xs" unfolding xs(2) by (auto simp: subtree_def key_at_core)
    with a show "(q, v) \<in> set (table_items t xs)" unfolding table_items_core [OF dom] by (force intro: image_eqI [of _ _ a])
  qed
  show "map_of (table_items t xs) = table_contents t |` {q. HasPrefix q p}"
  proof
    fix q
    have "map_of (table_items t xs) q = Some v \<longleftrightarrow> (table_contents t |` {q. HasPrefix q p}) q = Some v" for v
      using map_of_eq_Some_iff [OF dist] mem table_contents_iff [OF t] by (auto simp: restrict_map_def)
    then show "map_of (table_items t xs) q = (table_contents t |` {q. HasPrefix q p}) q" by (metis not_Some_eq)
  qed
qed

lemma range_ok:
  assumes t: "client_ok h t"
  shows "\<exists>first second xs. FindSubtreeRange h t p = Some (first, second) \<and> traverse t first second = Some xs \<and>
    distinct xs \<and> set xs = subtree (table_shape t) p \<and>
    (\<forall>zs. traverse t (Some r) None = Some zs \<longrightarrow> set zs = dom (table_shape t) \<longrightarrow> (\<exists>us vs. zs = us @ xs @ vs))"
proof -
  let ?s = "table_shape t"
  from t obtain K where ok: "table_ok h t" "links_ok ?s {} K" by (auto simp: client_ok_def)
  from Table_find_ok [OF ok(1), of p] obtain i where i: "Table_find h t p = Some i" "finds ?s p i" by blast
  show ?thesis
  proof (cases i)
    case None
    have "subtree ?s p = {}"
      using links_ok_closed [OF ok(2)] i(2) None by (auto simp: subtree_def finds_def)
    moreover have "traverse t None None = Some []" by (simp add: traverse.simps)
    moreover have "FindSubtreeRange h t p = Some (None, None)" using i(1) None by (simp add: FindSubtreeRange_def GetNextSubtree_def)
    ultimately show ?thesis by (intro exI [of _ None] exI [of _ "[]"]) auto
  next
    case (Some a)
    with i(2) obtain v f l where a: "?s a = Some (p, v, f, l)" by (auto simp: finds_def elim: key_atE)
    from next_subtree_outside [OF ok(2) a] obtain N where N: "GetNextSubtree t (Some a) = Some N"
      "\<And>b. N = Some b \<Longrightarrow> b \<in> dom ?s \<and> b \<notin> subtree ?s p" by blast
    from visits_subtree [OF ok(2) a N(1)] obtain xs where xs: "visits t (Some a) xs N" "set xs = subtree ?s p" by blast
    have "N \<notin> Some ` set xs" using N(2) xs(2) by auto
    moreover have "traverse t N N = Some []" by (simp add: traverse.simps)
    ultimately have run: "traverse t (Some a) N = Some xs" using xs(1) by (simp add: visits_def)
    have "\<exists>us vs. zs = us @ xs @ vs" if zs: "traverse t (Some r) None = Some zs" "set zs = dom ?s" for zs
    proof -
      have "a \<in> set zs" unfolding zs(2) using a by (simp add: domI del: dom_shapes)
      from traverse_suffix [OF zs(1) this] obtain us ws where ws: "zs = us @ ws" "traverse t (Some a) None = Some ws" by blast
      have "traverse t (Some a) None = map_option ((@) xs) (traverse t N None)" using xs(1) unfolding visits_def by blast
      with ws show ?thesis by auto
    qed
    with run xs i(1) Some N(1) show ?thesis
      by (intro exI [of _ "Some a"] exI [of _ N] exI [of _ xs]) (simp add: FindSubtreeRange_def visits_def)
  qed
qed

lemma iteration_ok:
  assumes t: "client_ok h t"
  shows "\<exists>b zs. Table_begin h t = Some b \<and> traverse t b None = Some zs \<and> distinct zs \<and> set zs = dom (table_shape t) \<and>
    (zs \<noteq> [] \<longrightarrow> b \<noteq> None)"
proof -
  let ?s = "table_shape t"
  from t obtain K where ok: "table_ok h t" "links_ok ?s {} K" by (auto simp: client_ok_def)
  note root = subtree_of_root [OF ok(2)]
  show ?thesis
  proof (cases "table_size t = 0")
    case True
    then have "dom ?s = {}" using table_ok_facts(1,2) [OF ok(1)] by simp
    moreover have "traverse t None None = Some []" by (simp add: traverse.simps)
    ultimately show ?thesis using True by (intro exI [of _ None] exI [of _ "[]"]) (simp add: Table_begin_def)
  next
    case False
    then have "subtree ?s AbsoluteRootPath \<noteq> {}" using table_ok_facts(1,2) [OF ok(1)] unfolding root by auto
    then obtain x q where x: "key_at ?s x q" "HasPrefix q AbsoluteRootPath" by (auto simp: subtree_def)
    obtain b where b: "key_at ?s b AbsoluteRootPath" using links_ok_closed [OF ok(2) x] by blast
    from Table_find_ok [OF ok(1), of AbsoluteRootPath] obtain i where
      i: "Table_find h t AbsoluteRootPath = Some i" "finds ?s AbsoluteRootPath i" by blast
    from i(2) b obtain r where r: "i = Some r" "key_at ?s r AbsoluteRootPath" by (cases i) (auto simp: finds_def)
    from r(2) obtain v f l where s_r: "?s r = Some (AbsoluteRootPath, v, f, l)" by (rule key_atE)
    with links_okD [OF ok(2) s_r] have "GetNextSubtree t (Some r) = Some None"
      by (intro next_subtree_root [of t r AbsoluteRootPath v f]) (simp add: entry_ok_def)
    from visits_subtree [OF ok(2) s_r this] obtain zs where zs: "visits t (Some r) zs None" "set zs = dom ?s"
      unfolding root by blast
    moreover have "traverse t None None = Some []" by (simp add: traverse.simps)
    ultimately have "traverse t (Some r) None = Some zs" by (auto simp: visits_def)
    with zs i(1) r(1) False show ?thesis by (intro exI [of _ "Some r"] exI [of _ zs]) (simp add: Table_begin_def visits_def)
  qed
qed

lemma contents_below_root:
  assumes t: "client_ok h t"
  shows "table_contents t |` {q. HasPrefix q AbsoluteRootPath} = table_contents t"
proof (rule ext)
  fix q
  from t obtain K where ok: "links_ok (table_shape t) {} K" by (auto simp: client_ok_def)
  have "HasPrefix q AbsoluteRootPath" if "table_contents t q = Some v" for v
  proof -
    have "has_value (table_shape t) q v" using that table_contents_iff [OF t] by simp
    then obtain a where "key_at (table_shape t) a q" by (auto simp: has_value_core key_at_core)
    then show ?thesis by (intro absolute_below_root links_ok_absolute [OF ok])
  qed
  then show "(table_contents t |` {q. HasPrefix q AbsoluteRootPath}) q = table_contents t q"
    by (cases "table_contents t q") (auto simp: restrict_map_def)
qed

lemma size_client:
  assumes t: "client_ok h t"
  shows "table_size t = card (dom (table_contents t))"
proof -
  from iteration_ok [OF t] obtain zs where zs: "distinct zs" "set zs = dom (table_shape t)" by blast
  from t obtain K where ok: "table_ok h t" "links_ok (table_shape t) {} K" by (auto simp: client_ok_def)
  have root: "set zs = subtree (table_shape t) AbsoluteRootPath" using zs(2) subtree_of_root [OF ok(2)] by simp
  note items = items_map [OF t zs(1) root]
  have "table_contents t |` {q. HasPrefix q AbsoluteRootPath} = table_contents t" by (rule contents_below_root [OF t])
  then have "dom (table_contents t) = set (map fst (table_items t zs))" using items(2) by (metis dom_map_of_conv_image_fst set_map)
  then have "card (dom (table_contents t)) = length zs" using distinct_card [OF items(1)] by (simp add: table_items_def)
  then show ?thesis using table_ok_facts(2) [OF ok(1)] distinct_card [OF zs(1)] zs(2) by simp
qed

end
