(* ===== verification/Sdf_PathTableCopy.thy ===== *)
theory Sdf_PathTableCopy
  imports Sdf_PathTableIter
begin

text \<open>
  The copy constructor of \<open>SdfPathTable\<close> makes entries for the children and links of an entry before it
  comes to them; at the end each address of the copy stands for one of the original, with the same key and
  value and the links that correspond.
\<close>

declare split_paired_Ex [simp del]

section \<open>Tables that correspond\<close>

definition same_key :: "(nat \<rightharpoonup> 'm entry_shape) \<Rightarrow> (nat \<rightharpoonup> 'm entry_shape) \<Rightarrow> nat option \<Rightarrow> nat option \<Rightarrow> bool" where
  "same_key u s x a \<longleftrightarrow> (case (x, a) of (None, None) \<Rightarrow> True
     | (Some x, Some a) \<Rightarrow> \<exists>q. key_at u x q \<and> key_at s a q | _ \<Rightarrow> False)"

lemma same_key_simps [simp]:
  "same_key u s None None" "\<not> same_key u s None (Some a)" "\<not> same_key u s (Some x) None"
  "same_key u s (Some x) (Some a) \<longleftrightarrow> (\<exists>q. key_at u x q \<and> key_at s a q)"
  by (simp_all add: same_key_def)

lemma same_key_mono:
  "same_key u s x a \<Longrightarrow> (\<And>b q. key_at u b q \<Longrightarrow> key_at u' b q) \<Longrightarrow> same_key u' s x a"
  by (cases x; cases a) auto

text \<open>The copy when the first child of the entries of \<open>D\<close> and the link of those of \<open>E\<close> have been set.\<close>

definition entry_copied :: "(nat \<rightharpoonup> 'm entry_shape) \<Rightarrow> nat set \<Rightarrow> nat set \<Rightarrow> (nat \<rightharpoonup> 'm entry_shape) \<Rightarrow>
    sdf_path \<Rightarrow> 'm \<Rightarrow> nat option \<Rightarrow> nat option \<times> bool \<Rightarrow> bool" where
  "entry_copied s D E u p v f l \<longleftrightarrow> (\<exists>a f' l'. s a = Some (p, v, f', l') \<and>
     (if a \<in> D then same_key u s f f' else f = None) \<and>
     (if a \<in> E then same_key u s (fst l) (fst l') \<and> snd l = snd l' else l = (None, False)))"

definition copied :: "(nat \<rightharpoonup> 'm entry_shape) \<Rightarrow> nat set \<Rightarrow> nat set \<Rightarrow> (nat \<rightharpoonup> 'm entry_shape) \<Rightarrow> bool" where
  "copied s D E u \<longleftrightarrow>
     (\<forall>x p v f l. u x = Some (p, v, f, l) \<longrightarrow> entry_copied s D E u p v f l) \<and>
     (\<forall>a \<in> D \<union> E. \<forall>p. key_at s a p \<longrightarrow> present u p)"

lemma copiedD: "copied s D E u \<Longrightarrow> u x = Some (p, v, f, l) \<Longrightarrow> entry_copied s D E u p v f l"
  unfolding copied_def by blast

lemma entry_copied_mono:
  assumes "entry_copied s D E u p v f l" "\<And>b q. key_at u b q \<Longrightarrow> key_at u' b q"
  shows "entry_copied s D E u' p v f l"
proof -
  from assms(1) obtain a f' l' where "s a = Some (p, v, f', l')" "if a \<in> D then same_key u s f f' else f = None"
    "if a \<in> E then same_key u s (fst l) (fst l') \<and> snd l = snd l' else l = (None, False)" unfolding entry_copied_def by blast
  then show ?thesis unfolding entry_copied_def
    using same_key_mono [of u s f f' u'] same_key_mono [of u s "fst l" "fst l'" u'] assms(2)
    by (intro exI [of _ a] exI [of _ f'] exI [of _ l']) auto
qed

lemma copied_add:
  assumes c: "copied s D E u" and x: "u x = None" and a: "s a = Some (p, v, f', l')" "a \<notin> D \<union> E"
  shows "copied s D E (u(x \<mapsto> (p, v, None, None, False)))"
proof -
  let ?u = "u(x \<mapsto> (p, v, None, None, False))"
  have key: "key_at ?u b q" if "key_at u b q" for b q
    using that x unfolding key_at_upd by (auto simp: key_at_def)
  have "entry_copied s D E ?u q w f l" if "?u y = Some (q, w, f, l)" for y q w f l
  proof (cases "y = x")
    case True
    with that a show ?thesis unfolding entry_copied_def by (intro exI [of _ a] exI [of _ f'] exI [of _ l']) simp
  next
    case False
    with that have "u y = Some (q, w, f, l)" by simp
    from entry_copied_mono [OF copiedD [OF c this] key] show ?thesis .
  qed
  moreover have "present ?u q" if "a \<in> D \<union> E" "key_at s a q" for a q
    using c that key unfolding copied_def present_def by blast
  ultimately show ?thesis unfolding copied_def by blast
qed

lemma InsertInTable_copied:
  assumes t: "table_ok h t" and c: "copied s D E (table_shape t)" and a: "s a = Some (p, v, f, l)"
  shows "\<exists>t' x b. InsertInTable h t p v = Some (t', x, b) \<and> table_ok h t' \<and> copied s D E (table_shape t') \<and>
    key_at (table_shape t') x p \<and> (\<forall>y z. table_shape t y = Some z \<longrightarrow> table_shape t' y = Some z)"
proof -
  from InsertInTable_ok [OF t, of p v] obtain t' x b where t': "InsertInTable h t p v = Some (t', x, b)" "table_ok h t'"
    "key_at (table_shape t') x p"
    "if b then (\<forall>b. \<not> key_at (table_shape t) b p) \<and> table_shape t x = None \<and> table_shape t' = (table_shape t)(x \<mapsto> (p, v, None, None, False))
     else table_shape t' = table_shape t" by blast
  show ?thesis
  proof (cases b)
    case True
    with t'(4) have new: "\<And>b. \<not> key_at (table_shape t) b p" "table_shape t x = None"
      and s': "table_shape t' = (table_shape t)(x \<mapsto> (p, v, None, None, False))" by simp_all
    have "a \<notin> D \<union> E" using c new(1) key_atI [of s a p] a unfolding copied_def present_def by blast
    then have "copied s D E (table_shape t')" unfolding s' by (intro copied_add [OF c new(2) a])
    moreover have "\<forall>y z. table_shape t y = Some z \<longrightarrow> table_shape t' y = Some z" unfolding s' using new(2) by (auto simp del: shapes_None)
    ultimately show ?thesis using t'(1-3) by blast
  next
    case False
    with t' c show ?thesis by auto
  qed
qed

text \<open>Setting the links of one entry.\<close>

lemma copied_set:
  assumes c: "copied s D E u" and j: "u j = Some (p, v, f0, l0)" and i: "s i = Some (p, v, f', l')"
    and unique: "\<And>x q. key_at u j q \<Longrightarrow> key_at u x q \<Longrightarrow> x = j"
    and D': "D' - {i} = D - {i}" "if i \<in> D' then same_key u s f f' else f = None"
    and E': "E' - {i} = E - {i}" "if i \<in> E' then same_key u s (fst l) (fst l') \<and> snd l = snd l' else l = (None, False)"
  shows "copied s D' E' (u(j \<mapsto> (p, v, f, l)))"
proof -
  let ?u = "u(j \<mapsto> (p, v, f, l))"
  have kj: "key_at u j p" using key_atI [of u j p] j by blast
  have key: "key_at ?u b q \<longleftrightarrow> key_at u b q" for b q
    unfolding key_at_upd using kj key_at_fun [OF kj, of q] by auto
  have pres: "present ?u q \<longleftrightarrow> present u q" for q unfolding present_def key ..
  have "entry_copied s D' E' u q w g m" if y: "?u y = Some (q, w, g, m)" for y q w g m
  proof (cases "y = j")
    case True
    with y have "q = p" "w = v" "g = f" "m = l" by simp_all
    with i D'(2) E'(2) show ?thesis unfolding entry_copied_def by blast
  next
    case False
    with y have uy: "u y = Some (q, w, g, m)" by simp
    from copiedD [OF c uy] obtain a f'' l'' where a: "s a = Some (q, w, f'', l'')"
      "if a \<in> D then same_key u s g f'' else g = None"
      "if a \<in> E then same_key u s (fst m) (fst l'') \<and> snd m = snd l'' else m = (None, False)" unfolding entry_copied_def by blast
    have "a \<noteq> i"
    proof
      assume "a = i"
      with a(1) i have "q = p" by simp
      with unique [OF kj, of y] key_atI [of u y q] uy False show False by blast
    qed
    then have "a \<in> D' \<longleftrightarrow> a \<in> D" "a \<in> E' \<longleftrightarrow> a \<in> E" using D'(1) E'(1) by auto
    with a show ?thesis unfolding entry_copied_def by (intro exI [of _ a] exI [of _ f''] exI [of _ l'']) simp
  qed
  then have "entry_copied s D' E' ?u q w g m" if "?u y = Some (q, w, g, m)" for y q w g m
    using entry_copied_mono [of s D' E' u q w g m ?u] that key by blast
  moreover have "present ?u q" if "a \<in> D' \<union> E'" "key_at s a q" for a q
  proof (cases "a = i")
    case True
    with that(2) i have "q = p" using key_at_fun [of s i q p] key_atI [of s i p] by blast
    with kj have "present u q" unfolding present_def by blast
    then show ?thesis unfolding pres .
  next
    case False
    with that(1) D'(1) E'(1) have "a \<in> D \<union> E" by auto
    with c that(2) show ?thesis unfolding pres copied_def by blast
  qed
  ultimately show ?thesis unfolding copied_def by blast
qed

lemma table_ok_unique: "table_ok h t \<Longrightarrow> key_at (table_shape t) a p \<Longrightarrow> key_at (table_shape t) b p \<Longrightarrow> a = b"
  unfolding key_at_shapes using table_ok_keys by blast

lemma copied_target:
  assumes t: "table_ok h t" and c: "copied s D E (table_shape t)" and s: "s = table_shape other" and a: "a \<in> dom s"
    and j: "table_shape t j = Some z"
  shows "\<exists>e t' k b. table_heap other a = Some e \<and> InsertInTable h t (entry_key e) (entry_mapped e) = Some (t', k, b) \<and>
    table_ok h t' \<and> copied s D E (table_shape t') \<and> table_shape t' j = Some z \<and> same_key (table_shape t') s (Some k) (Some a) \<and>
    (\<forall>b q. key_at (table_shape t) b q \<longrightarrow> key_at (table_shape t') b q)"
proof -
  from a s obtain e where e: "table_heap other a = Some e" by auto
  then have sa: "s a = Some (entry_key e, entry_mapped e, entry_first_child e, entry_link e)"
    using s by (simp add: shapes_def shape_of_def)
  from InsertInTable_copied [OF t c sa] obtain t' k b where t':
    "InsertInTable h t (entry_key e) (entry_mapped e) = Some (t', k, b)" "table_ok h t'" "copied s D E (table_shape t')"
    "key_at (table_shape t') k (entry_key e)" "\<And>y z. table_shape t y = Some z \<Longrightarrow> table_shape t' y = Some z" by blast
  have "key_at s a (entry_key e)" using key_atI [of s a] sa by blast
  with t' e j show ?thesis unfolding key_at_def [of "table_shape t"] by (auto simp: key_at_def)
qed

lemma copy_first:
  assumes t: "table_ok h t" and c: "copied s D D (table_shape t)" and s: "s = table_shape other"
    and j: "table_shape t j = Some (p, v, None, None, False)" and i: "s i = Some (p, v, f', l')" "i \<notin> D"
    and f': "\<And>c. f' = Some c \<Longrightarrow> c \<in> dom s"
  shows "\<exists>t' f. (case f' of
              Some c \<Rightarrow> do {
                  e \<leftarrow> table_heap other c;
                  (t, k, _) \<leftarrow> InsertInTable h t (entry_key e) (entry_mapped e);
                  modify_entry t j (entry_first_child_update (\<lambda>_. Some k))
                }
            | None \<Rightarrow> Some t) = Some t' \<and> table_ok h t' \<and> copied s (insert i D) D (table_shape t') \<and>
    table_shape t' j = Some (p, v, f, None, False) \<and> same_key (table_shape t') s f f'"
proof (cases f')
  case None
  have "copied s (insert i D) D ((table_shape t)(j \<mapsto> (p, v, None, None, False)))"
    by (rule copied_set [OF c j i(1) table_ok_unique [OF t, symmetric]]) (use i(2) None in auto)
  then have "copied s (insert i D) D (table_shape t)" using j by (simp add: fun_upd_idem)
  with None t j show ?thesis by (intro exI [of _ t] exI [of _ None]) simp
next
  case (Some c)
  from copied_target [OF t c s f' [OF Some] j] obtain e t1 k b where t1: "table_heap other c = Some e"
    "InsertInTable h t (entry_key e) (entry_mapped e) = Some (t1, k, b)" "table_ok h t1" "copied s D D (table_shape t1)"
    "table_shape t1 j = Some (p, v, None, None, False)" "same_key (table_shape t1) s (Some k) (Some c)" by blast
  from t1(5) obtain m where m: "table_heap t1 j = Some m" "entry_key m = p" "entry_mapped m = v" "entry_link m = (None, False)"
    by (auto simp: shapes_Some)
  from modify_entry_ok [OF t1(3) m(1), of "entry_first_child_update (\<lambda>_. Some k)"] m obtain t2 where
    t2: "modify_entry t1 j (entry_first_child_update (\<lambda>_. Some k)) = Some t2" "table_ok h t2"
      "table_shape t2 = (table_shape t1)(j \<mapsto> (p, v, Some k, None, False))" by (auto simp: shape_of_def)
  have "copied s (insert i D) D (table_shape t2)" unfolding t2(3)
    by (rule copied_set [OF t1(4,5) i(1) table_ok_unique [OF t1(3), symmetric]]) (use i(2) Some t1(6) in auto)
  moreover have "same_key (table_shape t2) s (Some k) (Some c)"
    by (rule same_key_mono [OF t1(6)]) (use t1(5) in \<open>auto simp: t2(3) key_at_upd key_at_def\<close>)
  ultimately show ?thesis using t1(1,2) t2 Some by (intro exI [of _ t2] exI [of _ "Some k"]) simp
qed

lemma copy_link:
  assumes t: "table_ok h t" and c: "copied s (insert i D) D (table_shape t)" and s: "s = table_shape other"
    and j: "table_shape t j = Some (p, v, f, None, False)" and i: "s i = Some (p, v, f', l')" "i \<notin> D"
    and f: "same_key (table_shape t) s f f'"
    and l': "\<And>c. fst l' = Some c \<Longrightarrow> c \<in> dom s" "fst l' = None \<Longrightarrow> snd l' = False"
  shows "\<exists>t'. (case fst l' of
          Some l \<Rightarrow> do {
              e \<leftarrow> table_heap other l;
              (t, k, _) \<leftarrow> InsertInTable h t (entry_key e) (entry_mapped e);
              modify_entry t j (entry_link_update (\<lambda>_. (Some k, snd l')))
            }
        | None \<Rightarrow> Some t) = Some t' \<and> table_ok h t' \<and> copied s (insert i D) (insert i D) (table_shape t')"
proof (cases "fst l'")
  case None
  have "copied s (insert i D) (insert i D) ((table_shape t)(j \<mapsto> (p, v, f, None, False)))"
    by (rule copied_set [OF c j i(1) table_ok_unique [OF t, symmetric]]) (use i(2) None f l'(2) in auto)
  then have "copied s (insert i D) (insert i D) (table_shape t)" using j by (simp add: fun_upd_idem)
  with None t show ?thesis by simp
next
  case (Some d)
  from copied_target [OF t c s l'(1) [OF Some] j] obtain e t1 k b where t1: "table_heap other d = Some e"
    "InsertInTable h t (entry_key e) (entry_mapped e) = Some (t1, k, b)" "table_ok h t1" "copied s (insert i D) D (table_shape t1)"
    "table_shape t1 j = Some (p, v, f, None, False)" "same_key (table_shape t1) s (Some k) (Some d)"
    "\<And>b q. key_at (table_shape t) b q \<Longrightarrow> key_at (table_shape t1) b q" by blast
  from t1(5) obtain m where m: "table_heap t1 j = Some m" "entry_key m = p" "entry_mapped m = v" "entry_first_child m = f"
    by (auto simp: shapes_Some)
  from modify_entry_ok [OF t1(3) m(1), of "entry_link_update (\<lambda>_. (Some k, snd l'))"] m obtain t2 where
    t2: "modify_entry t1 j (entry_link_update (\<lambda>_. (Some k, snd l'))) = Some t2" "table_ok h t2"
      "table_shape t2 = (table_shape t1)(j \<mapsto> (p, v, f, Some k, snd l'))" by (auto simp: shape_of_def)
  have "copied s (insert i D) (insert i D) (table_shape t2)" unfolding t2(3)
    by (rule copied_set [OF t1(4,5) i(1) table_ok_unique [OF t1(3), symmetric]])
      (use i(2) Some t1(6) same_key_mono [OF f t1(7)] in auto)
  with t1(1,2) t2 Some show ?thesis by (intro exI [of _ t2]) simp
qed

lemma copy_step_ok:
  assumes t: "table_ok h t" and c: "copied s D D (table_shape t)" and s: "s = table_shape other"
    and i: "s i = Some (p, v, f', l')" "i \<notin> D"
    and unique: "\<And>a b q. key_at s a q \<Longrightarrow> key_at s b q \<Longrightarrow> a = b"
    and f': "\<And>c. f' = Some c \<Longrightarrow> c \<in> dom s"
    and l': "\<And>c. fst l' = Some c \<Longrightarrow> c \<in> dom s" "fst l' = None \<Longrightarrow> snd l' = False"
  shows "\<exists>t'. copy_step h other t i = Some t' \<and> table_ok h t' \<and> copied s (insert i D) (insert i D) (table_shape t')"
proof -
  from i(1) s obtain n where n: "table_heap other i = Some n" "entry_key n = p" "entry_mapped n = v"
    "entry_first_child n = f'" "entry_link n = l'" by (auto simp: shapes_Some)
  from InsertInTable_copied [OF t c i(1)] obtain t1 j b where t1: "InsertInTable h t p v = Some (t1, j, b)" "table_ok h t1"
    "copied s D D (table_shape t1)" "key_at (table_shape t1) j p" by blast
  from t1(4) obtain w f l where j: "table_shape t1 j = Some (p, w, f, l)" by (rule key_atE)
  from copiedD [OF t1(3) j] obtain a f'' l'' where a: "s a = Some (p, w, f'', l'')"
    "if a \<in> D then same_key (table_shape t1) s f f'' else f = None"
    "if a \<in> D then same_key (table_shape t1) s (fst l) (fst l'') \<and> snd l = snd l'' else l = (None, False)"
    unfolding entry_copied_def by blast
  have "a = i" using unique [of a p i] key_atI [of s a p] key_atI [of s i p] a(1) i(1) by blast
  with a i have j1: "table_shape t1 j = Some (p, v, None, None, False)" using j by simp
  from copy_first [OF t1(2,3) s j1 i f'] obtain t2 f2 where t2: "(case f' of
              Some c \<Rightarrow> do {
                  e \<leftarrow> table_heap other c;
                  (t, k, _) \<leftarrow> InsertInTable h t1 (entry_key e) (entry_mapped e);
                  modify_entry t j (entry_first_child_update (\<lambda>_. Some k))
                }
            | None \<Rightarrow> Some t1) = Some t2" "table_ok h t2" "copied s (insert i D) D (table_shape t2)"
    "table_shape t2 j = Some (p, v, f2, None, False)" "same_key (table_shape t2) s f2 f'" by blast
  from copy_link [OF t2(2,3) s t2(4) i t2(5) l'] obtain t3 where t3: "(case fst l' of
          Some l \<Rightarrow> do {
              e \<leftarrow> table_heap other l;
              (t, k, _) \<leftarrow> InsertInTable h t2 (entry_key e) (entry_mapped e);
              modify_entry t j (entry_link_update (\<lambda>_. (Some k, snd l')))
            }
        | None \<Rightarrow> Some t2) = Some t3" "table_ok h t3" "copied s (insert i D) (insert i D) (table_shape t3)" by blast
  from j1 obtain m1 where m1: "table_heap t1 j = Some m1" "entry_first_child m1 = None" by (auto simp: shapes_Some)
  from t2(4) obtain m2 where m2: "table_heap t2 j = Some m2" "entry_link m2 = (None, False)" by (auto simp: shapes_Some)
  have "copy_step h other t i = Some t3"
    unfolding copy_step_def using n t1(1) m1 m2 t2(1) t3(1) by (cases f'; cases "fst l'") simp_all
  with t3(2,3) show ?thesis by blast
qed

section \<open>The loop\<close>

lemma links_valid:
  assumes ok: "links_ok s {} K" and a: "s a = Some (p, v, f, l)"
  shows "f = Some c \<Longrightarrow> c \<in> dom s" "fst l = Some c \<Longrightarrow> c \<in> dom s" "fst l = None \<Longrightarrow> snd l = False"
proof -
  note e = links_okD [OF ok a, unfolded entry_ok_def]
  have kids: "d \<in> dom s" if "s b = Some (q, w, g, m)" "d \<in> set (K b)" for b q w g m d
    using children_key [OF ok that] by blast
  have f: "f = first_of (K a)" using e by blast
  show "c \<in> dom s" if "f = Some c"
    using kids [OF a, of c] f that by (cases "K a") auto
  have l: "\<exists>par w g m us vs. s par = Some (GetParentPath p, w, g, m) \<and> K par = us @ a # vs \<and> l = sibling_link par vs"
    if "p \<noteq> AbsoluteRootPath"
  proof -
    from child_position [OF ok a that] obtain par w g m us vs where *: "s par = Some (GetParentPath p, w, g, m)"
      "K par = us @ a # vs" "siblings s par (a # vs)" by blast
    then have "l = sibling_link par vs" using a by (simp add: link_at_def)
    with * show ?thesis by blast
  qed
  show "c \<in> dom s" if "fst l = Some c"
  proof (cases "p = AbsoluteRootPath")
    case False
    from l [OF this] obtain par w g m us vs where *: "s par = Some (GetParentPath p, w, g, m)" "K par = us @ a # vs"
      "l = sibling_link par vs" by blast
    with kids [OF *(1), of c] that show ?thesis by (cases vs) auto
  qed (use e that in auto)
  show "snd l = False" if "fst l = None"
  proof (cases "p = AbsoluteRootPath")
    case False
    from l [OF this] obtain par vs where "l = sibling_link par vs" by blast
    with that show ?thesis by (cases vs) simp_all
  qed (use e in auto)
qed

lemma traverse_Cons:
  assumes "traverse t i None = Some (z # zs)"
  shows "i = Some z \<and> (\<exists>j. Table_increment t z = Some j \<and> traverse t j None = Some zs)"
  using assms by (subst (asm) traverse.simps) (auto split: if_splits simp: bind_eq_Some_conv)

lemma copy_loop_ok:
  assumes ok: "links_ok s {} K" and s: "s = table_shape other"
  shows "traverse other i None = Some zs \<Longrightarrow> distinct zs \<Longrightarrow> set zs \<inter> D = {} \<Longrightarrow> set zs \<subseteq> dom s \<Longrightarrow>
    table_ok h t \<Longrightarrow> copied s D D (table_shape t) \<Longrightarrow>
    \<exists>t'. copy_loop h other i t = Some t' \<and> table_ok h t' \<and> copied s (D \<union> set zs) (D \<union> set zs) (table_shape t')"
proof (induction zs arbitrary: i D t)
  case Nil
  then have "i = None"
    by (subst (asm) traverse.simps) (auto split: if_splits simp: bind_eq_Some_conv)
  with Nil show ?case by (simp add: copy_loop.simps)
next
  case (Cons z zs)
  from traverse_Cons [OF Cons.prems(1)] obtain j where j: "i = Some z" "Table_increment other z = Some j" "traverse other j None = Some zs"
    by blast
  from Cons.prems(4) have "z \<in> dom s" by simp
  then obtain p v f l where z: "s z = Some (p, v, f, l)" by (metis domIff not_Some_eq prod_cases4)
  have "z \<notin> D" using Cons.prems(3) by simp
  then have "\<exists>t'. copy_step h other t z = Some t' \<and> table_ok h t' \<and> copied s (insert z D) (insert z D) (table_shape t')"
    by (rule copy_step_ok [OF Cons.prems(5,6) s z])
      (erule (1) links_ok_unique [OF ok], erule links_valid [OF ok z], erule links_valid [OF ok z], erule links_valid [OF ok z])
  then obtain t1 where
    t1: "copy_step h other t z = Some t1" "table_ok h t1" "copied s (insert z D) (insert z D) (table_shape t1)" by blast
  have "set zs \<inter> insert z D = {}" using Cons.prems(2,3) by auto
  from Cons.IH [OF j(3) _ this _ t1(2,3)] Cons.prems(2,4) obtain t' where t': "copy_loop h other j t1 = Some t'" "table_ok h t'"
    "copied s (insert z D \<union> set zs) (insert z D \<union> set zs) (table_shape t')" by auto
  then show ?case using j(1,2) t1(1) by (subst copy_loop.simps) simp
qed

section \<open>The copy is a table\<close>

lemma siblings_map:
  assumes "\<And>c l. c \<in> set cs \<Longrightarrow> link_at s c = Some l \<Longrightarrow> link_at u (g c) = Some (map_option g (fst l), snd l)"
  shows "siblings s par cs \<Longrightarrow> siblings u (g par) (map g cs)"
  using assms
proof (induction cs)
  case (Cons c cs)
  have "sibling_link (g par) (map g cs) = (map_option g (fst (sibling_link par cs)), snd (sibling_link par cs))" by (cases cs) simp_all
  with Cons show ?case by simp
qed simp

lemma links_ok_renamed:
  assumes ok: "links_ok s {} K"
    and u: "\<And>a p v f l. s a = Some (p, v, f, l) \<Longrightarrow>
      \<exists>w. u (g a) = Some (p, w, map_option g f, map_option g (fst l), snd l)"
    and dom: "dom u \<subseteq> g ` dom s"
  shows "\<exists>K'. links_ok u {} K'"
proof -
  have key: "key_at u (g a) q \<longleftrightarrow> key_at s a q" if "a \<in> dom s" for a q
  proof -
    from that obtain p v f l where a: "s a = Some (p, v, f, l)" by (metis domIff not_Some_eq prod_cases4)
    from u [OF a] a show ?thesis by (auto simp: key_at_def)
  qed
  have inj: "inj_on g (dom s)"
  proof (rule inj_onI)
    fix a b
    assume ab: "a \<in> dom s" "b \<in> dom s" "g a = g b"
    from ab(1) obtain p x where "s a = Some (p, x)" by auto
    then have "key_at s a p" by (rule key_atI)
    with key [OF ab(1)] key [OF ab(2)] ab(3) show "a = b" using links_ok_unique [OF ok] by metis
  qed
  have du: "\<exists>a \<in> dom s. x = g a" if "key_at u x q" for x q
  proof -
    from that have "x \<in> dom u" by (auto simp: key_at_def)
    with dom show ?thesis by blast
  qed
  have ch: "children_of u {} p = g ` children_of s {} p" for p
  proof -
    have "b \<in> dom s" if "key_at s b q" for b q using that by (auto simp: key_at_def)
    then show ?thesis unfolding children_of_def using du key by fastforce
  qed
  let ?K = "\<lambda>x. map g (K (inv_into (dom s) g x))"
  have "entry_ok u {} ?K x p f' l'" if x: "u x = Some (p, v, f', l')" for x p v f' l'
  proof -
    from x dom obtain a where a: "a \<in> dom s" "x = g a" by blast
    then obtain q w f l where s: "s a = Some (q, w, f, l)" by (metis domIff not_Some_eq prod_cases4)
    from u [OF s] x a(2) have eq: "q = p" "f' = map_option g f" "l' = (map_option g (fst l), snd l)" by auto
    note e = links_okD [OF ok s, unfolded entry_ok_def]
    have K: "?K x = map g (K a)" using a inj by simp
    have sub: "set (K a) \<subseteq> dom s" using children_key [OF ok s] by blast
    have link: "link_at u (g c) = Some (map_option g (fst m), snd m)" if "c \<in> set (K a)" "link_at s c = Some m" for c m
    proof -
      from that sub obtain q w f l where c: "s c = Some (q, w, f, l)" by (metis domIff in_mono not_Some_eq prod_cases4)
      from u [OF c] obtain w' where "u (g c) = Some (q, w', map_option g f, map_option g (fst l), snd l)" by blast
      with c that(2) show ?thesis by (simp add: link_at_def)
    qed
    have "siblings u (g a) (map g (K a))" by (rule siblings_map [OF link]) (use e in auto)
    moreover have "distinct (map g (K a))" using e inj_on_subset [OF inj sub] by (simp add: distinct_map)
    moreover have "map_option g (first_of (K a)) = first_of (map g (K a))" by (cases "K a") simp_all
    moreover have "set (map g (K a)) = children_of u {} p" using e eq(1) unfolding ch by simp
    moreover have "\<exists>b. key_at u b (GetParentPath p)" if "p \<noteq> AbsoluteRootPath"
    proof -
      from e that eq(1) obtain b where b: "key_at s b (GetParentPath p)" by auto
      then have "b \<in> dom s" by (auto simp: key_at_def)
      with b key show ?thesis by blast
    qed
    ultimately show ?thesis using e eq K a(2) unfolding entry_ok_def by auto
  qed
  moreover have "x = y" if "key_at u x q" "key_at u y q" for x y q
    using du [OF that(1)] du [OF that(2)] key that links_ok_unique [OF ok] by blast
  moreover have "finite (dom u)" using finite_subset [OF dom] ok by (auto simp: links_ok_def)
  ultimately show ?thesis unfolding links_ok_def by blast
qed

lemma copied_all:
  assumes t: "table_ok h t" and c: "copied s (dom s) (dom s) (table_shape t)" and ok: "links_ok s {} K"
  shows "\<exists>K'. links_ok (table_shape t) {} K'" "has_value (table_shape t) q w \<longleftrightarrow> has_value s q w"
proof -
  let ?u = "table_shape t"
  define g where "g a = (THE x. key_at ?u x (key_of s a))" for a
  have g: "g a = x" if "key_at ?u x q" "key_at s a q" for a x q
    unfolding g_def key_at_key_of [OF that(2)] using that(1) by (rule the_equality) (rule table_ok_unique [OF t _ that(1)])
  have same: "same_key ?u s x y \<Longrightarrow> x = map_option g y" for x y by (cases x; cases y) (auto dest: g)
  have origin: "\<exists>a f' l'. s a = Some (p, v, f', l') \<and> x = g a \<and> f = map_option g f' \<and> l = (map_option g (fst l'), snd l')"
    if x: "?u x = Some (p, v, f, l)" for x p v f l
  proof -
    from copiedD [OF c x] obtain a f' l' where a: "s a = Some (p, v, f', l')" "if a \<in> dom s then same_key ?u s f f' else f = None"
      "if a \<in> dom s then same_key ?u s (fst l) (fst l') \<and> snd l = snd l' else l = (None, False)" unfolding entry_copied_def by blast
    from a(1) have "a \<in> dom s" by blast
    with a have "same_key ?u s f f'" "same_key ?u s (fst l) (fst l')" "snd l = snd l'" by simp_all
    moreover have "x = g a" using g [of x p a] key_atI [of ?u x p] key_atI [of s a p] x a(1) by metis
    ultimately show ?thesis using a(1) same by (intro exI [of _ a] exI [of _ f'] exI [of _ l']) (auto simp: prod_eq_iff)
  qed
  have forth: "?u (g a) = Some (p, v, map_option g f, map_option g (fst l), snd l)" if a: "s a = Some (p, v, f, l)" for a p v f l
  proof -
    have ka: "key_at s a p" using key_atI [of s a p] a by blast
    have "a \<in> dom s" using a by blast
    with c ka obtain x where x: "key_at ?u x p" unfolding copied_def present_def by blast
    then obtain w f' l' where ux: "?u x = Some (p, w, f', l')" by (rule key_atE)
    from origin [OF ux] obtain b f'' l'' where b: "s b = Some (p, w, f'', l'')" "x = g b" "f' = map_option g f''"
      "l' = (map_option g (fst l''), snd l'')" by blast
    have "b = a" using links_ok_unique [OF ok ka, of b] key_atI [of s b p] b(1) by blast
    with a b ux show ?thesis by simp
  qed
  have dom: "dom ?u \<subseteq> g ` dom s"
  proof
    fix x
    assume "x \<in> dom ?u"
    then obtain p v f l where "?u x = Some (p, v, f, l)" by (metis domIff not_Some_eq prod_cases4)
    from origin [OF this] show "x \<in> g ` dom s" by blast
  qed
  show "\<exists>K'. links_ok ?u {} K'" by (rule links_ok_renamed [OF ok _ dom]) (use forth in blast)
  show "has_value ?u q w \<longleftrightarrow> has_value s q w"
    unfolding has_value_def using origin forth by blast
qed

lemma copy_client:
  assumes t: "client_ok h other"
  shows "\<exists>t'. Table_copy h other = Some t' \<and> client_ok h t' \<and> table_contents t' = table_contents other"
proof -
  let ?s = "table_shape other"
  let ?t0 = "empty_table\<lparr>table_buckets := replicate (length (table_buckets other)) None, table_mask := table_mask other\<rparr>"
  from t obtain K where ok: "table_ok h other" "links_ok ?s {} K" by (auto simp: client_ok_def)
  from iteration_ok [OF t] obtain b zs where zs: "Table_begin h other = Some b" "traverse other b None = Some zs" "distinct zs"
    "set zs = dom ?s" by blast
  have "buckets_ok (Table_Hash h ?t0) (table_heap ?t0) (table_buckets ?t0) (replicate (length (table_buckets other)) [])"
    using buckets_ok_none by simp
  then have t0: "table_ok h ?t0"
    by (rule table_okI) (use table_ok_facts(4) [OF ok(1)] in \<open>auto simp: empty_table_def\<close>)
  have c0: "copied ?s {} {} (table_shape ?t0)" by (simp add: copied_def empty_table_def)
  from copy_loop_ok [OF ok(2) refl zs(2,3) _ _ t0 c0] zs(4) obtain t' where t': "copy_loop h other b ?t0 = Some t'" "table_ok h t'"
    "copied ?s (dom ?s) (dom ?s) (table_shape t')" by auto
  note all = copied_all [OF t'(2,3) ok(2)]
  have client: "client_ok h t'" using t'(2) all(1) by (simp add: client_ok_def)
  moreover have "table_contents t' = table_contents other"
    by (rule table_contents_eqI [OF client]) (simp add: all(2) table_contents_iff [OF t])
  moreover have "Table_copy h other = Some t'" using zs(1) t'(1) by (simp add: Table_copy_def)
  ultimately show ?thesis by blast
qed

end
