(* ===== verification/Sdf_PathTableBuckets.thy ===== *)
theory Sdf_PathTableBuckets
  imports Sdf_PathTableCopy
begin

text \<open>
  The operations of \<open>SdfPathTable\<close> that go over the buckets: their sizes, and the parallel loops, which
  have the same result in whatever order the buckets are visited.
\<close>

declare split_paired_Ex [simp del]

section \<open>Bucket sizes\<close>

lemma chain_size_ok: "chain heap e as \<Longrightarrow> chain_size heap e = Some (length as)"
proof (induction as arbitrary: e)
  case Nil
  then show ?case by (simp add: chain_size.simps)
next
  case (Cons a as)
  then show ?case by (auto simp: chain_size.simps [of heap "Some a"])
qed

lemma bucket_sizes_ok: "list_all2 (chain heap) bs bl \<Longrightarrow> bucket_sizes heap bs = Some (map length bl)"
  by (induction rule: list_all2_induct) (auto simp: chain_size_ok)

lemma GetBucketSizes_ok:
  assumes "table_ok h t"
  shows "\<exists>ks. GetBucketSizes t = Some ks \<and> length ks = length (table_buckets t) \<and> sum_list ks = table_size t"
proof -
  from assms obtain bl where bl: "buckets_ok (Table_Hash h t) (table_heap t) (table_buckets t) bl"
    "set (concat bl) = dom (table_heap t)" unfolding table_ok_def by blast
  have "sum_list (map length bl) = length (concat bl)" by (simp add: length_concat)
  also have "\<dots> = card (dom (table_heap t))" using bl distinct_card [of "concat bl"] by (simp add: buckets_ok_def)
  finally have "sum_list (map length bl) = table_size t" using table_ok_facts(2) [OF assms] by simp
  with bucket_sizes_ok [OF buckets_ok_list_all2 [OF bl(1)]] bl(1) show ?thesis
    by (simp add: GetBucketSizes_def buckets_ok_def)
qed

section \<open>ParallelForEach\<close>

definition visit_entry :: "(sdf_path \<Rightarrow> 'm \<Rightarrow> 'm) \<Rightarrow> 'm table_entry \<Rightarrow> 'm table_entry" where
  "visit_entry f n = n\<lparr>entry_mapped := f (entry_key n) (entry_mapped n)\<rparr>"

definition visited :: "(sdf_path \<Rightarrow> 'm \<Rightarrow> 'm) \<Rightarrow> nat set \<Rightarrow> (nat \<rightharpoonup> 'm table_entry) \<Rightarrow> (nat \<rightharpoonup> 'm table_entry)" where
  "visited f A heap a = (if a \<in> A then map_option (visit_entry f) (heap a) else heap a)"

lemma visited_empty [simp]: "visited f {} heap = heap"
  by (simp add: visited_def fun_eq_iff)

lemma visited_visited: "A \<inter> B = {} \<Longrightarrow> visited f A (visited f B heap) = visited f (A \<union> B) heap"
  by (auto simp: visited_def fun_eq_iff)

lemma visited_chain: "chain heap e as \<Longrightarrow> chain (visited f A heap) e as"
  by (elim chain_cong) (auto simp: visited_def visit_entry_def option.map_comp comp_def)

lemma visit_chain_ok:
  "chain heap e as \<Longrightarrow> distinct as \<Longrightarrow> visit_chain f e heap = Some (visited f (set as) heap)"
proof (induction as arbitrary: e heap)
  case Nil
  then show ?case by (simp add: visit_chain.simps)
next
  case (Cons a as)
  then obtain n where n: "e = Some a" "heap a = Some n" "chain heap (entry_next n) as" by auto
  have one: "heap(a \<mapsto> visit_entry f n) = visited f {a} heap" using n(2) by (auto simp: visited_def fun_eq_iff)
  have "visit_chain f (entry_next n) (visited f {a} heap) = Some (visited f (set as) (visited f {a} heap))"
    by (rule Cons.IH) (use n(3) visited_chain Cons.prems(2) in auto)
  moreover have "visited f (set as) (visited f {a} heap) = visited f (set (a # as)) heap"
    using visited_visited [of "set as" "{a}"] Cons.prems(2) by (simp add: Un_commute)
  ultimately show ?case using n(1,2) one
    by (simp add: visit_chain.simps [of f "Some a"] visit_entry_def)
qed

lemma visit_buckets_ok:
  "\<forall>i < length bl. chain heap (bs ! i) (bl ! i) \<Longrightarrow> distinct (concat bl) \<Longrightarrow> length bl = length bs \<Longrightarrow>
   \<forall>i j. i < length bl \<longrightarrow> j < length bl \<longrightarrow> i \<noteq> j \<longrightarrow> set (bl ! i) \<inter> set (bl ! j) = {} \<Longrightarrow>
   distinct order \<Longrightarrow> set order \<subseteq> {..<length bs} \<Longrightarrow>
   visit_buckets f order bs heap = Some (visited f (\<Union>i \<in> set order. set (bl ! i)) heap)"
proof (induction order arbitrary: heap)
  case (Cons i order)
  have i: "i < length bs" "i < length bl" using Cons.prems by auto
  have d: "distinct (bl ! i)" using Cons.prems(2) i(2) by (metis distinct_concat_iff nth_mem)
  have "chain heap (bs ! i) (bl ! i)" using Cons.prems(1) i by blast
  note one = visit_chain_ok [OF this d, of f]
  have "visit_buckets f order bs (visited f (set (bl ! i)) heap) =
      Some (visited f (\<Union>i \<in> set order. set (bl ! i)) (visited f (set (bl ! i)) heap))"
    by (rule Cons.IH) (use Cons.prems in \<open>auto intro: visited_chain\<close>)
  moreover have "(\<Union>j \<in> set order. set (bl ! j)) \<inter> set (bl ! i) = {}"
  proof -
    have "set (bl ! j) \<inter> set (bl ! i) = {}" if "j \<in> set order" for j
    proof -
      have "j < length bl" "j \<noteq> i" using that Cons.prems(3,5,6) by auto
      with Cons.prems(4) i show ?thesis by blast
    qed
    then show ?thesis by blast
  qed
  ultimately show ?case using one i(1) by (simp add: bucket_at_def visited_visited Un_commute)
qed simp

lemma buckets_disjoint:
  assumes "buckets_ok hash heap bs bl"
  shows "\<forall>i j. i < length bl \<longrightarrow> j < length bl \<longrightarrow> i \<noteq> j \<longrightarrow> set (bl ! i) \<inter> set (bl ! j) = {}"
proof (intro allI impI equals0I)
  fix i j c
  assume ij: "i < length bl" "j < length bl" "i \<noteq> j" and c: "c \<in> set (bl ! i) \<inter> set (bl ! j)"
  have bucket: "hash (entry_key n) = k" if "k < length bl" "c \<in> set (bl ! k)" "heap c = Some n" for k n
    using assms that unfolding buckets_ok_def by fastforce
  from assms ij(1) c obtain n where "heap c = Some n" unfolding buckets_ok_def by blast
  with bucket ij c show False by blast
qed

lemma concat_buckets: "set order = {..<length bl} \<Longrightarrow> (\<Union>i \<in> set order. set (bl ! i)) = set (concat bl)"
  by (force simp: in_set_conv_nth [of _ bl])

lemma table_ok_visited:
  assumes ok: "table_ok h t"
  shows "table_ok h (t\<lparr>table_heap := visited f A (table_heap t)\<rparr>)"
proof -
  let ?t = "t\<lparr>table_heap := visited f A (table_heap t)\<rparr>"
  from ok obtain bl where bl: "buckets_ok (Table_Hash h t) (table_heap t) (table_buckets t) bl"
    "set (concat bl) = dom (table_heap t)" unfolding table_ok_def by blast
  have key: "\<exists>m. visited f A (table_heap t) c = Some m \<and> entry_key m = entry_key n" if "table_heap t c = Some n" for c n
    using that by (simp add: visited_def visit_entry_def)
  have old: "\<exists>y. table_heap t c = Some y \<and> entry_key y = entry_key x" if "table_heap ?t c = Some x" for c x
    using that by (auto simp: visited_def visit_entry_def split: if_splits)
  have "\<exists>m. visited f A (table_heap t) c = Some m \<and> Table_Hash h t (entry_key m) = i"
    if "\<exists>m. table_heap t c = Some m \<and> Table_Hash h t (entry_key m) = i" for c i
    using that key by metis
  then have "buckets_ok (Table_Hash h t) (table_heap ?t) (table_buckets ?t) bl"
    using bl(1) unfolding buckets_ok_def by (simp add: visited_chain)
  then have b: "buckets_ok (Table_Hash h ?t) (table_heap ?t) (table_buckets ?t) bl"
    by (simp add: Table_Hash_def [abs_def])
  have dom: "dom (table_heap ?t) = dom (table_heap t)" by (auto simp: visited_def split: if_splits)
  have inj: "c = b" if "table_heap ?t c = Some x" "table_heap ?t b = Some y" "entry_key x = entry_key y" for b c x y
    using old that by (rule table_ok_keys_mono [OF ok])
  show ?thesis
    by (rule table_okI [OF b _ inj]) (assumption | simp only: dom bl(2) | use table_ok_facts [OF ok] in simp)+
qed

lemma ParallelForEach_client:
  assumes t: "client_ok h t" and order: "distinct order" "set order = {..<length (table_buckets t)}"
  shows "\<exists>t'. ParallelForEach f order t = Some t' \<and> client_ok h t' \<and>
    table_contents t' = (\<lambda>p. map_option (f p) (table_contents t p))"
proof -
  from t obtain K where ok: "table_ok h t" "links_ok (table_shape t) {} K" by (auto simp: client_ok_def)
  from ok(1) obtain bl where bl: "buckets_ok (Table_Hash h t) (table_heap t) (table_buckets t) bl"
    "set (concat bl) = dom (table_heap t)" unfolding table_ok_def by blast
  let ?heap = "visited f (dom (table_heap t)) (table_heap t)"
  let ?t = "t\<lparr>table_heap := ?heap\<rparr>"
  have len: "length bl = length (table_buckets t)" using bl(1) by (simp add: buckets_ok_def)
  have "visit_buckets f order (table_buckets t) (table_heap t) = Some (visited f (\<Union>i \<in> set order. set (bl ! i)) (table_heap t))"
    by (rule visit_buckets_ok [OF _ _ len buckets_disjoint [OF bl(1)] order(1)])
      (use bl(1) order(2) in \<open>auto simp: buckets_ok_def\<close>)
  then have run: "ParallelForEach f order t = Some ?t"
    using concat_buckets [of order bl] order(2) len bl(2) by (simp add: ParallelForEach_def)
  have shape: "table_shape ?t a = map_option (\<lambda>(p, v, f', l). (p, f p v, f', l)) (table_shape t a)" for a
    by (cases "table_heap t a") (simp_all add: shapes_def visited_def visit_entry_def shape_of_def domIff)
  have "\<exists>K'. links_ok (table_shape ?t) {} K'"
  proof (rule links_ok_renamed [OF ok(2), of _ id])
    fix a p v f' l
    assume "table_shape t a = Some (p, v, f', l)"
    then show "\<exists>w. table_shape ?t (id a) = Some (p, w, map_option id f', map_option id (fst l), snd l)"
      unfolding shape id_apply by (simp add: id_def option.map_ident)
  next
    show "dom (table_shape ?t) \<subseteq> id ` dom (table_shape t)" by (auto simp: visited_def split: if_splits)
  qed
  then have client: "client_ok h ?t" using table_ok_visited [OF ok(1)] by (simp add: client_ok_def)
  have "core_at (table_shape ?t) a = Some (p, w) \<longleftrightarrow> (\<exists>v. core_at (table_shape t) a = Some (p, v) \<and> w = f p v)" for a p w
    unfolding core_at_def shape by (cases "table_shape t a") auto
  then have "has_value (table_shape ?t) p w \<longleftrightarrow> (\<exists>v. has_value (table_shape t) p v \<and> w = f p v)" for p w
    unfolding has_value_core by blast
  then have "table_contents ?t = (\<lambda>p. map_option (f p) (table_contents t p))"
    by (intro table_contents_eqI [OF client]) (auto simp: table_contents_iff [OF t, symmetric])
  with run client show ?thesis by blast
qed

section \<open>ClearInParallel\<close>

lemma clear_in_order_ok:
  "\<forall>i \<in> set order. i < length bs \<and> chain heap (bs ! i) (bl ! i) \<and> distinct (bl ! i) \<Longrightarrow>
   \<forall>i \<in> set order. \<forall>j \<in> set order. i \<noteq> j \<longrightarrow> set (bl ! i) \<inter> set (bl ! j) = {} \<Longrightarrow> distinct order \<Longrightarrow>
   \<exists>bs'. clear_in_order order bs heap = Some (bs', heap |` (- (\<Union>i \<in> set order. set (bl ! i)))) \<and>
     length bs' = length bs \<and> (\<forall>i. bs' ! i = (if i \<in> set order then None else bs ! i))"
proof (induction order arbitrary: bs heap)
  case Nil
  then show ?case by (simp add: restrict_map_def)
next
  case (Cons i order)
  let ?heap = "heap |` (- set (bl ! i))" and ?bs = "bs[i := None]"
  have i: "i < length bs" "chain heap (bs ! i) (bl ! i)" "distinct (bl ! i)" using Cons.prems(1) by auto
  have "chain ?heap (?bs ! j) (bl ! j)" if j: "j \<in> set order" for j
  proof -
    have "j \<noteq> i" using j Cons.prems(3) by auto
    then have "set (bl ! i) \<inter> set (bl ! j) = {}" using j Cons.prems(2) by auto
    then have "?heap c = heap c" if "c \<in> set (bl ! j)" for c using that by (auto simp: restrict_map_def)
    moreover have "chain heap (bs ! j) (bl ! j)" using j Cons.prems(1) by auto
    ultimately show ?thesis using \<open>j \<noteq> i\<close> by (simp add: chain_cong)
  qed
  then have "\<exists>bs'. clear_in_order order ?bs ?heap = Some (bs', ?heap |` (- (\<Union>i \<in> set order. set (bl ! i)))) \<and>
     length bs' = length ?bs \<and> (\<forall>j. bs' ! j = (if j \<in> set order then None else ?bs ! j))"
    by (intro Cons.IH) (use Cons.prems in auto)
  then obtain bs' where bs': "clear_in_order order ?bs ?heap = Some (bs', ?heap |` (- (\<Union>i \<in> set order. set (bl ! i))))"
    "length bs' = length bs" "\<And>j. bs' ! j = (if j \<in> set order then None else ?bs ! j)" by auto
  have "bs' ! j = (if j \<in> set (i # order) then None else bs ! j)" for j
    using bs'(3) [of j] i(1) by (cases "j = i") auto
  moreover have "?heap |` (- (\<Union>i \<in> set order. set (bl ! i))) = heap |` (- (\<Union>i \<in> set (i # order). set (bl ! i)))"
    by (auto simp: restrict_map_def fun_eq_iff)
  ultimately show ?case using bs'(1,2) i(1) clear_chain_ok [OF i(2,3)] by (intro exI [of _ bs']) (simp add: bucket_at_def)
qed

lemma ClearInParallel_ok:
  assumes t: "table_ok h t" and order: "distinct order" "set order = {..<length (table_buckets t)}"
  shows "ClearInParallel order t = Table_clear t"
proof -
  from t obtain bl where bl: "buckets_ok (Table_Hash h t) (table_heap t) (table_buckets t) bl"
    "set (concat bl) = dom (table_heap t)" unfolding table_ok_def by blast
  have len: "length bl = length (table_buckets t)" using bl(1) by (simp add: buckets_ok_def)
  have d: "distinct (concat bl)" using bl(1) by (simp add: buckets_ok_def)
  have "i < length (table_buckets t) \<and> chain (table_heap t) (table_buckets t ! i) (bl ! i) \<and> distinct (bl ! i)" if "i \<in> set order" for i
  proof -
    have i: "i < length (table_buckets t)" using that order(2) by simp
    moreover have "distinct (bl ! i)" using d i len by (metis distinct_concat_iff nth_mem)
    ultimately show ?thesis using bl(1) len by (simp add: buckets_ok_def)
  qed
  moreover have "\<forall>i \<in> set order. \<forall>j \<in> set order. i \<noteq> j \<longrightarrow> set (bl ! i) \<inter> set (bl ! j) = {}"
    using buckets_disjoint [OF bl(1)] order(2) len by simp
  ultimately obtain bs' where bs': "clear_in_order order (table_buckets t) (table_heap t) =
      Some (bs', table_heap t |` (- (\<Union>i \<in> set order. set (bl ! i))))" "length bs' = length (table_buckets t)"
      "\<And>i. bs' ! i = (if i \<in> set order then None else table_buckets t ! i)"
    using clear_in_order_ok [OF _ _ order(1), of "table_buckets t" "table_heap t" bl] by blast
  have "bs' = replicate (length (table_buckets t)) None"
    by (rule nth_equalityI) (use bs'(2,3) order(2) in auto)
  moreover have "clear_buckets (table_buckets t) (table_heap t) = Some (table_heap t |` (- set (concat bl)))"
    by (rule clear_buckets_ok [OF buckets_ok_list_all2 [OF bl(1)] d])
  moreover have "(\<Union>i \<in> set order. set (bl ! i)) = set (concat bl)" by (rule concat_buckets) (use order(2) len in simp)
  ultimately show ?thesis using bs'(1) by (simp add: ClearInParallel_def Table_clear_def)
qed

end
