(* ===== verification/Sdf_PathTableClient.thy ===== *)
theory Sdf_PathTableClient
  imports Sdf_PathTableBuckets
begin

text \<open>
  The properties of \<open>SdfPathTable\<close> for any sequence of calls with absolute paths; a rename of a path to
  itself, and the insertion of a relative path, which goes on to ever longer ancestors.
\<close>

declare split_paired_Ex [simp del]

section \<open>Clients\<close>

text \<open>
  The calls of a client: insertion of a value or of a node handle, \<open>operator[]\<close>, removal, \<open>count\<close>, \<open>clear\<close>
  in one task or in parallel, a parallel loop that sets the mapped values, and a copy in place of the table. A schedule
  gives the order in which the buckets are visited.
\<close>

datatype 'm table_call =
    CallInsert sdf_path 'm
  | CallInsertNode sdf_path 'm
  | CallIndex sdf_path
  | CallErase sdf_path
  | CallCount sdf_path
  | CallClear
  | CallClearInParallel "nat \<Rightarrow> nat list"
  | CallForEach "nat \<Rightarrow> nat list" "sdf_path \<Rightarrow> 'm \<Rightarrow> 'm"
  | CallCopy

datatype 'm call_result = Flag bool | Mapped 'm | Number nat | NoResult

fun run_call :: "(sdf_path \<Rightarrow> 64 word) \<Rightarrow> 'm \<Rightarrow> 'm path_table \<Rightarrow> 'm table_call \<Rightarrow> ('m path_table \<times> 'm call_result) option" where
  "run_call h dflt t (CallInsert p v) = do { (t, _, inserted) \<leftarrow> Table_insert h dflt t p v; Some (t, Flag inserted) }"
| "run_call h dflt t (CallInsertNode p v) =
     do { (t, _, inserted, node) \<leftarrow> insert_node h dflt t (Some (p, v)); Some (t, Flag (node = None)) }"
| "run_call h dflt t (CallIndex p) = do { (t, v) \<leftarrow> Table_index h dflt t p; Some (t, Mapped v) }"
| "run_call h dflt t (CallErase p) = do { (t, erased) \<leftarrow> Table_erase h t p; Some (t, Flag erased) }"
| "run_call h dflt t (CallCount p) = do { k \<leftarrow> Table_count h t p; Some (t, Number k) }"
| "run_call h dflt t CallClear = do { t \<leftarrow> Table_clear t; Some (t, NoResult) }"
| "run_call h dflt t (CallClearInParallel sched) =
     do { t \<leftarrow> ClearInParallel (sched (length (table_buckets t))) t; Some (t, NoResult) }"
| "run_call h dflt t (CallForEach sched f) =
     do { t \<leftarrow> ParallelForEach f (sched (length (table_buckets t))) t; Some (t, NoResult) }"
| "run_call h dflt t CallCopy = do { t \<leftarrow> Table_copy h t; Some (t, NoResult) }"

fun run_calls :: "(sdf_path \<Rightarrow> 64 word) \<Rightarrow> 'm \<Rightarrow> 'm path_table \<Rightarrow> 'm table_call list \<Rightarrow> ('m path_table \<times> 'm call_result list) option" where
  "run_calls h dflt t [] = Some (t, [])"
| "run_calls h dflt t (c # cs) =
     do { (t, r) \<leftarrow> run_call h dflt t c; (t, rs) \<leftarrow> run_calls h dflt t cs; Some (t, r # rs) }"

text \<open>What the same calls do to a map.\<close>

fun call_spec :: "'m \<Rightarrow> (sdf_path \<Rightarrow> 'm option) \<Rightarrow> 'm table_call \<Rightarrow> (sdf_path \<Rightarrow> 'm option) \<times> 'm call_result" where
  "call_spec dflt m (CallInsert p v) = (insert_spec dflt m p v, Flag (m p = None))"
| "call_spec dflt m (CallInsertNode p v) = (insert_spec dflt m p v, Flag (m p = None))"
| "call_spec dflt m (CallIndex p) = (insert_spec dflt m p dflt, Mapped (case m p of Some v \<Rightarrow> v | None \<Rightarrow> dflt))"
| "call_spec dflt m (CallErase p) = (erase_spec m p, Flag (m p \<noteq> None))"
| "call_spec dflt m (CallCount p) = (m, Number (if m p = None then 0 else 1))"
| "call_spec dflt m CallClear = (Map.empty, NoResult)"
| "call_spec dflt m (CallClearInParallel sched) = (Map.empty, NoResult)"
| "call_spec dflt m (CallForEach sched f) = (\<lambda>p. map_option (f p) (m p), NoResult)"
| "call_spec dflt m CallCopy = (m, NoResult)"

fun calls_spec :: "'m \<Rightarrow> (sdf_path \<Rightarrow> 'm option) \<Rightarrow> 'm table_call list \<Rightarrow> (sdf_path \<Rightarrow> 'm option) \<times> 'm call_result list" where
  "calls_spec dflt m [] = (m, [])"
| "calls_spec dflt m (c # cs) =
     (let (m, r) = call_spec dflt m c; (m, rs) = calls_spec dflt m cs in (m, r # rs))"

definition visits_each :: "(nat \<Rightarrow> nat list) \<Rightarrow> bool" where
  "visits_each sched \<longleftrightarrow> (\<forall>n. distinct (sched n) \<and> set (sched n) = {..<n})"

fun call_ok :: "'m table_call \<Rightarrow> bool" where
  "call_ok (CallInsert p v) \<longleftrightarrow> IsAbsolutePath p"
| "call_ok (CallInsertNode p v) \<longleftrightarrow> IsAbsolutePath p"
| "call_ok (CallIndex p) \<longleftrightarrow> IsAbsolutePath p"
| "call_ok (CallErase p) \<longleftrightarrow> IsAbsolutePath p"
| "call_ok (CallClearInParallel sched) \<longleftrightarrow> visits_each sched"
| "call_ok (CallForEach sched f) \<longleftrightarrow> visits_each sched"
| "call_ok _ \<longleftrightarrow> True"

lemma index_client:
  assumes t: "client_ok h t" and p: "absolute p"
  shows "\<exists>t'. Table_index h dflt t p = Some (t', case table_contents t p of Some v \<Rightarrow> v | None \<Rightarrow> dflt) \<and> client_ok h t' \<and>
    table_contents t' = insert_spec dflt (table_contents t) p dflt"
proof -
  from insert_client [OF t p, of dflt dflt] obtain t' a where t': "Table_insert h dflt t p dflt = Some (t', a, table_contents t p = None)"
    "client_ok h t'" "table_contents t' = insert_spec dflt (table_contents t) p dflt" "key_at (table_shape t') a p" by blast
  from t'(4) obtain n where n: "table_heap t' a = Some n" "entry_key n = p" by (auto simp: key_at_shapes)
  then have "table_contents t' p = Some (entry_mapped n)"
    unfolding table_contents_iff [OF t'(2)] has_value_heap by blast
  then have "entry_mapped n = (case table_contents t p of Some v \<Rightarrow> v | None \<Rightarrow> dflt)"
    unfolding t'(3) by (cases "table_contents t p") (simp_all add: insert_spec_def)
  with t' n show ?thesis by (simp add: Table_index_def)
qed

lemma count_client:
  assumes t: "client_ok h t"
  shows "Table_count h t p = Some (if table_contents t p = None then 0 else 1)"
proof -
  from t have "table_ok h t" by (simp add: client_ok_def)
  from Table_find_ok [OF this, of p] obtain r where "Table_find h t p = Some r" "finds (table_shape t) p r" by blast
  then show ?thesis using table_contents_None [OF t, of p]
    by (cases r) (auto simp: Table_count_def finds_def present_def)
qed

lemma run_call_ok:
  assumes t: "client_ok h t" and c: "call_ok c"
  shows "\<exists>t' r. run_call h dflt t c = Some (t', r) \<and> client_ok h t' \<and> call_spec dflt (table_contents t) c = (table_contents t', r)"
proof (cases c)
  case (CallInsert p v)
  with insert_client [OF t IsAbsolutePath_absolute, of p dflt v] c show ?thesis by auto
next
  case (CallInsertNode p v)
  with insert_client [OF t IsAbsolutePath_absolute, of p dflt v] c show ?thesis by (auto simp: insert_node_def)
next
  case (CallIndex p)
  with index_client [OF t IsAbsolutePath_absolute, of p dflt] c show ?thesis by auto
next
  case (CallErase p)
  with erase_client [OF t IsAbsolutePath_absolute, of p] c show ?thesis by auto
next
  case (CallCount p)
  with count_client [OF t, of p] t show ?thesis by simp
next
  case CallClear
  with clear_client [OF t] show ?thesis by auto
next
  case (CallClearInParallel sched)
  with t c have "ClearInParallel (sched (length (table_buckets t))) t = Table_clear t"
    by (intro ClearInParallel_ok) (auto simp: client_ok_def visits_each_def)
  with CallClearInParallel clear_client [OF t] show ?thesis by auto
next
  case (CallForEach sched f)
  with c have "distinct (sched (length (table_buckets t)))" "set (sched (length (table_buckets t))) = {..<length (table_buckets t)}"
    by (auto simp: visits_each_def)
  from ParallelForEach_client [OF t this, of f] CallForEach show ?thesis by auto
next
  case CallCopy
  with copy_client [OF t] show ?thesis by auto
qed

lemma run_calls_ok:
  "client_ok h t \<Longrightarrow> list_all call_ok cs \<Longrightarrow>
   \<exists>t' rs. run_calls h dflt t cs = Some (t', rs) \<and> client_ok h t' \<and> calls_spec dflt (table_contents t) cs = (table_contents t', rs)"
proof (induction cs arbitrary: t)
  case (Cons c cs)
  from run_call_ok [OF Cons.prems(1), of c dflt] Cons.prems(2) obtain t1 r where
    "run_call h dflt t c = Some (t1, r)" "client_ok h t1" "call_spec dflt (table_contents t) c = (table_contents t1, r)" by auto
  with Cons.IH [of t1] Cons.prems(2) show ?case by auto
qed simp

text \<open>C12: The path table refines a map closed under ancestors: whatever calls a client makes with absolute paths,
  all return, none follows a dangling pointer, their results are those of the same calls on a map, and the size is its size.\<close>

theorem path_table_refines_map:
  assumes "list_all call_ok cs"
  shows "\<exists>t rs. run_calls h dflt empty_table cs = Some (t, rs) \<and> calls_spec dflt Map.empty cs = (table_contents t, rs) \<and>
    table_size t = card (dom (table_contents t))"
proof -
  from run_calls_ok [OF empty_table_client(1) assms, where h = h and dflt = dflt]
  obtain t rs where t: "run_calls h dflt empty_table cs = Some (t, rs)" "client_ok h t"
    "calls_spec dflt (table_contents empty_table) cs = (table_contents t, rs)" by blast
  from t(3) have "calls_spec dflt Map.empty cs = (table_contents t, rs)" by (simp only: empty_table_client(2))
  with t(1) size_client [OF t(2)] show ?thesis by blast
qed

theorem path_table_refines_map_witness:
  "\<exists>t rs. run_calls (\<lambda>_. 5) (0::nat) empty_table
      [CallInsert (SdfPath AbsoluteRoot [PrimNode ''A'', PrimNode ''B''] []) 7, CallForEach (\<lambda>n. [0..<n]) (\<lambda>p v. v + 1), CallCopy,
       CallErase (SdfPath AbsoluteRoot [PrimNode ''A''] [])] = Some (t, rs) \<and>
    calls_spec 0 Map.empty
      [CallInsert (SdfPath AbsoluteRoot [PrimNode ''A'', PrimNode ''B''] []) 7, CallForEach (\<lambda>n. [0..<n]) (\<lambda>p v. v + 1), CallCopy,
       CallErase (SdfPath AbsoluteRoot [PrimNode ''A''] [])] =
      (table_contents t, rs) \<and>
    table_size t = card (dom (table_contents t))"
  by (rule path_table_refines_map) (simp add: IsAbsolutePath_def path_queries visits_each_def lessThan_atLeast0)

lemma range_within_iteration:
  assumes t: "client_ok h t"
  shows "\<exists>b first second us xs vs. Table_begin h t = Some b \<and> traverse t b None = Some (us @ xs @ vs) \<and>
    FindSubtreeRange h t p = Some (first, second) \<and> traverse t first second = Some xs \<and>
    distinct (map fst (table_items t (us @ xs @ vs))) \<and> map_of (table_items t (us @ xs @ vs)) = table_contents t \<and>
    map_of (table_items t xs) = table_contents t |` {q. HasPrefix q p}"
proof -
  from iteration_ok [OF t] obtain b zs where zs: "Table_begin h t = Some b" "traverse t b None = Some zs" "distinct zs"
    "set zs = dom (table_shape t)" "zs \<noteq> [] \<longrightarrow> b \<noteq> None" by blast
  from range_ok [OF t, of p "the b"] obtain first second xs where xs: "FindSubtreeRange h t p = Some (first, second)"
    "traverse t first second = Some xs" "distinct xs" "set xs = subtree (table_shape t) p"
    "\<And>zs. traverse t (Some (the b)) None = Some zs \<Longrightarrow> set zs = dom (table_shape t) \<Longrightarrow> \<exists>us vs. zs = us @ xs @ vs" by blast
  have "\<exists>us vs. zs = us @ xs @ vs"
  proof (cases "zs = []")
    case True
    then have "xs = []" using xs(4) zs(4) subtree_dom [of "table_shape t" p] by auto
    with True show ?thesis by simp
  next
    case False
    with zs xs(5) [of zs] show ?thesis by auto
  qed
  then obtain us vs where split: "zs = us @ xs @ vs" by blast
  from t obtain K where ok: "links_ok (table_shape t) {} K" by (auto simp: client_ok_def)
  have root: "set zs = subtree (table_shape t) AbsoluteRootPath" using zs(4) subtree_of_root [OF ok] by simp
  note all = items_map [OF t zs(3) root, unfolded contents_below_root [OF t]]
  from zs xs all items_map(2) [OF t xs(3,4)] show ?thesis unfolding split by blast
qed

text \<open>C13: After any calls the range that FindSubtreeRange gives for a path is a contiguous part of the iteration over the
  table, which visits every entry once, and holds exactly the entries at and below the path.\<close>

theorem FindSubtreeRange_iterates:
  assumes "list_all call_ok cs"
  shows "\<exists>t rs b first second us xs vs. run_calls h dflt empty_table cs = Some (t, rs) \<and>
    Table_begin h t = Some b \<and> traverse t b None = Some (us @ xs @ vs) \<and>
    FindSubtreeRange h t p = Some (first, second) \<and> traverse t first second = Some xs \<and>
    distinct (map fst (table_items t (us @ xs @ vs))) \<and> map_of (table_items t (us @ xs @ vs)) = table_contents t \<and>
    map_of (table_items t xs) = table_contents t |` {q. HasPrefix q p}"
proof -
  from run_calls_ok [OF empty_table_client(1) assms, where h = h and dflt = dflt]
  obtain t rs where "run_calls h dflt empty_table cs = Some (t, rs)" "client_ok h t" by blast
  with range_within_iteration [of h t p] show ?thesis by blast
qed

theorem FindSubtreeRange_iterates_witness:
  "\<exists>t rs b first second us xs vs. run_calls (\<lambda>_. 5) (0::nat) empty_table
      [CallInsert (SdfPath AbsoluteRoot [PrimNode ''A'', PrimNode ''B''] []) 7] = Some (t, rs) \<and>
    Table_begin (\<lambda>_. 5) t = Some b \<and> traverse t b None = Some (us @ xs @ vs) \<and>
    FindSubtreeRange (\<lambda>_. 5) t (SdfPath AbsoluteRoot [PrimNode ''A''] []) = Some (first, second) \<and> traverse t first second = Some xs \<and>
    distinct (map fst (table_items t (us @ xs @ vs))) \<and> map_of (table_items t (us @ xs @ vs)) = table_contents t \<and>
    map_of (table_items t xs) = table_contents t |` {q. HasPrefix q (SdfPath AbsoluteRoot [PrimNode ''A''] [])}"
  by (rule FindSubtreeRange_iterates) (simp add: IsAbsolutePath_def path_queries)

section \<open>A rename to the same name\<close>

lemma insert_present:
  assumes t: "table_ok h t" and n: "table_heap t a = Some n"
  shows "\<exists>b. Table_insert h dflt t (entry_key n) v = Some (t, b, False)"
proof -
  have "dom (table_heap t) \<noteq> {}" using n by auto
  then have "table_size t \<noteq> 0" using table_ok_facts(1,2) [OF t] by simp
  then have mask: "table_mask t \<noteq> 0" using t by (auto simp: table_ok_def buckets_ok_def)
  from bucket_find_ok [OF t mask, of "entry_key n"] obtain e r where
    r: "bucket_at (table_buckets t) (Table_Hash h t (entry_key n)) = Some e" "find_in_bucket (table_heap t) e (entry_key n) = Some r"
      "finds (table_shape t) (entry_key n) r" by blast
  have "key_at (table_shape t) a (entry_key n)" using n by (auto simp: key_at_shapes)
  then obtain b where "r = Some b" using r(3) by (cases r) (auto simp: finds_def)
  with r mask have "InsertInTable h t (entry_key n) v = Some (t, b, False)" by (simp add: InsertInTable_def)
  then show ?thesis by (subst Table_insert.simps) simp
qed

lemma ReplacePrefix_equal_names [simp]: "ReplacePrefix env q p p fixTargetPaths = q"
  by (cases q) (simp add: replace_prefix_with_def)

lemma rename_loop_same:
  assumes t: "table_ok h t"
  shows "traverse t i stop = Some xs \<Longrightarrow> set xs \<subseteq> dom (table_heap t) \<Longrightarrow> rename_loop env h dflt p p i stop t = Some t"
proof (induction xs arbitrary: i)
  case Nil
  then have "i = stop"
    by (subst (asm) traverse.simps) (auto split: if_splits simp: bind_eq_Some_conv)
  then show ?case by (simp add: rename_loop.simps)
next
  case (Cons x xs)
  from Cons.prems(1) have i: "i \<noteq> stop" "i = Some x" and "\<exists>j. Table_increment t x = Some j \<and> traverse t j stop = Some xs"
    by (subst (asm) traverse.simps; auto split: if_splits simp: bind_eq_Some_conv)+
  then obtain j where j: "Table_increment t x = Some j" "traverse t j stop = Some xs" by blast
  from Cons.prems(2) obtain n where n: "table_heap t x = Some n" by auto
  from insert_present [OF t n, of dflt "entry_mapped n"] obtain b where
    "Table_insert h dflt t (entry_key n) (entry_mapped n) = Some (t, b, False)" by blast
  with i j n Cons.IH [OF j(2)] Cons.prems(2) show ?case by (subst rename_loop.simps) simp
qed

text \<open>It erases what it should have renamed.\<close>

lemma UpdateForRename_same_erases:
  assumes t: "client_ok h t" and p: "absolute p"
  shows "\<exists>t'. UpdateForRename env h dflt t p p = Some (False, t') \<and> table_contents t' = erase_spec (table_contents t) p"
proof -
  from range_ok [OF t, of p] obtain first second xs where xs: "FindSubtreeRange h t p = Some (first, second)"
    "traverse t first second = Some xs" "set xs = subtree (table_shape t) p" by blast
  have ok: "table_ok h t" using t by (simp add: client_ok_def)
  have "set xs \<subseteq> dom (table_heap t)" using xs(3) subtree_dom [of "table_shape t" p] by simp
  note loop = rename_loop_same [OF ok xs(2) this, of env dflt p]
  show ?thesis
  proof (cases "first = second")
    case True
    then have "xs = []" using xs(2) by (simp add: traverse.simps)
    then have "subtree (table_shape t) p = {}" using xs(3) by simp
    then have "\<not> has_value (table_shape t) q w" if "HasPrefix q p" for q w
      using that by (auto simp: subtree_def key_at_core has_value_core)
    then have "table_contents t = erase_spec (table_contents t) p"
      by (intro table_contents_eqI [OF t]) (auto simp: erase_spec_def table_contents_iff [OF t])
    with True xs(1) loop show ?thesis by (simp add: UpdateForRename_def)
  next
    case False
    from erase_client [OF t p] xs(1) loop False show ?thesis by (auto simp: UpdateForRename_def)
  qed
qed

section \<open>Relative paths\<close>

text \<open>The parents of \<open>.\<close> are \<open>..\<close>, \<open>../..\<close> and so on, so insertion looks for ancestors for ever.\<close>

definition ends_up :: "sdf_path \<Rightarrow> bool" where
  "ends_up p \<longleftrightarrow> path_root p = RelativeRoot \<and> prop_part p = [] \<and>
     (prim_part p = [] \<or> prim_handle_name (prim_handle p) = parentPathElement)"

lemma ends_up_parent:
  assumes "ends_up p"
  shows "ends_up (GetParentPath p)" "depth (GetParentPath p) = Suc (depth p)" "\<not> IsEmpty (GetParentPath p)"
  using assms
  by (cases p; auto simp: ends_up_def GetParentPath_def path_queries depth_def prim_handle_name_def parentPathElement_def)+

lemma relative_parent:
  assumes "path_root p = RelativeRoot" "\<not> ends_up p"
  shows "path_root (GetParentPath p) = RelativeRoot" "depth p = Suc (depth (GetParentPath p))" "\<not> IsEmpty (GetParentPath p)"
  using assms
  by (cases p; auto simp: ends_up_def GetParentPath_def path_queries depth_def path_of_handle_def length_greater_0_conv [symmetric]
      simp del: length_greater_0_conv)+

lemma insert_ends_up:
  "Table_insert h dflt t p v = Some r \<Longrightarrow>
   \<not> (table_ok h t \<and> ends_up p \<and> (\<forall>a q. key_at (table_shape t) a q \<longrightarrow> ends_up q \<longrightarrow> depth q < depth p))"
proof (erule Table_insert.raw_induct [rotated, where P = "\<lambda>h dflt t path v r.
      \<not> (table_ok h t \<and> ends_up path \<and> (\<forall>a q. key_at (table_shape t) a q \<longrightarrow> ends_up q \<longrightarrow> depth q < depth path))"])
  fix insert h dflt path v r and t :: "'a path_table"
  assume IH: "\<And>h dflt t path v r. insert h dflt t path v = Some r \<Longrightarrow>
      \<not> (table_ok h t \<and> ends_up path \<and> (\<forall>a q. key_at (table_shape t) a q \<longrightarrow> ends_up q \<longrightarrow> depth q < depth path))"
    and body: "do {
      (t, a, inserted) \<leftarrow> InsertInTable h t path v;
      if inserted \<and> \<not> IsEmpty (GetParentPath path)
      then do {
        (t, parent, _) \<leftarrow> insert h dflt t (GetParentPath path) dflt;
        t \<leftarrow> AddChild t parent a;
        Some (t, a, True)
      }
      else Some (t, a, inserted)
    } = Some r"
  show "\<not> (table_ok h t \<and> ends_up path \<and> (\<forall>a q. key_at (table_shape t) a q \<longrightarrow> ends_up q \<longrightarrow> depth q < depth path))"
  proof
    assume *: "table_ok h t \<and> ends_up path \<and> (\<forall>a q. key_at (table_shape t) a q \<longrightarrow> ends_up q \<longrightarrow> depth q < depth path)"
    then have up: "ends_up path" by blast
    obtain t1 a inserted where t1: "InsertInTable h t path v = Some (t1, a, inserted)" "table_ok h t1"
      "key_at (table_shape t1) a path"
      "inserted \<longrightarrow> table_shape t1 = (table_shape t)(a \<mapsto> (path, v, None, None, False))" "\<not> inserted \<longrightarrow> table_shape t1 = table_shape t"
      using InsertInTable_ok [of h t path v] * by (metis (full_types))
    have inserted using t1(3,5) * by (cases inserted) auto
    with t1(1) body ends_up_parent(3) [OF up] obtain r' where
      r': "insert h dflt t1 (GetParentPath path) dflt = Some r'"
      by (auto simp: bind_eq_Some_conv)
    have "depth q < depth (GetParentPath path)" if "key_at (table_shape t1) b q" "ends_up q" for b q
      using that * t1(4) \<open>inserted\<close> ends_up_parent(2) [OF up]
      by (auto simp: key_at_upd less_Suc_eq split: if_splits)
    then show False using IH [OF r'] t1(2) ends_up_parent(1) [OF up] by blast
  qed
qed

lemma insert_relative_diverges:
  "path_root p = RelativeRoot \<Longrightarrow> table_ok h t \<Longrightarrow>
   \<forall>a q. key_at (table_shape t) a q \<longrightarrow> path_root q = RelativeRoot \<longrightarrow> \<not> ends_up q \<and> depth p < depth q \<Longrightarrow>
   Table_insert h dflt t p v = None"
proof (induction "depth p" arbitrary: p v t rule: less_induct)
  case less
  show ?case
  proof (cases "ends_up p")
    case True
    then have "\<not> (key_at (table_shape t) a q \<and> ends_up q)" for a q using less.prems(3) by (auto simp: ends_up_def)
    with insert_ends_up [of h dflt t p v] less.prems(2) True show ?thesis by (cases "Table_insert h dflt t p v") auto
  next
    case False
    note parent = relative_parent [OF less.prems(1) False]
    obtain t1 a inserted where t1: "InsertInTable h t p v = Some (t1, a, inserted)" "table_ok h t1" "key_at (table_shape t1) a p"
      "inserted \<longrightarrow> table_shape t1 = (table_shape t)(a \<mapsto> (p, v, None, None, False))" "\<not> inserted \<longrightarrow> table_shape t1 = table_shape t"
      using InsertInTable_ok [OF less.prems(2), of p v] by (metis (full_types))
    have inserted using t1(3,5) less.prems(1,3) by (cases inserted) auto
    have "\<not> ends_up q \<and> depth (GetParentPath p) < depth q" if "key_at (table_shape t1) b q" "path_root q = RelativeRoot" for b q
      using that t1(4) \<open>inserted\<close> less.prems(3) False parent(2) by (fastforce simp: key_at_upd split: if_splits)
    then have "Table_insert h dflt t1 (GetParentPath p) dflt = None"
      using less.hyps [OF _ parent(1) t1(2)] parent(2) by simp
    with t1(1) \<open>inserted\<close> parent(3) show ?thesis by (subst Table_insert.simps) simp
  qed
qed

lemma run_then_insert_relative:
  assumes "list_all call_ok cs" "path_root p = RelativeRoot"
  shows "\<exists>t rs. run_calls h dflt empty_table cs = Some (t, rs) \<and> Table_insert h dflt t p v = None"
proof -
  from run_calls_ok [OF empty_table_client(1) assms(1), where h = h and dflt = dflt]
  obtain t rs where t: "run_calls h dflt empty_table cs = Some (t, rs)" "client_ok h t" by blast
  then obtain K where ok: "table_ok h t" "links_ok (table_shape t) {} K" by (auto simp: client_ok_def)
  have "path_root q \<noteq> RelativeRoot" if "key_at (table_shape t) a q" for a q
    using links_ok_absolute [OF ok(2) that] by simp
  with insert_relative_diverges [OF assms(2) ok(1)] t(1) show ?thesis by blast
qed

section \<open>The empty path\<close>

text \<open>
  The empty path can be inserted, and it is its own parent: its removal looks for its entry among its own children,
  of which there are none, and goes on from a null pointer.
\<close>

lemma erase_empty_path_fails:
  assumes t: "table_ok h t" and absent: "\<not> present (table_shape t) EmptyPath"
  shows "\<exists>t' a. Table_insert h dflt t EmptyPath v = Some (t', a, True) \<and> Table_erase h t' EmptyPath = None"
proof -
  from InsertInTable_ok [OF t, of EmptyPath v] obtain t' a inserted where t': "InsertInTable h t EmptyPath v = Some (t', a, inserted)"
    "table_ok h t'" "key_at (table_shape t') a EmptyPath"
    "if inserted then table_shape t' = (table_shape t)(a \<mapsto> (EmptyPath, v, None, None, False)) else table_shape t' = table_shape t"
    by (metis (full_types))
  have inserted using t'(3,4) absent by (cases inserted) (auto simp: present_def)
  with t'(4) have "table_shape t' a = Some (EmptyPath, v, None, None, False)" by simp
  then obtain n where n: "table_heap t' a = Some n" "entry_key n = EmptyPath" "entry_first_child n = None" by (auto simp: shapes_Some)
  have parent: "GetParentPath EmptyPath = EmptyPath" "IsEmpty EmptyPath" "EmptyPath \<noteq> AbsoluteRootPath"
    by (simp_all add: GetParentPath_def EmptyPath_def path_queries AbsoluteRootPath_def)
  from Table_find_ok [OF t'(2), of EmptyPath] obtain r where r: "Table_find h t' EmptyPath = Some r" "finds (table_shape t') EmptyPath r"
    by blast
  from r(2) t'(3) have found: "r = Some a" using table_ok_unique [OF t'(2)] by (cases r) (auto simp: finds_def)
  have "erase_run h (EraseSubtree a) t' = Some t'" using n by (subst erase_run.simps) simp
  moreover have "RemoveChild t' a a = None" using n by (simp add: RemoveChild_def preceding_child.simps)
  then have "RemoveFromParent h t' a = None" using n r(1) found parent by (simp add: RemoveFromParent_def)
  ultimately have "Table_erase h t' EmptyPath = None" using r(1) found by (simp add: Table_erase_def erase_entry_def)
  moreover have "Table_insert h dflt t EmptyPath v = Some (t', a, True)"
    using t'(1) \<open>inserted\<close> parent by (subst Table_insert.simps) simp
  ultimately show ?thesis by blast
qed

end
