(* ===== verification/Prefix_Bijection.thy ===== *)
theory Prefix_Bijection
  imports USD_Prelude "HOL-Library.Sublist"
begin

text \<open>
  Partial bijections between lists given by pairs of prefixes, the abstract specification of the
  namespace mappings of \<open>pxr/usd/pcp/mapFunction.cpp\<close>: a list is mapped by the entry with its
  longest source prefix, and only if that entry also has the longest target prefix of the result.
  An entry without a source or without a target blocks what it is a prefix of.
\<close>

type_synonym 'n entry = "'n list option \<times> 'n list option"

definition longest :: "'n list option set \<Rightarrow> 'n list \<Rightarrow> 'n list \<Rightarrow> bool" where
  "longest K p s \<longleftrightarrow> (\<forall>s'. Some s' \<in> K \<longrightarrow> prefix s' p \<longrightarrow> length s' \<le> length s)"

definition maps :: "'n entry set \<Rightarrow> 'n list \<Rightarrow> 'n list \<Rightarrow> bool" where
  "maps E p r \<longleftrightarrow> (\<exists>s t x. (Some s, Some t) \<in> E \<and> p = s @ x \<and> r = t @ x
     \<and> longest (fst ` E) p s \<and> longest (snd ` E) r t)"

text \<open>No two entries for a source, nor for a target.\<close>

definition entries_ok :: "'n entry set \<Rightarrow> bool" where
  "entries_ok E \<longleftrightarrow>
     (\<forall>s t t'. (Some s, t) \<in> E \<longrightarrow> (Some s, t') \<in> E \<longrightarrow> t = t')
     \<and> (\<forall>s s' t. (s, Some t) \<in> E \<longrightarrow> (s', Some t) \<in> E \<longrightarrow> s = s')"

lemma entries_ok_source: "entries_ok E \<Longrightarrow> (Some s, t) \<in> E \<Longrightarrow> (Some s, t') \<in> E \<Longrightarrow> t = t'"
  unfolding entries_ok_def by blast

lemma entries_ok_target: "entries_ok E \<Longrightarrow> (s, Some t) \<in> E \<Longrightarrow> (s', Some t) \<in> E \<Longrightarrow> s = s'"
  unfolding entries_ok_def by blast

lemma mapsI:
  "(Some s, Some t) \<in> E \<Longrightarrow> longest (fst ` E) (s @ x) s \<Longrightarrow> longest (snd ` E) (t @ x) t \<Longrightarrow> maps E (s @ x) (t @ x)"
  unfolding maps_def by blast

lemma longestD: "longest K p s \<Longrightarrow> Some s' \<in> K \<Longrightarrow> prefix s' p \<Longrightarrow> length s' \<le> length s"
  unfolding longest_def by blast

lemma longest_source: "longest (fst ` E) p s \<longleftrightarrow> (\<forall>s' t'. (Some s', t') \<in> E \<longrightarrow> prefix s' p \<longrightarrow> length s' \<le> length s)"
  and longest_target: "longest (snd ` E) p s \<longleftrightarrow> (\<forall>s' t'. (s', Some t') \<in> E \<longrightarrow> prefix t' p \<longrightarrow> length t' \<le> length s)"
  unfolding longest_def by (fastforce simp: image_iff)+

lemma same_length_prefixes: "prefix s p \<Longrightarrow> prefix s' p \<Longrightarrow> length s = length s' \<Longrightarrow> s = s'"
  by (auto simp: prefix_def)

lemma longest_unique: "longest K p s \<Longrightarrow> longest K p s' \<Longrightarrow> Some s \<in> K \<Longrightarrow> Some s' \<in> K \<Longrightarrow>
    prefix s p \<Longrightarrow> prefix s' p \<Longrightarrow> s = s'"
  by (metis longestD same_length_prefixes le_antisym)

text \<open>A list strictly shorter than another prefix of the same list is a prefix of its parent.\<close>

lemma shorter_prefix_butlast:
  assumes "prefix s p" "prefix s0 p" "length s < length s0"
  shows "prefix s (butlast s0)"
proof -
  have "prefix s s0" using assms prefix_length_prefix [of s p s0] by simp
  with assms(3) show ?thesis
    by (cases s0 rule: rev_cases) (auto simp: prefix_snoc)
qed

section \<open>A partial bijection\<close>

lemma maps_functional:
  assumes "entries_ok E" "maps E p r" "maps E p r'"
  shows "r = r'"
proof -
  obtain s t x where 1: "(Some s, Some t) \<in> E" "p = s @ x" "r = t @ x" "longest (fst ` E) p s"
    using assms(2) by (auto simp: maps_def)
  obtain s' t' x' where 2: "(Some s', Some t') \<in> E" "p = s' @ x'" "r' = t' @ x'" "longest (fst ` E) p s'"
    using assms(3) by (auto simp: maps_def)
  have "s = s'" using longest_unique [OF 1(4) 2(4)] 1(1,2) 2(1,2) by (metis fst_conv image_eqI prefixI)
  then show ?thesis using 1 2 entries_ok_source [OF assms(1)] by force
qed

lemma maps_converse: "maps (converse E) r p \<longleftrightarrow> maps E p r"
proof -
  have "fst ` (converse E) = snd ` E" "snd ` (converse E) = fst ` E" by force+
  then show ?thesis by (auto simp: maps_def)
qed

lemma entries_ok_converse: "entries_ok (converse E) \<longleftrightarrow> entries_ok E"
  unfolding entries_ok_def by blast

lemma maps_injective: "entries_ok E \<Longrightarrow> maps E p r \<Longrightarrow> maps E p' r \<Longrightarrow> p = p'"
  using maps_functional [of "converse E" r p p'] by (simp add: maps_converse entries_ok_converse)

section \<open>Entries that can be removed\<close>

text \<open>An entry extends another one if it maps what the other one would map in the same way, and nothing
  lies in between.\<close>

definition extends :: "'n entry set \<Rightarrow> 'n list \<Rightarrow> 'n list \<Rightarrow> 'n list \<Rightarrow> 'n list \<Rightarrow> bool" where
  "extends E s0 t0 s t \<longleftrightarrow> (Some s, Some t) \<in> E \<and> (\<exists>z. z \<noteq> [] \<and> s0 = s @ z \<and> t0 = t @ z)
     \<and> longest (fst ` E) (butlast s0) s \<and> longest (snd ` E) (butlast t0) t"

lemma extends_converse: "extends (converse E) t0 s0 t s \<longleftrightarrow> extends E s0 t0 s t"
proof -
  have "fst ` (converse E) = snd ` E" "snd ` (converse E) = fst ` E" by force+
  then show ?thesis by (auto simp: extends_def)
qed

text \<open>What the extended entry maps below the extending one.\<close>

lemma maps_via_extension:
  assumes ok: "entries_ok E" and e: "(Some s0, Some t0) \<in> E" "extends E s0 t0 s t"
    and "p = s0 @ x" "r = t0 @ x" "longest (fst ` (E - {(Some s0, Some t0)})) p s"
    "longest (snd ` (E - {(Some s0, Some t0)})) r t"
  shows "maps E p r"
proof -
  have len: "length s \<le> length s0" "length t \<le> length t0" using e(2) by (auto simp: extends_def)
  have "length s' \<le> length s0" if "(Some s', t') \<in> E" "prefix s' p" for s' t'
    using longestD [OF assms(6), of s'] that len(1) by (cases "(Some s', t') = (Some s0, Some t0)") force+
  moreover have "length t' \<le> length t0" if "(s', Some t') \<in> E" "prefix t' r" for s' t'
    using longestD [OF assms(7), of t'] that len(2) by (cases "(s', Some t') = (Some s0, Some t0)") force+
  ultimately have "longest (fst ` E) p s0" "longest (snd ` E) r t0"
    by (auto simp: longest_source longest_target)
  then show ?thesis using assms(4,5) mapsI [OF e(1)] by simp
qed

lemma maps_remove_extends1:
  assumes ok: "entries_ok E" and e: "(Some s0, Some t0) \<in> E" "extends E s0 t0 s t" and "maps E p r"
  shows "maps (E - {(Some s0, Some t0)}) p r"
proof -
  let ?F = "E - {(Some s0, Some t0)}"
  obtain z where z: "z \<noteq> []" "s0 = s @ z" "t0 = t @ z" and st: "(Some s, Some t) \<in> E"
    and S: "longest (fst ` E) (butlast s0) s" and T: "longest (snd ` E) (butlast t0) t"
    using e(2) by (auto simp: extends_def)
  have F: "(Some s, Some t) \<in> ?F" using st z by auto
  obtain s1 t1 x where 1: "(Some s1, Some t1) \<in> E" "p = s1 @ x" "r = t1 @ x"
    "longest (fst ` E) p s1" "longest (snd ` E) r t1" using assms(4) by (auto simp: maps_def)
  have sub: "longest (fst ` ?F) p s1" "longest (snd ` ?F) r t1"
    using 1(4,5) by (auto simp: longest_def)
  show ?thesis
  proof (cases "s1 = s0")
    case False
    then show ?thesis using 1 sub mapsI [of s1 t1 ?F x] by simp
  next
    case True
    then have t1: "t1 = t0" using entries_ok_source [OF ok] e(1) 1(1) by blast
    have pre: "prefix s0 p" "prefix t0 r" using 1(2,3) True t1 by auto
    have "length s' \<le> length s" if "(Some s', t') \<in> ?F" "prefix s' p" for s' t'
    proof -
      have "length s' \<le> length s0" using longestD [OF 1(4), of s'] that True by force
      moreover have "s' \<noteq> s0" using entries_ok_source [OF ok] e(1) that(1) by blast
      ultimately have "length s' < length s0"
        using same_length_prefixes [OF that(2) pre(1)] by fastforce
      then have "prefix s' (butlast s0)" using shorter_prefix_butlast that(2) pre(1) by blast
      then show ?thesis using longestD [OF S] that(1) by force
    qed
    moreover have "length t' \<le> length t" if "(s', Some t') \<in> ?F" "prefix t' r" for s' t'
    proof -
      have "length t' \<le> length t0" using longestD [OF 1(5), of t'] that t1 by force
      moreover have "t' \<noteq> t0" using entries_ok_target [OF ok] e(1) that(1) by blast
      ultimately have "length t' < length t0"
        using same_length_prefixes [OF that(2) pre(2)] by fastforce
      then have "prefix t' (butlast t0)" using shorter_prefix_butlast that(2) pre(2) by blast
      then show ?thesis using longestD [OF T] that(1) by force
    qed
    ultimately have "longest (fst ` ?F) p s" "longest (snd ` ?F) r t"
      by (auto simp: longest_source longest_target)
    then show ?thesis using 1(2,3) True t1 z mapsI [OF F, of "z @ x"] by simp
  qed
qed

lemma maps_extension_source:
  fixes E s0 t0
  defines "F \<equiv> E - {(Some s0, Some t0)}"
  assumes ok: "entries_ok E" and e: "(Some s0, Some t0) \<in> E" "extends E s0 t0 s t"
    and 1: "(Some s1, Some t1) \<in> F" "p = s1 @ x" "r = t1 @ x" "longest (fst ` F) p s1" "longest (snd ` F) r t1"
    and "prefix s0 p" "length s1 < length s0"
  shows "maps E p r"
proof -
  obtain z where z: "z \<noteq> []" "s0 = s @ z" "t0 = t @ z" and st: "(Some s, Some t) \<in> E"
    and S: "longest (fst ` E) (butlast s0) s"
    using e(2) by (auto simp: extends_def)
  have F: "(Some s, Some t) \<in> F" using st z by (auto simp: F_def)
  obtain y where y: "p = s0 @ y" using assms(10) by (auto simp: prefix_def)
  have "prefix s1 p" using 1(2) by simp
  then have "prefix s1 (butlast s0)" using shorter_prefix_butlast assms(10,11) by blast
  then have "length s1 \<le> length s" using longestD [OF S] 1(1) by (force simp: F_def)
  moreover have "length s \<le> length s1" using longestD [OF 1(4), of s] F y z(2) by force
  ultimately have s1: "s1 = s"
    using same_length_prefixes [of s1 p s] 1(2) y z(2) by auto
  have t1: "t1 = t" using entries_ok_source [OF ok, of s "Some t1" "Some t"] 1(1) st s1 by (simp add: F_def)
  have "x = z @ y" using 1(2) y z(2) s1 by simp
  then show ?thesis
    using maps_via_extension [OF ok e y, of r] 1(3-5) s1 t1 z(3) by (simp add: F_def)
qed

lemma maps_remove_extends:
  assumes ok: "entries_ok E" and e: "(Some s0, Some t0) \<in> E" "extends E s0 t0 s t"
  shows "maps (E - {(Some s0, Some t0)}) p r \<longleftrightarrow> maps E p r"
proof
  let ?F = "E - {(Some s0, Some t0)}"
  assume "maps ?F p r"
  then obtain s1 t1 x where 1: "(Some s1, Some t1) \<in> ?F" "p = s1 @ x" "r = t1 @ x"
    "longest (fst ` ?F) p s1" "longest (snd ` ?F) r t1" by (auto simp: maps_def)
  consider (source) "prefix s0 p" "length s1 < length s0" | (target) "prefix t0 r" "length t1 < length t0"
    | (neither) "prefix s0 p \<Longrightarrow> length s0 \<le> length s1" "prefix t0 r \<Longrightarrow> length t0 \<le> length t1"
    by fastforce
  then show "maps E p r"
  proof cases
    case source
    then show ?thesis using maps_extension_source [OF ok e 1] by blast
  next
    case target
    have conv: "converse E - {(Some t0, Some s0)} = converse ?F" by auto
    have img: "fst ` converse ?F = snd ` ?F" "snd ` converse ?F = fst ` ?F" by force+
    have "maps (converse E) r p"
      using target 1 e ok
      by (intro maps_extension_source [of "converse E" t0 s0 t s t1 s1 r x p])
        (simp_all only: conv img entries_ok_converse extends_converse converse_iff)
    then show ?thesis by (simp add: maps_converse)
  next
    case neither
    have "length s' \<le> length s1" if "(Some s', t') \<in> E" "prefix s' p" for s' t'
      using longestD [OF 1(4), of s'] that neither(1) by (cases "(Some s', t') = (Some s0, Some t0)") force+
    moreover have "length t' \<le> length t1" if "(s', Some t') \<in> E" "prefix t' r" for s' t'
      using longestD [OF 1(5), of t'] that neither(2) by (cases "(s', Some t') = (Some s0, Some t0)") force+
    ultimately show ?thesis using 1(1-3) mapsI [of s1 t1 E x] by (simp add: longest_source longest_target)
  qed
qed (rule maps_remove_extends1 [OF ok e])

text \<open>A block can be removed if what it is a prefix of is not mapped without it either.\<close>

lemma maps_remove_block:
  assumes e: "(Some s0, None) \<in> E"
    and redundant: "\<And>s t z. (Some s, Some t) \<in> E \<Longrightarrow> s0 = s @ z \<Longrightarrow> z \<noteq> [] \<Longrightarrow>
      longest (fst ` E) (butlast s0) s \<Longrightarrow> longest (snd ` E) (t @ z) t \<Longrightarrow> False"
  shows "maps (E - {(Some s0, None)}) p r \<longleftrightarrow> maps E p r"
proof
  let ?F = "E - {(Some s0, None)}"
  assume "maps E p r"
  then obtain s t x where 1: "(Some s, Some t) \<in> E" "p = s @ x" "r = t @ x"
    "longest (fst ` E) p s" "longest (snd ` E) r t" by (auto simp: maps_def)
  then have "longest (fst ` ?F) p s" "longest (snd ` ?F) r t" by (auto simp: longest_def)
  then show "maps ?F p r" using 1(1-3) mapsI [of s t ?F x] by simp
next
  let ?F = "E - {(Some s0, None)}"
  assume "maps ?F p r"
  then obtain s t x where 1: "(Some s, Some t) \<in> ?F" "p = s @ x" "r = t @ x"
    "longest (fst ` ?F) p s" "longest (snd ` ?F) r t" by (auto simp: maps_def)
  have target: "length t' \<le> length t" if "(s', Some t') \<in> E" "prefix t' r" for s' t'
    using longestD [OF 1(5), of t'] that by force
  have other: "length s' \<le> length s" if "(Some s', t') \<in> E" "prefix s' p" "s' \<noteq> s0" for s' t'
    using longestD [OF 1(4), of s'] that by force
  have "\<not> (prefix s0 p \<and> length s < length s0)"
  proof
    assume s0: "prefix s0 p \<and> length s < length s0"
    then have "prefix s (butlast s0)" using shorter_prefix_butlast [of s p s0] 1(2) by simp
    then obtain z where z: "s0 = s @ z" "z \<noteq> []" using s0 by (metis append_self_conv less_irrefl prefix_def
        prefix_order.trans prefixeq_butlast)
    then obtain y where y: "x = z @ y" using s0 1(2) by (auto simp: prefix_def)
    have sub: "prefix s' (butlast s0) \<Longrightarrow> prefix s' p \<and> s' \<noteq> s0" for s'
      using s0 prefixeq_butlast [of s0] prefix_length_le [of s' "butlast s0"]
      by (auto intro: prefix_order.trans)
    have "longest (fst ` E) (butlast s0) s" using other sub by (auto simp: longest_source)
    moreover have "longest (snd ` E) (t @ z) t"
      using target y 1(3) prefix_prefix [of _ "t @ z" y] by (auto simp: longest_target)
    ultimately show False using redundant 1(1) z by blast
  qed
  then have "length s' \<le> length s" if "(Some s', t') \<in> E" "prefix s' p" for s' t'
    using other that by (cases "s' = s0") auto
  then show "maps E p r"
    using 1(1-3) target mapsI [of s t E x] by (simp add: longest_source longest_target)
qed

section \<open>Composition\<close>

lemma longest_prefix: "longest K p s \<Longrightarrow> prefix p' p \<Longrightarrow> longest K p' s"
  using prefix_order.trans by (auto simp: longest_def)

text \<open>Entries for the composition: what the outer mapping makes of the targets of the inner one, and the
  outer entries with sources that the inner mapping reaches.\<close>

definition composes :: "'n entry set \<Rightarrow> 'n entry set \<Rightarrow> 'n entry set \<Rightarrow> bool" where
  "composes Eo Ei C \<longleftrightarrow>
     (\<forall>s t v. (Some s, Some t) \<in> Ei \<longrightarrow> maps Eo t v \<longrightarrow> (Some s, Some v) \<in> C)
     \<and> (\<forall>u s' t'. (Some s', Some t') \<in> Eo \<longrightarrow> maps Ei u s' \<longrightarrow> Some u \<notin> fst ` Ei \<longrightarrow> (Some u, Some t') \<in> C)
     \<and> (\<forall>u. Some u \<in> fst ` C \<longrightarrow> Some u \<in> fst ` Ei \<or> (\<exists>s'. Some s' \<in> fst ` Eo \<and> maps Ei u s'))
     \<and> (\<forall>v. Some v \<in> snd ` C \<longrightarrow> Some v \<in> snd ` Eo \<or> (\<exists>t. Some t \<in> snd ` Ei \<and> maps Eo t v))"

text \<open>No source of the composition lies between the one chosen for a list and the list itself.\<close>

lemma composed_source:
  assumes ok: "entries_ok Ei"
    and C: "\<And>u. Some u \<in> K \<Longrightarrow> Some u \<in> fst ` Ei \<or> (\<exists>s'. Some s' \<in> fst ` Eo \<and> maps Ei u s')"
    and i: "(Some s, Some t) \<in> Ei" "longest (fst ` Ei) (s @ x) s"
    and o: "longest (fst ` Eo) (t @ x) s'" "length s' \<le> length (t @ w)"
  shows "longest K (s @ x) (s @ w)"
  unfolding longest_def
proof (intro allI impI, rule ccontr)
  fix u assume u: "Some u \<in> K" "prefix u (s @ x)" "\<not> length u \<le> length (s @ w)"
  have "Some u \<notin> fst ` Ei" using longestD [OF i(2), of u] u(2,3) by auto
  then obtain s'' where s'': "Some s'' \<in> fst ` Eo" "maps Ei u s''"
    using C u(1) by blast
  obtain s2 t2 y where 2: "(Some s2, Some t2) \<in> Ei" "u = s2 @ y" "s'' = t2 @ y" "longest (fst ` Ei) u s2"
    using s''(2) by (auto simp: maps_def)
  have "prefix s u" using u(2,3) prefix_length_prefix [of s "s @ x" u] by simp
  moreover have "longest (fst ` Ei) u s" using longest_prefix [OF i(2) u(2)] .
  moreover have "Some s \<in> fst ` Ei" "Some s2 \<in> fst ` Ei" using i(1) 2(1) by force+
  ultimately have "s2 = s" using longest_unique [OF 2(4)] 2(2) by auto
  then have "t2 = t" using entries_ok_source [OF ok, of s "Some t2" "Some t"] i(1) 2(1) by simp
  then have "prefix s'' (t @ x)" using u(2) 2(2,3) \<open>s2 = s\<close> by simp
  then have "length s'' \<le> length s'" using longestD [OF o(1)] s''(1) by blast
  then show False using o(2) u(3) 2(2,3) \<open>s2 = s\<close> \<open>t2 = t\<close> by simp
qed

lemma maps_compose:
  assumes ok: "entries_ok Ei" "entries_ok Eo" and C: "composes Eo Ei C"
    and "maps Ei p q" "maps Eo q r"
  shows "maps C p r"
proof -
  obtain s t x where i: "(Some s, Some t) \<in> Ei" "p = s @ x" "q = t @ x"
    "longest (fst ` Ei) p s" "longest (snd ` Ei) q t" using assms(4) by (auto simp: maps_def)
  obtain s' t' y where o: "(Some s', Some t') \<in> Eo" "q = s' @ y" "r = t' @ y"
    "longest (fst ` Eo) q s'" "longest (snd ` Eo) r t'" using assms(5) by (auto simp: maps_def)
  have conv: "fst ` converse Eo = snd ` Eo" "snd ` converse Ei = fst ` Ei" "fst ` converse Ei = snd ` Ei" by force+
  have source: "longest (fst ` C) p (s @ w)" if "length s' \<le> length (t @ w)" for w
    using composed_source [OF ok(1) _ i(1), of "fst ` C" Eo x s' w] C i o that by (simp add: composes_def)
  have target: "longest (snd ` C) r (t' @ w)" if "length t \<le> length (s' @ w)" for w
    using composed_source [of "converse Eo" "snd ` C" "converse Ei" t' s' y t w] C i o that ok(2)
    by (simp add: composes_def conv entries_ok_converse maps_converse)
  consider (inner) w where "t = s' @ w" "y = w @ x" | (outer) w where "s' = t @ w" "x = w @ y"
    using i(3) o(2) by (metis append_eq_append_conv2)
  then show ?thesis
  proof cases
    case inner
    have "maps Eo t (t' @ w)"
      using o(1) longest_prefix [OF o(4), of t] longest_prefix [OF o(5), of "t' @ w"] i(3) o(3) inner
      by (auto simp: maps_def)
    then have "(Some s, Some (t' @ w)) \<in> C" using C i(1) by (auto simp: composes_def)
    then show ?thesis
      using mapsI [of s "t' @ w" C x] source [of "[]"] target [of w] i(2) o(3) inner by simp
  next
    case outer
    have m: "maps Ei (s @ w) s'"
      using i(1) longest_prefix [OF i(4), of "s @ w"] longest_prefix [OF i(5), of s'] i(2) o(2) outer
      by (auto simp: maps_def)
    have "(Some (s @ w), Some t') \<in> C"
    proof (cases "w = []")
      case True
      have "maps Eo t t'"
        using mapsI [of s' t' Eo "[]"] o(1) longest_prefix [OF o(4), of t] longest_prefix [OF o(5), of t'] i(3) o(3)
          outer True by simp
      then show ?thesis using C i(1) True by (auto simp: composes_def)
    next
      case False
      then have "Some (s @ w) \<notin> fst ` Ei" using longestD [OF i(4), of "s @ w"] i(2) outer by auto
      then show ?thesis using C o(1) m by (auto simp: composes_def)
    qed
    then show ?thesis
      using mapsI [of "s @ w" t' C y] source [of w] target [of "[]"] i(2) o(3) outer by simp
  qed
qed

text \<open>The entries of a composition are images of inner entries, or outer entries whose sources are mapped
  back. They are a partial bijection again, and compose the mappings.\<close>

definition inner_entry :: "'n entry set \<Rightarrow> 'n entry set \<Rightarrow> 'n list option \<Rightarrow> 'n list option \<Rightarrow> bool" where
  "inner_entry Eo Ei k k' \<longleftrightarrow>
     (\<exists>s t. k = Some s \<and> (Some s, t) \<in> Ei \<and> (\<forall>v. k' = Some v \<longleftrightarrow> (\<exists>t'. t = Some t' \<and> maps Eo t' v)))"

definition outer_entry :: "'n entry set \<Rightarrow> 'n entry set \<Rightarrow> 'n list option \<Rightarrow> 'n list option \<Rightarrow> bool" where
  "outer_entry Eo Ei k k' \<longleftrightarrow> (\<exists>u s. k = Some u \<and> maps Ei u s \<and> (Some s, k') \<in> Eo \<and> Some u \<notin> fst ` Ei)"

lemma maps_to_target:
  assumes "entries_ok E" "maps E t v" "(Some s, Some v) \<in> E"
  shows "t = s"
proof -
  obtain s2 t2 x where m: "(Some s2, Some t2) \<in> E" "t = s2 @ x" "v = t2 @ x" "longest (snd ` E) v t2"
    using assms(2) by (auto simp: maps_def)
  have "length v \<le> length t2" using longestD [OF m(4), of v] assms(3) by force
  then have "t2 = v" "x = []" using m(3) by auto
  then show ?thesis using entries_ok_target [OF assms(1), of "Some s2" v "Some s"] m(1,2) assms(3) by simp
qed

lemma inner_unique:
  assumes "entries_ok Ei" "inner_entry Eo Ei (Some s) k" "inner_entry Eo Ei (Some s) k'"
  shows "k = k'"
proof -
  obtain t where t: "(Some s, t) \<in> Ei" "\<And>v. k = Some v \<longleftrightarrow> (\<exists>t'. t = Some t' \<and> maps Eo t' v)"
    using assms(2) by (auto simp: inner_entry_def)
  obtain t2 where t2: "(Some s, t2) \<in> Ei" "\<And>v. k' = Some v \<longleftrightarrow> (\<exists>t'. t2 = Some t' \<and> maps Eo t' v)"
    using assms(3) by (auto simp: inner_entry_def)
  have "t = t2" using entries_ok_source [OF assms(1) t(1) t2(1)] .
  then have iff: "k = Some v \<longleftrightarrow> k' = Some v" for v using t(2) t2(2) by simp
  show ?thesis
  proof (cases k)
    case None
    then show ?thesis using iff [of "the k'"] by (cases k') simp_all
  next
    case (Some v)
    then show ?thesis using iff [of v] by simp
  qed
qed

lemma inner_entry_Some:
  "inner_entry Eo Ei k (Some v) \<Longrightarrow> \<exists>s t. k = Some s \<and> (Some s, Some t) \<in> Ei \<and> maps Eo t v"
  unfolding inner_entry_def by blast

lemma composed_entries_ok:
  assumes ok: "entries_ok Ei" "entries_ok Eo"
    and C: "\<And>k k'. (k, k') \<in> C \<Longrightarrow> inner_entry Eo Ei k k' \<or> outer_entry Eo Ei k k'"
  shows "entries_ok C"
  unfolding entries_ok_def
proof (intro conjI allI impI)
  fix s k k' assume e: "(Some s, k) \<in> C" "(Some s, k') \<in> C"
  have disjoint: "\<not> (inner_entry Eo Ei (Some s) a \<and> outer_entry Eo Ei (Some s) b)" for a b
    by (force simp: inner_entry_def outer_entry_def)
  have outer: "k = k'" if o: "outer_entry Eo Ei (Some s) k" "outer_entry Eo Ei (Some s) k'"
  proof -
    obtain x where x: "maps Ei s x" "(Some x, k) \<in> Eo" using o(1) by (auto simp: outer_entry_def)
    obtain y where y: "maps Ei s y" "(Some y, k') \<in> Eo" using o(2) by (auto simp: outer_entry_def)
    have "x = y" by (rule maps_functional [OF ok(1) x(1) y(1)])
    then show ?thesis using entries_ok_source [OF ok(2) x(2)] y(2) by simp
  qed
  show "k = k'" using C [OF e(1)] C [OF e(2)] disjoint outer inner_unique [OF ok(1)] by blast
next
  fix k k' v assume e: "(k, Some v) \<in> C" "(k', Some v) \<in> C"
  have disjoint: False if i: "inner_entry Eo Ei a (Some v)" and o: "outer_entry Eo Ei b (Some v)" for a b
  proof -
    obtain s t where 1: "(Some s, Some t) \<in> Ei" "maps Eo t v" using inner_entry_Some [OF i] by blast
    obtain u s' where 2: "maps Ei u s'" "(Some s', Some v) \<in> Eo" "Some u \<notin> fst ` Ei"
      using o by (auto simp: outer_entry_def)
    have "t = s'" using maps_to_target [OF ok(2) 1(2) 2(2)] .
    then have "u = s" using maps_to_target [OF ok(1), of u s' s] 1(1) 2(1) by simp
    then show False using 1(1) 2(3) by force
  qed
  consider (inner) "inner_entry Eo Ei k (Some v)" "inner_entry Eo Ei k' (Some v)"
    | (outer) "outer_entry Eo Ei k (Some v)" "outer_entry Eo Ei k' (Some v)"
    using C [OF e(1)] C [OF e(2)] disjoint by blast
  then show "k = k'"
  proof cases
    case inner
    obtain s t where 1: "k = Some s" "(Some s, Some t) \<in> Ei" "maps Eo t v"
      using inner_entry_Some [OF inner(1)] by blast
    obtain s' t' where 2: "k' = Some s'" "(Some s', Some t') \<in> Ei" "maps Eo t' v"
      using inner_entry_Some [OF inner(2)] by blast
    have "t = t'" by (rule maps_injective [OF ok(2) 1(3) 2(3)])
    then show ?thesis using entries_ok_target [OF ok(1) 1(2), of "Some s'"] 1(1) 2(1,2) by simp
  next
    case outer
    obtain u s where 1: "k = Some u" "maps Ei u s" "(Some s, Some v) \<in> Eo"
      using outer(1) by (auto simp: outer_entry_def)
    obtain u' s' where 2: "k' = Some u'" "maps Ei u' s'" "(Some s', Some v) \<in> Eo"
      using outer(2) by (auto simp: outer_entry_def)
    have "s = s'" using entries_ok_target [OF ok(2) 1(3) 2(3)] by simp
    then show ?thesis using maps_injective [OF ok(1) 1(2)] 1(1) 2(1,2) by simp
  qed
qed

lemma composesI:
  assumes C: "\<And>k k'. (k, k') \<in> C \<Longrightarrow> inner_entry Eo Ei k k' \<or> outer_entry Eo Ei k k'"
    and "\<And>s t v. (Some s, Some t) \<in> Ei \<Longrightarrow> maps Eo t v \<Longrightarrow> (Some s, Some v) \<in> C"
    and "\<And>u s t. (Some s, Some t) \<in> Eo \<Longrightarrow> maps Ei u s \<Longrightarrow> Some u \<notin> fst ` Ei \<Longrightarrow> (Some u, Some t) \<in> C"
  shows "composes Eo Ei C"
  unfolding composes_def
proof (intro conjI allI impI)
  fix u assume "Some u \<in> fst ` C"
  then obtain k' where e: "(Some u, k') \<in> C" by auto
  show "Some u \<in> fst ` Ei \<or> (\<exists>s'. Some s' \<in> fst ` Eo \<and> maps Ei u s')"
    using C [OF e]
  proof
    assume "inner_entry Eo Ei (Some u) k'"
    then obtain t where "(Some u, t) \<in> Ei" by (auto simp: inner_entry_def)
    then show ?thesis by force
  next
    assume "outer_entry Eo Ei (Some u) k'"
    then obtain s where "maps Ei u s" "(Some s, k') \<in> Eo" by (auto simp: outer_entry_def)
    then show ?thesis by force
  qed
next
  fix v assume "Some v \<in> snd ` C"
  then obtain k where e: "(k, Some v) \<in> C" by auto
  show "Some v \<in> snd ` Eo \<or> (\<exists>t. Some t \<in> snd ` Ei \<and> maps Eo t v)"
    using C [OF e]
  proof
    assume "inner_entry Eo Ei k (Some v)"
    then obtain s t where "(Some s, Some t) \<in> Ei" "maps Eo t v" using inner_entry_Some by blast
    then show ?thesis by force
  next
    assume "outer_entry Eo Ei k (Some v)"
    then obtain s where "(Some s, Some v) \<in> Eo" by (auto simp: outer_entry_def)
    then show ?thesis by force
  qed
qed (rule assms(2,3); assumption)+

end
