(* ===== verification/Pcp_MapFunction.thy ===== *)
theory Pcp_MapFunction
  imports Sdf_PathReplace Prefix_Bijection "HOL-Library.Word"
begin

text \<open>
  Namespace mappings across composition arcs (\<open>pxr/usd/pcp/mapFunction.cpp\<close>): pairs of source
  and target paths in the order of the code, a flag for the root identity, and a time offset.
  The small-vector storage of the pairs is their list. \<open>FastLessThan\<close> compares the integers in
  the path handles and is a parameter, as are the time offsets, which are pairs of doubles, with
  their operations. The mapping of path expressions is not modelled.
\<close>

type_synonym path_pair = "sdf_path \<times> sdf_path"

type_synonym fast_less = "sdf_path \<Rightarrow> sdf_path \<Rightarrow> bool"

record 'o offset_ops =
  offset_identity :: 'o
  offset_is_identity :: "'o \<Rightarrow> bool"
  offset_mult :: "'o \<Rightarrow> 'o \<Rightarrow> 'o"
  offset_inverse :: "'o \<Rightarrow> 'o"

record 'o PcpMapFunction =
  pairs :: "path_pair list"
  hasRootIdentity :: bool
  offset :: 'o

section \<open>Orders of the pairs\<close>

definition PathPairOrder :: "fast_less \<Rightarrow> path_pair \<Rightarrow> path_pair \<Rightarrow> bool" where
  "PathPairOrder fless lhs rhs =
     (if GetPathElementCount (fst lhs) \<noteq> GetPathElementCount (fst rhs)
      then GetPathElementCount (fst lhs) < GetPathElementCount (fst rhs)
      else fless (fst lhs) (fst rhs) \<or> (fst lhs = fst rhs \<and> fless (snd lhs) (snd rhs)))"

definition PathLessThan :: "fast_less \<Rightarrow> sdf_path \<Rightarrow> sdf_path \<Rightarrow> bool" where
  "PathLessThan fless lhs rhs =
     (if GetPathElementCount lhs \<noteq> GetPathElementCount rhs
      then GetPathElementCount lhs < GetPathElementCount rhs
      else fless lhs rhs)"

section \<open>Matching\<close>

text \<open>The loop of \<open>_GetBestSourceMatch\<close>, towards the beginning of the pairs. An iterator is an offset,
  the end is \<open>None\<close>.\<close>

fun source_match_loop :: "path_pair list \<Rightarrow> sdf_path \<Rightarrow> nat \<Rightarrow> nat \<Rightarrow> nat option" where
  "source_match_loop ps path minElementCount 0 = None"
| "source_match_loop ps path minElementCount (Suc i) =
     (let source = fst (ps ! i) in
      if GetPathElementCount source < minElementCount then None
      else if HasPrefix path source then Some i
      else source_match_loop ps path minElementCount i)"

definition GetBestSourceMatch :: "sdf_path \<Rightarrow> path_pair list \<Rightarrow> nat \<Rightarrow> nat option" where
  "GetBestSourceMatch path ps minElementCount =
     source_match_loop ps path minElementCount
       (std_upper_bound (\<lambda>pathLen pr. pathLen < GetPathElementCount (fst pr)) ps (GetPathElementCount path))"

definition target_match_step ::
    "sdf_path \<Rightarrow> path_pair list \<Rightarrow> nat option \<times> nat \<Rightarrow> nat \<Rightarrow> nat option \<times> nat" where
  "target_match_step path ps = (\<lambda>(bestIter, bestElementCount) i.
     let target = snd (ps ! i); count = GetPathElementCount target in
     if count \<ge> bestElementCount \<and> HasPrefix path target then (Some i, count)
     else (bestIter, bestElementCount))"

definition GetBestTargetMatch :: "sdf_path \<Rightarrow> path_pair list \<Rightarrow> nat \<Rightarrow> nat option" where
  "GetBestTargetMatch path ps minElementCount =
     fst (foldl (target_match_step path ps) (None, minElementCount) [0..<length ps])"

definition HasBetterTargetMatch :: "sdf_path \<Rightarrow> path_pair list \<Rightarrow> nat option \<Rightarrow> bool \<Rightarrow> bool" where
  "HasBetterTargetMatch targetPath ps bestSourceMatch invert =
     (let minElementCount =
            (case bestSourceMatch of
               None \<Rightarrow> 0
             | Some i \<Rightarrow> GetPathElementCount (if invert then fst (ps ! i) else snd (ps ! i)));
          bestTargetMatch =
            (if invert then GetBestSourceMatch targetPath ps minElementCount
             else GetBestTargetMatch targetPath ps minElementCount)
      in bestTargetMatch \<noteq> None \<and> bestTargetMatch \<noteq> bestSourceMatch)"

section \<open>Mapping\<close>

definition Map :: "path_env \<Rightarrow> sdf_path \<Rightarrow> path_pair list \<Rightarrow> bool \<Rightarrow> bool \<Rightarrow> sdf_path" where
  "Map env path ps rootIdentity invert =
     (let bestMatch = (if invert then GetBestTargetMatch path ps 0 else GetBestSourceMatch path ps 0);
          result =
            (case bestMatch of
               None \<Rightarrow> if rootIdentity then path else EmptyPath
             | Some i \<Rightarrow>
                 if invert then ReplacePrefix env path (snd (ps ! i)) (fst (ps ! i)) False
                 else ReplacePrefix env path (fst (ps ! i)) (snd (ps ! i)) False)
      in if IsEmpty result then result
         else if HasBetterTargetMatch result ps bestMatch invert then EmptyPath
         else result)"

definition MapSourceToTarget :: "path_env \<Rightarrow> 'o PcpMapFunction \<Rightarrow> sdf_path \<Rightarrow> sdf_path" where
  "MapSourceToTarget env f path = Map env path (pairs f) (hasRootIdentity f) False"

definition MapTargetToSource :: "path_env \<Rightarrow> 'o PcpMapFunction \<Rightarrow> sdf_path \<Rightarrow> sdf_path" where
  "MapTargetToSource env f path = Map env path (pairs f) (hasRootIdentity f) True"

section \<open>Canonicalization\<close>

text \<open>The loop of \<open>_IsRedundant\<close> over the ancestors of the source and of the target: \<open>None\<close> if their
  names differ, else the ancestor of the target. It ends at the given ancestor of the source, which
  \<open>ancestor_loop_enough\<close> shows for the number of steps given.\<close>

fun ancestor_loop :: "nat \<Rightarrow> sdf_path \<Rightarrow> sdf_path \<Rightarrow> sdf_path \<Rightarrow> sdf_path option" where
  "ancestor_loop 0 sourceAncestor targetAncestor stop =
     (if sourceAncestor = stop then Some targetAncestor else None)"
| "ancestor_loop (Suc k) sourceAncestor targetAncestor stop =
     (if sourceAncestor = stop then Some targetAncestor
      else if GetNameToken sourceAncestor \<noteq> GetNameToken targetAncestor then None
      else ancestor_loop k (GetParentPath sourceAncestor) (GetParentPath targetAncestor) stop)"

text \<open>The difference of the element counts is taken in \<open>size_t\<close>.\<close>

definition count_difference :: "sdf_path \<Rightarrow> sdf_path \<Rightarrow> 64 word" where
  "count_difference p q = of_nat (GetPathElementCount p) - of_nat (GetPathElementCount q)"

definition IsRedundant :: "path_env \<Rightarrow> nat \<Rightarrow> path_pair list \<Rightarrow> bool" where
  "IsRedundant env entry ps =
     (let (entrySource, entryTarget) = ps ! entry;
          bestSourceMatch = GetBestSourceMatch (GetParentPath entrySource) ps 0
      in if IsEmpty entryTarget then
           (case bestSourceMatch of
              None \<Rightarrow> True
            | Some i \<Rightarrow>
                if IsEmpty (snd (ps ! i)) then True
                else
                  let targetPath = ReplacePrefix env entrySource (fst (ps ! i)) (snd (ps ! i)) True
                  in HasBetterTargetMatch targetPath ps bestSourceMatch False)
         else if GetNameToken entrySource \<noteq> GetNameToken entryTarget then False
         else
           (case bestSourceMatch of
              None \<Rightarrow> False
            | Some i \<Rightarrow>
                if IsEmpty (snd (ps ! i)) then False
                else if IsAbsoluteRootPath (fst (ps ! i)) \<and> IsAbsoluteRootPath (snd (ps ! i))
                    \<and> entrySource = entryTarget then True
                else if count_difference entryTarget (snd (ps ! i)) \<noteq> count_difference entrySource (fst (ps ! i))
                then False
                else
                  (case ancestor_loop (GetPathElementCount entrySource) (GetParentPath entrySource)
                      (GetParentPath entryTarget) (fst (ps ! i)) of
                     None \<Rightarrow> False
                   | Some targetAncestor \<Rightarrow>
                       if snd (ps ! i) \<noteq> targetAncestor then False
                       else \<not> HasBetterTargetMatch (GetParentPath entryTarget) ps bestSourceMatch False)))"

function canonicalize_loop :: "path_env \<Rightarrow> path_pair list \<Rightarrow> nat \<Rightarrow> path_pair list" where
  "canonicalize_loop env ps i =
     (if i < length ps
      then if IsRedundant env i ps then canonicalize_loop env (take i ps @ drop (i + 1) ps) i
           else canonicalize_loop env ps (i + 1)
      else ps)"
  by pat_completeness auto
termination
  by (relation "measure (\<lambda>(env, ps, i). length ps - i)") auto

declare canonicalize_loop.simps [simp del]

definition Canonicalize :: "path_env \<Rightarrow> path_pair list \<Rightarrow> path_pair list \<times> bool" where
  "Canonicalize env ps =
     (let ps = canonicalize_loop env ps 0 in
      if ps \<noteq> [] \<and> hd ps = (AbsoluteRootPath, AbsoluteRootPath) then (tl ps, True) else (ps, False))"

section \<open>Map functions\<close>

definition NullFunction :: "'o offset_ops \<Rightarrow> 'o PcpMapFunction" where
  "NullFunction ops = \<lparr>pairs = [], hasRootIdentity = False, offset = offset_identity ops\<rparr>"

definition Identity :: "'o offset_ops \<Rightarrow> 'o PcpMapFunction" where
  "Identity ops = (NullFunction ops)\<lparr>hasRootIdentity := True\<rparr>"

definition IsNull :: "'o PcpMapFunction \<Rightarrow> bool" where
  "IsNull f \<longleftrightarrow> pairs f = [] \<and> \<not> hasRootIdentity f"

definition IsIdentityPathMapping :: "'o PcpMapFunction \<Rightarrow> bool" where
  "IsIdentityPathMapping f \<longleftrightarrow> pairs f = [] \<and> hasRootIdentity f"

definition IsIdentity :: "'o offset_ops \<Rightarrow> 'o PcpMapFunction \<Rightarrow> bool" where
  "IsIdentity ops f \<longleftrightarrow> IsIdentityPathMapping f \<and> offset_is_identity ops (offset f)"

definition isValidMapPath :: "sdf_path \<Rightarrow> bool" where
  "isValidMapPath path \<longleftrightarrow> IsAbsolutePath path \<and> (IsAbsoluteRootOrPrimPath path \<or> IsPrimVariantSelectionPath path)"

text \<open>The largest number of pairs, the maximum of \<open>int\<close>.\<close>

definition maxPairCount :: nat where "maxPairCount = 2147483647"

text \<open>The argument lists the map in the order of its keys.\<close>

definition MapFunction_Create :: "path_env \<Rightarrow> 'o offset_ops \<Rightarrow> fast_less \<Rightarrow> path_pair list \<Rightarrow> 'o \<Rightarrow> 'o PcpMapFunction" where
  "MapFunction_Create env ops fless sourceToTarget off =
     (if length sourceToTarget = 1 \<and> offset_is_identity ops off
          \<and> hd sourceToTarget = (AbsoluteRootPath, AbsoluteRootPath) then Identity ops
      else if length sourceToTarget > maxPairCount then NullFunction ops
      else if \<not> list_all (\<lambda>(source, target). isValidMapPath source \<and> (IsEmpty target \<or> isValidMapPath target))
          sourceToTarget
      then NullFunction ops
      else
        let (ps, root) = Canonicalize env (std_sort (PathPairOrder fless) sourceToTarget)
        in \<lparr>pairs = ps, hasRootIdentity = root, offset = off\<rparr>)"

section \<open>Composition and inverse\<close>

text \<open>The loops of \<open>_ComposePathPairs\<close>: the inner targets through the outer function, then the outer
  sources back through the inner one, unless they are sources already.\<close>

definition compose_inner :: "path_env \<Rightarrow> 'o PcpMapFunction \<Rightarrow> 'o PcpMapFunction \<Rightarrow> path_pair list" where
  "compose_inner env outer inner =
     (if hasRootIdentity outer \<and> hasRootIdentity inner then [(AbsoluteRootPath, AbsoluteRootPath)] else [])
     @ map (\<lambda>(source, target). (source, MapSourceToTarget env outer target)) (pairs inner)"

definition compose_outer :: "path_env \<Rightarrow> fast_less \<Rightarrow> 'o PcpMapFunction \<Rightarrow> 'o PcpMapFunction \<Rightarrow> path_pair list" where
  "compose_outer env fless outer inner =
     concat (map (\<lambda>(outerSource, target).
       let source = MapTargetToSource env inner outerSource in
       if IsEmpty source then []
       else if std_binary_search (\<lambda>pr path. PathLessThan fless (fst pr) path)
           (\<lambda>path pr. PathLessThan fless path (fst pr)) (compose_inner env outer inner) source
       then [] else [(source, target)]) (pairs outer))"

definition ComposePathPairs ::
    "path_env \<Rightarrow> fast_less \<Rightarrow> 'o PcpMapFunction \<Rightarrow> 'o PcpMapFunction \<Rightarrow> path_pair list \<times> bool" where
  "ComposePathPairs env fless outer inner =
     (let sorted = compose_inner env outer inner;
          added = compose_outer env fless outer inner;
          scratch = (if added \<noteq> []
            then std_merge (PathPairOrder fless) sorted (std_sort (PathPairOrder fless) added) else sorted)
      in Canonicalize env scratch)"

definition Compose ::
    "path_env \<Rightarrow> 'o offset_ops \<Rightarrow> fast_less \<Rightarrow> 'o PcpMapFunction \<Rightarrow> 'o PcpMapFunction \<Rightarrow> 'o PcpMapFunction" where
  "Compose env ops fless f inner =
     (if IsIdentity ops f then inner
      else if IsIdentity ops inner then f
      else
        let (ps, root) = ComposePathPairs env fless f inner
        in \<lparr>pairs = ps, hasRootIdentity = root, offset = offset_mult ops (offset f) (offset inner)\<rparr>)"

definition ComposeOffset :: "'o offset_ops \<Rightarrow> 'o PcpMapFunction \<Rightarrow> 'o \<Rightarrow> 'o PcpMapFunction" where
  "ComposeOffset ops f off = f\<lparr>offset := offset_mult ops (offset f) off\<rparr>"

definition GetInverse :: "'o offset_ops \<Rightarrow> fast_less \<Rightarrow> 'o PcpMapFunction \<Rightarrow> 'o PcpMapFunction" where
  "GetInverse ops fless f =
     \<lparr>pairs = std_sort (PathPairOrder fless) (map (\<lambda>(s, t). (t, s)) (pairs f)),
      hasRootIdentity = hasRootIdentity f, offset = offset_inverse ops (offset f)\<rparr>"

definition ImpliedClass ::
    "path_env \<Rightarrow> 'o offset_ops \<Rightarrow> fast_less \<Rightarrow> 'o PcpMapFunction \<Rightarrow> 'o PcpMapFunction \<Rightarrow> 'o PcpMapFunction" where
  "ImpliedClass env ops fless transferFunc classArc =
     (if IsIdentity ops transferFunc then classArc
      else (Compose env ops fless transferFunc (Compose env ops fless classArc (GetInverse ops fless transferFunc)))
        \<lparr>hasRootIdentity := True\<rparr>)"

definition GetSourceToTargetMap :: "'o PcpMapFunction \<Rightarrow> sdf_path \<rightharpoonup> sdf_path" where
  "GetSourceToTargetMap f =
     (if hasRootIdentity f then (map_of (pairs f))(AbsoluteRootPath \<mapsto> AbsoluteRootPath) else map_of (pairs f))"

section \<open>The best matches\<close>

lemma HasPrefix_count: "HasPrefix p q \<Longrightarrow> GetPathElementCount q \<le> GetPathElementCount p"
  by (auto simp: HasPrefix_iff GetPathElementCount_def dest: prefix_length_le split: if_splits)

definition source_sorted :: "path_pair list \<Rightarrow> bool" where
  "source_sorted ps \<longleftrightarrow> sorted_wrt (\<lambda>a b. GetPathElementCount (fst a) \<le> GetPathElementCount (fst b)) ps"

lemma source_match_loop_Some:
  assumes "source_sorted ps" "n \<le> length ps"
  shows "source_match_loop ps path m n = Some i \<longleftrightarrow>
    i < n \<and> HasPrefix path (fst (ps ! i)) \<and> m \<le> GetPathElementCount (fst (ps ! i))
    \<and> (\<forall>j. i < j \<longrightarrow> j < n \<longrightarrow> \<not> HasPrefix path (fst (ps ! j)))"
  using assms(2)
proof (induction n)
  case (Suc n)
  have "GetPathElementCount (fst (ps ! i)) \<le> GetPathElementCount (fst (ps ! n))" if "i < n"
    using assms(1) Suc.prems that by (auto simp: source_sorted_def sorted_wrt_iff_nth_less)
  then show ?case using Suc by (auto simp: Let_def less_Suc_eq)
qed simp

lemma upper_bound_count:
  assumes "source_sorted ps"
  shows "std_upper_bound (\<lambda>pathLen pr. pathLen < GetPathElementCount (fst pr)) ps c =
    length (takeWhile (\<lambda>pr. GetPathElementCount (fst pr) \<le> c) ps)"
proof -
  have "sorted_wrt (\<lambda>x y. GetPathElementCount (fst y) \<le> c \<longrightarrow> GetPathElementCount (fst x) \<le> c) ps"
    using assms unfolding source_sorted_def by (rule sorted_wrt_mono_rel [rotated]) auto
  from partition_point_takeWhile [OF this] show ?thesis by (simp add: std_upper_bound_def not_less)
qed

lemma last_match_extend:
  fixes i n N :: nat
  assumes "n \<le> N" "\<And>j. n \<le> j \<Longrightarrow> j < N \<Longrightarrow> \<not> H j"
  shows "(i < n \<and> H i \<and> C \<and> (\<forall>j. i < j \<longrightarrow> j < n \<longrightarrow> \<not> H j)) \<longleftrightarrow>
    (i < N \<and> H i \<and> C \<and> (\<forall>j. i < j \<longrightarrow> j < N \<longrightarrow> \<not> H j))"
proof (cases "i < n")
  case True
  have "(\<forall>j. i < j \<longrightarrow> j < n \<longrightarrow> \<not> H j) \<longleftrightarrow> (\<forall>j. i < j \<longrightarrow> j < N \<longrightarrow> \<not> H j)"
  proof (intro iffI allI impI)
    fix j assume "\<forall>j. i < j \<longrightarrow> j < n \<longrightarrow> \<not> H j" "i < j" "j < N"
    then show "\<not> H j" using assms(2) [of j] by (cases "j < n") (auto simp: not_less)
  qed (use assms(1) in auto)
  with True assms(1) show ?thesis by auto
qed (use assms(2) in auto)

text \<open>The source match is the last one that is a prefix.\<close>

lemma GetBestSourceMatch_Some:
  assumes "source_sorted ps"
  shows "GetBestSourceMatch path ps m = Some i \<longleftrightarrow>
    i < length ps \<and> HasPrefix path (fst (ps ! i)) \<and> m \<le> GetPathElementCount (fst (ps ! i))
    \<and> (\<forall>j. i < j \<longrightarrow> j < length ps \<longrightarrow> \<not> HasPrefix path (fst (ps ! j)))"
proof -
  let ?P = "\<lambda>pr. GetPathElementCount (fst pr) \<le> GetPathElementCount path"
  let ?n = "length (takeWhile ?P ps)"
  have n: "?n \<le> length ps" by (rule length_takeWhile_le)
  have "\<not> HasPrefix path (fst (ps ! j))" if "?n \<le> j" "j < length ps" for j
  proof -
    have "\<not> ?P (ps ! ?n)" using that by (intro nth_length_takeWhile) simp
    moreover have "GetPathElementCount (fst (ps ! ?n)) \<le> GetPathElementCount (fst (ps ! j))"
      using assms that by (cases "?n = j") (auto simp: source_sorted_def sorted_wrt_iff_nth_less)
    ultimately show ?thesis using HasPrefix_count [of path "fst (ps ! j)"] by auto
  qed
  from last_match_extend [OF n this]
  show ?thesis
    unfolding GetBestSourceMatch_def upper_bound_count [OF assms] source_match_loop_Some [OF assms n] .
qed

text \<open>The target match is the last of the longest ones.\<close>

lemma target_match_invariant:
  assumes "foldl (target_match_step path ps) (None, m) [0..<n] = (b, c)"
  shows "case b of
      None \<Rightarrow> c = m \<and> (\<forall>j < n. HasPrefix path (snd (ps ! j)) \<longrightarrow> GetPathElementCount (snd (ps ! j)) < m)
    | Some i \<Rightarrow> c = GetPathElementCount (snd (ps ! i)) \<and> i < n \<and> HasPrefix path (snd (ps ! i)) \<and> m \<le> c
        \<and> (\<forall>j < n. HasPrefix path (snd (ps ! j)) \<longrightarrow> GetPathElementCount (snd (ps ! j)) \<le> c
            \<and> (i < j \<longrightarrow> GetPathElementCount (snd (ps ! j)) < c))"
  using assms
proof (induction n arbitrary: b c)
  case (Suc n)
  obtain b' c' where 1: "foldl (target_match_step path ps) (None, m) [0..<n] = (b', c')" by fastforce
  then have 2: "target_match_step path ps (b', c') n = (b, c)" using Suc.prems by simp
  show ?case
    using Suc.IH [OF 1] 2
    by (cases b') (auto simp: target_match_step_def Let_def less_Suc_eq split: if_splits option.splits)
qed simp

lemma GetBestTargetMatch_Some:
  "GetBestTargetMatch path ps m = Some i \<longleftrightarrow>
    i < length ps \<and> HasPrefix path (snd (ps ! i)) \<and> m \<le> GetPathElementCount (snd (ps ! i))
    \<and> (\<forall>j < length ps. HasPrefix path (snd (ps ! j)) \<longrightarrow>
        GetPathElementCount (snd (ps ! j)) \<le> GetPathElementCount (snd (ps ! i))
        \<and> (i < j \<longrightarrow> GetPathElementCount (snd (ps ! j)) < GetPathElementCount (snd (ps ! i))))"
    (is "_ \<longleftrightarrow> ?best i")
proof -
  obtain b c where 1: "foldl (target_match_step path ps) (None, m) [0..<length ps] = (b, c)" by fastforce
  have unique: "i = k" if "?best i" "?best k" for i k
    using that by (metis le_antisym less_irrefl linorder_neqE_nat)
  show ?thesis
    using target_match_invariant [OF 1] unique 1
    by (cases b) (auto simp: GetBestTargetMatch_def)
qed

text \<open>The least element count only rules out matches.\<close>

lemma GetBestSourceMatch_min:
  assumes "source_sorted ps"
  shows "GetBestSourceMatch path ps m = Some i \<longleftrightarrow>
    GetBestSourceMatch path ps 0 = Some i \<and> m \<le> GetPathElementCount (fst (ps ! i))"
  unfolding GetBestSourceMatch_Some [OF assms] by auto

lemma GetBestTargetMatch_min:
  "GetBestTargetMatch path ps m = Some i \<longleftrightarrow>
    GetBestTargetMatch path ps 0 = Some i \<and> m \<le> GetPathElementCount (snd (ps ! i))"
  unfolding GetBestTargetMatch_Some by auto

lemma GetBestSourceMatch_exists:
  assumes "source_sorted ps" "i < length ps" "HasPrefix path (fst (ps ! i))"
  shows "\<exists>k. GetBestSourceMatch path ps 0 = Some k
    \<and> GetPathElementCount (fst (ps ! i)) \<le> GetPathElementCount (fst (ps ! k))"
proof -
  let ?K = "{j. j < length ps \<and> HasPrefix path (fst (ps ! j))}"
  let ?k = "Max ?K"
  have fin: "finite ?K" and mem: "i \<in> ?K" using assms(2,3) by simp_all
  then have k: "?k \<in> ?K" by (intro Max_in) auto
  have "\<not> HasPrefix path (fst (ps ! j))" if "?k < j" "j < length ps" for j
  proof
    assume "HasPrefix path (fst (ps ! j))"
    then have "j \<in> ?K" using that by simp
    from Max_ge [OF fin this] that(1) show False by simp
  qed
  then have "GetBestSourceMatch path ps 0 = Some ?k"
    unfolding GetBestSourceMatch_Some [OF assms(1)] using k by blast
  moreover have "i \<le> ?k" using Max_ge [OF fin mem] .
  ultimately show ?thesis
    using assms(1) k by (cases "i = ?k") (auto simp: source_sorted_def sorted_wrt_iff_nth_less)
qed

lemma GetBestTargetMatch_exists:
  assumes "i < length ps" "HasPrefix path (snd (ps ! i))"
  shows "\<exists>k. GetBestTargetMatch path ps 0 = Some k
    \<and> GetPathElementCount (snd (ps ! i)) \<le> GetPathElementCount (snd (ps ! k))"
proof -
  obtain b c where 1: "foldl (target_match_step path ps) (None, 0) [0..<length ps] = (b, c)" by fastforce
  then show ?thesis
    using target_match_invariant [OF 1] assms by (cases b) (auto simp: GetBestTargetMatch_def)
qed

section \<open>Well-formed pairs\<close>

text \<open>A side of a pair is empty or an absolute prim or variant selection; the absolute root occurs in
  the root identity only.\<close>

definition map_side :: "path_env \<Rightarrow> sdf_path \<Rightarrow> bool" where
  "map_side env p \<longleftrightarrow> p = EmptyPath \<or>
     path_ok env p \<and> path_root p = AbsoluteRoot \<and> prop_part p = [] \<and> prim_part p \<noteq> []"

definition pair_ok :: "path_env \<Rightarrow> path_pair \<Rightarrow> bool" where
  "pair_ok env pr \<longleftrightarrow> pr = (AbsoluteRootPath, AbsoluteRootPath) \<or> map_side env (fst pr) \<and> map_side env (snd pr)"

definition absolute_ok :: "path_env \<Rightarrow> sdf_path \<Rightarrow> bool" where
  "absolute_ok env p \<longleftrightarrow> path_ok env p \<and> path_root p = AbsoluteRoot"

lemma absolute_ok_not_empty: "absolute_ok env p \<Longrightarrow> \<not> IsEmpty p"
  by (simp add: absolute_ok_def IsEmpty_def prim_handle_def null_prim_handle_def)

lemma absolute_ok_EmptyPath: "absolute_ok env p \<Longrightarrow> p \<noteq> EmptyPath"
  by (auto simp: absolute_ok_def EmptyPath_def)

lemma map_side_cases: "map_side env p \<Longrightarrow> \<not> IsEmpty p \<Longrightarrow>
    path_ok env p \<and> path_root p = AbsoluteRoot \<and> prop_part p = [] \<and> prim_part p \<noteq> []"
  by (auto simp: map_side_def IsEmpty_def EmptyPath_def prim_handle_def null_prim_handle_def)

lemma IsEmpty_side: "map_side env p \<Longrightarrow> IsEmpty p \<longleftrightarrow> p = EmptyPath"
  by (auto simp: map_side_def IsEmpty_def EmptyPath_def prim_handle_def null_prim_handle_def)

lemma pair_sides:
  assumes "pair_ok env (s, t)" "\<not> IsEmpty s" "\<not> IsEmpty t"
  shows "path_root s = AbsoluteRoot \<and> prop_part s = [] \<and> path_root t = AbsoluteRoot \<and> prop_part t = []"
  using assms map_side_cases [of env s] map_side_cases [of env t]
  by (auto simp: pair_ok_def AbsoluteRootPath_def)

text \<open>What the entry from a source to a target makes of a path.\<close>

definition mapped :: "sdf_path \<Rightarrow> sdf_path \<Rightarrow> sdf_path \<Rightarrow> sdf_path" where
  "mapped s t p = SdfPath AbsoluteRoot (prim_part t @ drop (length (prim_part s)) (prim_part p)) (prop_part p)"

lemma ReplacePrefix_mapped_targets:
  assumes "absolute_ok env p" "pair_ok env (s, t)" "HasPrefix p s" "\<not> IsEmpty t"
    and "fixt \<longrightarrow> prop_part p = []"
  shows "ReplacePrefix env p s t fixt = mapped s t p \<and> absolute_ok env (mapped s t p)"
proof (cases "(s, t) = (AbsoluteRootPath, AbsoluteRootPath)")
  case True
  then have "mapped s t p = p" using assms(1) by (cases p) (simp add: mapped_def AbsoluteRootPath_def absolute_ok_def)
  then show ?thesis using True assms(1) by (cases p) (simp add: replace_prefix_with_def)
next
  case False
  have ok: "path_ok env p" "path_root p = AbsoluteRoot" using assms(1) by (auto simp: absolute_ok_def)
  have ne: "\<not> IsEmpty s" using assms(3) by (simp add: HasPrefix_iff)
  have s: "path_ok env s" "path_root s = AbsoluteRoot" "prop_part s = []"
    and t: "path_ok env t" "path_root t = AbsoluteRoot" "prop_part t = []" "prim_part t \<noteq> []"
    using False assms(2) map_side_cases [OF _ ne] map_side_cases [OF _ assms(4)] by (auto simp: pair_ok_def)
  have "prefix (prim_part s) (prim_part p)" using assms(3) s(3) by (simp add: HasPrefix_iff)
  then have "replaced s t fixt p = mapped s t p"
    using ok(2) s(2) t(2) assms(5) by (cases p) (auto simp: replaced.simps exchange_prefix_def path_of_handle_def mapped_def)
  moreover have "path_ok env (replaced s t fixt p)"
    using replaced_ok [OF t(1) s(2) t(2,4) ok(1)] .
  ultimately show ?thesis
    using ReplacePrefix_replaced [OF s(3) t(3) s(1) t(1) ok(1), of fixt] by (simp add: absolute_ok_def mapped_def)
qed

lemmas ReplacePrefix_mapped = ReplacePrefix_mapped_targets [where fixt = False, simplified]

lemma mapped_HasPrefix:
  assumes "pair_ok env (s, t)" "\<not> IsEmpty s" "\<not> IsEmpty t"
  shows "HasPrefix (mapped s t p) t"
  using pair_sides [OF assms] assms(3)
  by (auto simp: HasPrefix_iff mapped_def IsEmpty_def prim_handle_def null_prim_handle_def)

lemma mapped_inverse:
  assumes "pair_ok env (s, t)" "absolute_ok env p" "HasPrefix p s" "\<not> IsEmpty t"
  shows "mapped t s (mapped s t p) = p"
proof -
  have "\<not> IsEmpty s" using assms(3) by (simp add: HasPrefix_iff)
  then have "prefix (prim_part s) (prim_part p)"
    using assms(3) pair_sides [OF assms(1) _ assms(4)] by (simp add: HasPrefix_iff)
  then show ?thesis using assms(2) by (cases p) (auto simp: mapped_def absolute_ok_def prefix_def)
qed

text \<open>An entry, or the root identity, relates two paths.\<close>

definition matched :: "path_pair list \<Rightarrow> bool \<Rightarrow> nat option \<Rightarrow> sdf_path \<Rightarrow> sdf_path \<Rightarrow> bool" where
  "matched ps root m p q \<longleftrightarrow>
     (case m of
        None \<Rightarrow> root \<and> q = p
      | Some i \<Rightarrow> i < length ps \<and> \<not> IsEmpty (fst (ps ! i)) \<and> \<not> IsEmpty (snd (ps ! i))
          \<and> HasPrefix p (fst (ps ! i)) \<and> q = mapped (fst (ps ! i)) (snd (ps ! i)) p)"

lemma pair_ok_swap: "pair_ok env (t, s) \<longleftrightarrow> pair_ok env (s, t)"
  by (auto simp: pair_ok_def)

lemma matched_swap:
  assumes "list_all (pair_ok env) ps" "absolute_ok env p" "absolute_ok env q"
  shows "matched (map (\<lambda>(s, t). (t, s)) ps) root m q p \<longleftrightarrow> matched ps root m p q"
proof (cases m)
  case (Some i)
  have *: "HasPrefix q t \<and> p = mapped t s q \<longleftrightarrow> HasPrefix p s \<and> q = mapped s t p"
    if "pair_ok env (s, t)" "\<not> IsEmpty s" "\<not> IsEmpty t" for s t
    using mapped_inverse [OF that(1) assms(2)] mapped_inverse [of env t s q] mapped_HasPrefix [OF that]
      mapped_HasPrefix [of env t s] that assms(3) by (auto simp: pair_ok_swap)
  obtain s t where st: "ps ! i = (s, t)" by fastforce
  have "i < length ps \<Longrightarrow> pair_ok env (s, t)" using assms(1) st by (metis list_all_length)
  then show ?thesis
    using Some st * [of s t] by (cases "i < length ps") (auto simp: matched_def)
qed (auto simp: matched_def)

text \<open>A mapping is made exactly if the best matches for the two paths agree.\<close>

lemma Map_forward:
  assumes "list_all (pair_ok env) ps" "source_sorted ps" "absolute_ok env p" "absolute_ok env q"
  shows "Map env p ps root False = q \<longleftrightarrow>
    matched ps root (GetBestSourceMatch p ps 0) p q \<and> GetBestTargetMatch q ps 0 = GetBestSourceMatch p ps 0"
proof (cases "GetBestSourceMatch p ps 0")
  case None
  have "Map env p ps root False =
      (if \<not> root then EmptyPath else if GetBestTargetMatch p ps 0 \<noteq> None then EmptyPath else p)"
    using None absolute_ok_not_empty [OF assms(3)]
    by (auto simp: Map_def HasBetterTargetMatch_def Let_def path_queries)
  then show ?thesis using None absolute_ok_not_empty [OF assms(4)] by (auto simp: matched_def path_queries)
next
  case (Some i)
  obtain s t where st: "ps ! i = (s, t)" by fastforce
  have i: "i < length ps" "HasPrefix p s"
    using GetBestSourceMatch_Some [OF assms(2), of p 0 i] Some st by auto
  then have ok: "pair_ok env (s, t)" using assms(1) st by (metis list_all_length)
  have s: "\<not> IsEmpty s" using i(2) by (simp add: HasPrefix_iff)
  show ?thesis
  proof (cases "IsEmpty t")
    case True
    then have "t = EmptyPath" using ok IsEmpty_side by (auto simp: pair_ok_def path_queries)
    then have "ReplacePrefix env p s t False = EmptyPath"
      using s absolute_ok_not_empty [OF assms(3)] True by (cases p) (auto simp: replace_prefix_with_def)
    then show ?thesis
      using Some st i True absolute_ok_not_empty [OF assms(4)]
      by (auto simp: Map_def Let_def matched_def path_queries)
  next
    case False
    note r = ReplacePrefix_mapped [OF assms(3) ok i(2) False]
    let ?q = "mapped s t p"
    have "HasPrefix ?q (snd (ps ! i))" using mapped_HasPrefix [OF ok s False] st by simp
    then obtain k where k: "GetBestTargetMatch ?q ps 0 = Some k"
      "GetPathElementCount t \<le> GetPathElementCount (snd (ps ! k))"
      using GetBestTargetMatch_exists [OF i(1), of ?q] st by auto
    then have "GetBestTargetMatch ?q ps (GetPathElementCount t) = Some k"
      using GetBestTargetMatch_min [of ?q ps _ k] by blast
    then have "Map env p ps root False = (if k \<noteq> i then EmptyPath else ?q)"
      using Some st r absolute_ok_not_empty [of env ?q] by (auto simp: Map_def Let_def HasBetterTargetMatch_def)
    then show ?thesis
      using Some st i s False k absolute_ok_EmptyPath [OF assms(4)] by (auto simp: matched_def)
  qed
qed

lemma Map_inverse:
  assumes "list_all (pair_ok env) ps" "source_sorted ps" "absolute_ok env p" "absolute_ok env q"
  shows "Map env q ps root True = p \<longleftrightarrow>
    matched ps root (GetBestTargetMatch q ps 0) p q \<and> GetBestSourceMatch p ps 0 = GetBestTargetMatch q ps 0"
proof (cases "GetBestTargetMatch q ps 0")
  case None
  have "Map env q ps root True =
      (if \<not> root then EmptyPath else if GetBestSourceMatch q ps 0 \<noteq> None then EmptyPath else q)"
    using None absolute_ok_not_empty [OF assms(4)]
    by (auto simp: Map_def HasBetterTargetMatch_def Let_def path_queries)
  then show ?thesis using None absolute_ok_not_empty [OF assms(3)] by (auto simp: matched_def path_queries)
next
  case (Some i)
  obtain s t where st: "ps ! i = (s, t)" by fastforce
  have i: "i < length ps" "HasPrefix q t"
    using GetBestTargetMatch_Some [of q ps 0 i] Some st by auto
  then have ok: "pair_ok env (t, s)" using assms(1) st pair_ok_swap by (metis list_all_length)
  have t: "\<not> IsEmpty t" using i(2) by (simp add: HasPrefix_iff)
  show ?thesis
  proof (cases "IsEmpty s")
    case True
    then have "s = EmptyPath" using ok IsEmpty_side by (auto simp: pair_ok_def path_queries)
    then have "ReplacePrefix env q t s False = EmptyPath"
      using t absolute_ok_not_empty [OF assms(4)] True by (cases q) (auto simp: replace_prefix_with_def)
    then show ?thesis
      using Some st i True absolute_ok_not_empty [OF assms(3)]
      by (auto simp: Map_def Let_def matched_def path_queries)
  next
    case False
    note r = ReplacePrefix_mapped [OF assms(4) ok i(2) False]
    let ?p = "mapped t s q"
    have "HasPrefix ?p (fst (ps ! i))" using mapped_HasPrefix [OF ok t False] st by simp
    then obtain k where k: "GetBestSourceMatch ?p ps 0 = Some k"
      "GetPathElementCount s \<le> GetPathElementCount (fst (ps ! k))"
      using GetBestSourceMatch_exists [OF assms(2) i(1), of ?p] st by auto
    then have "GetBestSourceMatch ?p ps (GetPathElementCount s) = Some k"
      using GetBestSourceMatch_min [OF assms(2), of ?p _ k] by blast
    then have "Map env q ps root True = (if k \<noteq> i then EmptyPath else ?p)"
      using Some st r absolute_ok_not_empty [of env ?p] by (auto simp: Map_def Let_def HasBetterTargetMatch_def)
    moreover have "matched ps root (Some i) p q \<longleftrightarrow> p = ?p"
      using matched_swap [OF assms(1,3,4), of root "Some i"] i st t False by (auto simp: matched_def)
    ultimately show ?thesis
      using Some k absolute_ok_EmptyPath [OF assms(3)] by auto
  qed
qed

text \<open>C21: A map function never maps a path that it could not map back: on well-formed absolute paths,
  one path is mapped to another one exactly if the other one is mapped back to it.\<close>

theorem MapSourceToTarget_bijection:
  assumes "list_all (pair_ok env) (pairs f)" "source_sorted (pairs f)" "absolute_ok env p" "absolute_ok env q"
  shows "MapSourceToTarget env f p = q \<longleftrightarrow> MapTargetToSource env f q = p"
  unfolding MapSourceToTarget_def MapTargetToSource_def Map_forward [OF assms] Map_inverse [OF assms]
  by auto

end
