(* ===== verification/Pcp_MapSpec.thy ===== *)
theory Pcp_MapSpec
  imports Pcp_MapFunction
begin

text \<open>
  The map functions of \<open>pxr/usd/pcp/mapFunction.cpp\<close> implement the partial bijections of
  \<open>Prefix_Bijection\<close>: mapping and inverse mapping, the inverse function, what canonicalization
  keeps and where it does not, and composition.
\<close>

section \<open>The entries of a map function\<close>

definition key :: "sdf_path \<Rightarrow> prim_node list option" where
  "key p = (if IsEmpty p then None else Some (prim_part p))"

definition entries :: "path_pair list \<Rightarrow> bool \<Rightarrow> prim_node entry set" where
  "entries ps root = (\<lambda>(s, t). (key s, key t)) ` set ps \<union> (if root then {(Some [], Some [])} else {})"

text \<open>The sides that occur in pairs: empty, or absolute and prim-like.\<close>

definition is_side :: "sdf_path \<Rightarrow> bool" where
  "is_side p \<longleftrightarrow> p = EmptyPath \<or> path_root p = AbsoluteRoot \<and> prop_part p = []"

lemma map_side_is_side: "map_side env p \<Longrightarrow> is_side p"
  by (auto simp: map_side_def is_side_def)

lemma pair_is_side: "pair_ok env (s, t) \<Longrightarrow> is_side s \<and> is_side t"
  using map_side_is_side [of env s] map_side_is_side [of env t]
  by (auto simp: pair_ok_def is_side_def AbsoluteRootPath_def)

lemma key_side:
  assumes "is_side s" "key s = Some x"
  shows "\<not> IsEmpty s \<and> s = SdfPath AbsoluteRoot x [] \<and> GetPathElementCount s = length x"
  using assms by (cases s) (auto simp: is_side_def key_def IsEmpty_def EmptyPath_def prim_handle_def
      null_prim_handle_def GetPathElementCount_def split: if_splits)

lemma key_inj: "is_side s \<Longrightarrow> is_side s' \<Longrightarrow> key s = key s' \<Longrightarrow> s = s'"
  by (cases s; cases s'; cases "key s") (auto simp: key_def is_side_def IsEmpty_def EmptyPath_def
      prim_handle_def null_prim_handle_def split: if_splits)

lemma HasPrefix_side:
  assumes "absolute_ok env p" "is_side s"
  shows "HasPrefix p s \<longleftrightarrow> (\<exists>x. key s = Some x \<and> prefix x (prim_part p))"
  using assms absolute_ok_not_empty [OF assms(1)]
  by (auto simp: HasPrefix_iff key_def is_side_def absolute_ok_def IsEmpty_def EmptyPath_def prim_handle_def
      null_prim_handle_def)

lemma entries_swap: "entries (map (\<lambda>(s, t). (t, s)) ps) root = converse (entries ps root)"
  unfolding entries_def by (auto simp: image_iff split: prod.splits)

lemma entries_nth: "i < length ps \<Longrightarrow> (key (fst (ps ! i)), key (snd (ps ! i))) \<in> entries ps root"
  by (auto simp: entries_def image_iff split: prod.splits intro!: bexI [of _ "ps ! i"])

text \<open>What the code relies on: valid pairs in order, without repetition.\<close>

definition map_pairs_ok :: "path_env \<Rightarrow> path_pair list \<Rightarrow> bool" where
  "map_pairs_ok env ps \<longleftrightarrow> list_all (pair_ok env) ps \<and> source_sorted ps \<and> distinct ps"

lemma nth_pair_ok: "map_pairs_ok env ps \<Longrightarrow> i < length ps \<Longrightarrow> pair_ok env (fst (ps ! i), snd (ps ! i))"
  by (simp add: map_pairs_ok_def list_all_length)

lemma set_is_side: "map_pairs_ok env ps \<Longrightarrow> (s, t) \<in> set ps \<Longrightarrow> is_side s \<and> is_side t"
  by (simp add: map_pairs_ok_def list_all_iff) (metis pair_is_side)

lemma nth_is_side:
  "map_pairs_ok env ps \<Longrightarrow> i < length ps \<Longrightarrow> is_side (fst (ps ! i)) \<and> is_side (snd (ps ! i))"
  using nth_pair_ok pair_is_side by blast

lemma sides_longest:
  assumes "\<And>s. s \<in> set ss \<Longrightarrow> is_side s" "absolute_ok env p"
  shows "longest (key ` set ss \<union> (if root then {Some []} else {})) (prim_part p) x \<longleftrightarrow>
    (\<forall>s \<in> set ss. HasPrefix p s \<longrightarrow> GetPathElementCount s \<le> length x)"
proof -
  have "(\<forall>y. key s = Some y \<longrightarrow> prefix y (prim_part p) \<longrightarrow> length y \<le> length x) \<longleftrightarrow>
      (HasPrefix p s \<longrightarrow> GetPathElementCount s \<le> length x)" if "s \<in> set ss" for s
  proof (cases "key s")
    case None
    then show ?thesis using HasPrefix_side [OF assms(2) assms(1) [OF that]] by simp
  next
    case (Some y)
    moreover have "GetPathElementCount s = length y" using key_side [OF assms(1) [OF that] Some] by blast
    ultimately show ?thesis using HasPrefix_side [OF assms(2) assms(1) [OF that]] by simp
  qed
  then have "(\<forall>s \<in> set ss. \<forall>y. key s = Some y \<longrightarrow> prefix y (prim_part p) \<longrightarrow> length y \<le> length x) \<longleftrightarrow>
      (\<forall>s \<in> set ss. HasPrefix p s \<longrightarrow> GetPathElementCount s \<le> length x)" by (rule ball_cong [OF refl])
  moreover have mem: "Some y \<in> key ` set ss \<longleftrightarrow> (\<exists>s \<in> set ss. key s = Some y)" for y by force
  have "longest (key ` set ss) (prim_part p) x \<longleftrightarrow>
      (\<forall>s \<in> set ss. \<forall>y. key s = Some y \<longrightarrow> prefix y (prim_part p) \<longrightarrow> length y \<le> length x)"
    unfolding longest_def mem by blast
  moreover have "longest (K \<union> (if root then {Some []} else {})) (prim_part p) x \<longleftrightarrow> longest K (prim_part p) x" for K
    by (auto simp: longest_def)
  ultimately show ?thesis by simp
qed

lemma fst_entries: "fst ` entries ps root = key ` set (map fst ps) \<union> (if root then {Some []} else {})"
  and snd_entries: "snd ` entries ps root = key ` set (map snd ps) \<union> (if root then {Some []} else {})"
  by (simp_all add: entries_def image_Un image_image case_prod_beta)

lemma source_longest:
  assumes "map_pairs_ok env ps" "absolute_ok env p"
  shows "longest (fst ` entries ps root) (prim_part p) x \<longleftrightarrow>
    (\<forall>i < length ps. HasPrefix p (fst (ps ! i)) \<longrightarrow> GetPathElementCount (fst (ps ! i)) \<le> length x)"
proof -
  have side: "is_side s" if "s \<in> set (map fst ps)" for s
    using that set_is_side [OF assms(1)] by auto
  have "longest (fst ` entries ps root) (prim_part p) x \<longleftrightarrow>
      (\<forall>s \<in> set (map fst ps). HasPrefix p s \<longrightarrow> GetPathElementCount s \<le> length x)"
    unfolding fst_entries by (rule sides_longest [OF side assms(2)])
  then show ?thesis by (simp add: all_set_conv_all_nth)
qed

lemma target_longest:
  assumes "map_pairs_ok env ps" "absolute_ok env q"
  shows "longest (snd ` entries ps root) (prim_part q) x \<longleftrightarrow>
    (\<forall>i < length ps. HasPrefix q (snd (ps ! i)) \<longrightarrow> GetPathElementCount (snd (ps ! i)) \<le> length x)"
proof -
  have side: "is_side s" if "s \<in> set (map snd ps)" for s
    using that set_is_side [OF assms(1)] by auto
  have "longest (snd ` entries ps root) (prim_part q) x \<longleftrightarrow>
      (\<forall>s \<in> set (map snd ps). HasPrefix q s \<longrightarrow> GetPathElementCount s \<le> length x)"
    unfolding snd_entries by (rule sides_longest [OF side assms(2)])
  then show ?thesis by (simp add: all_set_conv_all_nth)
qed

text \<open>With unique sources and targets the best matches are the entries that \<open>maps\<close> uses.\<close>

lemma pair_unique:
  assumes "map_pairs_ok env ps" "entries_ok (entries ps root)" "i < length ps" "j < length ps"
    and "key (fst (ps ! i)) = key (fst (ps ! j)) \<and> key (fst (ps ! i)) \<noteq> None
      \<or> key (snd (ps ! i)) = key (snd (ps ! j)) \<and> key (snd (ps ! i)) \<noteq> None"
  shows "i = j"
proof -
  note e = entries_nth [OF assms(3), of root] entries_nth [OF assms(4), of root]
  have "key (fst (ps ! i)) = key (fst (ps ! j)) \<and> key (snd (ps ! i)) = key (snd (ps ! j))"
    using assms(5) e entries_ok_source [OF assms(2)] entries_ok_target [OF assms(2)]
    by (metis not_None_eq)
  then have "ps ! i = ps ! j"
    using key_inj nth_is_side [OF assms(1,3)] nth_is_side [OF assms(1,4)] by (intro prod_eqI) auto
  then show ?thesis using assms(1,3,4) by (simp add: map_pairs_ok_def nth_eq_iff_index_eq)
qed

lemma best_source:
  assumes "map_pairs_ok env ps" "entries_ok (entries ps root)" "absolute_ok env p" "i < length ps"
    and "key (fst (ps ! i)) = Some s" "prefix s (prim_part p)"
  shows "GetBestSourceMatch p ps 0 = Some i \<longleftrightarrow> longest (fst ` entries ps root) (prim_part p) s"
proof -
  have sorted: "source_sorted ps" using assms(1) by (simp add: map_pairs_ok_def)
  have count: "GetPathElementCount (fst (ps ! i)) = length s"
    using key_side nth_is_side [OF assms(1,4)] assms(5) by blast
  have i: "HasPrefix p (fst (ps ! i))"
    using HasPrefix_side [OF assms(3)] nth_is_side [OF assms(1,4)] assms(5,6) by blast
  obtain k where k: "GetBestSourceMatch p ps 0 = Some k" "length s \<le> GetPathElementCount (fst (ps ! k))"
    using GetBestSourceMatch_exists [OF sorted assms(4) i] count by auto
  have k2: "k < length ps" "HasPrefix p (fst (ps ! k))" "\<And>j. k < j \<Longrightarrow> j < length ps \<Longrightarrow> \<not> HasPrefix p (fst (ps ! j))"
    using GetBestSourceMatch_Some [OF sorted, of p 0 k] k(1) by auto
  have max: "GetPathElementCount (fst (ps ! j)) \<le> GetPathElementCount (fst (ps ! k))"
    if "j < length ps" "HasPrefix p (fst (ps ! j))" for j
    using k2(3) [of j] that sorted k2(1)
    by (cases j k rule: linorder_cases) (auto simp: source_sorted_def sorted_wrt_iff_nth_less)
  show ?thesis unfolding source_longest [OF assms(1,3)]
  proof
    assume "GetBestSourceMatch p ps 0 = Some i"
    then show "\<forall>j < length ps. HasPrefix p (fst (ps ! j)) \<longrightarrow> GetPathElementCount (fst (ps ! j)) \<le> length s"
      using max k(1) count by auto
  next
    assume "\<forall>j < length ps. HasPrefix p (fst (ps ! j)) \<longrightarrow> GetPathElementCount (fst (ps ! j)) \<le> length s"
    then have "GetPathElementCount (fst (ps ! k)) = length s" using k(2) k2 by (simp add: order_antisym)
    moreover obtain x where "key (fst (ps ! k)) = Some x" "prefix x (prim_part p)"
      using HasPrefix_side [OF assms(3)] nth_is_side [OF assms(1) k2(1)] k2(2) by blast
    ultimately have "key (fst (ps ! k)) = key (fst (ps ! i))"
      using key_side nth_is_side [OF assms(1) k2(1)] assms(5) same_length_prefixes [OF assms(6)] by metis
    then have "k = i" using pair_unique [OF assms(1,2) k2(1) assms(4)] assms(5) by simp
    then show "GetBestSourceMatch p ps 0 = Some i" using k(1) by simp
  qed
qed

lemma best_target:
  assumes "map_pairs_ok env ps" "entries_ok (entries ps root)" "absolute_ok env q" "i < length ps"
    and "key (snd (ps ! i)) = Some t" "prefix t (prim_part q)"
  shows "GetBestTargetMatch q ps 0 = Some i \<longleftrightarrow> longest (snd ` entries ps root) (prim_part q) t"
proof -
  have count: "GetPathElementCount (snd (ps ! i)) = length t"
    using key_side nth_is_side [OF assms(1,4)] assms(5) by blast
  have i: "HasPrefix q (snd (ps ! i))"
    using HasPrefix_side [OF assms(3)] nth_is_side [OF assms(1,4)] assms(5,6) by blast
  obtain k where k: "GetBestTargetMatch q ps 0 = Some k" "length t \<le> GetPathElementCount (snd (ps ! k))"
    using GetBestTargetMatch_exists [OF assms(4) i] count by auto
  have k2: "k < length ps" "HasPrefix q (snd (ps ! k))" "\<And>j. j < length ps \<Longrightarrow> HasPrefix q (snd (ps ! j)) \<Longrightarrow>
      GetPathElementCount (snd (ps ! j)) \<le> GetPathElementCount (snd (ps ! k))"
    using GetBestTargetMatch_Some [of q ps 0 k] k(1) by auto
  show ?thesis unfolding target_longest [OF assms(1,3)]
  proof
    assume "GetBestTargetMatch q ps 0 = Some i"
    then show "\<forall>j < length ps. HasPrefix q (snd (ps ! j)) \<longrightarrow> GetPathElementCount (snd (ps ! j)) \<le> length t"
      using k2(3) k(1) count by auto
  next
    assume "\<forall>j < length ps. HasPrefix q (snd (ps ! j)) \<longrightarrow> GetPathElementCount (snd (ps ! j)) \<le> length t"
    then have "GetPathElementCount (snd (ps ! k)) = length t" using k(2) k2(1,2) by (simp add: order_antisym)
    moreover obtain x where "key (snd (ps ! k)) = Some x" "prefix x (prim_part q)"
      using HasPrefix_side [OF assms(3)] nth_is_side [OF assms(1) k2(1)] k2(2) by blast
    ultimately have "key (snd (ps ! k)) = key (snd (ps ! i))"
      using key_side nth_is_side [OF assms(1) k2(1)] assms(5) same_length_prefixes [OF assms(6)] by metis
    then have "k = i" using pair_unique [OF assms(1,2) k2(1) assms(4)] assms(5) by simp
    then show "GetBestTargetMatch q ps 0 = Some i" using k(1) by simp
  qed
qed

lemma absolute_ok_eq: "absolute_ok env p \<Longrightarrow> p = SdfPath AbsoluteRoot (prim_part p) (prop_part p)"
  by (cases p) (simp add: absolute_ok_def)

lemma HasPrefix_absolute:
  "HasPrefix (SdfPath AbsoluteRoot x ps) (SdfPath AbsoluteRoot s []) \<longleftrightarrow> prefix s x"
  by (simp add: HasPrefix_iff IsEmpty_def prim_handle_def null_prim_handle_def)

lemma matched_entry:
  assumes "map_pairs_ok env ps" "absolute_ok env p" "absolute_ok env q" "i < length ps"
  shows "matched ps root (Some i) p q \<longleftrightarrow> prop_part q = prop_part p \<and>
    (\<exists>s t x. key (fst (ps ! i)) = Some s \<and> key (snd (ps ! i)) = Some t \<and> prim_part p = s @ x \<and> prim_part q = t @ x)"
proof -
  have side: "is_side (fst (ps ! i))" "is_side (snd (ps ! i))" using nth_is_side [OF assms(1,4)] by auto
  have empty: "\<not> IsEmpty p' \<longleftrightarrow> (\<exists>s. key p' = Some s)" for p' by (simp add: key_def)
  show ?thesis
    using absolute_ok_eq [OF assms(2)] absolute_ok_eq [OF assms(3)] key_side [OF side(1)] key_side [OF side(2)] assms(4)
    unfolding matched_def empty
    by (cases p; cases q) (auto simp: mapped_def HasPrefix_absolute prefix_def)
qed

lemma root_prefix:
  assumes "absolute_ok env p" "is_side s" "HasPrefix p s" "GetPathElementCount s \<le> 0"
  shows "key s = Some []"
  using HasPrefix_side [OF assms(1,2)] assms(3,4) key_side [OF assms(2)] by auto

text \<open>\<open>_Map\<close> implements the partial bijection.\<close>

lemma Map_maps:
  assumes "map_pairs_ok env ps" "entries_ok (entries ps root)" "absolute_ok env p" "absolute_ok env q"
  shows "Map env p ps root False = q \<longleftrightarrow>
    prop_part q = prop_part p \<and> maps (entries ps root) (prim_part p) (prim_part q)"
proof -
  have ok: "list_all (pair_ok env) ps" "source_sorted ps" using assms(1) by (simp_all add: map_pairs_ok_def)
  let ?E = "entries ps root" and ?b = "GetBestSourceMatch p ps 0"
  have entry: "matched ps root (Some i) p q \<and> ?b = Some i \<and> GetBestTargetMatch q ps 0 = Some i \<longleftrightarrow>
      prop_part q = prop_part p \<and> (\<exists>s t x. key (fst (ps ! i)) = Some s \<and> key (snd (ps ! i)) = Some t
        \<and> prim_part p = s @ x \<and> prim_part q = t @ x
        \<and> longest (fst ` ?E) (prim_part p) s \<and> longest (snd ` ?E) (prim_part q) t)" if "i < length ps" for i
    using matched_entry [OF assms(1,3,4) that] best_source [OF assms(1-3) that] best_target [OF assms(1,2,4) that]
    by (auto simp: prefix_def)
  show ?thesis unfolding Map_forward [OF ok assms(3,4)]
  proof
    assume m: "matched ps root ?b p q \<and> GetBestTargetMatch q ps 0 = ?b"
    show "prop_part q = prop_part p \<and> maps ?E (prim_part p) (prim_part q)"
    proof (cases ?b)
      case (Some i)
      then have i: "i < length ps" using m by (simp add: matched_def)
      then show ?thesis using entry [OF i] m Some entries_nth [OF i, of root] by (auto simp: maps_def) metis
    next
      case None
      then have root: "root" "q = p" using m by (auto simp: matched_def)
      have "\<not> HasPrefix p (fst (ps ! i))" "\<not> HasPrefix q (snd (ps ! i))" if "i < length ps" for i
        using GetBestSourceMatch_exists [OF ok(2) that] GetBestTargetMatch_exists [OF that] None m by fastforce+
      then have "longest (fst ` ?E) (prim_part p) []" "longest (snd ` ?E) (prim_part q) []"
        unfolding source_longest [OF assms(1,3)] target_longest [OF assms(1,4)] by auto
      then show ?thesis using root mapsI [of "[]" "[]" ?E "prim_part p"] by (simp add: entries_def)
    qed
  next
    assume q: "prop_part q = prop_part p \<and> maps ?E (prim_part p) (prim_part q)"
    then obtain s t x where m: "(Some s, Some t) \<in> ?E" "prim_part p = s @ x" "prim_part q = t @ x"
      "longest (fst ` ?E) (prim_part p) s" "longest (snd ` ?E) (prim_part q) t" by (auto simp: maps_def)
    show "matched ps root ?b p q \<and> GetBestTargetMatch q ps 0 = ?b"
    proof (cases "\<exists>i < length ps. key (fst (ps ! i)) = Some s \<and> key (snd (ps ! i)) = Some t")
      case True
      then show ?thesis using entry m q by metis
    next
      case False
      then have "\<not> (Some s, Some t) \<in> (\<lambda>(s, t). (key s, key t)) ` set ps"
        by (auto simp: in_set_conv_nth split: prod.splits) (metis fst_conv snd_conv)
      then have root: "root" "s = []" "t = []" using m(1) by (auto simp: entries_def split: if_splits)
      have E: "(Some [], Some []) \<in> ?E" using root by (simp add: entries_def)
      have "?b = None"
      proof (cases ?b)
        case (Some k)
        then have k: "k < length ps" "HasPrefix p (fst (ps ! k))"
          using GetBestSourceMatch_Some [OF ok(2), of p 0 k] by auto
        have "GetPathElementCount (fst (ps ! k)) \<le> 0"
          using m(4) k unfolding root(2) source_longest [OF assms(1,3)] by auto
        then have "key (fst (ps ! k)) = Some []"
          using root_prefix [OF assms(3) _ k(2)] nth_is_side [OF assms(1) k(1)] by blast
        then show ?thesis
          using entries_ok_source [OF assms(2), of "[]"] entries_nth [OF k(1), of root] E False k(1) root by metis
      qed simp
      moreover have "GetBestTargetMatch q ps 0 = None"
      proof (cases "GetBestTargetMatch q ps 0")
        case (Some k)
        then have k: "k < length ps" "HasPrefix q (snd (ps ! k))"
          using GetBestTargetMatch_Some [of q ps 0 k] by auto
        have "GetPathElementCount (snd (ps ! k)) \<le> 0"
          using m(5) k unfolding root(3) target_longest [OF assms(1,4)] by auto
        then have "key (snd (ps ! k)) = Some []"
          using root_prefix [OF assms(4) _ k(2)] nth_is_side [OF assms(1) k(1)] by blast
        then show ?thesis
          using entries_ok_target [OF assms(2), of _ "[]"] entries_nth [OF k(1), of root] E False k(1) root by metis
      qed simp
      moreover have "q = p"
        using q m(2,3) root assms(3,4) by (cases p; cases q) (auto simp: absolute_ok_def)
      ultimately show ?thesis using root by (simp add: matched_def)
    qed
  qed
qed

text \<open>A map function that is a partial bijection.\<close>

definition map_function_ok :: "path_env \<Rightarrow> 'o PcpMapFunction \<Rightarrow> bool" where
  "map_function_ok env f \<longleftrightarrow> map_pairs_ok env (pairs f) \<and> entries_ok (entries (pairs f) (hasRootIdentity f))"

definition function_entries :: "'o PcpMapFunction \<Rightarrow> prim_node entry set" where
  "function_entries f = entries (pairs f) (hasRootIdentity f)"

lemma Map_function_maps1:
  assumes "map_function_ok env f" "absolute_ok env p" "absolute_ok env q"
  shows "MapSourceToTarget env f p = q \<longleftrightarrow>
    prop_part q = prop_part p \<and> maps (function_entries f) (prim_part p) (prim_part q)"
  using assms unfolding MapSourceToTarget_def function_entries_def map_function_ok_def
  by (intro Map_maps) simp_all

lemma Map_function_maps2:
  assumes "map_function_ok env f" "absolute_ok env p" "absolute_ok env q"
  shows "MapTargetToSource env f q = p \<longleftrightarrow>
    prop_part q = prop_part p \<and> maps (function_entries f) (prim_part p) (prim_part q)"
proof -
  have ok: "list_all (pair_ok env) (pairs f)" "source_sorted (pairs f)" "map_pairs_ok env (pairs f)"
    "entries_ok (entries (pairs f) (hasRootIdentity f))"
    using assms(1) by (simp_all add: map_function_ok_def map_pairs_ok_def)
  show ?thesis
    unfolding MapTargetToSource_def function_entries_def Map_maps [OF ok(3,4) assms(2,3), symmetric]
      Map_forward [OF ok(1,2) assms(2,3)] Map_inverse [OF ok(1,2) assms(2,3)] by auto
qed

lemmas Map_function_maps = Map_function_maps1 Map_function_maps2

text \<open>C2: On well-formed absolute paths \<open>MapSourceToTarget\<close> implements the partial bijection of the pairs
  and the root identity: the entry with the longest source prefix of the path exchanges that
  prefix, if it also is the entry with the longest target prefix of the result; the property
  part stays.\<close>

theorem MapSourceToTarget_maps:
  assumes "map_function_ok env f" "absolute_ok env p" "absolute_ok env q"
  shows "MapSourceToTarget env f p = q \<longleftrightarrow>
    prop_part q = prop_part p \<and> maps (function_entries f) (prim_part p) (prim_part q)"
  using Map_function_maps1 [OF assms] .

section \<open>The inverse function\<close>

lemma comparator_PathPairOrder:
  assumes "comparator fless"
  shows "comparator (PathPairOrder fless)"
proof (rule comparator.intro)
  note facts = comparator.irrefl [OF assms] comparator.total [OF assms]
  show "\<not> PathPairOrder fless x x" for x by (simp add: PathPairOrder_def facts(1))
  show "x \<noteq> y \<Longrightarrow> PathPairOrder fless x y \<or> PathPairOrder fless y x" for x y
    using facts(2) [of "fst x" "fst y"] facts(2) [of "snd x" "snd y"]
    by (cases "fst x = fst y") (auto simp: PathPairOrder_def prod_eq_iff)
  show "PathPairOrder fless x y \<Longrightarrow> PathPairOrder fless y z \<Longrightarrow> PathPairOrder fless x z" for x y z
    using comparator.trans [OF assms, of "fst x" "fst y" "fst z"]
      comparator.trans [OF assms, of "snd x" "snd y" "snd z"]
    by (auto simp: PathPairOrder_def split: if_splits)
qed

lemma PathPairOrder_count: "\<not> PathPairOrder fless y x \<Longrightarrow> GetPathElementCount (fst x) \<le> GetPathElementCount (fst y)"
  by (auto simp: PathPairOrder_def split: if_splits)

lemma source_sorted_std_sort:
  assumes "comparator fless"
  shows "source_sorted (std_sort (PathPairOrder fless) ps)"
  unfolding source_sorted_def
  using comparator.sorted_std_sort [OF comparator_PathPairOrder [OF assms]] PathPairOrder_count
  by (rule sorted_wrt_mono_rel [rotated]) blast

lemma GetInverse_ok:
  assumes "comparator fless" "map_function_ok env f"
  shows "map_function_ok env (GetInverse ops fless f) \<and>
    function_entries (GetInverse ops fless f) = converse (function_entries f)"
proof -
  let ?swap = "map (\<lambda>(s, t). (t, s)) (pairs f)"
  have "list_all (pair_ok env) ?swap" "distinct ?swap"
    using assms(2) by (auto simp: map_function_ok_def map_pairs_ok_def list_all_iff pair_ok_swap
        distinct_map inj_on_def)
  then have pairs: "map_pairs_ok env (pairs (GetInverse ops fless f))"
    using source_sorted_std_sort [OF assms(1)] by (simp add: GetInverse_def map_pairs_ok_def list_all_iff)
  have "entries (std_sort (PathPairOrder fless) ?swap) root = entries ?swap root" for root
    by (simp add: entries_def)
  then have "function_entries (GetInverse ops fless f) = converse (function_entries f)"
    by (simp add: function_entries_def GetInverse_def entries_swap)
  then show ?thesis
    using pairs assms(2) entries_ok_converse [of "function_entries f"]
    by (simp add: map_function_ok_def function_entries_def)
qed

lemma GetInverse_maps:
  assumes "comparator fless" "map_function_ok env f" "absolute_ok env p" "absolute_ok env q"
  shows "(MapSourceToTarget env (GetInverse ops fless f) q = p \<longleftrightarrow> MapTargetToSource env f q = p)
    \<and> (MapTargetToSource env (GetInverse ops fless f) p = q \<longleftrightarrow> MapSourceToTarget env f p = q)"
proof -
  have inv: "map_function_ok env (GetInverse ops fless f)"
    "function_entries (GetInverse ops fless f) = converse (function_entries f)"
    using GetInverse_ok [OF assms(1,2), of ops] by auto
  note f = Map_function_maps [OF assms(2-4)]
  show ?thesis
    unfolding f Map_function_maps [OF inv(1) assms(4,3)] inv(2) maps_converse by auto
qed

text \<open>The inverse of a map function maps sources to targets as the function maps targets to
  sources.\<close>

theorem GetInverse_maps_back:
  assumes "comparator fless" "map_function_ok env f" "absolute_ok env p" "absolute_ok env q"
  shows "(MapSourceToTarget env (GetInverse ops fless f) q = p \<longleftrightarrow> MapTargetToSource env f q = p)
    \<and> (MapTargetToSource env (GetInverse ops fless f) p = q \<longleftrightarrow> MapSourceToTarget env f p = q)"
  using GetInverse_maps [OF assms] .

end
