(* ===== verification/Pcp_MapCanonical.thy ===== *)
theory Pcp_MapCanonical
  imports Pcp_MapSpec
begin

text \<open>
  Canonicalization of the pairs of a map function (\<open>_IsRedundant\<close> and \<open>_Canonicalize\<close> of
  \<open>pxr/usd/pcp/mapFunction.cpp\<close>): which redundant pairs can be removed without a change of the
  mapping, as the code intends, and two cases where the mapping changes.
\<close>

section \<open>Removing an entry from the list\<close>

definition without :: "nat \<Rightarrow> 'a list \<Rightarrow> 'a list" where
  "without i xs = take i xs @ drop (i + 1) xs"

lemma set_without:
  assumes "distinct xs" "i < length xs"
  shows "set (without i xs) = set xs - {xs ! i}"
proof -
  have xs: "xs = take i xs @ xs ! i # drop (i + 1) xs" using id_take_nth_drop [OF assms(2)] by simp
  then have "set xs = insert (xs ! i) (set (without i xs))"
    unfolding without_def by (metis Un_insert_right list.simps(15) set_append)
  moreover have "distinct (take i xs @ xs ! i # drop (i + 1) xs)" using xs assms(1) by simp
  then have "xs ! i \<notin> set (without i xs)" by (simp add: without_def)
  ultimately show ?thesis by blast
qed

lemma map_pairs_ok_without:
  assumes "map_pairs_ok env ps"
  shows "map_pairs_ok env (without i ps)"
proof -
  have "sorted_wrt R (without i xs)" if "sorted_wrt R xs" for R and xs :: "path_pair list"
  proof -
    have "sorted_wrt R (take i xs)" "sorted_wrt R (drop (i + 1) xs)"
      using that by (rule sorted_wrt_take, rule sorted_wrt_drop)
    moreover have "R x y" if "x \<in> set (take i xs)" "y \<in> set (drop (i + 1) xs)" for x y
    proof -
      have "y \<in> set (drop i xs)" using that(2) set_drop_subset_set_drop [of i "i + 1" xs] by auto
      then show ?thesis using \<open>sorted_wrt R xs\<close> that(1)
        by (metis append_take_drop_id sorted_wrt_append)
    qed
    ultimately show ?thesis by (simp add: without_def sorted_wrt_append)
  qed
  then have "source_sorted (without i ps)" using assms by (simp add: map_pairs_ok_def source_sorted_def)
  moreover have "distinct (without i ps)"
    using assms distinct_take distinct_drop set_take_disj_set_drop_if_distinct [of ps i "i + 1"]
    by (auto simp: map_pairs_ok_def without_def)
  ultimately show ?thesis
    using assms by (auto simp: map_pairs_ok_def without_def list_all_iff dest: in_set_takeD in_set_dropD)
qed

lemma image_remove:
  assumes "\<And>b. b \<in> A \<Longrightarrow> f b = f a \<Longrightarrow> b = a"
  shows "f ` (A - {a}) = f ` A - {f a}"
proof
  show "f ` (A - {a}) \<subseteq> f ` A - {f a}"
  proof
    fix y assume "y \<in> f ` (A - {a})"
    then obtain b where b: "b \<in> A" "b \<noteq> a" "y = f b" by auto
    then have "f b \<noteq> f a" using assms [of b] by auto
    then show "y \<in> f ` A - {f a}" using b by auto
  qed
qed auto

lemma entries_without:
  assumes "map_pairs_ok env ps" "i < length ps"
  shows "entries (without i ps) False = entries ps False - {(key (fst (ps ! i)), key (snd (ps ! i)))}"
proof -
  let ?f = "\<lambda>(s, t). (key s, key t)"
  have "pr = ps ! i" if "pr \<in> set ps" "?f pr = ?f (ps ! i)" for pr
  proof (rule prod_eqI)
    have side: "is_side (fst pr)" "is_side (snd pr)"
      using set_is_side [OF assms(1), of "fst pr" "snd pr"] that(1) by simp_all
    note side' = nth_is_side [OF assms]
    have keys: "key (fst pr) = key (fst (ps ! i))" "key (snd pr) = key (snd (ps ! i))"
      using that(2) by (simp_all add: case_prod_beta)
    show "fst pr = fst (ps ! i)" by (rule key_inj [OF side(1) conjunct1 [OF side'] keys(1)])
    show "snd pr = snd (ps ! i)" by (rule key_inj [OF side(2) conjunct2 [OF side'] keys(2)])
  qed
  then have "?f ` (set ps - {ps ! i}) = ?f ` set ps - {?f (ps ! i)}" by (rule image_remove)
  then show ?thesis
    using set_without [of ps i] assms by (simp add: entries_def map_pairs_ok_def case_prod_beta)
qed

lemma entries_ok_subset: "entries_ok E \<Longrightarrow> F \<subseteq> E \<Longrightarrow> entries_ok F"
  unfolding entries_ok_def by blast

section \<open>Redundant entries\<close>

text \<open>The code compares names. Only prims are determined by their names, a variant selection has the
  name of its variant; so the pairs are taken to have no variant selections.\<close>

definition plain_side :: "sdf_path \<Rightarrow> bool" where
  "plain_side p \<longleftrightarrow> \<not> nodes_ContainsPrimVariantSelection (prim_part p)"

definition plain_pairs :: "path_pair list \<Rightarrow> bool" where
  "plain_pairs ps \<longleftrightarrow> list_all (\<lambda>(s, t). plain_side s \<and> plain_side t) ps"

lemma GetParentPath_side:
  "is_side p \<Longrightarrow> is_side (GetParentPath p) \<and>
    key (GetParentPath p) = (case key p of None \<Rightarrow> None | Some xs \<Rightarrow> if xs = [] then None else Some (butlast xs))"
  by (cases p) (auto simp: is_side_def GetParentPath_def key_def IsEmpty_def EmptyPath_def prim_handle_def
      null_prim_handle_def path_of_handle_def)

lemma absolute_ok_parent:
  assumes "absolute_ok env p" "prop_part p = []" "prim_part p \<noteq> []"
  shows "absolute_ok env (GetParentPath p)"
    and "GetParentPath p = SdfPath AbsoluteRoot (butlast (prim_part p)) []"
proof -
  have root: "path_root p = AbsoluteRoot" and ok: "path_ok env p" using assms(1) by (auto simp: absolute_ok_def)
  show parent: "GetParentPath p = SdfPath AbsoluteRoot (butlast (prim_part p)) []"
    using assms(2,3) root
    by (cases p) (simp add: GetParentPath_def IsEmpty_def prim_handle_def null_prim_handle_def path_of_handle_def)
  have "prims_ok env AbsoluteRoot (butlast (prim_part p) @ [last (prim_part p)])"
    using ok root assms(3) by (simp add: path_ok_iff)
  then show "absolute_ok env (GetParentPath p)"
    unfolding parent by (auto simp: absolute_ok_def prims_path_ok dest: prims_ok_butlast)
qed

text \<open>Names of prims without variant selections.\<close>

lemma GetNameToken_side:
  "is_side p \<Longrightarrow> key p = Some (xs @ [x]) \<Longrightarrow> GetNameToken p = prim_node_name x"
  by (cases p) (auto simp: is_side_def key_def GetNameToken_def prim_handle_name_def prim_handle_def
      IsEmpty_def EmptyPath_def null_prim_handle_def split: if_splits)

lemma same_name: "\<not> is_variant_selection x \<Longrightarrow> \<not> is_variant_selection y \<Longrightarrow>
    prim_node_name x = prim_node_name y \<Longrightarrow> x = y"
  by (cases x; cases y) auto

lemma parent_key:
  assumes "is_side p"
  shows "key (GetParentPath p) = Some v \<longleftrightarrow> (\<exists>z. key p = Some (v @ [z]))"
proof (cases "key p")
  case (Some xs)
  then show ?thesis using GetParentPath_side [OF assms] by (cases xs rule: rev_cases) auto
qed (use GetParentPath_side [OF assms] in simp)

lemma plain_key: "plain_side p \<Longrightarrow> key p = Some (v @ [z]) \<Longrightarrow> \<not> is_variant_selection z"
  by (auto simp: plain_side_def key_def nodes_ContainsPrimVariantSelection_def split: if_splits)

lemma plain_parent: "is_side p \<Longrightarrow> plain_side p \<Longrightarrow> plain_side (GetParentPath p)"
  by (cases p) (auto simp: is_side_def plain_side_def GetParentPath_def IsEmpty_def EmptyPath_def prim_handle_def
      null_prim_handle_def path_of_handle_def nodes_ContainsPrimVariantSelection_def list_ex_iff dest: in_set_butlastD)

text \<open>The loop over the ancestors strips the same nodes off both paths.\<close>

lemma ancestor_loop_Some:
  assumes "ancestor_loop k sa ta stop = Some r" "key stop = Some x" "key r = Some y"
    and "is_side sa" "is_side ta" "plain_side sa" "plain_side ta"
  shows "\<exists>w. key sa = Some (x @ w) \<and> key ta = Some (y @ w)"
  using assms(1,4-7)
proof (induction k arbitrary: sa ta)
  case 0
  then show ?case using assms(2,3) by (auto split: if_splits)
next
  case (Suc k)
  show ?case
  proof (cases "sa = stop")
    case True
    then show ?thesis using Suc.prems assms(2,3) by auto
  next
    case False
    then have names: "GetNameToken sa = GetNameToken ta"
      and loop: "ancestor_loop k (GetParentPath sa) (GetParentPath ta) stop = Some r"
      using Suc.prems(1) by (auto split: if_splits)
    obtain w where w: "key (GetParentPath sa) = Some (x @ w)" "key (GetParentPath ta) = Some (y @ w)"
      using Suc.IH [OF loop] Suc.prems(2-5) GetParentPath_side plain_parent by blast
    then obtain z u where zu: "key sa = Some ((x @ w) @ [z])" "key ta = Some ((y @ w) @ [u])"
      using parent_key [OF Suc.prems(2)] parent_key [OF Suc.prems(3)] by blast
    then have "z = u"
      using names same_name plain_key GetNameToken_side Suc.prems(2-5) by metis
    with zu show ?thesis by auto
  qed
qed

text \<open>The number of steps given is enough, the loop does not stop before it reaches the ancestor.\<close>

lemma ancestor_loop_enough:
  assumes "key sa = Some (x @ w)" "key stop = Some x" "is_side sa" "is_side stop" "length w \<le> k" "length w \<le> k'"
  shows "ancestor_loop k sa ta stop = ancestor_loop k' sa ta stop"
  using assms(1,3,5,6)
proof (induction k arbitrary: sa ta w k')
  case 0
  then have "key sa = key stop" using assms(2) by simp
  then have "sa = stop" by (rule key_inj [OF 0(2) assms(4)])
  then show ?case by (cases k') auto
next
  case (Suc k)
  show ?case
  proof (cases w rule: rev_cases)
    case Nil
    then have "key sa = key stop" using assms(2) Suc.prems(1) by simp
    then have "sa = stop" by (rule key_inj [OF Suc.prems(2) assms(4)])
    then show ?thesis by (cases k') auto
  next
    case (snoc w' z)
    then obtain k'' where k'': "k' = Suc k''" using Suc.prems(4) by (cases k') auto
    have parent: "key (GetParentPath sa) = Some (x @ w')"
      using parent_key [OF Suc.prems(2)] Suc.prems(1) snoc by simp
    have side: "is_side (GetParentPath sa)" using GetParentPath_side [OF Suc.prems(2)] by blast
    have "ancestor_loop k (GetParentPath sa) t stop = ancestor_loop k'' (GetParentPath sa) t stop" for t
      by (rule Suc.IH [OF parent side]) (use Suc.prems(3,4) snoc k'' in simp_all)
    then show ?thesis by (simp add: k'')
  qed
qed

text \<open>The facts about an entry and the best match above its source.\<close>

lemma nth_entry: "map_pairs_ok env ps \<Longrightarrow> k < length ps \<Longrightarrow> key (fst (ps ! k)) = Some s \<Longrightarrow> key (snd (ps ! k)) = Some t \<Longrightarrow>
    (Some s, Some t) \<in> entries ps root"
  using entries_nth [of k ps root] by simp

lemma GetBestSourceMatch_Empty:
  assumes "source_sorted ps"
  shows "GetBestSourceMatch EmptyPath ps m = None"
proof (cases "GetBestSourceMatch EmptyPath ps m")
  case (Some i)
  then show ?thesis using GetBestSourceMatch_Some [OF assms, of EmptyPath m i] by (simp add: HasPrefix_iff path_queries)
qed simp

lemma parent_of_entry:
  assumes "map_pairs_ok env ps" "i < length ps" "GetBestSourceMatch (GetParentPath (fst (ps ! i))) ps 0 = Some k"
  shows "absolute_ok env (fst (ps ! i)) \<and> prim_part (fst (ps ! i)) \<noteq> [] \<and> prop_part (fst (ps ! i)) = []
    \<and> map_side env (snd (ps ! i))"
proof -
  have sorted: "source_sorted ps" using assms(1) by (simp add: map_pairs_ok_def)
  have ne: "GetParentPath (fst (ps ! i)) \<noteq> EmptyPath"
    using assms(3) GetBestSourceMatch_Empty [OF sorted] by auto
  have "GetParentPath AbsoluteRootPath = EmptyPath"
    by (simp add: GetParentPath_def path_queries path_of_handle_def)
  with ne have "fst (ps ! i) \<noteq> AbsoluteRootPath" "fst (ps ! i) \<noteq> EmptyPath" by auto
  then show ?thesis using nth_pair_ok [OF assms(1,2)] by (auto simp: pair_ok_def map_side_def absolute_ok_def)
qed

lemma maps_remove_none: "maps (E - {(None, None)}) p r \<longleftrightarrow> maps E p r"
proof -
  have "Some x \<in> fst ` (E - {(None, None)}) \<longleftrightarrow> Some x \<in> fst ` E"
    "Some x \<in> snd ` (E - {(None, None)}) \<longleftrightarrow> Some x \<in> snd ` E" for x by force+
  then show ?thesis by (simp add: maps_def longest_def)
qed

text \<open>The best matches of the code, given by keys.\<close>

lemma best_source_key:
  assumes "map_pairs_ok env ps" "absolute_ok env p" "GetBestSourceMatch p ps 0 = Some k"
  shows "k < length ps \<and> (\<exists>s. key (fst (ps ! k)) = Some s \<and> prefix s (prim_part p))"
proof -
  have k: "k < length ps" "HasPrefix p (fst (ps ! k))"
    using GetBestSourceMatch_Some [of ps p 0 k] assms(1,3) by (auto simp: map_pairs_ok_def)
  then show ?thesis using HasPrefix_side [OF assms(2)] nth_is_side [OF assms(1) k(1)] by blast
qed

lemma no_better_target:
  assumes "map_pairs_ok env ps" "entries_ok (entries ps root)" "absolute_ok env q" "k < length ps"
    and "key (snd (ps ! k)) = Some t" "prefix t (prim_part q)"
  shows "HasBetterTargetMatch q ps (Some k) False \<longleftrightarrow> \<not> longest (snd ` entries ps root) (prim_part q) t"
proof -
  have "HasPrefix q (snd (ps ! k))"
    using HasPrefix_side [OF assms(3)] nth_is_side [OF assms(1,4)] assms(5,6) by blast
  then obtain m where "GetBestTargetMatch q ps 0 = Some m"
    "GetPathElementCount (snd (ps ! k)) \<le> GetPathElementCount (snd (ps ! m))"
    using GetBestTargetMatch_exists [OF assms(4)] by blast
  then show ?thesis
    using GetBestTargetMatch_min [of q ps "GetPathElementCount (snd (ps ! k))" m] best_target [OF assms]
    by (auto simp: HasBetterTargetMatch_def Let_def)
qed

lemma key_prim: "key p = Some x \<Longrightarrow> prim_part p = x"
  by (simp add: key_def split: if_splits)

lemma parent_power:
  "is_side p \<Longrightarrow> key p = Some (x @ w) \<Longrightarrow>
    is_side ((GetParentPath ^^ length w) p) \<and> key ((GetParentPath ^^ length w) p) = Some x"
proof (induction w arbitrary: p rule: rev_induct)
  case (snoc z w)
  then have "key (GetParentPath p) = Some (x @ w)" using parent_key [of p "x @ w"] by simp
  then show ?case
    using snoc.IH [of "GetParentPath p"] snoc.prems(1) GetParentPath_side [of p]
    by (simp add: funpow_Suc_right del: funpow.simps(2))
qed simp


lemma redundant_block:
  assumes ok: "map_pairs_ok env ps" "entries_ok (entries ps False)" "i < length ps"
    and red: "IsRedundant env i ps" and block: "IsEmpty (snd (ps ! i))"
  shows "maps (entries (without i ps) False) p r \<longleftrightarrow> maps (entries ps False) p r"
proof -
  obtain s0 t0 where st: "ps ! i = (s0, t0)" by fastforce
  have t0: "key t0 = None" using block st by (simp add: key_def)
  show ?thesis
  proof (cases "key s0")
    case None
    then show ?thesis using entries_without [OF ok(1,3)] st t0 maps_remove_none by simp
  next
    case (Some x0)
    have "(Some x0, None) \<in> entries ps False" using entries_nth [OF ok(3), of False] st t0 Some by simp
    moreover have False
      if e: "(Some s, Some t) \<in> entries ps False" and z: "x0 = s @ z" "z \<noteq> []"
        and l: "longest (fst ` entries ps False) (butlast x0) s" "longest (snd ` entries ps False) (t @ z) t" for s t z
    proof -
      obtain k where k: "k < length ps" "key (fst (ps ! k)) = Some s" "key (snd (ps ! k)) = Some t"
        using e by (auto simp: entries_def in_set_conv_nth split: prod.splits)
      have pair0: "pair_ok env (s0, t0)" using nth_pair_ok [OF ok(1,3)] st by simp
      have e0: "IsEmpty t0" using block st by simp
      have "\<not> IsEmpty AbsoluteRootPath" by (simp add: path_queries)
      then have sides: "map_side env s0" "map_side env t0" using pair0 e0 by (auto simp: pair_ok_def)
      have side: "map_side env s0" "s0 = SdfPath AbsoluteRoot x0 []" "t0 = EmptyPath"
        using sides(1) key_side [OF map_side_is_side [OF sides(1)] Some] IsEmpty_side [OF sides(2)] e0 by blast+
      have s0: "absolute_ok env s0" "prim_part s0 = x0" "prop_part s0 = []"
        using side by (auto simp: map_side_def absolute_ok_def EmptyPath_def)
      have parent: "absolute_ok env (GetParentPath s0)" "prim_part (GetParentPath s0) = butlast x0"
        using absolute_ok_parent [OF s0(1,3)] s0(2) z by auto
      have pre: "prefix s (butlast x0)" using z by (simp add: butlast_append)
      have best: "GetBestSourceMatch (GetParentPath s0) ps 0 = Some k"
        using best_source [OF ok(1,2) parent(1) k(1,2)] pre l(1) parent(2) by simp
      have pair: "pair_ok env (fst (ps ! k), snd (ps ! k))" by (rule nth_pair_ok [OF ok(1) k(1)])
      have target: "\<not> IsEmpty (snd (ps ! k))" using k(3) by (simp add: key_def split: if_splits)
      have "HasPrefix s0 (fst (ps ! k))"
        using HasPrefix_side [OF s0(1)] nth_is_side [OF ok(1) k(1)] k(2) s0(2) z by auto
      then have m: "ReplacePrefix env s0 (fst (ps ! k)) (snd (ps ! k)) True = mapped (fst (ps ! k)) (snd (ps ! k)) s0"
        "absolute_ok env (mapped (fst (ps ! k)) (snd (ps ! k)) s0)"
        using ReplacePrefix_mapped_targets [OF s0(1) pair _ target, of True] s0(3) by auto
      have tz: "prim_part (mapped (fst (ps ! k)) (snd (ps ! k)) s0) = t @ z"
        using key_prim [OF k(2)] key_prim [OF k(3)] s0(2) z by (simp add: mapped_def)
      have "\<not> HasBetterTargetMatch (mapped (fst (ps ! k)) (snd (ps ! k)) s0) ps (Some k) False"
        using no_better_target [OF ok(1,2) m(2) k(1,3)] tz l(2) by simp
      then show False using red st best block target m(1) by (simp add: IsRedundant_def Let_def)
    qed
    ultimately have "maps (entries ps False - {(Some x0, None)}) p r \<longleftrightarrow> maps (entries ps False) p r"
      by (rule maps_remove_block)
    then show ?thesis using entries_without [OF ok(1,3)] st t0 Some by simp
  qed
qed

text \<open>An identity entry is taken to be redundant below the root identity. That it is takes that no other
  entry has a target in between.\<close>

definition shadow_free :: "path_pair list \<Rightarrow> bool" where
  "shadow_free ps \<longleftrightarrow>
     (AbsoluteRootPath, AbsoluteRootPath) \<in> set ps \<longrightarrow>
       list_all (\<lambda>(s, t). s = t \<longrightarrow>
         list_all (\<lambda>(s', t'). HasPrefix s t' \<and> t' \<noteq> s \<and> t' \<noteq> AbsoluteRootPath \<longrightarrow> s' = t') ps) ps"

lemma shadow_freeD:
  assumes "shadow_free ps" "(AbsoluteRootPath, AbsoluteRootPath) \<in> set ps" "(s, s) \<in> set ps" "(s', t') \<in> set ps"
    and "HasPrefix s t'" "t' \<noteq> s" "t' \<noteq> AbsoluteRootPath"
  shows "s' = t'"
  using assms unfolding shadow_free_def list_all_iff by fast

lemma redundant_identity:
  assumes ok: "map_pairs_ok env ps" "entries_ok (entries ps False)" "i < length ps" "shadow_free ps"
    and k: "k < length ps" "ps ! k = (AbsoluteRootPath, AbsoluteRootPath)"
    and s: "ps ! i = (s, s)" "absolute_ok env s" "prop_part s = []" "prim_part s = x" "x \<noteq> []"
    and l: "longest (fst ` entries ps False) (butlast x) []"
  shows "extends (entries ps False) x x [] []"
proof -
  have root: "key AbsoluteRootPath = Some []" by (simp add: key_def path_queries)
  have mem: "(Some [], Some []) \<in> entries ps False" using entries_nth [OF k(1), of False] k(2) root by simp
  have "length t \<le> 0" if e: "(s', Some t) \<in> entries ps False" "prefix t (butlast x)" for s' t
  proof (rule ccontr)
    assume t: "\<not> length t \<le> 0"
    obtain sp tp where p: "(sp, tp) \<in> set ps" "key sp = s'" "key tp = Some t"
      using e(1) by (auto simp: entries_def)
    have side: "is_side sp" "is_side tp" using set_is_side [OF ok(1) p(1)] by blast+
    have "prefix t x" using e(2) prefixeq_butlast [of x] by (rule prefix_order.trans)
    then have "HasPrefix s tp" using HasPrefix_side [OF s(2) side(2)] p(3) s(4) by blast
    moreover have "tp \<noteq> s"
      using key_prim [OF p(3)] s(4) prefix_length_le [OF e(2)] t s(5) by (cases x rule: rev_cases) auto
    moreover have "tp \<noteq> AbsoluteRootPath" using p(3) t root by auto
    moreover have "(AbsoluteRootPath, AbsoluteRootPath) \<in> set ps" "(s, s) \<in> set ps"
      using nth_mem [OF k(1)] nth_mem [OF ok(3)] k(2) s(1) by simp_all
    ultimately have "sp = tp" using shadow_freeD [OF ok(4)] p(1) by blast
    then have "Some t \<in> fst ` entries ps False" using e(1) p(2,3) by force
    then show False using longestD [OF l _ e(2)] t by simp
  qed
  then have "longest (snd ` entries ps False) (butlast x) []" unfolding longest_target by simp
  then show ?thesis using mem l s(5) by (simp add: extends_def)
qed

lemma root_side: "is_side p \<Longrightarrow> IsAbsoluteRootPath p \<Longrightarrow> p = AbsoluteRootPath"
  by (cases p) (auto simp: is_side_def path_queries EmptyPath_def AbsoluteRootPath_def)

lemma redundant_extends:
  assumes ok: "map_pairs_ok env ps" "entries_ok (entries ps False)" "i < length ps" "plain_pairs ps" "shadow_free ps"
    and red: "IsRedundant env i ps" and st: "ps ! i = (s0, t0)" "\<not> IsEmpty t0"
  shows "\<exists>x0 y0 s t. key s0 = Some x0 \<and> key t0 = Some y0 \<and> extends (entries ps False) x0 y0 s t"
proof -
  obtain k where k: "GetBestSourceMatch (GetParentPath s0) ps 0 = Some k" "\<not> IsEmpty (snd (ps ! k))"
    and names: "GetNameToken s0 = GetNameToken t0"
    and cases: "IsAbsoluteRootPath (fst (ps ! k)) \<and> IsAbsoluteRootPath (snd (ps ! k)) \<and> s0 = t0 \<or>
      ancestor_loop (GetPathElementCount s0) (GetParentPath s0) (GetParentPath t0) (fst (ps ! k)) = Some (snd (ps ! k))
      \<and> \<not> HasBetterTargetMatch (GetParentPath t0) ps (Some k) False"
    using red st by (auto simp: IsRedundant_def Let_def split: if_splits option.splits)
  have s0: "absolute_ok env s0" "prim_part s0 \<noteq> []" "prop_part s0 = []" and t_side: "map_side env t0"
    using parent_of_entry [OF ok(1,3)] k(1) st(1) by auto
  have t0: "absolute_ok env t0" "prim_part t0 \<noteq> []" "prop_part t0 = []"
    using map_side_cases [OF t_side st(2)] by (auto simp: absolute_ok_def)
  have keys: "key s0 = Some (prim_part s0)" "key t0 = Some (prim_part t0)"
    using absolute_ok_not_empty [OF s0(1)] st(2) by (simp_all add: key_def)
  note ps = absolute_ok_parent [OF s0(1,3,2)] and pt = absolute_ok_parent [OF t0(1,3,2)]
  have prims: "prim_part (GetParentPath s0) = butlast (prim_part s0)" "prim_part (GetParentPath t0) = butlast (prim_part t0)"
    using ps(2) pt(2) by simp_all
  obtain s where kl: "k < length ps" "key (fst (ps ! k)) = Some s" "prefix s (butlast (prim_part s0))"
    using best_source_key [OF ok(1) ps(1) k(1)] prims(1) by auto
  have l: "longest (fst ` entries ps False) (butlast (prim_part s0)) s"
    using best_source [OF ok(1,2) ps(1) kl(1,2)] kl(3) k(1) prims(1) by simp
  show ?thesis
    using cases
  proof
    assume root: "IsAbsoluteRootPath (fst (ps ! k)) \<and> IsAbsoluteRootPath (snd (ps ! k)) \<and> s0 = t0"
    then have "fst (ps ! k) = AbsoluteRootPath" "snd (ps ! k) = AbsoluteRootPath"
      using nth_is_side [OF ok(1) kl(1)] root_side by blast+
    then have k_root: "ps ! k = (AbsoluteRootPath, AbsoluteRootPath)" by (simp add: prod_eq_iff)
    then have "s = []" using kl(2) by (simp add: key_def path_queries)
    then show ?thesis
      using redundant_identity [OF ok(1-3,5) kl(1) k_root _ s0(1,3) refl s0(2)] l st(1) root keys by metis
  next
    assume loop: "ancestor_loop (GetPathElementCount s0) (GetParentPath s0) (GetParentPath t0) (fst (ps ! k)) = Some (snd (ps ! k))
      \<and> \<not> HasBetterTargetMatch (GetParentPath t0) ps (Some k) False"
    have side: "is_side s0" "is_side t0" "plain_side s0" "plain_side t0"
      using nth_is_side [OF ok(1,3)] ok(3,4) st(1) by (auto simp: plain_pairs_def list_all_length)
    obtain t where t: "key (snd (ps ! k)) = Some t" using k(2) by (simp add: key_def)
    obtain w where w: "key (GetParentPath s0) = Some (s @ w)" "key (GetParentPath t0) = Some (t @ w)"
      using ancestor_loop_Some [OF conjunct1 [OF loop] kl(2) t] GetParentPath_side side plain_parent by blast
    then obtain z u where zu: "key s0 = Some ((s @ w) @ [z])" "key t0 = Some ((t @ w) @ [u])"
      using parent_key [OF side(1)] parent_key [OF side(2)] by blast
    have "z = u"
      using names GetNameToken_side [OF side(1) zu(1)] GetNameToken_side [OF side(2) zu(2)]
        plain_key [OF side(3) zu(1)] plain_key [OF side(4) zu(2)] by (intro same_name) simp_all
    moreover have "longest (snd ` entries ps False) (t @ w) t"
      using no_better_target [OF ok(1,2) pt(1) kl(1) t] loop key_prim [OF w(2)] by simp
    moreover have "longest (fst ` entries ps False) (s @ w) s"
      using l key_prim [OF zu(1)] by (metis butlast_snoc)
    moreover have "(Some s, Some t) \<in> entries ps False"
      using entries_nth [OF kl(1), of False] kl(2) t by simp
    ultimately have "extends (entries ps False) ((s @ w) @ [z]) ((t @ w) @ [u]) s t"
      by (auto simp: extends_def butlast_append)
    then show ?thesis using zu by blast
  qed
qed

lemma redundant_entry:
  assumes ok: "map_pairs_ok env ps" "entries_ok (entries ps False)" "i < length ps" "plain_pairs ps" "shadow_free ps"
    and red: "IsRedundant env i ps"
  shows "maps (entries (without i ps) False) p r \<longleftrightarrow> maps (entries ps False) p r"
proof (cases "IsEmpty (snd (ps ! i))")
  case False
  obtain s0 t0 where st: "ps ! i = (s0, t0)" by fastforce
  obtain x0 y0 s t where e: "key s0 = Some x0" "key t0 = Some y0" "extends (entries ps False) x0 y0 s t"
    using redundant_extends [OF ok red st] False st by auto
  have "(Some x0, Some y0) \<in> entries ps False" using entries_nth [OF ok(3), of False] st e(1,2) by simp
  from maps_remove_extends [OF ok(2) this e(3)]
  show ?thesis using entries_without [OF ok(1,3)] st e(1,2) by simp
qed (rule redundant_block [OF ok(1-3) red])

text \<open>The loop keeps the mapping.\<close>

lemma set_without_subset: "set (without i ps) \<subseteq> set ps"
  unfolding without_def using set_take_subset set_drop_subset by fastforce

lemma without_ok:
  assumes "map_pairs_ok env ps" "entries_ok (entries ps False)" "plain_pairs ps" "shadow_free ps"
  shows "map_pairs_ok env (without i ps) \<and> entries_ok (entries (without i ps) False)
    \<and> plain_pairs (without i ps) \<and> shadow_free (without i ps)"
proof -
  have sub: "set (without i ps) \<subseteq> set ps" by (rule set_without_subset)
  then have "entries (without i ps) False \<subseteq> entries ps False" by (auto simp: entries_def)
  then have "entries_ok (entries (without i ps) False)" by (rule entries_ok_subset [OF assms(2)])
  moreover have "plain_pairs (without i ps)" using sub assms(3) by (auto simp: plain_pairs_def list_all_iff)
  moreover have "shadow_free (without i ps)"
    unfolding shadow_free_def list_all_iff using shadow_freeD [OF assms(4)] subsetD [OF sub] by blast
  ultimately show ?thesis using map_pairs_ok_without [OF assms(1)] by blast
qed

lemma canonicalize_loop_maps:
  assumes "map_pairs_ok env ps" "entries_ok (entries ps False)" "plain_pairs ps" "shadow_free ps"
  shows "map_pairs_ok env (canonicalize_loop env ps i) \<and> entries_ok (entries (canonicalize_loop env ps i) False)
    \<and> maps (entries (canonicalize_loop env ps i) False) = maps (entries ps False)"
  using assms
proof (induction env ps i rule: canonicalize_loop.induct)
  case (1 env ps i)
  show ?case
  proof (cases "i < length ps \<and> IsRedundant env i ps")
    case True
    have "maps (entries (without i ps) False) = maps (entries ps False)"
      using redundant_entry [OF 1(3,4) _ 1(5,6)] True by blast
    then show ?thesis
      using 1(1) True without_ok [OF 1(3-6), of i]
      by (subst (1 2 3) canonicalize_loop.simps) (simp add: without_def)
  next
    case False
    then show ?thesis using 1(2-6) by (subst (1 2 3) canonicalize_loop.simps) auto
  qed
qed

text \<open>The root identity is removed from the list into the flag.\<close>

lemma Canonicalize_ok:
  assumes "map_pairs_ok env ps" "entries_ok (entries ps False)" "plain_pairs ps" "shadow_free ps"
    and "Canonicalize env ps = (ps', root)"
  shows "map_pairs_ok env ps' \<and> entries_ok (entries ps' root) \<and> maps (entries ps' root) = maps (entries ps False)"
proof -
  let ?l = "canonicalize_loop env ps 0"
  note loop = canonicalize_loop_maps [OF assms(1-4), of 0]
  show ?thesis
  proof (cases "?l \<noteq> [] \<and> hd ?l = (AbsoluteRootPath, AbsoluteRootPath)")
    case True
    then have l: "?l = (AbsoluteRootPath, AbsoluteRootPath) # ps'" "root"
      using assms(5) by (cases ?l; force simp: Canonicalize_def Let_def)+
    have "key AbsoluteRootPath = Some []" by (simp add: key_def path_queries)
    then have "entries ps' root = entries ?l False" unfolding l(1) using l(2) by (auto simp: entries_def)
    moreover have "map_pairs_ok env ps'"
      using loop unfolding l(1) by (simp add: map_pairs_ok_def source_sorted_def)
    ultimately show ?thesis using loop by simp
  next
    case False
    then have "ps' = ?l \<and> \<not> root" using assms(5) by (auto simp: Canonicalize_def Let_def)
    then show ?thesis using loop by simp
  qed
qed

text \<open>A map function is created from a map with valid paths.\<close>

definition map_arguments_ok :: "path_env \<Rightarrow> path_pair list \<Rightarrow> bool" where
  "map_arguments_ok env ps \<longleftrightarrow> length ps \<le> maxPairCount \<and> distinct ps
     \<and> list_all (\<lambda>(s, t). pair_ok env (s, t) \<and> \<not> IsEmpty s) ps \<and> entries_ok (entries ps False)"

lemma prim_node_type_other: "prim_node_type y \<noteq> PrimVariantSelectionNodeT \<Longrightarrow> prim_node_type y = PrimNodeT"
  by (cases y) simp_all

lemma isValidMapPath_side:
  assumes "is_side p" "\<not> IsEmpty p"
  shows "isValidMapPath p"
proof -
  have "key p = Some (prim_part p)" using assms(2) by (simp add: key_def)
  then obtain x where "p = SdfPath AbsoluteRoot x []" using key_side [OF assms(1)] by blast
  then show ?thesis
    by (cases x rule: rev_cases) (auto simp: isValidMapPath_def path_queries intro: prim_node_type_other)
qed

lemma Create_value:
  assumes "map_arguments_ok env ps"
  shows "MapFunction_Create env ops fless ps off =
    (if ps = [(AbsoluteRootPath, AbsoluteRootPath)] \<and> offset_is_identity ops off then Identity ops
     else let (ps', root) = Canonicalize env (std_sort (PathPairOrder fless) ps)
       in \<lparr>pairs = ps', hasRootIdentity = root, offset = off\<rparr>)"
proof -
  have valid: "isValidMapPath s \<and> (IsEmpty t \<or> isValidMapPath t)" if "(s, t) \<in> set ps" for s t
  proof -
    have "pair_ok env (s, t)" "\<not> IsEmpty s" using assms that by (auto simp: map_arguments_ok_def list_all_iff)
    then show ?thesis using isValidMapPath_side pair_is_side by blast
  qed
  then have "list_all (\<lambda>(s, t). isValidMapPath s \<and> (IsEmpty t \<or> isValidMapPath t)) ps" by (auto simp: list_all_iff)
  moreover have "length ps = 1 \<and> hd ps = pr \<longleftrightarrow> ps = [pr]" for pr by (cases ps) auto
  moreover have "\<not> length ps > maxPairCount" using assms by (simp add: map_arguments_ok_def)
  ultimately show ?thesis by (auto simp: MapFunction_Create_def)
qed

lemma sorted_arguments_ok:
  assumes "comparator fless" "map_arguments_ok env ps" "plain_pairs ps" "shadow_free ps"
  defines "qs \<equiv> std_sort (PathPairOrder fless) ps"
  shows "map_pairs_ok env qs" "entries_ok (entries qs False)" "plain_pairs qs" "shadow_free qs"
    and "entries qs False = entries ps False"
proof -
  have set: "set qs = set ps" by (simp add: qs_def)
  show "entries qs False = entries ps False" by (simp add: entries_def set)
  then show "entries_ok (entries qs False)" using assms(2) by (simp add: map_arguments_ok_def)
  show "map_pairs_ok env qs"
    using assms(2) source_sorted_std_sort [OF assms(1)] by (auto simp: qs_def map_pairs_ok_def map_arguments_ok_def list_all_iff)
  show "plain_pairs qs" "shadow_free qs"
    using assms(3,4) unfolding plain_pairs_def shadow_free_def list_all_iff set by blast+
qed

section \<open>Entries that are removed although they are not redundant\<close>

text \<open>\<open>/A\<close>, \<open>/B\<close>, \<open>/A/A/B\<close> and \<open>/B/A/B\<close>.\<close>

definition example_path :: "string list \<Rightarrow> sdf_path" where
  "example_path names = SdfPath AbsoluteRoot (map PrimNode names) []"

definition example_inner :: "'o \<Rightarrow> 'o PcpMapFunction" where
  "example_inner off = \<lparr>pairs = [(example_path [''B'', ''A'', ''B''], example_path [''A'', ''A'', ''B''])],
     hasRootIdentity = True, offset = off\<rparr>"

definition example_outer :: "'o \<Rightarrow> 'o PcpMapFunction" where
  "example_outer off = \<lparr>pairs = [(example_path [''A''], example_path [''B''])], hasRootIdentity = True, offset = off\<rparr>"

lemma example_maps:
  "MapSourceToTarget example_env (example_inner off) (example_path [''B'', ''A'', ''B'']) = example_path [''A'', ''A'', ''B'']"
  "MapSourceToTarget example_env (example_outer off) (example_path [''A'', ''A'', ''B'']) = example_path [''B'', ''A'', ''B'']"
  "MapTargetToSource example_env (example_inner off) (example_path [''A'']) = example_path [''A'']"
  by code_simp+

lemma example_composed:
  "IsIdentity ops (example_outer off) = False" "IsIdentity ops (example_inner off) = False"
  "ComposePathPairs example_env fless (example_outer off) (example_inner off') =
     ([(example_path [''A''], example_path [''B''])], True)"
  by (simp_all add: IsIdentity_def IsIdentityPathMapping_def example_outer_def example_inner_def) code_simp

text \<open>Composition loses a mapping: a path is mapped by the inner function, and the result by the outer one,
  but the composed function does not map it. The composed entry from \<open>/B/A/B\<close> to itself is taken to be
  redundant below the root identity, although another entry has the target \<open>/B\<close>.\<close>

theorem Compose_loses_mapping:
  "MapSourceToTarget example_env (example_inner off') (example_path [''B'', ''A'', ''B'']) = example_path [''A'', ''A'', ''B'']
   \<and> MapSourceToTarget example_env (example_outer off) (example_path [''A'', ''A'', ''B'']) = example_path [''B'', ''A'', ''B'']
   \<and> MapSourceToTarget example_env (Compose example_env ops fless (example_outer off) (example_inner off'))
       (example_path [''B'', ''A'', ''B'']) = EmptyPath"
proof (intro conjI)
  have "Compose example_env ops fless (example_outer off) (example_inner off') =
      (example_outer off)\<lparr>offset := offset_mult ops off off'\<rparr>"
    by (simp add: Compose_def example_composed) (simp add: example_outer_def example_inner_def)
  moreover have "MapSourceToTarget example_env ((example_outer off)\<lparr>offset := off''\<rparr>)
      (example_path [''B'', ''A'', ''B'']) = EmptyPath" for off'' by code_simp
  ultimately show "MapSourceToTarget example_env (Compose example_env ops fless (example_outer off) (example_inner off'))
       (example_path [''B'', ''A'', ''B'']) = EmptyPath" by simp
qed (rule example_maps)+

text \<open>Names do not tell a variant selection from a prim: below \<open>/A\<close> to \<open>/B\<close> the entry from \<open>/A{v=B}\<close>
  to \<open>/B/B\<close> is removed.\<close>

definition example_variant :: "string \<Rightarrow> sdf_path" where
  "example_variant a = SdfPath AbsoluteRoot [PrimNode a, PrimVariantSelectionNode ''v'' ''B''] []"

theorem Canonicalize_variant:
  "let entry = (example_variant ''A'', example_path [''B'', ''B'']);
       ps = [(example_path [''A''], example_path [''B'']), entry]
   in Canonicalize example_env ps = ([(example_path [''A''], example_path [''B''])], False)
     \<and> Map example_env (fst entry) ps False False = snd entry
     \<and> Map example_env (fst entry) [(example_path [''A''], example_path [''B''])] False False = example_variant ''B''"
  unfolding Let_def by (intro conjI; code_simp)

end
