(* ===== verification/Pcp_MapCompose.thy ===== *)
theory Pcp_MapCompose
  imports Pcp_MapCanonical
begin

text \<open>
  Composition of map functions (\<open>_ComposePathPairs\<close> and \<open>Compose\<close> of
  \<open>pxr/usd/pcp/mapFunction.cpp\<close>): the composed function maps whatever the inner function and then
  the outer function map. The invariant of the functions that \<open>Create\<close> and \<open>Compose\<close> make is what
  the search for sources that are already there relies on.
\<close>

section \<open>What a map function makes of a path\<close>

lemma Map_empty_path:
  assumes "source_sorted ps"
  shows "Map env EmptyPath ps root invert = EmptyPath"
proof -
  have "GetBestTargetMatch EmptyPath ps 0 = None"
    using GetBestTargetMatch_Some [of EmptyPath ps 0] by (cases "GetBestTargetMatch EmptyPath ps 0")
      (auto simp: HasPrefix_iff path_queries)
  then show ?thesis using GetBestSourceMatch_Empty [OF assms] by (simp add: Map_def Let_def path_queries)
qed

text \<open>The result of a mapping is empty, or a well-formed absolute path.\<close>

lemma ReplacePrefix_result:
  assumes "absolute_ok env p" "pair_ok env (s, t)" "HasPrefix p s"
  shows "ReplacePrefix env p s t False = EmptyPath \<or> absolute_ok env (ReplacePrefix env p s t False)"
proof (cases "IsEmpty t")
  case True
  then have "t = EmptyPath" using assms(2) IsEmpty_side by (auto simp: pair_ok_def path_queries)
  then have "ReplacePrefix env p s t False = EmptyPath"
    using assms(3) absolute_ok_not_empty [OF assms(1)] True
    by (cases p) (auto simp: replace_prefix_with_def HasPrefix_iff)
  then show ?thesis by simp
next
  case False
  then show ?thesis using ReplacePrefix_mapped [OF assms] by simp
qed

lemma Map_result:
  assumes "map_pairs_ok env ps" "absolute_ok env p"
  shows "Map env p ps root invert = EmptyPath \<or> absolute_ok env (Map env p ps root invert)"
proof -
  have sorted: "source_sorted ps" using assms(1) by (simp add: map_pairs_ok_def)
  let ?b = "if invert then GetBestTargetMatch p ps 0 else GetBestSourceMatch p ps 0"
  let ?r = "case ?b of None \<Rightarrow> if root then p else EmptyPath
    | Some i \<Rightarrow> if invert then ReplacePrefix env p (snd (ps ! i)) (fst (ps ! i)) False
        else ReplacePrefix env p (fst (ps ! i)) (snd (ps ! i)) False"
  have "?r = EmptyPath \<or> absolute_ok env ?r"
  proof (cases ?b)
    case (Some i)
    show ?thesis
    proof (cases invert)
      case True
      then have i: "i < length ps" "HasPrefix p (snd (ps ! i))"
        using Some GetBestTargetMatch_Some [of p ps 0 i] by auto
      have "pair_ok env (snd (ps ! i), fst (ps ! i))"
        using nth_pair_ok [OF assms(1) i(1)] pair_ok_swap by blast
      from ReplacePrefix_result [OF assms(2) this i(2)] show ?thesis using Some True by simp
    next
      case False
      then have i: "i < length ps" "HasPrefix p (fst (ps ! i))"
        using Some GetBestSourceMatch_Some [OF sorted, of p 0 i] by auto
      from ReplacePrefix_result [OF assms(2) nth_pair_ok [OF assms(1) i(1)] i(2)] show ?thesis using Some False by simp
    qed
  qed (use assms(2) in simp)
  moreover have "Map env p ps root invert = ?r \<or> Map env p ps root invert = EmptyPath"
    unfolding Map_def Let_def by (simp split del: option.split)
  ultimately show ?thesis by metis
qed

lemma function_pairs_ok: "map_function_ok env f \<Longrightarrow> map_pairs_ok env (pairs f)"
  by (simp add: map_function_ok_def)

lemma Map_function_result:
  assumes "map_function_ok env f" "absolute_ok env p"
  shows "MapSourceToTarget env f p = EmptyPath \<or> absolute_ok env (MapSourceToTarget env f p)"
    and "MapTargetToSource env f p = EmptyPath \<or> absolute_ok env (MapTargetToSource env f p)"
  unfolding MapSourceToTarget_def MapTargetToSource_def
  by (rule Map_result [OF function_pairs_ok [OF assms(1)] assms(2)])+

text \<open>The inverse mapping is the mapping of the inverse function.\<close>

lemma MapTargetToSource_inverse:
  assumes "comparator fless" "map_function_ok env f" "absolute_ok env q"
  shows "MapTargetToSource env f q = MapSourceToTarget env (GetInverse ops fless f) q"
proof -
  have inv: "map_function_ok env (GetInverse ops fless f)" using GetInverse_ok [OF assms(1,2), of ops] by blast
  have iff: "MapSourceToTarget env (GetInverse ops fless f) q = p \<longleftrightarrow> MapTargetToSource env f q = p"
    if "absolute_ok env p" for p
    using GetInverse_maps [OF assms(1,2) that assms(3), of ops] by blast
  show ?thesis
    using Map_function_result(2) [OF assms(2,3)] Map_function_result(1) [OF inv assms(3)] iff by metis
qed

text \<open>An abstract mapping of a well-formed path gives a well-formed path.\<close>

lemma maps_absolute_ok:
  assumes "map_function_ok env f" "absolute_ok env p" "maps (function_entries f) (prim_part p) v"
  shows "absolute_ok env (SdfPath AbsoluteRoot v (prop_part p))"
    and "MapSourceToTarget env f p = SdfPath AbsoluteRoot v (prop_part p)"
proof -
  let ?q = "SdfPath AbsoluteRoot v (prop_part p)"
  obtain s t x where m: "(Some s, Some t) \<in> function_entries f" "prim_part p = s @ x" "v = t @ x"
    using assms(3) by (auto simp: maps_def)
  consider (root) "s = []" "t = []" | (pair) sp tp where "(sp, tp) \<in> set (pairs f)" "key sp = Some s" "key tp = Some t"
    using m(1) by (auto simp: function_entries_def entries_def split: if_splits)
  then show q: "absolute_ok env ?q"
  proof cases
    case root
    then have "?q = p" using m(2,3) assms(2) by (cases p) (simp add: absolute_ok_def)
    then show ?thesis using assms(2) by simp
  next
    case pair
    have side: "is_side sp" "is_side tp" using set_is_side [OF function_pairs_ok [OF assms(1)] pair(1)] by auto
    have ok: "pair_ok env (sp, tp)" using function_pairs_ok [OF assms(1)] pair(1) by (auto simp: map_pairs_ok_def list_all_iff)
    have "HasPrefix p sp" using HasPrefix_side [OF assms(2) side(1)] pair(2) m(2) by simp
    moreover have "\<not> IsEmpty tp" using pair(3) by (simp add: key_def split: if_splits)
    ultimately have "absolute_ok env (mapped sp tp p)" using ReplacePrefix_mapped [OF assms(2) ok] by blast
    moreover have "mapped sp tp p = ?q"
      using m(2,3) key_prim [OF pair(2)] key_prim [OF pair(3)] by (simp add: mapped_def)
    ultimately show ?thesis by simp
  qed
  show "MapSourceToTarget env f p = ?q"
    using Map_function_maps1 [OF assms(1,2) q] assms(3) by simp
qed

section \<open>Mapping sides\<close>

text \<open>A canonical function has no pair with the absolute root.\<close>

definition canonical :: "path_env \<Rightarrow> 'o PcpMapFunction \<Rightarrow> bool" where
  "canonical env f \<longleftrightarrow> map_function_ok env f
     \<and> list_all (\<lambda>(s, t). map_side env s \<and> map_side env t \<and> plain_side s \<and> plain_side t) (pairs f)"

lemma canonicalD:
  assumes "canonical env f" "(s, t) \<in> set (pairs f)"
  shows "map_side env s" "map_side env t" "plain_side s" "plain_side t"
  using assms by (auto simp: canonical_def list_all_iff)

lemma side_key_absolute:
  assumes "map_side env s" "key s = Some x"
  shows "absolute_ok env s" "prim_part s = x" "prop_part s = []" "x \<noteq> []" "s = SdfPath AbsoluteRoot x []"
proof -
  have ne: "\<not> IsEmpty s" using assms(2) by (simp add: key_def split: if_splits)
  show "absolute_ok env s" "prim_part s = x" "prop_part s = []"
    using map_side_cases [OF assms(1) ne] key_prim [OF assms(2)] by (auto simp: absolute_ok_def)
  show "x \<noteq> []" using map_side_cases [OF assms(1) ne] key_prim [OF assms(2)] by simp
  show "s = SdfPath AbsoluteRoot x []" using key_side [OF map_side_is_side [OF assms(1)] assms(2)] by simp
qed

lemma side_key_None: "map_side env s \<Longrightarrow> key s = None \<Longrightarrow> s = EmptyPath"
  using IsEmpty_side by (auto simp: key_def split: if_splits)

lemma key_Empty: "key EmptyPath = None"
  by (simp add: key_def path_queries)

lemma Empty_side: "map_side env EmptyPath \<and> plain_side EmptyPath"
  by (simp add: map_side_def plain_side_def nodes_ContainsPrimVariantSelection_def EmptyPath_def)

lemma canonical_entry:
  assumes "canonical env f" "(Some s, Some t) \<in> function_entries f"
  shows "s = [] \<and> t = [] \<and> hasRootIdentity f \<or>
    (\<exists>sp tp. (sp, tp) \<in> set (pairs f) \<and> key sp = Some s \<and> key tp = Some t \<and> s \<noteq> [] \<and> t \<noteq> [])"
proof -
  consider (root) "s = []" "t = []" "hasRootIdentity f"
    | (pair) sp tp where "(sp, tp) \<in> set (pairs f)" "key sp = Some s" "key tp = Some t"
    using assms(2) by (auto simp: function_entries_def entries_def split: if_splits)
  then show ?thesis
  proof cases
    case pair
    then show ?thesis
      using side_key_absolute(4) [OF canonicalD(1) [OF assms(1) pair(1)] pair(2)]
        side_key_absolute(4) [OF canonicalD(2) [OF assms(1) pair(1)] pair(3)] by blast
  qed blast
qed

definition plain :: "prim_node list \<Rightarrow> bool" where
  "plain x \<longleftrightarrow> (\<forall>n \<in> set x. \<not> is_variant_selection n)"

lemma plain_side_plain: "plain_side p \<longleftrightarrow> plain (prim_part p)"
  by (simp add: plain_side_def plain_def nodes_ContainsPrimVariantSelection_def list_ex_iff)

lemma canonical_maps:
  assumes "canonical env f" "maps (function_entries f) x v"
  shows "x = [] \<longleftrightarrow> v = []" "plain x \<Longrightarrow> plain v"
proof -
  obtain s t z where m: "(Some s, Some t) \<in> function_entries f" "x = s @ z" "v = t @ z"
    using assms(2) by (auto simp: maps_def)
  show "x = [] \<longleftrightarrow> v = []" using canonical_entry [OF assms(1) m(1)] m(2,3) by auto
  have "plain t" using canonical_entry [OF assms(1) m(1)]
  proof
    assume "\<exists>sp tp. (sp, tp) \<in> set (pairs f) \<and> key sp = Some s \<and> key tp = Some t \<and> s \<noteq> [] \<and> t \<noteq> []"
    then obtain sp tp where "(sp, tp) \<in> set (pairs f)" "key tp = Some t" by blast
    then show ?thesis using canonicalD(4) [OF assms(1)] key_prim plain_side_plain by metis
  qed (simp add: plain_def)
  then show "plain x \<Longrightarrow> plain v" using m(2,3) by (auto simp: plain_def)
qed

text \<open>Sides are mapped to sides, as the entries say.\<close>

lemma MapSourceToTarget_side:
  assumes "canonical env f" "map_side env s"
  shows "map_side env (MapSourceToTarget env f s)"
    and "key (MapSourceToTarget env f s) = Some v \<longleftrightarrow> (\<exists>x. key s = Some x \<and> maps (function_entries f) x v)"
    and "plain_side s \<Longrightarrow> plain_side (MapSourceToTarget env f s)"
proof -
  let ?r = "MapSourceToTarget env f s"
  have ok: "map_function_ok env f" "source_sorted (pairs f)"
    using assms(1) by (simp_all add: canonical_def map_function_ok_def map_pairs_ok_def)
  have "map_side env ?r \<and> (key ?r = Some v \<longleftrightarrow> (\<exists>x. key s = Some x \<and> maps (function_entries f) x v))
    \<and> (plain_side s \<longrightarrow> plain_side ?r)"
  proof (cases "key s")
    case None
    then have "?r = EmptyPath" using side_key_None [OF assms(2)] Map_empty_path [OF ok(2)] by (simp add: MapSourceToTarget_def)
    then show ?thesis using None by (simp add: key_Empty Empty_side)
  next
    case (Some x)
    note s = side_key_absolute [OF assms(2) Some]
    show ?thesis
    proof (cases "?r = EmptyPath")
      case True
      have "\<not> maps (function_entries f) x v"
      proof
        assume "maps (function_entries f) x v"
        then have "?r = SdfPath AbsoluteRoot v []" using maps_absolute_ok(2) [OF ok(1) s(1)] s(2,3) by simp
        then show False using True by (simp add: EmptyPath_def)
      qed
      then show ?thesis using True Some by (simp add: key_Empty Empty_side)
    next
      case False
      then have r: "absolute_ok env ?r" using Map_function_result(1) [OF ok(1) s(1)] by blast
      have m: "prop_part ?r = []" "maps (function_entries f) x (prim_part ?r)"
        using Map_function_maps1 [OF ok(1) s(1) r] s(2,3) by auto
      have "key ?r = Some (prim_part ?r)" using absolute_ok_not_empty [OF r] by (simp add: key_def)
      moreover have "maps (function_entries f) x v \<longleftrightarrow> v = prim_part ?r"
        using maps_functional [of "function_entries f" x v "prim_part ?r"] m(2) ok(1)
        by (auto simp: map_function_ok_def function_entries_def)
      moreover have "prim_part ?r \<noteq> []" using canonical_maps(1) [OF assms(1) m(2)] s(4) by simp
      moreover have "plain x \<longrightarrow> plain (prim_part ?r)" using canonical_maps(2) [OF assms(1) m(2)] by blast
      ultimately show ?thesis
        using Some r m(1) s(2) by (auto simp: map_side_def absolute_ok_def plain_side_plain)
    qed
  qed
  then show "map_side env ?r" "key ?r = Some v \<longleftrightarrow> (\<exists>x. key s = Some x \<and> maps (function_entries f) x v)"
    "plain_side s \<Longrightarrow> plain_side ?r" by blast+
qed

lemma canonical_inverse:
  assumes "comparator fless" "canonical env f"
  shows "canonical env (GetInverse ops fless f)"
proof -
  have "map_function_ok env (GetInverse ops fless f)"
    using GetInverse_ok [OF assms(1), of env f ops] assms(2) by (simp add: canonical_def)
  then show ?thesis using assms(2) by (auto simp: canonical_def list_all_iff GetInverse_def)
qed

lemma MapTargetToSource_side:
  fixes f :: "'o PcpMapFunction" and fless :: fast_less
  assumes "comparator fless" "canonical env f" "map_side env t"
  shows "map_side env (MapTargetToSource env f t)"
    and "key (MapTargetToSource env f t) = Some u \<longleftrightarrow> (\<exists>x. key t = Some x \<and> maps (function_entries f) u x)"
    and "plain_side t \<Longrightarrow> plain_side (MapTargetToSource env f t)"
proof -
  fix ops :: "'o offset_ops"
  let ?g = "GetInverse ops fless f"
  have f: "map_function_ok env f" "source_sorted (pairs f)"
    using assms(2) by (simp_all add: canonical_def map_function_ok_def map_pairs_ok_def)
  have inv: "canonical env ?g" by (rule canonical_inverse [OF assms(1,2)])
  then have g: "source_sorted (pairs ?g)" by (simp add: canonical_def map_function_ok_def map_pairs_ok_def)
  have eq: "MapTargetToSource env f t = MapSourceToTarget env ?g t"
  proof (cases "key t")
    case None
    then show ?thesis using side_key_None [OF assms(3)] Map_empty_path [OF f(2)] Map_empty_path [OF g]
      by (simp add: MapTargetToSource_def MapSourceToTarget_def)
  next
    case (Some x)
    then show ?thesis using MapTargetToSource_inverse [OF assms(1) f(1)] side_key_absolute(1) [OF assms(3)] by blast
  qed
  have conv: "function_entries ?g = converse (function_entries f)" using GetInverse_ok [OF assms(1) f(1), of ops] by blast
  show "map_side env (MapTargetToSource env f t)"
    "key (MapTargetToSource env f t) = Some u \<longleftrightarrow> (\<exists>x. key t = Some x \<and> maps (function_entries f) u x)"
    "plain_side t \<Longrightarrow> plain_side (MapTargetToSource env f t)"
    unfolding eq using MapSourceToTarget_side [OF inv assms(3)] unfolding conv maps_converse by blast+
qed

section \<open>The composed pairs\<close>

text \<open>What \<open>Create\<close> makes and \<open>Compose\<close> keeps: no pair with the absolute root, no empty source, the sources
  in strictly increasing order.\<close>

definition map_created :: "path_env \<Rightarrow> fast_less \<Rightarrow> 'o PcpMapFunction \<Rightarrow> bool" where
  "map_created env fless f \<longleftrightarrow> canonical env f
     \<and> sorted_wrt (\<lambda>a b. PathLessThan fless (fst a) (fst b)) (pairs f)
     \<and> list_all (\<lambda>(s, t). \<not> IsEmpty s) (pairs f)"

lemma comparator_PathLessThan:
  assumes "comparator fless"
  shows "comparator (PathLessThan fless)"
proof (rule comparator.intro)
  show "\<not> PathLessThan fless x x" for x using comparator.irrefl [OF assms] by (simp add: PathLessThan_def)
  show "x \<noteq> y \<Longrightarrow> PathLessThan fless x y \<or> PathLessThan fless y x" for x y
    using comparator.total [OF assms, of x y] by (auto simp: PathLessThan_def)
  show "PathLessThan fless x y \<Longrightarrow> PathLessThan fless y z \<Longrightarrow> PathLessThan fless x z" for x y z
    using comparator.trans [OF assms, of x y z] by (auto simp: PathLessThan_def split: if_splits)
qed

lemma binary_search_fst:
  assumes "comparator l" "sorted_wrt (\<lambda>a b. l (fst a) (fst b)) xs"
  shows "std_binary_search (\<lambda>pr v. l (fst pr) v) (\<lambda>v pr. l v (fst pr)) xs v \<longleftrightarrow> v \<in> fst ` set xs"
proof -
  have keys: "sorted_wrt (\<lambda>a b. \<not> l b a) (map fst xs)"
    using comparator.sorted_weak [OF assms(1), of "map fst xs"] assms(2) by (simp add: sorted_wrt_map)
  have "sorted_wrt (\<lambda>a b. l (fst b) v \<longrightarrow> l (fst a) v) xs"
    using assms(2) by (rule sorted_wrt_mono_rel [rotated]) (blast intro: comparator.trans [OF assms(1)])
  then have "std_lower_bound (\<lambda>pr v. l (fst pr) v) xs v = length (takeWhile (\<lambda>pr. l (fst pr) v) xs)"
    unfolding std_lower_bound_def by (rule partition_point_takeWhile)
  also have "\<dots> = std_lower_bound l (map fst xs) v"
    using comparator.std_lower_bound_sorted [OF assms(1) keys] by (simp add: takeWhile_map comp_def)
  finally show ?thesis
    using comparator.std_binary_search_sorted [OF assms(1) keys, of v] by (auto simp: std_binary_search_def Let_def)
qed

lemma compose_inner_iff:
  "(a, b) \<in> set (compose_inner env f g) \<longleftrightarrow>
     hasRootIdentity f \<and> hasRootIdentity g \<and> a = AbsoluteRootPath \<and> b = AbsoluteRootPath
     \<or> (\<exists>t. (a, t) \<in> set (pairs g) \<and> b = MapSourceToTarget env f t)"
  by (auto simp: compose_inner_def)

lemma compose_inner_sorted:
  assumes "map_created env fless g"
  shows "sorted_wrt (\<lambda>a b. PathLessThan fless (fst a) (fst b)) (compose_inner env f g)"
proof -
  let ?images = "map (\<lambda>(s, t). (s, MapSourceToTarget env f t)) (pairs g)"
  have "sorted_wrt (\<lambda>a b. PathLessThan fless (fst a) (fst b)) ?images"
    using assms by (simp add: map_created_def sorted_wrt_map case_prod_beta)
  moreover have "PathLessThan fless AbsoluteRootPath s" if "(s, t) \<in> set (pairs g)" for s t
  proof -
    have "map_side env s" "\<not> IsEmpty s" using that assms by (auto simp: map_created_def canonical_def list_all_iff)
    then have "GetPathElementCount s > 0" using map_side_cases by (fastforce simp: GetPathElementCount_def)
    moreover have "GetPathElementCount AbsoluteRootPath = 0" by (simp add: GetPathElementCount_def path_queries)
    ultimately show ?thesis by (simp add: PathLessThan_def)
  qed
  ultimately show ?thesis by (auto simp: compose_inner_def sorted_wrt_append)
qed

definition kept_pair :: "path_env \<Rightarrow> 'o PcpMapFunction \<Rightarrow> 'o PcpMapFunction \<Rightarrow> path_pair \<Rightarrow> bool" where
  "kept_pair env f g = (\<lambda>(s, t). \<not> IsEmpty (MapTargetToSource env g s)
     \<and> MapTargetToSource env g s \<notin> fst ` set (compose_inner env f g))"

lemma compose_outer_filter:
  assumes "comparator fless" "map_created env fless g"
  shows "compose_outer env fless f g =
    map (\<lambda>(s, t). (MapTargetToSource env g s, t)) (filter (kept_pair env f g) (pairs f))"
proof -
  have concat_if: "concat (map (\<lambda>x. if P x then [] else if Q x then [] else [h x]) xs) =
      map h (filter (\<lambda>x. \<not> P x \<and> \<not> Q x) xs)" for P Q xs and h :: "path_pair \<Rightarrow> path_pair"
    by (induction xs) auto
  note search = binary_search_fst [OF comparator_PathLessThan [OF assms(1)] compose_inner_sorted [OF assms(2), of f]]
  show ?thesis
    unfolding compose_outer_def Let_def search kept_pair_def case_prod_beta by (rule concat_if)
qed

lemma compose_outer_iff:
  assumes "comparator fless" "map_created env fless g"
  shows "(a, b) \<in> set (compose_outer env fless f g) \<longleftrightarrow>
    (\<exists>s. (s, b) \<in> set (pairs f) \<and> a = MapTargetToSource env g s \<and> \<not> IsEmpty a
      \<and> a \<notin> fst ` set (compose_inner env f g))"
  unfolding compose_outer_filter [OF assms] by (auto simp: kept_pair_def)

lemma canonical_root_maps:
  assumes "canonical env f"
  shows "maps (function_entries f) [] v \<longleftrightarrow> v = [] \<and> hasRootIdentity f"
    and "maps (function_entries f) u [] \<longleftrightarrow> u = [] \<and> hasRootIdentity f"
proof -
  have root: "hasRootIdentity f" if m: "maps (function_entries f) [] []"
  proof -
    obtain s t where "(Some s, Some t) \<in> function_entries f" "s = []" using m by (auto simp: maps_def)
    then show ?thesis using canonical_entry [OF assms] by blast
  qed
  have identity: "maps (function_entries f) [] []" if "hasRootIdentity f"
    using mapsI [of "[]" "[]" "function_entries f" "[]"] that by (auto simp: longest_def function_entries_def entries_def)
  show "maps (function_entries f) [] v \<longleftrightarrow> v = [] \<and> hasRootIdentity f"
    using canonical_maps(1) [OF assms, of "[]" v] root identity by blast
  show "maps (function_entries f) u [] \<longleftrightarrow> u = [] \<and> hasRootIdentity f"
    using canonical_maps(1) [OF assms, of u "[]"] root identity by blast
qed

lemma root_key: "key AbsoluteRootPath = Some []"
  by (simp add: key_def path_queries)

lemma in_fst_image: "a \<in> fst ` S \<longleftrightarrow> (\<exists>b. (a, b) \<in> S)"
  by force

lemma fst_function_entries:
  "Some u \<in> fst ` function_entries g \<longleftrightarrow> u = [] \<and> hasRootIdentity g \<or> (\<exists>s t. (s, t) \<in> set (pairs g) \<and> key s = Some u)"
  unfolding function_entries_def fst_entries by (force simp: image_iff)

text \<open>A source is in the first part exactly if the inner function has an entry for it.\<close>

lemma compose_inner_source:
  assumes "canonical env g" "map_side env a" "key a = Some u"
  shows "a \<in> fst ` set (compose_inner env f g) \<longleftrightarrow> Some u \<in> fst ` function_entries g"
proof -
  have a: "is_side a" "u \<noteq> []" using map_side_is_side [OF assms(2)] side_key_absolute(4) [OF assms(2,3)] by auto
  then have "a \<noteq> AbsoluteRootPath" using assms(3) root_key by auto
  then have "a \<in> fst ` set (compose_inner env f g) \<longleftrightarrow> (\<exists>t. (a, t) \<in> set (pairs g))"
    by (simp add: in_fst_image compose_inner_iff)
  also have "\<dots> \<longleftrightarrow> (\<exists>s t. (s, t) \<in> set (pairs g) \<and> key s = Some u)"
    using key_inj [OF a(1) map_side_is_side [OF canonicalD(1) [OF assms(1)]]] assms(3) by metis
  finally show ?thesis using a(2) by (simp add: fst_function_entries)
qed

definition composed_pairs :: "path_env \<Rightarrow> fast_less \<Rightarrow> 'o PcpMapFunction \<Rightarrow> 'o PcpMapFunction \<Rightarrow> path_pair list" where
  "composed_pairs env fless f g = compose_inner env f g @ compose_outer env fless f g"

lemma composed_pairs_entries:
  assumes "comparator fless" "canonical env f" "map_created env fless g"
    and e: "(k, k') \<in> entries (composed_pairs env fless f g) False"
  shows "inner_entry (function_entries f) (function_entries g) k k' \<or> outer_entry (function_entries f) (function_entries g) k k'"
proof -
  have g: "canonical env g" using assms(3) by (simp add: map_created_def)
  obtain a b where ab: "(a, b) \<in> set (composed_pairs env fless f g)" "k = key a" "k' = key b"
    using e by (auto simp: entries_def)
  then consider (root) "hasRootIdentity f" "hasRootIdentity g" "k = Some []" "k' = Some []"
    | (inner) t where "(a, t) \<in> set (pairs g)" "b = MapSourceToTarget env f t"
    | (outer) s where "(s, b) \<in> set (pairs f)" "a = MapTargetToSource env g s" "\<not> IsEmpty a"
        "a \<notin> fst ` set (compose_inner env f g)"
    using root_key by (auto simp: composed_pairs_def compose_inner_iff compose_outer_iff [OF assms(1,3)])
  then show ?thesis
  proof cases
    case root
    have "(Some [], Some []) \<in> function_entries g" using root(2) by (simp add: function_entries_def entries_def)
    then have "inner_entry (function_entries f) (function_entries g) k k'"
      unfolding inner_entry_def root(3,4) using canonical_root_maps(1) [OF assms(2)] root(1)
      by (intro exI [of _ "[]"] exI [of _ "Some []"]) auto
    then show ?thesis ..
  next
    case inner
    have "\<not> IsEmpty a" using assms(3) inner(1) by (auto simp: map_created_def list_all_iff)
    then have a: "key a = Some (prim_part a)" by (simp add: key_def)
    have mem: "(key a, key t) \<in> function_entries g" using inner(1) by (force simp: function_entries_def entries_def)
    have v: "k' = Some v \<longleftrightarrow> (\<exists>x. key t = Some x \<and> maps (function_entries f) x v)" for v
      unfolding ab(3) inner(2) by (rule MapSourceToTarget_side(2) [OF assms(2) canonicalD(2) [OF g inner(1)]])
    have "inner_entry (function_entries f) (function_entries g) k k'"
      unfolding inner_entry_def ab(2)
      by (rule exI [of _ "prim_part a"], rule exI [of _ "key t"]) (use mem a v in simp)
    then show ?thesis ..
  next
    case outer
    have s: "map_side env s" by (rule canonicalD(1) [OF assms(2) outer(1)])
    have a: "key a = Some (prim_part a)" using outer(3) by (simp add: key_def)
    have side: "map_side env a" unfolding outer(2) by (rule MapTargetToSource_side(1) [OF assms(1) g s])
    obtain x where x: "key s = Some x" "maps (function_entries g) (prim_part a) x"
      using MapTargetToSource_side(2) [OF assms(1) g s, of "prim_part a"] a outer(2) by auto
    have "(Some x, k') \<in> function_entries f" using outer(1) x(1) ab(3) by (force simp: function_entries_def entries_def)
    moreover have "Some (prim_part a) \<notin> fst ` function_entries g"
      using compose_inner_source [OF g side a] outer(4) by blast
    ultimately have "outer_entry (function_entries f) (function_entries g) k k'"
      unfolding outer_entry_def ab(2) using a x(2) by blast
    then show ?thesis ..
  qed
qed

lemma entriesI: "(a, b) \<in> set ps \<Longrightarrow> key a = k \<Longrightarrow> key b = k' \<Longrightarrow> (k, k') \<in> entries ps root"
  by (force simp: entries_def)

lemma composed_pairs_composes:
  assumes "comparator fless" "canonical env f" "map_created env fless g"
  shows "composes (function_entries f) (function_entries g) (entries (composed_pairs env fless f g) False)"
proof (rule composesI)
  have g: "canonical env g" using assms(3) by (simp add: map_created_def)
  let ?C = "entries (composed_pairs env fless f g) False"
  show "inner_entry (function_entries f) (function_entries g) k k' \<or> outer_entry (function_entries f) (function_entries g) k k'"
    if "(k, k') \<in> ?C" for k k' by (rule composed_pairs_entries [OF assms that])
  show "(Some s, Some v) \<in> ?C"
    if e: "(Some s, Some t) \<in> function_entries g" and m: "maps (function_entries f) t v" for s t v
    using canonical_entry [OF g e]
  proof
    assume root: "s = [] \<and> t = [] \<and> hasRootIdentity g"
    then have "v = [] \<and> hasRootIdentity f" using m canonical_root_maps(1) [OF assms(2), of v] by simp
    then have "(AbsoluteRootPath, AbsoluteRootPath) \<in> set (composed_pairs env fless f g)"
      using root by (simp add: composed_pairs_def compose_inner_iff)
    then show ?thesis using root \<open>v = [] \<and> _\<close> root_key by (intro entriesI) simp_all
  next
    assume "\<exists>sp tp. (sp, tp) \<in> set (pairs g) \<and> key sp = Some s \<and> key tp = Some t \<and> s \<noteq> [] \<and> t \<noteq> []"
    then obtain sp tp where p: "(sp, tp) \<in> set (pairs g)" "key sp = Some s" "key tp = Some t" by blast
    have "key (MapSourceToTarget env f tp) = Some v"
      using MapSourceToTarget_side(2) [OF assms(2) canonicalD(2) [OF g p(1)], of v] p(3) m by blast
    moreover have "(sp, MapSourceToTarget env f tp) \<in> set (composed_pairs env fless f g)"
      using p(1) by (auto simp: composed_pairs_def compose_inner_iff)
    ultimately show ?thesis using p(2) by (intro entriesI)
  qed
  show "(Some u, Some t) \<in> ?C"
    if e: "(Some s, Some t) \<in> function_entries f" and m: "maps (function_entries g) u s"
      and new: "Some u \<notin> fst ` function_entries g" for u s t
    using canonical_entry [OF assms(2) e]
  proof
    assume "s = [] \<and> t = [] \<and> hasRootIdentity f"
    then have "u = [] \<and> hasRootIdentity g" using m canonical_root_maps(2) [OF g, of u] by simp
    then show ?thesis using new by (simp add: fst_function_entries)
  next
    assume "\<exists>sp tp. (sp, tp) \<in> set (pairs f) \<and> key sp = Some s \<and> key tp = Some t \<and> s \<noteq> [] \<and> t \<noteq> []"
    then obtain sp tp where p: "(sp, tp) \<in> set (pairs f)" "key sp = Some s" "key tp = Some t" by blast
    let ?a = "MapTargetToSource env g sp"
    note side = MapTargetToSource_side [OF assms(1) g canonicalD(1) [OF assms(2) p(1)]]
    have a: "key ?a = Some u" using side(2) [of u] p(2) m by blast
    then have "?a \<notin> fst ` set (compose_inner env f g)" using compose_inner_source [OF g side(1) a] new by blast
    moreover have "\<not> IsEmpty ?a" using a by (simp add: key_def split: if_splits)
    ultimately have "(?a, tp) \<in> set (composed_pairs env fless f g)"
      using p(1) by (auto simp: composed_pairs_def compose_outer_iff [OF assms(1,3)])
    then show ?thesis using a p(3) by (intro entriesI)
  qed
qed

section \<open>Composition\<close>

lemma composed_pairs_sides:
  assumes "comparator fless" "canonical env f" "map_created env fless g" "(a, b) \<in> set (composed_pairs env fless f g)"
  shows "(a, b) = (AbsoluteRootPath, AbsoluteRootPath) \<or> map_side env a \<and> map_side env b"
    and "plain_side a \<and> plain_side b \<and> \<not> IsEmpty a"
proof -
  have g: "canonical env g" using assms(3) by (simp add: map_created_def)
  consider (root) "a = AbsoluteRootPath" "b = AbsoluteRootPath"
    | (inner) t where "(a, t) \<in> set (pairs g)" "b = MapSourceToTarget env f t"
    | (outer) s where "(s, b) \<in> set (pairs f)" "a = MapTargetToSource env g s" "\<not> IsEmpty a"
    using assms(4) by (auto simp: composed_pairs_def compose_inner_iff compose_outer_iff [OF assms(1,3)])
  then have "((a, b) = (AbsoluteRootPath, AbsoluteRootPath) \<or> map_side env a \<and> map_side env b)
    \<and> plain_side a \<and> plain_side b \<and> \<not> IsEmpty a"
  proof cases
    case root
    then show ?thesis by (simp add: plain_side_plain plain_def path_queries)
  next
    case inner
    have "\<not> IsEmpty a" using assms(3) inner(1) by (auto simp: map_created_def list_all_iff)
    then show ?thesis
      using canonicalD [OF g inner(1)] MapSourceToTarget_side(1,3) [OF assms(2) canonicalD(2) [OF g inner(1)]] inner(2)
      by simp
  next
    case outer
    show ?thesis
      using canonicalD [OF assms(2) outer(1)] MapTargetToSource_side(1,3) [OF assms(1) g canonicalD(1) [OF assms(2) outer(1)]]
        outer(2,3) by simp
  qed
  then show "(a, b) = (AbsoluteRootPath, AbsoluteRootPath) \<or> map_side env a \<and> map_side env b"
    "plain_side a \<and> plain_side b \<and> \<not> IsEmpty a" by blast+
qed

text \<open>Different outer entries have different sources after they are mapped back.\<close>

lemma MapTargetToSource_inj:
  fixes fless :: fast_less
  assumes "comparator fless" "canonical env g" "map_side env s" "map_side env s'"
    and "MapTargetToSource env g s = MapTargetToSource env g s'" "\<not> IsEmpty (MapTargetToSource env g s)"
  shows "s = s'"
proof -
  obtain u where u: "key (MapTargetToSource env g s) = Some u" using assms(6) by (simp add: key_def)
  obtain x where x: "key s = Some x" "maps (function_entries g) u x"
    using MapTargetToSource_side(2) [OF assms(1-3), of u] u by blast
  obtain y where y: "key s' = Some y" "maps (function_entries g) u y"
    using MapTargetToSource_side(2) [OF assms(1,2,4), of u] u assms(5) by auto
  have "entries_ok (function_entries g)" using assms(2) by (simp add: canonical_def map_function_ok_def function_entries_def)
  then have "x = y" using x(2) y(2) by (rule maps_functional)
  then have "key s = key s'" using x(1) y(1) by simp
  then show ?thesis by (rule key_inj [OF map_side_is_side [OF assms(3)] map_side_is_side [OF assms(4)]])
qed

lemma composed_pairs_distinct:
  assumes "comparator fless" "canonical env f" "map_created env fless g"
  shows "distinct (composed_pairs env fless f g)"
proof -
  have g: "canonical env g" using assms(3) by (simp add: map_created_def)
  have "distinct (map fst (compose_inner env f g))"
    using comparator.sorted_distinct [OF comparator_PathLessThan [OF assms(1)], of "map fst (compose_inner env f g)"]
      compose_inner_sorted [OF assms(3)] by (simp add: sorted_wrt_map)
  then have inner: "distinct (compose_inner env f g)" by (simp add: distinct_map)
  have "inj_on (\<lambda>(s, t). (MapTargetToSource env g s, t)) (set (filter (kept_pair env f g) (pairs f)))"
  proof (rule inj_onI)
    fix p q assume pq: "p \<in> set (filter (kept_pair env f g) (pairs f))" "q \<in> set (filter (kept_pair env f g) (pairs f))"
      "(\<lambda>(s, t). (MapTargetToSource env g s, t)) p = (\<lambda>(s, t). (MapTargetToSource env g s, t)) q"
    obtain s t s' t' where p: "p = (s, t)" "q = (s', t')" by fastforce
    then have mem: "(s, t) \<in> set (pairs f)" "(s', t') \<in> set (pairs f)" "\<not> IsEmpty (MapTargetToSource env g s)"
      "MapTargetToSource env g s = MapTargetToSource env g s'"
      using pq by (auto simp: kept_pair_def)
    have "s = s'"
      by (rule MapTargetToSource_inj [OF assms(1) g canonicalD(1) [OF assms(2) mem(1)] canonicalD(1) [OF assms(2) mem(2)]
          mem(4,3)])
    then show "p = q" using pq(3) by (simp add: p)
  qed
  moreover have "distinct (pairs f)" using assms(2) by (simp add: canonical_def map_function_ok_def map_pairs_ok_def)
  ultimately have "distinct (compose_outer env fless f g)"
    unfolding compose_outer_filter [OF assms(1,3)] by (simp add: distinct_map)
  moreover have "set (compose_inner env f g) \<inter> set (compose_outer env fless f g) = {}"
    using compose_outer_iff [OF assms(1,3), of _ _ f] by (fastforce simp: in_fst_image)
  ultimately show ?thesis using inner by (simp add: composed_pairs_def)
qed

text \<open>The list that is canonicalized.\<close>

definition sorted_pairs :: "path_env \<Rightarrow> fast_less \<Rightarrow> 'o PcpMapFunction \<Rightarrow> 'o PcpMapFunction \<Rightarrow> path_pair list" where
  "sorted_pairs env fless f g =
     (if compose_outer env fless f g \<noteq> []
      then std_merge (PathPairOrder fless) (compose_inner env f g) (std_sort (PathPairOrder fless) (compose_outer env fless f g))
      else compose_inner env f g)"

lemma ComposePathPairs_sorted: "ComposePathPairs env fless f g = Canonicalize env (sorted_pairs env fless f g)"
  by (simp add: ComposePathPairs_def sorted_pairs_def Let_def)

lemma mset_sorted_pairs: "mset (sorted_pairs env fless f g) = mset (composed_pairs env fless f g)"
  by (simp add: sorted_pairs_def composed_pairs_def)

lemma sorted_pairs_weak:
  assumes "comparator fless" "map_created env fless g"
  shows "sorted_wrt (\<lambda>x y. \<not> PathPairOrder fless y x) (sorted_pairs env fless f g)"
proof -
  note c = comparator_PathPairOrder [OF assms(1)]
  have "\<not> PathPairOrder fless y x" if "PathLessThan fless (fst x) (fst y)" for x y
    using that comparator.asym [OF assms(1), of "fst x" "fst y"] comparator.irrefl [OF assms(1)]
    by (auto simp: PathLessThan_def PathPairOrder_def split: if_splits)
  then have "sorted_wrt (\<lambda>x y. \<not> PathPairOrder fless y x) (compose_inner env f g)"
    by (rule sorted_wrt_mono_rel [OF _ compose_inner_sorted [OF assms(2)]])
  then show ?thesis
    using comparator.sorted_std_merge [OF c _ comparator.sorted_std_sort [OF c]] by (simp add: sorted_pairs_def)
qed

text \<open>Canonicalization removes entries, the others keep their order.\<close>

lemma subseq_canonicalize_loop: "subseq (canonicalize_loop env ps i) ps"
proof (induction env ps i rule: canonicalize_loop.induct)
  case (1 env ps i)
  have "drop (i + 1) ps = drop 1 (drop i ps)" by (simp add: drop_Suc tl_drop)
  then have "subseq (drop (i + 1) ps) (drop i ps)"
    by (metis append_take_drop_id subseq_drop_many subseq_order.order_refl)
  then have "subseq (take i ps @ drop (i + 1) ps) (take i ps @ drop i ps)" by (simp only: subseq_append')
  then have sub: "subseq (take i ps @ drop (i + 1) ps) ps" by simp
  consider (removed) "i < length ps \<and> IsRedundant env i ps" | (kept) "i < length ps" "\<not> IsRedundant env i ps"
    | (finished) "\<not> i < length ps" by blast
  then show ?case
  proof cases
    case removed
    then show ?thesis using 1(1) subseq_order.trans [OF _ sub]
      by (subst canonicalize_loop.simps) simp
  next
    case kept
    then show ?thesis using 1(2) by (subst canonicalize_loop.simps) simp
  qed (simp add: canonicalize_loop.simps)
qed

lemma sorted_wrt_subseq:
  assumes "subseq xs ys" "sorted_wrt R ys"
  shows "sorted_wrt R xs"
  using assms by (induction xs ys rule: list_emb.induct) (auto dest: list_emb_set)

lemma distinct_sorted_wrt: "distinct xs \<longleftrightarrow> sorted_wrt (\<noteq>) xs"
  by (induction xs) auto

lemma Canonicalize_subseq:
  assumes "Canonicalize env ps = (ps', root)"
  shows "subseq ps' ps"
proof -
  have "subseq ps' (canonicalize_loop env ps 0)"
    using assms by (cases "canonicalize_loop env ps 0") (auto simp: Canonicalize_def Let_def split: if_splits)
  then show ?thesis using subseq_canonicalize_loop by (rule subseq_order.trans)
qed

lemma sources_strict:
  assumes "comparator fless" "map_pairs_ok env ps" "entries_ok (entries ps root)"
    and "list_all (\<lambda>(s, t). \<not> IsEmpty s) ps" "sorted_wrt (\<lambda>x y. \<not> PathPairOrder fless y x) ps"
  shows "sorted_wrt (\<lambda>a b. PathLessThan fless (fst a) (fst b)) ps"
  unfolding sorted_wrt_iff_nth_less
proof (intro allI impI)
  fix i j assume ij: "i < j" "j < length ps"
  have "fst (ps ! i) \<noteq> fst (ps ! j)"
  proof
    assume eq: "fst (ps ! i) = fst (ps ! j)"
    have "\<not> IsEmpty (fst (ps ! i))" using assms(4) ij by (simp add: list_all_length case_prod_beta)
    then have "key (fst (ps ! i)) \<noteq> None" by (simp add: key_def)
    then have "i = j" using pair_unique [OF assms(2,3), of i j] eq ij by simp
    then show False using ij by simp
  qed
  moreover have "\<not> PathPairOrder fless (ps ! j) (ps ! i)" using assms(5) ij by (simp add: sorted_wrt_iff_nth_less)
  ultimately show "PathLessThan fless (fst (ps ! i)) (fst (ps ! j))"
    using comparator.total [OF assms(1), of "fst (ps ! i)" "fst (ps ! j)"]
    by (auto simp: PathPairOrder_def PathLessThan_def split: if_splits)
qed

text \<open>The pair of the absolute root can only be the first one, and is removed.\<close>

lemma Canonicalize_root:
  assumes "map_pairs_ok env ps" "list_all (\<lambda>(s, t). \<not> IsEmpty s) ps" "Canonicalize env ps = (ps', root)"
  shows "(AbsoluteRootPath, AbsoluteRootPath) \<notin> set ps'"
proof
  let ?r = "(AbsoluteRootPath, AbsoluteRootPath)" and ?l = "canonicalize_loop env ps 0"
  assume r: "?r \<in> set ps'"
  have l: "subseq ?l ps" by (rule subseq_canonicalize_loop)
  have sorted: "sorted_wrt (\<lambda>a b. GetPathElementCount (fst a) \<le> GetPathElementCount (fst b)) ?l"
    using sorted_wrt_subseq [OF l] assms(1) by (simp add: map_pairs_ok_def source_sorted_def)
  have d: "distinct ?l"
    using sorted_wrt_subseq [OF l, of "(\<noteq>)"] assms(1) by (simp add: map_pairs_ok_def distinct_sorted_wrt)
  have mem: "pr \<in> set ps" if "pr \<in> set ?l" for pr using list_emb_set [OF l that] by auto
  have root_count: "GetPathElementCount AbsoluteRootPath = 0" by (simp add: GetPathElementCount_def path_queries)
  have root: "pr = ?r" if pr: "pr \<in> set ?l" "GetPathElementCount (fst pr) \<le> 0" for pr
  proof (rule ccontr)
    assume "pr \<noteq> ?r"
    moreover have "pair_ok env pr" "\<not> IsEmpty (fst pr)"
      using mem [OF pr(1)] assms(1,2) by (auto simp: map_pairs_ok_def list_all_iff)
    ultimately show False using pr(2) map_side_cases [of env "fst pr"] by (auto simp: pair_ok_def GetPathElementCount_def)
  qed
  have "set ps' \<subseteq> set ?l"
    using assms(3) by (auto simp: Canonicalize_def Let_def dest: list.set_sel(2) split: if_splits)
  then have "?r \<in> set ?l" using r by blast
  then obtain x xs where x: "?l = x # xs" "?r \<in> set (x # xs)" by (cases ?l) auto
  have "GetPathElementCount (fst x) \<le> 0"
    using sorted x root_count by (auto simp: x(1))
  then have "x = ?r" using root [of x] x(1) by simp
  then have "ps' = xs" using assms(3) x(1) by (simp add: Canonicalize_def Let_def)
  then show False using r d x(1) \<open>x = ?r\<close> by simp
qed

lemma Canonicalize_created:
  assumes "comparator fless" "map_pairs_ok env ps" "entries_ok (entries ps False)" "plain_pairs ps" "shadow_free ps"
    and "list_all (\<lambda>(s, t). \<not> IsEmpty s) ps" "sorted_wrt (\<lambda>x y. \<not> PathPairOrder fless y x) ps"
    and "Canonicalize env ps = (ps', root)"
  shows "map_created env fless \<lparr>pairs = ps', hasRootIdentity = root, offset = off\<rparr>"
proof -
  have ok: "map_pairs_ok env ps'" "entries_ok (entries ps' root)"
    using Canonicalize_ok [OF assms(2-5,8)] by auto
  have sub: "subseq ps' ps" by (rule Canonicalize_subseq [OF assms(8)])
  have mem: "pr \<in> set ps" if "pr \<in> set ps'" for pr using list_emb_set [OF sub that] by auto
  have nonempty: "list_all (\<lambda>(s, t). \<not> IsEmpty s) ps'" using assms(6) mem by (auto simp: list_all_iff)
  have sides: "map_side env (fst pr) \<and> map_side env (snd pr)" if "pr \<in> set ps'" for pr
  proof -
    have "pair_ok env pr" "pr \<noteq> (AbsoluteRootPath, AbsoluteRootPath)"
      using ok(1) Canonicalize_root [OF assms(2,6,8)] that by (auto simp: map_pairs_ok_def list_all_iff)
    then show ?thesis by (simp add: pair_ok_def)
  qed
  have "list_all (\<lambda>(s, t). map_side env s \<and> map_side env t) ps'"
    unfolding list_all_iff using sides by (simp add: case_prod_beta)
  moreover have "plain_pairs ps'" using assms(4) mem by (auto simp: plain_pairs_def list_all_iff)
  moreover have "sorted_wrt (\<lambda>a b. PathLessThan fless (fst a) (fst b)) ps'"
    by (rule sources_strict [OF assms(1) ok nonempty sorted_wrt_subseq [OF sub assms(7)]])
  ultimately show ?thesis
    using ok nonempty by (auto simp: map_created_def canonical_def map_function_ok_def plain_pairs_def list_all_iff)
qed

lemma sorted_pairs_ok:
  assumes "comparator fless" "canonical env f" "map_created env fless g"
  shows "map_pairs_ok env (sorted_pairs env fless f g)" "entries_ok (entries (sorted_pairs env fless f g) False)"
    and "plain_pairs (sorted_pairs env fless f g)" "list_all (\<lambda>(s, t). \<not> IsEmpty s) (sorted_pairs env fless f g)"
    and "composes (function_entries f) (function_entries g) (entries (sorted_pairs env fless f g) False)"
proof -
  have set: "set (sorted_pairs env fless f g) = set (composed_pairs env fless f g)"
    using mset_sorted_pairs by (metis set_mset_mset)
  then have entries: "entries (sorted_pairs env fless f g) False = entries (composed_pairs env fless f g) False"
    by (simp add: entries_def)
  have "source_sorted (sorted_pairs env fless f g)"
    unfolding source_sorted_def
    by (rule sorted_wrt_mono_rel [OF _ sorted_pairs_weak [OF assms(1,3)]]) (rule PathPairOrder_count)
  moreover have "distinct (sorted_pairs env fless f g)"
    using composed_pairs_distinct [OF assms] mset_sorted_pairs mset_eq_imp_distinct_iff by metis
  moreover have "pair_ok env (a, b)" if "(a, b) \<in> set (sorted_pairs env fless f g)" for a b
    using composed_pairs_sides(1) [OF assms] that set by (auto simp: pair_ok_def)
  ultimately show "map_pairs_ok env (sorted_pairs env fless f g)" by (auto simp: map_pairs_ok_def list_all_iff)
  show "plain_pairs (sorted_pairs env fless f g)" "list_all (\<lambda>(s, t). \<not> IsEmpty s) (sorted_pairs env fless f g)"
    using composed_pairs_sides(2) [OF assms] by (auto simp: plain_pairs_def list_all_iff set)
  have g: "canonical env g" using assms(3) by (simp add: map_created_def)
  have ok: "entries_ok (function_entries g)" "entries_ok (function_entries f)"
    using g assms(2) by (simp_all add: canonical_def map_function_ok_def function_entries_def)
  show "entries_ok (entries (sorted_pairs env fless f g) False)"
    unfolding entries by (rule composed_entries_ok [OF ok composed_pairs_entries [OF assms]])
  show "composes (function_entries f) (function_entries g) (entries (sorted_pairs env fless f g) False)"
    unfolding entries by (rule composed_pairs_composes [OF assms])
qed

lemma shadow_free_set: "set ps = set qs \<Longrightarrow> shadow_free ps \<longleftrightarrow> shadow_free qs"
  by (simp add: shadow_free_def list_all_iff)

text \<open>The composed function satisfies the invariant, and maps what the entries of the composition map.\<close>

lemma ComposePathPairs_ok:
  assumes "comparator fless" "canonical env f" "map_created env fless g"
    and "shadow_free (composed_pairs env fless f g)" "ComposePathPairs env fless f g = (ps', root)"
  shows "map_created env fless \<lparr>pairs = ps', hasRootIdentity = root, offset = off\<rparr>"
    and "maps (function_entries g) x y \<Longrightarrow> maps (function_entries f) y z \<Longrightarrow> maps (entries ps' root) x z"
proof -
  note s = sorted_pairs_ok [OF assms(1-3)]
  have "set (sorted_pairs env fless f g) = set (composed_pairs env fless f g)"
    using mset_sorted_pairs by (metis set_mset_mset)
  then have free: "shadow_free (sorted_pairs env fless f g)" using assms(4) shadow_free_set by blast
  have c: "Canonicalize env (sorted_pairs env fless f g) = (ps', root)" using assms(5) by (simp add: ComposePathPairs_sorted)
  show "map_created env fless \<lparr>pairs = ps', hasRootIdentity = root, offset = off\<rparr>"
    by (rule Canonicalize_created [OF assms(1) s(1-3) free s(4) sorted_pairs_weak [OF assms(1,3)] c])
  assume m: "maps (function_entries g) x y" "maps (function_entries f) y z"
  have g: "canonical env g" using assms(3) by (simp add: map_created_def)
  have ok: "entries_ok (function_entries g)" "entries_ok (function_entries f)"
    using g assms(2) by (simp_all add: canonical_def map_function_ok_def function_entries_def)
  have "maps (entries (sorted_pairs env fless f g) False) x z" by (rule maps_compose [OF ok s(5) m])
  then show "maps (entries ps' root) x z" using Canonicalize_ok [OF s(1-3) free c] by simp
qed

lemma IsIdentity_maps:
  "IsIdentity ops f \<Longrightarrow> MapSourceToTarget env f p = p"
  by (auto simp: IsIdentity_def IsIdentityPathMapping_def MapSourceToTarget_def Map_def GetBestSourceMatch_def
      GetBestTargetMatch_def HasBetterTargetMatch_def std_upper_bound_def partition_point_loop.simps Let_def)


text \<open>C6: The composition of two functions with the invariant satisfies it again, and maps every path that the
  inner function maps to a path that the outer function maps, to where they map it. It takes that no
  composed entry that is an identity lies below the target of another entry, see
  \<open>Compose_loses_mapping\<close>.\<close>

theorem Compose_maps:
  assumes "comparator fless" "map_created env fless f" "map_created env fless g"
    and "shadow_free (composed_pairs env fless f g)"
    and "absolute_ok env p" "absolute_ok env q" "absolute_ok env r"
    and "MapSourceToTarget env g p = q" "MapSourceToTarget env f q = r"
  shows "map_created env fless (Compose env ops fless f g) \<and> MapSourceToTarget env (Compose env ops fless f g) p = r"
proof (cases "IsIdentity ops f \<or> IsIdentity ops g")
  case True
  have "r = q" if "IsIdentity ops f" using IsIdentity_maps [OF that] assms(9) by simp
  moreover have "q = p" if "IsIdentity ops g" using IsIdentity_maps [OF that] assms(8) by simp
  ultimately show ?thesis using True assms(2,3,8,9) by (auto simp: Compose_def)
next
  case False
  obtain ps' root where c: "ComposePathPairs env fless f g = (ps', root)" by fastforce
  let ?off = "offset_mult ops (offset f) (offset g)"
  have C: "Compose env ops fless f g = \<lparr>pairs = ps', hasRootIdentity = root, offset = ?off\<rparr>"
    using False c by (simp add: Compose_def)
  have can: "canonical env f" "canonical env g" using assms(2,3) by (simp_all add: map_created_def)
  then have ok: "map_function_ok env f" "map_function_ok env g" by (simp_all add: canonical_def)
  note comp_ok = ComposePathPairs_ok [OF assms(1) can(1) assms(3,4) c]
  have created: "map_created env fless (Compose env ops fless f g)" unfolding C by (rule comp_ok(1))
  then have okC: "map_function_ok env (Compose env ops fless f g)" by (simp add: map_created_def canonical_def)
  have m: "prop_part q = prop_part p" "maps (function_entries g) (prim_part p) (prim_part q)"
    "prop_part r = prop_part q" "maps (function_entries f) (prim_part q) (prim_part r)"
    using Map_function_maps1 [OF ok(2) assms(5,6)] Map_function_maps1 [OF ok(1) assms(6,7)] assms(8,9) by auto
  have "maps (entries ps' root) (prim_part p) (prim_part r)" by (rule comp_ok(2) [OF m(2,4)])
  then have "maps (function_entries (Compose env ops fless f g)) (prim_part p) (prim_part r)"
    by (simp add: C function_entries_def)
  then show ?thesis using created Map_function_maps1 [OF okC assms(5,7)] m(1,3) by simp
qed

section \<open>Examples\<close>

text \<open>Offsets that are natural numbers.\<close>

definition example_ops :: "nat offset_ops" where
  "example_ops = \<lparr>offset_identity = 0, offset_is_identity = (\<lambda>x. x = 0), offset_mult = (+), offset_inverse = id\<rparr>"

lemma comparator_less: "comparator ((<) :: sdf_path \<Rightarrow> sdf_path \<Rightarrow> bool)"
  by (rule comparator.intro) auto

definition example_other :: "nat PcpMapFunction" where
  "example_other = \<lparr>pairs = [(example_path [''B'', ''A'', ''B''], example_path [''A'', ''C''])],
     hasRootIdentity = True, offset = 0\<rparr>"

lemma example_path_ok:
  assumes "set names \<subseteq> {''A'', ''B'', ''C''}"
  shows "path_ok example_env (example_path names)"
proof -
  have "list_all (prim_node_ok example_env) (map PrimNode names)"
    using assms by (auto simp: list_all_iff parentPathElement_def)
  moreover have "names \<noteq> [] \<Longrightarrow> \<not> is_variant_selection (hd (map PrimNode names))" by (cases names) simp_all
  ultimately show ?thesis by (auto simp: example_path_def path_ok.simps prims_ok_def)
qed

lemma example_absolute:
  "set names \<subseteq> {''A'', ''B'', ''C''} \<Longrightarrow> absolute_ok example_env (example_path names)"
  using example_path_ok [of names] by (simp add: absolute_ok_def example_path_def)

lemma example_names_side:
  "set names \<subseteq> {''A'', ''B'', ''C''} \<Longrightarrow> names \<noteq> [] \<Longrightarrow> map_side example_env (example_path names) \<and> plain_side (example_path names)"
  using example_path_ok [of names] by (auto simp: map_side_def example_path_def plain_side_plain plain_def)

lemma example_key: "key (example_path names) = Some (map PrimNode names)"
  by (simp add: key_def example_path_def path_queries)

lemma example_created:
  "map_created example_env (<) (example_outer (0 :: nat))" "map_created example_env (<) example_other"
  "map_created example_env (<) (example_inner (0 :: nat))"
  by (simp_all add: map_created_def canonical_def map_function_ok_def map_pairs_ok_def source_sorted_def pair_ok_def
      example_outer_def example_other_def example_inner_def example_names_side entries_def entries_ok_def example_key)
    (simp_all add: example_path_def path_queries)

theorem Compose_maps_witness:
  "MapSourceToTarget example_env (Compose example_env example_ops (<) (example_outer 0) example_other)
     (example_path [''B'', ''A'', ''B'', ''C'']) = example_path [''B'', ''C'', ''C'']"
proof -
  have "shadow_free (composed_pairs example_env (<) (example_outer (0 :: nat)) example_other)"
    by code_simp
  moreover have "MapSourceToTarget example_env example_other (example_path [''B'', ''A'', ''B'', ''C'']) = example_path [''A'', ''C'', ''C'']"
    "MapSourceToTarget example_env (example_outer (0 :: nat)) (example_path [''A'', ''C'', ''C'']) = example_path [''B'', ''C'', ''C'']"
    by code_simp+
  ultimately show ?thesis
    using Compose_maps [OF comparator_less example_created(1,2), of "example_path [''B'', ''A'', ''B'', ''C'']"
        "example_path [''A'', ''C'', ''C'']" "example_path [''B'', ''C'', ''C'']" example_ops] example_absolute by simp
qed

lemma example_AC:
  "absolute_ok example_env (SdfPath AbsoluteRoot [PrimNode ''A'', PrimNode ''C''] [])"
  "absolute_ok example_env (SdfPath AbsoluteRoot [PrimNode ''B'', PrimNode ''C''] [])"
  using example_absolute [of "[''A'', ''C'']"] example_absolute [of "[''B'', ''C'']"] by (simp_all add: example_path_def)


theorem MapSourceToTarget_maps_witness:
  "MapSourceToTarget example_env (example_outer (0 :: nat)) (example_path [''A'', ''C'']) = example_path [''B'', ''C'']"
proof -
  have "map_function_ok example_env (example_outer (0 :: nat))"
    using example_created(1) by (simp add: map_created_def canonical_def)
  moreover have "maps (function_entries (example_outer (0 :: nat))) ([PrimNode ''A''] @ [PrimNode ''C'']) ([PrimNode ''B''] @ [PrimNode ''C''])"
    by (rule mapsI) (auto simp: function_entries_def example_outer_def entries_def example_key longest_def)
  ultimately show ?thesis
    using MapSourceToTarget_maps [of example_env "example_outer (0 :: nat)" "example_path [''A'', ''C'']" "example_path [''B'', ''C'']"]
      example_AC by (simp add: example_path_def)
qed

theorem MapSourceToTarget_bijection_witness:
  "MapTargetToSource example_env (example_outer (0 :: nat)) (example_path [''B'', ''C'']) = example_path [''A'', ''C'']"
proof -
  have "list_all (pair_ok example_env) (pairs (example_outer (0 :: nat)))" "source_sorted (pairs (example_outer (0 :: nat)))"
    using example_created(1) by (simp_all add: map_created_def canonical_def map_function_ok_def map_pairs_ok_def)
  from MapSourceToTarget_bijection [OF this, of "example_path [''A'', ''C'']" "example_path [''B'', ''C'']"]
  have "MapSourceToTarget example_env (example_outer (0 :: nat)) (example_path [''A'', ''C'']) = example_path [''B'', ''C''] \<longleftrightarrow>
      MapTargetToSource example_env (example_outer (0 :: nat)) (example_path [''B'', ''C'']) = example_path [''A'', ''C'']"
    using example_absolute by simp
  moreover have "MapSourceToTarget example_env (example_outer (0 :: nat)) (example_path [''A'', ''C'']) = example_path [''B'', ''C'']"
    by code_simp
  ultimately show ?thesis by simp
qed

theorem GetInverse_maps_back_witness:
  "MapTargetToSource example_env (GetInverse example_ops (<) (example_outer (0 :: nat))) (example_path [''A'', ''C'']) = example_path [''B'', ''C'']"
proof -
  have "map_function_ok example_env (example_outer (0 :: nat))"
    using example_created(1) by (simp add: map_created_def canonical_def)
  moreover have "MapSourceToTarget example_env (example_outer (0 :: nat)) (example_path [''A'', ''C'']) = example_path [''B'', ''C'']"
    by code_simp
  ultimately show ?thesis
    using GetInverse_maps_back [OF comparator_less, of example_env "example_outer (0 :: nat)" "example_path [''A'', ''C'']"
        "example_path [''B'', ''C'']" example_ops] example_absolute by simp
qed


end
