(* ===== verification/Pcp_MapExpression.thy ===== *)
theory Pcp_MapExpression
  imports Pcp_MapCompose "HOL-Library.Monad_Syntax"
begin

text \<open>
  Expressions of map functions (\<open>pxr/usd/pcp/mapExpression.cpp\<close>): shared nodes with reference
  counts, a registry that finds the node of an expression, cached values, and variables whose
  assignment invalidates what depends on them.

  The nodes are in a heap of addresses, in the order of their creation; a node that is deleted
  leaves its address free for good. The sets of dependent nodes are sorted lists of addresses.
  The code locks the nodes; the operations here run one after another.
\<close>

record 'o map_context =
  context_env :: path_env
  context_ops :: "'o offset_ops"
  context_less :: fast_less

datatype map_op =
  OpConstant | OpVariable | OpInverse | OpCompose | OpAddRootIdentity | OpImpliedClass

record 'o map_key =
  key_op :: map_op
  key_arg1 :: "nat option"
  key_arg2 :: "nat option"
  valueForConstant :: "'o PcpMapFunction"

record 'o map_node =
  node_key :: "'o map_key"
  expressionTreeAlwaysHasIdentity :: bool
  refCount :: int
  cachedValue :: "'o PcpMapFunction"
  hasCachedValue :: bool
  dependentExpressions :: "nat list"
  valueForVariable :: "'o PcpMapFunction"

text \<open>The state has the static data too: the registry, and the identity expression, which is made at
  the first use.\<close>

record 'o map_state =
  node_heap :: "'o map_node option list"
  nodeRegistry :: "'o map_key \<rightharpoonup> nat"
  identityExpression :: "nat option"

definition node_at :: "'o map_state \<Rightarrow> nat \<Rightarrow> 'o map_node option" where
  "node_at st n = (if n < length (node_heap st) then node_heap st ! n else None)"

definition modify_node :: "nat \<Rightarrow> ('o map_node \<Rightarrow> 'o map_node) \<Rightarrow> 'o map_state \<Rightarrow> 'o map_state" where
  "modify_node n f st = (case node_at st n of
     None \<Rightarrow> st
   | Some nd \<Rightarrow> st\<lparr>node_heap := (node_heap st)[n := Some (f nd)]\<rparr>)"

section \<open>Values\<close>

text \<open>Maps from paths to paths are lists in the order of \<open>FastLessThan\<close>: insertion, which keeps an
  entry that is there, and assignment.\<close>

fun path_map_insert :: "fast_less \<Rightarrow> sdf_path \<times> sdf_path \<Rightarrow> path_pair list \<Rightarrow> path_pair list" where
  "path_map_insert fless e [] = [e]"
| "path_map_insert fless e (x # xs) =
     (if fless (fst e) (fst x) then e # x # xs
      else if fless (fst x) (fst e) then x # path_map_insert fless e xs
      else x # xs)"

fun path_map_assign :: "fast_less \<Rightarrow> sdf_path \<times> sdf_path \<Rightarrow> path_pair list \<Rightarrow> path_pair list" where
  "path_map_assign fless e [] = [e]"
| "path_map_assign fless e (x # xs) =
     (if fless (fst e) (fst x) then e # x # xs
      else if fless (fst x) (fst e) then x # path_map_assign fless e xs
      else e # xs)"

definition SourceToTargetMap :: "fast_less \<Rightarrow> 'o PcpMapFunction \<Rightarrow> path_pair list" where
  "SourceToTargetMap fless f =
     (let m = foldl (\<lambda>m e. path_map_insert fless e m) [] (pairs f)
      in if hasRootIdentity f then path_map_assign fless (AbsoluteRootPath, AbsoluteRootPath) m else m)"

definition AddRootIdentity :: "'o map_context \<Rightarrow> 'o PcpMapFunction \<Rightarrow> 'o PcpMapFunction" where
  "AddRootIdentity c f =
     (if hasRootIdentity f then f
      else MapFunction_Create (context_env c) (context_ops c) (context_less c)
        (path_map_assign (context_less c) (AbsoluteRootPath, AbsoluteRootPath) (SourceToTargetMap (context_less c) f))
        (offset f))"

abbreviation ComposeValues :: "'o map_context \<Rightarrow> 'o PcpMapFunction \<Rightarrow> 'o PcpMapFunction \<Rightarrow> 'o PcpMapFunction" where
  "ComposeValues c \<equiv> Compose (context_env c) (context_ops c) (context_less c)"

abbreviation InverseValue :: "'o map_context \<Rightarrow> 'o PcpMapFunction \<Rightarrow> 'o PcpMapFunction" where
  "InverseValue c \<equiv> GetInverse (context_ops c) (context_less c)"

abbreviation ImpliedClassValue :: "'o map_context \<Rightarrow> 'o PcpMapFunction \<Rightarrow> 'o PcpMapFunction \<Rightarrow> 'o PcpMapFunction" where
  "ImpliedClassValue c \<equiv> ImpliedClass (context_env c) (context_ops c) (context_less c)"

section \<open>Nodes\<close>

definition ExpressionTreeAlwaysHasIdentity :: "'o map_state \<Rightarrow> 'o map_key \<Rightarrow> bool" where
  "ExpressionTreeAlwaysHasIdentity st k =
     (let has = (\<lambda>arg. case arg of None \<Rightarrow> False
            | Some n \<Rightarrow> (case node_at st n of None \<Rightarrow> False | Some nd \<Rightarrow> expressionTreeAlwaysHasIdentity nd))
      in case key_op k of
           OpAddRootIdentity \<Rightarrow> True
         | OpVariable \<Rightarrow> False
         | OpConstant \<Rightarrow> hasRootIdentity (valueForConstant k)
         | OpCompose \<Rightarrow> has (key_arg1 k) \<and> has (key_arg2 k)
         | OpImpliedClass \<Rightarrow> True
         | OpInverse \<Rightarrow> has (key_arg1 k) \<or> has (key_arg2 k))"

definition key_args :: "'o map_key \<Rightarrow> nat list" where
  "key_args k = (case key_arg1 k of None \<Rightarrow> [] | Some n \<Rightarrow> [n]) @ (case key_arg2 k of None \<Rightarrow> [] | Some n \<Rightarrow> [n])"

definition retain :: "'o map_state \<Rightarrow> nat \<Rightarrow> 'o map_state" where
  "retain st n = modify_node n (\<lambda>nd. nd\<lparr>refCount := refCount nd + 1\<rparr>) st"

definition set_insert :: "nat \<Rightarrow> nat list \<Rightarrow> nat list" where
  "set_insert n ns = (if n \<in> set ns then ns else insort n ns)"

definition add_dependent :: "nat \<Rightarrow> 'o map_state \<Rightarrow> nat \<Rightarrow> 'o map_state" where
  "add_dependent n st arg =
     modify_node arg (\<lambda>nd. nd\<lparr>dependentExpressions := set_insert n (dependentExpressions nd)\<rparr>) st"

definition erase_dependent :: "nat \<Rightarrow> 'o map_state \<Rightarrow> nat \<Rightarrow> 'o map_state" where
  "erase_dependent n st arg =
     modify_node arg (\<lambda>nd. nd\<lparr>dependentExpressions := removeAll n (dependentExpressions nd)\<rparr>) st"

text \<open>The constructor, with the reference of the pointer that is made for the node. The key of the node
  has references of its own to the arguments.\<close>

definition construct_node :: "'o map_context \<Rightarrow> 'o map_state \<Rightarrow> 'o map_key \<Rightarrow> nat \<times> 'o map_state" where
  "construct_node c st k =
     (let n = length (node_heap st);
          nd = \<lparr>node_key = k, expressionTreeAlwaysHasIdentity = ExpressionTreeAlwaysHasIdentity st k,
            refCount = 1, cachedValue = NullFunction (context_ops c), hasCachedValue = False,
            dependentExpressions = [], valueForVariable = NullFunction (context_ops c)\<rparr>;
          st = foldl retain st (key_args k);
          st = st\<lparr>node_heap := node_heap st @ [Some nd]\<rparr>
      in (n, foldl (add_dependent n) st (key_args k)))"

text \<open>A node that is in the registry is used again. The registry has a copy of the key, with references.\<close>

definition Node_New :: "'o map_context \<Rightarrow> 'o map_state \<Rightarrow> map_op \<Rightarrow> nat option \<Rightarrow> nat option \<Rightarrow> 'o PcpMapFunction
    \<Rightarrow> nat \<times> 'o map_state" where
  "Node_New c st op arg1 arg2 v =
     (let k = \<lparr>key_op = op, key_arg1 = arg1, key_arg2 = arg2, valueForConstant = v\<rparr> in
      if op \<noteq> OpVariable then
        (case nodeRegistry st k of
           Some n \<Rightarrow> (n, retain st n)
         | None \<Rightarrow>
             let (n, st) = construct_node c (foldl retain st (key_args k)) k
             in (n, st\<lparr>nodeRegistry := (nodeRegistry st)(k \<mapsto> n)\<rparr>))
      else construct_node c st k)"

section \<open>Evaluation\<close>

text \<open>\<open>None\<close> is an evaluation that does not return or follows a null pointer.\<close>

partial_function (option) EvaluateAndCache ::
    "'o map_context \<Rightarrow> 'o map_state \<Rightarrow> nat \<Rightarrow> ('o PcpMapFunction \<times> 'o map_state) option" where
  "EvaluateAndCache c st n =
     do {
       nd \<leftarrow> node_at st n;
       if hasCachedValue nd then Some (cachedValue nd, st)
       else do {
         (val, st) \<leftarrow>
           (case key_op (node_key nd) of
              OpConstant \<Rightarrow> Some (valueForConstant (node_key nd), st)
            | OpVariable \<Rightarrow> Some (valueForVariable nd, st)
            | OpInverse \<Rightarrow> do {
                arg1 \<leftarrow> key_arg1 (node_key nd);
                (v1, st) \<leftarrow> EvaluateAndCache c st arg1;
                Some (InverseValue c v1, st) }
            | OpCompose \<Rightarrow> do {
                arg1 \<leftarrow> key_arg1 (node_key nd);
                (v1, st) \<leftarrow> EvaluateAndCache c st arg1;
                arg2 \<leftarrow> key_arg2 (node_key nd);
                (v2, st) \<leftarrow> EvaluateAndCache c st arg2;
                Some (ComposeValues c v1 v2, st) }
            | OpAddRootIdentity \<Rightarrow> do {
                arg1 \<leftarrow> key_arg1 (node_key nd);
                (v1, st) \<leftarrow> EvaluateAndCache c st arg1;
                Some (AddRootIdentity c v1, st) }
            | OpImpliedClass \<Rightarrow> do {
                arg1 \<leftarrow> key_arg1 (node_key nd);
                (v1, st) \<leftarrow> EvaluateAndCache c st arg1;
                arg2 \<leftarrow> key_arg2 (node_key nd);
                (v2, st) \<leftarrow> EvaluateAndCache c st arg2;
                Some (ImpliedClassValue c v1 v2, st) });
         nd \<leftarrow> node_at st n;
         if hasCachedValue nd then Some (cachedValue nd, st)
         else Some (val, modify_node n (\<lambda>nd. nd\<lparr>cachedValue := val, hasCachedValue := True\<rparr>) st)
       }
     }"

text \<open>Invalidation: the calls for the dependent nodes are the ones that are next on the stack.\<close>

lemma length_filter_update:
  assumes "i < length xs" "P (xs ! i)" "\<not> P y"
  shows "length (filter P (xs[i := y])) < length (filter P xs)"
proof -
  have xs: "xs = take i xs @ xs ! i # drop (Suc i) xs" by (rule id_take_nth_drop [OF assms(1)])
  have "filter P (xs[i := y]) = filter P (take i xs) @ filter P (drop (Suc i) xs)"
    using assms(1,3) by (simp add: upd_conv_take_nth_drop)
  moreover have "filter P xs = filter P (take i xs) @ xs ! i # filter P (drop (Suc i) xs)"
    using assms(2) by (subst xs) simp
  ultimately show ?thesis by simp
qed

definition is_cached :: "'o map_node option \<Rightarrow> bool" where
  "is_cached x = (case x of None \<Rightarrow> False | Some nd \<Rightarrow> hasCachedValue nd)"

definition clear_cache :: "'o map_context \<Rightarrow> 'o map_node \<Rightarrow> 'o map_node" where
  "clear_cache c nd = nd\<lparr>hasCachedValue := False, cachedValue := NullFunction (context_ops c)\<rparr>"

function Invalidate_loop :: "'o map_context \<Rightarrow> nat list \<Rightarrow> 'o map_state \<Rightarrow> 'o map_state" where
  "Invalidate_loop c [] st = st"
| "Invalidate_loop c (n # ns) st =
     (case node_at st n of
        None \<Rightarrow> Invalidate_loop c ns st
      | Some nd \<Rightarrow>
          if hasCachedValue nd
          then Invalidate_loop c (dependentExpressions nd @ ns) (modify_node n (clear_cache c) st)
          else Invalidate_loop c ns st)"
  by pat_completeness auto
termination
proof (relation "measures [\<lambda>(c, ns, st). length (filter is_cached (node_heap st)), \<lambda>(c, ns, st). length ns]", goal_cases)
  case (3 c n ns st nd)
  then have "n < length (node_heap st)" "node_heap st ! n = Some nd" by (auto simp: node_at_def split: if_splits)
  then have "length (filter is_cached ((node_heap st)[n := Some (clear_cache c nd)])) < length (filter is_cached (node_heap st))"
    using 3(2) by (intro length_filter_update) (simp_all add: is_cached_def clear_cache_def)
  then show ?case using 3(1) by (simp add: modify_node_def)
qed simp_all

definition Invalidate :: "'o map_context \<Rightarrow> nat \<Rightarrow> 'o map_state \<Rightarrow> 'o map_state" where
  "Invalidate c n = Invalidate_loop c [n]"

definition SetValueForVariable :: "'o map_context \<Rightarrow> nat \<Rightarrow> 'o PcpMapFunction \<Rightarrow> 'o map_state \<Rightarrow> 'o map_state" where
  "SetValueForVariable c n v st =
     (case node_at st n of
        None \<Rightarrow> st
      | Some nd \<Rightarrow>
          if key_op (node_key nd) \<noteq> OpVariable then st
          else if valueForVariable nd \<noteq> v
          then Invalidate c n (modify_node n (\<lambda>nd. nd\<lparr>valueForVariable := v\<rparr>) st)
          else st)"

section \<open>References\<close>

text \<open>Dropping a reference. The last one deletes the node: it is taken out of the sets of its arguments and
  of the registry, and the references of the registered key and of its own key are dropped in turn.\<close>

definition delete_node :: "nat \<Rightarrow> 'o map_node \<Rightarrow> 'o map_state \<Rightarrow> nat list \<times> 'o map_state" where
  "delete_node n nd st =
     (let k = node_key nd;
          registered = key_op k \<noteq> OpVariable \<and> nodeRegistry st k = Some n;
          st = foldl (erase_dependent n) st (key_args k);
          st = (if registered then st\<lparr>nodeRegistry := (nodeRegistry st)(k := None)\<rparr> else st)
      in ((if registered then key_args k else []) @ rev (key_args k),
          st\<lparr>node_heap := (node_heap st)[n := None]\<rparr>))"

lemma node_at_modify: "node_at (modify_node n f st) m = (if m = n then map_option f (node_at st n) else node_at st m)"
  by (auto simp: modify_node_def node_at_def split: option.splits)

lemma node_at_foldl_modify:
  assumes "\<And>st a. g st a = modify_node a f st"
  shows "node_at (foldl g st as) m = map_option (f ^^ count_list as m) (node_at st m)"
proof (induction as arbitrary: st)
  case (Cons a as)
  have "f ^^ Suc k = (f ^^ k) \<circ> f" for k by (simp add: funpow_swap1 fun_eq_iff)
  then show ?case using Cons.IH [of "g st a"] by (simp add: assms node_at_modify option.map_comp o_def)
qed (simp add: option.map_id)

lemmas node_at_foldl_retain = node_at_foldl_modify [of retain, OF retain_def]
lemmas node_at_foldl_add = node_at_foldl_modify [of "add_dependent n" for n, OF add_dependent_def]
lemmas node_at_foldl_erase = node_at_foldl_modify [of "erase_dependent n" for n, OF erase_dependent_def]

lemma length_modify_node [simp]: "length (node_heap (modify_node n f st)) = length (node_heap st)"
  by (simp add: modify_node_def split: option.split)

definition live_count :: "'o map_state \<Rightarrow> nat" where
  "live_count st = length (filter (\<lambda>x. x \<noteq> None) (node_heap st))"

lemma live_modify: "map (\<lambda>x. x \<noteq> None) (node_heap (modify_node n f st)) = map (\<lambda>x. x \<noteq> None) (node_heap st)"
proof (cases "node_at st n")
  case (Some nd)
  then have "n < length (node_heap st)" "node_heap st ! n = Some nd" by (auto simp: node_at_def split: if_splits)
  then show ?thesis using Some by (simp add: modify_node_def map_update list_update_same_conv)
qed (simp add: modify_node_def)

lemma length_filter_of_map: "length (filter P xs) = length (filter id (map P xs))"
  by (induction xs) simp_all

lemma live_count_modify [simp]: "live_count (modify_node n f st) = live_count st"
  unfolding live_count_def length_filter_of_map [of "\<lambda>x. x \<noteq> None"] live_modify ..

lemma live_count_foldl_erase [simp]:
  "live_count (foldl (erase_dependent n) st as) = live_count st"
  by (induction as arbitrary: st) (simp_all add: erase_dependent_def)

lemma live_count_delete:
  assumes "node_at st n = Some nd"
  shows "live_count (snd (delete_node n nd st)) < live_count st"
proof -
  let ?st = "foldl (erase_dependent n) st (key_args (node_key nd))"
  have "node_at ?st n \<noteq> None" using assms by (simp add: node_at_foldl_erase)
  then have "n < length (node_heap ?st)" "node_heap ?st ! n \<noteq> None" by (auto simp: node_at_def split: if_splits)
  then have "length (filter (\<lambda>x. x \<noteq> None) ((node_heap ?st)[n := None])) < live_count ?st"
    unfolding live_count_def by (intro length_filter_update) simp_all
  also have "live_count ?st = live_count st" by simp
  finally have less: "length (filter (\<lambda>x. x \<noteq> None) ((node_heap ?st)[n := None])) < live_count st" .
  have "live_count (snd (delete_node n nd st)) = length (filter (\<lambda>x. x \<noteq> None) ((node_heap ?st)[n := None]))"
    by (simp add: delete_node_def live_count_def Let_def)
  then show ?thesis using less by (simp only:)
qed

function release_loop :: "nat list \<Rightarrow> 'o map_state \<Rightarrow> 'o map_state" where
  "release_loop [] st = st"
| "release_loop (n # ns) st =
     (case node_at st n of
        None \<Rightarrow> release_loop ns st
      | Some nd \<Rightarrow>
          if refCount nd = 1
          then release_loop (fst (delete_node n nd st) @ ns) (snd (delete_node n nd st))
          else release_loop ns (modify_node n (\<lambda>nd. nd\<lparr>refCount := refCount nd - 1\<rparr>) st))"
  by pat_completeness auto
termination
  by (relation "measures [\<lambda>(ns, st). live_count st, \<lambda>(ns, st). length ns]") (simp_all add: live_count_delete)

definition release :: "nat \<Rightarrow> 'o map_state \<Rightarrow> 'o map_state" where
  "release n = release_loop [n]"

section \<open>Expressions\<close>

text \<open>An expression is a pointer to a node, null for \<open>None\<close>. The operations return a new pointer, with a
  reference; a result \<open>None\<close> of an operation is an access through a null pointer.\<close>

type_synonym map_expression = "nat option"

definition copy_expression :: "'o map_state \<Rightarrow> map_expression \<Rightarrow> map_expression \<times> 'o map_state" where
  "copy_expression st e = (e, case e of None \<Rightarrow> st | Some n \<Rightarrow> retain st n)"

definition IsConstantIdentity :: "'o map_context \<Rightarrow> 'o map_state \<Rightarrow> map_expression \<Rightarrow> bool" where
  "IsConstantIdentity c st e =
     (case Option.bind e (node_at st) of
        None \<Rightarrow> False
      | Some nd \<Rightarrow> key_op (node_key nd) = OpConstant \<and> IsIdentity (context_ops c) (valueForConstant (node_key nd)))"

definition Evaluate :: "'o map_context \<Rightarrow> 'o map_state \<Rightarrow> map_expression \<Rightarrow> ('o PcpMapFunction \<times> 'o map_state) option" where
  "Evaluate c st e =
     (case e of None \<Rightarrow> Some (NullFunction (context_ops c), st) | Some n \<Rightarrow> EvaluateAndCache c st n)"

definition new_expression :: "'o map_context \<Rightarrow> 'o map_state \<Rightarrow> map_op \<Rightarrow> nat option \<Rightarrow> nat option \<Rightarrow> 'o PcpMapFunction
    \<Rightarrow> map_expression \<times> 'o map_state" where
  "new_expression c st op arg1 arg2 v = (let (n, st) = Node_New c st op arg1 arg2 v in (Some n, st))"

definition Constant :: "'o map_context \<Rightarrow> 'o map_state \<Rightarrow> 'o PcpMapFunction \<Rightarrow> map_expression \<times> 'o map_state" where
  "Constant c st v = new_expression c st OpConstant None None v"

definition Identity_expression :: "'o map_context \<Rightarrow> 'o map_state \<Rightarrow> map_expression \<times> 'o map_state" where
  "Identity_expression c st =
     (case identityExpression st of
        Some n \<Rightarrow> copy_expression st (Some n)
      | None \<Rightarrow>
          let (e, st) = Constant c st (Identity (context_ops c))
          in copy_expression (st\<lparr>identityExpression := e\<rparr>) e)"

definition expression_op :: "'o map_state \<Rightarrow> map_expression \<Rightarrow> map_op option" where
  "expression_op st e = map_option (\<lambda>nd. key_op (node_key nd)) (Option.bind e (node_at st))"

definition ImpliedClass_expression ::
    "'o map_context \<Rightarrow> 'o map_state \<Rightarrow> map_expression \<Rightarrow> map_expression \<Rightarrow> (map_expression \<times> 'o map_state) option" where
  "ImpliedClass_expression c st transferFunc classArc =
     (if IsConstantIdentity c st transferFunc then Some (copy_expression st classArc)
      else do {
        op \<leftarrow> expression_op st transferFunc;
        fold \<leftarrow> (if op = OpConstant then map_option (\<lambda>op. op = OpConstant) (expression_op st classArc) else Some False);
        if fold then do {
          (v1, st) \<leftarrow> Evaluate c st transferFunc;
          (v2, st) \<leftarrow> Evaluate c st classArc;
          Some (Constant c st (ImpliedClassValue c v1 v2)) }
        else Some (new_expression c st OpImpliedClass transferFunc classArc (NullFunction (context_ops c)))
      })"

definition Compose_expression ::
    "'o map_context \<Rightarrow> 'o map_state \<Rightarrow> map_expression \<Rightarrow> map_expression \<Rightarrow> (map_expression \<times> 'o map_state) option" where
  "Compose_expression c st this f =
     (if IsConstantIdentity c st this then Some (copy_expression st f)
      else if IsConstantIdentity c st f then Some (copy_expression st this)
      else do {
        op \<leftarrow> expression_op st this;
        fold \<leftarrow> (if op = OpConstant then map_option (\<lambda>op. op = OpConstant) (expression_op st f) else Some False);
        if fold then do {
          (v1, st) \<leftarrow> Evaluate c st this;
          (v2, st) \<leftarrow> Evaluate c st f;
          Some (Constant c st (ComposeValues c v1 v2)) }
        else Some (new_expression c st OpCompose this f (NullFunction (context_ops c)))
      })"

definition Inverse_expression ::
    "'o map_context \<Rightarrow> 'o map_state \<Rightarrow> map_expression \<Rightarrow> (map_expression \<times> 'o map_state) option" where
  "Inverse_expression c st this =
     (if IsConstantIdentity c st this then Some (copy_expression st this)
      else do {
        op \<leftarrow> expression_op st this;
        if op = OpConstant then do {
          (v1, st) \<leftarrow> Evaluate c st this;
          Some (Constant c st (InverseValue c v1)) }
        else Some (new_expression c st OpInverse this None (NullFunction (context_ops c)))
      })"

definition AddRootIdentity_expression ::
    "'o map_context \<Rightarrow> 'o map_state \<Rightarrow> map_expression \<Rightarrow> (map_expression \<times> 'o map_state) option" where
  "AddRootIdentity_expression c st this =
     (if IsConstantIdentity c st this then Some (copy_expression st this)
      else do {
        nd \<leftarrow> Option.bind this (node_at st);
        if key_op (node_key nd) = OpConstant then do {
          (v1, st) \<leftarrow> Evaluate c st this;
          Some (Constant c st (AddRootIdentity c v1)) }
        else if expressionTreeAlwaysHasIdentity nd then Some (copy_expression st this)
        else Some (new_expression c st OpAddRootIdentity this None (NullFunction (context_ops c)))
      })"

text \<open>A variable holds a reference to its node.\<close>

definition NewVariable :: "'o map_context \<Rightarrow> 'o map_state \<Rightarrow> 'o PcpMapFunction \<Rightarrow> nat \<times> 'o map_state" where
  "NewVariable c st v =
     (let (n, st) = Node_New c st OpVariable None None (NullFunction (context_ops c))
      in (n, SetValueForVariable c n v st))"

definition GetExpression :: "'o map_state \<Rightarrow> nat \<Rightarrow> map_expression \<times> 'o map_state" where
  "GetExpression st n = copy_expression st (Some n)"

definition GetValue :: "'o map_state \<Rightarrow> nat \<Rightarrow> 'o PcpMapFunction option" where
  "GetValue st n = map_option valueForVariable (node_at st n)"

definition drop_expression :: "'o map_state \<Rightarrow> map_expression \<Rightarrow> 'o map_state" where
  "drop_expression st e = (case e of None \<Rightarrow> st | Some n \<Rightarrow> release n st)"

end
