(* ===== verification/Pcp_ExpressionValues.thy ===== *)
theory Pcp_ExpressionValues
  imports Pcp_MapExpression
begin

text \<open>
  What the shared nodes of map expressions stand for: trees of operations on map functions. A node
  caches the value of its tree, evaluation returns it whatever is cached, and assigning a variable
  leaves no cached value that depends on it.
\<close>

section \<open>Trees\<close>

datatype 'o map_tree =
    Const "'o PcpMapFunction"
  | Var nat
  | Inv "'o map_tree"
  | Comp "'o map_tree" "'o map_tree"
  | AddRoot "'o map_tree"
  | Implied "'o map_tree" "'o map_tree"

primrec tree_value :: "'o map_context \<Rightarrow> (nat \<Rightarrow> 'o PcpMapFunction) \<Rightarrow> 'o map_tree \<Rightarrow> 'o PcpMapFunction" where
  "tree_value c vars (Const v) = v"
| "tree_value c vars (Var n) = vars n"
| "tree_value c vars (Inv t) = InverseValue c (tree_value c vars t)"
| "tree_value c vars (Comp t u) = ComposeValues c (tree_value c vars t) (tree_value c vars u)"
| "tree_value c vars (AddRoot t) = AddRootIdentity c (tree_value c vars t)"
| "tree_value c vars (Implied t u) = ImpliedClassValue c (tree_value c vars t) (tree_value c vars u)"

primrec tree_vars :: "'o map_tree \<Rightarrow> nat set" where
  "tree_vars (Const v) = {}"
| "tree_vars (Var n) = {n}"
| "tree_vars (Inv t) = tree_vars t"
| "tree_vars (Comp t u) = tree_vars t \<union> tree_vars u"
| "tree_vars (AddRoot t) = tree_vars t"
| "tree_vars (Implied t u) = tree_vars t \<union> tree_vars u"

lemma tree_value_cong:
  "(\<And>n. n \<in> tree_vars t \<Longrightarrow> vars n = vars' n) \<Longrightarrow> tree_value c vars t = tree_value c vars' t"
  by (induction t) simp_all

text \<open>A node represents a tree. That depends on the keys of the nodes only, which never change.\<close>

definition key_at :: "'o map_state \<Rightarrow> nat \<rightharpoonup> 'o map_key" where
  "key_at st n = map_option node_key (node_at st n)"

definition binary_key :: "map_op \<Rightarrow> 'o map_key \<Rightarrow> nat \<Rightarrow> nat \<Rightarrow> bool" where
  "binary_key op k a b \<longleftrightarrow> key_op k = op \<and> key_arg1 k = Some a \<and> key_arg2 k = Some b"

definition unary_key :: "map_op \<Rightarrow> 'o map_key \<Rightarrow> nat \<Rightarrow> bool" where
  "unary_key op k a \<longleftrightarrow> key_op k = op \<and> key_arg1 k = Some a \<and> key_arg2 k = None"

definition leaf_key :: "map_op \<Rightarrow> 'o map_key \<Rightarrow> bool" where
  "leaf_key op k \<longleftrightarrow> key_op k = op \<and> key_arg1 k = None \<and> key_arg2 k = None"

primrec represents :: "(nat \<rightharpoonup> 'o map_key) \<Rightarrow> nat \<Rightarrow> 'o map_tree \<Rightarrow> bool" where
  "represents keys n (Const v) \<longleftrightarrow> (\<exists>k. keys n = Some k \<and> leaf_key OpConstant k \<and> valueForConstant k = v)"
| "represents keys n (Var m) \<longleftrightarrow> m = n \<and> (\<exists>k. keys n = Some k \<and> leaf_key OpVariable k)"
| "represents keys n (Inv t) \<longleftrightarrow> (\<exists>k a. keys n = Some k \<and> unary_key OpInverse k a \<and> represents keys a t)"
| "represents keys n (Comp t u) \<longleftrightarrow>
     (\<exists>k a b. keys n = Some k \<and> binary_key OpCompose k a b \<and> represents keys a t \<and> represents keys b u)"
| "represents keys n (AddRoot t) \<longleftrightarrow> (\<exists>k a. keys n = Some k \<and> unary_key OpAddRootIdentity k a \<and> represents keys a t)"
| "represents keys n (Implied t u) \<longleftrightarrow>
     (\<exists>k a b. keys n = Some k \<and> binary_key OpImpliedClass k a b \<and> represents keys a t \<and> represents keys b u)"

lemmas key_shapes = binary_key_def unary_key_def leaf_key_def

lemma represents_unique: "represents keys n t \<Longrightarrow> represents keys n u \<Longrightarrow> t = u"
  by (induction t arbitrary: n u; case_tac u) (auto simp: key_shapes)

lemma represents_mono:
  assumes "keys \<subseteq>\<^sub>m keys'"
  shows "represents keys n t \<Longrightarrow> represents keys' n t"
proof -
  have keys: "keys n = Some k \<Longrightarrow> keys' n = Some k" for n k using assms by (force simp: map_le_def)
  show "represents keys n t \<Longrightarrow> represents keys' n t"
    by (induction t arbitrary: n) (simp; blast dest: keys)+
qed

lemma key_at_Some: "key_at st n = Some k \<longleftrightarrow> (\<exists>nd. node_at st n = Some nd \<and> node_key nd = k)"
  by (auto simp: key_at_def)

lemma represents_live: "represents (key_at st) n t \<Longrightarrow> \<exists>nd. node_at st n = Some nd"
  by (cases t) (auto simp: key_at_def)

definition key_ok :: "'o map_key \<Rightarrow> bool" where
  "key_ok k \<longleftrightarrow> (case key_op k of
      OpConstant \<Rightarrow> key_arg1 k = None \<and> key_arg2 k = None
    | OpVariable \<Rightarrow> key_arg1 k = None \<and> key_arg2 k = None
    | OpInverse \<Rightarrow> key_arg1 k \<noteq> None \<and> key_arg2 k = None
    | OpAddRootIdentity \<Rightarrow> key_arg1 k \<noteq> None \<and> key_arg2 k = None
    | OpCompose \<Rightarrow> key_arg1 k \<noteq> None \<and> key_arg2 k \<noteq> None
    | OpImpliedClass \<Rightarrow> key_arg1 k \<noteq> None \<and> key_arg2 k \<noteq> None)"

text \<open>The arguments of a live node are live and older, so every live node represents a tree.\<close>

definition keys_ok :: "(nat \<rightharpoonup> 'o map_key) \<Rightarrow> bool" where
  "keys_ok keys \<longleftrightarrow> (\<forall>n k. keys n = Some k \<longrightarrow> key_ok k \<and> (\<forall>a \<in> set (key_args k). a < n \<and> keys a \<noteq> None))"

lemma keys_okD:
  assumes "keys_ok keys" "keys n = Some k"
  shows "key_ok k" "a \<in> set (key_args k) \<Longrightarrow> a < n" "a \<in> set (key_args k) \<Longrightarrow> \<exists>j. keys a = Some j"
  using assms unfolding keys_ok_def by blast+

lemma represents_exists:
  assumes "keys_ok keys" "keys n = Some k"
  shows "\<exists>t. represents keys n t"
  using assms(2)
proof (induction n arbitrary: k rule: less_induct)
  case (less n)
  note ok = keys_okD [OF assms(1) less.prems]
  have arg: "\<exists>t. represents keys a t" if "a \<in> set (key_args k)" for a
    using less.IH ok(2,3) that by blast
  show ?case
  proof (cases "key_op k")
    case OpConstant
    then have "represents keys n (Const (valueForConstant k))"
      using ok(1) less.prems by (simp add: key_ok_def key_shapes)
    then show ?thesis ..
  next
    case OpVariable
    then have "represents keys n (Var n)" using ok(1) less.prems by (simp add: key_ok_def key_shapes)
    then show ?thesis ..
  next
    case OpInverse
    then obtain a where a: "key_arg1 k = Some a" "key_arg2 k = None" using ok(1) by (auto simp: key_ok_def)
    then obtain t where "represents keys a t" using arg by (auto simp: key_args_def)
    then have "represents keys n (Inv t)" using OpInverse a less.prems by (simp add: key_shapes)
    then show ?thesis ..
  next
    case OpCompose
    then obtain a b where ab: "key_arg1 k = Some a" "key_arg2 k = Some b" using ok(1) by (auto simp: key_ok_def)
    then obtain t u where "represents keys a t" "represents keys b u"
      using arg [of a] arg [of b] by (auto simp: key_args_def)
    then have "represents keys n (Comp t u)" using OpCompose ab less.prems by (simp add: key_shapes)
    then show ?thesis ..
  next
    case OpAddRootIdentity
    then obtain a where a: "key_arg1 k = Some a" "key_arg2 k = None" using ok(1) by (auto simp: key_ok_def)
    then obtain t where "represents keys a t" using arg by (auto simp: key_args_def)
    then have "represents keys n (AddRoot t)" using OpAddRootIdentity a less.prems by (simp add: key_shapes)
    then show ?thesis ..
  next
    case OpImpliedClass
    then obtain a b where ab: "key_arg1 k = Some a" "key_arg2 k = Some b" using ok(1) by (auto simp: key_ok_def)
    then obtain t u where "represents keys a t" "represents keys b u"
      using arg [of a] arg [of b] by (auto simp: key_args_def)
    then have "represents keys n (Implied t u)" using OpImpliedClass ab less.prems by (simp add: key_shapes)
    then show ?thesis ..
  qed
qed

section \<open>Cached values\<close>

definition variable_values :: "'o map_context \<Rightarrow> 'o map_state \<Rightarrow> nat \<Rightarrow> 'o PcpMapFunction" where
  "variable_values c st n = (case node_at st n of None \<Rightarrow> NullFunction (context_ops c) | Some nd \<Rightarrow> valueForVariable nd)"

definition cached :: "'o map_state \<Rightarrow> nat \<Rightarrow> bool" where
  "cached st n \<longleftrightarrow> (case node_at st n of None \<Rightarrow> False | Some nd \<Rightarrow> hasCachedValue nd)"

text \<open>If the value of a node is cached, then those of its arguments are, and it is the value of the
  tree.\<close>

definition args_cached :: "'o map_state \<Rightarrow> nat \<Rightarrow> bool" where
  "args_cached st n \<longleftrightarrow> (\<forall>k. key_at st n = Some k \<longrightarrow> (\<forall>a \<in> set (key_args k). cached st a))"

definition cache_ok :: "'o map_context \<Rightarrow> 'o map_state \<Rightarrow> bool" where
  "cache_ok c st \<longleftrightarrow> (\<forall>n nd. node_at st n = Some nd \<longrightarrow> hasCachedValue nd \<longrightarrow> args_cached st n \<and>
     (\<forall>t. represents (key_at st) n t \<longrightarrow> cachedValue nd = tree_value c (variable_values c st) t))"

text \<open>The state but for its caches.\<close>

definition without_caches :: "'o map_context \<Rightarrow> 'o map_state \<Rightarrow> 'o map_state" where
  "without_caches c st = st\<lparr>node_heap := map (map_option (clear_cache c)) (node_heap st)\<rparr>"

lemma node_at_without_caches: "node_at (without_caches c st) n = map_option (clear_cache c) (node_at st n)"
  by (simp add: node_at_def without_caches_def)

lemma clear_cache_fields [simp]:
  "node_key (clear_cache c nd) = node_key nd" "valueForVariable (clear_cache c nd) = valueForVariable nd"
  "refCount (clear_cache c nd) = refCount nd" "dependentExpressions (clear_cache c nd) = dependentExpressions nd"
  "expressionTreeAlwaysHasIdentity (clear_cache c nd) = expressionTreeAlwaysHasIdentity nd"
  by (simp_all add: clear_cache_def)

lemma key_at_without_caches: "key_at (without_caches c st) = key_at st"
  by (rule ext) (simp add: key_at_def node_at_without_caches option.map_comp o_def)

lemma variable_values_without_caches: "variable_values c (without_caches d st) = variable_values c st"
  by (rule ext) (simp add: variable_values_def node_at_without_caches split: option.split)

lemma same_keys: "without_caches c st = without_caches c st' \<Longrightarrow> key_at st = key_at st'"
  by (metis key_at_without_caches)

lemma same_variables: "without_caches c st = without_caches c st' \<Longrightarrow> variable_values d st = variable_values d st'"
  by (metis variable_values_without_caches)

lemma without_caches_modify:
  assumes "\<And>nd. clear_cache c (f nd) = clear_cache c nd"
  shows "without_caches c (modify_node n f st) = without_caches c st"
proof (cases "node_at st n")
  case (Some nd)
  then have "n < length (node_heap st)" "node_heap st ! n = Some nd" by (auto simp: node_at_def split: if_splits)
  then show ?thesis using Some assms by (simp add: without_caches_def modify_node_def map_update list_update_same_conv)
qed (simp add: modify_node_def)

section \<open>Evaluation\<close>

definition store_value :: "'o PcpMapFunction \<Rightarrow> nat \<Rightarrow> 'o map_state \<Rightarrow> 'o map_state" where
  "store_value val n = modify_node n (\<lambda>nd. nd\<lparr>cachedValue := val, hasCachedValue := True\<rparr>)"

lemma without_caches_store: "without_caches c (store_value val n st) = without_caches c st"
  unfolding store_value_def by (rule without_caches_modify) (simp add: clear_cache_def)

lemma cached_store: "cached (store_value val n st) m \<longleftrightarrow> m = n \<and> node_at st n \<noteq> None \<or> cached st m"
  by (auto simp: cached_def store_value_def node_at_modify split: option.splits)

lemma cache_ok_store:
  assumes "cache_ok c st" "represents (key_at st) n t" "args_cached st n"
  shows "cache_ok c (store_value (tree_value c (variable_values c st) t) n st)"
proof -
  let ?st = "store_value (tree_value c (variable_values c st) t) n st"
  have same: "key_at ?st = key_at st" "variable_values c ?st = variable_values c st"
    using same_keys [OF without_caches_store] same_variables [OF without_caches_store] by auto
  have more: "args_cached st m \<Longrightarrow> args_cached ?st m" for m
    unfolding args_cached_def same(1) cached_store by blast
  show ?thesis
    unfolding cache_ok_def same
  proof (intro allI impI)
    fix m nd assume m: "node_at ?st m = Some nd" "hasCachedValue nd"
    show "args_cached ?st m \<and> (\<forall>t. represents (key_at st) m t \<longrightarrow> cachedValue nd = tree_value c (variable_values c st) t)"
    proof (cases "m = n")
      case True
      then have "cachedValue nd = tree_value c (variable_values c st) t"
        using m(1) by (auto simp: store_value_def node_at_modify)
      then show ?thesis using True more [OF assms(3)] represents_unique [OF assms(2)] by auto
    next
      case False
      then have "node_at st m = Some nd" using m(1) by (simp add: store_value_def node_at_modify)
      then show ?thesis using assms(1) m(2) more unfolding cache_ok_def by blast
    qed
  qed
qed

text \<open>What an evaluation leaves: the value of the tree, and a state that differs in its caches only.\<close>

definition evaluated :: "'o map_context \<Rightarrow> 'o map_state \<Rightarrow> nat \<Rightarrow> 'o map_tree \<Rightarrow> ('o PcpMapFunction \<times> 'o map_state) option \<Rightarrow> bool" where
  "evaluated c st n t r \<longleftrightarrow> (\<exists>st'. r = Some (tree_value c (variable_values c st) t, st')
     \<and> cache_ok c st' \<and> without_caches c st' = without_caches c st \<and> (\<forall>m. cached st m \<longrightarrow> cached st' m) \<and> cached st' n)"

lemma evaluatedE:
  assumes "evaluated c st n t r"
  obtains st' where "r = Some (tree_value c (variable_values c st) t, st')" "cache_ok c st'"
    "without_caches c st' = without_caches c st" "\<And>m. cached st m \<Longrightarrow> cached st' m" "cached st' n"
    "key_at st' = key_at st" "variable_values c st' = variable_values c st"
  using assms same_keys same_variables unfolding evaluated_def by blast

lemma evaluated_finish:
  assumes "cache_ok c st1" "without_caches c st1 = without_caches c st" "\<And>m. cached st m \<Longrightarrow> cached st1 m"
    and "args_cached st1 n" "represents (key_at st) n t" "val = tree_value c (variable_values c st) t"
  shows "evaluated c st n t (do {
      nd \<leftarrow> node_at st1 n;
      if hasCachedValue nd then Some (cachedValue nd, st1)
      else Some (val, modify_node n (\<lambda>nd. nd\<lparr>cachedValue := val, hasCachedValue := True\<rparr>) st1) })"
proof -
  have same: "key_at st1 = key_at st" "variable_values c st1 = variable_values c st"
    using same_keys [OF assms(2)] same_variables [OF assms(2)] by auto
  obtain nd where nd: "node_at st1 n = Some nd" using represents_live [of st1 n t] assms(5) same(1) by auto
  show ?thesis
  proof (cases "hasCachedValue nd")
    case True
    then have "cachedValue nd = tree_value c (variable_values c st) t"
      using assms(1,5) nd same unfolding cache_ok_def by auto
    moreover have "cached st1 n" using nd True by (simp add: cached_def)
    ultimately show ?thesis using True nd assms(1,2,3) by (simp add: evaluated_def)
  next
    case False
    have "cache_ok c (store_value val n st1)"
      using cache_ok_store [OF assms(1) _ assms(4), of t] assms(5,6) same by simp
    moreover have "cached (store_value val n st1) n" using nd by (simp add: cached_store)
    moreover have "cached st m \<longrightarrow> cached (store_value val n st1) m" for m using assms(3) by (simp add: cached_store)
    ultimately show ?thesis
      using False nd assms(2,6) without_caches_store [of c val n st1] by (simp add: evaluated_def store_value_def)
  qed
qed

lemma evaluated_cached:
  assumes "cache_ok c st" "represents (key_at st) n t" "node_at st n = Some nd" "hasCachedValue nd"
  shows "evaluated c st n t (Some (cachedValue nd, st))"
proof -
  have "cachedValue nd = tree_value c (variable_values c st) t" using assms unfolding cache_ok_def by blast
  moreover have "cached st n" using assms(3,4) by (simp add: cached_def)
  ultimately show ?thesis using assms(1) by (simp add: evaluated_def)
qed

text \<open>The arguments are evaluated first; the second evaluation leaves the first argument cached.\<close>

lemma evaluated_unary:
  assumes "represents (key_at st) n t" "key_at st n = Some k" "key_args k = [a]" "evaluated c st a u r"
    and "tree_value c (variable_values c st) t = f (tree_value c (variable_values c st) u)"
  shows "evaluated c st n t (do {
      (v1, st1) \<leftarrow> r; 
      (val, st1) \<leftarrow> Some (f v1, st1);
      nd \<leftarrow> node_at st1 n;
      if hasCachedValue nd then Some (cachedValue nd, st1)
      else Some (val, modify_node n (\<lambda>nd. nd\<lparr>cachedValue := val, hasCachedValue := True\<rparr>) st1) })"
proof -
  obtain st1 where 1: "r = Some (tree_value c (variable_values c st) u, st1)" "cache_ok c st1"
    "without_caches c st1 = without_caches c st" "\<And>m. cached st m \<Longrightarrow> cached st1 m" "cached st1 a"
    "key_at st1 = key_at st" using assms(4) by (elim evaluatedE) blast
  have "args_cached st1 n" using 1(5,6) assms(2,3) by (simp add: args_cached_def)
  from evaluated_finish [OF 1(2-4) this assms(1) assms(5) [symmetric]] show ?thesis by (simp add: 1(1))
qed

lemma evaluated_binary:
  assumes "represents (key_at st) n t" "key_at st n = Some k" "key_args k = [a, b]"
    and "evaluated c st a u (EvaluateAndCache c st a)"
    and "\<And>st1. cache_ok c st1 \<Longrightarrow> key_at st1 = key_at st \<Longrightarrow> evaluated c st1 b w (EvaluateAndCache c st1 b)"
    and "tree_value c (variable_values c st) t =
      f (tree_value c (variable_values c st) u) (tree_value c (variable_values c st) w)"
  shows "evaluated c st n t (do {
      (v1, st1) \<leftarrow> EvaluateAndCache c st a;
      (v2, st1) \<leftarrow> EvaluateAndCache c st1 b;
      (val, st1) \<leftarrow> Some (f v1 v2, st1);
      nd \<leftarrow> node_at st1 n;
      if hasCachedValue nd then Some (cachedValue nd, st1)
      else Some (val, modify_node n (\<lambda>nd. nd\<lparr>cachedValue := val, hasCachedValue := True\<rparr>) st1) })"
proof -
  obtain st1 where 1: "EvaluateAndCache c st a = Some (tree_value c (variable_values c st) u, st1)" "cache_ok c st1"
    "without_caches c st1 = without_caches c st" "\<And>m. cached st m \<Longrightarrow> cached st1 m" "cached st1 a"
    "key_at st1 = key_at st" "variable_values c st1 = variable_values c st"
    using assms(4) by (elim evaluatedE) blast
  obtain st2 where 2: "EvaluateAndCache c st1 b = Some (tree_value c (variable_values c st1) w, st2)" "cache_ok c st2"
    "without_caches c st2 = without_caches c st1" "\<And>m. cached st1 m \<Longrightarrow> cached st2 m" "cached st2 b"
    "key_at st2 = key_at st1" using assms(5) [OF 1(2,6)] by (elim evaluatedE) blast
  have "args_cached st2 n" using 1(5,6) 2(4-6) assms(2,3) by (simp add: args_cached_def)
  from evaluated_finish [OF 2(2) _ _ this assms(1) assms(6) [symmetric]] show ?thesis
    using 1(3,4) 2(3,4) by (simp add: 1(1,7) 2(1))
qed

lemma EvaluateAndCache_evaluated:
  "cache_ok c st \<Longrightarrow> represents (key_at st) n t \<Longrightarrow> evaluated c st n t (EvaluateAndCache c st n)"
proof (induction t arbitrary: n st)
  case (Const v)
  then obtain nd where nd: "node_at st n = Some nd" "leaf_key OpConstant (node_key nd)" "valueForConstant (node_key nd) = v"
    by (auto simp: key_at_Some)
  then have "args_cached st n" by (simp add: args_cached_def key_at_def key_args_def key_shapes)
  from evaluated_finish [OF Const(1) refl _ this Const(2) refl] evaluated_cached [OF Const nd(1)] show ?case
    by (subst EvaluateAndCache.simps) (use nd in \<open>simp add: key_shapes split_def cong: if_cong\<close>)
next
  case (Var m)
  then obtain nd where nd: "node_at st n = Some nd" "leaf_key OpVariable (node_key nd)" "m = n"
    by (auto simp: key_at_Some)
  then have "args_cached st n" by (simp add: args_cached_def key_at_def key_args_def key_shapes)
  from evaluated_finish [OF Var(1) refl _ this Var(2) refl] evaluated_cached [OF Var nd(1)] show ?case
    by (subst EvaluateAndCache.simps) (use nd in \<open>simp add: key_shapes variable_values_def cong: if_cong\<close>)
next
  case (Inv t)
  then obtain nd a where nd: "node_at st n = Some nd" "unary_key OpInverse (node_key nd) a" "represents (key_at st) a t"
    by (auto simp: key_at_Some)
  have "key_args (node_key nd) = [a]" "key_at st n = Some (node_key nd)"
    using nd by (simp_all add: key_at_def key_args_def key_shapes)
  from evaluated_unary [where f = "InverseValue c", OF Inv(3) this(2,1) Inv(1) [OF Inv(2) nd(3)] tree_value.simps(3)] evaluated_cached [OF Inv(2,3) nd(1)]
  show ?case by (subst EvaluateAndCache.simps) (use nd in \<open>simp add: key_shapes split_def cong: if_cong\<close>)
next
  case (Comp t u)
  then obtain nd a b where nd: "node_at st n = Some nd" "binary_key OpCompose (node_key nd) a b"
    "represents (key_at st) a t" "represents (key_at st) b u"
    by (auto simp: key_at_Some)
  have k: "key_args (node_key nd) = [a, b]" "key_at st n = Some (node_key nd)"
    using nd by (simp_all add: key_at_def key_args_def key_shapes)
  have "evaluated c st1 b u (EvaluateAndCache c st1 b)" if "cache_ok c st1" "key_at st1 = key_at st" for st1
    using Comp(2) [OF that(1)] nd(4) that(2) by simp
  from evaluated_binary [where f = "ComposeValues c", OF Comp(4) k(2,1) Comp(1) [OF Comp(3) nd(3)] this tree_value.simps(4)]
    evaluated_cached [OF Comp(3,4) nd(1)]
  show ?case by (subst EvaluateAndCache.simps) (use nd in \<open>simp add: key_shapes split_def cong: if_cong\<close>)
next
  case (AddRoot t)
  then obtain nd a where nd: "node_at st n = Some nd" "unary_key OpAddRootIdentity (node_key nd) a" "represents (key_at st) a t"
    by (auto simp: key_at_Some)
  have "key_args (node_key nd) = [a]" "key_at st n = Some (node_key nd)"
    using nd by (simp_all add: key_at_def key_args_def key_shapes)
  from evaluated_unary [where f = "AddRootIdentity c", OF AddRoot(3) this(2,1) AddRoot(1) [OF AddRoot(2) nd(3)] tree_value.simps(5)]
    evaluated_cached [OF AddRoot(2,3) nd(1)]
  show ?case by (subst EvaluateAndCache.simps) (use nd in \<open>simp add: key_shapes split_def cong: if_cong\<close>)
next
  case (Implied t u)
  then obtain nd a b where nd: "node_at st n = Some nd" "binary_key OpImpliedClass (node_key nd) a b"
    "represents (key_at st) a t" "represents (key_at st) b u"
    by (auto simp: key_at_Some)
  have k: "key_args (node_key nd) = [a, b]" "key_at st n = Some (node_key nd)"
    using nd by (simp_all add: key_at_def key_args_def key_shapes)
  have "evaluated c st1 b u (EvaluateAndCache c st1 b)" if "cache_ok c st1" "key_at st1 = key_at st" for st1
    using Implied(2) [OF that(1)] nd(4) that(2) by simp
  from evaluated_binary [where f = "ImpliedClassValue c", OF Implied(4) k(2,1) Implied(1) [OF Implied(3) nd(3)] this tree_value.simps(6)]
    evaluated_cached [OF Implied(3,4) nd(1)]
  show ?case by (subst EvaluateAndCache.simps) (use nd in \<open>simp add: key_shapes split_def cong: if_cong\<close>)
qed

section \<open>Invalidation\<close>

definition dependents_ok :: "'o map_state \<Rightarrow> bool" where
  "dependents_ok st \<longleftrightarrow> (\<forall>n nd. node_at st n = Some nd \<longrightarrow>
     set (dependentExpressions nd) = {m. \<exists>k. key_at st m = Some k \<and> n \<in> set (key_args k)})"

lemma dependents_okD:
  "dependents_ok st \<Longrightarrow> node_at st n = Some nd \<Longrightarrow> m \<in> set (dependentExpressions nd) \<longleftrightarrow>
    (\<exists>k. key_at st m = Some k \<and> n \<in> set (key_args k))"
  unfolding dependents_ok_def by blast

lemma dependents_ok_without: "dependents_ok (without_caches c st) = dependents_ok st"
  unfolding dependents_ok_def key_at_without_caches node_at_without_caches by (force simp: map_option_case split: option.splits)

lemma same_dependents: "without_caches c st = without_caches c st' \<Longrightarrow> dependents_ok st = dependents_ok st'"
  by (metis dependents_ok_without)

definition closed_except :: "nat set \<Rightarrow> 'o map_state \<Rightarrow> bool" where
  "closed_except open_nodes st \<longleftrightarrow> (\<forall>m. cached st m \<longrightarrow> args_cached st m \<or> m \<in> open_nodes)"

text \<open>What the loop leaves: the nodes on the stack and all that depend on them are not cached, the others are as
  before.\<close>

lemma Invalidate_loop_effect:
  assumes "dependents_ok st" "closed_except (set ns) st"
  shows "without_caches c (Invalidate_loop c ns st) = without_caches c st
    \<and> closed_except {} (Invalidate_loop c ns st)
    \<and> (\<forall>m nd. node_at (Invalidate_loop c ns st) m = Some nd \<longrightarrow> hasCachedValue nd \<longrightarrow> node_at st m = Some nd)
    \<and> (\<forall>m \<in> set ns. \<not> cached (Invalidate_loop c ns st) m)"
  using assms
proof (induction c ns st rule: Invalidate_loop.induct)
  case (2 c n ns st)
  show ?case
  proof (cases "cached st n")
    case False
    then have "closed_except (set ns) st" using 2(5) by (auto simp: closed_except_def)
    moreover have loop: "Invalidate_loop c (n # ns) st = Invalidate_loop c ns st"
      using False by (auto simp: cached_def split: option.split)
    ultimately have IH: "without_caches c (Invalidate_loop c ns st) = without_caches c st
      \<and> closed_except {} (Invalidate_loop c ns st)
      \<and> (\<forall>m nd. node_at (Invalidate_loop c ns st) m = Some nd \<longrightarrow> hasCachedValue nd \<longrightarrow> node_at st m = Some nd)
      \<and> (\<forall>m \<in> set ns. \<not> cached (Invalidate_loop c ns st) m)"
      using 2(1,3,4) False by (cases "node_at st n") (auto simp: cached_def)
    then have "\<not> cached (Invalidate_loop c ns st) n"
      using False by (auto simp: cached_def split: option.splits)
    then show ?thesis unfolding loop using IH by simp
  next
    case True
    then obtain nd where nd: "node_at st n = Some nd" "hasCachedValue nd" by (auto simp: cached_def split: option.splits)
    let ?st = "modify_node n (clear_cache c) st" and ?ns = "dependentExpressions nd @ ns"
    have same: "without_caches c ?st = without_caches c st"
      by (rule without_caches_modify) (simp add: clear_cache_def)
    have cached: "cached ?st m \<longleftrightarrow> m \<noteq> n \<and> cached st m" for m
      using nd(1) by (auto simp: cached_def node_at_modify clear_cache_def)
    have "closed_except (set ?ns) ?st"
      unfolding closed_except_def
    proof (intro allI impI)
      fix m assume "cached ?st m"
      then have m: "m \<noteq> n" "cached st m" by (simp_all add: cached)
      then have "args_cached st m \<or> m \<in> set ns" using 2(5) by (auto simp: closed_except_def)
      moreover have "args_cached ?st m" if "args_cached st m" "m \<notin> set (dependentExpressions nd)"
        unfolding args_cached_def same_keys [OF same] cached
        using that dependents_okD [OF 2(4) nd(1), of m] by (auto simp: args_cached_def)
      ultimately show "args_cached ?st m \<or> m \<in> set ?ns" by auto
    qed
    moreover have "dependents_ok ?st" using same_dependents [OF same] 2(4) by simp
    ultimately have IH: "without_caches c (Invalidate_loop c ?ns ?st) = without_caches c ?st
      \<and> closed_except {} (Invalidate_loop c ?ns ?st)
      \<and> (\<forall>m nd. node_at (Invalidate_loop c ?ns ?st) m = Some nd \<longrightarrow> hasCachedValue nd \<longrightarrow> node_at ?st m = Some nd)
      \<and> (\<forall>m \<in> set ?ns. \<not> cached (Invalidate_loop c ?ns ?st) m)"
      using 2(2) [OF nd] by blast
    have old_node: "node_at st m = Some d \<and> m \<noteq> n" if "node_at ?st m = Some d" "hasCachedValue d" for m d
      using that nd(1) by (auto simp: node_at_modify clear_cache_def split: if_splits)
    have "\<not> cached (Invalidate_loop c ?ns ?st) n"
      using IH old_node [of n] by (auto simp: cached_def split: option.splits)
    moreover have "Invalidate_loop c (n # ns) st = Invalidate_loop c ?ns ?st" using nd by simp
    ultimately show ?thesis using IH same old_node by (simp del: Invalidate_loop.simps)
  qed
qed (simp add: closed_except_def)

declare Invalidate_loop.simps [simp del]

text \<open>What is cached depends on cached nodes only.\<close>

lemma cached_vars:
  assumes "closed_except {} st" "represents (key_at st) n t" "cached st n" "m \<in> tree_vars t"
  shows "cached st m"
  using assms(2-4)
  by (induction t arbitrary: n) (use assms(1) in \<open>fastforce simp: closed_except_def args_cached_def key_args_def key_shapes\<close>)+

section \<open>Assigning a variable\<close>

lemma cache_ok_closed: "cache_ok c st \<Longrightarrow> closed_except {} st"
  by (auto simp: cache_ok_def closed_except_def cached_def split: option.splits)

lemma SetValueForVariable_ok:
  assumes "cache_ok c st" "dependents_ok st" "node_at st n = Some nd" "key_op (node_key nd) = OpVariable"
  shows "cache_ok c (SetValueForVariable c n v st)"
    and "without_caches c (SetValueForVariable c n v st) =
      without_caches c (modify_node n (\<lambda>nd. nd\<lparr>valueForVariable := v\<rparr>) st)"
proof -
  let ?set = "\<lambda>nd. nd\<lparr>valueForVariable := v\<rparr>"
  let ?st = "modify_node n ?set st"
  let ?st' = "Invalidate_loop c [n] ?st"
  have node: "node_at ?st m = (if m = n then Some (?set nd) else node_at st m)" for m
    using assms(3) by (simp add: node_at_modify)
  have keys: "key_at ?st = key_at st" by (rule ext) (simp add: key_at_def node assms(3))
  have cached: "cached ?st = cached st" by (rule ext) (simp add: cached_def node assms(3))
  have deps: "dependents_ok ?st"
    unfolding dependents_ok_def keys using assms(2,3) by (auto simp: node dependents_ok_def)
  have closed: "closed_except {} ?st"
    using cache_ok_closed [OF assms(1)] by (simp add: closed_except_def cached args_cached_def keys)
  then have open_n: "closed_except (set [n]) ?st" by (auto simp: closed_except_def)
  note effect = Invalidate_loop_effect [OF deps open_n, of c]
  have same: "without_caches c ?st' = without_caches c ?st" and closed': "closed_except {} ?st'"
    and n: "\<not> cached ?st' n" using effect by auto
  have keys': "key_at ?st' = key_at st" and vars': "variable_values c ?st' = variable_values c ?st"
    using same_keys [OF same] same_variables [OF same] keys by simp_all
  have invalidated: "cache_ok c ?st'"
    unfolding cache_ok_def
  proof (intro allI impI conjI)
    fix m d assume m: "node_at ?st' m = Some d" "hasCachedValue d"
    then have c': "cached ?st' m" by (simp add: cached_def)
    then show "args_cached ?st' m" using closed' by (simp add: closed_except_def)
    fix t assume t: "represents (key_at ?st') m t"
    have "node_at ?st m = Some d" using effect m by blast
    then have d: "node_at st m = Some d" using c' n by (auto simp: node split: if_splits)
    have "n \<notin> tree_vars t" using cached_vars [OF closed' t c'] n by blast
    then have "tree_value c (variable_values c ?st) t = tree_value c (variable_values c st) t"
      by (intro tree_value_cong) (auto simp: variable_values_def node)
    moreover have "cachedValue d = tree_value c (variable_values c st) t"
      using assms(1) d m(2) t keys' unfolding cache_ok_def by auto
    ultimately show "cachedValue d = tree_value c (variable_values c ?st') t" unfolding vars' by simp
  qed
  have "SetValueForVariable c n v st = ?st' \<or> SetValueForVariable c n v st = st \<and> ?st = st"
  proof (cases "valueForVariable nd = v")
    case True
    then have "?set nd = nd" by auto
    then have "?st = st" using assms(3) by (auto simp: modify_node_def node_at_def list_update_same_conv split: if_splits)
    then show ?thesis using True assms(3,4) by (simp add: SetValueForVariable_def)
  qed (use assms(3,4) in \<open>simp add: SetValueForVariable_def Invalidate_def\<close>)
  then show "cache_ok c (SetValueForVariable c n v st)"
    "without_caches c (SetValueForVariable c n v st) = without_caches c ?st"
    using invalidated same assms(1) by metis+
qed

end
