(* ===== verification/Pcp_ExpressionStore.thy ===== *)
theory Pcp_ExpressionStore
  imports Pcp_ExpressionValues
begin

text \<open>
  The store of expression nodes: its invariant, with the reference counts against the references
  that clients hold, and that every operation keeps it. A node that a client refers to is never
  deleted, nor is anything it needs.
\<close>

section \<open>The invariant\<close>

text \<open>The references that keys hold: one of the node, one of the registry.\<close>

definition held :: "(nat \<rightharpoonup> 'o map_key) \<Rightarrow> nat \<Rightarrow> nat" where
  "held keys n = (\<Sum>m \<in> dom keys. 2 * count_list (key_args (the (keys m))) n)"

definition registry_ok :: "'o map_state \<Rightarrow> bool" where
  "registry_ok st \<longleftrightarrow> (\<forall>k n. nodeRegistry st k = Some n \<longleftrightarrow> key_at st n = Some k \<and> key_op k \<noteq> OpVariable)"

definition flags_ok :: "'o map_state \<Rightarrow> bool" where
  "flags_ok st \<longleftrightarrow> (\<forall>n nd. node_at st n = Some nd \<longrightarrow>
     expressionTreeAlwaysHasIdentity nd = ExpressionTreeAlwaysHasIdentity st (node_key nd))"

definition count_ok :: "(nat \<rightharpoonup> 'o map_key) \<Rightarrow> (nat \<Rightarrow> nat) \<Rightarrow> nat \<Rightarrow> 'o map_node option \<Rightarrow> bool" where
  "count_ok keys refs n x \<longleftrightarrow> (case x of
       None \<Rightarrow> refs n = 0
     | Some nd \<Rightarrow> refCount nd = int (refs n + held keys n) \<and> 0 < refs n + held keys n)"

definition counts_ok :: "(nat \<Rightarrow> nat) \<Rightarrow> 'o map_state \<Rightarrow> bool" where
  "counts_ok refs st \<longleftrightarrow> (\<forall>n. count_ok (key_at st) refs n (node_at st n))"

definition links_ok :: "(nat \<Rightarrow> nat) \<Rightarrow> 'o map_state \<Rightarrow> bool" where
  "links_ok refs st \<longleftrightarrow> keys_ok (key_at st) \<and> dependents_ok st \<and> registry_ok st \<and> flags_ok st \<and> counts_ok refs st"

definition store_ok :: "'o map_context \<Rightarrow> (nat \<Rightarrow> nat) \<Rightarrow> 'o map_state \<Rightarrow> bool" where
  "store_ok c refs st \<longleftrightarrow> links_ok refs st \<and> cache_ok c st"

lemma dom_key_at: "dom (key_at st) \<subseteq> {..<length (node_heap st)}"
  by (auto simp: key_at_def node_at_def split: if_splits)

lemma finite_dom_key_at: "finite (dom (key_at st))"
  by (rule finite_subset [OF dom_key_at]) simp

lemma held_insert:
  assumes "finite (dom keys)" "keys n = None"
  shows "held (keys(n \<mapsto> k)) m = held keys m + 2 * count_list (key_args k) m"
proof -
  have n: "n \<notin> dom keys" using assms(2) by (simp add: domIff)
  have "(\<Sum>i \<in> dom keys. 2 * count_list (key_args (the ((keys(n \<mapsto> k)) i))) m) = held keys m"
    unfolding held_def by (rule sum.cong) (use n in auto)
  then show ?thesis using assms(1) n by (simp add: held_def)
qed

lemma held_remove:
  assumes "finite (dom keys)" "keys n = Some k"
  shows "held keys m = held (keys(n := None)) m + 2 * count_list (key_args k) m"
proof -
  have "keys = (keys(n := None))(n \<mapsto> k)" using assms(2) by auto
  moreover have "finite (dom (keys(n := None)))" using assms(1) by simp
  ultimately show ?thesis using held_insert [of "keys(n := None)" n k m] by simp
qed

lemma held_zero:
  assumes "finite (dom keys)" "held keys n = 0" "keys m = Some k"
  shows "n \<notin> set (key_args k)"
proof -
  have "m \<in> dom keys" using assms(3) by auto
  then have "2 * count_list (key_args k) n = 0" using assms by (simp add: held_def) (metis assms(3) option.sel)
  then show ?thesis by (simp add: count_list_0_iff)
qed

text \<open>The flag of a node is made from those of its arguments.\<close>

definition flag_at :: "'o map_state \<Rightarrow> nat \<Rightarrow> bool" where
  "flag_at st n \<longleftrightarrow> (case node_at st n of None \<Rightarrow> False | Some nd \<Rightarrow> expressionTreeAlwaysHasIdentity nd)"

lemma ExpressionTreeAlwaysHasIdentity_flags:
  "ExpressionTreeAlwaysHasIdentity st k =
     (case key_op k of
        OpAddRootIdentity \<Rightarrow> True
      | OpVariable \<Rightarrow> False
      | OpConstant \<Rightarrow> hasRootIdentity (valueForConstant k)
      | OpCompose \<Rightarrow> (\<exists>a. key_arg1 k = Some a \<and> flag_at st a) \<and> (\<exists>a. key_arg2 k = Some a \<and> flag_at st a)
      | OpImpliedClass \<Rightarrow> True
      | OpInverse \<Rightarrow> (\<exists>a. key_arg1 k = Some a \<and> flag_at st a) \<or> (\<exists>a. key_arg2 k = Some a \<and> flag_at st a))"
  unfolding ExpressionTreeAlwaysHasIdentity_def Let_def flag_at_def
  by (auto split: map_op.split option.splits)

lemma ExpressionTreeAlwaysHasIdentity_cong:
  assumes "\<And>a. a \<in> set (key_args k) \<Longrightarrow> flag_at st a = flag_at st' a"
  shows "ExpressionTreeAlwaysHasIdentity st k = ExpressionTreeAlwaysHasIdentity st' k"
proof -
  have "(\<exists>a. key_arg1 k = Some a \<and> flag_at st a) = (\<exists>a. key_arg1 k = Some a \<and> flag_at st' a)"
    "(\<exists>a. key_arg2 k = Some a \<and> flag_at st a) = (\<exists>a. key_arg2 k = Some a \<and> flag_at st' a)"
    using assms by (auto simp: key_args_def)
  then show ?thesis unfolding ExpressionTreeAlwaysHasIdentity_flags by (cases "key_op k") simp_all
qed

text \<open>The invariant of the links does not depend on values.\<close>

definition same_links :: "'o map_node \<Rightarrow> 'o map_node \<Rightarrow> bool" where
  "same_links nd nd' \<longleftrightarrow> node_key nd = node_key nd' \<and> refCount nd = refCount nd'
     \<and> expressionTreeAlwaysHasIdentity nd = expressionTreeAlwaysHasIdentity nd'
     \<and> dependentExpressions nd = dependentExpressions nd'"

lemma links_ok_cong:
  assumes same: "\<And>n. rel_option same_links (node_at st n) (node_at st' n)"
    and reg: "nodeRegistry st' = nodeRegistry st"
  shows "links_ok refs st \<Longrightarrow> links_ok refs st'"
proof -
  assume ok: "links_ok refs st"
  have keys: "key_at st' = key_at st"
  proof
    fix n show "key_at st' n = key_at st n"
      using same [of n] by (cases rule: option.rel_cases) (auto simp: key_at_def same_links_def)
  qed
  have old: "\<exists>nd. node_at st n = Some nd \<and> same_links nd nd'" if "node_at st' n = Some nd'" for n nd'
    using same [of n] that by (auto elim: option.rel_cases)
  have has: "ExpressionTreeAlwaysHasIdentity st' k = ExpressionTreeAlwaysHasIdentity st k" for k
  proof (rule ExpressionTreeAlwaysHasIdentity_cong)
    show "flag_at st' a = flag_at st a" for a
      using same [of a] by (cases rule: option.rel_cases) (auto simp: flag_at_def same_links_def)
  qed
  have "dependents_ok st'"
    unfolding dependents_ok_def keys
  proof (intro allI impI)
    fix n nd' assume "node_at st' n = Some nd'"
    then obtain nd where "node_at st n = Some nd" "dependentExpressions nd' = dependentExpressions nd"
      using old by (force simp: same_links_def)
    then show "set (dependentExpressions nd') = {m. \<exists>k. key_at st m = Some k \<and> n \<in> set (key_args k)}"
      using ok by (simp add: links_ok_def dependents_ok_def)
  qed
  moreover have "flags_ok st'"
    unfolding flags_ok_def has
  proof (intro allI impI)
    fix n nd' assume "node_at st' n = Some nd'"
    then obtain nd where "node_at st n = Some nd" "same_links nd nd'" using old by blast
    then show "expressionTreeAlwaysHasIdentity nd' = ExpressionTreeAlwaysHasIdentity st (node_key nd')"
      using ok by (auto simp: links_ok_def flags_ok_def same_links_def)
  qed
  moreover have "counts_ok refs st'"
    unfolding counts_ok_def keys
  proof
    fix n
    have count: "count_ok (key_at st) refs n (node_at st n)" using ok by (simp add: links_ok_def counts_ok_def)
    show "count_ok (key_at st) refs n (node_at st' n)"
      using same [of n] count by (cases rule: option.rel_cases) (auto simp: count_ok_def same_links_def)
  qed
  moreover have "registry_ok st'" using ok reg by (simp add: links_ok_def registry_ok_def keys)
  ultimately show ?thesis using ok keys by (simp add: links_ok_def)
qed

lemma links_ok_modify:
  assumes "\<And>nd. same_links nd (f nd)"
  shows "links_ok refs st \<Longrightarrow> links_ok refs (modify_node n f st)"
proof (rule links_ok_cong)
  show "rel_option same_links (node_at st m) (node_at (modify_node n f st) m)" for m
    using assms by (cases "node_at st m") (auto simp: node_at_modify same_links_def)
qed (simp_all add: modify_node_def split: option.split)

lemma links_ok_caches:
  assumes "without_caches c st' = without_caches c st" "links_ok refs st"
  shows "links_ok refs st'"
proof (rule links_ok_cong [OF _ _ assms(2)])
  fix n
  have "map_option (clear_cache c) (node_at st' n) = map_option (clear_cache c) (node_at st n)"
    using assms(1) by (metis node_at_without_caches)
  then show "rel_option same_links (node_at st n) (node_at st' n)"
    by (cases "node_at st n"; cases "node_at st' n") (simp_all add: same_links_def, metis clear_cache_fields)
next
  show "nodeRegistry st' = nodeRegistry st"
    using arg_cong [OF assms(1), of nodeRegistry] by (simp add: without_caches_def)
qed

section \<open>References\<close>

text \<open>Only counts change, together with the references that are told to be there.\<close>

lemma links_ok_counts:
  assumes ok: "links_ok refs st"
    and node: "\<And>m. node_at st' m = map_option (\<lambda>nd. nd\<lparr>refCount := refCount nd + d m\<rparr>) (node_at st m)"
    and reg: "nodeRegistry st' = nodeRegistry st"
    and live: "\<And>m nd. node_at st m = Some nd \<Longrightarrow> int (refs' m) = int (refs m) + d m \<and> 0 < refs' m + held (key_at st) m"
    and dead: "\<And>m. node_at st m = None \<Longrightarrow> refs' m = 0"
  shows "links_ok refs' st'" "key_at st' = key_at st" "variable_values c st' = variable_values c st"
    and "cache_ok c st \<Longrightarrow> cache_ok c st'"
proof -
  show keys: "key_at st' = key_at st" by (rule ext) (simp add: key_at_def node option.map_comp o_def)
  show vars: "variable_values c st' = variable_values c st"
    by (rule ext) (simp add: variable_values_def node split: option.split)
  have flags: "flag_at st' = flag_at st" by (rule ext) (simp add: flag_at_def node split: option.split)
  have has: "ExpressionTreeAlwaysHasIdentity st' k = ExpressionTreeAlwaysHasIdentity st k" for k
    by (rule ExpressionTreeAlwaysHasIdentity_cong) (simp add: flags)
  have "dependents_ok st'" using ok by (auto simp: links_ok_def dependents_ok_def keys node)
  moreover have "flags_ok st'" using ok by (auto simp: links_ok_def flags_ok_def has node)
  moreover have "registry_ok st'" using ok by (simp add: links_ok_def registry_ok_def keys reg)
  moreover have "counts_ok refs' st'"
    unfolding counts_ok_def keys
  proof
    fix m
    have old: "count_ok (key_at st) refs m (node_at st m)" using ok by (simp add: links_ok_def counts_ok_def)
    show "count_ok (key_at st) refs' m (node_at st' m)"
    proof (cases "node_at st m")
      case None
      then show ?thesis using dead by (simp add: node count_ok_def)
    next
      case (Some nd)
      then show ?thesis using live [OF Some] old by (simp add: node count_ok_def)
    qed
  qed
  ultimately show "links_ok refs' st'" using ok by (simp add: links_ok_def keys)
  have cached: "cached st' = cached st" by (rule ext) (simp add: cached_def node split: option.split)
  show "cache_ok c st'" if "cache_ok c st"
    using that unfolding cache_ok_def args_cached_def keys vars cached by (auto simp: node)
qed

lemma funpow_retain: "(\<lambda>nd. nd\<lparr>refCount := refCount nd + 1\<rparr>) ^^ j = (\<lambda>nd. nd\<lparr>refCount := refCount nd + int j\<rparr>)"
  by (induction j) (simp_all add: fun_eq_iff)

lemma registry_foldl_modify:
  assumes "\<And>st a. g st a = modify_node a f st"
  shows "nodeRegistry (foldl g st as) = nodeRegistry st" "length (node_heap (foldl g st as)) = length (node_heap st)"
  by (induction as arbitrary: st) (simp_all add: assms modify_node_def split: option.split)

lemmas foldl_retain = registry_foldl_modify [of retain, OF retain_def]
lemmas foldl_add_dependent = registry_foldl_modify [of "add_dependent n" for n, OF add_dependent_def]
lemmas foldl_erase_dependent = registry_foldl_modify [of "erase_dependent n" for n, OF erase_dependent_def]

lemma retain_all:
  assumes "links_ok refs st" "\<forall>a \<in> set as. key_at st a \<noteq> None"
  shows "links_ok (\<lambda>m. refs m + count_list as m) (foldl retain st as)" "key_at (foldl retain st as) = key_at st"
    and "variable_values c (foldl retain st as) = variable_values c st"
    and "cache_ok c st \<Longrightarrow> cache_ok c (foldl retain st as)"
proof -
  have node: "node_at (foldl retain st as) m =
      map_option (\<lambda>nd. nd\<lparr>refCount := refCount nd + int (count_list as m)\<rparr>) (node_at st m)" for m
    by (simp add: node_at_foldl_retain funpow_retain)
  have pos: "0 < refs m + count_list as m + held (key_at st) m" if "node_at st m = Some nd" for m nd
    using assms(1) that by (auto simp: links_ok_def counts_ok_def count_ok_def dest!: spec [of _ m])
  have dead: "refs m + count_list as m = 0" if "node_at st m = None" for m
    using assms that by (auto simp: links_ok_def counts_ok_def count_ok_def key_at_def count_list_0_iff dest!: spec [of _ m])
  note counts = links_ok_counts [OF assms(1) node foldl_retain(1), where refs' = "\<lambda>m. refs m + count_list as m"]
  show "links_ok (\<lambda>m. refs m + count_list as m) (foldl retain st as)" "key_at (foldl retain st as) = key_at st"
    "variable_values c (foldl retain st as) = variable_values c st"
    "cache_ok c st \<Longrightarrow> cache_ok c (foldl retain st as)"
    using counts pos dead by auto
qed

definition add_ref :: "(nat \<Rightarrow> nat) \<Rightarrow> nat \<Rightarrow> nat \<Rightarrow> nat" where
  "add_ref refs n = refs(n := refs n + 1)"

lemma add_ref_count: "add_ref refs n = (\<lambda>m. refs m + count_list [n] m)"
  by (rule ext) (simp add: add_ref_def)

lemma retain_ok:
  assumes "store_ok c refs st" "key_at st n \<noteq> None"
  shows "store_ok c (add_ref refs n) (retain st n)" "key_at (retain st n) = key_at st"
    and "variable_values c (retain st n) = variable_values c st"
  using retain_all [of refs st "[n]"] assms unfolding add_ref_count by (simp_all add: store_ok_def)

section \<open>New nodes\<close>

lemma cache_ok_extend:
  assumes ok: "cache_ok c st" "keys_ok (key_at st)" and keys: "key_at st \<subseteq>\<^sub>m key_at st'"
    and vars: "variable_values c st' = variable_values c st"
    and node: "\<And>m nd'. node_at st' m = Some nd' \<Longrightarrow> hasCachedValue nd' \<Longrightarrow>
      \<exists>nd. node_at st m = Some nd \<and> hasCachedValue nd \<and> cachedValue nd = cachedValue nd'"
    and cached: "\<And>m. cached st m \<Longrightarrow> cached st' m"
  shows "cache_ok c st'"
  unfolding cache_ok_def vars
proof (intro allI impI)
  fix m nd' assume "node_at st' m = Some nd'" "hasCachedValue nd'"
  then obtain nd where nd: "node_at st m = Some nd" "hasCachedValue nd" "cachedValue nd = cachedValue nd'"
    using node by blast
  then have key: "key_at st m = Some (node_key nd)" by (simp add: key_at_def)
  then have key': "key_at st' m = Some (node_key nd)" using keys by (force simp: map_le_def)
  have "args_cached st m" using ok(1) nd unfolding cache_ok_def by blast
  then have "args_cached st' m" using cached key key' by (simp add: args_cached_def)
  moreover have "cachedValue nd' = tree_value c (variable_values c st) t" if "represents (key_at st') m t" for t
  proof -
    obtain u where u: "represents (key_at st) m u" using represents_exists [OF ok(2) key] by blast
    then have "t = u" using represents_unique [OF that represents_mono [OF keys u]] by simp
    then show ?thesis using ok(1) nd u unfolding cache_ok_def by auto
  qed
  ultimately show "args_cached st' m \<and> (\<forall>t. represents (key_at st') m t \<longrightarrow>
      cachedValue nd' = tree_value c (variable_values c st) t)" by blast
qed

definition gets_dependent :: "bool \<Rightarrow> nat \<Rightarrow> 'o map_node \<Rightarrow> 'o map_node \<Rightarrow> bool" where
  "gets_dependent b n nd nd' \<longleftrightarrow> node_key nd' = node_key nd \<and> refCount nd' = refCount nd
     \<and> expressionTreeAlwaysHasIdentity nd' = expressionTreeAlwaysHasIdentity nd
     \<and> set (dependentExpressions nd') = (if b then insert n (set (dependentExpressions nd)) else set (dependentExpressions nd))
     \<and> hasCachedValue nd' = hasCachedValue nd \<and> cachedValue nd' = cachedValue nd \<and> valueForVariable nd' = valueForVariable nd"

lemma append_node_ok:
  assumes ok: "links_ok (\<lambda>m. refs m + 2 * count_list (key_args k) m) st"
    and k: "key_ok k" "\<And>a. a \<in> set (key_args k) \<Longrightarrow> key_at st a \<noteq> None"
    and n: "n = length (node_heap st)"
    and new: "node_at st' n = Some nd" "node_key nd = k" "refCount nd = 1" "dependentExpressions nd = []"
      "expressionTreeAlwaysHasIdentity nd = ExpressionTreeAlwaysHasIdentity st k"
    and old: "\<And>m. m \<noteq> n \<Longrightarrow> rel_option (gets_dependent (m \<in> set (key_args k)) n) (node_at st m) (node_at st' m)"
    and reg: "nodeRegistry st' = (if key_op k = OpVariable then nodeRegistry st else (nodeRegistry st)(k \<mapsto> n))"
    and fresh: "key_op k \<noteq> OpVariable \<Longrightarrow> nodeRegistry st k = None"
  shows "links_ok (add_ref refs n) st'" "key_at st' = (key_at st)(n \<mapsto> k)" "refs n = 0"
proof -
  have no_n: "node_at st n = None" "key_at st n = None" using n by (simp_all add: node_at_def key_at_def)
  show refs_n: "refs n = 0" using ok no_n(1) by (auto simp: links_ok_def counts_ok_def count_ok_def dest!: spec [of _ n])
  have kok: "keys_ok (key_at st)" using ok by (simp add: links_ok_def)
  have older: "a < n" if "a \<in> set (key_args k)" for a
    using k(2) [OF that] dom_key_at [of st] n by blast
  then have not_n: "n \<notin> set (key_args k)" by blast
  have args_old: "n \<notin> set (key_args j)" if "key_at st m = Some j" for m j
    using keys_okD(3) [OF kok that] no_n(2) by fastforce
  show keys: "key_at st' = (key_at st)(n \<mapsto> k)"
  proof
    fix m show "key_at st' m = ((key_at st)(n \<mapsto> k)) m"
      using new(1,2) old [of m]
      by (cases "m = n") (auto simp: key_at_def gets_dependent_def option_rel_Some1 option_rel_Some2 elim!: option.rel_cases)
  qed
  have back_to: "\<exists>nd. node_at st m = Some nd \<and> gets_dependent (m \<in> set (key_args k)) n nd nd'"
    if "node_at st' m = Some nd'" "m \<noteq> n" for m nd'
    using old [OF that(2)] that(1) by (auto elim: option.rel_cases)
  have "keys_ok (key_at st')"
    unfolding keys_ok_def keys
  proof (intro allI impI conjI ballI)
    fix m j assume j: "((key_at st)(n \<mapsto> k)) m = Some j"
    show "key_ok j" using j k(1) keys_okD(1) [OF kok, of m j] by (auto split: if_splits)
    fix a assume a: "a \<in> set (key_args j)"
    show "a < m" using j a older keys_okD(2) [OF kok, of m j a] by (auto split: if_splits)
    show "((key_at st)(n \<mapsto> k)) a \<noteq> None"
      using j a k(2) [of a] keys_okD(3) [OF kok, of m j a] by (auto split: if_splits)
  qed
  moreover have "dependents_ok st'"
    unfolding dependents_ok_def
  proof (intro allI impI)
    fix m nd' assume nd': "node_at st' m = Some nd'"
    show "set (dependentExpressions nd') = {i. \<exists>j. key_at st' i = Some j \<and> m \<in> set (key_args j)}"
    proof (cases "m = n")
      case True
      then have "set (dependentExpressions nd') = {}" using nd' new(1,4) by simp
      then show ?thesis using True not_n args_old by (auto simp: keys)
    next
      case False
      obtain nd0 where nd0: "node_at st m = Some nd0" "gets_dependent (m \<in> set (key_args k)) n nd0 nd'"
        using back_to [OF nd' False] by blast
      have "set (dependentExpressions nd0) = {i. \<exists>j. key_at st i = Some j \<and> m \<in> set (key_args j)}"
        using ok nd0(1) by (simp add: links_ok_def dependents_ok_def)
      then show ?thesis using nd0(2) no_n(2) by (auto simp: gets_dependent_def keys split: if_splits)
    qed
  qed
  moreover have "registry_ok st'"
    unfolding registry_ok_def
  proof (intro allI)
    fix j m
    have old_reg: "nodeRegistry st j = Some m \<longleftrightarrow> key_at st m = Some j \<and> key_op j \<noteq> OpVariable" for m
      using ok by (simp add: links_ok_def registry_ok_def)
    show "nodeRegistry st' j = Some m \<longleftrightarrow> key_at st' m = Some j \<and> key_op j \<noteq> OpVariable"
      using old_reg [of m] fresh no_n(2) reg by (cases "m = n"; cases "j = k") (auto simp: keys)
  qed
  moreover have "flags_ok st'"
    unfolding flags_ok_def
  proof (intro allI impI)
    fix m nd' assume nd': "node_at st' m = Some nd'"
    have flag: "flag_at st' a = flag_at st a" if "a \<noteq> n" for a
      using old [OF that] by (auto simp: flag_at_def gets_dependent_def elim!: option.rel_cases)
    show "expressionTreeAlwaysHasIdentity nd' = ExpressionTreeAlwaysHasIdentity st' (node_key nd')"
    proof (cases "m = n")
      case True
      then have "nd' = nd" using nd' new(1) by simp
      moreover have "ExpressionTreeAlwaysHasIdentity st' k = ExpressionTreeAlwaysHasIdentity st k"
        by (rule ExpressionTreeAlwaysHasIdentity_cong) (use flag not_n in metis)
      ultimately show ?thesis using new(2,5) by simp
    next
      case False
      obtain nd0 where nd0: "node_at st m = Some nd0" "gets_dependent (m \<in> set (key_args k)) n nd0 nd'"
        using back_to [OF nd' False] by blast
      then have "key_at st m = Some (node_key nd')" by (simp add: key_at_def gets_dependent_def)
      then have "n \<notin> set (key_args (node_key nd'))" by (rule args_old)
      then have "ExpressionTreeAlwaysHasIdentity st' (node_key nd') = ExpressionTreeAlwaysHasIdentity st (node_key nd')"
        by (intro ExpressionTreeAlwaysHasIdentity_cong) (use flag in metis)
      then show ?thesis using ok nd0 by (auto simp: links_ok_def flags_ok_def gets_dependent_def)
    qed
  qed
  moreover have "counts_ok (add_ref refs n) st'"
    unfolding counts_ok_def
  proof
    fix m
    have held: "held (key_at st') m = held (key_at st) m + 2 * count_list (key_args k) m"
      unfolding keys by (rule held_insert [OF finite_dom_key_at no_n(2)])
    show "count_ok (key_at st') (add_ref refs n) m (node_at st' m)"
    proof (cases "m = n")
      case True
      have "held (key_at st) n = 0"
        unfolding held_def by (rule sum.neutral) (use args_old in \<open>auto simp: count_list_0_iff\<close>)
      then show ?thesis using True held new(1,3) not_n refs_n by (simp add: count_ok_def add_ref_def count_list_0_iff)
    next
      case False
      have "count_ok (key_at st) (\<lambda>m. refs m + 2 * count_list (key_args k) m) m (node_at st m)"
        using ok by (simp add: links_ok_def counts_ok_def)
      then show ?thesis
        using old [OF False] False
        by (auto simp: count_ok_def held add_ref_def gets_dependent_def elim!: option.rel_cases split: option.splits)
    qed
  qed
  ultimately show "links_ok (add_ref refs n) st'" by (simp add: links_ok_def)
qed

lemma funpow_add_dependent:
  "gets_dependent (0 < j) n nd (((\<lambda>nd. nd\<lparr>dependentExpressions := set_insert n (dependentExpressions nd)\<rparr>) ^^ j) nd)"
  by (induction j) (auto simp: gets_dependent_def set_insert_def set_insort_key)

lemma node_at_append: "node_at (st\<lparr>node_heap := node_heap st @ [x]\<rparr>) m = (if m = length (node_heap st) then x else node_at st m)"
  by (auto simp: node_at_def nth_append)

lemma construct_node_ok:
  assumes ok: "links_ok (\<lambda>m. refs m + count_list (key_args k) m) st" "cache_ok c st"
    and k: "key_ok k" "\<And>a. a \<in> set (key_args k) \<Longrightarrow> key_at st a \<noteq> None"
    and res: "construct_node c st k = (n, st1)"
    and st': "\<And>m. node_at st' m = node_at st1 m"
      "nodeRegistry st' = (if key_op k = OpVariable then nodeRegistry st else (nodeRegistry st)(k \<mapsto> n))"
    and fresh: "key_op k \<noteq> OpVariable \<Longrightarrow> nodeRegistry st k = None"
  shows "store_ok c (add_ref refs n) st'" "key_at st' = (key_at st)(n \<mapsto> k)" "key_at st n = None"
    and "variable_values c st' = variable_values c st"
proof -
  let ?as = "key_args k"
  let ?nd = "\<lparr>node_key = k, expressionTreeAlwaysHasIdentity = ExpressionTreeAlwaysHasIdentity st k,
    refCount = 1, cachedValue = NullFunction (context_ops c), hasCachedValue = False,
    dependentExpressions = [], valueForVariable = NullFunction (context_ops c)\<rparr>"
  let ?r = "foldl retain st ?as"
  let ?a = "?r\<lparr>node_heap := node_heap ?r @ [Some ?nd]\<rparr>"
  have n: "n = length (node_heap ?r)" and st1: "st1 = foldl (add_dependent n) ?a ?as"
    using res by (auto simp: construct_node_def Let_def foldl_retain(2))
  have retained: "links_ok (\<lambda>m. refs m + 2 * count_list ?as m) ?r" "key_at ?r = key_at st"
    "variable_values c ?r = variable_values c st" "cache_ok c ?r"
    using retain_all [of "\<lambda>m. refs m + count_list ?as m" st ?as] ok k(2) by (simp_all add: mult_2 add.assoc)
  have no_n: "key_at st n = None" using retained(2) n by (metis key_at_def node_at_def nat_neq_iff option.map(1))
  then have not_n: "n \<notin> set ?as" using k(2) by blast
  have node: "node_at st' m = map_option
      ((\<lambda>nd. nd\<lparr>dependentExpressions := set_insert n (dependentExpressions nd)\<rparr>) ^^ count_list ?as m)
      (if m = n then Some ?nd else node_at ?r m)" for m
    by (simp only: st'(1) st1 node_at_foldl_add node_at_append n)
  have new: "node_at st' n = Some ?nd" using not_n by (simp add: node count_list_0_iff)
  have old: "rel_option (gets_dependent (m \<in> set ?as) n) (node_at ?r m) (node_at st' m)" if "m \<noteq> n" for m
  proof -
    have "0 < count_list ?as m \<longleftrightarrow> m \<in> set ?as" using count_list_0_iff [of ?as m] by auto
    then show ?thesis
      using that funpow_add_dependent [of "count_list ?as m" n] by (cases "node_at ?r m") (simp_all add: node)
  qed
  have flag: "expressionTreeAlwaysHasIdentity ?nd = ExpressionTreeAlwaysHasIdentity ?r k"
  proof -
    have "flag_at ?r a = flag_at st a" for a
      by (simp add: flag_at_def node_at_foldl_retain funpow_retain split: option.split)
    then show ?thesis by (simp add: ExpressionTreeAlwaysHasIdentity_cong [of k ?r st])
  qed
  have reg: "nodeRegistry st' = (if key_op k = OpVariable then nodeRegistry ?r else (nodeRegistry ?r)(k \<mapsto> n))"
    using st'(2) by (simp add: foldl_retain)
  have live: "key_at ?r a \<noteq> None" if "a \<in> set ?as" for a using k(2) [OF that] retained(2) by simp
  have "nodeRegistry ?r k = None" if "key_op k \<noteq> OpVariable" using fresh [OF that] by (simp add: foldl_retain)
  note appended = append_node_ok [OF retained(1) k(1) live n new _ _ _ flag old reg this]
  have links: "links_ok (add_ref refs n) st'" and keys: "key_at st' = (key_at ?r)(n \<mapsto> k)"
    using appended by simp_all
  show "key_at st' = (key_at st)(n \<mapsto> k)" using keys retained(2) by simp
  show "key_at st n = None" by (rule no_n)
  have no_node: "node_at ?r n = None" using n by (simp add: node_at_def)
  have same_values: "variable_values c st' = variable_values c ?r"
  proof
    fix m show "variable_values c st' m = variable_values c ?r m"
    proof (cases "m = n")
      case True
      then show ?thesis using no_node new by (simp add: variable_values_def)
    next
      case False
      then show ?thesis using old [OF False] by (auto simp: variable_values_def gets_dependent_def elim!: option.rel_cases)
    qed
  qed
  then show "variable_values c st' = variable_values c st" using retained(3) by simp
  have "cache_ok c st'"
  proof (rule cache_ok_extend [OF retained(4) _ _ same_values])
    show "keys_ok (key_at ?r)" using retained(1) by (simp add: links_ok_def)
    show "key_at ?r \<subseteq>\<^sub>m key_at st'" using no_n retained(2) by (auto simp: keys map_le_def)
    show "\<exists>nd. node_at ?r m = Some nd \<and> hasCachedValue nd \<and> cachedValue nd = cachedValue nd'"
      if "node_at st' m = Some nd'" "hasCachedValue nd'" for m nd'
      using that new old [of m] by (cases "m = n") (auto simp: gets_dependent_def elim!: option.rel_cases)
    show "cached st' m" if "cached ?r m" for m
      using that no_node old [of m]
      by (cases "m = n") (auto simp: cached_def gets_dependent_def elim!: option.rel_cases)
  qed
  then show "store_ok c (add_ref refs n) st'" using links by (simp add: store_ok_def)
qed

text \<open>A new node, or one that is in the registry: it has the key.\<close>

lemma construct_registry: "construct_node c st k = (n, st1) \<Longrightarrow> nodeRegistry st1 = nodeRegistry st"
  by (auto simp: construct_node_def Let_def foldl_add_dependent foldl_retain)

lemma Node_New_ok:
  assumes ok: "store_ok c refs st" and k: "k = \<lparr>key_op = op, key_arg1 = a1, key_arg2 = a2, valueForConstant = v\<rparr>"
    and args: "key_ok k" "\<And>a. a \<in> set (key_args k) \<Longrightarrow> key_at st a \<noteq> None"
    and res: "Node_New c st op a1 a2 v = (n, st')"
  shows "store_ok c (add_ref refs n) st'" "key_at st' n = Some k" "key_at st \<subseteq>\<^sub>m key_at st'"
    and "variable_values c st' = variable_values c st"
proof -
  have links: "links_ok refs st" "cache_ok c st" using ok by (simp_all add: store_ok_def)
  have "store_ok c (add_ref refs n) st' \<and> key_at st' n = Some k \<and> key_at st \<subseteq>\<^sub>m key_at st'
    \<and> variable_values c st' = variable_values c st"
  proof (cases "op = OpVariable")
    case True
    then have r: "construct_node c st k = (n, st')" using res k by (simp add: Node_New_def Let_def)
    have "key_args k = []" using True args(1) k by (simp add: key_ok_def key_args_def)
    then have "links_ok (\<lambda>m. refs m + count_list (key_args k) m) st" using links(1) by simp
    note new = construct_node_ok [OF this links(2) args r refl]
    have "nodeRegistry st' = (if key_op k = OpVariable then nodeRegistry st else (nodeRegistry st)(k \<mapsto> n))"
      "key_op k = OpVariable" using True k construct_registry [OF r] by simp_all
    then show ?thesis using new by (auto simp: map_le_def)
  next
    case False
    show ?thesis
    proof (cases "nodeRegistry st k")
      case None
      let ?r = "foldl retain st (key_args k)"
      obtain st1 where r: "construct_node c ?r k = (n, st1)" and st': "st' = st1\<lparr>nodeRegistry := (nodeRegistry st1)(k \<mapsto> n)\<rparr>"
        using res False None k by (auto simp: Node_New_def Let_def split: prod.splits)
      have all: "\<forall>a \<in> set (key_args k). key_at st a \<noteq> None" using args(2) by blast
      note retained = retain_all [OF links(1) all]
      have live: "key_at ?r a \<noteq> None" if "a \<in> set (key_args k)" for a using args(2) [OF that] retained(2) by simp
      have node: "node_at st' m = node_at st1 m" for m by (simp add: st' node_at_def)
      have reg: "nodeRegistry st' = (if key_op k = OpVariable then nodeRegistry ?r else (nodeRegistry ?r)(k \<mapsto> n))"
        "nodeRegistry ?r k = None"
        using False k None construct_registry [OF r] by (simp_all add: st' foldl_retain)
      note new = construct_node_ok [OF retained(1) retained(4) [OF links(2)] args(1) live r node reg(1) reg(2)]
      show ?thesis using new retained(2) retained(3) [of c] by (auto simp: map_le_def)
    next
      case (Some m)
      then have m: "n = m" "st' = retain st n" using res False k by (auto simp: Node_New_def)
      have "key_at st n = Some k" using Some links(1) m(1) by (auto simp: links_ok_def registry_ok_def)
      then show ?thesis using retain_ok [OF ok, of n] m(2) by (simp add: map_le_def)
    qed
  qed
  then show "store_ok c (add_ref refs n) st'" "key_at st' n = Some k" "key_at st \<subseteq>\<^sub>m key_at st'"
    "variable_values c st' = variable_values c st" by blast+
qed

section \<open>Dropping references\<close>

lemma funpow_erase_dependent:
  "(\<lambda>nd. nd\<lparr>dependentExpressions := removeAll n (dependentExpressions nd)\<rparr>) ^^ j =
    (if j = 0 then id else (\<lambda>nd. nd\<lparr>dependentExpressions := removeAll n (dependentExpressions nd)\<rparr>))"
  by (induction j) (auto simp: fun_eq_iff removeAll_filter_not_eq)

lemma represents_vars_live: "represents keys n t \<Longrightarrow> m \<in> tree_vars t \<Longrightarrow> keys m \<noteq> None"
  by (induction t arbitrary: n) auto

text \<open>Taking away a node that nothing refers to.\<close>

lemma delete_node_ok:
  assumes ok: "store_ok c (\<lambda>m. refs m + count_list (n # ns) m) st" and nd: "node_at st n = Some nd" "refCount nd = 1"
    and res: "delete_node n nd st = (rs, st')"
  shows "store_ok c (\<lambda>m. refs m + count_list (rs @ ns) m) st'" "key_at st' = (key_at st)(n := None)"
    and "m \<noteq> n \<Longrightarrow> variable_values c st' m = variable_values c st m"
proof -
  let ?k = "node_key nd"
  let ?as = "key_args ?k"
  have links: "keys_ok (key_at st)" "dependents_ok st" "registry_ok st" "flags_ok st"
    "counts_ok (\<lambda>m. refs m + count_list (n # ns) m) st" "cache_ok c st"
    using ok by (simp_all add: store_ok_def links_ok_def)
  have key: "key_at st n = Some ?k" using nd(1) by (simp add: key_at_def)
  have registered: "key_op ?k \<noteq> OpVariable \<and> nodeRegistry st ?k = Some n \<longleftrightarrow> key_op ?k \<noteq> OpVariable"
    using links(3) key by (auto simp: registry_ok_def)
  have "key_op ?k = OpVariable \<Longrightarrow> ?as = []" using keys_okD(1) [OF links(1) key] by (simp add: key_ok_def key_args_def)
  then have rs: "count_list rs m = 2 * count_list ?as m" for m
    using res registered by (auto simp: delete_node_def Let_def)
  have unused: "refs n = 0" "count_list ns n = 0" "held (key_at st) n = 0"
    using links(5) nd by (auto simp: counts_ok_def count_ok_def dest!: spec [of _ n])
  have not_arg: "n \<notin> set (key_args k)" if "key_at st m = Some k" for m k
    by (rule held_zero [OF finite_dom_key_at unused(3) that])
  have node: "node_at st' m = (if m = n then None else
      map_option (\<lambda>nd. if m \<in> set ?as then nd\<lparr>dependentExpressions := removeAll n (dependentExpressions nd)\<rparr> else nd)
        (node_at st m))" for m
  proof -
    let ?e = "foldl (erase_dependent n) st ?as"
    have "node_at st' m = (if m = n then None else node_at ?e m)"
      using res by (auto simp: delete_node_def Let_def node_at_def split: if_splits)
    then show ?thesis by (cases "node_at st m") (simp_all add: node_at_foldl_erase funpow_erase_dependent count_list_0_iff)
  qed
  show keys: "key_at st' = (key_at st)(n := None)"
  proof
    fix m show "key_at st' m = ((key_at st)(n := None)) m"
      by (cases "node_at st m") (auto simp: key_at_def node)
  qed
  show vars: "variable_values c st' m = variable_values c st m" if "m \<noteq> n" for m
    using that by (cases "node_at st m") (auto simp: variable_values_def node)
  have flag: "flag_at st' m = flag_at st m" if "m \<noteq> n" for m
    using that by (cases "node_at st m") (auto simp: flag_at_def node)
  have has: "ExpressionTreeAlwaysHasIdentity st' k = ExpressionTreeAlwaysHasIdentity st k" if "key_at st m = Some k" for m k
    by (rule ExpressionTreeAlwaysHasIdentity_cong) (use flag not_arg [OF that] in metis)
  have reg: "nodeRegistry st' = (if key_op ?k \<noteq> OpVariable then (nodeRegistry st)(?k := None) else nodeRegistry st)"
    using res registered by (auto simp: delete_node_def Let_def foldl_erase_dependent)
  have "keys_ok (key_at st')"
    unfolding keys_ok_def keys using links(1) not_arg by (auto simp: keys_ok_def)
  moreover have "dependents_ok st'"
    unfolding dependents_ok_def
  proof (intro allI impI)
    fix m nd' assume m: "node_at st' m = Some nd'"
    then have "m \<noteq> n" "node_at st m \<noteq> None" by (auto simp: node split: if_splits)
    then obtain nd0 where nd0: "m \<noteq> n" "node_at st m = Some nd0" by blast
    then have "nd' = (if m \<in> set ?as then nd0\<lparr>dependentExpressions := removeAll n (dependentExpressions nd0)\<rparr> else nd0)"
      using m by (simp add: node)
    then have "set (dependentExpressions nd') =
        (if m \<in> set ?as then set (dependentExpressions nd0) - {n} else set (dependentExpressions nd0))" by simp
    then show "set (dependentExpressions nd') = {i. \<exists>j. key_at st' i = Some j \<and> m \<in> set (key_args j)}"
      using dependents_okD [OF links(2) nd0(2)] key nd0(1) by (auto simp: keys)
  qed
  moreover have "registry_ok st'"
    unfolding registry_ok_def
  proof (intro allI)
    fix j m
    have old: "nodeRegistry st j = Some i \<longleftrightarrow> key_at st i = Some j \<and> key_op j \<noteq> OpVariable" for i
      using links(3) by (simp add: registry_ok_def)
    show "nodeRegistry st' j = Some m \<longleftrightarrow> key_at st' m = Some j \<and> key_op j \<noteq> OpVariable"
    proof (cases "j = ?k")
      case True
      have "m = n" if "key_at st m = Some ?k" "key_op ?k \<noteq> OpVariable"
        using old [of m] old [of n] key that True by simp
      then show ?thesis using True old [of m] by (auto simp: reg keys)
    next
      case False
      then show ?thesis using old [of m] key by (simp add: reg keys)
    qed
  qed
  moreover have "flags_ok st'"
    unfolding flags_ok_def
  proof (intro allI impI)
    fix m nd' assume m: "node_at st' m = Some nd'"
    then obtain nd0 where nd0: "node_at st m = Some nd0" "node_key nd' = node_key nd0"
      "expressionTreeAlwaysHasIdentity nd' = expressionTreeAlwaysHasIdentity nd0"
      by (auto simp: node split: if_splits)
    then have "key_at st m = Some (node_key nd')" by (simp add: key_at_def)
    from has [OF this] nd0 links(4)
    show "expressionTreeAlwaysHasIdentity nd' = ExpressionTreeAlwaysHasIdentity st' (node_key nd')"
      by (simp add: flags_ok_def)
  qed
  moreover have "counts_ok (\<lambda>m. refs m + count_list (rs @ ns) m) st'"
    unfolding counts_ok_def
  proof
    fix m
    have held: "held (key_at st) m = held (key_at st') m + 2 * count_list ?as m"
      unfolding keys by (rule held_remove [OF finite_dom_key_at key])
    have old: "count_ok (key_at st) (\<lambda>m. refs m + count_list (n # ns) m) m (node_at st m)"
      using links(5) by (simp add: counts_ok_def)
    show "count_ok (key_at st') (\<lambda>m. refs m + count_list (rs @ ns) m) m (node_at st' m)"
    proof (cases "m = n")
      case True
      then have "count_list ?as m = 0" using not_arg [OF key] by (simp add: count_list_0_iff)
      then show ?thesis using True unused by (simp add: node count_ok_def rs)
    next
      case False
      show ?thesis
      proof (cases "node_at st m")
        case None
        then have "m \<notin> set ?as" using keys_okD(3) [OF links(1) key, of m] by (auto simp: key_at_def)
        then have "count_list ?as m = 0" by (simp add: count_list_0_iff)
        then show ?thesis using old False None by (simp add: node count_ok_def rs)
      next
        case (Some nd0)
        then show ?thesis
          using old False count_list_0_iff [of ?as m] by (cases "m \<in> set ?as") (auto simp: node count_ok_def rs held)
      qed
    qed
  qed
  moreover have "cache_ok c st'"
    unfolding cache_ok_def
  proof (intro allI impI conjI)
    fix m nd' assume m: "node_at st' m = Some nd'" "hasCachedValue nd'"
    then obtain nd0 where nd0: "m \<noteq> n" "node_at st m = Some nd0" "hasCachedValue nd0" "cachedValue nd' = cachedValue nd0"
      by (auto simp: node split: if_splits)
    have same_cached: "cached st' a = cached st a" if "a \<noteq> n" for a
      using that by (cases "node_at st a") (auto simp: cached_def node)
    have "args_cached st m" using links(6) nd0 unfolding cache_ok_def by blast
    then show "args_cached st' m"
      unfolding args_cached_def keys using same_cached not_arg by (metis fun_upd_apply option.distinct(1))
    fix t assume t: "represents (key_at st') m t"
    have "key_at st' \<subseteq>\<^sub>m key_at st" by (auto simp: keys map_le_def)
    then have "represents (key_at st) m t" using represents_mono t by blast
    then have "cachedValue nd' = tree_value c (variable_values c st) t"
      using links(6) nd0 unfolding cache_ok_def by auto
    also have "\<dots> = tree_value c (variable_values c st') t"
    proof (rule tree_value_cong)
      fix i assume "i \<in> tree_vars t"
      then have "i \<noteq> n" using represents_vars_live [OF t, of i] by (auto simp: keys)
      then show "variable_values c st i = variable_values c st' i" using vars by simp
    qed
    finally show "cachedValue nd' = tree_value c (variable_values c st') t" .
  qed
  ultimately show "store_ok c (\<lambda>m. refs m + count_list (rs @ ns) m) st'" by (simp add: store_ok_def links_ok_def)
qed

lemma release_loop_ok:
  "store_ok c (\<lambda>m. refs m + count_list ns m) st \<Longrightarrow>
    store_ok c refs (release_loop ns st) \<and> key_at (release_loop ns st) \<subseteq>\<^sub>m key_at st
    \<and> (\<forall>m \<in> dom (key_at (release_loop ns st)). variable_values c (release_loop ns st) m = variable_values c st m)"
proof (induction ns st rule: release_loop.induct)
  case (2 n ns st)
  have "count_ok (key_at st) (\<lambda>m. refs m + count_list (n # ns) m) n (node_at st n)"
    using 2(4) by (simp add: store_ok_def links_ok_def counts_ok_def)
  then obtain nd where nd: "node_at st n = Some nd"
    "refCount nd = int (refs n + count_list (n # ns) n + held (key_at st) n)"
    by (auto simp: count_ok_def split: option.splits)
  show ?case
  proof (cases "refCount nd = 1")
    case True
    obtain rs st' where r: "delete_node n nd st = (rs, st')" by fastforce
    note deleted = delete_node_ok [OF 2(4) nd(1) True r]
    have IH: "store_ok c refs (release_loop (rs @ ns) st') \<and> key_at (release_loop (rs @ ns) st') \<subseteq>\<^sub>m key_at st'
      \<and> (\<forall>m \<in> dom (key_at (release_loop (rs @ ns) st')). variable_values c (release_loop (rs @ ns) st') m = variable_values c st' m)"
      using 2(2) [OF nd(1) True] deleted(1) r by simp
    have loop: "release_loop (n # ns) st = release_loop (rs @ ns) st'" using nd(1) True r by simp
    have "dom (key_at (release_loop (rs @ ns) st')) \<subseteq> dom (key_at st')" using IH map_le_implies_dom_le by blast
    then have "m \<noteq> n" if "m \<in> dom (key_at (release_loop (rs @ ns) st'))" for m using that deleted(2) by auto
    moreover have "key_at st' \<subseteq>\<^sub>m key_at st" by (auto simp: deleted(2) map_le_def)
    ultimately show ?thesis unfolding loop using IH deleted(3) map_le_trans by (metis (no_types, lifting))
  next
    case False
    let ?st = "modify_node n (\<lambda>nd. nd\<lparr>refCount := refCount nd - 1\<rparr>) st"
    have node: "node_at ?st m = map_option (\<lambda>nd. nd\<lparr>refCount := refCount nd + (if m = n then - 1 else 0)\<rparr>) (node_at st m)" for m
      by (cases "node_at st m") (auto simp: node_at_modify)
    have ok: "links_ok (\<lambda>m. refs m + count_list (n # ns) m) st" "cache_ok c st" using 2(4) by (simp_all add: store_ok_def)
    have count: "count_ok (key_at st) (\<lambda>m. refs m + count_list (n # ns) m) m (node_at st m)" for m
      using ok(1) by (simp add: links_ok_def counts_ok_def)
    have live: "int (refs m + count_list ns m) = int (refs m + count_list (n # ns) m) + (if m = n then - 1 else 0)
        \<and> 0 < refs m + count_list ns m + held (key_at st) m" if "node_at st m = Some nd'" for m nd'
      using count [of m] that nd False by (cases "m = n") (auto simp: count_ok_def)
    have dead: "refs m + count_list ns m = 0" if "node_at st m = None" for m
      using count [of m] that by (auto simp: count_ok_def split: if_splits)
    have reg: "nodeRegistry ?st = nodeRegistry st" by (simp add: modify_node_def split: option.split)
    note counts = links_ok_counts [OF ok(1) node reg live dead]
    have "store_ok c (\<lambda>m. refs m + count_list ns m) ?st" using counts(1,4) ok(2) by (simp add: store_ok_def)
    then have "store_ok c refs (release_loop ns ?st) \<and> key_at (release_loop ns ?st) \<subseteq>\<^sub>m key_at ?st
      \<and> (\<forall>m \<in> dom (key_at (release_loop ns ?st)). variable_values c (release_loop ns ?st) m = variable_values c ?st m)"
      by (rule 2(3) [OF nd(1) False])
    moreover have "release_loop (n # ns) st = release_loop ns ?st" using nd(1) False by simp
    ultimately show ?thesis using counts(2,3) by simp
  qed
qed simp

end
