(* ===== verification/Pcp_ExpressionOperations.thy ===== *)
theory Pcp_ExpressionOperations
  imports Pcp_ExpressionStore
begin

text \<open>
  The operations on map expressions against what they stand for: each makes an expression whose value
  is the operation on the values of its arguments, for whatever the variables are assigned later, in
  spite of the short cuts that leave nodes out.
\<close>

section \<open>Making expressions\<close>

definition denotes :: "'o map_state \<Rightarrow> map_expression \<Rightarrow> 'o map_tree \<Rightarrow> bool" where
  "denotes st e t \<longleftrightarrow> (\<exists>n. e = Some n \<and> represents (key_at st) n t)"

text \<open>An operation makes an expression: there is one more reference, all expressions keep their trees and
  all variables their values, and the new tree has the value that is asked for.\<close>

definition makes :: "'o map_context \<Rightarrow> (nat \<Rightarrow> nat) \<Rightarrow> 'o map_state
    \<Rightarrow> ((nat \<Rightarrow> 'o PcpMapFunction) \<Rightarrow> 'o PcpMapFunction \<Rightarrow> bool) \<Rightarrow> map_expression \<times> 'o map_state \<Rightarrow> bool" where
  "makes c refs st P r \<longleftrightarrow> (\<exists>n st' t. r = (Some n, st') \<and> store_ok c (add_ref refs n) st'
     \<and> key_at st \<subseteq>\<^sub>m key_at st' \<and> variable_values c st' = variable_values c st
     \<and> identityExpression st' = identityExpression st \<and> represents (key_at st') n t \<and> (\<forall>vars. P vars (tree_value c vars t)))"

lemma makesI:
  assumes "store_ok c (add_ref refs n) st'" "key_at st \<subseteq>\<^sub>m key_at st'" "variable_values c st' = variable_values c st"
    and "identityExpression st' = identityExpression st"
    and "represents (key_at st') n t" "\<And>vars. P vars (tree_value c vars t)"
  shows "makes c refs st P (Some n, st')"
  using assms unfolding makes_def by blast

lemma identity_modify [simp]: "identityExpression (modify_node n f st) = identityExpression st"
  by (simp add: modify_node_def split: option.split)

lemma identity_foldl_modify:
  assumes "\<And>st a. g st a = modify_node a f st"
  shows "identityExpression (foldl g st as) = identityExpression st"
  by (induction as arbitrary: st) (simp_all add: assms)

lemmas identity_foldl [simp] = identity_foldl_modify [of retain, OF retain_def]
  identity_foldl_modify [of "add_dependent n" for n, OF add_dependent_def]
  identity_foldl_modify [of "erase_dependent n" for n, OF erase_dependent_def]

lemma Node_New_identity: "Node_New c st op a1 a2 v = (n, st') \<Longrightarrow> identityExpression st' = identityExpression st"
  by (auto simp: Node_New_def construct_node_def Let_def retain_def split: if_splits option.splits)

lemma makes_copy:
  assumes "store_ok c refs st" "denotes st e t" "\<And>vars. P vars (tree_value c vars t)"
  shows "makes c refs st P (copy_expression st e)"
proof -
  obtain n where n: "e = Some n" "represents (key_at st) n t" using assms(2) by (auto simp: denotes_def)
  have "key_at st n \<noteq> None" using represents_live [OF n(2)] by (auto simp: key_at_def)
  note retained = retain_ok [OF assms(1) this]
  have "makes c refs st P (Some n, retain st n)"
    by (rule makesI [OF retained(1)]) (use retained(2,3) n(2) assms(3) in \<open>simp_all add: retain_def\<close>)
  then show ?thesis by (simp add: copy_expression_def n(1))
qed

lemma makes_new:
  assumes ok: "store_ok c refs st"
    and k: "key_ok \<lparr>key_op = op, key_arg1 = a1, key_arg2 = a2, valueForConstant = v\<rparr>"
    and args: "\<And>a. a1 = Some a \<or> a2 = Some a \<Longrightarrow> key_at st a \<noteq> None"
    and tree: "\<And>keys n. keys n = Some \<lparr>key_op = op, key_arg1 = a1, key_arg2 = a2, valueForConstant = v\<rparr> \<Longrightarrow>
      key_at st \<subseteq>\<^sub>m keys \<Longrightarrow> represents keys n t"
    and P: "\<And>vars. P vars (tree_value c vars t)"
  shows "makes c refs st P (new_expression c st op a1 a2 v)"
proof -
  obtain n st' where r: "Node_New c st op a1 a2 v = (n, st')" by fastforce
  have live: "key_at st a \<noteq> None" if "a \<in> set (key_args \<lparr>key_op = op, key_arg1 = a1, key_arg2 = a2, valueForConstant = v\<rparr>)" for a
    using that args by (auto simp: key_args_def split: option.splits)
  have new: "store_ok c (add_ref refs n) st'" "key_at st \<subseteq>\<^sub>m key_at st'" "variable_values c st' = variable_values c st"
    "key_at st' n = Some \<lparr>key_op = op, key_arg1 = a1, key_arg2 = a2, valueForConstant = v\<rparr>"
    by (rule Node_New_ok [OF ok refl k live r]; assumption)+
  have "makes c refs st P (Some n, st')"
    by (rule makesI [OF new(1-3) Node_New_identity [OF r] tree [OF new(4,2)]]) (rule P)
  then show ?thesis by (simp add: new_expression_def r)
qed

lemma makes_Constant:
  assumes "store_ok c refs st" "\<And>vars. P vars v"
  shows "makes c refs st P (Constant c st v)"
  unfolding Constant_def
  by (rule makes_new [where t = "Const v", OF assms(1)]) (use assms(2) in \<open>simp_all add: key_ok_def key_shapes\<close>)

text \<open>The kind of an expression is the one of its tree.\<close>

lemma denotes_op:
  assumes "denotes st e t"
  shows "expression_op st e = Some (case t of Const _ \<Rightarrow> OpConstant | Var _ \<Rightarrow> OpVariable | Inv _ \<Rightarrow> OpInverse
    | Comp _ _ \<Rightarrow> OpCompose | AddRoot _ \<Rightarrow> OpAddRootIdentity | Implied _ _ \<Rightarrow> OpImpliedClass)"
  using assms by (cases t) (auto simp: denotes_def expression_op_def key_at_Some key_shapes)

lemma denotes_constant:
  assumes "denotes st e t" "expression_op st e = Some OpConstant"
  obtains v where "t = Const v"
  using assms denotes_op [OF assms(1)] by (cases t) simp_all

lemma denotes_identity:
  assumes "denotes st e t" "IsConstantIdentity c st e"
  obtains v where "t = Const v" "IsIdentity (context_ops c) v"
  using assms by (cases t) (auto simp: denotes_def IsConstantIdentity_def key_at_Some key_shapes)

lemma denotes_live:
  assumes "denotes st (Some a) t"
  shows "key_at st a \<noteq> None" "represents (key_at st) a t"
  using assms represents_live by (auto simp: denotes_def key_at_def)

section \<open>Evaluation\<close>

lemma Evaluate_denoted:
  assumes "store_ok c refs st" "denotes st e t"
  shows "\<exists>st'. Evaluate c st e = Some (tree_value c (variable_values c st) t, st') \<and> store_ok c refs st'
    \<and> key_at st' = key_at st \<and> variable_values c st' = variable_values c st
    \<and> identityExpression st' = identityExpression st"
proof -
  obtain n where n: "e = Some n" "represents (key_at st) n t" using assms(2) by (auto simp: denotes_def)
  have ok: "links_ok refs st" "cache_ok c st" using assms(1) by (simp_all add: store_ok_def)
  obtain st' where st': "EvaluateAndCache c st n = Some (tree_value c (variable_values c st) t, st')" "cache_ok c st'"
    "without_caches c st' = without_caches c st" "key_at st' = key_at st" "variable_values c st' = variable_values c st"
    using EvaluateAndCache_evaluated [OF ok(2) n(2)] by (elim evaluatedE) blast
  moreover have "identityExpression st' = identityExpression st"
    using arg_cong [OF st'(3), of identityExpression] by (simp add: without_caches_def)
  ultimately show ?thesis using links_ok_caches [OF st'(3) ok(1)] by (simp add: Evaluate_def n(1) store_ok_def)
qed

text \<open>Constant folding evaluates constants, which leaves the store as good as it was.\<close>

lemma makes_after:
  assumes "makes c refs st1 P r" "key_at st1 = key_at st" "variable_values c st1 = variable_values c st"
    and "identityExpression st1 = identityExpression st"
  shows "makes c refs st P r"
  using assms unfolding makes_def by auto

lemma Evaluate_constant:
  assumes "store_ok c refs st" "denotes st e (Const v)"
  obtains st' where "Evaluate c st e = Some (v, st')" "store_ok c refs st'" "key_at st' = key_at st"
    "variable_values c st' = variable_values c st" "identityExpression st' = identityExpression st"
  using Evaluate_denoted [OF assms] by auto

lemma denotes_keys: "key_at st' = key_at st \<Longrightarrow> denotes st' e t = denotes st e t"
  by (simp add: denotes_def)

text \<open>Time offsets, as far as the short cuts rely on them: there is one identity, and it is its own inverse. The code
  compares offsets with a tolerance, and tests for the identity with the same comparison; a model of offsets has
  one value for what compares equal.\<close>

definition offset_laws :: "'o offset_ops \<Rightarrow> bool" where
  "offset_laws ops \<longleftrightarrow> (\<forall>x. offset_is_identity ops x \<longleftrightarrow> x = offset_identity ops)
     \<and> offset_inverse ops (offset_identity ops) = offset_identity ops"

lemma IsIdentity_Identity: "offset_laws ops \<Longrightarrow> IsIdentity ops f \<longleftrightarrow> f = Identity ops"
  by (cases f) (auto simp: IsIdentity_def IsIdentityPathMapping_def Identity_def NullFunction_def offset_laws_def)

lemma Compose_Identity:
  assumes "offset_laws ops"
  shows "Compose env ops fless (Identity ops) f = f" "Compose env ops fless f (Identity ops) = f"
  using IsIdentity_Identity [OF assms] by (auto simp: Compose_def)

lemma GetInverse_Identity: "offset_laws ops \<Longrightarrow> GetInverse ops fless (Identity ops) = Identity ops"
  by (simp add: GetInverse_def Identity_def NullFunction_def offset_laws_def std_sort_def)

lemma denotes_Identity:
  assumes "offset_laws (context_ops c)" "denotes st e t" "IsConstantIdentity c st e"
  shows "t = Const (Identity (context_ops c))"
proof -
  obtain v where "t = Const v" "IsIdentity (context_ops c) v" by (rule denotes_identity [OF assms(2,3)])
  then show ?thesis using IsIdentity_Identity [OF assms(1)] by simp
qed

text \<open>The part that the operations with two arguments share: constants are folded, else there is a new node.\<close>

lemma makes_folded:
  fixes T :: "'o map_tree \<Rightarrow> 'o map_tree \<Rightarrow> 'o map_tree" and t u :: "'o map_tree"
  assumes ok: "store_ok c refs st" and e: "denotes st e t" and f: "denotes st f u"
    and op: "op = OpCompose \<and> T = Comp \<and> F = ComposeValues c \<or> op = OpImpliedClass \<and> T = Implied \<and> F = ImpliedClassValue c"
  shows "\<exists>r. do {
      o1 \<leftarrow> expression_op st e;
      fold \<leftarrow> (if o1 = OpConstant then map_option (\<lambda>o2. o2 = OpConstant) (expression_op st f) else Some False);
      if fold then do {
        (v1, st) \<leftarrow> Evaluate c st e;
        (v2, st) \<leftarrow> Evaluate c st f;
        Some (Constant c st (F v1 v2)) }
      else Some (new_expression c st op e f (NullFunction (context_ops c))) } = Some r \<and>
    makes c refs st (\<lambda>vars v. v = F (tree_value c vars t) (tree_value c vars u)) r"
proof -
  let ?P = "\<lambda>vars v. v = F (tree_value c vars t) (tree_value c vars u)"
  obtain o1 o2 where o: "expression_op st e = Some o1" "expression_op st f = Some o2"
    using denotes_op [OF e] denotes_op [OF f] by blast
  show ?thesis
  proof (cases "o1 = OpConstant \<and> o2 = OpConstant")
    case True
    obtain v w where t: "t = Const v" and u: "u = Const w"
      using denotes_constant [OF e] denotes_constant [OF f] o True by metis
    obtain st1 where 1: "Evaluate c st e = Some (v, st1)" "store_ok c refs st1" "key_at st1 = key_at st"
      "variable_values c st1 = variable_values c st" "identityExpression st1 = identityExpression st"
      by (rule Evaluate_constant [OF ok e [unfolded t]])
    obtain st2 where 2: "Evaluate c st1 f = Some (w, st2)" "store_ok c refs st2" "key_at st2 = key_at st1"
      "variable_values c st2 = variable_values c st1" "identityExpression st2 = identityExpression st1"
      by (rule Evaluate_constant [OF 1(2)]) (use f denotes_keys [OF 1(3)] u in blast)
    have "makes c refs st2 ?P (Constant c st2 (F v w))"
      by (rule makes_Constant [OF 2(2)]) (simp add: t u)
    then have "makes c refs st ?P (Constant c st2 (F v w))"
      by (rule makes_after) (simp_all add: 1 2)
    then show ?thesis using True o 1(1) 2(1) by simp
  next
    case False
    obtain a b where ab: "e = Some a" "f = Some b" using e f by (auto simp: denotes_def)
    note a = denotes_live [OF e [unfolded ab]] and b = denotes_live [OF f [unfolded ab]]
    have "makes c refs st ?P (new_expression c st op (Some a) (Some b) (NullFunction (context_ops c)))"
      by (rule makes_new [where t = "T t u", OF ok])
        (use op a(1) b(1) represents_mono [OF _ a(2)] represents_mono [OF _ b(2)] in \<open>auto simp: key_ok_def key_shapes\<close>)
    then show ?thesis using False o by (cases "o1 = OpConstant") (auto simp: ab simp del: split_paired_Ex)
  qed
qed

lemma Compose_expression_makes:
  assumes laws: "offset_laws (context_ops c)"
    and ok: "store_ok c refs st" and e: "denotes st e t" and f: "denotes st f u"
  shows "\<exists>r. Compose_expression c st e f = Some r \<and>
    makes c refs st (\<lambda>vars v. v = ComposeValues c (tree_value c vars t) (tree_value c vars u)) r"
proof -
  let ?P = "\<lambda>vars v. v = ComposeValues c (tree_value c vars t) (tree_value c vars u)"
  consider (left) "IsConstantIdentity c st e" | (right) "\<not> IsConstantIdentity c st e" "IsConstantIdentity c st f"
    | (node) "\<not> IsConstantIdentity c st e" "\<not> IsConstantIdentity c st f" by blast
  then show ?thesis
  proof cases
    case left
    have "makes c refs st ?P (copy_expression st f)"
      by (rule makes_copy [OF ok f]) (simp add: denotes_Identity [OF laws e left] Compose_Identity [OF laws])
    then show ?thesis using left by (simp add: Compose_expression_def)
  next
    case right
    have "makes c refs st ?P (copy_expression st e)"
      by (rule makes_copy [OF ok e]) (simp add: denotes_Identity [OF laws f right(2)] Compose_Identity [OF laws])
    then show ?thesis using right by (simp add: Compose_expression_def)
  next
    case node
    then show ?thesis
      using makes_folded [OF ok e f, of OpCompose Comp "ComposeValues c"] by (simp add: Compose_expression_def)
  qed
qed

lemma ImpliedClass_expression_makes:
  assumes laws: "offset_laws (context_ops c)"
    and ok: "store_ok c refs st" and e: "denotes st e t" and f: "denotes st f u"
  shows "\<exists>r. ImpliedClass_expression c st e f = Some r \<and>
    makes c refs st (\<lambda>vars v. v = ImpliedClassValue c (tree_value c vars t) (tree_value c vars u)) r"
proof (cases "IsConstantIdentity c st e")
  case True
  have "makes c refs st (\<lambda>vars v. v = ImpliedClassValue c (tree_value c vars t) (tree_value c vars u)) (copy_expression st f)"
    by (rule makes_copy [OF ok f])
      (simp add: denotes_Identity [OF laws e True] ImpliedClass_def IsIdentity_Identity [OF laws])
  then show ?thesis using True by (simp add: ImpliedClass_expression_def)
next
  case False
  then show ?thesis
    using makes_folded [OF ok e f, of OpImpliedClass Implied "ImpliedClassValue c"] by (simp add: ImpliedClass_expression_def)
qed

text \<open>The operations with one argument.\<close>

lemma makes_constant_of:
  assumes "store_ok c refs st" "denotes st e (Const v)" "\<And>vars. P vars (F v)"
  shows "\<exists>r. do { (v1, st) \<leftarrow> Evaluate c st e; Some (Constant c st (F v1)) } = Some r \<and> makes c refs st P r"
proof -
  obtain st1 where 1: "Evaluate c st e = Some (v, st1)" "store_ok c refs st1" "key_at st1 = key_at st"
    "variable_values c st1 = variable_values c st" "identityExpression st1 = identityExpression st"
    by (rule Evaluate_constant [OF assms(1,2)])
  have "makes c refs st1 P (Constant c st1 (F v))" by (rule makes_Constant [OF 1(2)]) (rule assms(3))
  then have "makes c refs st P (Constant c st1 (F v))" by (rule makes_after) (simp_all add: 1)
  then show ?thesis using 1(1) by simp
qed

lemma Inverse_expression_makes:
  assumes laws: "offset_laws (context_ops c)" and ok: "store_ok c refs st" and e: "denotes st e t"
  shows "\<exists>r. Inverse_expression c st e = Some r \<and> makes c refs st (\<lambda>vars v. v = InverseValue c (tree_value c vars t)) r"
proof -
  let ?P = "\<lambda>vars v. v = InverseValue c (tree_value c vars t)"
  obtain op where o: "expression_op st e = Some op" using denotes_op [OF e] by blast
  consider (identity) "IsConstantIdentity c st e" | (const) "\<not> IsConstantIdentity c st e" "op = OpConstant"
    | (node) "\<not> IsConstantIdentity c st e" "op \<noteq> OpConstant" by blast
  then show ?thesis
  proof cases
    case identity
    have "makes c refs st ?P (copy_expression st e)"
      by (rule makes_copy [OF ok e]) (simp add: denotes_Identity [OF laws e identity] GetInverse_Identity [OF laws])
    then show ?thesis using identity by (simp add: Inverse_expression_def)
  next
    case const
    obtain v where t: "t = Const v" using denotes_constant [OF e] o const by metis
    have "\<exists>r. do { (v1, st) \<leftarrow> Evaluate c st e; Some (Constant c st (InverseValue c v1)) } = Some r \<and> makes c refs st ?P r"
      by (rule makes_constant_of [OF ok e [unfolded t]]) (simp add: t)
    then show ?thesis using const o by (simp add: Inverse_expression_def)
  next
    case node
    obtain a where a: "e = Some a" using e by (auto simp: denotes_def)
    note live = denotes_live [OF e [unfolded a]]
    have "makes c refs st ?P (new_expression c st OpInverse (Some a) None (NullFunction (context_ops c)))"
      by (rule makes_new [where t = "Inv t", OF ok])
        (use live(1) represents_mono [OF _ live(2)] in \<open>auto simp: key_ok_def key_shapes\<close>)
    then show ?thesis using node o by (simp add: Inverse_expression_def a)
  qed
qed

end
