(* ===== verification/Pcp_ExpressionRoot.thy ===== *)
theory Pcp_ExpressionRoot
  imports Pcp_ExpressionOperations
begin

text \<open>
  When map functions have the root identity: composition keeps it, adding it gives it, and the flag
  that the nodes of expressions keep says of a tree that all its values have it. The last is what
  \<open>AddRootIdentity\<close> leaves a node out for.
\<close>

section \<open>Functions with well-formed sides\<close>

text \<open>A weaker invariant than the one of created functions; inverses keep it too.\<close>

definition sided :: "path_env \<Rightarrow> 'o PcpMapFunction \<Rightarrow> bool" where
  "sided env f \<longleftrightarrow> source_sorted (pairs f) \<and> list_all (\<lambda>(s, t). map_side env s \<and> map_side env t) (pairs f)"

lemma sidedD: "sided env f \<Longrightarrow> (s, t) \<in> set (pairs f) \<Longrightarrow> map_side env s \<and> map_side env t"
  by (auto simp: sided_def list_all_iff)

lemma sided_simple: "sided env (NullFunction ops)" "sided env (Identity ops)"
  by (simp_all add: sided_def NullFunction_def Identity_def source_sorted_def)

lemma map_side_absolute: "map_side env p \<Longrightarrow> p \<noteq> EmptyPath \<Longrightarrow> absolute_ok env p \<and> prop_part p = [] \<and> prim_part p \<noteq> []"
  by (auto simp: map_side_def absolute_ok_def)

lemma absolute_side: "absolute_ok env p \<Longrightarrow> prop_part p = [] \<Longrightarrow> prim_part p \<noteq> [] \<Longrightarrow> map_side env p"
  by (auto simp: map_side_def absolute_ok_def)

lemma Empty_map_side [simp]: "map_side env EmptyPath"
  by (simp add: map_side_def)

lemma ReplacePrefix_side:
  assumes "map_side env p" "map_side env s" "map_side env t" "HasPrefix p s"
  shows "map_side env (ReplacePrefix env p s t False)"
proof -
  have "p \<noteq> EmptyPath" using assms(4) by (auto simp: HasPrefix_iff path_queries)
  note p = map_side_absolute [OF assms(1) this]
  have pair: "pair_ok env (s, t)" using assms(2,3) by (simp add: pair_ok_def)
  show ?thesis
  proof (cases "IsEmpty t")
    case True
    then have "t = EmptyPath" using IsEmpty_side [OF assms(3)] by simp
    then have "ReplacePrefix env p s t False = EmptyPath"
      using p assms(4) absolute_ok_not_empty [of env p] True
      by (cases p) (auto simp: replace_prefix_with_def HasPrefix_iff)
    then show ?thesis by simp
  next
    case False
    then have t: "prim_part t \<noteq> []" using map_side_cases [OF assms(3)] by simp
    have "ReplacePrefix env p s t False = mapped s t p \<and> absolute_ok env (mapped s t p)"
      by (rule ReplacePrefix_mapped) (use p pair assms(4) False in simp_all)
    then show ?thesis using p t by (intro absolute_side) (simp_all add: mapped_def)
  qed
qed

lemma Map_side:
  assumes sorted: "source_sorted ps" and f: "list_all (\<lambda>(s, t). map_side env s \<and> map_side env t) ps"
    and p: "map_side env p"
  shows "map_side env (Map env p ps root invert)"
proof -
  let ?b = "if invert then GetBestTargetMatch p ps 0 else GetBestSourceMatch p ps 0"
  let ?r = "case ?b of None \<Rightarrow> if root then p else EmptyPath
    | Some i \<Rightarrow> if invert then ReplacePrefix env p (snd (ps ! i)) (fst (ps ! i)) False
        else ReplacePrefix env p (fst (ps ! i)) (snd (ps ! i)) False"
  have r: "map_side env ?r"
  proof (cases ?b)
    case None
    then show ?thesis using p by simp
  next
    case (Some i)
    have i: "i < length ps \<and> HasPrefix p (if invert then snd (ps ! i) else fst (ps ! i))"
      using Some GetBestTargetMatch_Some [of p ps 0 i] GetBestSourceMatch_Some [OF sorted, of p 0 i]
      by (auto split: if_splits)
    then have sides: "map_side env (fst (ps ! i)) \<and> map_side env (snd (ps ! i))"
      using f by (simp add: list_all_length case_prod_beta)
    show ?thesis
    proof (cases invert)
      case True
      then have "map_side env (ReplacePrefix env p (snd (ps ! i)) (fst (ps ! i)) False)"
        using ReplacePrefix_side [OF p, of "snd (ps ! i)" "fst (ps ! i)"] sides i by simp
      then show ?thesis using Some True by simp
    next
      case False
      then have "map_side env (ReplacePrefix env p (fst (ps ! i)) (snd (ps ! i)) False)"
        using ReplacePrefix_side [OF p, of "fst (ps ! i)" "snd (ps ! i)"] sides i by simp
      then show ?thesis using Some False by simp
    qed
  qed
  have choice: "(if IsEmpty x then x else if b then EmptyPath else x) = x
      \<or> (if IsEmpty x then x else if b then EmptyPath else x) = EmptyPath" for x b by simp
  have "Map env p ps root invert = ?r \<or> Map env p ps root invert = EmptyPath"
    unfolding Map_def Let_def by (rule choice)
  then show ?thesis
  proof
    assume "Map env p ps root invert = ?r"
    then show ?thesis using r by (rule ssubst)
  next
    assume "Map env p ps root invert = EmptyPath"
    then show ?thesis using Empty_map_side by (rule ssubst)
  qed
qed

section \<open>The root identity stays first\<close>

lemma root_element_count: "GetPathElementCount AbsoluteRootPath = 0"
  by (simp add: GetPathElementCount_def path_queries)

lemma side_element_count: "map_side env p \<Longrightarrow> p \<noteq> EmptyPath \<Longrightarrow> 0 < GetPathElementCount p"
  using map_side_absolute by (auto simp: GetPathElementCount_def)

lemma side_not_root: "map_side env p \<Longrightarrow> p \<noteq> AbsoluteRootPath"
  by (auto simp: map_side_def AbsoluteRootPath_def EmptyPath_def)

lemma root_not_redundant: "\<not> IsRedundant env 0 ((AbsoluteRootPath, AbsoluteRootPath) # ps)"
proof -
  have "source_match_loop qs EmptyPath 0 n = None" for qs n
    by (induction n) (simp_all add: HasPrefix_iff path_queries)
  then have "GetBestSourceMatch EmptyPath qs 0 = None" for qs by (simp add: GetBestSourceMatch_def)
  moreover have "GetParentPath AbsoluteRootPath = EmptyPath"
    by (simp add: GetParentPath_def AbsoluteRootPath_def EmptyPath_def prim_handle_def path_of_handle_def
        IsEmpty_def null_prim_handle_def)
  moreover have "\<not> IsEmpty AbsoluteRootPath" by (simp add: path_queries)
  ultimately show ?thesis by (simp add: IsRedundant_def Let_def)
qed

lemma canonicalize_loop_root:
  "\<exists>qs. canonicalize_loop env ((AbsoluteRootPath, AbsoluteRootPath) # ps) i = (AbsoluteRootPath, AbsoluteRootPath) # qs"
proof (induction "Suc (length ps) - i" arbitrary: ps i rule: less_induct)
  case less
  let ?r = "(AbsoluteRootPath, AbsoluteRootPath)"
  consider (finished) "\<not> i < length (?r # ps)" | (removed) j where "i = Suc j" "j < length ps" "IsRedundant env i (?r # ps)"
    | (kept) "i < length (?r # ps)" "\<not> IsRedundant env i (?r # ps)"
    using root_not_redundant [of env ps] by (cases i) auto
  then show ?case
  proof cases
    case finished
    then show ?thesis by (simp add: canonicalize_loop.simps)
  next
    case removed
    have "\<exists>qs. canonicalize_loop env (?r # (take j ps @ drop (Suc j) ps)) i = ?r # qs"
      by (rule less) (use removed in auto)
    then show ?thesis using removed by (subst canonicalize_loop.simps) simp
  next
    case kept
    show ?thesis
    proof (cases "i < length ps")
      case True
      have "\<exists>qs. canonicalize_loop env (?r # ps) (i + 1) = ?r # qs" by (rule less) (use True in simp)
      then show ?thesis using kept by (subst canonicalize_loop.simps) simp
    next
      case False
      then have "canonicalize_loop env (?r # ps) (i + 1) = ?r # ps" by (subst canonicalize_loop.simps) simp
      then show ?thesis using kept by (subst canonicalize_loop.simps) simp
    qed
  qed
qed

lemma Canonicalize_keeps_root:
  assumes "Canonicalize env ((AbsoluteRootPath, AbsoluteRootPath) # ps) = (ps', root)"
  shows "root" "subseq ps' ps"
proof -
  obtain qs where qs: "canonicalize_loop env ((AbsoluteRootPath, AbsoluteRootPath) # ps) 0 = (AbsoluteRootPath, AbsoluteRootPath) # qs"
    using canonicalize_loop_root by blast
  then show root "subseq ps' ps"
    using assms subseq_canonicalize_loop [of env "(AbsoluteRootPath, AbsoluteRootPath) # ps" 0]
    by (auto simp: Canonicalize_def Let_def)
qed

text \<open>A sorted list of well-formed pairs, with the root identity or without.\<close>

definition rooted_pairs :: "path_env \<Rightarrow> path_pair list \<Rightarrow> bool" where
  "rooted_pairs env ps \<longleftrightarrow> source_sorted ps \<and>
     (\<exists>qs. (ps = (AbsoluteRootPath, AbsoluteRootPath) # qs \<or> ps = qs) \<and> list_all (\<lambda>(s, t). map_side env s \<and> map_side env t) qs)"

lemma Canonicalize_sided:
  assumes "rooted_pairs env ps" "Canonicalize env ps = (ps', root)"
  shows "sided env \<lparr>pairs = ps', hasRootIdentity = root, offset = off\<rparr>"
    and "ps \<noteq> [] \<Longrightarrow> hd ps = (AbsoluteRootPath, AbsoluteRootPath) \<Longrightarrow> root"
proof -
  obtain qs where qs: "ps = (AbsoluteRootPath, AbsoluteRootPath) # qs \<or> ps = qs"
    "list_all (\<lambda>(s, t). map_side env s \<and> map_side env t) qs" using assms(1) by (auto simp: rooted_pairs_def)
  have "subseq ps' qs"
    using qs(1) Canonicalize_keeps_root(2) [of env qs ps' root] Canonicalize_subseq [of env qs ps' root] assms(2) by blast
  then have sides: "list_all (\<lambda>(s, t). map_side env s \<and> map_side env t) ps'"
    using qs(2) by (auto simp: list_all_iff dest: list_emb_set)
  have "source_sorted ps'"
    using sorted_wrt_subseq [OF Canonicalize_subseq [OF assms(2)]] assms(1) by (simp add: rooted_pairs_def source_sorted_def)
  then show "sided env \<lparr>pairs = ps', hasRootIdentity = root, offset = off\<rparr>" using sides by (simp add: sided_def)
  assume "ps \<noteq> []" "hd ps = (AbsoluteRootPath, AbsoluteRootPath)"
  then have "ps = (AbsoluteRootPath, AbsoluteRootPath) # tl ps" by (cases ps) simp_all
  then show root using Canonicalize_keeps_root(1) [of env "tl ps" ps' root] assms(2) by simp
qed

section \<open>Composition, inverse and implied classes\<close>

lemma sorted_wrt_std_merge:
  assumes "\<forall>x y. lt y x \<longrightarrow> R y x" "\<forall>x y. \<not> lt y x \<longrightarrow> R x y" "transp R" "sorted_wrt R xs" "sorted_wrt R ys"
  shows "sorted_wrt R (std_merge lt xs ys)"
  using assms
proof (induction lt xs ys rule: std_merge.induct)
  case (3 lt x xs y ys)
  show ?case
  proof (cases "lt y x")
    case True
    then have "R y x" using 3(3) by blast
    then have "R y z" if "z \<in> set (x # xs)" for z using that 3(6) transpD [OF 3(5), of y x z] by auto
    then show ?thesis using 3 True by auto
  next
    case False
    then have "R x y" using 3(4) by blast
    then have "R x z" if "z \<in> set (y # ys)" for z using that 3(7) transpD [OF 3(5), of x y z] by auto
    then show ?thesis using 3 False by auto
  qed
qed simp_all

lemma source_sorted_merge:
  assumes "source_sorted xs" "source_sorted ys"
  shows "source_sorted (std_merge (PathPairOrder fless) xs ys)"
  unfolding source_sorted_def
proof (rule sorted_wrt_std_merge)
  show "transp (\<lambda>a b. GetPathElementCount (fst a) \<le> GetPathElementCount (fst b))" by (rule transpI) simp
qed (use assms in \<open>auto simp: source_sorted_def PathPairOrder_def split: if_splits\<close>)

lemma rooted_merge:
  assumes "rooted_pairs env xs" "source_sorted ys" "list_all (\<lambda>(s, t). map_side env s \<and> map_side env t \<and> s \<noteq> EmptyPath) ys"
  shows "rooted_pairs env (std_merge (PathPairOrder fless) xs ys)"
    and "xs \<noteq> [] \<Longrightarrow> hd xs = (AbsoluteRootPath, AbsoluteRootPath) \<Longrightarrow>
      std_merge (PathPairOrder fless) xs ys \<noteq> [] \<and> hd (std_merge (PathPairOrder fless) xs ys) = (AbsoluteRootPath, AbsoluteRootPath)"
proof -
  let ?r = "(AbsoluteRootPath, AbsoluteRootPath)" and ?m = "std_merge (PathPairOrder fless)"
  obtain qs where qs: "xs = ?r # qs \<or> xs = qs" "list_all (\<lambda>(s, t). map_side env s \<and> map_side env t) qs" "source_sorted xs"
    using assms(1) by (auto simp: rooted_pairs_def)
  have "\<not> PathPairOrder fless y ?r" if "y \<in> set ys" for y
    using assms(3) that side_element_count [of env "fst y"] root_element_count
    by (auto simp: list_all_iff PathPairOrder_def split: if_splits)
  moreover have "?m qs [] = qs" by (cases qs) simp_all
  ultimately have first: "?m (?r # qs) ys = ?r # ?m qs ys" by (cases ys) auto
  have sides: "list_all (\<lambda>(s, t). map_side env s \<and> map_side env t) (?m qs ys)"
    using qs(2) assms(3) by (auto simp: list_all_iff)
  have "?m xs ys = ?r # ?m qs ys \<or> ?m xs ys = ?m qs ys" using qs(1) first by auto
  then show "rooted_pairs env (?m xs ys)"
    using sides source_sorted_merge [OF qs(3) assms(2)] unfolding rooted_pairs_def by blast
  assume hd: "xs \<noteq> []" "hd xs = ?r"
  have "?r \<notin> set qs" using qs(2) side_not_root [of env AbsoluteRootPath] by (auto simp: list_all_iff)
  then have "xs = ?r # qs" using hd qs(1) by (cases qs) auto
  then show "?m xs ys \<noteq> [] \<and> hd (?m xs ys) = ?r" using first by simp
qed

lemma compose_rooted:
  assumes fless: "comparator fless" and f: "sided env f" and g: "sided env g"
  shows "rooted_pairs env (sorted_pairs env fless f g)"
    and "hasRootIdentity f \<Longrightarrow> hasRootIdentity g \<Longrightarrow>
      sorted_pairs env fless f g \<noteq> [] \<and> hd (sorted_pairs env fless f g) = (AbsoluteRootPath, AbsoluteRootPath)"
proof -
  let ?r = "(AbsoluteRootPath, AbsoluteRootPath)"
  have to: "map_side env (MapSourceToTarget env f p)" and back_to: "map_side env (MapTargetToSource env g p)"
    if "map_side env p" for p
    using that f g Map_side unfolding MapSourceToTarget_def MapTargetToSource_def sided_def by blast+
  let ?images = "map (\<lambda>(s, t). (s, MapSourceToTarget env f t)) (pairs g)"
  have images: "list_all (\<lambda>(s, t). map_side env s \<and> map_side env t) ?images"
    using sidedD [OF g] to by (auto simp: list_all_iff)
  have "source_sorted ?images" using g by (simp add: sided_def source_sorted_def sorted_wrt_map case_prod_beta)
  then have sorted: "source_sorted (compose_inner env f g)"
    by (simp add: compose_inner_def source_sorted_def root_element_count)
  have "compose_inner env f g = ?r # ?images \<or> compose_inner env f g = ?images" by (simp add: compose_inner_def)
  then have inner: "rooted_pairs env (compose_inner env f g)"
    using sorted images unfolding rooted_pairs_def by blast
  have inner_root: "compose_inner env f g \<noteq> [] \<and> hd (compose_inner env f g) = ?r" if "hasRootIdentity f" "hasRootIdentity g"
    using that by (simp add: compose_inner_def)
  have outer: "list_all (\<lambda>(s, t). map_side env s \<and> map_side env t \<and> s \<noteq> EmptyPath) (compose_outer env fless f g)"
    unfolding list_all_iff
  proof
    fix x assume "x \<in> set (compose_outer env fless f g)"
    then obtain s t where st: "(s, t) \<in> set (pairs f)" "x = (MapTargetToSource env g s, t)" "\<not> IsEmpty (MapTargetToSource env g s)"
      by (auto simp: compose_outer_def Let_def split: if_splits)
    then show "case x of (s, t) \<Rightarrow> map_side env s \<and> map_side env t \<and> s \<noteq> EmptyPath"
      using sidedD [OF f st(1)] back_to by (auto simp: path_queries)
  qed
  then have added: "list_all (\<lambda>(s, t). map_side env s \<and> map_side env t \<and> s \<noteq> EmptyPath)
      (std_sort (PathPairOrder fless) (compose_outer env fless f g))"
    by (simp add: list_all_iff)
  note merged = rooted_merge [OF inner source_sorted_std_sort [OF fless] added]
  show "rooted_pairs env (sorted_pairs env fless f g)" using merged(1) inner by (simp add: sorted_pairs_def)
  assume "hasRootIdentity f" "hasRootIdentity g"
  then show "sorted_pairs env fless f g \<noteq> [] \<and> hd (sorted_pairs env fless f g) = ?r"
    using merged(2) inner_root by (simp add: sorted_pairs_def)
qed

lemma Compose_sided:
  assumes "comparator fless" "sided env f" "sided env g"
  shows "sided env (Compose env ops fless f g)"
    and "hasRootIdentity f \<Longrightarrow> hasRootIdentity g \<Longrightarrow> hasRootIdentity (Compose env ops fless f g)"
proof -
  obtain ps root where c: "Canonicalize env (sorted_pairs env fless f g) = (ps, root)" by fastforce
  then have C: "Compose env ops fless f g = (if IsIdentity ops f then g else if IsIdentity ops g then f
      else \<lparr>pairs = ps, hasRootIdentity = root, offset = offset_mult ops (offset f) (offset g)\<rparr>)"
    by (simp add: Compose_def ComposePathPairs_sorted)
  note rooted = compose_rooted [OF assms]
  show "sided env (Compose env ops fless f g)"
    using assms(2,3) by (simp add: C Canonicalize_sided(1) [OF rooted(1) c])
  assume "hasRootIdentity f" "hasRootIdentity g"
  then show "hasRootIdentity (Compose env ops fless f g)"
    using Canonicalize_sided(2) [OF rooted(1) c] rooted(2) by (simp add: C)
qed

lemma GetInverse_sided:
  assumes "comparator fless" "sided env f"
  shows "sided env (GetInverse ops fless f)" "hasRootIdentity (GetInverse ops fless f) = hasRootIdentity f"
  using assms source_sorted_std_sort [OF assms(1)] by (auto simp: GetInverse_def sided_def list_all_iff)

lemma ImpliedClass_sided:
  assumes "comparator fless" "sided env f" "sided env g"
  shows "sided env (ImpliedClass env ops fless f g)"
    and "(IsIdentity ops f \<Longrightarrow> hasRootIdentity g) \<Longrightarrow> hasRootIdentity (ImpliedClass env ops fless f g)"
proof -
  have "sided env (Compose env ops fless f (Compose env ops fless g (GetInverse ops fless f)))"
    by (rule Compose_sided [OF assms(1,2) Compose_sided(1) [OF assms(1,3) GetInverse_sided(1) [OF assms(1,2)]]])
  then show "sided env (ImpliedClass env ops fless f g)" using assms(3) by (simp add: ImpliedClass_def sided_def)
qed (simp add: ImpliedClass_def)

section \<open>Adding the root identity\<close>

lemma set_path_map_insert: "set (path_map_insert fless e m) \<subseteq> insert e (set m)"
  by (induction m) auto

lemma set_path_map_assign: "set (path_map_assign fless e m) \<subseteq> insert e (set m)" "e \<in> set (path_map_assign fless e m)"
  by (induction m) auto

lemma length_path_map: "length (path_map_insert fless e m) \<le> Suc (length m)" "length (path_map_assign fless e m) \<le> Suc (length m)"
  by (induction m) auto

lemma path_map_sorted:
  assumes "comparator fless" "sorted_wrt (\<lambda>a b. fless (fst a) (fst b)) m"
  shows "sorted_wrt (\<lambda>a b. fless (fst a) (fst b)) (path_map_insert fless e m)"
    and "sorted_wrt (\<lambda>a b. fless (fst a) (fst b)) (path_map_assign fless e m)"
proof -
  have total: "\<not> fless p q \<Longrightarrow> \<not> fless q p \<Longrightarrow> p = q" for p q using comparator.total [OF assms(1)] by blast
  have "sorted_wrt (\<lambda>a b. fless (fst a) (fst b)) (path_map_insert fless e m)
    \<and> sorted_wrt (\<lambda>a b. fless (fst a) (fst b)) (path_map_assign fless e m)"
    using assms(2)
  proof (induction m)
    case (Cons x xs)
    have above: "fless (fst x) (fst z)" if "fless (fst x) (fst e)" "set ys \<subseteq> insert e (set xs)" "z \<in> set ys" for z ys
      using that Cons.prems by auto
    have below: "fless (fst e) (fst z)" if "fless (fst e) (fst x)" "z \<in> set xs" for z
      using that Cons.prems comparator.trans [OF assms(1), of "fst e" "fst x"] by auto
    consider (less) "fless (fst e) (fst x)" | (greater) "\<not> fless (fst e) (fst x)" "fless (fst x) (fst e)"
      | (same) "\<not> fless (fst e) (fst x)" "\<not> fless (fst x) (fst e)" by blast
    then show ?case
    proof cases
      case less
      then show ?thesis using Cons.prems below [OF less] by simp
    next
      case greater
      have "\<forall>z \<in> set (path_map_insert fless e xs). fless (fst x) (fst z)"
        "\<forall>z \<in> set (path_map_assign fless e xs). fless (fst x) (fst z)"
        using above [OF greater(2) set_path_map_insert] above [OF greater(2) set_path_map_assign(1)] by blast+
      then show ?thesis using Cons.IH Cons.prems greater by simp
    next
      case same
      then show ?thesis using Cons.prems total [OF same] by simp
    qed
  qed simp
  then show "sorted_wrt (\<lambda>a b. fless (fst a) (fst b)) (path_map_insert fless e m)"
    "sorted_wrt (\<lambda>a b. fless (fst a) (fst b)) (path_map_assign fless e m)" by blast+
qed

lemma path_map_foldl_sorted:
  assumes "comparator fless" "sorted_wrt (\<lambda>a b. fless (fst a) (fst b)) m"
  shows "sorted_wrt (\<lambda>a b. fless (fst a) (fst b)) (foldl (\<lambda>m e. path_map_insert fless e m) m es)"
  using assms(2) by (induction es arbitrary: m) (simp_all add: path_map_sorted(1) [OF assms(1)])

lemma path_map_foldl:
  "set (foldl (\<lambda>m e. path_map_insert fless e m) m es) \<subseteq> set m \<union> set es
    \<and> length (foldl (\<lambda>m e. path_map_insert fless e m) m es) \<le> length m + length es"
proof (induction es arbitrary: m)
  case (Cons e es)
  have "length (path_map_insert fless e m) \<le> Suc (length m)" by (rule length_path_map)
  then show ?case using Cons [of "path_map_insert fless e m"] set_path_map_insert [of fless e m] by auto
qed simp

definition can_add_root :: "'o PcpMapFunction \<Rightarrow> bool" where
  "can_add_root f \<longleftrightarrow> hasRootIdentity f \<or>
     length (pairs f) < maxPairCount \<and> list_all (\<lambda>(s, t). \<not> IsEmpty s) (pairs f)"

lemma map_side_valid: "map_side env p \<Longrightarrow> \<not> IsEmpty p \<Longrightarrow> isValidMapPath p"
  using isValidMapPath_side [OF map_side_is_side] .

lemma AddRootIdentity_sided:
  assumes fless: "comparator (context_less c)" and f: "sided (context_env c) f" and add: "can_add_root f"
  shows "sided (context_env c) (AddRootIdentity c f)" "hasRootIdentity (AddRootIdentity c f)"
proof -
  let ?env = "context_env c" and ?fless = "context_less c" and ?r = "(AbsoluteRootPath, AbsoluteRootPath)"
  let ?m = "path_map_assign ?fless ?r (foldl (\<lambda>m e. path_map_insert ?fless e m) [] (pairs f))"
  have "sided ?env (AddRootIdentity c f) \<and> hasRootIdentity (AddRootIdentity c f)"
  proof (cases "hasRootIdentity f \<or> length ?m = 1 \<and> offset_is_identity (context_ops c) (offset f) \<and> hd ?m = ?r")
    case True
    then show ?thesis
      using f sided_simple(2) [of ?env "context_ops c"]
      by (auto simp: AddRootIdentity_def SourceToTargetMap_def MapFunction_Create_def Let_def Identity_def NullFunction_def)
  next
    case False
    let ?f = "foldl (\<lambda>m e. path_map_insert ?fless e m) [] (pairs f)"
    have set: "set ?m \<subseteq> insert ?r (set (pairs f))" "?r \<in> set ?m" "length ?m \<le> maxPairCount"
      using set_path_map_assign [where fless = ?fless and e = ?r and m = ?f]
        length_path_map(2) [where fless = ?fless and e = ?r and m = ?f]
        path_map_foldl [where fless = ?fless and m = "[]" and es = "pairs f"] False add
      by (auto simp: can_add_root_def)
    have "sorted_wrt (\<lambda>a b. ?fless (fst a) (fst b)) ?m"
      by (intro path_map_sorted(2) [OF fless] path_map_foldl_sorted [OF fless]) simp
    then have "sorted_wrt (\<noteq>) ?m"
      by (rule sorted_wrt_mono_rel [rotated]) (use comparator.irrefl [OF fless] in auto)
    then have distinct: "distinct ?m" by (simp add: distinct_sorted_wrt)
    have pair: "s = AbsoluteRootPath \<and> t = AbsoluteRootPath \<or> map_side ?env s \<and> map_side ?env t \<and> \<not> IsEmpty s"
      if "(s, t) \<in> set ?m" for s t
      using that set(1) sidedD [OF f, of s t] False add by (auto simp: can_add_root_def list_all_iff)
    have "isValidMapPath AbsoluteRootPath" by (simp add: isValidMapPath_def path_queries)
    then have valid: "list_all (\<lambda>(s, t). isValidMapPath s \<and> (IsEmpty t \<or> isValidMapPath t)) ?m"
      using pair map_side_valid by (fastforce simp: list_all_iff)
    obtain ps root where c: "Canonicalize ?env (std_sort (PathPairOrder ?fless) ?m) = (ps, root)" by fastforce
    let ?s = "std_sort (PathPairOrder ?fless) ?m"
    have F: "AddRootIdentity c f = \<lparr>pairs = ps, hasRootIdentity = root, offset = offset f\<rparr>"
      using False set(3) valid c
      by (auto simp: AddRootIdentity_def SourceToTargetMap_def MapFunction_Create_def Let_def not_less [symmetric])
    have sorted: "source_sorted ?s" by (rule source_sorted_std_sort [OF fless])
    obtain x xs where x: "?s = x # xs" using set(2) by (metis list.exhaust list.set(1) empty_iff set_std_sort)
    have elems: "y = ?r \<or> map_side ?env (fst y) \<and> map_side ?env (snd y) \<and> \<not> IsEmpty (fst y)" if "y \<in> set (x # xs)" for y
      using pair [of "fst y" "snd y"] that x set_std_sort [of "PathPairOrder ?fless" ?m] by (cases y) auto
    have "GetPathElementCount (fst x) = 0"
    proof (cases "x = ?r")
      case False
      then have "?r \<in> set xs" using set(2) x set_std_sort [of "PathPairOrder ?fless" ?m] by auto
      then show ?thesis using sorted x root_element_count by (auto simp: source_sorted_def)
    qed (simp add: root_element_count)
    then have hd: "x = ?r" using elems [of x] side_element_count [of ?env "fst x"] IsEmpty_side [of ?env "fst x"] by auto
    have "?r \<notin> set xs" using distinct x hd distinct_std_sort [of "PathPairOrder ?fless" ?m] by simp
    then have "list_all (\<lambda>(s, t). map_side ?env s \<and> map_side ?env t) xs" using elems by (fastforce simp: list_all_iff)
    then have rooted: "rooted_pairs ?env ?s" using sorted x hd unfolding rooted_pairs_def by blast
    have "root" using Canonicalize_sided(2) [OF rooted c] x hd by simp
    then show ?thesis unfolding F using Canonicalize_sided(1) [OF rooted c] by simp
  qed
  then show "sided (context_env c) (AddRootIdentity c f)" "hasRootIdentity (AddRootIdentity c f)" by simp_all
qed

section \<open>The flag of a tree\<close>

primrec tree_flag :: "'o map_tree \<Rightarrow> bool" where
  "tree_flag (Const v) = hasRootIdentity v"
| "tree_flag (Var n) = False"
| "tree_flag (Inv t) = tree_flag t"
| "tree_flag (Comp t u) = (tree_flag t \<and> tree_flag u)"
| "tree_flag (AddRoot t) = True"
| "tree_flag (Implied t u) = True"

text \<open>When the flag is right: functions have well-formed sides; the root identity can be added where it is added,
  which takes sources that are not empty; and an implied class under an identity has it already.\<close>

primrec tree_ok :: "'o map_context \<Rightarrow> (nat \<Rightarrow> 'o PcpMapFunction) \<Rightarrow> 'o map_tree \<Rightarrow> bool" where
  "tree_ok c vars (Const v) = sided (context_env c) v"
| "tree_ok c vars (Var n) = sided (context_env c) (vars n)"
| "tree_ok c vars (Inv t) = tree_ok c vars t"
| "tree_ok c vars (Comp t u) = (tree_ok c vars t \<and> tree_ok c vars u)"
| "tree_ok c vars (AddRoot t) = (tree_ok c vars t \<and> can_add_root (tree_value c vars t))"
| "tree_ok c vars (Implied t u) = (tree_ok c vars t \<and> tree_ok c vars u \<and>
     (IsIdentity (context_ops c) (tree_value c vars t) \<longrightarrow> hasRootIdentity (tree_value c vars u)))"

lemma tree_flag_root:
  assumes "comparator (context_less c)" "tree_ok c vars t"
  shows "sided (context_env c) (tree_value c vars t) \<and> (tree_flag t \<longrightarrow> hasRootIdentity (tree_value c vars t))"
  using assms(2)
proof (induction t)
  case (Inv t)
  then show ?case using GetInverse_sided [OF assms(1), of "context_env c" "tree_value c vars t"] by simp
next
  case (Comp t u)
  then show ?case
    using Compose_sided [OF assms(1), of "context_env c" "tree_value c vars t" "tree_value c vars u"] by simp
next
  case (AddRoot t)
  then show ?case using AddRootIdentity_sided [OF assms(1), of "tree_value c vars t"] by simp
next
  case (Implied t u)
  then show ?case
    using ImpliedClass_sided [OF assms(1), of "context_env c" "tree_value c vars t" "tree_value c vars u"] by simp
qed simp_all

lemma flag_at_tree:
  assumes "flags_ok st"
  shows "represents (key_at st) n t \<Longrightarrow> flag_at st n = tree_flag t"
proof (induction t arbitrary: n)
qed (use assms in \<open>auto simp: flags_ok_def flag_at_def key_at_Some ExpressionTreeAlwaysHasIdentity_flags key_shapes\<close>)

end
