(* ===== verification/Pcp_ExpressionRuns.thy ===== *)
theory Pcp_ExpressionRuns
  imports Pcp_ExpressionRoot
begin

text \<open>
  What clients of map expressions see: they create expressions and variables, combine, evaluate,
  assign and drop them in any order. Evaluation always returns, with the value that the variables
  have then; nothing that is still referred to is deleted, and nothing else is kept.
\<close>

section \<open>Adding the root identity to an expression\<close>

lemma AddRootIdentity_rooted: "hasRootIdentity f \<Longrightarrow> AddRootIdentity c f = f"
  by (simp add: AddRootIdentity_def)

lemma AddRootIdentity_expression_makes:
  assumes laws: "offset_laws (context_ops c)" and fless: "comparator (context_less c)"
    and ok: "store_ok c refs st" and e: "denotes st e t"
  shows "\<exists>r. AddRootIdentity_expression c st e = Some r \<and>
    makes c refs st (\<lambda>vars v. tree_ok c vars t \<longrightarrow> v = AddRootIdentity c (tree_value c vars t)) r"
proof -
  let ?P = "\<lambda>vars v. tree_ok c vars t \<longrightarrow> v = AddRootIdentity c (tree_value c vars t)"
  obtain a where a: "e = Some a" using e by (auto simp: denotes_def)
  note live = denotes_live [OF e [unfolded a]]
  obtain nd where nd: "node_at st a = Some nd" using represents_live [OF live(2)] by blast
  then have o: "expression_op st e = Some (key_op (node_key nd))" by (simp add: expression_op_def a)
  consider (identity) "IsConstantIdentity c st e" | (const) "\<not> IsConstantIdentity c st e" "key_op (node_key nd) = OpConstant"
    | (flag) "\<not> IsConstantIdentity c st e" "key_op (node_key nd) \<noteq> OpConstant" "expressionTreeAlwaysHasIdentity nd"
    | (node) "\<not> IsConstantIdentity c st e" "key_op (node_key nd) \<noteq> OpConstant" "\<not> expressionTreeAlwaysHasIdentity nd" by blast
  then show ?thesis
  proof cases
    case identity
    have "hasRootIdentity (Identity (context_ops c))" by (simp add: Identity_def)
    then have "makes c refs st ?P (copy_expression st e)"
      by (intro makes_copy [OF ok e]) (simp add: denotes_Identity [OF laws e identity] AddRootIdentity_rooted)
    then show ?thesis using identity by (simp add: AddRootIdentity_expression_def)
  next
    case const
    obtain v where t: "t = Const v" using denotes_constant [OF e] o const by metis
    have "\<exists>r. do { (v1, st) \<leftarrow> Evaluate c st e; Some (Constant c st (AddRootIdentity c v1)) } = Some r \<and> makes c refs st ?P r"
      by (rule makes_constant_of [OF ok e [unfolded t]]) (simp add: t)
    then show ?thesis using const nd by (simp add: AddRootIdentity_expression_def a)
  next
    case flag
    have "flags_ok st" using ok by (simp add: store_ok_def links_ok_def)
    from flag_at_tree [OF this live(2)] have "tree_flag t" using flag(3) nd by (simp add: flag_at_def)
    then have "makes c refs st ?P (copy_expression st e)"
      using tree_flag_root [OF fless] by (intro makes_copy [OF ok e]) (simp add: AddRootIdentity_rooted)
    then show ?thesis using flag nd by (simp add: AddRootIdentity_expression_def a)
  next
    case node
    have "makes c refs st ?P (new_expression c st OpAddRootIdentity (Some a) None (NullFunction (context_ops c)))"
      by (rule makes_new [where t = "AddRoot t", OF ok])
        (use live(1) represents_mono [OF _ live(2)] in \<open>auto simp: key_ok_def key_shapes\<close>)
    then show ?thesis using node nd by (simp add: AddRootIdentity_expression_def a)
  qed
qed

section \<open>Variables\<close>

lemma SetValueForVariable_assigns:
  assumes ok: "store_ok c refs st" and var: "represents (key_at st) n (Var n)"
  shows "store_ok c refs (SetValueForVariable c n v st)" "key_at (SetValueForVariable c n v st) = key_at st"
    and "variable_values c (SetValueForVariable c n v st) = (variable_values c st)(n := v)"
    and "identityExpression (SetValueForVariable c n v st) = identityExpression st"
proof -
  let ?set = "\<lambda>nd. nd\<lparr>valueForVariable := v\<rparr>" and ?st = "SetValueForVariable c n v st"
  obtain nd where nd: "node_at st n = Some nd" "key_op (node_key nd) = OpVariable"
    using var by (auto simp: key_at_Some key_shapes)
  have links: "links_ok refs st" "cache_ok c st" "dependents_ok st" using ok by (simp_all add: store_ok_def links_ok_def)
  note set = SetValueForVariable_ok [OF links(2,3) nd, of v]
  have "links_ok refs (modify_node n ?set st)" by (rule links_ok_modify [OF _ links(1)]) (simp add: same_links_def)
  then show "store_ok c refs ?st" using links_ok_caches [OF set(2)] set(1) by (simp add: store_ok_def)
  have "key_at (modify_node n ?set st) = key_at st" using nd(1) by (auto simp: key_at_def node_at_modify)
  then show "key_at ?st = key_at st" using same_keys [OF set(2)] by simp
  have "variable_values c (modify_node n ?set st) = (variable_values c st)(n := v)"
    using nd(1) by (auto simp: variable_values_def node_at_modify)
  then show "variable_values c ?st = (variable_values c st)(n := v)" using same_variables [OF set(2), of c] by simp
  show "identityExpression ?st = identityExpression st"
    using arg_cong [OF set(2), of identityExpression] by (simp add: without_caches_def)
qed

lemma NewVariable_ok:
  assumes ok: "store_ok c refs st" and res: "NewVariable c st v = (n, st')"
  shows "store_ok c (add_ref refs n) st'" "key_at st \<subseteq>\<^sub>m key_at st'" "represents (key_at st') n (Var n)"
    and "key_at st n = None" "variable_values c st' = (variable_values c st)(n := v)"
    and "identityExpression st' = identityExpression st"
proof -
  let ?k = "\<lparr>key_op = OpVariable, key_arg1 = None, key_arg2 = None, valueForConstant = NullFunction (context_ops c)\<rparr>"
  obtain st1 where r: "Node_New c st OpVariable None None (NullFunction (context_ops c)) = (n, st1)"
    and st': "st' = SetValueForVariable c n v st1"
    using res by (auto simp: NewVariable_def Let_def split: prod.splits)
  note new = Node_New_ok [OF ok refl _ _ r]
  have new: "store_ok c (add_ref refs n) st1" "key_at st1 n = Some ?k" "key_at st \<subseteq>\<^sub>m key_at st1"
    "variable_values c st1 = variable_values c st"
    by (rule new; simp add: key_ok_def key_args_def)+
  then have var: "represents (key_at st1) n (Var n)" by (simp add: key_shapes)
  have "n = length (node_heap st)"
    using r by (auto simp: Node_New_def construct_node_def Let_def key_args_def)
  then show "key_at st n = None" by (simp add: key_at_def node_at_def)
  note set = SetValueForVariable_assigns [OF new(1) var, of v]
  show "store_ok c (add_ref refs n) st'" "key_at st \<subseteq>\<^sub>m key_at st'" "represents (key_at st') n (Var n)"
    "variable_values c st' = (variable_values c st)(n := v)" "identityExpression st' = identityExpression st"
    using set new(3,4) var Node_New_identity [OF r] by (simp_all add: st')
qed

section \<open>Dropping\<close>

lemma identity_release: "identityExpression (release_loop ns st) = identityExpression st"
proof (induction ns st rule: release_loop.induct)
  case (2 n ns st)
  have "identityExpression (snd (delete_node n nd st)) = identityExpression st" for nd
    by (simp add: delete_node_def Let_def)
  then show ?case using 2 by (cases "node_at st n") (simp_all del: One_nat_def)
qed simp

declare release_loop.simps [simp del]

lemma release_keeps:
  assumes "store_ok c (add_ref refs n) st"
  shows "store_ok c refs (release n st)" "key_at (release n st) \<subseteq>\<^sub>m key_at st"
    and "0 < refs m \<Longrightarrow> represents (key_at st) m t \<Longrightarrow> represents (key_at (release n st)) m t
      \<and> tree_value c (variable_values c (release n st)) t = tree_value c (variable_values c st) t"
proof -
  let ?st = "release n st"
  have ok: "store_ok c refs ?st" and keys: "key_at ?st \<subseteq>\<^sub>m key_at st"
    and vars: "\<forall>m \<in> dom (key_at ?st). variable_values c ?st m = variable_values c st m"
    using release_loop_ok [of c refs "[n]" st] assms unfolding add_ref_count release_def by simp_all
  show "store_ok c refs ?st" "key_at ?st \<subseteq>\<^sub>m key_at st" by (rule ok, rule keys)
  assume m: "0 < refs m" "represents (key_at st) m t"
  have "count_ok (key_at ?st) refs m (node_at ?st m)" using ok by (simp add: store_ok_def links_ok_def counts_ok_def)
  then obtain k where "key_at ?st m = Some k" using m(1) by (auto simp: count_ok_def key_at_def split: option.splits)
  moreover have "keys_ok (key_at ?st)" using ok by (simp add: store_ok_def links_ok_def)
  ultimately obtain u where u: "represents (key_at ?st) m u" using represents_exists by blast
  then have "u = t" using represents_unique [OF represents_mono [OF keys u] m(2)] by simp
  then have t: "represents (key_at ?st) m t" using u by simp
  have "tree_value c (variable_values c ?st) t = tree_value c (variable_values c st) t"
    by (rule tree_value_cong) (use vars represents_vars_live [OF t] in blast)
  then show "represents (key_at ?st) m t
      \<and> tree_value c (variable_values c ?st) t = tree_value c (variable_values c st) t" using t by simp
qed

section \<open>Runs\<close>

definition empty_store :: "'o map_state" where
  "empty_store = \<lparr>node_heap = [], nodeRegistry = Map.empty, identityExpression = None\<rparr>"

text \<open>The states that clients can reach, with the references that they hold. They combine only expressions
  that they refer to, and drop no more references than they have.\<close>

inductive expression_run :: "'o map_context \<Rightarrow> (nat \<Rightarrow> nat) \<Rightarrow> 'o map_state \<Rightarrow> bool" for c where
  start: "expression_run c (\<lambda>n. 0) empty_store"
| fresh_constant: "expression_run c refs st \<Longrightarrow> Constant c st v = (Some n, st') \<Longrightarrow> expression_run c (add_ref refs n) st'"
| identity: "expression_run c refs st \<Longrightarrow> Identity_expression c st = (Some n, st') \<Longrightarrow> expression_run c (add_ref refs n) st'"
| new_variable: "expression_run c refs st \<Longrightarrow> NewVariable c st v = (n, st') \<Longrightarrow> expression_run c (add_ref refs n) st'"
| assign: "expression_run c refs st \<Longrightarrow> represents (key_at st) n (Var n) \<Longrightarrow>
    expression_run c refs (SetValueForVariable c n v st)"
| copy: "expression_run c refs st \<Longrightarrow> 0 < refs n \<Longrightarrow> expression_run c (add_ref refs n) (retain st n)"
| compose: "expression_run c refs st \<Longrightarrow> 0 < refs a \<Longrightarrow> 0 < refs b \<Longrightarrow>
    Compose_expression c st (Some a) (Some b) = Some (Some n, st') \<Longrightarrow> expression_run c (add_ref refs n) st'"
| implied_class: "expression_run c refs st \<Longrightarrow> 0 < refs a \<Longrightarrow> 0 < refs b \<Longrightarrow>
    ImpliedClass_expression c st (Some a) (Some b) = Some (Some n, st') \<Longrightarrow> expression_run c (add_ref refs n) st'"
| inverse: "expression_run c refs st \<Longrightarrow> 0 < refs a \<Longrightarrow>
    Inverse_expression c st (Some a) = Some (Some n, st') \<Longrightarrow> expression_run c (add_ref refs n) st'"
| add_root_identity: "expression_run c refs st \<Longrightarrow> 0 < refs a \<Longrightarrow>
    AddRootIdentity_expression c st (Some a) = Some (Some n, st') \<Longrightarrow> expression_run c (add_ref refs n) st'"
| evaluate: "expression_run c refs st \<Longrightarrow> 0 < refs a \<Longrightarrow> Evaluate c st (Some a) = Some (v, st') \<Longrightarrow> expression_run c refs st'"
| drop: "expression_run c (add_ref refs n) st \<Longrightarrow> expression_run c refs (drop_expression st (Some n))"

text \<open>The references that there are: those of the clients, and the one of the static identity expression.\<close>

definition owned :: "(nat \<Rightarrow> nat) \<Rightarrow> 'o map_state \<Rightarrow> nat \<Rightarrow> nat" where
  "owned refs st = (\<lambda>n. refs n + (if identityExpression st = Some n then 1 else 0))"

definition run_ok :: "'o map_context \<Rightarrow> (nat \<Rightarrow> nat) \<Rightarrow> 'o map_state \<Rightarrow> bool" where
  "run_ok c refs st \<longleftrightarrow> store_ok c (owned refs st) st
     \<and> (\<forall>n. identityExpression st = Some n \<longrightarrow> represents (key_at st) n (Const (Identity (context_ops c))))"

lemma owned_add: "identityExpression st' = identityExpression st \<Longrightarrow> owned (add_ref refs n) st' = add_ref (owned refs st) n"
  by (rule ext) (simp add: owned_def add_ref_def)

lemma store_live:
  assumes "store_ok c refs st" "0 < refs n"
  obtains t where "represents (key_at st) n t"
proof -
  have ok: "counts_ok refs st" "keys_ok (key_at st)" using assms(1) by (simp_all add: store_ok_def links_ok_def)
  have "count_ok (key_at st) refs n (node_at st n)" using ok(1) by (simp add: counts_ok_def)
  then obtain k where "key_at st n = Some k" using assms(2) by (auto simp: count_ok_def key_at_def split: option.splits)
  then show thesis using represents_exists [OF ok(2)] that by blast
qed

lemma run_denotes:
  assumes "run_ok c refs st" "0 < refs n"
  obtains t where "denotes st (Some n) t"
proof -
  have "store_ok c (owned refs st) st" "0 < owned refs st n" using assms by (simp_all add: run_ok_def owned_def)
  then obtain t where "represents (key_at st) n t" by (rule store_live)
  then show thesis using that by (simp add: denotes_def)
qed

lemma run_ok_makes:
  assumes run: "run_ok c refs st" and makes: "makes c (owned refs st) st P (Some n, st')"
  shows "run_ok c (add_ref refs n) st'"
proof -
  have new: "store_ok c (add_ref (owned refs st) n) st'" "key_at st \<subseteq>\<^sub>m key_at st'"
    "identityExpression st' = identityExpression st"
    using makes by (auto simp: makes_def)
  have "represents (key_at st') m (Const (Identity (context_ops c)))" if "identityExpression st' = Some m" for m
    using run that new(3) represents_mono [OF new(2)] by (simp only: run_ok_def)
  then show ?thesis using new(1) unfolding run_ok_def owned_add [OF new(3)] by blast
qed

lemma run_ok_result:
  assumes "run_ok c refs st" "\<exists>r. res = Some r \<and> makes c (owned refs st) st P r" "res = Some (Some n, st')"
  shows "run_ok c (add_ref refs n) st'"
  using run_ok_makes [OF assms(1)] assms(2,3) by auto

lemma run_ok_same:
  assumes "run_ok c refs st" "store_ok c (owned refs st) st'" "key_at st' = key_at st"
    "identityExpression st' = identityExpression st"
  shows "run_ok c refs st'"
proof -
  have "owned refs st' = owned refs st" by (rule ext) (simp add: owned_def assms(4))
  then show ?thesis using assms by (simp add: run_ok_def)
qed

text \<open>The static pointer is no part of what the invariant of the store speaks of.\<close>

lemma set_identity:
  "key_at (st\<lparr>identityExpression := e\<rparr>) = key_at st" "variable_values c (st\<lparr>identityExpression := e\<rparr>) = variable_values c st"
  "store_ok c refs st \<Longrightarrow> store_ok c refs (st\<lparr>identityExpression := e\<rparr>)"
proof -
  let ?st = "st\<lparr>identityExpression := e\<rparr>"
  have node: "node_at ?st n = node_at st n" for n by (simp add: node_at_def)
  show keys: "key_at ?st = key_at st" by (rule ext) (simp add: key_at_def node)
  show vars: "variable_values c ?st = variable_values c st" by (rule ext) (simp add: variable_values_def node)
  assume ok: "store_ok c refs st"
  have "links_ok refs ?st"
  proof (rule links_ok_cong)
    show "rel_option same_links (node_at st n) (node_at ?st n)" for n
      by (cases "node_at st n") (simp_all add: node same_links_def)
  qed (use ok in \<open>simp_all add: store_ok_def\<close>)
  moreover have "cached ?st = cached st" by (rule ext) (simp add: cached_def node)
  then have "cache_ok c ?st" using ok unfolding store_ok_def cache_ok_def args_cached_def keys vars node by simp
  ultimately show "store_ok c refs ?st" by (simp add: store_ok_def)
qed

lemma Identity_expression_run:
  assumes run: "run_ok c refs st" and res: "Identity_expression c st = (Some n, st')"
  shows "run_ok c (add_ref refs n) st'"
proof (cases "identityExpression st")
  case (Some m)
  have ok: "store_ok c (owned refs st) st" and id: "denotes st (Some m) (Const (Identity (context_ops c)))"
    using run Some by (auto simp: run_ok_def denotes_def)
  have "makes c (owned refs st) st (\<lambda>vars v. True) (copy_expression st (Some m))" by (rule makes_copy [OF ok id]) simp
  moreover have "copy_expression st (Some m) = (Some n, st')" using res Some by (simp add: Identity_expression_def)
  ultimately show ?thesis using run_ok_makes [OF run] by simp
next
  case None
  have ok: "store_ok c refs st" using run None by (simp add: run_ok_def owned_def)
  obtain st1 where r: "Constant c st (Identity (context_ops c)) = (Some n, st1)"
    and st': "st' = retain (st1\<lparr>identityExpression := Some n\<rparr>) n"
    using res None by (cases "Constant c st (Identity (context_ops c))") (auto simp: Identity_expression_def Let_def copy_expression_def)
  let ?st = "st1\<lparr>identityExpression := Some n\<rparr>"
  have "makes c refs st (\<lambda>vars v. v = Identity (context_ops c)) (Constant c st (Identity (context_ops c)))"
    by (rule makes_Constant [OF ok refl])
  then have 1: "store_ok c (add_ref refs n) st1" using r by (simp add: makes_def)
  obtain n1 where "Node_New c st OpConstant None None (Identity (context_ops c)) = (n1, st1)" "n1 = n"
    using r by (auto simp: Constant_def new_expression_def split: prod.splits)
  then have key: "key_at st1 n = Some \<lparr>key_op = OpConstant, key_arg1 = None, key_arg2 = None,
      valueForConstant = Identity (context_ops c)\<rparr>"
    using Node_New_ok(2) [OF ok refl, of OpConstant None None "Identity (context_ops c)" n st1]
    by (simp add: key_ok_def key_args_def)
  have "key_at ?st n \<noteq> None" using key by (simp add: set_identity)
  note retained = retain_ok [OF set_identity(3) [OF 1] this]
  have "owned (add_ref refs n) st' = add_ref (add_ref refs n) n"
    by (rule ext) (simp add: owned_def add_ref_def st' retain_def)
  moreover have "represents (key_at st') n (Const (Identity (context_ops c)))"
    using key retained(2) by (simp add: st' set_identity key_shapes)
  moreover have "identityExpression st' = Some n" by (simp add: st' retain_def)
  ultimately show ?thesis using retained(1) by (simp add: run_ok_def st')
qed

lemma empty_store_ok:
  fixes c :: "'o map_context"
  shows "run_ok c (\<lambda>n. 0) empty_store"
proof -
  have node: "node_at (empty_store :: 'o map_state) n = None" for n by (simp add: node_at_def empty_store_def)
  then have "key_at (empty_store :: 'o map_state) = Map.empty" by (simp add: fun_eq_iff key_at_def)
  then show ?thesis
    by (simp add: run_ok_def store_ok_def links_ok_def keys_ok_def dependents_ok_def flags_ok_def counts_ok_def count_ok_def
        cache_ok_def registry_ok_def node) (simp add: empty_store_def owned_def)
qed

text \<open>The invariant holds in every run.\<close>

lemma expression_run_ok:
  assumes laws: "offset_laws (context_ops c)" and fless: "comparator (context_less c)"
  shows "expression_run c refs st \<Longrightarrow> run_ok c refs st"
proof (induction rule: expression_run.induct)
  case start
  show ?case by (rule empty_store_ok)
next
  case (fresh_constant refs st v n st')
  then have "store_ok c (owned refs st) st" by (simp add: run_ok_def)
  from makes_Constant [OF this, of "\<lambda>vars v. True" v] show ?case
    using run_ok_makes [OF fresh_constant(3)] fresh_constant(2) by simp
next
  case (identity refs st n st')
  then show ?case using Identity_expression_run by blast
next
  case (new_variable refs st v n st')
  then have ok: "store_ok c (owned refs st) st" by (simp add: run_ok_def)
  note new = NewVariable_ok [OF ok new_variable(2)]
  have "represents (key_at st') m (Const (Identity (context_ops c)))" if "identityExpression st' = Some m" for m
    using new_variable(3) that new(6) represents_mono [OF new(2)] by (simp only: run_ok_def)
  then show ?case using new(1) unfolding run_ok_def owned_add [OF new(6)] by blast
next
  case (assign refs st n v)
  then have ok: "store_ok c (owned refs st) st" by (simp add: run_ok_def)
  note set = SetValueForVariable_assigns [OF ok assign(2), of v]
  show ?case by (rule run_ok_same [OF assign(3) set(1,2,4)])
next
  case (copy refs st n)
  obtain t where t: "denotes st (Some n) t" by (rule run_denotes [OF copy(3,2)])
  have "store_ok c (owned refs st) st" using copy by (simp add: run_ok_def)
  from makes_copy [OF this t, of "\<lambda>vars v. True"] show ?case
    using run_ok_makes [OF copy(3)] by (simp add: copy_expression_def)
next
  case (compose refs st a b n st')
  obtain t where t: "denotes st (Some a) t" by (rule run_denotes [OF compose(5,2)])
  obtain u where u: "denotes st (Some b) u" by (rule run_denotes [OF compose(5,3)])
  have ok: "store_ok c (owned refs st) st" using compose(5) by (simp add: run_ok_def)
  show ?case by (rule run_ok_result [OF compose(5) Compose_expression_makes [OF laws ok t u] compose(4)])
next
  case (implied_class refs st a b n st')
  obtain t where t: "denotes st (Some a) t" by (rule run_denotes [OF implied_class(5,2)])
  obtain u where u: "denotes st (Some b) u" by (rule run_denotes [OF implied_class(5,3)])
  have ok: "store_ok c (owned refs st) st" using implied_class(5) by (simp add: run_ok_def)
  show ?case by (rule run_ok_result [OF implied_class(5) ImpliedClass_expression_makes [OF laws ok t u] implied_class(4)])
next
  case (inverse refs st a n st')
  obtain t where t: "denotes st (Some a) t" by (rule run_denotes [OF inverse(4,2)])
  have ok: "store_ok c (owned refs st) st" using inverse(4) by (simp add: run_ok_def)
  show ?case by (rule run_ok_result [OF inverse(4) Inverse_expression_makes [OF laws ok t] inverse(3)])
next
  case (add_root_identity refs st a n st')
  obtain t where t: "denotes st (Some a) t" by (rule run_denotes [OF add_root_identity(4,2)])
  have ok: "store_ok c (owned refs st) st" using add_root_identity(4) by (simp add: run_ok_def)
  show ?case
    by (rule run_ok_result [OF add_root_identity(4) AddRootIdentity_expression_makes [OF laws fless ok t] add_root_identity(3)])
next
  case (evaluate refs st a v st')
  obtain t where t: "denotes st (Some a) t" using run_denotes [OF evaluate(4,2)] by metis
  have ok: "store_ok c (owned refs st) st" using evaluate by (simp add: run_ok_def)
  show ?case using Evaluate_denoted [OF ok t] evaluate(3) run_ok_same [OF evaluate(4)] by auto
next
  case (drop refs n st)
  have "store_ok c (add_ref (owned refs st) n) st"
    using drop(2) owned_add [OF refl, of refs n st] by (simp add: run_ok_def)
  note kept = release_keeps [OF this]
  have id: "identityExpression (release n st) = identityExpression st" by (simp add: release_def identity_release)
  have "represents (key_at (release n st)) m (Const (Identity (context_ops c)))" if "identityExpression st = Some m" for m
    using kept(3) [of m "Const (Identity (context_ops c))"] drop(2) that by (simp add: run_ok_def owned_def)
  moreover have "owned refs (release n st) = owned refs st" by (rule ext) (simp add: owned_def id)
  ultimately show ?case using kept(1) id by (simp add: run_ok_def drop_expression_def)
qed

section \<open>What clients can rely on\<close>

definition context_ok :: "'o map_context \<Rightarrow> bool" where
  "context_ok c \<longleftrightarrow> offset_laws (context_ops c) \<and> comparator (context_less c)"

definition returns_expression :: "'o map_context \<Rightarrow> (nat \<Rightarrow> nat) \<Rightarrow> 'o map_state
    \<Rightarrow> ((nat \<Rightarrow> 'o PcpMapFunction) \<Rightarrow> 'o PcpMapFunction \<Rightarrow> bool) \<Rightarrow> (map_expression \<times> 'o map_state) option \<Rightarrow> bool" where
  "returns_expression c refs st P res \<longleftrightarrow> (\<exists>n st' t. res = Some (Some n, st') \<and> expression_run c (add_ref refs n) st'
     \<and> key_at st \<subseteq>\<^sub>m key_at st' \<and> variable_values c st' = variable_values c st
     \<and> represents (key_at st') n t \<and> (\<forall>vars. P vars (tree_value c vars t)))"

lemma returns_expressionI:
  assumes "\<exists>r. res = Some r \<and> makes c owns st P r"
    and "\<And>n st'. res = Some (Some n, st') \<Longrightarrow> expression_run c (add_ref refs n) st'"
  shows "returns_expression c refs st P res"
proof -
  obtain n st' t where r: "res = Some (Some n, st')" "key_at st \<subseteq>\<^sub>m key_at st'" "variable_values c st' = variable_values c st"
    "represents (key_at st') n t" "\<forall>vars. P vars (tree_value c vars t)"
    using assms(1) unfolding makes_def by blast
  then show ?thesis using assms(2) [OF r(1)] unfolding returns_expression_def by blast
qed

lemma returns_expression_mono:
  "returns_expression c refs st P res \<Longrightarrow> (\<And>vars v. P vars v \<Longrightarrow> Q vars v) \<Longrightarrow> returns_expression c refs st Q res"
  unfolding returns_expression_def by blast

lemma run_store:
  assumes "context_ok c" "expression_run c refs st"
  shows "run_ok c refs st" "store_ok c (owned refs st) st"
  using expression_run_ok assms by (auto simp: context_ok_def run_ok_def)

lemma run_keys: "context_ok c \<Longrightarrow> expression_run c refs st \<Longrightarrow> keys_ok (key_at st)"
  using run_store(2) by (auto simp: store_ok_def links_ok_def)

lemma Evaluate_in_run:
  assumes "context_ok c" "expression_run c refs st" "0 < refs n" "represents (key_at st) n t"
  shows "\<exists>st'. Evaluate c st (Some n) = Some (tree_value c (variable_values c st) t, st') \<and> expression_run c refs st'
    \<and> key_at st' = key_at st \<and> variable_values c st' = variable_values c st"
proof -
  have "denotes st (Some n) t" using assms(4) by (simp add: denotes_def)
  from Evaluate_denoted [OF run_store(2) [OF assms(1,2)] this] show ?thesis
    using expression_run.evaluate [OF assms(2,3)] by blast
qed

text \<open>C9: Evaluation returns in every run, for every expression that a client refers to. The value is the one of
  the expression's tree for the values that the variables have, whatever is cached, and nothing but caches
  changes.\<close>

theorem evaluation_returns:
  assumes "context_ok c" "expression_run c refs st" "0 < refs n"
  shows "\<exists>t st'. represents (key_at st) n t
    \<and> Evaluate c st (Some n) = Some (tree_value c (variable_values c st) t, st')
    \<and> expression_run c refs st' \<and> key_at st' = key_at st \<and> variable_values c st' = variable_values c st"
proof -
  obtain t where "denotes st (Some n) t" by (rule run_denotes [OF run_store(1) [OF assms(1,2)] assms(3)])
  then have "represents (key_at st) n t" by (simp add: denotes_def)
  then show ?thesis using Evaluate_in_run [OF assms] by blast
qed

text \<open>The operations return an expression whose value is the operation on the values of the arguments, for all
  values that the variables can be given, although identities are left out and constants are folded.\<close>

theorem expression_operations_value:
  assumes "context_ok c" "expression_run c refs st" "0 < refs a" "0 < refs b"
    and "represents (key_at st) a t" "represents (key_at st) b u"
  shows "returns_expression c refs st (\<lambda>vars v. v = ComposeValues c (tree_value c vars t) (tree_value c vars u))
      (Compose_expression c st (Some a) (Some b))
    \<and> returns_expression c refs st (\<lambda>vars v. v = ImpliedClassValue c (tree_value c vars t) (tree_value c vars u))
      (ImpliedClass_expression c st (Some a) (Some b))
    \<and> returns_expression c refs st (\<lambda>vars v. v = InverseValue c (tree_value c vars t)) (Inverse_expression c st (Some a))"
proof -
  have ok: "offset_laws (context_ops c)" "store_ok c (owned refs st) st"
    using assms(1) run_store [OF assms(1,2)] by (simp_all add: context_ok_def)
  have a: "denotes st (Some a) t" and b: "denotes st (Some b) u" using assms(5,6) by (simp_all add: denotes_def)
  show ?thesis
    by (intro conjI returns_expressionI [OF Compose_expression_makes [OF ok a b]]
        returns_expressionI [OF ImpliedClass_expression_makes [OF ok a b]] returns_expressionI [OF Inverse_expression_makes [OF ok a]])
      (rule expression_run.compose [OF assms(2-4)] expression_run.implied_class [OF assms(2-4)]
        expression_run.inverse [OF assms(2,3)], assumption)+
qed

text \<open>C30: Adding the root identity leaves out nodes for trees that always have it. The value is the function with the root
  identity, if an implied class below an identity has it already and the functions have sources.\<close>

theorem AddRootIdentity_expression_value:
  assumes "context_ok c" "expression_run c refs st" "0 < refs a" "represents (key_at st) a t"
  shows "returns_expression c refs st
    (\<lambda>vars v. tree_ok c vars t \<longrightarrow> can_add_root (tree_value c vars t) \<longrightarrow>
      v = AddRootIdentity c (tree_value c vars t) \<and> hasRootIdentity v)
    (AddRootIdentity_expression c st (Some a))"
proof -
  have ok: "offset_laws (context_ops c)" "comparator (context_less c)" "store_ok c (owned refs st) st"
    using assms(1) run_store [OF assms(1,2)] by (simp_all add: context_ok_def)
  have a: "denotes st (Some a) t" using assms(4) by (simp add: denotes_def)
  have "returns_expression c refs st (\<lambda>vars v. tree_ok c vars t \<longrightarrow> v = AddRootIdentity c (tree_value c vars t))
      (AddRootIdentity_expression c st (Some a))"
    by (rule returns_expressionI [OF AddRootIdentity_expression_makes [OF ok a]])
      (rule expression_run.add_root_identity [OF assms(2,3)])
  then show ?thesis
  proof (rule returns_expression_mono)
    fix vars v assume v: "tree_ok c vars t \<longrightarrow> v = AddRootIdentity c (tree_value c vars t)"
    show "tree_ok c vars t \<longrightarrow> can_add_root (tree_value c vars t) \<longrightarrow>
        v = AddRootIdentity c (tree_value c vars t) \<and> hasRootIdentity v"
      using v AddRootIdentity_sided(2) [OF ok(2), of "tree_value c vars t"] tree_flag_root [OF ok(2), of vars t] by simp
  qed
qed


lemma no_references_empty:
  assumes "store_ok c refs st" "\<And>n. refs n = 0"
  shows "node_at st n = None"
proof (rule ccontr)
  have ok: "keys_ok (key_at st)" "counts_ok refs st" using assms(1) by (simp_all add: store_ok_def links_ok_def)
  assume "node_at st n \<noteq> None"
  then have "n \<in> dom (key_at st)" by (auto simp: key_at_def domIff)
  then have "dom (key_at st) \<noteq> {}" by blast
  then have max: "Max (dom (key_at st)) \<in> dom (key_at st)" by (rule Max_in [OF finite_dom_key_at])
  let ?m = "Max (dom (key_at st))"
  have "count_ok (key_at st) refs ?m (node_at st ?m)" using ok(2) by (simp add: counts_ok_def)
  then have "0 < held (key_at st) ?m" using max assms(2) by (auto simp: count_ok_def key_at_def split: option.splits)
  then obtain i where i: "i \<in> dom (key_at st)" "?m \<in> set (key_args (the (key_at st i)))"
    unfolding held_def by (metis (mono_tags, lifting) count_list_0_iff mult_0_right not_less0 sum.neutral)
  then have "?m < i" using keys_okD(2) [OF ok(1), of i] by auto
  then show False using Max_ge [OF finite_dom_key_at i(1)] by simp
qed

text \<open>C31: Dropping a reference deletes nothing that a client can still reach: every expression that is referred to keeps its
  tree and its value. And nothing is left over: when the last reference is gone, no node is.\<close>

theorem dropping_references:
  assumes "context_ok c" "expression_run c (add_ref refs n) st"
  shows "(\<forall>m t. 0 < refs m \<longrightarrow> represents (key_at st) m t \<longrightarrow>
      represents (key_at (drop_expression st (Some n))) m t
      \<and> tree_value c (variable_values c (drop_expression st (Some n))) t = tree_value c (variable_values c st) t)
    \<and> ((\<forall>m. refs m = 0) \<and> identityExpression st = None \<longrightarrow> (\<forall>m. node_at (drop_expression st (Some n)) m = None))"
proof -
  have ok: "store_ok c (add_ref (owned refs st) n) st"
    using run_store(2) [OF assms] owned_add [OF refl, of refs n st] by simp
  have "represents (key_at (release n st)) m t
      \<and> tree_value c (variable_values c (release n st)) t = tree_value c (variable_values c st) t"
    if "0 < refs m" "represents (key_at st) m t" for m t
    using release_keeps(3) [OF ok, of m t] that by (simp add: owned_def)
  moreover have "node_at (release n st) m = None" if "\<forall>m. refs m = 0" "identityExpression st = None" for m
    using no_references_empty [OF release_keeps(1) [OF ok]] that by (simp add: owned_def)
  ultimately show ?thesis by (simp add: drop_expression_def)
qed

section \<open>Examples\<close>

definition example_context :: "nat map_context" where
  "example_context = \<lparr>context_env = example_env, context_ops = example_ops, context_less = (<)\<rparr>"

lemma example_context_ok: "context_ok example_context"
  by (simp add: context_ok_def example_context_def comparator_less offset_laws_def example_ops_def)

definition example_arc :: "nat PcpMapFunction" where
  "example_arc = \<lparr>pairs = [(example_path [''A''], example_path [''B''])], hasRootIdentity = False, offset = 0\<rparr>"

text \<open>An implied class is taken to have the root identity always. Where its transfer function evaluates to the identity,
  its value is the one of the class arc, and adding the root identity has no effect.\<close>

theorem AddRootIdentity_lost:
  assumes "context_ok c" "expression_run c refs st" "0 < refs a" "represents (key_at st) a (Implied t u)"
    and "IsIdentity (context_ops c) (tree_value c (variable_values c st) t)"
    and "\<not> hasRootIdentity (tree_value c (variable_values c st) u)"
  shows "AddRootIdentity_expression c st (Some a) = Some (copy_expression st (Some a))
    \<and> (\<exists>v st'. Evaluate c st (Some a) = Some (v, st') \<and> \<not> hasRootIdentity v)"
proof -
  have "flags_ok st" using run_store(2) [OF assms(1,2)] by (simp add: store_ok_def links_ok_def)
  from flag_at_tree [OF this assms(4)] obtain nd where nd: "node_at st a = Some nd" "expressionTreeAlwaysHasIdentity nd"
    by (auto simp: flag_at_def split: option.splits)
  moreover have "key_op (node_key nd) = OpImpliedClass" using assms(4) nd(1) by (auto simp: key_at_def key_shapes)
  ultimately have "AddRootIdentity_expression c st (Some a) = Some (copy_expression st (Some a))"
    by (simp add: AddRootIdentity_expression_def IsConstantIdentity_def)
  moreover have "tree_value c (variable_values c st) (Implied t u) = tree_value c (variable_values c st) u"
    using assms(5) by (simp add: ImpliedClass_def)
  ultimately show ?thesis using Evaluate_in_run [OF assms(1-4)] assms(6) by auto
qed

text \<open>The inverse of a function that blocks a path has an empty source. Adding the root identity to it fails, and gives
  the null function, which maps nothing.\<close>

lemma path_map_keys:
  assumes "comparator fless"
  shows "fst ` set (path_map_insert fless e m) = insert (fst e) (fst ` set m)"
    and "fst ` set (path_map_assign fless e m) = insert (fst e) (fst ` set m)"
proof -
  have total: "\<not> fless p q \<Longrightarrow> \<not> fless q p \<Longrightarrow> p = q" for p q using comparator.total [OF assms] by blast
  show "fst ` set (path_map_insert fless e m) = insert (fst e) (fst ` set m)"
    by (induction m) (use total [of "fst e"] total [of _ "fst e"] in \<open>auto simp: insert_commute\<close>)
  show "fst ` set (path_map_assign fless e m) = insert (fst e) (fst ` set m)"
    by (induction m) (use total [of "fst e"] total [of _ "fst e"] in \<open>auto simp: insert_commute\<close>)
qed

lemma path_map_foldl_keys:
  assumes "comparator fless"
  shows "fst ` set (foldl (\<lambda>m e. path_map_insert fless e m) m es) = fst ` set m \<union> fst ` set es"
  by (induction es arbitrary: m) (simp_all add: path_map_keys(1) [OF assms])

theorem AddRootIdentity_blocked:
  assumes "comparator (context_less c)" "\<not> hasRootIdentity f" "(EmptyPath, t) \<in> set (pairs f)"
  shows "AddRootIdentity c f = NullFunction (context_ops c)"
proof -
  let ?m = "path_map_assign (context_less c) (AbsoluteRootPath, AbsoluteRootPath)
    (SourceToTargetMap (context_less c) f)"
  have "EmptyPath \<in> fst ` set ?m"
    using assms(2,3) by (force simp: path_map_keys(2) [OF assms(1)] SourceToTargetMap_def path_map_foldl_keys [OF assms(1)])
  then obtain t' where t': "(EmptyPath, t') \<in> set ?m" by auto
  have "\<not> isValidMapPath EmptyPath" by (simp add: isValidMapPath_def path_queries)
  then have "\<not> list_all (\<lambda>(s, t). isValidMapPath s \<and> (IsEmpty t \<or> isValidMapPath t)) ?m"
    using t' by (auto simp: list_all_iff)
  moreover have "\<not> (length ?m = 1 \<and> hd ?m = (AbsoluteRootPath, AbsoluteRootPath))"
    using t' by (auto simp: length_Suc_conv AbsoluteRootPath_def EmptyPath_def)
  ultimately show ?thesis using assms(2) by (auto simp: AddRootIdentity_def MapFunction_Create_def)
qed

text \<open>A store with one variable.\<close>

definition example_store :: "nat map_state" where
  "example_store = snd (NewVariable example_context empty_store example_arc)"

lemma example_variable: "NewVariable example_context empty_store example_arc = (0, example_store)"
proof -
  have "fst (NewVariable example_context empty_store example_arc) = 0"
    by (simp add: NewVariable_def Node_New_def construct_node_def Let_def key_args_def empty_store_def)
  then show ?thesis by (cases "NewVariable example_context empty_store example_arc") (simp add: example_store_def)
qed

lemma example_run:
  "expression_run example_context (add_ref (\<lambda>n. 0) 0) example_store" "0 < add_ref (\<lambda>n. 0) 0 (0 :: nat)"
  "represents (key_at example_store) 0 (Var 0)" "variable_values example_context example_store 0 = example_arc"
proof -
  have start: "expression_run example_context (\<lambda>n. 0) empty_store" by (rule expression_run.start)
  note new = NewVariable_ok [OF run_store(2) [OF example_context_ok start] example_variable]
  show "expression_run example_context (add_ref (\<lambda>n. 0) 0) example_store"
    by (rule expression_run.new_variable [OF start example_variable])
  show "0 < add_ref (\<lambda>n. 0) 0 (0 :: nat)" by (simp add: add_ref_def)
  show "represents (key_at example_store) 0 (Var 0)" by (rule new(3))
  show "variable_values example_context example_store 0 = example_arc" using new(5) by simp
qed

theorem evaluation_returns_witness:
  "\<exists>st'. Evaluate example_context example_store (Some 0) = Some (example_arc, st')"
proof -
  obtain t st' where t: "represents (key_at example_store) 0 t"
    "Evaluate example_context example_store (Some 0) = Some (tree_value example_context (variable_values example_context example_store) t, st')"
    using evaluation_returns [OF example_context_ok example_run(1,2)] by blast
  have "t = Var 0" using represents_unique [OF t(1) example_run(3)] .
  then show ?thesis using t(2) example_run(4) by simp
qed

theorem expression_operations_value_witness:
  "\<exists>n st' t. Compose_expression example_context example_store (Some 0) (Some 0) = Some (Some n, st')
     \<and> represents (key_at st') n t
     \<and> tree_value example_context (\<lambda>n. example_other) t = ComposeValues example_context example_other example_other"
  using expression_operations_value [OF example_context_ok example_run(1,2,2,3,3)]
  unfolding returns_expression_def tree_value.simps by blast

theorem AddRootIdentity_expression_value_witness:
  "\<exists>n st' t. AddRootIdentity_expression example_context example_store (Some 0) = Some (Some n, st')
     \<and> represents (key_at st') n t \<and> hasRootIdentity (tree_value example_context (\<lambda>n. example_arc) t)"
proof -
  have "map_side example_env (example_path [''A''])" "map_side example_env (example_path [''B''])"
    using example_names_side [of "[''A'']"] example_names_side [of "[''B'']"] by simp_all
  then have "sided example_env example_arc" by (simp add: sided_def example_arc_def source_sorted_def)
  moreover have "can_add_root example_arc"
    by (simp add: can_add_root_def example_arc_def maxPairCount_def example_path_def path_queries)
  ultimately have "tree_ok example_context (\<lambda>n. example_arc) (Var 0)"
    "can_add_root (tree_value example_context (\<lambda>n. example_arc) (Var 0))"
    by (simp_all add: example_context_def)
  then show ?thesis
    using AddRootIdentity_expression_value [OF example_context_ok example_run(1-3)]
    unfolding returns_expression_def by blast
qed


theorem dropping_references_witness:
  "node_at (drop_expression example_store (Some 0)) 0 = None"
proof -
  have "identityExpression example_store = None"
    using NewVariable_ok(6) [OF run_store(2) [OF example_context_ok expression_run.start] example_variable]
    by (simp add: empty_store_def)
  then show ?thesis using dropping_references [OF example_context_ok example_run(1)] by simp
qed

end
