(* ===== verification/Hd_DataSourceLocator.thy ===== *)
theory Hd_DataSourceLocator
  imports Prefix_Sets
begin

text \<open>
  Data source locators and locator sets of \<open>pxr/imaging/hd/dataSourceLocator.h\<close> and
  \<open>dataSourceLocator.cpp\<close>. A \<open>HdDataSourceLocator\<close> is its vector of tokens, a
  \<open>HdDataSourceLocatorSet\<close> its vector of locators, and an iterator into that vector is an
  index (the end iterator is the length).
  A locator set promises to hold a sorted list of locators of which none is a prefix of
  another one, and to stand for everything below them. The comparison of the code satisfies
  the interface of \<open>Prefix_Sets\<close>, and the lemmas show that every operation keeps the vector
  normalized and computes the operation its documentation names on the sets the vectors
  stand for, on both sides of each size cut-off.
\<close>

section \<open>Locators\<close>

type_synonym locator = "token list"

definition Locator_of_token :: "token \<Rightarrow> locator" where
  "Locator_of_token t1 = (if t1 \<noteq> [] then [t1] else [])"

definition Locator_of_tokens :: "nat \<Rightarrow> token list \<Rightarrow> locator" where
  "Locator_of_tokens n tokens = foldl (\<lambda>ts i. ts @ [tokens ! i]) [] [0..<n]"

definition Locator_GetLastElement :: "locator \<Rightarrow> token" where
  "Locator_GetLastElement l = (if l = [] then [] else last l)"

definition Locator_GetFirstElement :: "locator \<Rightarrow> token" where
  "Locator_GetFirstElement l = (if l = [] then [] else hd l)"

definition Locator_ReplaceLastElement :: "locator \<Rightarrow> token \<Rightarrow> locator" where
  "Locator_ReplaceLastElement l name = (if l = [] then l else l[length l - 1 := name])"

definition Locator_RemoveLastElement :: "locator \<Rightarrow> locator" where
  "Locator_RemoveLastElement l =
     (if length l < 2 then [] else Locator_of_tokens (length l - 1) l)"

definition Locator_RemoveFirstElement :: "locator \<Rightarrow> locator" where
  "Locator_RemoveFirstElement l =
     (if length l < 2 then [] else Locator_of_tokens (length l - 1) (drop 1 l))"

definition Locator_Append :: "locator \<Rightarrow> locator \<Rightarrow> locator" where
  "Locator_Append l other = l @ other"

definition Locator_Append_token :: "locator \<Rightarrow> token \<Rightarrow> locator" where
  "Locator_Append_token l name = l @ [name]"

definition Locator_Prepend_token :: "locator \<Rightarrow> token \<Rightarrow> locator" where
  "Locator_Prepend_token l name = [] @ [name] @ l"

definition Locator_Prepend :: "locator \<Rightarrow> locator \<Rightarrow> locator" where
  "Locator_Prepend l other = other @ l"

definition Locator_HasPrefix :: "locator \<Rightarrow> locator \<Rightarrow> bool" where
  "Locator_HasPrefix l pre =
     (if pre = [] then True
      else if length pre > length l then False
      else list_all (\<lambda>i. l ! i = pre ! i) [0..<length pre])"

definition Locator_GetCommonPrefix :: "locator \<Rightarrow> locator \<Rightarrow> locator" where
  "Locator_GetCommonPrefix l other =
     (let maxPossibleLen = min (length l) (length other);
          i = length (takeWhile (\<lambda>i. l ! i = other ! i) [0..<maxPossibleLen])
      in Locator_of_tokens i l)"

definition Locator_Intersects :: "locator \<Rightarrow> locator \<Rightarrow> bool" where
  "Locator_Intersects l other =
     (let commonLength = min (length other) (length l) in
      list_all (\<lambda>i. other ! i = l ! i) [0..<commonLength])"

definition Locator_ReplacePrefix :: "locator \<Rightarrow> locator \<Rightarrow> locator \<Rightarrow> locator" where
  "Locator_ReplacePrefix l oldPrefix newPrefix =
     (if \<not> Locator_HasPrefix l oldPrefix then l
      else newPrefix @ drop (length oldPrefix) l)"

definition Locator_GetString :: "string \<Rightarrow> locator \<Rightarrow> string" where
  "Locator_GetString delimiter l =
     (if l = [] then []
      else concat (map (\<lambda>t. t @ delimiter) (butlast l)) @ last l)"

text \<open>
  The loop of \<open>operator<\<close> and of \<open>_LessThanNotPrefix\<close> over the common length: the
  value it returns from inside, if it does.
\<close>

fun first_difference :: "locator \<Rightarrow> locator \<Rightarrow> bool option" where
  "first_difference (x # xs) (y # ys) =
     (if x < y then Some True else if x > y then Some False else first_difference xs ys)"
| "first_difference _ _ = None"

definition Locator_less :: "locator \<Rightarrow> locator \<Rightarrow> bool" where
  "Locator_less l rhs =
     (case first_difference l rhs of Some r \<Rightarrow> r | None \<Rightarrow> length l < length rhs)"

definition LessThanNotPrefix :: "locator \<Rightarrow> locator \<Rightarrow> bool" where
  "LessThanNotPrefix a b =
     (if a = [] then False
      else case first_difference a b of Some r \<Rightarrow> r | None \<Rightarrow> False)"

section \<open>Locator sets\<close>

type_synonym locator_set = "locator list"

function normalize_loop :: "nat \<Rightarrow> locator_set \<Rightarrow> locator_set" where
  "normalize_loop i ls =
     (if i < length ls then
        if Locator_Intersects (ls ! i) (ls ! (i - 1))
        then normalize_loop i (take i ls @ drop (Suc i) ls)
        else normalize_loop (Suc i) ls
      else ls)"
  by pat_completeness auto
termination
  by (relation "measure (\<lambda>(i, ls). length ls - i)") auto

declare normalize_loop.simps [simp del]

definition LocatorSet_Normalize :: "locator_set \<Rightarrow> locator_set" where
  "LocatorSet_Normalize ls =
     (if length ls < 2 then ls else normalize_loop 1 (std_sort Locator_less ls))"

definition UniversalSet :: locator_set where
  "UniversalSet = [[]]"

definition LocatorSet_of_list :: "locator list \<Rightarrow> locator_set" where
  "LocatorSet_of_list l = LocatorSet_Normalize l"

text \<open>The position is an index; \<open>erase\<close> returns the position after the erased range.\<close>

definition InsertAndDeleteSuffixes :: "nat \<Rightarrow> locator \<Rightarrow> locator_set \<Rightarrow> nat \<times> locator_set" where
  "InsertAndDeleteSuffixes position l ls =
     (let ls = take position ls @ l # drop position ls;
          deleteStart = position + 1;
          deleteEnd = deleteStart +
            length (takeWhile (\<lambda>e. Locator_HasPrefix e (ls ! position)) (drop deleteStart ls))
      in if deleteEnd \<noteq> deleteStart
         then (deleteStart - 1, take deleteStart ls @ drop deleteEnd ls)
         else (position, ls))"

definition LocatorSet_insert :: "locator_set \<Rightarrow> locator \<Rightarrow> locator_set" where
  "LocatorSet_insert ls l =
     (if ls = [] then [l]
      else let it = std_lower_bound LessThanNotPrefix ls l in
        if it < length ls \<and> Locator_HasPrefix l (ls ! it) then ls
        else snd (InsertAndDeleteSuffixes it l ls))"

text \<open>\<open>while (thisIt != end && _LessThanNotPrefix( *thisIt, *otherIt)) ++thisIt\<close>\<close>

function skip_before :: "locator_set \<Rightarrow> nat \<Rightarrow> locator \<Rightarrow> nat" where
  "skip_before ls thisIt l =
     (if thisIt < length ls \<and> LessThanNotPrefix (ls ! thisIt) l
      then skip_before ls (thisIt + 1) l else thisIt)"
  by pat_completeness auto
termination
  by (relation "measure (\<lambda>(ls, thisIt, l). length ls - thisIt)") auto

declare skip_before.simps [simp del]

fun insert_loop :: "locator_set \<Rightarrow> nat \<Rightarrow> locator list \<Rightarrow> locator_set" where
  "insert_loop ls thisIt [] = ls"
| "insert_loop ls thisIt (other # others) =
     (let thisIt = skip_before ls thisIt other in
      if thisIt = length ls then ls @ other # others
      else if Locator_HasPrefix other (ls ! thisIt) then insert_loop ls thisIt others
      else case InsertAndDeleteSuffixes thisIt other ls of
        (thisIt, ls) \<Rightarrow> insert_loop ls thisIt others)"

definition LocatorSet_insert_set :: "locator_set \<Rightarrow> locator_set \<Rightarrow> locator_set" where
  "LocatorSet_insert_set ls locatorSet =
     (if locatorSet = [] then ls
      else if ls = [] then locatorSet
      else insert_loop ls 0 locatorSet)"

text \<open>The overload for an rvalue swaps the two vectors if the other one is larger.\<close>

definition LocatorSet_insert_move :: "locator_set \<Rightarrow> locator_set \<Rightarrow> locator_set" where
  "LocatorSet_insert_move ls locatorSet =
     (if ls = [] then locatorSet
      else if length ls + 5 < length locatorSet then LocatorSet_insert_set locatorSet ls
      else LocatorSet_insert_set ls locatorSet)"

definition LocatorSet_append :: "locator_set \<Rightarrow> locator \<Rightarrow> locator_set" where
  "LocatorSet_append ls l =
     (if length ls = 0 \<or> LessThanNotPrefix (last ls) l then ls @ [l]
      else LocatorSet_insert ls l)"

definition FirstIntersection :: "locator_set \<Rightarrow> locator \<Rightarrow> nat" where
  "FirstIntersection ls l =
     (if length ls < 5 then length (takeWhile (\<lambda>e. \<not> Locator_Intersects e l) ls)
      else let it = std_lower_bound LessThanNotPrefix ls l in
        if it < length ls \<and> (Locator_HasPrefix l (ls ! it) \<or> Locator_HasPrefix (ls ! it) l)
        then it else length ls)"

definition LocatorSet_Intersects :: "locator_set \<Rightarrow> locator \<Rightarrow> bool" where
  "LocatorSet_Intersects ls l \<longleftrightarrow> FirstIntersection ls l \<noteq> length ls"

fun intersects_loop :: "locator_set \<Rightarrow> nat \<Rightarrow> locator list \<Rightarrow> bool" where
  "intersects_loop ls thisIt [] \<longleftrightarrow> False"
| "intersects_loop ls thisIt (other # others) \<longleftrightarrow>
     (let thisIt = skip_before ls thisIt other in
      if thisIt = length ls then False
      else if Locator_HasPrefix other (ls ! thisIt) then True
      else if Locator_HasPrefix (ls ! thisIt) other then True
      else intersects_loop ls thisIt others)"

definition LocatorSet_Intersects_set :: "locator_set \<Rightarrow> locator_set \<Rightarrow> bool" where
  "LocatorSet_Intersects_set ls locatorSet =
     (if length ls * length locatorSet < 9
      then list_ex (\<lambda>a. list_ex (\<lambda>b. Locator_Intersects a b) locatorSet) ls
      else intersects_loop ls 0 locatorSet)"

definition LocatorSet_Contains :: "locator_set \<Rightarrow> locator \<Rightarrow> bool" where
  "LocatorSet_Contains ls l =
     (if length ls < 5 then list_ex (\<lambda>e. Locator_HasPrefix l e) ls
      else let it = std_lower_bound LessThanNotPrefix ls l in
        it < length ls \<and> Locator_HasPrefix l (ls ! it))"

definition LocatorSet_ReplacePrefix ::
    "locator_set \<Rightarrow> locator \<Rightarrow> locator \<Rightarrow> locator_set" where
  "LocatorSet_ReplacePrefix ls oldPrefix newPrefix =
     (if ls = [] \<or> oldPrefix = newPrefix then ls
      else if length ls < 5
      then LocatorSet_Normalize (map (\<lambda>l. Locator_ReplacePrefix l oldPrefix newPrefix) ls)
      else
        let it = std_lower_bound Locator_less ls oldPrefix in
        if it < length ls \<and> Locator_HasPrefix (ls ! it) oldPrefix then
          LocatorSet_Normalize
            (if ls ! it = oldPrefix then ls[it := newPrefix]
             else let upperIt = Suc it +
                 std_lower_bound (\<lambda>elem pre. Locator_HasPrefix elem pre) (drop (Suc it) ls) oldPrefix
               in take it ls
                  @ map (\<lambda>l. Locator_ReplacePrefix l oldPrefix newPrefix)
                      (take (upperIt - it) (drop it ls))
                  @ drop upperIt ls)
        else ls)"

text \<open>\<open>IntersectionIterator\<close>: the vector it iterates over is an argument.\<close>

record intersection_iterator =
  isFirst :: bool
  iter :: nat
  iter_end :: nat
  iter_locator :: locator

definition iterator_deref :: "locator_set \<Rightarrow> intersection_iterator \<Rightarrow> locator" where
  "iterator_deref ls s =
     (if isFirst s \<and> Locator_HasPrefix (iter_locator s) (ls ! iter s) then iter_locator s
      else ls ! iter s)"

definition iterator_increment :: "locator_set \<Rightarrow> intersection_iterator \<Rightarrow> intersection_iterator" where
  "iterator_increment ls s =
     (let s = s\<lparr>isFirst := False, iter := iter s + 1\<rparr> in
      if iter s \<noteq> iter_end s \<and> \<not> Locator_HasPrefix (ls ! iter s) (iter_locator s)
      then s\<lparr>iter := iter_end s\<rparr> else s)"

text \<open>A range-based \<open>for\<close> over a view; two iterators are equal if their positions are.\<close>

function iterate_view :: "locator_set \<Rightarrow> intersection_iterator \<Rightarrow> locator list" where
  "iterate_view ls s =
     (if iter s < iter_end s
      then iterator_deref ls s # iterate_view ls (iterator_increment ls s) else [])"
  by pat_completeness auto
termination
  by (relation "measure (\<lambda>(ls, s). iter_end s - iter s)")
    (auto simp: iterator_increment_def Let_def)

declare iterate_view.simps [simp del]

definition LocatorSet_Intersection :: "locator_set \<Rightarrow> locator \<Rightarrow> locator list" where
  "LocatorSet_Intersection ls l =
     iterate_view ls \<lparr>isFirst = True, iter = FirstIntersection ls l, iter_end = length ls,
       iter_locator = l\<rparr>"

section \<open>Facts about locators\<close>

lemma Locator_of_tokens_take [simp]: "n \<le> length ts \<Longrightarrow> Locator_of_tokens n ts = take n ts"
  unfolding Locator_of_tokens_def
  by (induction n) (auto simp: take_Suc_conv_app_nth)

lemma Locator_HasPrefix_prefix: "Locator_HasPrefix l p \<longleftrightarrow> prefix p l"
  by (auto simp: Locator_HasPrefix_def all_nth_prefix dest: prefix_length_le)

lemma Locator_Intersects_prefix: "Locator_Intersects l k \<longleftrightarrow> prefix l k \<or> prefix k l"
proof (cases "length l \<le> length k")
  case True
  then have "Locator_Intersects l k \<longleftrightarrow> prefix l k"
    by (simp add: Locator_Intersects_def Let_def all_nth_prefix)
  moreover have "prefix k l \<Longrightarrow> k = l"
    using True by (auto simp: prefix_def)
  ultimately show ?thesis by auto
next
  case False
  then have "Locator_Intersects l k \<longleftrightarrow> list_all (\<lambda>i. l ! i = k ! i) [0..<length k]"
    by (auto simp: Locator_Intersects_def Let_def list_all_iff min_def)
  also have "\<dots> \<longleftrightarrow> prefix k l" using False by (simp add: all_nth_prefix)
  finally have "Locator_Intersects l k \<longleftrightarrow> prefix k l" .
  moreover have "\<not> prefix l k" using False prefix_length_le by auto
  ultimately show ?thesis by auto
qed

lemma first_difference_Some: "first_difference l k = Some r \<Longrightarrow>
    \<not> prefix l k \<and> \<not> prefix k l \<and> (r \<longleftrightarrow> l < k)"
  by (induction l k rule: first_difference.induct) (auto split: if_splits)

lemma first_difference_None: "first_difference l k = None \<Longrightarrow> prefix l k \<or> prefix k l"
  by (induction l k rule: first_difference.induct) (auto split: if_splits)

lemma prefix_less_length:
  fixes l k :: locator
  assumes "prefix l k \<or> prefix k l"
  shows "length l < length k \<longleftrightarrow> l < k"
proof (cases "l = k")
  case False
  from assms show ?thesis
  proof
    assume "prefix l k"
    with False show ?thesis
      using list_prefix_less [of l k] prefix_length_less [of l k] by (simp add: strict_prefix_def)
  next
    assume "prefix k l"
    with False have "k < l" "length k < length l"
      using list_prefix_less [of k l] prefix_length_less [of k l] by (simp_all add: strict_prefix_def)
    then show ?thesis by (simp add: order.asym)
  qed
qed simp

lemma Locator_less_less: "Locator_less l k \<longleftrightarrow> l < k"
  using first_difference_Some [of l k] first_difference_None [of l k] prefix_less_length [of l k]
  by (auto simp: Locator_less_def split: option.split)

lemma LessThanNotPrefix_less: "LessThanNotPrefix l k \<longleftrightarrow> l < k \<and> \<not> prefix l k"
  using first_difference_Some [of l k] first_difference_None [of l k] list_prefix_less [of k l]
  by (cases "l = []"; cases "l = k")
    (auto simp: LessThanNotPrefix_def split: option.split dest: order.asym)

interpretation locators: prefix_ordered Locator_less "\<lambda>_. True" Locator_HasPrefix
proof
  fix x y z p q :: locator
  show "\<not> Locator_less x x" by (simp add: Locator_less_less)
  show "Locator_less x y \<Longrightarrow> Locator_less y z \<Longrightarrow> Locator_less x z"
    by (simp add: Locator_less_less)
  show "x \<noteq> y \<Longrightarrow> Locator_less x y \<or> Locator_less y x" by (auto simp: Locator_less_less)
  show "Locator_HasPrefix x x" by (simp add: Locator_HasPrefix_prefix)
  show "True \<and> True" by simp
  show "Locator_HasPrefix x p \<Longrightarrow> Locator_HasPrefix p q \<Longrightarrow> Locator_HasPrefix x q"
    by (simp add: Locator_HasPrefix_prefix)
  show "Locator_HasPrefix x p \<Longrightarrow> x \<noteq> p \<Longrightarrow> Locator_less p x"
    by (simp add: Locator_HasPrefix_prefix Locator_less_less list_prefix_less)
  show "Locator_HasPrefix x p \<Longrightarrow> Locator_less p y \<Longrightarrow> Locator_less y x \<Longrightarrow> Locator_HasPrefix y p"
    unfolding Locator_HasPrefix_prefix Locator_less_less
    by (rule list_prefix_convex) auto
  show "Locator_HasPrefix x p \<Longrightarrow> Locator_HasPrefix x q \<Longrightarrow>
      Locator_HasPrefix p q \<or> Locator_HasPrefix q p"
    unfolding Locator_HasPrefix_prefix by (metis prefix_same_cases)
qed

lemma LessThanNotPrefix_before:
  "LessThanNotPrefix e l \<longleftrightarrow> Locator_less e l \<and> \<not> Locator_HasPrefix l e"
  by (simp add: LessThanNotPrefix_less Locator_less_less Locator_HasPrefix_prefix)

section \<open>Facts about locator sets\<close>

lemma lower_bound_locator:
  "locators.norm ls \<Longrightarrow>
   std_lower_bound LessThanNotPrefix ls l = length (takeWhile (locators.before l) ls)"
  by (rule locators.lower_bound_before) (simp_all add: LessThanNotPrefix_before)

subsection \<open>Normalization\<close>

text \<open>The erasing loop is \<open>std::unique\<close>, since it compares with the last locator it kept.\<close>

lemma normalize_loop_unique:
  "normalize_loop (Suc (length ls)) (ls @ x # xs)
   = ls @ std_unique (\<lambda>l r. Locator_Intersects r l) (x # xs)"
proof (induction xs arbitrary: ls x)
  case (Cons y ys)
  show ?case
  proof (cases "Locator_Intersects y x")
    case True
    with Cons [of ls x] show ?thesis
      by (subst normalize_loop.simps) (simp add: nth_append)
  next
    case False
    with Cons [of "ls @ [x]" y] show ?thesis
      by (subst normalize_loop.simps) (simp add: nth_append)
  qed
qed (simp add: normalize_loop.simps)

lemma std_unique_cong:
  "sorted_wrt R xs \<Longrightarrow> (\<And>x y. R x y \<Longrightarrow> p x y = q x y) \<Longrightarrow> std_unique p xs = std_unique q xs"
  by (induction p xs rule: std_unique.induct) auto

lemma LocatorSet_Normalize_unique:
  "LocatorSet_Normalize ls
   = std_unique (\<lambda>l r. Locator_HasPrefix r l) (std_sort Locator_less ls)"
proof (cases "length ls < 2")
  case True
  then consider "ls = []" | x where "ls = [x]" by (cases ls; cases "tl ls") auto
  then show ?thesis by cases (simp_all add: LocatorSet_Normalize_def std_sort_def)
next
  case False
  let ?s = "std_sort Locator_less ls"
  obtain x xs where s: "?s = x # xs" using False by (cases ?s) (auto dest: arg_cong [of _ _ length])
  have "LocatorSet_Normalize ls = std_unique (\<lambda>l r. Locator_Intersects r l) ?s"
    using False normalize_loop_unique [of "[]" x xs] by (simp add: LocatorSet_Normalize_def s)
  also have "\<dots> = std_unique (\<lambda>l r. Locator_HasPrefix r l) ?s"
  proof (rule std_unique_cong [OF locators.sorted_std_sort])
    fix x y assume "\<not> Locator_less y x"
    then show "Locator_Intersects y x = Locator_HasPrefix y x"
      using list_prefix_less [of y x]
      by (auto simp: Locator_Intersects_prefix Locator_HasPrefix_prefix Locator_less_less)
  qed
  finally show ?thesis .
qed

lemma norm_Normalize: "locators.norm (LocatorSet_Normalize ls)"
  unfolding LocatorSet_Normalize_unique
  by (rule locators.norm_std_unique) (simp_all add: locators.sorted_std_sort)

lemma cov_Normalize: "locators.cov (LocatorSet_Normalize ls) z \<longleftrightarrow> locators.cov ls z"
  unfolding LocatorSet_Normalize_unique
  using locators.cov_std_unique [of "std_sort Locator_less ls" z]
  by (simp add: covers_set [of "std_sort Locator_less ls" ls])

lemma Normalize_id: "locators.norm ls \<Longrightarrow> LocatorSet_Normalize ls = ls"
  by (rule locators.norm_canonical) (simp_all add: norm_Normalize cov_Normalize)

subsection \<open>Insertion\<close>

lemma InsertAndDeleteSuffixes_insert_key:
  "InsertAndDeleteSuffixes (length (takeWhile (locators.before l) ls)) l ls
   = (length (takeWhile (locators.before l) ls), locators.insert_key l ls)"
proof -
  define t r where "t = takeWhile (locators.before l) ls" and "r = dropWhile (locators.before l) ls"
  have ls: "take (length t) ls = t" "drop (length t) ls = r"
    unfolding t_def r_def by (simp_all add: takeWhile_eq_take [symmetric] dropWhile_eq_drop [symmetric])
  show ?thesis
    unfolding t_def [symmetric] locators.insert_key_def r_def [symmetric]
    by (simp add: InsertAndDeleteSuffixes_def Let_def ls dropWhile_eq_drop add.commute)
qed

lemma skip_before_takeWhile:
  "thisIt \<le> length (takeWhile (locators.before l) ls) \<Longrightarrow>
   skip_before ls thisIt l = length (takeWhile (locators.before l) ls)"
proof (induction ls thisIt l rule: skip_before.induct)
  case (1 ls thisIt l)
  show ?case
  proof (cases "thisIt = length (takeWhile (locators.before l) ls)")
    case True
    have "\<not> (thisIt < length ls \<and> LessThanNotPrefix (ls ! thisIt) l)"
      unfolding True LessThanNotPrefix_before using takeWhile_nth_length by blast
    with True show ?thesis unfolding skip_before.simps [of ls thisIt l] by (simp only: if_False)
  next
    case False
    with 1(2) have lt: "thisIt < length (takeWhile (locators.before l) ls)" by simp
    then have "LessThanNotPrefix (ls ! thisIt) l"
      unfolding LessThanNotPrefix_before by (rule nth_before_takeWhile)
    moreover have "thisIt < length ls" using lt length_takeWhile_le order.strict_trans2 by blast
    ultimately show ?thesis using 1(1) lt by (subst skip_before.simps) simp
  qed
qed

text \<open>The element a binary or linear search stops at.\<close>

lemma search_case:
  "(let it = length (takeWhile P ls) in it < length ls \<and> Q (ls ! it)) \<longleftrightarrow>
   (case dropWhile P ls of [] \<Rightarrow> False | e # _ \<Rightarrow> Q e)"
proof (cases "length (takeWhile P ls) < length ls")
  case True
  then show ?thesis unfolding dropWhile_eq_drop [of P ls]
    by (simp add: drop_eq_Cons_nth Let_def)
next
  case False
  then have "dropWhile P ls = []" unfolding dropWhile_eq_drop [of P ls] by simp
  with False show ?thesis unfolding \<open>dropWhile P ls = []\<close> by (simp only: Let_def list.case simp_thms)
qed

lemma search_cov:
  assumes "locators.norm ls" "it = length (takeWhile (locators.before l) ls)"
  shows "it < length ls \<and> Locator_HasPrefix l (ls ! it) \<longleftrightarrow> locators.cov ls l"
  using search_case [of "locators.before l" ls "\<lambda>e. Locator_HasPrefix l e"]
  unfolding locators.cov_search [OF assms(1), of l] assms(2) by (simp add: Let_def)

lemma search_meets:
  assumes "locators.norm ls" "it = length (takeWhile (locators.before l) ls)"
  shows "it < length ls \<and> (Locator_HasPrefix l (ls ! it) \<or> Locator_HasPrefix (ls ! it) l) \<longleftrightarrow>
    (\<exists>e \<in> set ls. Locator_HasPrefix l e \<or> Locator_HasPrefix e l)"
  using search_case [of "locators.before l" ls "\<lambda>e. Locator_HasPrefix l e \<or> Locator_HasPrefix e l"]
  unfolding locators.meets_search [OF assms(1), of l] assms(2) by (simp add: Let_def)

text \<open>What stands before a locator also stands before every later unrelated one.\<close>

lemma before_later:
  assumes "Locator_less l k" "\<not> Locator_HasPrefix k l" "locators.before l e"
  shows "locators.before k e"
  using assms locators.before_closed by blast

lemma insert_key_Nil [simp]: "locators.insert_key l [] = [l]"
  by (simp add: locators.insert_key_def)

lemma LocatorSet_insert_cases:
  assumes "locators.norm ls"
  shows "LocatorSet_insert ls l = (if locators.cov ls l then ls else locators.insert_key l ls)"
  using search_cov [OF assms refl, of l]
  by (cases "ls = []") (auto simp: LocatorSet_insert_def lower_bound_locator [OF assms] Let_def
      InsertAndDeleteSuffixes_insert_key)

lemma norm_insert: "locators.norm ls \<Longrightarrow> locators.norm (LocatorSet_insert ls l)"
  by (simp add: LocatorSet_insert_cases locators.norm_insert_key)

lemma cov_insert:
  "locators.norm ls \<Longrightarrow>
   locators.cov (LocatorSet_insert ls l) z \<longleftrightarrow> locators.cov ls z \<or> Locator_HasPrefix z l"
  using locators.cov_below [of ls l z]
  by (auto simp: LocatorSet_insert_cases locators.cov_insert_key)

lemma takeWhile_length_mono:
  "(\<And>x. x \<in> set (takeWhile P xs) \<Longrightarrow> Q x) \<Longrightarrow> length (takeWhile P xs) \<le> length (takeWhile Q xs)"
  by (induction xs) auto

text \<open>The merging loop: the elements before the iterator stand before all that is to come.\<close>

lemma insert_loop_union:
  "locators.norm ls \<Longrightarrow> locators.norm others \<Longrightarrow>
   \<forall>x \<in> set others. thisIt \<le> length (takeWhile (locators.before x) ls) \<Longrightarrow>
   locators.norm (insert_loop ls thisIt others) \<and>
   (\<forall>z. locators.cov (insert_loop ls thisIt others) z \<longleftrightarrow> locators.cov ls z \<or> locators.cov others z)"
proof (induction others arbitrary: ls thisIt)
  case (Cons l others)
  let ?it = "length (takeWhile (locators.before l) ls)"
  have skip: "skip_before ls thisIt l = ?it" using Cons.prems(3) by (intro skip_before_takeWhile) simp
  have later: "Locator_less l x \<and> \<not> Locator_HasPrefix x l" if "x \<in> set others" for x
    using Cons.prems(2) that by (simp add: locators.norm_Cons)
  have others: "locators.norm others" using Cons.prems(2) by (simp add: locators.norm_Cons)
  have mono: "length (takeWhile (locators.before l) xs) \<le> length (takeWhile (locators.before x) xs)"
    if "x \<in> set others" for x xs
    using later [OF that] before_later locators.takeWhile_before by (intro takeWhile_length_mono) blast
  note cov = search_cov [OF Cons.prems(1) refl, of l]
  consider (at_end) "?it = length ls" | (prefix) "?it < length ls" "locators.cov ls l"
    | (new) "?it < length ls" "\<not> locators.cov ls l"
    using length_takeWhile_le [of "locators.before l" ls] by linarith
  then show ?case
  proof cases
    case at_end
    then have "\<forall>e \<in> set ls. locators.before l e"
      by (metis takeWhile_eq_take take_all order_refl locators.takeWhile_before)
    then have "\<forall>e \<in> set ls. \<forall>x \<in> set (l # others). locators.before x e"
      using later before_later by (metis set_ConsD)
    with Cons.prems(1,2) have "locators.norm (ls @ l # others)"
      unfolding locators.norm_append by blast
    with at_end show ?thesis by (simp add: skip)
  next
    case prefix
    with cov have "Locator_HasPrefix l (ls ! ?it)" by blast
    with prefix have "insert_loop ls thisIt (l # others) = insert_loop ls ?it others"
      by (simp add: skip)
    moreover note locators.cov_below [OF prefix(2)]
    ultimately show ?thesis
      using Cons.IH [OF Cons.prems(1) others, of ?it] mono by auto
  next
    case new
    let ?ls = "locators.insert_key l ls"
    have "insert_loop ls thisIt (l # others) = insert_loop ?ls ?it others"
      using new cov by (simp add: skip InsertAndDeleteSuffixes_insert_key)
    moreover have "locators.norm ?ls" using Cons.prems(1) new by (simp add: locators.norm_insert_key)
    moreover have "\<forall>x \<in> set others. ?it \<le> length (takeWhile (locators.before x) ?ls)"
    proof
      fix x assume x: "x \<in> set others"
      have "takeWhile (locators.before x) (takeWhile (locators.before l) ls)
          = takeWhile (locators.before l) ls"
        using later [OF x] before_later locators.takeWhile_before by (subst takeWhile_eq_all_conv) blast
      then show "?it \<le> length (takeWhile (locators.before x) ?ls)"
        unfolding locators.insert_key_def takeWhile_append by (simp add: takeWhile_append)
    qed
    ultimately show ?thesis
      using Cons.IH [OF _ others, of ?ls ?it] by (auto simp: locators.cov_insert_key)
  qed
qed simp

lemma insert_set_union:
  assumes "locators.norm ls" "locators.norm other"
  shows "locators.norm (LocatorSet_insert_set ls other) \<and>
    (\<forall>z. locators.cov (LocatorSet_insert_set ls other) z \<longleftrightarrow> locators.cov ls z \<or> locators.cov other z)"
  using insert_loop_union [OF assms, of 0] assms by (simp add: LocatorSet_insert_set_def)

text \<open>C5: The union of two locator sets, by either overload: the result is normalized and stands for
  the union of what the two stand for.
\<close>

theorem LocatorSet_insert_move_union:
  assumes "normalized Locator_less Locator_HasPrefix ls"
    and "normalized Locator_less Locator_HasPrefix other"
  shows "normalized Locator_less Locator_HasPrefix (LocatorSet_insert_move ls other)
    \<and> LocatorSet_insert_move ls other = LocatorSet_insert_set ls other
    \<and> (\<forall>z. covers Locator_HasPrefix (LocatorSet_insert_move ls other) z
        \<longleftrightarrow> covers Locator_HasPrefix ls z \<or> covers Locator_HasPrefix other z)"
proof -
  note u = insert_set_union [OF assms] insert_set_union [OF assms(2,1)]
  have "LocatorSet_insert_set other ls = LocatorSet_insert_set ls other"
    by (rule locators.norm_canonical) (use u in auto)
  then have "LocatorSet_insert_move ls other = LocatorSet_insert_set ls other"
    by (auto simp: LocatorSet_insert_move_def LocatorSet_insert_set_def)
  with u show ?thesis by simp
qed

text \<open>Inserting one locator keeps the vector normalized and adds exactly what is below the
  locator; \<open>append\<close> does the same.
\<close>

theorem LocatorSet_insert_append:
  assumes "normalized Locator_less Locator_HasPrefix ls"
  shows "normalized Locator_less Locator_HasPrefix (LocatorSet_insert ls l)
    \<and> LocatorSet_append ls l = LocatorSet_insert ls l
    \<and> (\<forall>z. covers Locator_HasPrefix (LocatorSet_insert ls l) z
        \<longleftrightarrow> covers Locator_HasPrefix ls z \<or> Locator_HasPrefix z l)"
proof -
  have "LocatorSet_append ls l = LocatorSet_insert ls l"
  proof (cases "ls \<noteq> [] \<and> LessThanNotPrefix (last ls) l")
    case True
    then obtain init e where ls: "ls = init @ [e]" by (cases ls rule: rev_cases) auto
    have last: "locators.before l e" using True ls by (simp add: LessThanNotPrefix_before)
    have "locators.before l x" if "x \<in> set init" for x
    proof -
      have "Locator_less x e \<and> \<not> Locator_HasPrefix e x"
        using assms that unfolding ls locators.norm_append by simp
      with last locators.before_closed show ?thesis by blast
    qed
    with last have "\<forall>x \<in> set ls. locators.before l x" by (auto simp: ls)
    then have "takeWhile (locators.before l) ls = ls" "locators.from_key l ls = []"
      "\<not> locators.cov ls l"
      by (auto simp: covers_def)
    then have "LocatorSet_insert ls l = ls @ [l]"
      by (simp only: LocatorSet_insert_cases [OF assms] locators.insert_key_def) simp
    with True show ?thesis by (simp add: LocatorSet_append_def)
  next
    case False
    then show ?thesis by (auto simp: LocatorSet_append_def LocatorSet_insert_def)
  qed
  with assms show ?thesis by (simp add: norm_insert cov_insert)
qed

subsection \<open>Membership and intersection\<close>

text \<open>\<open>Contains\<close> asks whether the set stands for the locator, on both sides of the cut-off.\<close>

theorem LocatorSet_Contains_covers:
  assumes "normalized Locator_less Locator_HasPrefix ls"
  shows "LocatorSet_Contains ls l \<longleftrightarrow> covers Locator_HasPrefix ls l"
proof -
  have "list_ex (\<lambda>e. Locator_HasPrefix l e) ls \<longleftrightarrow> locators.cov ls l"
    by (auto simp: covers_def list_ex_iff)
  with search_cov [OF assms refl, of l] show ?thesis
    by (simp add: LocatorSet_Contains_def lower_bound_locator [OF assms] Let_def)
qed

lemma Intersects_HasPrefix:
  "Locator_Intersects k l \<longleftrightarrow> Locator_HasPrefix l k \<or> Locator_HasPrefix k l"
  by (auto simp: Locator_Intersects_prefix Locator_HasPrefix_prefix)

text \<open>Either search stops at the first locator that intersects.\<close>

lemma FirstIntersection_first:
  assumes "locators.norm ls"
  shows "FirstIntersection ls l = length (takeWhile (\<lambda>e. \<not> Locator_Intersects e l) ls)"
proof -
  let ?it = "length (takeWhile (locators.before l) ls)"
  let ?I = "length (takeWhile (\<lambda>e. \<not> Locator_Intersects e l) ls)"
  note meets = search_meets [OF assms refl, of l]
  show ?thesis
  proof (cases "\<exists>e \<in> set ls. Locator_Intersects e l")
    case True
    then have i: "?it < length ls" "Locator_Intersects (ls ! ?it) l"
      using meets by (auto simp: Intersects_HasPrefix)
    have "takeWhile (\<lambda>e. \<not> Locator_Intersects e l) ls = take ?it ls"
    proof (rule takeWhile_eq_take_P_nth)
      fix i assume "i < ?it"
      then have "locators.before l (ls ! i)" by (rule nth_before_takeWhile)
      then show "\<not> Locator_Intersects (ls ! i) l"
        using locators.less_not_prefix by (auto simp: Intersects_HasPrefix)
    qed (use i in auto)
    with i have "?I = ?it" by simp
    moreover have "?it < length ls \<and> (Locator_HasPrefix l (ls ! ?it) \<or> Locator_HasPrefix (ls ! ?it) l)"
      using i by (auto simp: Intersects_HasPrefix)
    ultimately show ?thesis
      by (simp add: FirstIntersection_def lower_bound_locator [OF assms] Let_def)
  next
    case False
    then have "takeWhile (\<lambda>e. \<not> Locator_Intersects e l) ls = ls" by simp
    moreover have "\<not> (?it < length ls \<and> (Locator_HasPrefix l (ls ! ?it) \<or> Locator_HasPrefix (ls ! ?it) l))"
      using False meets by (simp add: Intersects_HasPrefix)
    ultimately show ?thesis
      by (simp only: FirstIntersection_def lower_bound_locator [OF assms] Let_def if_False if_cancel)
  qed
qed

lemma LocatorSet_Intersects_iff:
  assumes "locators.norm ls"
  shows "LocatorSet_Intersects ls l \<longleftrightarrow> (\<exists>e \<in> set ls. Locator_Intersects e l)"
  unfolding LocatorSet_Intersects_def FirstIntersection_first [OF assms]
  by (metis takeWhile_eq_all_conv length_takeWhile_le takeWhile_eq_take take_all order_refl)

text \<open>The two-finger walk finds an intersection if there is one.\<close>

lemma intersects_loop_iff:
  "locators.norm ls \<Longrightarrow> locators.norm others \<Longrightarrow>
   \<forall>x \<in> set others. thisIt \<le> length (takeWhile (locators.before x) ls) \<Longrightarrow>
   intersects_loop ls thisIt others \<longleftrightarrow> (\<exists>l \<in> set others. \<exists>e \<in> set ls. Locator_Intersects e l)"
proof (induction others arbitrary: thisIt)
  case (Cons l others)
  let ?it = "length (takeWhile (locators.before l) ls)"
  have skip: "skip_before ls thisIt l = ?it" using Cons.prems(3) by (intro skip_before_takeWhile) simp
  have later: "Locator_less l x \<and> \<not> Locator_HasPrefix x l" if "x \<in> set others" for x
    using Cons.prems(2) that by (simp add: locators.norm_Cons)
  have others: "locators.norm others" using Cons.prems(2) by (simp add: locators.norm_Cons)
  have mono: "\<forall>x \<in> set others. ?it \<le> length (takeWhile (locators.before x) ls)"
    using later before_later locators.takeWhile_before
    by (intro ballI takeWhile_length_mono) blast
  note meets = search_meets [OF Cons.prems(1) refl, of l]
  show ?case
  proof (cases "?it = length ls")
    case True
    then have all: "\<forall>e \<in> set ls. locators.before l e"
      by (metis takeWhile_eq_take take_all order_refl locators.takeWhile_before)
    have "\<not> Locator_Intersects e x" if "x \<in> set (l # others)" "e \<in> set ls" for x e
    proof -
      have "locators.before x e" using all that later before_later by (metis set_ConsD)
      then show ?thesis using locators.less_not_prefix by (auto simp: Intersects_HasPrefix)
    qed
    then show ?thesis using True by (auto simp: skip)
  next
    case False
    then have "?it < length ls" using length_takeWhile_le le_neq_implies_less by blast
    with meets Cons.IH [OF Cons.prems(1) others mono] show ?thesis
      by (auto simp: skip Intersects_HasPrefix)
  qed
qed simp

text \<open>Both forms of \<open>Intersects\<close>: a locator, or a locator set, meets the set exactly if some
  locator of it is a prefix of a generator or the other way around, whatever the sizes.
\<close>

theorem LocatorSet_Intersects_set_iff:
  assumes "normalized Locator_less Locator_HasPrefix ls"
    and "normalized Locator_less Locator_HasPrefix other"
  shows "(LocatorSet_Intersects_set ls other
      \<longleftrightarrow> (\<exists>z. covers Locator_HasPrefix ls z \<and> covers Locator_HasPrefix other z))
    \<and> (LocatorSet_Intersects ls l
      \<longleftrightarrow> (\<exists>z. covers Locator_HasPrefix ls z \<and> Locator_HasPrefix z l))"
proof (rule conjI)
  have meet: "Locator_Intersects a b \<longleftrightarrow> (\<exists>z. Locator_HasPrefix z a \<and> Locator_HasPrefix z b)" for a b
    unfolding Intersects_HasPrefix using locators.prefix_chain locators.prefix_refl by blast
  have "LocatorSet_Intersects_set ls other \<longleftrightarrow> (\<exists>b \<in> set other. \<exists>a \<in> set ls. Locator_Intersects a b)"
    using intersects_loop_iff [OF assms, of 0]
    by (auto simp: LocatorSet_Intersects_set_def list_ex_iff)
  then show "LocatorSet_Intersects_set ls other
      \<longleftrightarrow> (\<exists>z. covers Locator_HasPrefix ls z \<and> covers Locator_HasPrefix other z)"
    by (auto simp: meet covers_def)
  show "LocatorSet_Intersects ls l
      \<longleftrightarrow> (\<exists>z. covers Locator_HasPrefix ls z \<and> Locator_HasPrefix z l)"
    unfolding LocatorSet_Intersects_iff [OF assms(1)] by (auto simp: meet covers_def)
qed

subsection \<open>The intersection view\<close>

lemma iterate_view_rest:
  "s = \<lparr>isFirst = False, iter = k, iter_end = length ls, iter_locator = l\<rparr> \<Longrightarrow> k < length ls \<Longrightarrow>
   iterate_view ls s = ls ! k # takeWhile (\<lambda>e. Locator_HasPrefix e l) (drop (Suc k) ls)"
proof (induction "length ls - k" arbitrary: k s rule: less_induct)
  case less
  have eval: "iterate_view ls s = ls ! k # iterate_view ls (iterator_increment ls s)"
    using less.prems by (subst iterate_view.simps) (simp add: iterator_deref_def)
  show ?case
  proof (cases "Suc k < length ls \<and> Locator_HasPrefix (ls ! Suc k) l")
    case True
    then have "iterator_increment ls s = \<lparr>isFirst = False, iter = Suc k, iter_end = length ls, iter_locator = l\<rparr>"
      using less.prems by (simp add: iterator_increment_def Let_def)
    moreover have "length ls - Suc k < length ls - k" using True by arith
    ultimately show ?thesis
      using True less.hyps [of "Suc k" "iterator_increment ls s"] less.prems
      unfolding eval by (simp add: drop_eq_Cons_nth [of "Suc k" ls])
  next
    case False
    then have "iter (iterator_increment ls s) = length ls" "iter_end (iterator_increment ls s) = length ls"
      using less.prems by (auto simp: iterator_increment_def Let_def)
    then have "iterate_view ls (iterator_increment ls s) = []"
      by (subst iterate_view.simps) simp
    moreover have "takeWhile (\<lambda>e. Locator_HasPrefix e l) (drop (Suc k) ls) = []"
      using False drop_eq_Cons_nth [of "Suc k" ls] by (cases "Suc k < length ls") auto
    ultimately show ?thesis unfolding eval by simp
  qed
qed

lemma Intersection_elements:
  assumes "locators.norm ls"
  shows "LocatorSet_Intersection ls l =
    (let i = FirstIntersection ls l in
     if i = length ls then []
     else if Locator_HasPrefix l (ls ! i) then [l]
     else takeWhile (\<lambda>e. Locator_HasPrefix e l) (drop i ls))"
proof -
  define i where "i = FirstIntersection ls l"
  define s where "s = \<lparr>isFirst = True, iter = i, iter_end = length ls, iter_locator = l\<rparr>"
  have I: "LocatorSet_Intersection ls l = iterate_view ls s"
    by (simp add: LocatorSet_Intersection_def i_def s_def)
  have le: "i \<le> length ls"
    unfolding i_def FirstIntersection_first [OF assms] by (rule length_takeWhile_le)
  show ?thesis
  proof (cases "i = length ls")
    case True
    then have "iterate_view ls s = []" by (subst iterate_view.simps) (simp add: s_def)
    with True show ?thesis unfolding I i_def [symmetric] by simp
  next
    case False
    with le have lt: "i < length ls" by simp
    then have meets: "Locator_Intersects (ls ! i) l"
      using takeWhile_nth_length [of "\<lambda>e. \<not> Locator_Intersects e l" ls]
      unfolding i_def FirstIntersection_first [OF assms] by simp
    define s' where "s' = \<lparr>isFirst = False, iter = i, iter_end = length ls, iter_locator = l\<rparr>"
    have inc: "iterator_increment ls s = iterator_increment ls s'"
      by (simp add: s_def s'_def iterator_increment_def)
    have eval: "iterate_view ls s = iterator_deref ls s # iterate_view ls (iterator_increment ls s)"
      "iterate_view ls s' = ls ! i # iterate_view ls (iterator_increment ls s)"
      using lt by (subst iterate_view.simps, simp add: s_def s'_def inc [unfolded s_def s'_def] iterator_deref_def)+
    then have "iterate_view ls (iterator_increment ls s)
        = takeWhile (\<lambda>e. Locator_HasPrefix e l) (drop (Suc i) ls)"
      using iterate_view_rest [OF s'_def lt] by simp
    moreover have "takeWhile (\<lambda>e. Locator_HasPrefix e l) (drop (Suc i) ls) = []"
      if "Locator_HasPrefix l (ls ! i)"
    proof -
      have "\<not> Locator_HasPrefix e l" if e: "e \<in> set (drop (Suc i) ls)" for e
      proof
        assume "Locator_HasPrefix e l"
        then have "Locator_HasPrefix e (ls ! i)"
          using \<open>Locator_HasPrefix l (ls ! i)\<close> by (rule locators.prefix_trans)
        moreover have "locators.norm (ls ! i # drop (Suc i) ls)"
          using locators.norm_drop [OF assms, of i] lt by (simp add: drop_eq_Cons_nth)
        ultimately show False using e by (simp add: locators.norm_Cons)
      qed
      then show ?thesis by (cases "drop (Suc i) ls") auto
    qed
    moreover have "Locator_HasPrefix (ls ! i) l" if "\<not> Locator_HasPrefix l (ls ! i)"
      using meets that by (auto simp: Intersects_HasPrefix)
    ultimately show ?thesis using lt
      unfolding I i_def [symmetric] eval(1)
      by (simp add: drop_eq_Cons_nth iterator_deref_def s_def Let_def)
  qed
qed

text \<open>The elements from the first intersecting one on cover all of the set below the locator.\<close>

lemma below_first_intersection:
  assumes "normalized Locator_less Locator_HasPrefix ls" "locators.cov ls z" "Locator_HasPrefix z l"
  shows "\<exists>e \<in> set (drop (FirstIntersection ls l) ls). Locator_HasPrefix z e \<and> Locator_Intersects e l"
proof -
  note i = FirstIntersection_first [OF assms(1), of l]
  have none: "\<not> Locator_Intersects e l" if "e \<in> set (take (FirstIntersection ls l) ls)" for e
    using that unfolding i takeWhile_eq_take [symmetric] by (blast dest: set_takeWhileD)
  obtain e where e: "e \<in> set ls" "Locator_HasPrefix z e" using assms(2) by (auto simp: covers_def)
  then have m: "Locator_Intersects e l"
    using locators.prefix_chain [OF _ assms(3)] by (auto simp: Intersects_HasPrefix)
  have "set ls = set (take (FirstIntersection ls l) ls) \<union> set (drop (FirstIntersection ls l) ls)"
    by (metis append_take_drop_id set_append)
  with e m none show ?thesis by blast
qed

lemma first_intersection_meets:
  assumes "normalized Locator_less Locator_HasPrefix ls" "FirstIntersection ls l < length ls"
  shows "Locator_Intersects (ls ! FirstIntersection ls l) l"
  using takeWhile_nth_length [of "\<lambda>e. \<not> Locator_Intersects e l" ls] assms(2)
  unfolding FirstIntersection_first [OF assms(1)] by simp

text \<open>If the first element below the locator is known, every element that intersects the
  locator is in the stretch of elements below it.\<close>

lemma intersecting_in_stretch:
  assumes "locators.norm (e0 # es)" "Locator_HasPrefix e0 l" "\<not> Locator_HasPrefix l e0"
    and "e \<in> set (e0 # es)" "Locator_Intersects e l"
  shows "e \<in> set (takeWhile (\<lambda>e. Locator_HasPrefix e l) (e0 # es))"
proof -
  let ?es = "e0 # es"
  have "Locator_less l e0" using assms(2,3) locators.prefix_less locators.prefix_refl by blast
  moreover have "sorted_wrt Locator_less ?es" by (rule locators.norm_sorted [OF assms(1)])
  ultimately have "sorted_wrt (\<lambda>x y. \<not> Locator_less y x) (l # ?es)"
    using locators.trans by (intro locators.sorted_weak) auto
  then have out: "\<not> Locator_HasPrefix e l" if "e \<in> set (dropWhile (\<lambda>e. Locator_HasPrefix e l) ?es)"
    using that by (rule locators.dropWhile_prefix_none)
  have "Locator_HasPrefix e l"
  proof (rule ccontr)
    assume "\<not> Locator_HasPrefix e l"
    with assms(5) have le: "Locator_HasPrefix l e" by (auto simp: Intersects_HasPrefix)
    with assms(2) have "Locator_HasPrefix e0 e" by (rule locators.prefix_trans)
    with assms(1,4) have "e0 = e" unfolding normalized_def by (meson list.set_intros(1))
    with assms(3) le show False by simp
  qed
  moreover have "set ?es = set (takeWhile (\<lambda>e. Locator_HasPrefix e l) ?es)
      \<union> set (dropWhile (\<lambda>e. Locator_HasPrefix e l) ?es)"
    by (metis set_append takeWhile_dropWhile_id)
  ultimately show ?thesis using assms(4) out by blast
qed

lemma stretch_covers:
  "locators.cov (takeWhile (\<lambda>e. Locator_HasPrefix e l) (drop i ls)) z
   \<Longrightarrow> locators.cov ls z \<and> Locator_HasPrefix z l"
  unfolding covers_def
  by (meson in_set_dropD locators.prefix_trans set_takeWhileD)

text \<open>The view iterates over the generators of the intersection of the set with everything
  below the locator, in normalized order.
\<close>

theorem LocatorSet_Intersection_covers:
  assumes "normalized Locator_less Locator_HasPrefix ls"
  shows "normalized Locator_less Locator_HasPrefix (LocatorSet_Intersection ls l)
    \<and> (\<forall>z. covers Locator_HasPrefix (LocatorSet_Intersection ls l) z
        \<longleftrightarrow> covers Locator_HasPrefix ls z \<and> Locator_HasPrefix z l)"
proof -
  define i where "i = FirstIntersection ls l"
  note elements = Intersection_elements [OF assms, of l, folded i_def, unfolded Let_def]
  note below = below_first_intersection [OF assms, of _ l, folded i_def]
  show ?thesis
  proof (cases "i < length ls")
    case False
    then have "i = length ls"
      using FirstIntersection_first [OF assms, of l] length_takeWhile_le by (metis i_def le_neq_implies_less)
    with below show ?thesis unfolding elements by auto
  next
    case hit: True
    have drop: "drop i ls = ls ! i # drop (Suc i) ls" using hit by (rule drop_eq_Cons_nth)
    have norm: "locators.norm (drop i ls)" by (rule locators.norm_drop [OF assms])
    show ?thesis
    proof (cases "Locator_HasPrefix l (ls ! i)")
      case True
      then have "locators.cov ls l" using hit by (auto simp: covers_def)
      with True hit show ?thesis unfolding elements
        by (auto simp: locators.norm_Cons intro: locators.cov_below)
    next
      case False
      let ?t = "takeWhile (\<lambda>e. Locator_HasPrefix e l) (drop i ls)"
      have el: "Locator_HasPrefix (ls ! i) l"
        using first_intersection_meets [OF assms hit [unfolded i_def]] False
        by (auto simp: Intersects_HasPrefix i_def)
      have into: "locators.cov ?t z" if "locators.cov ls z" "Locator_HasPrefix z l" for z
        using below [OF that] intersecting_in_stretch [OF norm [unfolded drop] el False]
        unfolding covers_def drop by blast
      have "locators.norm ?t" by (subst takeWhile_eq_take) (rule locators.norm_take [OF norm])
      moreover have "LocatorSet_Intersection ls l = ?t" using False hit unfolding elements by simp
      ultimately show ?thesis using into stretch_covers by metis
    qed
  qed
qed

subsection \<open>Replacing prefixes\<close>

lemma map_ReplacePrefix_id:
  "\<forall>e \<in> set ls. \<not> Locator_HasPrefix e old \<Longrightarrow>
   map (\<lambda>l. Locator_ReplacePrefix l old new) ls = ls"
  by (rule map_idI) (simp add: Locator_ReplacePrefix_def)

text \<open>The search finds the start of the stretch of locators below the old prefix.\<close>

lemma ReplacePrefix_start:
  fixes old :: locator
  assumes "normalized Locator_less Locator_HasPrefix ls"
  defines "it \<equiv> std_lower_bound Locator_less ls old"
  shows "\<forall>e \<in> set (take it ls). \<not> Locator_HasPrefix e old"
    and "\<forall>e \<in> set (dropWhile (\<lambda>e. Locator_HasPrefix e old) (drop it ls)). \<not> Locator_HasPrefix e old"
    and "sorted_wrt (\<lambda>a b. Locator_HasPrefix b old \<longrightarrow> Locator_HasPrefix a old) (drop it ls)"
proof -
  have "it = length (takeWhile (\<lambda>e. Locator_less e old) ls)"
    unfolding it_def by (rule locators.std_lower_bound_sorted [OF locators.norm_weak_sorted [OF assms(1)]])
  note stretch = locators.below_stretch [OF assms(1) TrueI this]
  show "\<forall>e \<in> set (take it ls). \<not> Locator_HasPrefix e old"
    "\<forall>e \<in> set (dropWhile (\<lambda>e. Locator_HasPrefix e old) (drop it ls)). \<not> Locator_HasPrefix e old"
    "sorted_wrt (\<lambda>a b. Locator_HasPrefix b old \<longrightarrow> Locator_HasPrefix a old) (drop it ls)"
    using stretch by blast+
qed

lemma ReplacePrefix_miss:
  fixes old :: locator
  assumes norm: "normalized Locator_less Locator_HasPrefix ls"
  defines "it \<equiv> std_lower_bound Locator_less ls old"
  assumes miss: "\<not> (it < length ls \<and> Locator_HasPrefix (ls ! it) old)"
  shows "map (\<lambda>l. Locator_ReplacePrefix l old new) ls = ls"
proof -
  note start = ReplacePrefix_start [OF norm, of old, folded it_def]
  have "\<forall>e \<in> set (drop it ls). \<not> Locator_HasPrefix e old"
  proof (cases "drop it ls")
    case (Cons e es)
    then have "it < length ls" by (metis drop_all linorder_not_le list.distinct(1))
    with miss Cons have "\<not> Locator_HasPrefix e old" by (simp add: drop_eq_Cons_nth)
    with start(2) show ?thesis by (simp add: Cons)
  qed simp
  then have "map (\<lambda>l. Locator_ReplacePrefix l old new) (take it ls @ drop it ls) = take it ls @ drop it ls"
    using start(1) by (intro map_ReplacePrefix_id) (unfold set_append, blast)
  then show ?thesis by simp
qed

lemma ReplacePrefix_hit:
  fixes old :: locator
  assumes norm: "normalized Locator_less Locator_HasPrefix ls"
  defines "it \<equiv> std_lower_bound Locator_less ls old"
  assumes hit: "it < length ls" "ls ! it = old"
  shows "map (\<lambda>l. Locator_ReplacePrefix l old new) ls = ls[it := new]"
proof -
  let ?R = "\<lambda>l. Locator_ReplacePrefix l old new"
  have d: "drop it ls = old # drop (Suc it) ls" using hit by (simp add: drop_eq_Cons_nth)
  have "map ?R (take it ls) = take it ls"
    using ReplacePrefix_start(1) [OF norm, of old, folded it_def] by (rule map_ReplacePrefix_id)
  moreover have "\<not> Locator_HasPrefix e old" if "e \<in> set (drop (Suc it) ls)" for e
    using locators.norm_drop [OF norm, of it] that unfolding d locators.norm_Cons by blast
  then have "map ?R (drop (Suc it) ls) = drop (Suc it) ls" by (intro map_ReplacePrefix_id) blast
  moreover have "?R old = new" by (simp add: Locator_ReplacePrefix_def locators.prefix_refl)
  ultimately have "map ?R (take it ls @ drop it ls) = take it ls @ new # drop (Suc it) ls"
    by (simp add: d)
  then show ?thesis using hit by (simp add: upd_conv_take_nth_drop)
qed

lemma ReplacePrefix_range:
  fixes old :: locator
  assumes norm: "normalized Locator_less Locator_HasPrefix ls"
  defines "it \<equiv> std_lower_bound Locator_less ls old"
  assumes hit: "it < length ls" "Locator_HasPrefix (ls ! it) old"
  defines "up \<equiv> Suc it + std_lower_bound Locator_HasPrefix (drop (Suc it) ls) old"
  shows "map (\<lambda>l. Locator_ReplacePrefix l old new) ls
    = take it ls @ map (\<lambda>l. Locator_ReplacePrefix l old new) (take (up - it) (drop it ls)) @ drop up ls"
proof -
  let ?R = "\<lambda>l. Locator_ReplacePrefix l old new"
  let ?t = "takeWhile (\<lambda>e. Locator_HasPrefix e old) (drop (Suc it) ls)"
  let ?r = "dropWhile (\<lambda>e. Locator_HasPrefix e old) (drop (Suc it) ls)"
  note start = ReplacePrefix_start [OF norm, of old, folded it_def]
  have d: "drop it ls = ls ! it # drop (Suc it) ls" using hit by (simp add: drop_eq_Cons_nth)
  have "sorted_wrt (\<lambda>a b. Locator_HasPrefix b old \<longrightarrow> Locator_HasPrefix a old) (drop (Suc it) ls)"
    using start(3) by (simp add: d)
  then have up: "up = Suc it + length ?t"
    unfolding up_def std_lower_bound_def by (subst partition_point_takeWhile) simp_all
  have "dropWhile (\<lambda>e. Locator_HasPrefix e old) (drop it ls) = ?r" unfolding d using hit by simp
  from start(2) [unfolded this] have after: "map ?R ?r = ?r" by (rule map_ReplacePrefix_id)
  have rest: "map ?R (drop (Suc it) ls) = map ?R ?t @ ?r"
    using map_append [of ?R ?t ?r] unfolding after takeWhile_dropWhile_id .
  have "drop up ls = ?r" "take (length ?t) (drop (Suc it) ls) = ?t"
    unfolding up by (simp_all add: dropWhile_eq_drop takeWhile_eq_take [symmetric] add.commute)
  then have "map ?R (take it ls @ drop it ls) = take it ls @ map ?R (take (up - it) (drop it ls)) @ drop up ls"
    unfolding up by (simp add: map_ReplacePrefix_id [OF start(1)] d rest)
  then show ?thesis by simp
qed

lemma ReplacePrefix_same: "Locator_ReplacePrefix l old old = l"
  by (auto simp: Locator_ReplacePrefix_def Locator_HasPrefix_prefix prefix_def)

text \<open>Replacing a prefix through the binary search is replacing it in every locator and
  normalizing; the result is normalized and generated by the rewritten locators.
\<close>

theorem LocatorSet_ReplacePrefix_map:
  assumes norm: "normalized Locator_less Locator_HasPrefix ls"
  shows "LocatorSet_ReplacePrefix ls old new
      = LocatorSet_Normalize (map (\<lambda>l. Locator_ReplacePrefix l old new) ls)
    \<and> normalized Locator_less Locator_HasPrefix (LocatorSet_ReplacePrefix ls old new)
    \<and> (\<forall>z. covers Locator_HasPrefix (LocatorSet_ReplacePrefix ls old new) z
        \<longleftrightarrow> (\<exists>l \<in> set ls. Locator_HasPrefix z (Locator_ReplacePrefix l old new)))"
proof -
  let ?R = "\<lambda>l. Locator_ReplacePrefix l old new"
  have eq: "LocatorSet_ReplacePrefix ls old new = LocatorSet_Normalize (map ?R ls)"
    using ReplacePrefix_miss [OF norm, of old new] ReplacePrefix_hit [OF norm, of old new]
      ReplacePrefix_range [OF norm, of old new]
    by (auto simp: LocatorSet_ReplacePrefix_def Let_def Normalize_id norm ReplacePrefix_same)
  have "(\<forall>z. locators.cov (LocatorSet_ReplacePrefix ls old new) z
      \<longleftrightarrow> (\<exists>l \<in> set ls. Locator_HasPrefix z (?R l)))"
    unfolding eq cov_Normalize by (simp add: covers_def)
  with eq show ?thesis by (simp add: norm_Normalize)
qed

subsection \<open>Common prefixes and construction\<close>

lemma common_prefix_length:
  assumes "n = length (takeWhile (\<lambda>i. l ! i = k ! i) [0..<min (length l) (length k)])"
  shows "n \<le> length l" "prefix q l \<and> prefix q k \<longleftrightarrow> prefix q (take n l)"
proof -
  let ?m = "min (length l) (length k)"
  have n: "n \<le> ?m" using assms length_takeWhile_le [of _ "[0..<?m]"] by simp
  then show "n \<le> length l" by simp
  have agree: "l ! i = k ! i" if "i < n" for i
  proof -
    have "(\<lambda>i. l ! i = k ! i) ([0..<?m] ! i)"
      using that unfolding assms by (rule nth_before_takeWhile)
    then show ?thesis using that n by simp
  qed
  then have take_eq: "take n l = take n k" using n by (intro nth_equalityI) auto
  have len: "length q \<le> n" if "prefix q l" "prefix q k"
  proof (rule ccontr)
    assume "\<not> length q \<le> n"
    then have lt: "n < length q" "length q \<le> length l" "length q \<le> length k"
      using that prefix_length_le by auto
    then have "n < length [0..<?m]" by simp
    then have "l ! ([0..<?m] ! n) \<noteq> k ! ([0..<?m] ! n)"
      unfolding assms by (rule takeWhile_nth_length)
    with lt have "l ! n \<noteq> k ! n" by simp
    moreover have "l ! n = q ! n" "k ! n = q ! n" using that lt by (simp_all add: prefix_nth)
    ultimately show False by simp
  qed
  have "prefix q (take n l) \<Longrightarrow> prefix q l \<and> prefix q k"
    using take_is_prefix prefix_order.trans take_eq by metis
  moreover have "prefix q l \<and> prefix q k \<Longrightarrow> prefix q (take n l)"
    using len n by (auto intro: prefix_length_prefix simp: take_is_prefix)
  ultimately show "prefix q l \<and> prefix q k \<longleftrightarrow> prefix q (take n l)" by blast
qed

lemma GetCommonPrefix_prefix:
  "Locator_HasPrefix (Locator_GetCommonPrefix l k) q \<longleftrightarrow>
     Locator_HasPrefix l q \<and> Locator_HasPrefix k q"
  using common_prefix_length(1) [OF refl, of l k]
  by (simp add: Locator_GetCommonPrefix_def Let_def Locator_HasPrefix_prefix
      common_prefix_length(2) [OF refl, symmetric])

text \<open>The greatest common prefix: the prefixes of \<open>GetCommonPrefix\<close> are exactly the common
  prefixes; replacing it by itself changes neither locator.
\<close>

theorem Locator_GetCommonPrefix_greatest:
  "Locator_HasPrefix l (Locator_GetCommonPrefix l k)
    \<and> Locator_HasPrefix k (Locator_GetCommonPrefix l k)
    \<and> (Locator_HasPrefix (Locator_GetCommonPrefix l k) q
        \<longleftrightarrow> Locator_HasPrefix l q \<and> Locator_HasPrefix k q)
    \<and> Locator_GetCommonPrefix l k = Locator_GetCommonPrefix k l"
proof -
  have self: "Locator_HasPrefix (Locator_GetCommonPrefix l k) (Locator_GetCommonPrefix l k)"
    "Locator_HasPrefix (Locator_GetCommonPrefix k l) (Locator_GetCommonPrefix k l)"
    by (simp_all add: locators.prefix_refl)
  then have "Locator_HasPrefix l (Locator_GetCommonPrefix l k)"
    "Locator_HasPrefix k (Locator_GetCommonPrefix l k)"
    "Locator_HasPrefix (Locator_GetCommonPrefix l k) (Locator_GetCommonPrefix k l)"
    "Locator_HasPrefix (Locator_GetCommonPrefix k l) (Locator_GetCommonPrefix l k)"
    unfolding GetCommonPrefix_prefix by auto
  then show ?thesis using locators.prefix_antisym GetCommonPrefix_prefix by blast
qed

text \<open>The initializer-list constructor sorts and drops redundant locators: the result is
  normalized, stands for the same locators, and does not depend on how they were listed.
\<close>

theorem LocatorSet_of_list_canonical:
  "normalized Locator_less Locator_HasPrefix (LocatorSet_of_list ls)
    \<and> (\<forall>z. covers Locator_HasPrefix (LocatorSet_of_list ls) z \<longleftrightarrow> covers Locator_HasPrefix ls z)
    \<and> (LocatorSet_of_list ls = LocatorSet_of_list ks
        \<longleftrightarrow> (\<forall>z. covers Locator_HasPrefix ls z \<longleftrightarrow> covers Locator_HasPrefix ks z))"
proof -
  have "LocatorSet_Normalize ls = LocatorSet_Normalize ks"
    if "\<forall>z. locators.cov ls z \<longleftrightarrow> locators.cov ks z"
    using that by (intro locators.norm_canonical) (simp_all add: norm_Normalize cov_Normalize)
  then show ?thesis
    unfolding LocatorSet_of_list_def by (metis cov_Normalize norm_Normalize)
qed

section \<open>Witnesses\<close>

text \<open>A set of five locators, large enough for the binary searches.\<close>

definition example_set :: locator_set where
  "example_set = [[''a'', ''a''], [''a'', ''b'', ''c''], [''a'', ''b'', ''d''], [''a'', ''c''], [''b'']]"

lemma norm_example [simp]: "normalized Locator_less Locator_HasPrefix example_set"
  by (simp add: example_set_def locators.norm_Cons Locator_less_less Locator_HasPrefix_prefix)

theorem LocatorSet_insert_move_union_witness:
  "LocatorSet_insert_move [[''b'']] example_set = LocatorSet_insert_set [[''b'']] example_set"
  using LocatorSet_insert_move_union [of "[[''b'']]" example_set] by (simp add: locators.norm_Cons)

theorem LocatorSet_insert_append_witness:
  "LocatorSet_append example_set [''a'', ''b''] = LocatorSet_insert example_set [''a'', ''b'']"
  using LocatorSet_insert_append [of example_set "[''a'', ''b'']"] by simp

theorem LocatorSet_Contains_covers_witness:
  "LocatorSet_Contains example_set [''b'', ''x''] \<and> \<not> LocatorSet_Contains example_set [''a'', ''b'']"
  using LocatorSet_Contains_covers [OF norm_example, of "[''b'', ''x'']"]
    LocatorSet_Contains_covers [OF norm_example, of "[''a'', ''b'']"]
  by (simp add: covers_def example_set_def Locator_HasPrefix_prefix)

theorem LocatorSet_Intersects_set_iff_witness:
  "LocatorSet_Intersects example_set [''a'', ''b'']"
  using LocatorSet_Intersects_set_iff [OF norm_example norm_example, of "[''a'', ''b'']"]
  by (auto simp: covers_def example_set_def Locator_HasPrefix_prefix)

theorem LocatorSet_Intersection_covers_witness:
  "normalized Locator_less Locator_HasPrefix (LocatorSet_Intersection example_set [''a'', ''b''])"
  using LocatorSet_Intersection_covers [OF norm_example, of "[''a'', ''b'']"] by simp

theorem LocatorSet_ReplacePrefix_map_witness:
  "LocatorSet_ReplacePrefix example_set [''a'', ''b''] [''b'', ''x'']
    = LocatorSet_Normalize [[''a'', ''a''], [''b'', ''x'', ''c''], [''b'', ''x'', ''d''], [''a'', ''c''], [''b'']]"
  using LocatorSet_ReplacePrefix_map [OF norm_example, of "[''a'', ''b'']" "[''b'', ''x'']"]
  by (simp add: example_set_def Locator_ReplacePrefix_def Locator_HasPrefix_prefix)

end
