(* ===== verification/Hd_SortedIds.thy ===== *)
theory Hd_SortedIds
  imports Sdf_PathSearch "HOL-Library.Word" "HOL-Library.Multiset"
begin

unbundle bit_operations_syntax

text \<open>
  The sorted container of Hydra ids (\<open>pxr/imaging/hd/sortedIds.cpp\<close>). Insertions and removals are
  queued and applied when the ids are asked for; a mixed queue is an \<open>updater\<close> with the removals
  and a Bloom filter for each side. \<open>SdfPath::GetHash\<close> is an argument \<open>h\<close> of the operations: no
  fact about it is used. An operation is \<open>None\<close> where the code would dereference a null updater or
  erase outside of the vector.
\<close>

section \<open>The Bloom filter\<close>

definition bloom_lg_num_bits :: nat where "bloom_lg_num_bits = 16"
definition bloom_num_bits :: "64 word" where "bloom_num_bits = push_bit bloom_lg_num_bits 1"
definition bloom_capacity :: nat where "bloom_capacity = 1024"

record path_bloom =
  bloom_size :: nat
  bloom_bits :: "32 word set"

definition empty_bloom :: path_bloom where
  "empty_bloom = \<lparr>bloom_size = 0, bloom_bits = {}\<rparr>"

definition Bloom_Index1 :: "64 word \<Rightarrow> 32 word" where
  "Bloom_Index1 hash = ucast (hash AND (bloom_num_bits - 1))"

definition Bloom_Index2 :: "64 word \<Rightarrow> 32 word" where
  "Bloom_Index2 hash = ucast (drop_bit bloom_lg_num_bits hash AND (bloom_num_bits - 1))"

definition Bloom_Insert :: "(sdf_path \<Rightarrow> 64 word) \<Rightarrow> sdf_path \<Rightarrow> path_bloom \<Rightarrow> path_bloom" where
  "Bloom_Insert h p f =
     (let hash = h p in
      f\<lparr>bloom_bits := insert (Bloom_Index2 hash) (insert (Bloom_Index1 hash) (bloom_bits f)),
        bloom_size := bloom_size f + 1\<rparr>)"

definition Bloom_MightContain :: "(sdf_path \<Rightarrow> 64 word) \<Rightarrow> sdf_path \<Rightarrow> path_bloom \<Rightarrow> bool" where
  "Bloom_MightContain h p f =
     (let hash = h p in Bloom_Index1 hash \<in> bloom_bits f \<and> Bloom_Index2 hash \<in> bloom_bits f)"

definition Bloom_IsFull :: "path_bloom \<Rightarrow> bool" where
  "Bloom_IsFull f \<longleftrightarrow> bloom_capacity \<le> bloom_size f"

section \<open>Mixed updates\<close>

record update_impl =
  upd_removes :: "sdf_path list"
  upd_insertsBloom :: path_bloom
  upd_removesBloom :: path_bloom

definition new_update :: update_impl where
  "new_update = \<lparr>upd_removes = [], upd_insertsBloom = empty_bloom, upd_removesBloom = empty_bloom\<rparr>"

text \<open>The inserts are the edits of the container, passed in and returned.\<close>

definition Update_Insert ::
    "(sdf_path \<Rightarrow> 64 word) \<Rightarrow> update_impl \<Rightarrow> sdf_path list \<Rightarrow> sdf_path \<Rightarrow>
     bool \<times> update_impl \<times> sdf_path list" where
  "Update_Insert h u inserts p =
     (if Bloom_IsFull (upd_insertsBloom u) \<or>
         (Bloom_MightContain h p (upd_removesBloom u) \<and> p \<in> set (upd_removes u))
      then (False, u, inserts)
      else (True, u\<lparr>upd_insertsBloom := Bloom_Insert h p (upd_insertsBloom u)\<rparr>, inserts @ [p]))"

definition Update_Remove ::
    "(sdf_path \<Rightarrow> 64 word) \<Rightarrow> update_impl \<Rightarrow> sdf_path list \<Rightarrow> sdf_path \<Rightarrow>
     bool \<times> update_impl \<times> sdf_path list" where
  "Update_Remove h u inserts p =
     (if Bloom_IsFull (upd_removesBloom u) \<or>
         (Bloom_MightContain h p (upd_insertsBloom u) \<and> p \<in> set inserts)
      then (False, u, inserts)
      else (True, u\<lparr>upd_removes := upd_removes u @ [p],
                    upd_removesBloom := Bloom_Insert h p (upd_removesBloom u)\<rparr>, inserts))"

section \<open>Applying the queue\<close>

datatype edit_mode = NoMode | InsertMode | RemoveMode | UpdateMode

record sorted_ids =
  id_list :: "sdf_path list"
  id_edits :: "sdf_path list"
  id_mode :: edit_mode
  id_updater :: "update_impl option"

definition empty_ids :: sorted_ids where
  "empty_ids = \<lparr>id_list = [], id_edits = [], id_mode = NoMode, id_updater = None\<rparr>"

text \<open>\<open>_SetDifference\<close>: the output may overwrite the first range, which is read before it.\<close>

fun SetDifference :: "sdf_path list \<Rightarrow> sdf_path list \<Rightarrow> sdf_path list" where
  "SetDifference [] ys = []"
| "SetDifference (x # xs) [] = x # xs"
| "SetDifference (x # xs) (y # ys) =
     (if x < y then x # SetDifference xs (y # ys)
      else if y < x then SetDifference (x # xs) ys
      else SetDifference xs ys)"

text \<open>The loop that erases each edit it finds in the range from \<open>b\<close> to \<open>e\<close>.\<close>

fun erase_each :: "sdf_path list \<Rightarrow> nat \<Rightarrow> nat \<Rightarrow> sdf_path list \<Rightarrow> sdf_path list" where
  "erase_each ps b e [] = ps"
| "erase_each ps b e (u # us) =
     (if b = e then ps
      else
        let (ps, e) = (if ps ! b = u then (take b ps @ drop (Suc b) ps, e - 1) else (ps, e));
            b = (case us of [] \<Rightarrow> e | v # _ \<Rightarrow> b + std_lower_bound (<) (take (e - b) (drop b ps)) v)
        in erase_each ps b e us)"

definition binary_search_frac :: nat where "binary_search_frac = 6400"

definition sort_removing :: "sdf_path list \<Rightarrow> sdf_path list \<Rightarrow> sdf_path list" where
  "sort_removing ps es =
     (let removeBegin = std_lower_bound (<) ps (hd es) in
      if length es = 1
      then if removeBegin \<noteq> length ps \<and> ps ! removeBegin = hd es
           then take removeBegin ps @ drop (Suc removeBegin) ps else ps
      else
        let removeEnd = std_upper_bound (<) ps (last es);
            removeRangeSize = removeEnd - removeBegin
        in if removeRangeSize div binary_search_frac > length es
           then erase_each ps removeBegin removeEnd es
           else take removeBegin ps
             @ SetDifference (take removeRangeSize (drop removeBegin ps)) es @ drop removeEnd ps)"

definition sort_inserting :: "sdf_path list \<Rightarrow> sdf_path list \<Rightarrow> sdf_path list" where
  "sort_inserting ps es =
     (let addBegin = std_lower_bound (<) ps (hd es) in
      if length es = 1 then take addBegin ps @ [hd es] @ drop addBegin ps
      else
        let addEnd = std_upper_bound (<) ps (last es) in
        if addEnd - addBegin = 0 then take addBegin ps @ es @ drop addBegin ps
        else take addBegin ps
          @ std_merge (<) (take (addEnd - addBegin) (drop addBegin ps)) es @ drop addEnd ps)"

function Ids_Sort :: "sorted_ids \<Rightarrow> sorted_ids option" where
  "Ids_Sort s =
     (if id_mode s \<noteq> UpdateMode \<and> id_edits s = [] then Some (s\<lparr>id_mode := NoMode\<rparr>)
      else if id_mode s = UpdateMode then
        (case id_updater s of
           None \<Rightarrow> None
         | Some u \<Rightarrow>
             let inserts = id_edits s in
             (case Ids_Sort (s\<lparr>id_edits := upd_removes u, id_updater := Some (u\<lparr>upd_removes := []\<rparr>),
                              id_mode := RemoveMode\<rparr>) of
                None \<Rightarrow> None
              | Some s \<Rightarrow>
                  (case Ids_Sort (s\<lparr>id_edits := inserts, id_mode := InsertMode\<rparr>) of
                     None \<Rightarrow> None
                   | Some s \<Rightarrow> Some (s\<lparr>id_updater := None\<rparr>))))
      else
        let edits = std_sort (<) (id_edits s);
            removing = (id_mode s = RemoveMode)
        in if \<not> removing \<and> id_list s = []
           then Some (s\<lparr>id_list := edits, id_edits := id_list s, id_mode := NoMode\<rparr>)
           else Some (s\<lparr>id_list := (if removing then sort_removing (id_list s) edits
                                    else sort_inserting (id_list s) edits),
                        id_edits := [], id_mode := NoMode\<rparr>))"
  by pat_completeness auto
termination
  by (relation "measure (\<lambda>s. if id_mode s = UpdateMode then 1 else 0)") auto

declare Ids_Sort.simps [simp del]

lemma Ids_Sort_batch_NoMode: "id_mode s \<noteq> UpdateMode \<Longrightarrow> Ids_Sort s = Some s' \<Longrightarrow> id_mode s' = NoMode"
  by (auto simp: Ids_Sort.simps [of s] Let_def split: if_splits)

lemma Ids_Sort_NoMode: "Ids_Sort s = Some s' \<Longrightarrow> id_mode s' = NoMode"
proof (cases "id_mode s = UpdateMode")
  case True
  assume "Ids_Sort s = Some s'"
  with True obtain t t' where t: "Ids_Sort (t\<lparr>id_edits := id_edits s, id_mode := InsertMode\<rparr>) = Some t'"
    "s' = t'\<lparr>id_updater := None\<rparr>"
    by (subst (asm) Ids_Sort.simps) (auto simp: Let_def split: option.splits)
  then show ?thesis using Ids_Sort_batch_NoMode [OF _ t(1)] by simp
qed (rule Ids_Sort_batch_NoMode)

section \<open>The operations\<close>

definition GetIds :: "sorted_ids \<Rightarrow> (sdf_path list \<times> sorted_ids) option" where
  "GetIds s = (case Ids_Sort s of None \<Rightarrow> None | Some s \<Rightarrow> Some (id_list s, s))"

text \<open>\<open>begin_update\<close> is the block both operations run when the queue is of the other kind.\<close>

definition begin_update :: "sorted_ids \<Rightarrow> sorted_ids option" where
  "begin_update s =
     (if id_mode s \<noteq> UpdateMode
      then (case Ids_Sort s of None \<Rightarrow> None
            | Some s \<Rightarrow> Some (s\<lparr>id_mode := UpdateMode, id_updater := Some new_update\<rparr>))
      else Some s)"

function Ids_Insert :: "(sdf_path \<Rightarrow> 64 word) \<Rightarrow> sorted_ids \<Rightarrow> sdf_path \<Rightarrow> sorted_ids option" where
  "Ids_Insert h s p =
     (let s' = (if id_mode s = NoMode then s\<lparr>id_mode := InsertMode\<rparr> else s) in
      if id_mode s' = InsertMode then Some (s'\<lparr>id_edits := id_edits s' @ [p]\<rparr>)
      else case begin_update s' of
        None \<Rightarrow> None
      | Some t \<Rightarrow>
          (case id_updater t of
             None \<Rightarrow> None
           | Some u \<Rightarrow>
               (case Update_Insert h u (id_edits t) p of
                  (True, u, inserts) \<Rightarrow> Some (t\<lparr>id_edits := inserts, id_updater := Some u\<rparr>)
                | (False, _) \<Rightarrow>
                    (case Ids_Sort t of None \<Rightarrow> None | Some t \<Rightarrow> Ids_Insert h t p))))"
  by pat_completeness auto
termination
  by (relation "measure (\<lambda>(h, s, p). if id_mode s = NoMode then 0 else 1)")
    (auto dest: Ids_Sort_NoMode split: if_splits)

declare Ids_Insert.simps [simp del]

function Ids_Remove :: "(sdf_path \<Rightarrow> 64 word) \<Rightarrow> sorted_ids \<Rightarrow> sdf_path \<Rightarrow> sorted_ids option" where
  "Ids_Remove h s p =
     (let s' = (if id_mode s = NoMode then s\<lparr>id_mode := RemoveMode\<rparr> else s) in
      if id_mode s' = RemoveMode then Some (s'\<lparr>id_edits := id_edits s' @ [p]\<rparr>)
      else case begin_update s' of
        None \<Rightarrow> None
      | Some t \<Rightarrow>
          (case id_updater t of
             None \<Rightarrow> None
           | Some u \<Rightarrow>
               (case Update_Remove h u (id_edits t) p of
                  (True, u, inserts) \<Rightarrow> Some (t\<lparr>id_edits := inserts, id_updater := Some u\<rparr>)
                | (False, _) \<Rightarrow>
                    (case Ids_Sort t of None \<Rightarrow> None | Some t \<Rightarrow> Ids_Remove h t p))))"
  by pat_completeness auto
termination
  by (relation "measure (\<lambda>(h, s, p). if id_mode s = NoMode then 0 else 1)")
    (auto dest: Ids_Sort_NoMode split: if_splits)

declare Ids_Remove.simps [simp del]

definition Ids_Clear :: "sorted_ids \<Rightarrow> sorted_ids" where
  "Ids_Clear s = s\<lparr>id_list := [], id_edits := [], id_mode := NoMode, id_updater := None\<rparr>"

text \<open>
  The positions are inclusive. The first component of the result tells whether the coding error
  was raised.
\<close>

definition Ids_RemoveRange :: "sorted_ids \<Rightarrow> nat \<Rightarrow> nat \<Rightarrow> (bool \<times> sorted_ids) option" where
  "Ids_RemoveRange s start stop =
     (let numIds = length (id_list s); numToRemove = int stop - int start + 1 in
      if id_edits s \<noteq> [] then Some (True, s)
      else if numToRemove = int numIds then Some (False, Ids_Clear s)
      else if start \<le> stop + 1 \<and> stop + 1 \<le> numIds
      then Some (False, s\<lparr>id_list := take start (id_list s) @ drop (stop + 1) (id_list s)\<rparr>)
      else None)"

section \<open>Sorting applies the queue\<close>

lemma sorted_paths: "sorted_wrt (\<lambda>x y. \<not> y < x) ps \<longleftrightarrow> sorted ps" for ps :: "sdf_path list"
  by (simp add: not_less)

lemma sorted_sort_paths: "sorted (std_sort (<) ps)" for ps :: "sdf_path list"
  using paths.sorted_std_sort [of ps] by (simp add: sorted_paths)

lemma sorted_list_unique: "sorted ps \<Longrightarrow> mset ps = M \<Longrightarrow> ps = sorted_list_of_multiset M"
  by (auto simp: sort_key_id_if_sorted)

text \<open>The range of a sorted list an ordered queue concerns.\<close>

lemma lower_bound_split:
  fixes ps :: "sdf_path list"
  assumes "sorted ps"
  shows "std_lower_bound (<) ps v \<le> length ps"
    and "\<forall>x \<in> set (take (std_lower_bound (<) ps v) ps). x < v"
    and "\<forall>x \<in> set (drop (std_lower_bound (<) ps v) ps). v \<le> x"
proof -
  have bound: "std_lower_bound (<) ps v = length (takeWhile (\<lambda>x. x < v) ps)"
    using assms by (intro paths.std_lower_bound_sorted) (simp add: sorted_paths)
  then show "std_lower_bound (<) ps v \<le> length ps" by (simp add: length_takeWhile_le)
  from bound show "\<forall>x \<in> set (take (std_lower_bound (<) ps v) ps). x < v"
    by (metis set_takeWhileD takeWhile_eq_take_length)
  have "drop (std_lower_bound (<) ps v) ps = dropWhile (\<lambda>x. x < v) ps"
    by (simp add: bound dropWhile_eq_drop_length)
  moreover have "\<forall>x \<in> set (dropWhile (\<lambda>x. x < v) ps). v \<le> x"
    using assms by (induction ps) (auto simp: not_less intro: order.trans)
  ultimately show "\<forall>x \<in> set (drop (std_lower_bound (<) ps v) ps). v \<le> x" by simp
qed

lemma upper_bound_split:
  fixes ps :: "sdf_path list"
  assumes "sorted ps"
  shows "std_upper_bound (<) ps v \<le> length ps"
    and "\<forall>x \<in> set (take (std_upper_bound (<) ps v) ps). x \<le> v"
    and "\<forall>x \<in> set (drop (std_upper_bound (<) ps v) ps). v < x"
proof -
  have bound: "std_upper_bound (<) ps v = length (takeWhile (\<lambda>x. x \<le> v) ps)"
    using assms paths.std_upper_bound_sorted [of ps v] by (simp add: sorted_paths not_less)
  then show "std_upper_bound (<) ps v \<le> length ps" by (simp add: length_takeWhile_le)
  from bound show "\<forall>x \<in> set (take (std_upper_bound (<) ps v) ps). x \<le> v"
    by (metis set_takeWhileD takeWhile_eq_take_length)
  have "drop (std_upper_bound (<) ps v) ps = dropWhile (\<lambda>x. x \<le> v) ps"
    by (simp add: bound dropWhile_eq_drop_length)
  moreover have "\<forall>x \<in> set (dropWhile (\<lambda>x. x \<le> v) ps). v < x"
    using assms by (induction ps) (auto simp: not_le intro: less_le_trans)
  ultimately show "\<forall>x \<in> set (drop (std_upper_bound (<) ps v) ps). v < x" by simp
qed

lemma lower_le_upper_bound:
  fixes ps :: "sdf_path list"
  assumes "sorted ps" "v \<le> w"
  shows "std_lower_bound (<) ps v \<le> std_upper_bound (<) ps w"
proof (rule ccontr)
  let ?b = "std_lower_bound (<) ps v" and ?e = "std_upper_bound (<) ps w"
  assume "\<not> ?b \<le> ?e"
  then have "?e < ?b" by simp
  moreover from this have "?e < length ps" using lower_bound_split(1) [OF assms(1), of v] by simp
  ultimately have "ps ! ?e \<in> set (take ?b ps)" "ps ! ?e \<in> set (drop ?e ps)"
    by (metis in_set_conv_nth length_take min_less_iff_conj nth_take,
        metis Cons_nth_drop_Suc list.set_intros(1))
  then have "ps ! ?e < v" "w < ps ! ?e"
    using lower_bound_split(2) [OF assms(1), of v] upper_bound_split(3) [OF assms(1), of w] by auto
  with assms(2) show False by simp
qed

lemma split_range: "b \<le> e \<Longrightarrow> e \<le> length ps \<Longrightarrow> ps = take b ps @ take (e - b) (drop b ps) @ drop e ps"
  by (metis append_take_drop_id drop_drop le_add_diff_inverse2)

lemma mset_erase_nth:
  assumes "i < length ps"
  shows "mset (take i ps @ drop (Suc i) ps) = mset ps - {#ps ! i#}"
proof -
  have "mset ps = mset (take i ps @ ps ! i # drop (Suc i) ps)"
    using id_take_nth_drop [OF assms] by simp
  then show ?thesis by simp
qed

lemma sorted_erase:
  fixes ps :: "sdf_path list"
  assumes "sorted ps" "i \<le> j"
  shows "sorted (take i ps @ drop j ps)"
proof -
  have "sorted (take i ps @ drop i ps)" using assms(1) by simp
  then have "\<forall>x \<in> set (take i ps). \<forall>y \<in> set (drop i ps). x \<le> y" unfolding sorted_append by blast
  moreover have "set (drop j ps) \<subseteq> set (drop i ps)" by (rule set_drop_subset_set_drop [OF assms(2)])
  ultimately show ?thesis using assms(1) by (auto simp: sorted_append sorted_wrt_drop)
qed

lemma sorted_hd_last:
  fixes es :: "sdf_path list"
  shows "sorted es \<Longrightarrow> \<forall>x \<in> set es. hd es \<le> x \<and> x \<le> last es"
  by (induction es) (auto intro: order.trans)

subsection \<open>Removing\<close>

lemma set_SetDifference: "set (SetDifference xs ys) \<subseteq> set xs"
  by (induction xs ys rule: SetDifference.induct) auto

lemma sorted_SetDifference: "sorted xs \<Longrightarrow> sorted (SetDifference xs ys)"
proof (induction xs ys rule: SetDifference.induct)
  case (3 x xs y ys)
  then show ?case using set_SetDifference [of xs "y # ys"] by auto
qed auto

lemma diff_absent: "x \<notin># N \<Longrightarrow> add_mset x M - N = add_mset x (M - N)"
  by (rule multiset_eqI) (auto simp: not_in_iff)

lemma mset_SetDifference: "sorted xs \<Longrightarrow> sorted ys \<Longrightarrow> mset (SetDifference xs ys) = mset xs - mset ys"
proof (induction xs ys rule: SetDifference.induct)
  case (3 x xs y ys)
  consider "x < y" | "y < x" | "x = y" by (meson linorder_less_linear)
  then show ?case
  proof cases
    case 1
    with "3.prems" have "x \<notin># mset (y # ys)" by auto
    with 1 3 show ?thesis by (simp add: diff_absent)
  next
    case 2
    with "3.prems" have "y \<notin> set (x # xs)" by auto
    with 2 3 show ?thesis by (auto simp: not_in_iff)
  qed (use 3 in simp)
qed simp_all

lemma SetDifference_Nil [simp]: "SetDifference xs [] = xs"
  by (cases xs) simp_all

lemma SetDifference_skip:
  "\<forall>x \<in> set xs. x < y \<Longrightarrow> SetDifference (xs @ zs) (y # ys) = xs @ SetDifference zs (y # ys)"
  by (induction xs) auto

lemma erase_each_SetDifference:
  "sorted ms \<Longrightarrow> sorted us \<Longrightarrow> \<forall>x \<in> set ms. us \<noteq> [] \<longrightarrow> hd us \<le> x \<Longrightarrow>
   erase_each (as @ ms @ bs) (length as) (length as + length ms) us = as @ SetDifference ms us @ bs"
proof (induction us arbitrary: as ms)
  case (Cons u us)
  show ?case
  proof (cases ms)
    case ms: (Cons x xs)
    define rest where "rest = (if x = u then xs else ms)"
    have rest: "sorted rest" "SetDifference ms (u # us) = SetDifference rest us"
      using Cons.prems by (auto simp: rest_def ms)
    have step: "erase_each (as @ ms @ bs) (length as) (length as + length ms) (u # us)
        = erase_each (as @ rest @ bs)
            (length as + (case us of [] \<Rightarrow> length rest | v # _ \<Rightarrow> std_lower_bound (<) rest v))
            (length as + length rest) us"
      by (subst erase_each.simps) (cases "x = u"; simp add: ms rest_def del: erase_each.simps split: list.split)
    show ?thesis
    proof (cases us)
      case Nil
      with rest step show ?thesis by simp
    next
      case us: (Cons v vs)
      let ?j = "std_lower_bound (<) rest v"
      note split = lower_bound_split [OF rest(1), of v]
      have whole: "take ?j rest @ drop ?j rest @ bs = rest @ bs"
        by (metis append.assoc append_take_drop_id)
      have "erase_each (as @ ms @ bs) (length as) (length as + length ms) (u # us)
          = erase_each (as @ rest @ bs) (length as + ?j) (length as + length rest) us"
        using step us by simp
      also have "\<dots> = erase_each ((as @ take ?j rest) @ drop ?j rest @ bs) (length (as @ take ?j rest))
          (length (as @ take ?j rest) + length (drop ?j rest)) us"
        using split(1) by (simp add: whole)
      also have "\<dots> = (as @ take ?j rest) @ SetDifference (drop ?j rest) us @ bs"
        using rest(1) Cons.prems(2) split(3) us by (intro Cons.IH) (auto simp: sorted_wrt_drop)
      also have "\<dots> = as @ SetDifference rest us @ bs"
        using SetDifference_skip [OF split(2), of "drop ?j rest" vs] us by simp
      finally show ?thesis by (simp add: rest)
    qed
  qed simp
qed simp

text \<open>Both ways of removing a queue of several edits are the difference of the whole lists.\<close>

lemma sort_removing_diff:
  assumes "sorted ps" "sorted es" "es \<noteq> []"
  shows "sorted (sort_removing ps es) \<and> mset (sort_removing ps es) = mset ps - mset es"
proof -
  let ?b = "std_lower_bound (<) ps (hd es)" and ?e = "std_upper_bound (<) ps (last es)"
  note low = lower_bound_split [OF assms(1), of "hd es"] and up = upper_bound_split [OF assms(1), of "last es"]
  have es: "\<forall>x \<in> set es. hd es \<le> x \<and> x \<le> last es"
    using assms(2) by (rule sorted_hd_last)
  show ?thesis
  proof (cases "length es = 1")
    case True
    then obtain u where u: "es = [u]" by (cases es) auto
    show ?thesis
    proof (cases "?b \<noteq> length ps \<and> ps ! ?b = u")
      case found: True
      then have "?b < length ps" using low(1) by simp
      with found have "mset (take ?b ps @ drop (Suc ?b) ps) = mset ps - mset es"
        using mset_erase_nth [of ?b ps] u by simp
      moreover have "sorted (take ?b ps @ drop (Suc ?b) ps)"
        using assms(1) by (rule sorted_erase) simp
      ultimately show ?thesis using found by (simp add: sort_removing_def u Let_def)
    next
      case absent: False
      have "u \<notin> set ps"
      proof
        assume "u \<in> set ps"
        then have "u \<in> set (drop ?b ps)"
          using low(2) u by (metis Un_iff append_take_drop_id list.sel(1) order_less_irrefl set_append)
        then have b: "?b < length ps" by (metis drop_eq_Nil empty_iff list.set(1) not_le_imp_less)
        then have "drop ?b ps = ps ! ?b # drop (Suc ?b) ps" by (rule drop_eq_Cons_nth)
        moreover have "sorted (drop ?b ps)" using assms(1) by (rule sorted_wrt_drop)
        ultimately have "ps ! ?b \<le> u" "u \<le> ps ! ?b"
          using \<open>u \<in> set (drop ?b ps)\<close> low(3) u by auto
        with absent b show False by simp
      qed
      with absent assms(1) show ?thesis by (auto simp: sort_removing_def u Let_def)
    qed
  next
    case False
    have be: "?b \<le> ?e" using assms(1) es assms(3) by (intro lower_le_upper_bound) auto
    let ?m = "take (?e - ?b) (drop ?b ps)"
    have ps: "ps = take ?b ps @ ?m @ drop ?e ps" by (rule split_range [OF be up(1)])
    then have sorted: "sorted (take ?b ps @ ?m @ drop ?e ps)" using assms(1) by simp
    have "\<forall>x \<in> set ?m. hd es \<le> x" using low(3) by (meson in_set_takeD)
    then have "erase_each ps ?b ?e es = take ?b ps @ SetDifference ?m es @ drop ?e ps"
      using erase_each_SetDifference [of ?m es "take ?b ps" "drop ?e ps"] sorted assms(2) be low(1) up(1)
      by (simp add: sorted_append ps [symmetric])
    then have result: "sort_removing ps es = take ?b ps @ SetDifference ?m es @ drop ?e ps"
      using False by (simp add: sort_removing_def Let_def)
    have "sorted (sort_removing ps es)"
      using sorted set_SetDifference [of ?m es]
      by (auto simp: result sorted_append sorted_SetDifference subset_iff)
    moreover have "mset (sort_removing ps es) = mset ps - mset es"
    proof -
      have "mset ps - mset es = mset (take ?b ps) + mset ?m + mset (drop ?e ps) - mset es"
        by (subst ps) (simp add: ac_simps)
      also have "\<dots> = mset (take ?b ps) + (mset ?m - mset es) + mset (drop ?e ps)"
      proof (rule multiset_eqI)
        fix x
        have "x \<in> set es \<Longrightarrow> x \<notin> set (take ?b ps) \<and> x \<notin> set (drop ?e ps)"
          using low(2) up(3) es by fastforce
        then show "count (mset (take ?b ps) + mset ?m + mset (drop ?e ps) - mset es) x
            = count (mset (take ?b ps) + (mset ?m - mset es) + mset (drop ?e ps)) x"
          by (cases "x \<in> set es") (simp_all add: count_mset_0_iff [THEN iffD2])
      qed
      finally show ?thesis
        using sorted assms(2) by (simp add: result mset_SetDifference sorted_append)
    qed
    ultimately show ?thesis ..
  qed
qed

subsection \<open>Inserting\<close>

lemma sort_inserting_merge:
  assumes "sorted ps" "sorted es" "es \<noteq> []"
  shows "sorted (sort_inserting ps es) \<and> mset (sort_inserting ps es) = mset ps + mset es"
proof -
  let ?b = "std_lower_bound (<) ps (hd es)" and ?e = "std_upper_bound (<) ps (last es)"
  note low = lower_bound_split [OF assms(1), of "hd es"] and up = upper_bound_split [OF assms(1), of "last es"]
  note es = sorted_hd_last [OF assms(2)]
  have be: "?b \<le> ?e" using assms(1) es assms(3) by (intro lower_le_upper_bound) auto
  let ?m = "take (?e - ?b) (drop ?b ps)"
  have parts: "ps = take ?b ps @ drop ?b ps" "ps = take ?b ps @ ?m @ drop ?e ps"
    by (simp, rule split_range [OF be up(1)])
  have mset: "mset (take ?b ps) + mset (drop ?b ps) = mset ps"
    "mset (take ?b ps) + (mset ?m + mset (drop ?e ps)) = mset ps"
    by (metis mset_append parts(1), metis mset_append parts(2))
  have sorted: "sorted (take ?b ps)" "sorted ?m" "sorted (drop ?e ps)" "sorted (drop ?b ps)"
    using assms(1) by (simp_all add: sorted_wrt_take sorted_wrt_drop)
  have around: "\<forall>x \<in> set (take ?b ps). \<forall>y \<in> set es. x \<le> y"
    "\<forall>x \<in> set es. \<forall>y \<in> set (drop ?e ps). x \<le> y"
    using low(2) up(3) es by (meson less_imp_le less_le_trans, meson less_imp_le le_less_trans)
  have "sorted (take ?b ps @ ?m @ drop ?e ps)" using assms(1) parts(2) by simp
  then have whole: "\<forall>x \<in> set (take ?b ps). \<forall>y \<in> set ?m \<union> set (drop ?e ps). x \<le> y"
    "\<forall>x \<in> set ?m. \<forall>y \<in> set (drop ?e ps). x \<le> y"
    unfolding sorted_append by auto
  show ?thesis
  proof (cases "length es = 1")
    case True
    then obtain u where u: "es = [u]" by (cases es) auto
    have "sorted (take ?b ps @ u # drop ?b ps)"
      using sorted low(2,3) u by (auto simp: sorted_append) (meson less_le_trans less_imp_le)+
    then show ?thesis using mset(1) u by (simp add: sort_inserting_def Let_def)
  next
    case several: False
    show ?thesis
    proof (cases "?e - ?b = 0")
      case True
      then have eq: "?e = ?b" using be by simp
      have "sorted (take ?b ps @ es @ drop ?b ps)"
        using sorted assms(2) around whole unfolding eq sorted_append by auto
      then show ?thesis using True several mset(1) by (simp add: sort_inserting_def Let_def ac_simps)
    next
      case False
      let ?t = "std_merge (<) ?m es"
      have t: "sorted ?t" "set ?t = set ?m \<union> set es"
        using paths.sorted_std_merge [of ?m es] sorted(2) assms(2) by (simp_all add: sorted_paths)
      have "sorted (take ?b ps @ ?t @ drop ?e ps)"
        using whole around t sorted(1,3) unfolding sorted_append by auto
      moreover have "mset (take ?b ps @ ?t @ drop ?e ps) = mset ps + mset es"
        unfolding mset(2) [symmetric] by (simp add: ac_simps)
      ultimately show ?thesis using False several by (simp add: sort_inserting_def Let_def)
    qed
  qed
qed

section \<open>The multiset of ids\<close>

definition update_ok :: "(sdf_path \<Rightarrow> 64 word) \<Rightarrow> update_impl \<Rightarrow> sdf_path list \<Rightarrow> bool" where
  "update_ok h u inserts \<longleftrightarrow>
     list_all (\<lambda>p. Bloom_MightContain h p (upd_insertsBloom u)) inserts \<and>
     list_all (\<lambda>p. Bloom_MightContain h p (upd_removesBloom u)) (upd_removes u) \<and>
     set inserts \<inter> set (upd_removes u) = {}"

definition ids_ok :: "(sdf_path \<Rightarrow> 64 word) \<Rightarrow> sorted_ids \<Rightarrow> bool" where
  "ids_ok h s \<longleftrightarrow> sorted (id_list s) \<and>
     (if id_mode s = UpdateMode
      then (case id_updater s of None \<Rightarrow> False | Some u \<Rightarrow> update_ok h u (id_edits s))
      else id_updater s = None \<and> (id_mode s = NoMode \<longrightarrow> id_edits s = []))"

definition contents :: "sorted_ids \<Rightarrow> sdf_path multiset" where
  "contents s =
     (case id_mode s of
        NoMode \<Rightarrow> mset (id_list s)
      | InsertMode \<Rightarrow> mset (id_list s) + mset (id_edits s)
      | RemoveMode \<Rightarrow> mset (id_list s) - mset (id_edits s)
      | UpdateMode \<Rightarrow>
          (case id_updater s of
             None \<Rightarrow> {#}
           | Some u \<Rightarrow> mset (id_list s) - mset (upd_removes u) + mset (id_edits s)))"

definition sorted_state :: "sdf_path multiset \<Rightarrow> sorted_ids" where
  "sorted_state M =
     \<lparr>id_list = sorted_list_of_multiset M, id_edits = [], id_mode = NoMode, id_updater = None\<rparr>"

lemma sorted_state_ok [simp]: "ids_ok h (sorted_state M)" "contents (sorted_state M) = M"
  by (simp_all add: ids_ok_def contents_def sorted_state_def)

text \<open>A queue of one kind, whatever the updater holds.\<close>

lemma Ids_Sort_batch:
  assumes "sorted (id_list s)" "id_mode s \<noteq> UpdateMode" "id_mode s = NoMode \<longrightarrow> id_edits s = []"
  shows "Ids_Sort s = Some (s\<lparr>id_list := sorted_list_of_multiset (contents s), id_edits := [],
    id_mode := NoMode\<rparr>)"
proof (cases "id_edits s = []")
  case True
  with assms have "contents s = mset (id_list s)" by (cases "id_mode s") (simp_all add: contents_def)
  then have "sorted_list_of_multiset (contents s) = id_list s"
    using assms(1) by (simp add: sort_key_id_if_sorted)
  moreover have "s\<lparr>id_list := id_list s, id_edits := [], id_mode := NoMode\<rparr> = s\<lparr>id_mode := NoMode\<rparr>"
    using True by (cases s) simp
  ultimately show ?thesis using True assms(2) by (simp add: Ids_Sort.simps [of s])
next
  case False
  let ?es = "std_sort (<) (id_edits s)"
  have es: "sorted ?es" "?es \<noteq> []" "mset ?es = mset (id_edits s)"
    by (rule sorted_sort_paths, metis False set_empty set_std_sort, simp)
  have "id_mode s = InsertMode \<or> id_mode s = RemoveMode" using assms False by (cases "id_mode s") auto
  then show ?thesis
  proof
    assume "id_mode s = InsertMode"
    with False assms(2) es show ?thesis
      using sorted_list_unique [of ?es] sort_inserting_merge [OF assms(1) es(1,2)]
        sorted_list_unique [of "sort_inserting (id_list s) ?es"]
      by (simp add: Ids_Sort.simps [of s] contents_def Let_def)
  next
    assume "id_mode s = RemoveMode"
    with False assms(2) es show ?thesis
      using sort_removing_diff [OF assms(1) es(1,2)]
        sorted_list_unique [of "sort_removing (id_list s) ?es"]
      by (simp add: Ids_Sort.simps [of s] contents_def Let_def)
  qed
qed

lemma Ids_Sort_contents: "ids_ok h s \<Longrightarrow> Ids_Sort s = Some (sorted_state (contents s))"
proof (cases "id_mode s = UpdateMode")
  case True
  assume ok: "ids_ok h s"
  with True obtain u where u: "id_updater s = Some u" by (auto simp: ids_ok_def split: option.splits)
  let ?M = "mset (id_list s) - mset (upd_removes u)"
  let ?r = "s\<lparr>id_edits := upd_removes u, id_updater := Some (u\<lparr>upd_removes := []\<rparr>), id_mode := RemoveMode\<rparr>"
  let ?r' = "?r\<lparr>id_list := sorted_list_of_multiset ?M, id_edits := [], id_mode := NoMode\<rparr>"
  have 1: "Ids_Sort ?r = Some ?r'"
    using ok by (subst Ids_Sort_batch) (simp_all add: ids_ok_def contents_def)
  have 2: "Ids_Sort (?r'\<lparr>id_edits := id_edits s, id_mode := InsertMode\<rparr>)
    = Some (?r'\<lparr>id_list := sorted_list_of_multiset (?M + mset (id_edits s)), id_edits := [], id_mode := NoMode\<rparr>)"
    by (subst Ids_Sort_batch) (simp_all add: contents_def)
  show ?thesis
    by (subst Ids_Sort.simps)
      (simp add: True u 1 [simplified] 2 [simplified] contents_def sorted_state_def)
next
  case False
  assume "ids_ok h s"
  with False Ids_Sort_batch [of s] show ?thesis by (auto simp: ids_ok_def sorted_state_def)
qed

section \<open>The operations keep the multiset\<close>

lemma Bloom_Insert_MightContain:
  "Bloom_MightContain h p (Bloom_Insert h p f)"
  "Bloom_MightContain h q f \<Longrightarrow> Bloom_MightContain h q (Bloom_Insert h p f)"
  by (simp_all add: Bloom_MightContain_def Bloom_Insert_def Let_def)

lemma Update_Insert_ok:
  assumes "update_ok h u es" "Update_Insert h u es p = (True, u', es')"
  shows "update_ok h u' es' \<and> es' = es @ [p] \<and> upd_removes u' = upd_removes u"
  using assms Bloom_Insert_MightContain
  by (auto simp: Update_Insert_def update_ok_def list_all_iff split: if_splits)

lemma Update_Remove_ok:
  assumes "update_ok h u es" "Update_Remove h u es p = (True, u', es')"
  shows "update_ok h u' es' \<and> es' = es \<and> upd_removes u' = upd_removes u @ [p] \<and> p \<notin> set es"
  using assms Bloom_Insert_MightContain
  by (auto simp: Update_Remove_def update_ok_def list_all_iff split: if_splits)

lemma update_ok_new: "update_ok h new_update []"
  by (simp add: update_ok_def new_update_def)

lemma begin_update_ok:
  "ids_ok h s \<Longrightarrow> \<exists>t u. begin_update s = Some t \<and> ids_ok h t \<and> contents t = contents s \<and>
     id_mode t = UpdateMode \<and> id_updater t = Some u \<and> update_ok h u (id_edits t)"
proof (cases "id_mode s = UpdateMode")
  case True
  then show "ids_ok h s \<Longrightarrow> ?thesis"
    by (auto simp: begin_update_def ids_ok_def split: option.splits)
next
  case False
  assume "ids_ok h s"
  then have "begin_update s = Some (sorted_state (contents s)\<lparr>id_mode := UpdateMode, id_updater := Some new_update\<rparr>)"
    using False by (simp add: begin_update_def Ids_Sort_contents)
  moreover have "contents (sorted_state M\<lparr>id_mode := UpdateMode, id_updater := Some new_update\<rparr>) = M"
    "ids_ok h (sorted_state M\<lparr>id_mode := UpdateMode, id_updater := Some new_update\<rparr>)" for M
    using update_ok_new by (simp_all add: contents_def ids_ok_def sorted_state_def new_update_def)
  ultimately show ?thesis using update_ok_new by (simp add: sorted_state_def)
qed

text \<open>An id that is not among the inserts can be removed before them.\<close>

lemma remove_before_insert: "p \<notin> set es \<Longrightarrow> M - add_mset p (mset rs) + mset es = M - mset rs + mset es - {#p#}"
proof (rule multiset_eqI)
  fix x
  assume "p \<notin> set es"
  then have "count (mset es) p = 0" by simp
  then show "count (M - add_mset p (mset rs) + mset es) x = count (M - mset rs + mset es - {#p#}) x"
    by (cases "x = p") (simp_all del: count_mset_0_iff)
qed

lemma Ids_Insert_queued:
  assumes "ids_ok h s" "id_mode s = NoMode \<or> id_mode s = InsertMode"
  shows "\<exists>s'. Ids_Insert h s p = Some s' \<and> ids_ok h s' \<and> contents s' = add_mset p (contents s)"
  using assms by (auto simp: Ids_Insert.simps [of h s] ids_ok_def contents_def Let_def split: if_splits)

lemma Ids_Insert_contents:
  assumes "ids_ok h s"
  shows "\<exists>s'. Ids_Insert h s p = Some s' \<and> ids_ok h s' \<and> contents s' = add_mset p (contents s)"
proof (cases "id_mode s = NoMode \<or> id_mode s = InsertMode")
  case True
  with assms show ?thesis by (rule Ids_Insert_queued)
next
  case False
  from begin_update_ok [OF assms] obtain t u where t: "begin_update s = Some t" "ids_ok h t"
    "contents t = contents s" "id_mode t = UpdateMode" "id_updater t = Some u" "update_ok h u (id_edits t)"
    by blast
  obtain ok u' es' where up: "Update_Insert h u (id_edits t) p = (ok, u', es')" by (metis prod_cases3)
  show ?thesis
  proof (cases ok)
    case True
    then have upd: "update_ok h u' es'" "es' = id_edits t @ [p]" "upd_removes u' = upd_removes u"
      using up Update_Insert_ok [OF t(6), of p u' es'] by auto
    with False True t up upd show ?thesis
      by (auto simp: Ids_Insert.simps [of h s] ids_ok_def contents_def)
  next
    case rejected: False
    have "Ids_Insert h s p = Ids_Insert h (sorted_state (contents s)) p"
      using False rejected t up Ids_Sort_contents [OF t(2)] by (simp add: Ids_Insert.simps [of h s])
    moreover have "id_mode (sorted_state (contents s)) = NoMode" by (simp add: sorted_state_def)
    ultimately show ?thesis using Ids_Insert_queued [of h "sorted_state (contents s)" p] by simp
  qed
qed

lemma Ids_Remove_queued:
  assumes "ids_ok h s" "id_mode s = NoMode \<or> id_mode s = RemoveMode"
  shows "\<exists>s'. Ids_Remove h s p = Some s' \<and> ids_ok h s' \<and> contents s' = contents s - {#p#}"
  using assms by (auto simp: Ids_Remove.simps [of h s] ids_ok_def contents_def Let_def split: if_splits)

lemma Ids_Remove_contents:
  assumes "ids_ok h s"
  shows "\<exists>s'. Ids_Remove h s p = Some s' \<and> ids_ok h s' \<and> contents s' = contents s - {#p#}"
proof (cases "id_mode s = NoMode \<or> id_mode s = RemoveMode")
  case True
  with assms show ?thesis by (rule Ids_Remove_queued)
next
  case False
  from begin_update_ok [OF assms] obtain t u where t: "begin_update s = Some t" "ids_ok h t"
    "contents t = contents s" "id_mode t = UpdateMode" "id_updater t = Some u" "update_ok h u (id_edits t)"
    by blast
  obtain ok u' es' where up: "Update_Remove h u (id_edits t) p = (ok, u', es')" by (metis prod_cases3)
  show ?thesis
  proof (cases ok)
    case True
    then have upd: "update_ok h u' es'" "es' = id_edits t"
        "upd_removes u' = upd_removes u @ [p]" "p \<notin> set (id_edits t)"
      using up Update_Remove_ok [OF t(6), of p u' es'] by auto
    with False True t up upd show ?thesis
      by (auto simp: Ids_Remove.simps [of h s] ids_ok_def contents_def [of t] remove_before_insert
          contents_def [of "t\<lparr>id_edits := id_edits t, id_updater := Some u'\<rparr>"] contents_def [of "t\<lparr>id_updater := Some u'\<rparr>"])
  next
    case rejected: False
    have "Ids_Remove h s p = Ids_Remove h (sorted_state (contents s)) p"
      using False rejected t up Ids_Sort_contents [OF t(2)] by (simp add: Ids_Remove.simps [of h s])
    moreover have "id_mode (sorted_state (contents s)) = NoMode" by (simp add: sorted_state_def)
    ultimately show ?thesis using Ids_Remove_queued [of h "sorted_state (contents s)" p] by simp
  qed
qed

lemma GetIds_contents: "ids_ok h s \<Longrightarrow> GetIds s = Some (sorted_list_of_multiset (contents s), sorted_state (contents s))"
  by (simp add: GetIds_def Ids_Sort_contents) (simp add: sorted_state_def)

lemma Ids_Clear_contents: "Ids_Clear s = sorted_state {#}"
  by (cases s) (simp add: Ids_Clear_def sorted_state_def)

text \<open>On a sorted list a range is erased by position.\<close>

lemma Ids_RemoveRange_sorted:
  assumes "start \<le> Suc stop" "Suc stop \<le> size M"
  shows "Ids_RemoveRange (sorted_state M) start stop
    = Some (False, sorted_state (mset (take start (sorted_list_of_multiset M) @ drop (Suc stop) (sorted_list_of_multiset M))))"
proof -
  let ?ps = "sorted_list_of_multiset M"
  have len: "length ?ps = size M" by (metis mset_sorted_list_of_multiset size_mset)
  show ?thesis
  proof (cases "int stop - int start + 1 = int (size M)")
    case True
    with assms have "start = 0" "Suc stop = size M" by auto
    then have erased: "take start ?ps @ drop (Suc stop) ?ps = []" using len by simp
    show ?thesis
      unfolding erased using True len by (simp add: Ids_RemoveRange_def Ids_Clear_contents) (simp add: sorted_state_def Ids_Clear_def)
  next
    case False
    have "sorted (take start ?ps @ drop (Suc stop) ?ps)" using assms(1) by (intro sorted_erase) simp_all
    from sorted_list_unique [OF this refl] show ?thesis
      using False assms len by (simp add: Ids_RemoveRange_def Let_def sorted_state_def)
  qed
qed

section \<open>The contract of the container\<close>

text \<open>What the indices of prims rely on, and what follows from it for any client.\<close>

fun insert_all :: "('s \<Rightarrow> sdf_path \<Rightarrow> 's option) \<Rightarrow> 's \<Rightarrow> sdf_path list \<Rightarrow> 's option" where
  "insert_all ins s [] = Some s"
| "insert_all ins s (p # ps) = (case ins s p of None \<Rightarrow> None | Some s \<Rightarrow> insert_all ins s ps)"

locale id_container =
  fixes ok :: "'s \<Rightarrow> bool"
    and ids_in :: "'s \<Rightarrow> sdf_path multiset"
    and insert_id :: "'s \<Rightarrow> sdf_path \<Rightarrow> 's option"
    and remove_id :: "'s \<Rightarrow> sdf_path \<Rightarrow> 's option"
    and get_ids :: "'s \<Rightarrow> (sdf_path list \<times> 's) option"
  assumes insert_id: "ok s \<Longrightarrow> \<exists>s'. insert_id s p = Some s' \<and> ok s' \<and> ids_in s' = add_mset p (ids_in s)"
    and remove_id: "ok s \<Longrightarrow> \<exists>s'. remove_id s p = Some s' \<and> ok s' \<and> ids_in s' = ids_in s - {#p#}"
    and get_ids: "ok s \<Longrightarrow> \<exists>s'. get_ids s = Some (sorted_list_of_multiset (ids_in s), s') \<and> ok s' \<and> ids_in s' = ids_in s"
begin

lemma insert_all_ids:
  "ok s \<Longrightarrow> \<exists>s'. insert_all insert_id s ps = Some s' \<and> ok s' \<and> ids_in s' = ids_in s + mset ps"
proof (induction ps arbitrary: s)
  case (Cons p ps)
  from insert_id [OF Cons.prems, of p] obtain s1 where s1: "insert_id s p = Some s1" "ok s1"
    "ids_in s1 = add_mset p (ids_in s)" by blast
  from Cons.IH [OF s1(2)] s1 show ?case by auto
qed simp

text \<open>The list a client reads does not depend on the order of its insertions.\<close>

lemma insert_any_order:
  assumes "ok s" "mset ps = mset qs"
  shows "\<exists>s1 s2. insert_all insert_id s ps = Some s1 \<and> insert_all insert_id s qs = Some s2 \<and>
    map_option fst (get_ids s1) = Some (sorted_list_of_multiset (ids_in s + mset ps)) \<and>
    map_option fst (get_ids s2) = map_option fst (get_ids s1)"
proof -
  from insert_all_ids [OF assms(1), of ps] insert_all_ids [OF assms(1), of qs] obtain s1 s2 where
    s: "insert_all insert_id s ps = Some s1" "ok s1" "ids_in s1 = ids_in s + mset ps"
      "insert_all insert_id s qs = Some s2" "ok s2" "ids_in s2 = ids_in s + mset qs" by blast
  from get_ids [OF s(2)] get_ids [OF s(5)] s assms(2) show ?thesis by auto
qed

text \<open>A removal undoes the insertion before it.\<close>

lemma insert_remove:
  assumes "ok s"
  shows "\<exists>s1 s2. insert_id s p = Some s1 \<and> remove_id s1 p = Some s2 \<and> ok s2 \<and> ids_in s2 = ids_in s"
proof -
  from insert_id [OF assms, of p] obtain s1 where s1: "insert_id s p = Some s1" "ok s1"
    "ids_in s1 = add_mset p (ids_in s)" by blast
  from remove_id [OF s1(2), of p] s1 show ?thesis by auto
qed

end

interpretation sorted_container: id_container "ids_ok h" contents "Ids_Insert h" "Ids_Remove h" GetIds for h
  by unfold_locales (simp_all add: Ids_Insert_contents Ids_Remove_contents GetIds_contents)

section \<open>Sequences of operations\<close>

text \<open>
  What a client does to the container: a range is removed by the positions of the list it has
  just asked for.
\<close>

datatype ids_op =
    InsertId sdf_path
  | RemoveId sdf_path
  | RemoveIdRange nat nat
  | ClearIds
  | QueryIds

fun run_ids_op :: "(sdf_path \<Rightarrow> 64 word) \<Rightarrow> ids_op \<Rightarrow> sorted_ids \<Rightarrow> sorted_ids option" where
  "run_ids_op h (InsertId p) s = Ids_Insert h s p"
| "run_ids_op h (RemoveId p) s = Ids_Remove h s p"
| "run_ids_op h (RemoveIdRange start stop) s =
     (case GetIds s of None \<Rightarrow> None | Some (_, s) \<Rightarrow> map_option snd (Ids_RemoveRange s start stop))"
| "run_ids_op h ClearIds s = Some (Ids_Clear s)"
| "run_ids_op h QueryIds s = map_option snd (GetIds s)"

fun run_ids_ops :: "(sdf_path \<Rightarrow> 64 word) \<Rightarrow> ids_op list \<Rightarrow> sorted_ids \<Rightarrow> sorted_ids option" where
  "run_ids_ops h [] s = Some s"
| "run_ids_ops h (x # xs) s = (case run_ids_op h x s of None \<Rightarrow> None | Some s \<Rightarrow> run_ids_ops h xs s)"

text \<open>The specification: a multiset of paths, read in order.\<close>

fun spec_ids_op :: "ids_op \<Rightarrow> sdf_path multiset \<Rightarrow> sdf_path multiset option" where
  "spec_ids_op (InsertId p) M = Some (add_mset p M)"
| "spec_ids_op (RemoveId p) M = Some (M - {#p#})"
| "spec_ids_op (RemoveIdRange start stop) M =
     (if start \<le> Suc stop \<and> Suc stop \<le> size M
      then Some (mset (take start (sorted_list_of_multiset M) @ drop (Suc stop) (sorted_list_of_multiset M)))
      else None)"
| "spec_ids_op ClearIds M = Some {#}"
| "spec_ids_op QueryIds M = Some M"

fun spec_ids_ops :: "ids_op list \<Rightarrow> sdf_path multiset \<Rightarrow> sdf_path multiset option" where
  "spec_ids_ops [] M = Some M"
| "spec_ids_ops (x # xs) M = (case spec_ids_op x M of None \<Rightarrow> None | Some M \<Rightarrow> spec_ids_ops xs M)"

lemma run_ids_op_refines:
  "ids_ok h s \<Longrightarrow> spec_ids_op x (contents s) = Some M \<Longrightarrow>
   \<exists>s'. run_ids_op h x s = Some s' \<and> ids_ok h s' \<and> contents s' = M"
  using Ids_Insert_contents [of h s] Ids_Remove_contents [of h s] GetIds_contents [of h s]
    Ids_RemoveRange_sorted [of _ _ "contents s"]
  by (cases x) (auto simp: Ids_Clear_contents split: if_splits)

lemma run_ids_ops_refines:
  "ids_ok h s \<Longrightarrow> spec_ids_ops xs (contents s) = Some M \<Longrightarrow>
   \<exists>s'. run_ids_ops h xs s = Some s' \<and> ids_ok h s' \<and> contents s' = M"
proof (induction xs arbitrary: s)
  case (Cons x xs)
  then obtain M1 where M1: "spec_ids_op x (contents s) = Some M1" "spec_ids_ops xs M1 = Some M"
    by (auto split: option.splits)
  with run_ids_op_refines [OF Cons.prems(1) M1(1)] Cons.IH show ?case by fastforce
qed simp

lemma empty_ids_ok: "empty_ids = sorted_state {#}"
  by (simp add: empty_ids_def sorted_state_def)


definition sample_ids_ops :: "ids_op list" where
  "sample_ids_ops =
     [InsertId (abs_prim [''B'']), InsertId (abs_prim [''A'']), RemoveId (abs_prim [''C'']),
      InsertId (abs_prim [''C'']), RemoveId (abs_prim [''B'']), InsertId (abs_prim [''A'']),
      RemoveIdRange 1 1]"

lemma abs_prim_less [simp]: "abs_prim ms < abs_prim ns \<longleftrightarrow> map PrimNode ms < map PrimNode ns"
  by (simp add: abs_prim_def less_path_lex path_queries)

lemma abs_prim_le [simp]: "abs_prim ms \<le> abs_prim ns \<longleftrightarrow> map PrimNode ms \<le> map PrimNode ns"
  by (metis abs_prim_less not_less)

lemma abs_prim_inject [simp]: "abs_prim ms = abs_prim ns \<longleftrightarrow> ms = ns"
  by (auto simp: abs_prim_def inj_map_eq_map inj_def)

lemma spec_sample_ids_ops: "spec_ids_ops sample_ids_ops {#} = Some {#abs_prim [''A''], abs_prim [''C'']#}"
  by (simp add: sample_ids_ops_def less_prim_node_inst)


text \<open>
  \<open>RemoveRange\<close> only refuses to run when there are edits. Removals that wait in the updater are
  not edits: here the range is erased and the id that waits is then no longer found.
\<close>

lemma RemoveRange_unsorted:
  "\<exists>s. run_ids_ops (\<lambda>_. 0) [InsertId (abs_prim [''A'']), InsertId (abs_prim [''B'']), RemoveId (abs_prim [''A''])]
       empty_ids = Some s \<and> contents s \<noteq> mset (id_list s) \<and>
     (case Ids_RemoveRange s 0 0 of None \<Rightarrow> False | Some (err, s) \<Rightarrow>
        \<not> err \<and> contents s = {#abs_prim [''B'']#})"
proof -
  let ?a = "abs_prim [''A'']" and ?b = "abs_prim [''B'']"
  have "Ids_Sort \<lparr>id_list = [], id_edits = [?a, ?b], id_mode = InsertMode, id_updater = None\<rparr>
      = Some (sorted_state {#?a, ?b#})"
    by (subst Ids_Sort_contents [of "\<lambda>_. 0"]) (simp_all add: ids_ok_def contents_def)
  then have "run_ids_ops (\<lambda>_. 0) [InsertId ?a, InsertId ?b, RemoveId ?a] empty_ids =
      Some \<lparr>id_list = [?a, ?b], id_edits = [], id_mode = UpdateMode, id_updater =
        Some (new_update\<lparr>upd_removes := [?a], upd_removesBloom := Bloom_Insert (\<lambda>_. 0) ?a empty_bloom\<rparr>)\<rparr>"
    by (simp add: empty_ids_def Ids_Insert.simps Ids_Remove.simps begin_update_def sorted_state_def
        Update_Remove_def new_update_def Bloom_IsFull_def empty_bloom_def bloom_capacity_def less_prim_node_inst)
  then show ?thesis
    by (simp add: contents_def Ids_RemoveRange_def new_update_def)
qed

end
