(* ===== verification/Hd_PrimGather.thy ===== *)
theory Hd_PrimGather
  imports Sdf_PathSearch "HOL-Library.Multiset"
begin

text \<open>
  The gathering of ids by include and exclude paths (\<open>pxr/imaging/hd/primGather.cpp\<close>). Ranges are
  pairs of inclusive positions. The vector of filters is kept in the order of the code, its top at
  the back; the stack of ranges of \<open>_FilterRange\<close> has its top at the front. The result is \<open>None\<close>
  where the code would read outside of the vector of paths. The predicate is an argument; the tasks
  of the parallel loops are an explicit sequence of steps.
\<close>

section \<open>State\<close>

type_synonym id_range = "nat \<times> nat"

record path_filter =
  filter_path :: sdf_path
  filter_include :: bool

record prim_gather =
  filter_list :: "path_filter list"
  gathered_ranges :: "id_range list"
  result_ranges :: "(nat \<times> id_range list) list"

definition new_gather :: prim_gather where
  "new_gather = \<lparr>filter_list = [], gathered_ranges = [], result_ranges = []\<rparr>"

definition greater_filter :: "path_filter \<Rightarrow> path_filter \<Rightarrow> bool" where
  "greater_filter f g \<longleftrightarrow> filter_path g < filter_path f"

definition size_t_pred :: "nat \<Rightarrow> nat" where
  "size_t_pred n = (n + (2 ^ 64 - 1)) mod 2 ^ 64"

section \<open>Filtering ranges\<close>

definition FindLowerBound :: "sdf_path list \<Rightarrow> nat \<Rightarrow> nat \<Rightarrow> sdf_path \<Rightarrow> nat" where
  "FindLowerBound paths start stop path =
     partition_point_loop (\<lambda>testPath. testPath < path) paths start (stop - start)"

definition FindUpperBound :: "sdf_path list \<Rightarrow> nat \<Rightarrow> nat \<Rightarrow> sdf_path \<Rightarrow> nat" where
  "FindUpperBound paths start stop path =
     (if HasPrefix (paths ! stop) path then stop
      else size_t_pred
        (partition_point_loop (\<lambda>testPath. HasPrefix testPath path) paths start (stop - start)))"

text \<open>The ranges that replace a range hit by a filter, the next one to process first.\<close>

definition split_ranges ::
    "sdf_path list \<Rightarrow> sdf_path \<Rightarrow> nat \<Rightarrow> nat \<Rightarrow> bool \<Rightarrow> (id_range \<times> bool) list" where
  "split_ranges paths path start stop isIncludeRange =
     (let lowerBound = FindLowerBound paths start stop path;
          upperBound = FindUpperBound paths lowerBound stop path
      in (if start < lowerBound then [((start, lowerBound - 1), isIncludeRange)] else [])
       @ [((lowerBound, upperBound), \<not> isIncludeRange)]
       @ (if upperBound < stop then [((upperBound + 1, stop), isIncludeRange)] else []))"

lemma length_butlast_less: "xs \<noteq> [] \<Longrightarrow> length (butlast xs) < length xs"
  by simp

function filter_ranges ::
    "sdf_path list \<Rightarrow> path_filter list \<Rightarrow> (id_range \<times> bool) list \<Rightarrow> id_range list \<Rightarrow>
     (path_filter list \<times> id_range list) option" where
  "filter_ranges paths filters [] gathered = Some (filters, gathered)"
| "filter_ranges paths filters (((start, stop), isIncludeRange) # ranges) gathered =
     (if filters = []
      then filter_ranges paths filters ranges
             (if isIncludeRange then gathered @ [(start, stop)] else gathered)
      else if length paths \<le> stop then None
      else
        let currentFilter = last filters in
        if paths ! stop < filter_path currentFilter
        then filter_ranges paths filters ranges
               (if isIncludeRange then gathered @ [(start, stop)] else gathered)
        else if stop < start then None
        else if filter_include currentFilter = isIncludeRange \<or>
            (filter_path currentFilter < paths ! start \<and>
             \<not> HasPrefix (paths ! start) (filter_path currentFilter))
        then filter_ranges paths (butlast filters) (((start, stop), isIncludeRange) # ranges) gathered
        else filter_ranges paths (butlast filters)
               (split_ranges paths (filter_path currentFilter) start stop isIncludeRange @ ranges) gathered)"
  by pat_completeness auto
termination
  by (relation "inv_image (less_than <*lex*> less_than) (\<lambda>(ps, fs, rs, gs). (length fs, length rs))") auto

declare filter_ranges.simps [simp del]

definition FilterRange :: "prim_gather \<Rightarrow> sdf_path list \<Rightarrow> nat \<Rightarrow> nat \<Rightarrow> bool \<Rightarrow> prim_gather option" where
  "FilterRange g paths start stop isIncludeRange =
     (case filter_ranges paths (filter_list g) [((start, stop), isIncludeRange)] (gathered_ranges g) of
        None \<Rightarrow> None
      | Some (filters, gathered) \<Rightarrow> Some (g\<lparr>filter_list := filters, gathered_ranges := gathered\<rparr>))"

definition SetupFilter :: "prim_gather \<Rightarrow> sdf_path list \<Rightarrow> sdf_path list \<Rightarrow> prim_gather" where
  "SetupFilter g includePaths excludePaths =
     g\<lparr>filter_list := std_sort greater_filter
         (map (\<lambda>p. \<lparr>filter_path = p, filter_include = True\<rparr>) includePaths
          @ map (\<lambda>p. \<lparr>filter_path = p, filter_include = False\<rparr>) excludePaths)\<rparr>"

definition GatherPaths :: "prim_gather \<Rightarrow> sdf_path list \<Rightarrow> prim_gather option" where
  "GatherPaths g paths =
     (let g = g\<lparr>gathered_ranges := []\<rparr> in
      if paths = [] then Some g
      else if length (filter_list g) = 1 \<and> filter_include (filter_list g ! 0)
        \<and> filter_path (filter_list g ! 0) = AbsoluteRootPath
      then Some (g\<lparr>gathered_ranges := [(0, length paths - 1)]\<rparr>)
      else FilterRange g paths 0 (length paths - 1) False)"

definition range_slice :: "sdf_path list \<Rightarrow> id_range \<Rightarrow> sdf_path list" where
  "range_slice paths r = take (snd r + 1 - fst r) (drop (fst r) paths)"

definition WriteResults :: "sdf_path list \<Rightarrow> id_range list \<Rightarrow> sdf_path list" where
  "WriteResults paths ranges = concat (map (range_slice paths) ranges)"

definition Gather_Filter ::
    "prim_gather \<Rightarrow> sdf_path list \<Rightarrow> sdf_path list \<Rightarrow> sdf_path list \<Rightarrow> (prim_gather \<times> sdf_path list) option" where
  "Gather_Filter g paths includePaths excludePaths =
     (case GatherPaths (SetupFilter g includePaths excludePaths) paths of
        None \<Rightarrow> None
      | Some g \<Rightarrow> Some (g, WriteResults paths (gathered_ranges g)))"

section \<open>Subtrees\<close>

definition FilterSubTree :: "prim_gather \<Rightarrow> sdf_path list \<Rightarrow> sdf_path \<Rightarrow> prim_gather option" where
  "FilterSubTree g paths rootPath =
     (if paths = [] then Some g
      else FilterRange (g\<lparr>filter_list := [\<lparr>filter_path = rootPath, filter_include = True\<rparr>]\<rparr>)
        paths 0 (length paths - 1) False)"

definition Gather_Subtree ::
    "prim_gather \<Rightarrow> sdf_path list \<Rightarrow> sdf_path \<Rightarrow> (prim_gather \<times> sdf_path list) option" where
  "Gather_Subtree g paths rootPath =
     (case FilterSubTree g paths rootPath of
        None \<Rightarrow> None
      | Some g \<Rightarrow> Some (g, WriteResults paths (gathered_ranges g)))"

text \<open>\<open>SeveralRanges\<close> is the coding error; like \<open>NoRange\<close> it returns false.\<close>

datatype subtree_result = NoRange | SeveralRanges | OneRange nat nat

definition SubtreeAsRange ::
    "prim_gather \<Rightarrow> sdf_path list \<Rightarrow> sdf_path \<Rightarrow> (prim_gather \<times> subtree_result) option" where
  "SubtreeAsRange g paths rootPath =
     (case FilterSubTree g paths rootPath of
        None \<Rightarrow> None
      | Some g \<Rightarrow> Some (g,
          if gathered_ranges g = [] then NoRange
          else if length (gathered_ranges g) > 1 then SeveralRanges
          else OneRange (fst (gathered_ranges g ! 0)) (snd (gathered_ranges g ! 0))))"

section \<open>Testing a predicate in parallel\<close>

definition min_ranges_for_parallel :: nat where "min_ranges_for_parallel = 10"
definition min_entries_for_parallel :: nat where "min_entries_for_parallel = 10"

fun predicate_loop ::
    "(sdf_path \<Rightarrow> bool) \<Rightarrow> sdf_path list \<Rightarrow> nat list \<Rightarrow> nat \<Rightarrow> id_range list \<Rightarrow> nat \<times> id_range list" where
  "predicate_loop predicateFn paths [] currentStart rs = (currentStart, rs)"
| "predicate_loop predicateFn paths (pathIdx # idxs) currentStart rs =
     (if \<not> predicateFn (paths ! pathIdx)
      then predicate_loop predicateFn paths idxs (pathIdx + 1)
             (if currentStart < pathIdx then rs @ [(currentStart, pathIdx - 1)] else rs)
      else predicate_loop predicateFn paths idxs currentStart rs)"

text \<open>The ranges a task adds to those of its thread.\<close>

definition DoPredicateTestOnPrims :: "(sdf_path \<Rightarrow> bool) \<Rightarrow> sdf_path list \<Rightarrow> id_range \<Rightarrow> id_range list" where
  "DoPredicateTestOnPrims predicateFn paths block =
     (let (start, stop) = block;
          (currentStart, rs) = predicate_loop predicateFn paths [start..<stop + 1] start []
      in if currentStart \<le> stop then rs @ [(currentStart, stop)] else rs)"

text \<open>\<open>_resultRanges.local()\<close>: a thread's own array, created the first time it asks for it.\<close>

fun local_append :: "nat \<Rightarrow> id_range list \<Rightarrow> (nat \<times> id_range list) list \<Rightarrow> (nat \<times> id_range list) list" where
  "local_append thread rs [] = [(thread, rs)]"
| "local_append thread rs ((t, xs) # arrays) =
     (if t = thread then (t, xs @ rs) # arrays else (t, xs) # local_append thread rs arrays)"

text \<open>
  A step is a task that tests the prims of a block of a gathered range on some thread. A range of
  more than ten entries is split into blocks by \<open>tbb::parallel_for\<close>, otherwise it is one block; the
  ranges run one after the other unless there are more than ten of them.
\<close>

record test_step =
  step_range :: nat
  step_thread :: nat
  step_block :: id_range

definition admissible_blocks :: "id_range \<Rightarrow> id_range list \<Rightarrow> bool" where
  "admissible_blocks r blocks =
     (if snd r + 1 - fst r > min_entries_for_parallel
      then list_all (\<lambda>b. fst b \<le> snd b) blocks \<and>
        mset (concat (map (\<lambda>b. [fst b..<snd b + 1]) blocks)) = mset [fst r..<snd r + 1]
      else blocks = [r])"

definition range_blocks :: "test_step list \<Rightarrow> nat \<Rightarrow> id_range list" where
  "range_blocks steps rangeNum = map step_block (filter (\<lambda>t. step_range t = rangeNum) steps)"

definition admissible_steps :: "id_range list \<Rightarrow> test_step list \<Rightarrow> bool" where
  "admissible_steps ranges steps \<longleftrightarrow>
     list_all (\<lambda>t. step_range t < length ranges) steps \<and>
     list_all (\<lambda>k. admissible_blocks (ranges ! k) (range_blocks steps k)) [0..<length ranges] \<and>
     (length ranges > min_ranges_for_parallel \<or> sorted (map step_range steps))"

definition run_test_step ::
    "(sdf_path \<Rightarrow> bool) \<Rightarrow> sdf_path list \<Rightarrow> (nat \<times> id_range list) list \<Rightarrow> test_step \<Rightarrow> (nat \<times> id_range list) list" where
  "run_test_step predicateFn paths arrays t =
     local_append (step_thread t) (DoPredicateTestOnPrims predicateFn paths (step_block t)) arrays"

definition Gather_PredicatedFilter ::
    "prim_gather \<Rightarrow> sdf_path list \<Rightarrow> sdf_path list \<Rightarrow> sdf_path list \<Rightarrow> (sdf_path \<Rightarrow> bool) \<Rightarrow>
     (id_range list \<Rightarrow> test_step list) \<Rightarrow> (prim_gather \<times> sdf_path list) option" where
  "Gather_PredicatedFilter g paths includePaths excludePaths predicateFn schedule =
     (case GatherPaths (SetupFilter g includePaths excludePaths) paths of
        None \<Rightarrow> None
      | Some g \<Rightarrow>
          let g = g\<lparr>result_ranges := foldl (run_test_step predicateFn paths) (result_ranges g)
                      (schedule (gathered_ranges g))\<rparr>
          in Some (g, WriteResults paths (concat (map snd (result_ranges g)))))"

section \<open>The bounds of a subtree\<close>

lemma size_t_pred_Suc: "0 < n \<Longrightarrow> n < 2 ^ 64 \<Longrightarrow> size_t_pred n = n - 1"
  by (simp add: size_t_pred_def mod_if)

lemma sorted_nth_le: "sorted ps \<Longrightarrow> i \<le> j \<Longrightarrow> j < length ps \<Longrightarrow> ps ! i \<le> ps ! j" for ps :: "sdf_path list"
  by (simp add: sorted_iff_nth_mono)

lemma prefix_le: "HasPrefix p f \<Longrightarrow> f \<le> p"
  using paths.prefix_less [of p f] by fastforce

lemma prefix_between: "HasPrefix p f \<Longrightarrow> f \<le> q \<Longrightarrow> q \<le> p \<Longrightarrow> HasPrefix q f"
  using paths.prefix_convex [of p f q] paths.prefix_refl [of f] paths.prefix_valid [of p f]
  by (auto simp: order.order_iff_strict)

lemma FindLowerBound_bounds:
  assumes "sorted ps" "start \<le> stop" "stop < length ps" "f \<le> ps ! stop"
    and "lo = FindLowerBound ps start stop f"
  shows "start \<le> lo" "lo \<le> stop"
    and "\<And>i. start \<le> i \<Longrightarrow> i < lo \<Longrightarrow> ps ! i < f"
    and "\<And>i. lo \<le> i \<Longrightarrow> i \<le> stop \<Longrightarrow> f \<le> ps ! i"
proof -
  let ?K = "{i. start \<le> i \<and> i \<le> stop \<and> f \<le> ps ! i}"
  define k where "k = (LEAST i. i \<in> ?K)"
  have "stop \<in> ?K" using assms by simp
  then have k: "k \<in> ?K" unfolding k_def by (rule LeastI)
  have below: "ps ! i < f" if "start \<le> i" "i < k" for i
  proof (rule ccontr)
    assume "\<not> ps ! i < f"
    with that k have "i \<in> ?K" by auto
    then have "k \<le> i" unfolding k_def by (rule Least_le)
    with that show False by simp
  qed
  have above: "f \<le> ps ! i" if "k \<le> i" "i \<le> stop" for i
    using sorted_nth_le [OF assms(1) that(1)] that(2) assms(3) k by (auto intro: order.trans)
  have "ps ! i < f \<longleftrightarrow> i < k" if "start \<le> i" "i < start + (stop - start)" for i
    using below [of i] above [of i] that k by (cases "i < k") auto
  then have "lo = k" unfolding assms(5) FindLowerBound_def
    using k by (intro partition_point_loop_correct) auto
  with k below above show "start \<le> lo" "lo \<le> stop" "\<And>i. start \<le> i \<Longrightarrow> i < lo \<Longrightarrow> ps ! i < f"
    "\<And>i. lo \<le> i \<Longrightarrow> i \<le> stop \<Longrightarrow> f \<le> ps ! i" by auto
qed

lemma FindUpperBound_bounds:
  assumes "sorted ps" "lo \<le> stop" "stop < length ps" "length ps < 2 ^ 64"
    and "\<And>i. lo \<le> i \<Longrightarrow> i \<le> stop \<Longrightarrow> f \<le> ps ! i"
    and "lo = 0 \<Longrightarrow> HasPrefix (ps ! lo) f"
    and "up = FindUpperBound ps lo stop f"
  shows "lo \<le> up + 1" "up \<le> stop"
    and "\<And>i. lo \<le> i \<Longrightarrow> i \<le> up \<Longrightarrow> HasPrefix (ps ! i) f"
    and "\<And>i. up < i \<Longrightarrow> i \<le> stop \<Longrightarrow> \<not> HasPrefix (ps ! i) f"
proof -
  have down: "HasPrefix (ps ! i) f" if "lo \<le> i" "i \<le> j" "j \<le> stop" "HasPrefix (ps ! j) f" for i j
    using that assms(3) sorted_nth_le [OF assms(1) that(2)] assms(5)
    by (intro prefix_between [OF that(4)]) auto
  have "lo \<le> up + 1 \<and> up \<le> stop \<and> (\<forall>i. lo \<le> i \<and> i \<le> up \<longrightarrow> HasPrefix (ps ! i) f)
    \<and> (\<forall>i. up < i \<and> i \<le> stop \<longrightarrow> \<not> HasPrefix (ps ! i) f)"
  proof (cases "HasPrefix (ps ! stop) f")
    case True
    then have "up = stop" using assms(7) by (simp add: FindUpperBound_def)
    with True down assms(2) show ?thesis by auto
  next
    case False
    let ?K = "{i. lo \<le> i \<and> i \<le> stop \<and> \<not> HasPrefix (ps ! i) f}"
    define k where "k = (LEAST i. i \<in> ?K)"
    have "stop \<in> ?K" using False assms(2) by simp
    then have k: "k \<in> ?K" unfolding k_def by (rule LeastI)
    have below: "HasPrefix (ps ! i) f" if "lo \<le> i" "i < k" for i
    proof (rule ccontr)
      assume "\<not> HasPrefix (ps ! i) f"
      with that k have "i \<in> ?K" by auto
      then have "k \<le> i" unfolding k_def by (rule Least_le)
      with that show False by simp
    qed
    have above: "\<not> HasPrefix (ps ! i) f" if "k \<le> i" "i \<le> stop" for i
      using down [of k i] that k by auto
    have "HasPrefix (ps ! i) f \<longleftrightarrow> i < k" if "lo \<le> i" "i < lo + (stop - lo)" for i
      using below [of i] above [of i] that k by (cases "i < k") auto
    then have "partition_point_loop (\<lambda>p. HasPrefix p f) ps lo (stop - lo) = k"
      using k by (intro partition_point_loop_correct) auto
    moreover have "0 < k" using k assms(6) by (cases k) auto
    ultimately have "up = k - 1"
      using assms(3,4,7) False k by (simp add: FindUpperBound_def size_t_pred_Suc)
    with \<open>0 < k\<close> k below above show ?thesis by auto
  qed
  then show "lo \<le> up + 1" "up \<le> stop" "\<And>i. lo \<le> i \<Longrightarrow> i \<le> up \<Longrightarrow> HasPrefix (ps ! i) f"
    "\<And>i. up < i \<Longrightarrow> i \<le> stop \<Longrightarrow> \<not> HasPrefix (ps ! i) f" by auto
qed

lemma range_slice_nth: "stop < length ps \<Longrightarrow> range_slice ps (start, stop) = map ((!) ps) [start..<Suc stop]"
  by (rule nth_equalityI) (auto simp: range_slice_def min_def simp del: upt_Suc split: if_splits)

lemma range_slice_empty [simp]: "stop < start \<Longrightarrow> range_slice ps (start, stop) = []"
  by (simp add: range_slice_def)

section \<open>What the filters leave of a range\<close>

text \<open>The filters that apply to a path, from the shortest prefix to the longest: the last one wins.\<close>

fun filter_status :: "path_filter list \<Rightarrow> bool \<Rightarrow> sdf_path \<Rightarrow> bool" where
  "filter_status [] b p = b"
| "filter_status (f # fs) b p = filter_status fs (if HasPrefix p (filter_path f) then filter_include f else b) p"

lemma filter_status_none:
  "\<forall>f \<in> set fs. \<not> HasPrefix p (filter_path f) \<Longrightarrow> filter_status fs b p = b"
  by (induction fs) auto

definition range_ok :: "sdf_path list \<Rightarrow> path_filter list \<Rightarrow> id_range \<times> bool \<Rightarrow> bool" where
  "range_ok ps fs R \<longleftrightarrow> (case R of ((start, stop), b) \<Rightarrow> stop < length ps \<and>
     (start \<le> stop \<or> start = Suc stop \<and> (\<forall>f \<in> set fs. ps ! stop < filter_path f)))"

text \<open>A filter that is consumed by a range hits nothing of the ranges after it.\<close>

definition range_before :: "sdf_path list \<Rightarrow> path_filter list \<Rightarrow> id_range \<times> bool \<Rightarrow> id_range \<times> bool \<Rightarrow> bool" where
  "range_before ps fs R S \<longleftrightarrow> (\<forall>f \<in> set fs. filter_path f \<le> ps ! snd (fst R) \<longrightarrow>
     (\<forall>p \<in> set (range_slice ps (fst S)). \<not> HasPrefix p (filter_path f)))"

definition filter_inv :: "sdf_path list \<Rightarrow> path_filter list \<Rightarrow> (id_range \<times> bool) list \<Rightarrow> bool" where
  "filter_inv ps fs ranges \<longleftrightarrow>
     sorted_wrt (\<lambda>f g. filter_path f \<le> filter_path g) fs \<and>
     (\<forall>R \<in> set ranges. range_ok ps fs R) \<and> sorted_wrt (range_before ps fs) ranges"

definition range_result :: "sdf_path list \<Rightarrow> path_filter list \<Rightarrow> id_range \<times> bool \<Rightarrow> sdf_path list" where
  "range_result ps fs R = filter (filter_status fs (snd R)) (range_slice ps (fst R))"

lemma filter_inv_less: "filter_inv ps (f # fs) ranges \<Longrightarrow> filter_inv ps fs ranges"
  by (auto simp: filter_inv_def range_ok_def range_before_def split: prod.splits
      elim!: sorted_wrt_mono_rel [rotated])

lemma filter_inv_pop: "filter_inv ps fs (R # ranges) \<Longrightarrow> filter_inv ps fs ranges"
  by (auto simp: filter_inv_def)

lemma range_result_missed:
  "\<forall>p \<in> set (range_slice ps (fst R)). \<not> HasPrefix p (filter_path f) \<Longrightarrow>
   range_result ps (f # fs) R = range_result ps fs R"
  by (auto simp: range_result_def intro: filter_cong)

lemma range_result_noop:
  "filter_include f = snd R \<Longrightarrow> range_result ps (f # fs) R = range_result ps fs R"
  by (auto simp: range_result_def intro!: filter_cong) metis+

lemma upt_split: "i \<le> j \<Longrightarrow> j \<le> k \<Longrightarrow> [i..<k] = [i..<j] @ [j..<k]"
  using upt_add_eq_append [of i j "k - j"] by simp

lemma range_result_filter:
  "stop < length ps \<Longrightarrow>
   range_result ps fs ((start, stop), b) = filter (filter_status fs b) (map ((!) ps) [start..<Suc stop])"
  by (simp add: range_result_def range_slice_nth del: upt_Suc)

lemma filter_status_missed_range:
  "\<forall>i \<in> set idxs. \<not> HasPrefix (ps ! i) (filter_path f) \<Longrightarrow>
   filter (filter_status (f # fs) b) (map ((!) ps) idxs) = filter (filter_status fs b) (map ((!) ps) idxs)"
  by (rule filter_cong) auto

lemma filter_status_hit_range:
  "\<forall>i \<in> set idxs. HasPrefix (ps ! i) (filter_path f) \<Longrightarrow>
   filter (filter_status (f # fs) b) (map ((!) ps) idxs)
   = filter (filter_status fs (filter_include f)) (map ((!) ps) idxs)"
  by (rule filter_cong) auto

text \<open>A filter between the first and the last path of a range splits it in three.\<close>

lemma split_ranges_result:
  assumes ps: "sorted ps" "length ps < 2 ^ 64" "list_all (\<lambda>p. \<not> IsEmpty p) ps"
    and inv: "filter_inv ps (f # fs) (((start, stop), b) # ranges)"
    and hit: "filter_path f \<le> ps ! stop" "start \<le> stop" "filter_include f \<noteq> b"
    and not_before: "filter_path f < ps ! start \<longrightarrow> HasPrefix (ps ! start) (filter_path f)"
  defines "new \<equiv> split_ranges ps (filter_path f) start stop b"
  shows "concat (map (range_result ps fs) new) = range_result ps (f # fs) ((start, stop), b)"
    and "filter_inv ps fs (new @ ranges)"
proof -
  let ?f = "filter_path f"
  have stop: "stop < length ps" using inv by (simp add: filter_inv_def range_ok_def)
  define lo where "lo = FindLowerBound ps start stop ?f"
  define up where "up = FindUpperBound ps lo stop ?f"
  note low = FindLowerBound_bounds [OF ps(1) hit(2) stop hit(1) lo_def]
  have first: "HasPrefix (ps ! lo) ?f" if "lo = start"
  proof -
    have "?f \<le> ps ! start" using low(4) [of start] hit(2) that by simp
    moreover have "\<not> IsEmpty (ps ! start)" using ps(3) stop hit(2) by (simp add: list_all_length)
    ultimately show ?thesis using not_before that paths.prefix_refl [of "ps ! start"]
      by (cases "?f = ps ! start") auto
  qed
  have "HasPrefix (ps ! lo) ?f" if "lo = 0" using first low(1) that by simp
  note high = FindUpperBound_bounds [OF ps(1) low(2) stop ps(2) low(4) this up_def]
  let ?A = "if start < lo then [((start, lo - 1), b)] else []"
  let ?B = "((lo, up), \<not> b)"
  let ?C = "if up < stop then [((Suc up, stop), b)] else []"
  have new: "new = ?A @ ?B # ?C"
    by (simp add: new_def split_ranges_def Let_def lo_def [symmetric] up_def [symmetric])
  have before: "\<not> HasPrefix (ps ! i) ?f" if "start \<le> i" "i < lo" for i
    using low(3) [OF that] prefix_le by fastforce
  have idxs: "[start..<Suc stop] = [start..<lo] @ [lo..<Suc up] @ [Suc up..<Suc stop]"
  proof -
    have "[lo..<Suc stop] = [lo..<Suc up] @ [Suc up..<Suc stop]"
      using high(1,2) by (intro upt_split) auto
    then show ?thesis using low(1,2) upt_split [of start lo "Suc stop"] by simp
  qed
  have A: "concat (map (range_result ps fs) ?A) = filter (filter_status (f # fs) b) (map ((!) ps) [start..<lo])"
    using before low(2) stop
    by (subst filter_status_missed_range) (auto simp: range_result_filter simp del: upt_Suc)
  have B: "range_result ps fs ?B = filter (filter_status (f # fs) b) (map ((!) ps) [lo..<Suc up])"
    using high(2,3) stop hit(3)
    by (subst filter_status_hit_range) (auto simp: range_result_filter simp del: upt_Suc)
  have C: "concat (map (range_result ps fs) ?C) = filter (filter_status (f # fs) b) (map ((!) ps) [Suc up..<Suc stop])"
    using high(2,4) stop
    by (subst filter_status_missed_range) (auto simp: range_result_filter simp del: upt_Suc)
  show "concat (map (range_result ps fs) new) = range_result ps (f # fs) ((start, stop), b)"
    unfolding new range_result_filter [OF stop] idxs using A B C by (simp del: upt_Suc filter_status.simps)
  have later: "?f \<le> filter_path g" if "g \<in> set fs" for g
    using inv that by (simp add: filter_inv_def)
  have A_before: "range_before ps fs ((start, lo - 1), b) S" if "start < lo" for S
    using low(3) [of "lo - 1"] later that by (fastforce simp: range_before_def)
  have B_before_C: "range_before ps fs ?B ((Suc up, stop), b)"
    unfolding range_before_def
  proof (intro ballI impI notI)
    fix g p
    assume g: "g \<in> set fs" "filter_path g \<le> ps ! snd (fst ?B)"
      and p: "p \<in> set (range_slice ps (fst ((Suc up, stop), b)))" "HasPrefix p (filter_path g)"
    from p(1) stop obtain i where i: "p = ps ! i" "up < i" "i \<le> stop"
      by (auto simp: range_slice_nth simp del: upt_Suc)
    have "lo \<le> up"
    proof (rule ccontr)
      assume "\<not> lo \<le> up"
      then have "lo = Suc up" using high(1) by simp
      moreover from this first high(4) [of lo] low(2) have "lo \<noteq> start" by auto
      ultimately have "ps ! up < ?f" using low(1) low(3) [of up] by simp
      with g later show False by force
    qed
    then have "HasPrefix (ps ! up) ?f" using high(3) by simp
    from prefix_between [OF this later [OF g(1)]] g(2) have "HasPrefix (filter_path g) ?f" by simp
    then have "HasPrefix p ?f" using p(2) paths.prefix_trans by blast
    with high(4) [of i] i show False by simp
  qed
  have tail_before: "range_before ps fs ((i, j), c) S" if "j \<le> stop" "S \<in> set ranges" for i j c S
    using inv that sorted_nth_le [OF ps(1) that(1) stop]
    by (auto simp: filter_inv_def range_before_def intro: order.trans)
  have ok_B: "range_ok ps fs ?B"
  proof -
    have "?f \<le> filter_path g \<and> ps ! up < ?f" if "lo = Suc up" "g \<in> set fs" for g
    proof -
      from that first high(4) [of lo] low(2) have "lo \<noteq> start" by auto
      with that low(1) low(3) [of up] later show ?thesis by simp
    qed
    then show ?thesis using high(1,2) stop by (force simp: range_ok_def)
  qed
  have rest: "filter_inv ps fs ranges" by (rule filter_inv_pop [OF filter_inv_less [OF inv]])
  have "range_ok ps fs R" if "R \<in> set ?A \<union> set ?C" for R
    using that low(2) stop by (auto simp: range_ok_def split: if_splits)
  then have "\<forall>R \<in> set (new @ ranges). range_ok ps fs R"
    using rest ok_B unfolding new filter_inv_def by auto
  moreover have "sorted_wrt (range_before ps fs) (new @ ranges)"
    using rest A_before B_before_C tail_before high(2) unfolding new
    by (auto simp: sorted_wrt_append filter_inv_def)
  ultimately show "filter_inv ps fs (new @ ranges)" using rest by (simp add: filter_inv_def)
qed

definition valid_range :: "sdf_path list \<Rightarrow> id_range \<Rightarrow> bool" where
  "valid_range ps r \<longleftrightarrow> snd r < length ps \<and> fst r \<le> Suc (snd r)"

lemma range_ok_valid: "range_ok ps fs (r, b) \<Longrightarrow> valid_range ps r"
  by (auto simp: range_ok_def valid_range_def split: prod.splits)

lemma range_result_past:
  assumes "sorted ps" "filter_inv ps (f # fs) (R # ranges)" "ps ! snd (fst R) < filter_path f"
  shows "range_result ps (f # fs) R = (if snd R then range_slice ps (fst R) else [])"
proof -
  obtain start stop b where R: "R = ((start, stop), b)" by (metis surj_pair)
  have stop: "stop < length ps" using assms(2) R by (simp add: filter_inv_def range_ok_def)
  have "\<not> HasPrefix (ps ! i) (filter_path g)" if "g \<in> set (f # fs)" "i \<le> stop" for g i
  proof
    assume "HasPrefix (ps ! i) (filter_path g)"
    then have "filter_path g \<le> ps ! i" by (rule prefix_le)
    moreover have "ps ! i \<le> ps ! stop" by (rule sorted_nth_le [OF assms(1) that(2) stop])
    moreover have "filter_path f \<le> filter_path g" using assms(2) that(1) by (auto simp: filter_inv_def)
    ultimately show False using assms(3) R by simp
  qed
  then have "filter_status (f # fs) b p = b" if "p \<in> set (range_slice ps (start, stop))" for p
    using that stop by (intro filter_status_none) (auto simp: range_slice_nth simp del: upt_Suc)
  then have "filter (filter_status (f # fs) b) (range_slice ps (start, stop))
    = filter (\<lambda>_. b) (range_slice ps (start, stop))" by (rule filter_cong [OF refl])
  then show ?thesis by (simp add: range_result_def R)
qed

lemma range_result_Nil: "range_result ps [] R = (if snd R then range_slice ps (fst R) else [])"
  by (cases "snd R") (simp_all add: range_result_def)

text \<open>A filter before the first path of a range that is no prefix of it hits none of the range.\<close>

lemma range_result_skipped:
  assumes "sorted ps" "stop < length ps" "start \<le> stop"
    and "filter_path f < ps ! start" "\<not> HasPrefix (ps ! start) (filter_path f)"
  shows "range_result ps (f # fs) ((start, stop), b) = range_result ps fs ((start, stop), b)"
proof (rule range_result_missed, rule ballI, rule notI)
  fix p assume p: "p \<in> set (range_slice ps (fst ((start, stop), b)))" "HasPrefix p (filter_path f)"
  from p(1) assms(2) obtain i where i: "p = ps ! i" "start \<le> i" "i \<le> stop"
    by (auto simp: range_slice_nth simp del: upt_Suc)
  with sorted_nth_le [OF assms(1), of start i] assms(2) have "ps ! start \<le> p" by simp
  with prefix_between [OF p(2) less_imp_le [OF assms(4)]] assms(5) show False by simp
qed

lemma filter_ranges_result:
  assumes "sorted ps" "length ps < 2 ^ 64" "list_all (\<lambda>p. \<not> IsEmpty p) ps"
    and "filter_inv ps (rev filters) ranges" "list_all (valid_range ps) gathered"
  shows "\<exists>filters' gathered'. filter_ranges ps filters ranges gathered = Some (filters', gathered') \<and>
    list_all (valid_range ps) gathered' \<and>
    WriteResults ps gathered' = WriteResults ps gathered @ concat (map (range_result ps (rev filters)) ranges)"
  using assms
proof (induction ps filters ranges gathered rule: filter_ranges.induct)
  case (1 paths filters gathered)
  then show ?case by (simp add: filter_ranges.simps)
next
  case (2 ps filters start stop b ranges gathered)
  let ?R = "((start, stop), b)"
  note ps = "2.prems"(1-3) and inv = "2.prems"(4)
  have ok: "range_ok ps (rev filters) ?R" using inv by (simp add: filter_inv_def)
  let ?g = "if b then gathered @ [(start, stop)] else gathered"
  have emitted: "list_all (valid_range ps) ?g"
    "WriteResults ps ?g = WriteResults ps gathered @ (if b then range_slice ps (start, stop) else [])"
    using "2.prems"(5) range_ok_valid [OF ok] by (simp_all add: WriteResults_def)
  have empty: "filters = [] \<Longrightarrow> filter_ranges ps filters (?R # ranges) gathered = filter_ranges ps filters ranges ?g"
    by (simp add: filter_ranges.simps(2))
  show ?case
  proof (cases "filters = []")
    case True
    with "2.IH"(1) [OF True ps _ emitted(1)] filter_inv_pop [OF inv] show ?thesis
      unfolding empty [OF True] emitted(2) by (cases b) (simp_all add: range_result_Nil)
  next
    case False
    then obtain f fs where f: "rev filters = f # fs" by (cases "rev filters") auto
    then have "filters = rev fs @ [f]" by (metis rev.simps(2) rev_rev_ident)
    then have filters: "last filters = f" "rev (butlast filters) = fs" by simp_all
    have stop: "\<not> length ps \<le> stop" using ok by (simp add: range_ok_def)
    show ?thesis
    proof (cases "ps ! stop < filter_path f")
      case True
      then have "filter_ranges ps filters (?R # ranges) gathered = filter_ranges ps filters ranges ?g"
        using False stop filters by (simp add: filter_ranges.simps(2))
      moreover have "range_result ps (rev filters) ?R = (if b then range_slice ps (start, stop) else [])"
        unfolding f using range_result_past [OF ps(1) inv [unfolded f]] True by simp
      ultimately show ?thesis
        using "2.IH"(2) [OF False stop refl _ ps _ emitted(1)] True filters filter_inv_pop [OF inv]
        by (simp add: emitted(2))
    next
      case reached: False
      then have nonempty: "\<not> stop < start" using ok f by (auto simp: range_ok_def)
      let ?skip = "filter_include f = b \<or>
        (filter_path f < ps ! start \<and> \<not> HasPrefix (ps ! start) (filter_path f))"
      note IH = "2.IH"(3,4) [OF False stop refl _ _ _ ps, unfolded filters, OF reached nonempty]
      have missed: "range_result ps (f # fs) S = range_result ps fs S" if "S \<in> set ranges" for S
        using inv that reached f
        by (intro range_result_missed) (fastforce simp: filter_inv_def range_before_def)
      have later: "map (range_result ps (f # fs)) ranges = map (range_result ps fs) ranges"
        using missed by simp
      show ?thesis
      proof (cases ?skip)
        case True
        have "filter_ranges ps filters (?R # ranges) gathered
            = filter_ranges ps (butlast filters) (?R # ranges) gathered"
          using False stop filters reached nonempty True
          by (subst filter_ranges.simps(2)) (auto simp: Let_def)
        moreover have "range_result ps (f # fs) ?R = range_result ps fs ?R"
          using True range_result_skipped [OF ps(1)] stop nonempty by (auto intro: range_result_noop)
        ultimately show ?thesis
          using IH(1) [OF True _ "2.prems"(5)] filter_inv_less [OF inv [unfolded f]] by (simp add: f later)
      next
        case skip: False
        let ?new = "split_ranges ps (filter_path f) start stop b"
        have "filter_ranges ps filters (?R # ranges) gathered
            = filter_ranges ps (butlast filters) (?new @ ranges) gathered"
          using False stop filters reached nonempty skip
          by (subst filter_ranges.simps(2)) (auto simp: Let_def)
        moreover have "concat (map (range_result ps fs) ?new) = range_result ps (f # fs) ?R"
          "filter_inv ps fs (?new @ ranges)"
          using split_ranges_result [OF ps(1,2,3) inv [unfolded f]] reached nonempty skip by auto
        ultimately show ?thesis
          using IH(2) [OF skip _ "2.prems"(5)] by (simp add: f later)
      qed
    qed
  qed
qed

section \<open>What is gathered\<close>

text \<open>
  The documented criterion: some include path is a prefix of the path and has more elements than
  every exclude path that is one.
\<close>

definition gather_matched :: "sdf_path list \<Rightarrow> sdf_path list \<Rightarrow> sdf_path \<Rightarrow> bool" where
  "gather_matched includePaths excludePaths p \<longleftrightarrow>
     list_ex (\<lambda>i. HasPrefix p i \<and>
       list_all (\<lambda>x. HasPrefix p x \<longrightarrow> GetPathElementCount x < GetPathElementCount i) excludePaths) includePaths"

lemma proper_prefix_count: "HasPrefix p q \<Longrightarrow> p \<noteq> q \<Longrightarrow> GetPathElementCount q < GetPathElementCount p"
proof -
  assume h: "HasPrefix p q" "p \<noteq> q"
  then have "strict_prefix (prim_part q) (prim_part p) \<and> prop_part q = []
    \<or> prim_part p = prim_part q \<and> strict_prefix (prop_part q) (prop_part p)"
    by (auto simp: HasPrefix_iff path_eq_iff strict_prefix_def split: if_splits)
  then show ?thesis by (auto simp: GetPathElementCount_def dest: prefix_length_less)
qed

lemma filter_status_snoc:
  "filter_status (fs @ [f]) b p = (if HasPrefix p (filter_path f) then filter_include f else filter_status fs b p)"
  by (induction fs arbitrary: b) simp_all

lemma filter_status_last:
  assumes "sorted_wrt (\<lambda>f g. filter_path f \<le> filter_path g) fs" "f \<in> set fs" "HasPrefix p (filter_path f)"
  shows "\<exists>g \<in> set fs. HasPrefix p (filter_path g) \<and> filter_status fs b p = filter_include g \<and>
    (\<forall>h \<in> set fs. HasPrefix p (filter_path h) \<longrightarrow> filter_path h \<le> filter_path g)"
  using assms
proof (induction fs arbitrary: f rule: rev_induct)
  case (snoc g fs)
  show ?case
  proof (cases "HasPrefix p (filter_path g)")
    case True
    with snoc.prems(1) show ?thesis by (auto simp: filter_status_snoc sorted_wrt_append)
  next
    case False
    with snoc.prems have "sorted_wrt (\<lambda>f g. filter_path f \<le> filter_path g) fs" "f \<in> set fs"
      by (auto simp: sorted_wrt_append)
    from snoc.IH [OF this snoc.prems(3)] False show ?thesis by (auto simp: filter_status_snoc)
  qed
qed simp

lemma insert_by_greater_filter:
  "sorted_wrt (\<lambda>f g. filter_path g \<le> filter_path f) fs \<Longrightarrow>
   sorted_wrt (\<lambda>f g. filter_path g \<le> filter_path f) (insert_by greater_filter f fs)"
proof (induction fs)
  case (Cons g fs)
  have "set (insert_by greater_filter f fs) = insert f (set fs)"
    by (metis mset_insert_by set_mset_add_mset_insert set_mset_mset)
  with Cons show ?case by (auto simp: greater_filter_def [of g f] intro: order.trans less_imp_le)
qed simp

lemma sorted_filters: "sorted_wrt (\<lambda>f g. filter_path g \<le> filter_path f) (std_sort greater_filter fs)"
  unfolding std_sort_def by (induction fs) (auto intro: insert_by_greater_filter)

lemma SetupFilter_status:
  assumes "set includePaths \<inter> set excludePaths = {}"
  shows "filter_status (rev (filter_list (SetupFilter g includePaths excludePaths))) False p
    \<longleftrightarrow> gather_matched includePaths excludePaths p"
proof -
  let ?fs = "rev (filter_list (SetupFilter g includePaths excludePaths))"
  have sorted: "sorted_wrt (\<lambda>f g. filter_path f \<le> filter_path g) ?fs"
    using sorted_filters by (simp add: SetupFilter_def sorted_wrt_rev)
  have inc: "i \<in> set includePaths \<longleftrightarrow> \<lparr>filter_path = i, filter_include = True\<rparr> \<in> set ?fs" for i
    by (auto simp: SetupFilter_def)
  have exc: "x \<in> set excludePaths \<longleftrightarrow> \<lparr>filter_path = x, filter_include = False\<rparr> \<in> set ?fs" for x
    by (auto simp: SetupFilter_def)
  have nested: "GetPathElementCount x < GetPathElementCount i"
    if "HasPrefix p x" "HasPrefix p i" "x \<le> i" "x \<noteq> i" for x i
  proof -
    have "\<not> HasPrefix x i" using prefix_le [of x i] that(3,4) by fastforce
    then have "HasPrefix i x" using paths.prefix_chain [OF that(1,2)] by simp
    then show ?thesis using that(4) by (intro proper_prefix_count) auto
  qed
  show ?thesis
  proof (cases "\<exists>f \<in> set ?fs. HasPrefix p (filter_path f)")
    case False
    then show ?thesis using inc by (fastforce simp: filter_status_none gather_matched_def list_ex_iff)
  next
    case True
    then obtain f where "f \<in> set ?fs" "HasPrefix p (filter_path f)" by blast
    from filter_status_last [OF sorted this, of False] obtain g where g: "g \<in> set ?fs"
      "HasPrefix p (filter_path g)" "filter_status ?fs False p = filter_include g"
      and greatest: "\<And>h. h \<in> set ?fs \<Longrightarrow> HasPrefix p (filter_path h) \<Longrightarrow> filter_path h \<le> filter_path g"
      by blast
    show ?thesis
    proof (cases "filter_include g")
      case True
      then have i: "filter_path g \<in> set includePaths" using g(1) inc by (cases g) simp
      have "GetPathElementCount x < GetPathElementCount (filter_path g)"
        if "x \<in> set excludePaths" "HasPrefix p x" for x
        using that i assms g(2) greatest [OF exc [THEN iffD1, OF that(1)]] by (intro nested) auto
      with True g i show ?thesis by (auto simp: gather_matched_def list_ex_iff list_all_iff)
    next
      case False
      then have x: "filter_path g \<in> set excludePaths" using g(1) exc by (cases g) simp
      have "GetPathElementCount i < GetPathElementCount (filter_path g)"
        if "i \<in> set includePaths" "HasPrefix p i" for i
        using that x assms g(2) greatest [OF inc [THEN iffD1, OF that(1)]] by (intro nested) auto
      with False g x show ?thesis by (fastforce simp: gather_matched_def list_ex_iff list_all_iff)
    qed
  qed
qed

text \<open>Hydra keeps its ids as absolute paths, in order.\<close>

definition gatherable :: "sdf_path list \<Rightarrow> bool" where
  "gatherable ps \<longleftrightarrow> sorted ps \<and> list_all IsAbsolutePath ps \<and> length ps < 2 ^ 64"

lemma gatherable_nonempty: "gatherable ps \<Longrightarrow> list_all (\<lambda>p. \<not> IsEmpty p) ps"
  by (auto simp: gatherable_def list_all_iff IsAbsolutePath_def)

lemma HasPrefix_root: "IsAbsolutePath p \<Longrightarrow> HasPrefix p AbsoluteRootPath"
  by (auto simp: IsAbsolutePath_def HasPrefix_iff AbsoluteRootPath_def path_queries)

lemma range_slice_all: "ps \<noteq> [] \<Longrightarrow> range_slice ps (0, length ps - Suc 0) = ps"
  by (simp add: range_slice_def)

lemma FilterRange_all:
  assumes "gatherable ps" "ps \<noteq> []" "sorted_wrt (\<lambda>f g. filter_path g \<le> filter_path f) (filter_list g)"
    and "list_all (valid_range ps) (gathered_ranges g)"
  shows "\<exists>g'. FilterRange g ps 0 (length ps - 1) False = Some g' \<and> result_ranges g' = result_ranges g \<and>
    list_all (valid_range ps) (gathered_ranges g') \<and>
    WriteResults ps (gathered_ranges g') = WriteResults ps (gathered_ranges g)
      @ filter (filter_status (rev (filter_list g)) False) ps"
proof -
  have "filter_inv ps (rev (filter_list g)) [((0, length ps - 1), False)]"
    using assms(2,3) by (simp add: filter_inv_def range_ok_def sorted_wrt_rev)
  from filter_ranges_result [OF _ _ gatherable_nonempty [OF assms(1)] this assms(4)] assms(1,2)
  show ?thesis by (auto simp: gatherable_def FilterRange_def range_result_def range_slice_all)
qed

lemma GatherPaths_result:
  assumes "gatherable ps" "set includePaths \<inter> set excludePaths = {}"
  shows "\<exists>g'. GatherPaths (SetupFilter g includePaths excludePaths) ps = Some g' \<and>
    result_ranges g' = result_ranges g \<and> list_all (valid_range ps) (gathered_ranges g') \<and>
    WriteResults ps (gathered_ranges g') = filter (gather_matched includePaths excludePaths) ps"
proof -
  let ?g = "SetupFilter g includePaths excludePaths"
  note status = SetupFilter_status [OF assms(2), of g]
  show ?thesis
  proof (cases "ps = []")
    case True
    then show ?thesis by (simp add: GatherPaths_def WriteResults_def SetupFilter_def)
  next
    case nonempty: False
    show ?thesis
    proof (cases "length (filter_list ?g) = 1 \<and> filter_include (filter_list ?g ! 0)
        \<and> filter_path (filter_list ?g ! 0) = AbsoluteRootPath")
      case True
      then obtain f where f: "filter_list ?g = [f]" "filter_include f" "filter_path f = AbsoluteRootPath"
        by (auto simp: length_Suc_conv)
      have "gather_matched includePaths excludePaths p" if "p \<in> set ps" for p
        using status [of p] f that assms(1) HasPrefix_root by (auto simp: gatherable_def list_all_iff)
      then have "filter (gather_matched includePaths excludePaths) ps = ps" by simp
      with True nonempty show ?thesis
        by (simp add: GatherPaths_def WriteResults_def range_slice_all valid_range_def) (simp add: SetupFilter_def)
    next
      case False
      let ?h = "?g\<lparr>gathered_ranges := []\<rparr>"
      have run: "GatherPaths ?g ps = FilterRange ?h ps 0 (length ps - 1) False"
        using False nonempty by (auto simp: GatherPaths_def Let_def simp del: One_nat_def)
      have sorted: "sorted_wrt (\<lambda>f g. filter_path g \<le> filter_path f) (filter_list ?h)"
        using sorted_filters by (simp add: SetupFilter_def)
      have h: "result_ranges ?h = result_ranges g" by (simp add: SetupFilter_def)
      have "filter (filter_status (rev (filter_list ?h)) False) ps
          = filter (gather_matched includePaths excludePaths) ps"
        by (rule filter_cong) (simp_all add: status)
      with FilterRange_all [OF assms(1) nonempty sorted] show ?thesis
        unfolding run h by (simp add: WriteResults_def)
    qed
  qed
qed

text \<open>C17: \<open>Filter\<close> returns, in their order, the paths that meet the documented criterion, whatever was
  gathered before. The paths are sorted and absolute, and no path is both included and excluded.
\<close>

theorem Gather_Filter_matched:
  assumes "gatherable ps" "set includePaths \<inter> set excludePaths = {}"
  shows "\<exists>g'. Gather_Filter g ps includePaths excludePaths
    = Some (g', filter (gather_matched includePaths excludePaths) ps)"
  using GatherPaths_result [OF assms, of g] by (auto simp: Gather_Filter_def)

section \<open>Subtrees are one range\<close>

lemma filter_ranges_unfiltered:
  "filter_ranges ps [] ranges gathered = Some ([], gathered @ map fst (filter snd ranges))"
proof (induction ranges arbitrary: gathered)
  case (Cons R ranges)
  then show ?case by (cases R) (auto simp: filter_ranges.simps)
qed (simp add: filter_ranges.simps)

lemma FilterSubTree_result:
  assumes "gatherable ps"
  shows "\<exists>g'. FilterSubTree new_gather ps rootPath = Some g' \<and> length (gathered_ranges g') \<le> 1 \<and>
    list_all (valid_range ps) (gathered_ranges g') \<and>
    WriteResults ps (gathered_ranges g') = filter (\<lambda>p. HasPrefix p rootPath) ps"
proof (cases "ps = []")
  case True
  then show ?thesis by (simp add: FilterSubTree_def new_gather_def WriteResults_def)
next
  case False
  let ?f = "\<lparr>filter_path = rootPath, filter_include = True\<rparr>"
  let ?g = "new_gather\<lparr>filter_list := [?f]\<rparr>"
  have status: "filter_status [?f] False = (\<lambda>p. HasPrefix p rootPath)" by (rule ext) simp
  from FilterRange_all [OF assms False, of ?g] obtain g' where g': "FilterRange ?g ps 0 (length ps - 1) False = Some g'"
    "list_all (valid_range ps) (gathered_ranges g')"
    "WriteResults ps (gathered_ranges g') = filter (\<lambda>p. HasPrefix p rootPath) ps"
    by (auto simp: new_gather_def WriteResults_def status)
  have "length (gathered_ranges g') \<le> 1"
    using g'(1) by (auto simp: FilterRange_def filter_ranges.simps(1) filter_ranges.simps(2) [of _ "[_]"] filter_ranges_unfiltered
        split_ranges_def Let_def new_gather_def split: if_splits)
  with g' False show ?thesis by (simp add: FilterSubTree_def)
qed

definition subtree_found :: "sdf_path list \<Rightarrow> sdf_path \<Rightarrow> subtree_result \<Rightarrow> bool" where
  "subtree_found ps rootPath r =
     (case r of
        NoRange \<Rightarrow> list_all (\<lambda>p. \<not> HasPrefix p rootPath) ps
      | SeveralRanges \<Rightarrow> False
      | OneRange start stop \<Rightarrow> valid_range ps (start, stop) \<and>
          range_slice ps (start, stop) = filter (\<lambda>p. HasPrefix p rootPath) ps)"

lemma SubtreeAsRange_result:
  assumes "gatherable ps"
  shows "\<exists>g' r. SubtreeAsRange new_gather ps rootPath = Some (g', r) \<and> subtree_found ps rootPath r"
proof -
  from FilterSubTree_result [OF assms] obtain g' where g': "FilterSubTree new_gather ps rootPath = Some g'"
    "length (gathered_ranges g') \<le> 1" "list_all (valid_range ps) (gathered_ranges g')"
    "WriteResults ps (gathered_ranges g') = filter (\<lambda>p. HasPrefix p rootPath) ps"
    by blast
  show ?thesis
  proof (cases "gathered_ranges g'")
    case Nil
    with g' have "filter (\<lambda>p. HasPrefix p rootPath) ps = []" by (simp add: WriteResults_def)
    with g' Nil show ?thesis by (auto simp: SubtreeAsRange_def subtree_found_def filter_empty_conv list_all_iff)
  next
    case (Cons r rs)
    with g'(2) have "rs = []" by simp
    with g' Cons show ?thesis by (cases r) (simp add: SubtreeAsRange_def subtree_found_def WriteResults_def)
  qed
qed

section \<open>The predicate in parallel\<close>

lemma WriteResults_append [simp]: "WriteResults ps (rs @ ss) = WriteResults ps rs @ WriteResults ps ss"
  by (simp add: WriteResults_def)

lemma WriteResults_single: "i < j \<Longrightarrow> j \<le> length ps \<Longrightarrow> WriteResults ps [(i, j - 1)] = map ((!) ps) [i..<j]"
  by (simp add: WriteResults_def range_slice_nth del: upt_Suc)

lemma predicate_loop_result:
  assumes "cs \<le> i" "i \<le> k" "k \<le> length ps" "predicate_loop P ps [i..<k] cs rs = (cs', rs')"
  shows "cs' \<le> k \<and> WriteResults ps rs' @ map ((!) ps) [cs'..<k]
    = WriteResults ps rs @ map ((!) ps) [cs..<i] @ filter P (map ((!) ps) [i..<k])"
  using assms
proof (induction "k - i" arbitrary: i cs rs)
  case 0
  then show ?case by simp
next
  case (Suc n)
  then have i: "i < k" "[i..<k] = i # [Suc i..<k]" by (simp_all add: upt_conv_Cons)
  have IH: "n = k - Suc i" using Suc by simp
  show ?case
  proof (cases "P (ps ! i)")
    case True
    have "map ((!) ps) [cs..<Suc i] = map ((!) ps) [cs..<i] @ [ps ! i]" using Suc.prems(1) by simp
    with Suc.hyps(1) [OF IH, of cs rs] Suc.prems True i show ?thesis by simp
  next
    case False
    let ?rs = "if cs < i then rs @ [(cs, i - 1)] else rs"
    have "WriteResults ps ?rs = WriteResults ps rs @ map ((!) ps) [cs..<i]"
      using WriteResults_single [of cs i ps] i Suc.prems(3) by simp
    with Suc.hyps(1) [OF IH, of "Suc i" ?rs] Suc.prems False i show ?thesis by simp
  qed
qed

lemma DoPredicateTestOnPrims_result:
  assumes "valid_range ps b"
  shows "WriteResults ps (DoPredicateTestOnPrims P ps b) = filter P (range_slice ps b)"
proof -
  obtain start stop where b: "b = (start, stop)" by fastforce
  with assms have v: "stop < length ps" "start \<le> Suc stop" by (simp_all add: valid_range_def)
  obtain cs rs where loop: "predicate_loop P ps [start..<Suc stop] start [] = (cs, rs)" by fastforce
  have "cs \<le> Suc stop \<and> WriteResults ps rs @ map ((!) ps) [cs..<Suc stop] = filter P (range_slice ps b)"
    using predicate_loop_result [OF le_refl v(2) _ loop] v b
    by (simp add: WriteResults_def range_slice_nth del: upt_Suc)
  then show ?thesis
    using v loop WriteResults_single [of cs "Suc stop" ps]
    by (auto simp: DoPredicateTestOnPrims_def b Let_def simp del: upt_Suc)
qed

lemma local_append_results:
  "mset (WriteResults ps (concat (map snd (local_append t rs arrays))))
   = mset (WriteResults ps rs) + mset (WriteResults ps (concat (map snd arrays)))"
  by (induction t rs arrays rule: local_append.induct) (auto simp: WriteResults_def)

lemma run_test_steps_results:
  "list_all (\<lambda>t. valid_range ps (step_block t)) steps \<Longrightarrow>
   mset (WriteResults ps (concat (map snd (foldl (run_test_step P ps) arrays steps))))
   = mset (WriteResults ps (concat (map snd arrays)))
     + (\<Sum>t\<leftarrow>steps. mset (filter P (range_slice ps (step_block t))))"
  by (induction steps arbitrary: arrays)
    (simp_all add: run_test_step_def local_append_results DoPredicateTestOnPrims_result)

lemma admissible_blocks_valid:
  assumes "admissible_blocks r blocks" "valid_range ps r" "b \<in> set blocks"
  shows "valid_range ps b"
proof (cases "snd r + 1 - fst r > min_entries_for_parallel")
  case True
  let ?idxs = "concat (map (\<lambda>b. [fst b..<snd b + 1]) blocks)"
  from True have b: "fst b \<le> snd b" "mset ?idxs = mset [fst r..<snd r + 1]"
    using assms(1,3) by (simp_all add: admissible_blocks_def list_all_iff del: upt_Suc mset_upt)
  have "snd b \<in> set ?idxs" using b(1) assms(3) by force
  then have "snd b \<in> set [fst r..<snd r + 1]" using mset_eq_setD [OF b(2)] by (simp only:)
  then show ?thesis using b(1) assms(2) by (simp add: valid_range_def del: upt_Suc)
qed (use assms in \<open>auto simp: admissible_blocks_def\<close>)

lemma mset_blocks:
  "list_all (valid_range ps) blocks \<Longrightarrow>
   (\<Sum>b\<leftarrow>blocks. mset (filter P (range_slice ps b)))
   = filter_mset P (image_mset ((!) ps) (mset (concat (map (\<lambda>b. [fst b..<snd b + 1]) blocks))))"
  by (induction blocks) (auto simp: valid_range_def range_slice_nth simp del: upt_Suc)

lemma admissible_blocks_results:
  assumes "admissible_blocks r blocks" "valid_range ps r"
  shows "(\<Sum>b\<leftarrow>blocks. mset (filter P (range_slice ps b))) = mset (filter P (range_slice ps r))"
proof (cases "snd r + 1 - fst r > min_entries_for_parallel")
  case True
  have "list_all (valid_range ps) blocks"
    using admissible_blocks_valid [OF assms] by (simp add: list_all_iff)
  from mset_blocks [OF this, of P] mset_blocks [of ps "[r]" P] True assms show ?thesis
    by (simp add: admissible_blocks_def del: upt_Suc)
qed (use assms in \<open>simp add: admissible_blocks_def\<close>)

lemma sum_list_by_class:
  fixes F :: "'t \<Rightarrow> 'm :: comm_monoid_add"
  assumes "list_all (\<lambda>t. c t < n) ts"
  shows "(\<Sum>t\<leftarrow>ts. F t) = (\<Sum>k\<leftarrow>[0..<n]. \<Sum>t\<leftarrow>filter (\<lambda>t. c t = k) ts. F t)"
  using assms
proof (induction ts)
  case (Cons t ts)
  have "(\<Sum>k\<leftarrow>[0..<n]. \<Sum>t\<leftarrow>filter (\<lambda>t. c t = k) (t # ts). F t)
    = (\<Sum>k\<leftarrow>[0..<n]. (if c t = k then F t else 0) + (\<Sum>t\<leftarrow>filter (\<lambda>t. c t = k) ts. F t))"
    by (intro arg_cong [of _ _ sum_list] map_cong) auto
  also have "\<dots> = (\<Sum>k\<leftarrow>[0..<n]. if c t = k then F t else 0) + (\<Sum>k\<leftarrow>[0..<n]. \<Sum>t\<leftarrow>filter (\<lambda>t. c t = k) ts. F t)"
    by (rule sum_list_addf)
  also have "(\<Sum>k\<leftarrow>[0..<n]. if c t = k then F t else 0) = F t"
    using Cons.prems by (simp add: interv_sum_list_conv_sum_set_nat)
  finally show ?case using Cons by simp
qed simp

lemma admissible_steps_results:
  assumes "admissible_steps ranges steps" "list_all (valid_range ps) ranges"
  shows "(\<Sum>t\<leftarrow>steps. mset (filter P (range_slice ps (step_block t)))) = mset (filter P (WriteResults ps ranges))"
    and "list_all (\<lambda>t. valid_range ps (step_block t)) steps"
proof -
  have blocks: "admissible_blocks (ranges ! k) (range_blocks steps k)" "valid_range ps (ranges ! k)"
    if "k < length ranges" for k
    using assms that by (simp_all add: admissible_steps_def list_all_iff)
  have "(\<Sum>t\<leftarrow>steps. mset (filter P (range_slice ps (step_block t))))
      = (\<Sum>k\<leftarrow>[0..<length ranges]. \<Sum>t\<leftarrow>filter (\<lambda>t. step_range t = k) steps. mset (filter P (range_slice ps (step_block t))))"
    using assms(1) by (intro sum_list_by_class) (simp add: admissible_steps_def)
  also have "\<dots> = (\<Sum>k\<leftarrow>[0..<length ranges]. mset (filter P (range_slice ps (ranges ! k))))"
    using admissible_blocks_results [OF blocks]
    by (intro arg_cong [of _ _ sum_list] map_cong) (auto simp: range_blocks_def comp_def)
  also have "\<dots> = (\<Sum>r\<leftarrow>ranges. mset (filter P (range_slice ps r)))"
    by (intro arg_cong [of _ _ sum_list] nth_equalityI) simp_all
  also have "\<dots> = mset (filter P (WriteResults ps ranges))"
    by (induction ranges) (simp_all add: WriteResults_def)
  finally show "(\<Sum>t\<leftarrow>steps. mset (filter P (range_slice ps (step_block t)))) = mset (filter P (WriteResults ps ranges))" .
  have "valid_range ps (step_block t)" if "t \<in> set steps" for t
    using that assms(1) admissible_blocks_valid [OF blocks, of "step_range t" "step_block t"]
    by (auto simp: admissible_steps_def list_all_iff range_blocks_def)
  then show "list_all (\<lambda>t. valid_range ps (step_block t)) steps" by (simp add: list_all_iff)
qed

lemma PredicatedFilter_results:
  assumes "gatherable ps" "set includePaths \<inter> set excludePaths = {}"
    and "\<And>ranges. admissible_steps ranges (schedule ranges)"
  shows "\<exists>g' results. Gather_PredicatedFilter g ps includePaths excludePaths P schedule = Some (g', results) \<and>
    mset results = mset (WriteResults ps (concat (map snd (result_ranges g))))
      + mset (filter (\<lambda>p. gather_matched includePaths excludePaths p \<and> P p) ps)"
proof -
  from GatherPaths_result [OF assms(1,2), of g] obtain g' where g': "GatherPaths (SetupFilter g includePaths excludePaths) ps = Some g'"
    "result_ranges g' = result_ranges g" "list_all (valid_range ps) (gathered_ranges g')"
    "WriteResults ps (gathered_ranges g') = filter (gather_matched includePaths excludePaths) ps"
    by blast
  note steps = admissible_steps_results [OF assms(3) g'(3)]
  show ?thesis
    using g'(1,2) run_test_steps_results [OF steps(2), of P "result_ranges g"] steps(1) [of P]
    by (simp add: Gather_PredicatedFilter_def g'(4) Let_def)
qed

text \<open>C18: However the tasks are split, ordered and spread over threads, a fresh \<open>HdPrimGather\<close> returns each
  path that meets the criterion and the predicate exactly as often as the input holds it.
\<close>

theorem PredicatedFilter_any_schedule:
  assumes "gatherable ps" "set includePaths \<inter> set excludePaths = {}"
    and "\<And>ranges. admissible_steps ranges (schedule ranges)"
  shows "\<exists>g' results. Gather_PredicatedFilter new_gather ps includePaths excludePaths P schedule
      = Some (g', results) \<and>
    mset results = mset (filter (\<lambda>p. gather_matched includePaths excludePaths p \<and> P p) ps)"
  using PredicatedFilter_results [OF assms, of new_gather P] by (simp add: new_gather_def WriteResults_def)

text \<open>The ranges of the last call are still there in the next one: its results come again.\<close>

lemma PredicatedFilter_again:
  assumes "gatherable ps" "set includePaths \<inter> set excludePaths = {}"
    and "\<And>ranges. admissible_steps ranges (schedule ranges)"
    and "Gather_PredicatedFilter g ps includePaths excludePaths P schedule = Some (g', results)"
  shows "\<exists>g'' results'. Gather_PredicatedFilter g' ps includePaths excludePaths P schedule
      = Some (g'', results') \<and>
    mset results' = mset results + mset (filter (\<lambda>p. gather_matched includePaths excludePaths p \<and> P p) ps)"
proof -
  have "results = WriteResults ps (concat (map snd (result_ranges g')))"
    using assms(4) by (auto simp: Gather_PredicatedFilter_def Let_def split: option.splits)
  with PredicatedFilter_results [OF assms(1-3), of g' P] show ?thesis by simp
qed

section \<open>Instances\<close>

lemma example_paths_gatherable: "gatherable example_paths"
proof -
  have "sorted example_paths" using paths.sorted_weak [OF example_paths_ok(1)] by (simp add: not_less)
  then show ?thesis by (simp add: gatherable_def) (simp add: example_paths_def abs_prim_def IsAbsolutePath_def path_queries)
qed

definition sequential_schedule :: "id_range list \<Rightarrow> test_step list" where
  "sequential_schedule ranges =
     map (\<lambda>k. \<lparr>step_range = k, step_thread = 0, step_block = ranges ! k\<rparr>) [0..<length ranges]"

lemma filter_upt_single: "filter (\<lambda>j. j = k) [0..<n] = (if k < n then [k] else [])"
  by (induction n) auto

lemma sequential_schedule_admissible: "admissible_steps ranges (sequential_schedule ranges)"
proof -
  have "range_blocks (sequential_schedule ranges) k = [ranges ! k]" if "k < length ranges" for k
  proof -
    have "filter (\<lambda>j. j = k) [0..<length ranges] = [k]" using that by (simp add: filter_upt_single)
    then show ?thesis by (simp add: range_blocks_def sequential_schedule_def filter_map comp_def)
  qed
  then show ?thesis
    by (auto simp: admissible_steps_def sequential_schedule_def list_all_iff admissible_blocks_def comp_def
        min_entries_for_parallel_def)
qed

theorem Gather_Filter_matched_witness:
  "\<exists>g'. Gather_Filter new_gather example_paths [abs_prim [''A''], abs_prim [''A'', ''B'', ''C'']] [abs_prim [''A'', ''B'']]
    = Some (g', [abs_prim [''A''], abs_prim [''A'', ''B'', ''C'']])"
proof -
  have "\<exists>g'. Gather_Filter new_gather example_paths [abs_prim [''A''], abs_prim [''A'', ''B'', ''C'']] [abs_prim [''A'', ''B'']]
    = Some (g', filter (gather_matched [abs_prim [''A''], abs_prim [''A'', ''B'', ''C'']] [abs_prim [''A'', ''B'']]) example_paths)"
    by (rule Gather_Filter_matched [OF example_paths_gatherable]) (simp add: abs_prim_def)
  then show ?thesis
    by (simp add: example_paths_def gather_matched_def abs_prim_def HasPrefix_iff GetPathElementCount_def path_queries)
qed

theorem PredicatedFilter_any_schedule_witness:
  "\<exists>g' results. Gather_PredicatedFilter new_gather example_paths [AbsoluteRootPath] [abs_prim [''A'', ''B'', ''C'']]
      (\<lambda>p. p \<noteq> abs_prim [''A'']) sequential_schedule = Some (g', results) \<and>
    mset results = {#abs_prim [''A'', ''B''], abs_prim [''C'']#}"
proof -
  have "\<exists>g' results. Gather_PredicatedFilter new_gather example_paths [AbsoluteRootPath] [abs_prim [''A'', ''B'', ''C'']]
      (\<lambda>p. p \<noteq> abs_prim [''A'']) sequential_schedule = Some (g', results) \<and>
    mset results = mset (filter (\<lambda>p. gather_matched [AbsoluteRootPath] [abs_prim [''A'', ''B'', ''C'']] p
      \<and> p \<noteq> abs_prim [''A'']) example_paths)"
    by (rule PredicatedFilter_any_schedule [OF example_paths_gatherable _ sequential_schedule_admissible])
      (simp add: abs_prim_def AbsoluteRootPath_def)
  then show ?thesis
    by (simp add: example_paths_def gather_matched_def abs_prim_def AbsoluteRootPath_def HasPrefix_iff
        GetPathElementCount_def path_queries)
qed

text \<open>A root between two ids that is above none of them gives a range that ends before it starts.\<close>

lemma SubtreeAsRange_not_found:
  "map_option snd (SubtreeAsRange new_gather [abs_prim [''A''], abs_prim [''C'']] (abs_prim [''B'']))
   = Some (OneRange 1 0)"
  by (simp add: SubtreeAsRange_def FilterSubTree_def FilterRange_def new_gather_def filter_ranges.simps
      split_ranges_def FindLowerBound_def FindUpperBound_def partition_point_loop.simps size_t_pred_def
      abs_prim_def HasPrefix_iff less_path_lex path_queries less_prim_node_inst)

text \<open>The ranges of the last call are kept here as well: the second call reports an error.\<close>

lemma SubtreeAsRange_again:
  "(case SubtreeAsRange new_gather [abs_prim [''A'']] (abs_prim [''A'']) of
      None \<Rightarrow> None
    | Some (g, _) \<Rightarrow> map_option snd (SubtreeAsRange g [abs_prim [''A'']] (abs_prim [''A''])))
   = Some SeveralRanges"
  by (simp add: SubtreeAsRange_def FilterSubTree_def FilterRange_def new_gather_def filter_ranges.simps
      split_ranges_def FindLowerBound_def FindUpperBound_def partition_point_loop.simps
      abs_prim_def HasPrefix_iff less_path_lex path_queries less_prim_node_inst)

end
