(* ===== verification/Hd_PrimTypeIndex.thy ===== *)
theory Hd_PrimTypeIndex
  imports Hd_SortedIds Hd_PrimGather
begin

text \<open>
  The index of the prims of one class (\<open>pxr/imaging/hd/primTypeIndex.cpp\<close>): for each supported
  type a map from ids to prims and a sorted container of the same ids. The calls the index makes to
  the change tracker and to the render delegate, and the coding errors it raises, are the events of
  a log. The render delegate is an argument: the prim it returns may depend on every call before.
  An operation is \<open>None\<close> where one of the sorted container or of the gathering is, or where the code
  would use a position outside of the vector of entries.
\<close>

section \<open>State and environment\<close>

datatype 'p hd_event =
    UnsupportedType token
  | DelegateNotPrefix sdf_path
  | IdNotInMap sdf_path
  | SeveralSubtreeRanges
  | RangeWhileUnsorted
  | TrackerInserted sdf_path "32 word"
  | TrackerRemoved sdf_path
  | PrimCreated token sdf_path "'p option"
  | FallbackCreated token "'p option"
  | PrimFinalized 'p
  | PrimDestroyed "'p option"

record ('d, 'p) prim_info =
  info_delegate :: 'd
  info_prim :: 'p

type_synonym ('d, 'p) prim_map = "sdf_path \<rightharpoonup> ('d, 'p) prim_info"

record ('d, 'p) prim_type_entry =
  entry_map :: "('d, 'p) prim_map"
  entry_ids :: sorted_ids
  entry_fallback :: "'p option"

record ('d, 'p) prim_type_index =
  index_entries :: "('d, 'p) prim_type_entry list"
  index_types :: "token \<rightharpoonup> nat"
  index_type_names :: "token list"

text \<open>
  The two orders are those in which the unordered maps of the standard library are iterated.
\<close>

record ('d, 'p) index_env =
  env_hash :: "sdf_path \<Rightarrow> 64 word"
  env_delegate_id :: "'d \<Rightarrow> sdf_path"
  env_create :: "'p hd_event list \<Rightarrow> token \<Rightarrow> sdf_path \<Rightarrow> 'p option"
  env_create_fallback :: "'p hd_event list \<Rightarrow> token \<Rightarrow> 'p option"
  env_initial_dirty :: "'p \<Rightarrow> 32 word"
  env_map_order :: "('d, 'p) prim_map \<Rightarrow> sdf_path list"
  env_type_order :: "(token \<rightharpoonup> nat) \<Rightarrow> token list"

definition new_entry :: "('d, 'p) prim_type_entry" where
  "new_entry = \<lparr>entry_map = Map.empty, entry_ids = empty_ids, entry_fallback = None\<rparr>"

definition new_index :: "('d, 'p) prim_type_index" where
  "new_index = \<lparr>index_entries = [], index_types = Map.empty, index_type_names = []\<rparr>"

definition destroy_events :: "'p option \<Rightarrow> 'p hd_event list" where
  "destroy_events prim =
     (case prim of None \<Rightarrow> [] | Some p \<Rightarrow> [PrimFinalized p]) @ [PrimDestroyed prim]"

section \<open>Operations\<close>

text \<open>\<open>resize\<close> cuts the vector of entries or fills it with new ones; \<open>emplace\<close> keeps the first.\<close>

fun emplace_types :: "token list \<Rightarrow> nat \<Rightarrow> (token \<rightharpoonup> nat) \<Rightarrow> (token \<rightharpoonup> nat)" where
  "emplace_types [] typeIdx m = m"
| "emplace_types (t # ts) typeIdx m =
     emplace_types ts (typeIdx + 1) (if m t = None then m(t \<mapsto> typeIdx) else m)"

definition InitPrimTypes :: "('d, 'p) prim_type_index \<Rightarrow> token list \<Rightarrow> ('d, 'p) prim_type_index" where
  "InitPrimTypes idx primTypes =
     (let n = length primTypes in
      idx\<lparr>index_entries := take n (index_entries idx) @ replicate (n - length (index_entries idx)) new_entry,
          index_types := emplace_types primTypes 0 (index_types idx),
          index_type_names := index_type_names idx @ primTypes\<rparr>)"

fun clear_events :: "('d, 'p) prim_map \<Rightarrow> sdf_path list \<Rightarrow> 'p hd_event list" where
  "clear_events m [] = []"
| "clear_events m (primId # primIds) =
     (case m primId of None \<Rightarrow> [] | Some info \<Rightarrow> TrackerRemoved primId # destroy_events (Some (info_prim info)))
     @ clear_events m primIds"

definition Index_Clear ::
    "('d, 'p) index_env \<Rightarrow> ('d, 'p) prim_type_index \<Rightarrow> 'p hd_event list \<Rightarrow>
     ('d, 'p) prim_type_index \<times> 'p hd_event list" where
  "Index_Clear env idx log =
     (idx\<lparr>index_entries := map (\<lambda>e. e\<lparr>entry_map := Map.empty, entry_ids := Ids_Clear (entry_ids e)\<rparr>) (index_entries idx)\<rparr>,
      log @ concat (map (\<lambda>e. clear_events (entry_map e) (env_map_order env (entry_map e))) (index_entries idx)))"

definition InsertPrim ::
    "('d, 'p) index_env \<Rightarrow> token \<Rightarrow> 'd \<Rightarrow> sdf_path \<Rightarrow> ('d, 'p) prim_type_index \<Rightarrow> 'p hd_event list \<Rightarrow>
     (('d, 'p) prim_type_index \<times> 'p hd_event list) option" where
  "InsertPrim env typeId sceneDelegate primId idx log =
     (case index_types idx typeId of
        None \<Rightarrow> Some (idx, log @ [UnsupportedType typeId])
      | Some typeIdx \<Rightarrow>
          if \<not> HasPrefix primId (env_delegate_id env sceneDelegate)
          then Some (idx, log @ [DelegateNotPrefix primId])
          else
            let prim = env_create env log typeId primId;
                log = log @ [PrimCreated typeId primId prim]
            in (case prim of
                  None \<Rightarrow> Some (idx, log)
                | Some p \<Rightarrow>
                    let log = log @ [TrackerInserted primId (env_initial_dirty env p)] in
                    if length (index_entries idx) \<le> typeIdx then None
                    else
                      let e = index_entries idx ! typeIdx in
                      if entry_map e primId = None
                      then (case Ids_Insert (env_hash env) (entry_ids e) primId of
                              None \<Rightarrow> None
                            | Some ids \<Rightarrow>
                                Some (idx\<lparr>index_entries := (index_entries idx)[typeIdx :=
                                  e\<lparr>entry_map := (entry_map e)(primId \<mapsto> \<lparr>info_delegate = sceneDelegate, info_prim = p\<rparr>),
                                    entry_ids := ids\<rparr>]\<rparr>, log))
                      else Some (idx, log @ destroy_events (Some p))))"

definition RemovePrim ::
    "('d, 'p) index_env \<Rightarrow> token \<Rightarrow> sdf_path \<Rightarrow> ('d, 'p) prim_type_index \<Rightarrow> 'p hd_event list \<Rightarrow>
     (('d, 'p) prim_type_index \<times> 'p hd_event list) option" where
  "RemovePrim env typeId primId idx log =
     (case index_types idx typeId of
        None \<Rightarrow> Some (idx, log @ [UnsupportedType typeId])
      | Some typeIdx \<Rightarrow>
          if length (index_entries idx) \<le> typeIdx then None
          else
            let e = index_entries idx ! typeIdx in
            (case entry_map e primId of
               None \<Rightarrow> Some (idx, log)
             | Some info \<Rightarrow>
                 let log = log @ TrackerRemoved primId # destroy_events (Some (info_prim info)) in
                 (case Ids_Remove (env_hash env) (entry_ids e) primId of
                    None \<Rightarrow> None
                  | Some ids \<Rightarrow>
                      Some (idx\<lparr>index_entries := (index_entries idx)[typeIdx :=
                        e\<lparr>entry_map := (entry_map e)(primId := None), entry_ids := ids\<rparr>]\<rparr>, log))))"

text \<open>The loop of \<open>RemoveSubtree\<close> over the positions of the subtree.\<close>

fun subtree_loop ::
    "'d \<Rightarrow> sdf_path list \<Rightarrow> nat list \<Rightarrow> ('d, 'p) prim_map \<Rightarrow> 'p hd_event list \<Rightarrow> nat \<Rightarrow> id_range list \<Rightarrow>
     ('d, 'p) prim_map \<times> 'p hd_event list \<times> nat \<times> id_range list" where
  "subtree_loop sceneDelegate ids [] m log currentRangeStart ranges = (m, log, currentRangeStart, ranges)"
| "subtree_loop sceneDelegate ids (i # is) m log currentRangeStart ranges =
     (let primId = ids ! i in
      case m primId of
        None \<Rightarrow> subtree_loop sceneDelegate ids is m (log @ [IdNotInMap primId]) currentRangeStart ranges
      | Some info \<Rightarrow>
          if info_delegate info = sceneDelegate
          then subtree_loop sceneDelegate ids is (m(primId := None))
                 (log @ TrackerRemoved primId # destroy_events (Some (info_prim info))) currentRangeStart ranges
          else subtree_loop sceneDelegate ids is m log (i + 1)
                 (if currentRangeStart < i then ranges @ [(currentRangeStart, i - 1)] else ranges))"

text \<open>The ranges are given with the last one first.\<close>

fun remove_ranges ::
    "id_range list \<Rightarrow> sorted_ids \<Rightarrow> 'p hd_event list \<Rightarrow> (sorted_ids \<times> 'p hd_event list) option" where
  "remove_ranges [] s log = Some (s, log)"
| "remove_ranges (r # rs) s log =
     (case Ids_RemoveRange s (fst r) (snd r) of
        None \<Rightarrow> None
      | Some (err, s) \<Rightarrow> remove_ranges rs s (if err then log @ [RangeWhileUnsorted] else log))"

definition remove_subtree_entry ::
    "sdf_path \<Rightarrow> 'd \<Rightarrow> ('d, 'p) prim_type_entry \<Rightarrow> 'p hd_event list \<Rightarrow>
     (('d, 'p) prim_type_entry \<times> 'p hd_event list) option" where
  "remove_subtree_entry root sceneDelegate e log =
     (case GetIds (entry_ids e) of
        None \<Rightarrow> None
      | Some (ids, s) \<Rightarrow>
          (case SubtreeAsRange new_gather ids root of
             None \<Rightarrow> None
           | Some (_, NoRange) \<Rightarrow> Some (e\<lparr>entry_ids := s\<rparr>, log)
           | Some (_, SeveralRanges) \<Rightarrow> Some (e\<lparr>entry_ids := s\<rparr>, log @ [SeveralSubtreeRanges])
           | Some (_, OneRange start stop) \<Rightarrow>
               if length ids \<le> stop then None
               else
                 let (m, log, currentRangeStart, ranges) =
                       subtree_loop sceneDelegate ids [start..<stop + 1] (entry_map e) log start [];
                     ranges = (if currentRangeStart \<le> stop then ranges @ [(currentRangeStart, stop)] else ranges)
                 in (case remove_ranges (rev ranges) s log of
                       None \<Rightarrow> None
                     | Some (s, log) \<Rightarrow> Some (e\<lparr>entry_map := m, entry_ids := s\<rparr>, log))))"

fun remove_subtree_entries ::
    "sdf_path \<Rightarrow> 'd \<Rightarrow> ('d, 'p) prim_type_entry list \<Rightarrow> 'p hd_event list \<Rightarrow>
     (('d, 'p) prim_type_entry list \<times> 'p hd_event list) option" where
  "remove_subtree_entries root sceneDelegate [] log = Some ([], log)"
| "remove_subtree_entries root sceneDelegate (e # es) log =
     (case remove_subtree_entry root sceneDelegate e log of
        None \<Rightarrow> None
      | Some (e, log) \<Rightarrow>
          (case remove_subtree_entries root sceneDelegate es log of
             None \<Rightarrow> None
           | Some (es, log) \<Rightarrow> Some (e # es, log)))"

definition RemoveSubtree ::
    "sdf_path \<Rightarrow> 'd \<Rightarrow> ('d, 'p) prim_type_index \<Rightarrow> 'p hd_event list \<Rightarrow>
     (('d, 'p) prim_type_index \<times> 'p hd_event list) option" where
  "RemoveSubtree root sceneDelegate idx log =
     (case remove_subtree_entries root sceneDelegate (index_entries idx) log of
        None \<Rightarrow> None
      | Some (es, log) \<Rightarrow> Some (idx\<lparr>index_entries := es\<rparr>, log))"

section \<open>Queries and fallbacks\<close>

definition GetPrim ::
    "token \<Rightarrow> sdf_path \<Rightarrow> ('d, 'p) prim_type_index \<Rightarrow> 'p hd_event list \<Rightarrow> ('p option \<times> 'p hd_event list) option" where
  "GetPrim typeId primId idx log =
     (case index_types idx typeId of
        None \<Rightarrow> Some (None, log @ [UnsupportedType typeId])
      | Some typeIdx \<Rightarrow>
          if length (index_entries idx) \<le> typeIdx then None
          else Some (map_option info_prim (entry_map (index_entries idx ! typeIdx) primId), log))"

definition GetFallbackPrim ::
    "token \<Rightarrow> ('d, 'p) prim_type_index \<Rightarrow> 'p hd_event list \<Rightarrow> ('p option \<times> 'p hd_event list) option" where
  "GetFallbackPrim typeId idx log =
     (case index_types idx typeId of
        None \<Rightarrow> Some (None, log @ [UnsupportedType typeId])
      | Some typeIdx \<Rightarrow>
          if length (index_entries idx) \<le> typeIdx then None
          else Some (entry_fallback (index_entries idx ! typeIdx), log))"

text \<open>The paths are those of the argument \<open>outPaths\<close> when the type is unknown.\<close>

definition GetPrimSubtree ::
    "token \<Rightarrow> sdf_path \<Rightarrow> sdf_path list \<Rightarrow> ('d, 'p) prim_type_index \<Rightarrow> 'p hd_event list \<Rightarrow>
     (sdf_path list \<times> ('d, 'p) prim_type_index \<times> 'p hd_event list) option" where
  "GetPrimSubtree typeId rootPath outPaths idx log =
     (case index_types idx typeId of
        None \<Rightarrow> Some (outPaths, idx, log @ [UnsupportedType typeId])
      | Some typeIdx \<Rightarrow>
          if length (index_entries idx) \<le> typeIdx then None
          else
            let e = index_entries idx ! typeIdx in
            (case GetIds (entry_ids e) of
               None \<Rightarrow> None
             | Some (ids, s) \<Rightarrow>
                 (case Gather_Subtree new_gather ids rootPath of
                    None \<Rightarrow> None
                  | Some (_, paths) \<Rightarrow>
                      Some (paths, idx\<lparr>index_entries := (index_entries idx)[typeIdx := e\<lparr>entry_ids := s\<rparr>]\<rparr>, log))))"

fun create_fallbacks ::
    "('d, 'p) index_env \<Rightarrow> token list \<Rightarrow> ('d, 'p) prim_type_index \<Rightarrow> 'p hd_event list \<Rightarrow> bool \<Rightarrow>
     (bool \<times> ('d, 'p) prim_type_index \<times> 'p hd_event list) option" where
  "create_fallbacks env [] idx log success = Some (success, idx, log)"
| "create_fallbacks env (t # ts) idx log success =
     (case index_types idx t of
        None \<Rightarrow> None
      | Some typeIdx \<Rightarrow>
          if length (index_entries idx) \<le> typeIdx then None
          else
            let prim = env_create_fallback env log t in
            create_fallbacks env ts
              (idx\<lparr>index_entries := (index_entries idx)[typeIdx := (index_entries idx ! typeIdx)\<lparr>entry_fallback := prim\<rparr>]\<rparr>)
              (log @ [FallbackCreated t prim]) (success \<and> prim \<noteq> None))"

definition CreateFallbackPrims ::
    "('d, 'p) index_env \<Rightarrow> ('d, 'p) prim_type_index \<Rightarrow> 'p hd_event list \<Rightarrow>
     (bool \<times> ('d, 'p) prim_type_index \<times> 'p hd_event list) option" where
  "CreateFallbackPrims env idx log = create_fallbacks env (env_type_order env (index_types idx)) idx log True"

definition DestroyFallbackPrims ::
    "('d, 'p) prim_type_index \<Rightarrow> 'p hd_event list \<Rightarrow> ('d, 'p) prim_type_index \<times> 'p hd_event list" where
  "DestroyFallbackPrims idx log =
     (idx\<lparr>index_entries := map (\<lambda>e. e\<lparr>entry_fallback := None\<rparr>) (index_entries idx)\<rparr>,
      log @ concat (map (\<lambda>e. destroy_events (entry_fallback e)) (index_entries idx)))"

section \<open>Removing ranges from back to front\<close>

definition erase_positions :: "id_range \<Rightarrow> sdf_path list \<Rightarrow> sdf_path list" where
  "erase_positions r xs = take (fst r) xs @ drop (Suc (snd r)) xs"

definition range_chain :: "nat \<Rightarrow> id_range list \<Rightarrow> bool" where
  "range_chain n rs \<longleftrightarrow> (\<forall>r \<in> set rs. fst r \<le> snd r \<and> snd r < n) \<and> sorted_wrt (\<lambda>r r'. snd r < fst r') rs"

lemma range_chain_snoc:
  "range_chain n (rs @ [r]) \<longleftrightarrow> range_chain (fst r) rs \<and> fst r \<le> snd r \<and> snd r < n"
  by (fastforce simp: range_chain_def sorted_wrt_append)

lemma range_chain_mono: "range_chain n rs \<Longrightarrow> n \<le> k \<Longrightarrow> range_chain k rs"
  by (auto simp: range_chain_def)

lemma remove_ranges_erased:
  "sorted xs \<Longrightarrow> range_chain (length xs) rs \<Longrightarrow>
   remove_ranges (rev rs) (sorted_state (mset xs)) log
   = Some (sorted_state (mset (foldr erase_positions rs xs)), log)"
proof (induction rs arbitrary: xs rule: rev_induct)
  case (snoc r rs)
  let ?xs = "erase_positions r xs"
  from snoc.prems have r: "range_chain (fst r) rs" "fst r \<le> snd r" "snd r < length xs"
    by (simp_all add: range_chain_snoc)
  have "Ids_RemoveRange (sorted_state (mset xs)) (fst r) (snd r) = Some (False, sorted_state (mset ?xs))"
    using snoc.prems(1) r by (subst Ids_RemoveRange_sorted)
      (simp_all add: sort_key_id_if_sorted erase_positions_def)
  moreover have "sorted ?xs" using snoc.prems(1) r by (simp add: erase_positions_def sorted_erase)
  moreover have "range_chain (length ?xs) rs"
    using r by (intro range_chain_mono [OF r(1)]) (simp add: erase_positions_def)
  ultimately show ?case using snoc.IH [of ?xs] by simp
qed simp

text \<open>
  The positions from \<open>cs\<close> to \<open>i\<close> are owned and wait to become a range; those before \<open>cs\<close> are
  settled: erasing the ranges leaves of them exactly the ids that are not owned.
\<close>

definition ranges_inv ::
    "(sdf_path \<Rightarrow> bool) \<Rightarrow> sdf_path list \<Rightarrow> nat \<Rightarrow> nat \<Rightarrow> nat \<Rightarrow> id_range list \<Rightarrow> bool" where
  "ranges_inv owned ids start i cs rs \<longleftrightarrow> start \<le> cs \<and> cs \<le> i \<and>
     (\<forall>j. cs \<le> j \<longrightarrow> j < i \<longrightarrow> owned (ids ! j)) \<and> range_chain cs rs \<and>
     (\<forall>tail. foldr erase_positions rs (take cs ids @ tail)
        = take start ids @ filter (\<lambda>p. \<not> owned p) (map ((!) ids) [start..<cs]) @ tail)"

lemma ranges_inv_owned:
  "ranges_inv owned ids start i cs rs \<Longrightarrow> owned (ids ! i) \<Longrightarrow> ranges_inv owned ids start (Suc i) cs rs"
  by (auto simp: ranges_inv_def less_Suc_eq)

lemma ranges_inv_close:
  assumes "ranges_inv owned ids start i cs rs" "i \<le> length ids"
  defines "rs' \<equiv> if cs < i then rs @ [(cs, i - 1)] else rs"
  shows "range_chain i rs'"
    and "foldr erase_positions rs' (take i ids @ tail)
      = take start ids @ filter (\<lambda>p. \<not> owned p) (map ((!) ids) [start..<i]) @ tail"
proof -
  note inv = assms(1) [unfolded ranges_inv_def]
  show "range_chain i rs'"
    using inv by (auto simp: rs'_def range_chain_snoc intro: range_chain_mono)
  have "[start..<i] = [start..<cs] @ [cs..<i]" using inv by (intro upt_split) auto
  moreover have "filter (\<lambda>p. \<not> owned p) (map ((!) ids) [cs..<i]) = []"
    using inv by (auto simp: filter_empty_conv)
  moreover have "foldr erase_positions rs' (take i ids @ tail) = foldr erase_positions rs (take cs ids @ tail)"
    using inv assms(2) by (auto simp: rs'_def erase_positions_def)
  ultimately show "foldr erase_positions rs' (take i ids @ tail)
      = take start ids @ filter (\<lambda>p. \<not> owned p) (map ((!) ids) [start..<i]) @ tail"
    using inv by simp
qed

lemma ranges_inv_kept:
  assumes "ranges_inv owned ids start i cs rs" "i < length ids" "\<not> owned (ids ! i)"
  shows "ranges_inv owned ids start (Suc i) (Suc i) (if cs < i then rs @ [(cs, i - 1)] else rs)"
proof -
  note close = ranges_inv_close [OF assms(1) less_imp_le [OF assms(2)]]
  have "start \<le> i" using assms(1) by (simp add: ranges_inv_def)
  moreover have "take (Suc i) ids @ tail = take i ids @ ids ! i # tail" for tail
    using assms(2) by (simp add: take_Suc_snoc)
  ultimately show ?thesis
    using close(1) close(2) [of "ids ! i # _"] assms(3)
    unfolding ranges_inv_def by (auto intro: range_chain_mono)
qed

lemma subtree_loop_result:
  assumes "ranges_inv owned ids start i cs rs" "i \<le> k" "k \<le> length ids" "distinct ids"
    and "\<And>j. i \<le> j \<Longrightarrow> j < k \<Longrightarrow> m (ids ! j) \<noteq> None"
    and "\<And>j info. i \<le> j \<Longrightarrow> j < k \<Longrightarrow> m (ids ! j) = Some info \<Longrightarrow>
      owned (ids ! j) \<longleftrightarrow> info_delegate info = sceneDelegate"
    and "subtree_loop sceneDelegate ids [i..<k] m log cs rs = (m', log', cs', rs')"
  shows "ranges_inv owned ids start k cs' rs' \<and>
    m' = (\<lambda>p. if p \<in> (!) ids ` {i..<k} \<and> owned p then None else m p)"
  using assms
proof (induction "k - i" arbitrary: i m log cs rs)
  case 0
  then show ?case by simp
next
  case (Suc n)
  then have i: "i < k" "[i..<k] = i # [Suc i..<k]" "{i..<k} = insert i {Suc i..<k}"
    by (auto simp: upt_conv_Cons)
  have n: "n = k - Suc i" using Suc.hyps(2) by simp
  have len: "i < length ids" using i Suc.prems(3) by simp
  from Suc.prems(5) [of i] i obtain info where info: "m (ids ! i) = Some info" by auto
  have other: "ids ! j \<noteq> ids ! i" if "Suc i \<le> j" "j < k" for j
    using that Suc.prems(3,4) by (simp add: nth_eq_iff_index_eq)
  show ?case
  proof (cases "info_delegate info = sceneDelegate")
    case True
    then have owned: "owned (ids ! i)" using Suc.prems(6) [of i] i info by simp
    let ?m = "m(ids ! i := None)"
    have "ranges_inv owned ids start k cs' rs' \<and>
      m' = (\<lambda>p. if p \<in> (!) ids ` {Suc i..<k} \<and> owned p then None else ?m p)"
    proof (rule Suc.hyps(1) [OF n ranges_inv_owned [OF Suc.prems(1) owned] _ Suc.prems(3,4)])
      show "subtree_loop sceneDelegate ids [Suc i..<k] ?m
          (log @ TrackerRemoved (ids ! i) # destroy_events (Some (info_prim info))) cs rs = (m', log', cs', rs')"
        using Suc.prems(7) True info by (simp add: i Let_def)
    qed (use i other Suc.prems(5,6) in auto)
    then show ?thesis using owned by (auto simp: i(3) fun_eq_iff)
  next
    case False
    then have kept: "\<not> owned (ids ! i)" using Suc.prems(6) [of i] i info by simp
    have "ranges_inv owned ids start k cs' rs' \<and>
      m' = (\<lambda>p. if p \<in> (!) ids ` {Suc i..<k} \<and> owned p then None else m p)"
    proof (rule Suc.hyps(1) [OF n ranges_inv_kept [OF Suc.prems(1) len kept] _ Suc.prems(3,4)])
      show "subtree_loop sceneDelegate ids [Suc i..<k] m log (Suc i)
          (if cs < i then rs @ [(cs, i - 1)] else rs) = (m', log', cs', rs')"
        using Suc.prems(7) False info by (simp add: i Let_def)
    qed (use i Suc.prems(5,6) in auto)
    then show ?thesis using kept by (auto simp: i(3) fun_eq_iff)
  qed
qed

section \<open>The prims created, held and destroyed\<close>

definition created_by :: "'p hd_event \<Rightarrow> 'p list" where
  "created_by e = (case e of PrimCreated _ _ (Some p) \<Rightarrow> [p] | FallbackCreated _ (Some p) \<Rightarrow> [p] | _ \<Rightarrow> [])"

definition destroyed_by :: "'p hd_event \<Rightarrow> 'p list" where
  "destroyed_by e = (case e of PrimDestroyed (Some p) \<Rightarrow> [p] | _ \<Rightarrow> [])"

definition created_prims :: "'p hd_event list \<Rightarrow> 'p multiset" where
  "created_prims log = mset (concat (map created_by log))"

definition destroyed_prims :: "'p hd_event list \<Rightarrow> 'p multiset" where
  "destroyed_prims log = mset (concat (map destroyed_by log))"

definition held_prims :: "('d, 'p) prim_map \<Rightarrow> 'p multiset" where
  "held_prims m = image_mset (\<lambda>p. info_prim (the (m p))) (mset_set (dom m))"

definition entry_prims :: "('d, 'p) prim_type_entry \<Rightarrow> 'p multiset" where
  "entry_prims e = held_prims (entry_map e) + (case entry_fallback e of None \<Rightarrow> {#} | Some p \<Rightarrow> {#p#})"

lemma log_prims [simp]:
  "created_prims (xs @ ys) = created_prims xs + created_prims ys"
  "destroyed_prims (xs @ ys) = destroyed_prims xs + destroyed_prims ys"
  "created_prims [] = {#}" "destroyed_prims [] = {#}"
  by (simp_all add: created_prims_def destroyed_prims_def)

lemma event_prims [simp]:
  "created_prims (e # log) = mset (created_by e) + created_prims log"
  "destroyed_prims (e # log) = mset (destroyed_by e) + destroyed_prims log"
  by (simp_all add: created_prims_def destroyed_prims_def)

lemma by_events [simp]:
  "created_by (TrackerRemoved p) = []" "destroyed_by (TrackerRemoved p) = []"
  "created_by (TrackerInserted p b) = []" "destroyed_by (TrackerInserted p b) = []"
  "created_by (IdNotInMap p) = []" "destroyed_by (IdNotInMap p) = []"
  "created_by (UnsupportedType t) = []" "destroyed_by (UnsupportedType t) = []"
  "created_by (DelegateNotPrefix p) = []" "destroyed_by (DelegateNotPrefix p) = []"
  "created_by (PrimCreated t p None) = []" "destroyed_by (PrimCreated t p q) = []"
  "created_by (PrimCreated t p (Some r)) = [r]"
  by (simp_all add: created_by_def destroyed_by_def)

lemma destroy_events_prims [simp]:
  "created_prims (destroy_events q) = {#}"
  "destroyed_prims (destroy_events q) = (case q of None \<Rightarrow> {#} | Some p \<Rightarrow> {#p#})"
  by (simp_all add: destroy_events_def created_by_def destroyed_by_def split: option.split)

lemma held_prims_remove:
  assumes "finite (dom m)" "m p = Some info"
  shows "held_prims m = add_mset (info_prim info) (held_prims (m(p := None)))"
proof -
  have "mset_set (dom m) = add_mset p (mset_set (dom m - {p}))"
    using assms by (intro mset_set.remove) auto
  moreover have "image_mset (\<lambda>q. info_prim (the (m q))) (mset_set (dom m - {p}))
      = image_mset (\<lambda>q. info_prim (the ((m(p := None)) q))) (mset_set (dom m - {p}))"
    using assms(1) by (intro image_mset_cong) auto
  ultimately show ?thesis using assms(2) by (simp add: held_prims_def)
qed

lemma held_prims_insert:
  assumes "finite (dom m)" "m p = None"
  shows "held_prims (m(p \<mapsto> info)) = add_mset (info_prim info) (held_prims m)"
proof -
  have "(m(p \<mapsto> info))(p := None) = m" using assms(2) by auto
  then show ?thesis using held_prims_remove [of "m(p \<mapsto> info)" p info] assms(1) by simp
qed

lemma subtree_loop_log:
  "finite (dom m) \<Longrightarrow> subtree_loop sceneDelegate ids js m log cs rs = (m', log', cs', rs') \<Longrightarrow>
   destroyed_prims log' + held_prims m' = destroyed_prims log + held_prims m \<and>
   created_prims log' = created_prims log"
proof (induction sceneDelegate ids js m log cs rs rule: subtree_loop.induct)
  case (2 sceneDelegate ids i js m log cs rs)
  show ?case
  proof (cases "m (ids ! i)")
    case None
    with "2.IH"(1) [OF refl None "2.prems"(1)] "2.prems"(2) show ?thesis by (simp add: Let_def)
  next
    case (Some info)
    show ?thesis
    proof (cases "info_delegate info = sceneDelegate")
      case True
      have "finite (dom (m(ids ! i := None)))" using "2.prems"(1) by simp
      from "2.IH"(2) [OF refl Some True this] "2.prems"(2) Some True held_prims_remove [OF "2.prems"(1) Some]
      show ?thesis by (simp add: Let_def fun_upd_def)
    next
      case False
      with "2.IH"(3) [OF refl Some False "2.prems"(1)] "2.prems"(2) Some show ?thesis by (simp add: Let_def)
    qed
  qed
qed simp

section \<open>The invariant of an entry\<close>

definition entry_ok :: "(sdf_path \<Rightarrow> 64 word) \<Rightarrow> nat \<Rightarrow> ('d, 'p) prim_type_entry \<Rightarrow> bool" where
  "entry_ok h n e \<longleftrightarrow> ids_ok h (entry_ids e) \<and> finite (dom (entry_map e)) \<and>
     contents (entry_ids e) = mset_set (dom (entry_map e)) \<and>
     (\<forall>p \<in> dom (entry_map e). IsAbsolutePath p) \<and> card (dom (entry_map e)) \<le> n"

text \<open>The specification of \<open>RemoveSubtree\<close> on the map of an entry.\<close>

definition without_subtree :: "sdf_path \<Rightarrow> 'd \<Rightarrow> ('d, 'p) prim_map \<Rightarrow> ('d, 'p) prim_map" where
  "without_subtree root sceneDelegate m = (\<lambda>p. case m p of
     None \<Rightarrow> None
   | Some info \<Rightarrow> if HasPrefix p root \<and> info_delegate info = sceneDelegate then None else Some info)"

lemma dom_without_subtree: "dom (without_subtree root sceneDelegate m) \<subseteq> dom m"
  by (auto simp: without_subtree_def split: option.splits)

lemma entry_ids_gatherable:
  assumes "entry_ok h n e" "n < 2 ^ 64"
  shows "gatherable (sorted_list_of_multiset (contents (entry_ids e)))"
    "distinct (sorted_list_of_multiset (contents (entry_ids e)))"
    "set (sorted_list_of_multiset (contents (entry_ids e))) = dom (entry_map e)"
proof -
  have D: "finite (dom (entry_map e))"
    "sorted_list_of_multiset (contents (entry_ids e)) = sorted_list_of_set (dom (entry_map e))"
    using assms(1) by (simp_all add: entry_ok_def sorted_list_of_mset_set)
  then show "distinct (sorted_list_of_multiset (contents (entry_ids e)))"
    "set (sorted_list_of_multiset (contents (entry_ids e))) = dom (entry_map e)" by simp_all
  show "gatherable (sorted_list_of_multiset (contents (entry_ids e)))"
    unfolding D(2) gatherable_def using assms D(1) by (auto simp: entry_ok_def list_all_iff)
qed

lemma slice_of_filter:
  assumes "start \<le> Suc stop" "range_slice ps (start, stop) = filter P ps"
  shows "\<forall>p \<in> set (take start ps) \<union> set (drop (Suc stop) ps). \<not> P p"
proof -
  let ?s = "range_slice ps (start, stop)"
  have "ps = take start ps @ ?s @ drop (Suc stop) ps"
    using assms(1) by (simp add: range_slice_def)
      (metis append_take_drop_id drop_drop le_add_diff_inverse2)
  then have parts: "filter P ps = filter P (take start ps) @ filter P ?s @ filter P (drop (Suc stop) ps)"
    by (metis filter_append)
  have "filter P ?s = ?s" unfolding assms(2) by simp
  with arg_cong [OF parts, of length] assms(2) have
    "filter P (take start ps) = []" "filter P (drop (Suc stop) ps) = []" by simp_all
  then show ?thesis unfolding filter_empty_conv by blast
qed

section \<open>Removing a subtree from an entry\<close>

text \<open>\<open>held\<close> and \<open>log\<close> before and after: what leaves the map is destroyed, once.\<close>

definition destroys_removed ::
    "'p hd_event list \<Rightarrow> ('d, 'p) prim_type_entry \<Rightarrow> 'p hd_event list \<Rightarrow> ('d, 'p) prim_type_entry \<Rightarrow> bool" where
  "destroys_removed log e log' e' \<longleftrightarrow> created_prims log' = created_prims log \<and>
     destroyed_prims log' + entry_prims e' = destroyed_prims log + entry_prims e"

lemma range_slice_parts: "start \<le> Suc stop \<Longrightarrow> take start ps @ range_slice ps (start, stop) @ drop (Suc stop) ps = ps"
  by (simp add: range_slice_def) (metis append_take_drop_id drop_drop le_add_diff_inverse2)

lemma union_kept:
  "D = A \<union> S \<Longrightarrow> S = {p \<in> D. P p} \<Longrightarrow> (\<And>p. p \<in> A \<Longrightarrow> \<not> P p) \<Longrightarrow>
   A \<union> {p \<in> S. \<not> Q p} = {p \<in> D. \<not> (P p \<and> Q p)}"
  by blast

lemma remove_subtree_range:
  assumes "entry_ok h n e" "n < 2 ^ 64"
    and ids: "ids = sorted_list_of_multiset (contents (entry_ids e))"
    and range: "valid_range ids (start, stop)" "range_slice ids (start, stop) = filter (\<lambda>p. HasPrefix p root) ids"
    and loop: "subtree_loop sceneDelegate ids [start..<Suc stop] (entry_map e) log start [] = (m', log', cs, rs)"
  shows "m' = without_subtree root sceneDelegate (entry_map e)"
    and "remove_ranges (rev (if cs \<le> stop then rs @ [(cs, stop)] else rs)) (sorted_state (contents (entry_ids e))) log'
      = Some (sorted_state (mset_set (dom m')), log')"
proof -
  note gat = entry_ids_gatherable [OF assms(1,2), folded ids]
  let ?m = "entry_map e"
  let ?owned = "\<lambda>p. \<exists>info. ?m p = Some info \<and> info_delegate info = sceneDelegate"
  have v: "start \<le> Suc stop" "Suc stop \<le> length ids" using range(1) by (auto simp: valid_range_def)
  have slice: "range_slice ids (start, stop) = map ((!) ids) [start..<Suc stop]"
    using v by (intro range_slice_nth) simp
  have mem: "ids ! j \<in> dom ?m" if "j < Suc stop" for j using that v(2) gat(3) by auto
  have inv: "ranges_inv ?owned ids start start start []"
    by (simp add: ranges_inv_def range_chain_def)
  have "ranges_inv ?owned ids start (Suc stop) cs rs \<and>
    m' = (\<lambda>p. if p \<in> (!) ids ` {start..<Suc stop} \<and> ?owned p then None else ?m p)"
    by (rule subtree_loop_result [OF inv v gat(2) _ _ loop]) (use mem in auto)
  then have inv': "ranges_inv ?owned ids start (Suc stop) cs rs"
    and m': "m' = (\<lambda>p. if p \<in> (!) ids ` {start..<Suc stop} \<and> ?owned p then None else ?m p)" by auto
  have "(!) ids ` {start..<Suc stop} = set (range_slice ids (start, stop))" unfolding slice by (simp del: upt_Suc)
  also have "\<dots> = {p \<in> dom ?m. HasPrefix p root}" unfolding range(2) using gat(3) by auto
  finally show "m' = without_subtree root sceneDelegate ?m"
    unfolding m' by (auto simp: without_subtree_def fun_eq_iff split: option.splits)
  let ?rs = "if cs < Suc stop then rs @ [(cs, Suc stop - 1)] else rs"
  note close = ranges_inv_close [OF inv' v(2)]
  let ?kept = "take start ids @ filter (\<lambda>p. \<not> ?owned p) (range_slice ids (start, stop)) @ drop (Suc stop) ids"
  have erased: "foldr erase_positions ?rs ids = ?kept"
    using close(2) [of "drop (Suc stop) ids"] unfolding slice by simp
  have parts: "ids = take start ids @ range_slice ids (start, stop) @ drop (Suc stop) ids"
    using range_slice_parts [OF v(1)] by simp
  have outside: "\<not> HasPrefix p root" if "p \<in> set (take start ids) \<union> set (drop (Suc stop) ids)" for p
    using slice_of_filter [OF v(1) range(2)] that by blast
  have "distinct (take start ids @ range_slice ids (start, stop) @ drop (Suc stop) ids)"
    using gat(2) parts by simp
  then have distinct: "distinct ?kept" by auto
  have set: "set ?kept = dom m'"
  proof -
    let ?A = "set (take start ids) \<union> set (drop (Suc stop) ids)"
    have whole: "dom ?m = ?A \<union> set (range_slice ids (start, stop))"
      unfolding gat(3) [symmetric] by (metis parts set_append sup_assoc sup_commute)
    have hit: "set (range_slice ids (start, stop)) = {p \<in> dom ?m. HasPrefix p root}"
      unfolding range(2) using gat(3) by auto
    have "set ?kept = ?A \<union> {p \<in> set (range_slice ids (start, stop)). \<not> ?owned p}" by auto
    moreover have "dom m' = {p \<in> dom ?m. \<not> (HasPrefix p root \<and> ?owned p)}"
      unfolding \<open>m' = without_subtree root sceneDelegate ?m\<close> without_subtree_def
      by (auto split: option.splits if_splits)
    ultimately show ?thesis using union_kept [OF whole hit outside, of ?owned] by simp
  qed
  have kept: "mset ?kept = mset_set (dom m')" by (rule mset_set_set [OF distinct, unfolded set, symmetric])
  have "sorted ids" using gat(1) by (simp add: gatherable_def)
  moreover have "range_chain (length ids) ?rs" using close(1) v(2) by (rule range_chain_mono)
  moreover have "mset ids = contents (entry_ids e)" by (simp add: ids)
  moreover have "(if cs \<le> stop then rs @ [(cs, stop)] else rs) = ?rs" by (simp add: less_Suc_eq_le)
  ultimately show "remove_ranges (rev (if cs \<le> stop then rs @ [(cs, stop)] else rs))
      (sorted_state (contents (entry_ids e))) log' = Some (sorted_state (mset_set (dom m')), log')"
    using remove_ranges_erased [of ids ?rs log'] erased kept by simp
qed

lemma remove_subtree_entry_result:
  assumes "entry_ok h n e" "n < 2 ^ 64"
  shows "\<exists>e' log'. remove_subtree_entry root sceneDelegate e log = Some (e', log') \<and>
    entry_ok h n e' \<and> entry_map e' = without_subtree root sceneDelegate (entry_map e) \<and>
    entry_fallback e' = entry_fallback e \<and> destroys_removed log e log' e'"
proof -
  let ?M = "contents (entry_ids e)" and ?m = "without_subtree root sceneDelegate (entry_map e)"
  let ?ids = "sorted_list_of_multiset ?M"
  note gat = entry_ids_gatherable [OF assms]
  have ok: "ids_ok h (entry_ids e)" "finite (dom (entry_map e))" "?M = mset_set (dom (entry_map e))"
    using assms(1) by (simp_all add: entry_ok_def)
  have get: "GetIds (entry_ids e) = Some (?ids, sorted_state ?M)" by (rule GetIds_contents [OF ok(1)])
  have finite: "finite (dom ?m)" by (rule finite_subset [OF dom_without_subtree ok(2)])
  have ok': "entry_ok h n (e\<lparr>entry_map := ?m, entry_ids := sorted_state (mset_set (dom ?m))\<rparr>)"
    using assms(1) finite dom_without_subtree [of root sceneDelegate "entry_map e"]
      card_mono [OF ok(2) dom_without_subtree, of root sceneDelegate]
    by (auto simp: entry_ok_def)
  from SubtreeAsRange_result [OF gat(1), of root] obtain g r where
    r: "SubtreeAsRange new_gather ?ids root = Some (g, r)" "subtree_found ?ids root r" by blast
  show ?thesis
  proof (cases r)
    case NoRange
    have none: "?m = entry_map e"
      using r(2) gat(3) by (auto simp: NoRange subtree_found_def list_all_iff without_subtree_def fun_eq_iff
          split: option.splits)
    show ?thesis using ok' ok(3) get r(1) none
      by (simp add: remove_subtree_entry_def NoRange destroys_removed_def entry_prims_def)
  next
    case SeveralRanges
    with r(2) show ?thesis by (simp add: subtree_found_def)
  next
    case (OneRange start stop)
    obtain m' log' cs rs where loop: "subtree_loop sceneDelegate ?ids [start..<Suc stop] (entry_map e) log start []
      = (m', log', cs, rs)" by (metis prod_cases4)
    have range: "valid_range ?ids (start, stop)" "range_slice ?ids (start, stop) = filter (\<lambda>p. HasPrefix p root) ?ids"
      using r(2) OneRange by (simp_all add: subtree_found_def)
    note result = remove_subtree_range [OF assms refl range loop]
    have "\<not> length ?ids \<le> stop" using range(1) by (simp add: valid_range_def)
    then have "remove_subtree_entry root sceneDelegate e log
        = Some (e\<lparr>entry_map := ?m, entry_ids := sorted_state (mset_set (dom ?m))\<rparr>, log')"
      using get r(1) loop result
      by (simp add: remove_subtree_entry_def OneRange Let_def del: upt_Suc)
    moreover have "destroys_removed log e log' (e\<lparr>entry_map := ?m, entry_ids := sorted_state (mset_set (dom ?m))\<rparr>)"
      using subtree_loop_log [OF ok(2) loop] result(1)
      by (simp add: destroys_removed_def entry_prims_def union_assoc [symmetric])
    ultimately show ?thesis using ok' by simp
  qed
qed

section \<open>The invariant of the index\<close>

text \<open>
  What the index relies on: the ids of scene delegates are absolute (the constructor of
  \<open>HdSceneDelegate\<close> makes them so), and an unordered map is iterated over each of its keys once.
\<close>

definition env_ok :: "('d, 'p) index_env \<Rightarrow> bool" where
  "env_ok env \<longleftrightarrow> (\<forall>d. IsAbsolutePath (env_delegate_id env d)) \<and>
     (\<forall>m. finite (dom m) \<longrightarrow> distinct (env_map_order env m) \<and> set (env_map_order env m) = dom m)"

definition index_ok :: "('d, 'p) index_env \<Rightarrow> nat \<Rightarrow> ('d, 'p) prim_type_index \<Rightarrow> bool" where
  "index_ok env n idx \<longleftrightarrow> (\<forall>k \<in> ran (index_types idx). k < length (index_entries idx)) \<and>
     list_all (entry_ok (env_hash env) n) (index_entries idx)"

definition index_maps :: "('d, 'p) prim_type_index \<Rightarrow> ('d, 'p) prim_map list" where
  "index_maps idx = map entry_map (index_entries idx)"

definition index_prims :: "('d, 'p) prim_type_index \<Rightarrow> 'p multiset" where
  "index_prims idx = (\<Sum>e\<leftarrow>index_entries idx. entry_prims e)"

text \<open>An operation creates and destroys what the index gains and loses.\<close>

definition balanced_step ::
    "'p hd_event list \<Rightarrow> ('d, 'p) prim_type_index \<Rightarrow> 'p hd_event list \<Rightarrow> ('d, 'p) prim_type_index \<Rightarrow> bool" where
  "balanced_step log idx log' idx' \<longleftrightarrow>
     created_prims log + destroyed_prims log' + index_prims idx' = created_prims log' + destroyed_prims log + index_prims idx"

lemma index_ok_mono: "index_ok env n idx \<Longrightarrow> n \<le> k \<Longrightarrow> index_ok env k idx"
  by (auto simp: index_ok_def entry_ok_def list_all_iff)

lemma index_ok_entry:
  assumes "index_ok env n idx" "index_types idx t = Some k"
  shows "k < length (index_entries idx)" "entry_ok (env_hash env) n (index_entries idx ! k)"
  using assms by (auto simp: index_ok_def ran_def list_all_length)

lemma index_ok_update:
  assumes "index_ok env n idx" "entry_ok (env_hash env) k e" "n \<le> k"
  shows "index_ok env k (idx\<lparr>index_entries := (index_entries idx)[i := e]\<rparr>)"
  using index_ok_mono [OF assms(1,3)] assms(2) set_update_subset_insert [of "index_entries idx" i e]
  by (auto simp: index_ok_def list_all_iff)

lemma sum_list_swap:
  fixes F :: "'e \<Rightarrow> 'm multiset"
  shows "i < length es \<Longrightarrow> (\<Sum>e\<leftarrow>es[i := e']. F e) + F (es ! i) = (\<Sum>e\<leftarrow>es. F e) + F e'"
proof (induction es arbitrary: i)
  case (Cons x es)
  then show ?case by (cases i) (simp_all add: ac_simps)
qed simp

lemma balanced_update:
  assumes "i < length (index_entries idx)"
    and "created_prims log + destroyed_prims log' + entry_prims e'
      = created_prims log' + destroyed_prims log + entry_prims (index_entries idx ! i)"
  shows "balanced_step log idx log' (idx\<lparr>index_entries := (index_entries idx)[i := e']\<rparr>)"
proof -
  let ?e = "index_entries idx ! i" and ?idx = "idx\<lparr>index_entries := (index_entries idx)[i := e']\<rparr>"
  have "index_prims ?idx + entry_prims ?e = index_prims idx + entry_prims e'"
    using sum_list_swap [OF assms(1), of entry_prims e'] by (simp add: index_prims_def)
  then have "created_prims log + destroyed_prims log' + entry_prims e' + (index_prims ?idx + entry_prims ?e)
    = created_prims log' + destroyed_prims log + entry_prims ?e + (index_prims idx + entry_prims e')"
    using assms(2) by simp
  then have "(created_prims log + destroyed_prims log' + index_prims ?idx) + (entry_prims ?e + entry_prims e')
    = (created_prims log' + destroyed_prims log + index_prims idx) + (entry_prims ?e + entry_prims e')"
    by (simp only: ac_simps)
  then show ?thesis by (simp only: balanced_step_def add_right_cancel)
qed

subsection \<open>Each operation\<close>

definition spec_insert ::
    "('d, 'p) index_env \<Rightarrow> 'p hd_event list \<Rightarrow> (token \<rightharpoonup> nat) \<Rightarrow> token \<Rightarrow> 'd \<Rightarrow> sdf_path \<Rightarrow>
     ('d, 'p) prim_map list \<Rightarrow> ('d, 'p) prim_map list" where
  "spec_insert env log types typeId sceneDelegate primId ms =
     (case types typeId of
        None \<Rightarrow> ms
      | Some k \<Rightarrow>
          (case env_create env log typeId primId of
             None \<Rightarrow> ms
           | Some p \<Rightarrow>
               if HasPrefix primId (env_delegate_id env sceneDelegate) \<and> (ms ! k) primId = None
               then ms[k := (ms ! k)(primId \<mapsto> \<lparr>info_delegate = sceneDelegate, info_prim = p\<rparr>)] else ms))"

definition spec_remove ::
    "(token \<rightharpoonup> nat) \<Rightarrow> token \<Rightarrow> sdf_path \<Rightarrow> ('d, 'p) prim_map list \<Rightarrow> ('d, 'p) prim_map list" where
  "spec_remove types typeId primId ms =
     (case types typeId of None \<Rightarrow> ms | Some k \<Rightarrow> ms[k := (ms ! k)(primId := None)])"

lemma entry_ok_insert:
  assumes "entry_ok h n e" "entry_map e primId = None" "IsAbsolutePath primId"
    and "ids_ok h ids" "contents ids = add_mset primId (contents (entry_ids e))"
  shows "entry_ok h (Suc n) (e\<lparr>entry_map := (entry_map e)(primId \<mapsto> info), entry_ids := ids\<rparr>)"
  using assms by (auto simp: entry_ok_def domIff)

lemma entry_ok_remove:
  assumes "entry_ok h n e" "entry_map e primId = Some info"
    and "ids_ok h ids" "contents ids = contents (entry_ids e) - {#primId#}"
  shows "entry_ok h n (e\<lparr>entry_map := (entry_map e)(primId := None), entry_ids := ids\<rparr>)"
proof -
  have D: "finite (dom (entry_map e))" "primId \<in> dom (entry_map e)" using assms(1,2) by (auto simp: entry_ok_def)
  then have "card (dom (entry_map e) - {primId}) \<le> card (dom (entry_map e))" by (intro card_mono) auto
  then show ?thesis using assms D by (auto simp: entry_ok_def mset_set_Diff)
qed

lemma delegate_prefix_absolute: "HasPrefix p q \<Longrightarrow> IsAbsolutePath q \<Longrightarrow> IsAbsolutePath p"
  by (auto simp: HasPrefix_iff IsAbsolutePath_def)

lemma InsertPrim_result:
  assumes "env_ok env" "index_ok env n idx"
  shows "\<exists>idx' log'. InsertPrim env typeId sceneDelegate primId idx log = Some (idx', log') \<and>
    index_ok env (Suc n) idx' \<and> index_types idx' = index_types idx \<and>
    index_maps idx' = spec_insert env log (index_types idx) typeId sceneDelegate primId (index_maps idx) \<and>
    balanced_step log idx log' idx'"
proof (cases "index_types idx typeId")
  case None
  then show ?thesis using index_ok_mono [OF assms(2), of "Suc n"]
    by (simp add: InsertPrim_def spec_insert_def balanced_step_def)
next
  case (Some k)
  note entry = index_ok_entry [OF assms(2) Some]
  let ?e = "index_entries idx ! k"
  have same: "index_ok env (Suc n) idx" using index_ok_mono [OF assms(2)] by simp
  have map: "index_maps idx ! k = entry_map ?e" using entry(1) by (simp add: index_maps_def)
  show ?thesis
  proof (cases "HasPrefix primId (env_delegate_id env sceneDelegate)")
    case False
    with Some same show ?thesis by (auto simp: InsertPrim_def spec_insert_def balanced_step_def split: option.split)
  next
    case True
    then have absolute: "IsAbsolutePath primId" using assms(1) delegate_prefix_absolute by (auto simp: env_ok_def)
    show ?thesis
    proof (cases "env_create env log typeId primId")
      case None
      with Some True same show ?thesis by (simp add: InsertPrim_def spec_insert_def balanced_step_def)
    next
      case create: (Some p)
      show ?thesis
      proof (cases "entry_map ?e primId")
        case fresh: None
        have "ids_ok (env_hash env) (entry_ids ?e)" using entry(2) by (simp add: entry_ok_def)
        from sorted_container.insert_id [OF this, of primId] obtain ids where ids: "Ids_Insert (env_hash env) (entry_ids ?e) primId = Some ids"
          "ids_ok (env_hash env) ids" "contents ids = add_mset primId (contents (entry_ids ?e))" by blast
        let ?info = "\<lparr>info_delegate = sceneDelegate, info_prim = p\<rparr>"
        let ?e' = "?e\<lparr>entry_map := (entry_map ?e)(primId \<mapsto> ?info), entry_ids := ids\<rparr>"
        let ?log = "log @ [PrimCreated typeId primId (Some p)] @ [TrackerInserted primId (env_initial_dirty env p)]"
        let ?idx = "idx\<lparr>index_entries := (index_entries idx)[k := ?e']\<rparr>"
        have run: "InsertPrim env typeId sceneDelegate primId idx log = Some (?idx, ?log)"
          using Some True create fresh entry(1) ids(1) by (simp add: InsertPrim_def Let_def)
        have "index_ok env (Suc n) ?idx"
          by (rule index_ok_update [OF assms(2) entry_ok_insert [OF entry(2) fresh absolute ids(2,3)]]) simp
        moreover have "index_maps ?idx = spec_insert env log (index_types idx) typeId sceneDelegate primId (index_maps idx)"
          using Some True create fresh map by (simp add: spec_insert_def) (simp add: index_maps_def map_update)
        moreover have "balanced_step log idx ?log ?idx"
          using entry fresh held_prims_insert [of "entry_map ?e" primId ?info]
          by (intro balanced_update [OF entry(1)]) (simp add: entry_ok_def entry_prims_def ac_simps)
        ultimately show ?thesis using run by simp
      next
        case (Some info)
        with create True \<open>index_types idx typeId = Some k\<close> same entry(1) map show ?thesis
          by (simp add: InsertPrim_def spec_insert_def balanced_step_def Let_def)
      qed
    qed
  qed
qed

lemma RemovePrim_result:
  assumes "index_ok env n idx"
  shows "\<exists>idx' log'. RemovePrim env typeId primId idx log = Some (idx', log') \<and>
    index_ok env n idx' \<and> index_types idx' = index_types idx \<and>
    index_maps idx' = spec_remove (index_types idx) typeId primId (index_maps idx) \<and>
    balanced_step log idx log' idx'"
proof (cases "index_types idx typeId")
  case None
  then show ?thesis using assms by (simp add: RemovePrim_def spec_remove_def balanced_step_def)
next
  case (Some k)
  note entry = index_ok_entry [OF assms Some]
  let ?e = "index_entries idx ! k"
  have map: "index_maps idx ! k = entry_map ?e" using entry(1) by (simp add: index_maps_def)
  show ?thesis
  proof (cases "entry_map ?e primId")
    case None
    then have "(index_maps idx)[k := (index_maps idx ! k)(primId := None)] = index_maps idx"
      using map by (metis fun_upd_idem list_update_id)
    with None Some entry(1) assms show ?thesis
      by (simp add: RemovePrim_def spec_remove_def balanced_step_def)
  next
    case info: (Some info)
    have "ids_ok (env_hash env) (entry_ids ?e)" using entry(2) by (simp add: entry_ok_def)
    from sorted_container.remove_id [OF this, of primId] obtain ids where ids: "Ids_Remove (env_hash env) (entry_ids ?e) primId = Some ids"
      "ids_ok (env_hash env) ids" "contents ids = contents (entry_ids ?e) - {#primId#}" by blast
    let ?e' = "?e\<lparr>entry_map := (entry_map ?e)(primId := None), entry_ids := ids\<rparr>"
    let ?log = "log @ TrackerRemoved primId # destroy_events (Some (info_prim info))"
    let ?idx = "idx\<lparr>index_entries := (index_entries idx)[k := ?e']\<rparr>"
    have run: "RemovePrim env typeId primId idx log = Some (?idx, ?log)"
      using Some info entry(1) ids(1) by (simp add: RemovePrim_def Let_def)
    have "index_ok env n ?idx"
      by (rule index_ok_update [OF assms entry_ok_remove [OF entry(2) info ids(2,3)]]) simp
    moreover have "index_maps ?idx = spec_remove (index_types idx) typeId primId (index_maps idx)"
      using Some map by (simp add: spec_remove_def) (simp add: index_maps_def map_update)
    moreover have "balanced_step log idx ?log ?idx"
      using entry info held_prims_remove [of "entry_map ?e" primId info]
      by (intro balanced_update [OF entry(1)]) (simp add: entry_ok_def entry_prims_def ac_simps)
    ultimately show ?thesis using run by simp
  qed
qed

lemma RemoveSubtree_result:
  assumes "index_ok env n idx" "n < 2 ^ 64"
  shows "\<exists>idx' log'. RemoveSubtree root sceneDelegate idx log = Some (idx', log') \<and>
    index_ok env n idx' \<and> index_types idx' = index_types idx \<and>
    index_maps idx' = map (without_subtree root sceneDelegate) (index_maps idx) \<and>
    balanced_step log idx log' idx' \<and> created_prims log' = created_prims log \<and>
    destroyed_prims log' + index_prims idx' = destroyed_prims log + index_prims idx"
proof -
  let ?h = "env_hash env"
  have entries: "\<exists>es' log'. remove_subtree_entries root sceneDelegate es log = Some (es', log') \<and>
      length es' = length es \<and> list_all (entry_ok ?h n) es' \<and>
      map entry_map es' = map (without_subtree root sceneDelegate) (map entry_map es) \<and>
      created_prims log' = created_prims log \<and>
      destroyed_prims log' + (\<Sum>e\<leftarrow>es'. entry_prims e) = destroyed_prims log + (\<Sum>e\<leftarrow>es. entry_prims e)"
    if "list_all (entry_ok ?h n) es" for es and log :: "'b hd_event list"
    using that
  proof (induction es arbitrary: log)
    case (Cons e es)
    then have "entry_ok ?h n e" by simp
    from remove_subtree_entry_result [OF this assms(2)] obtain e' log1 where e':
      "remove_subtree_entry root sceneDelegate e log = Some (e', log1)" "entry_ok ?h n e'"
      "entry_map e' = without_subtree root sceneDelegate (entry_map e)" "destroys_removed log e log1 e'"
      by blast
    from Cons.IH [of log1] Cons.prems obtain es' log' where es': "remove_subtree_entries root sceneDelegate es log1 = Some (es', log')"
      "length es' = length es" "list_all (entry_ok ?h n) es'"
      "map entry_map es' = map (without_subtree root sceneDelegate) (map entry_map es)"
      "created_prims log' = created_prims log1"
      "destroyed_prims log' + (\<Sum>e\<leftarrow>es'. entry_prims e) = destroyed_prims log1 + (\<Sum>e\<leftarrow>es. entry_prims e)"
      by auto
    have "destroyed_prims log' + (\<Sum>e\<leftarrow>e' # es'. entry_prims e)
        = (destroyed_prims log' + (\<Sum>e\<leftarrow>es'. entry_prims e)) + entry_prims e'" by (simp add: ac_simps)
    also have "\<dots> = (destroyed_prims log1 + entry_prims e') + (\<Sum>e\<leftarrow>es. entry_prims e)"
      unfolding es'(6) by (simp add: ac_simps)
    also have "\<dots> = destroyed_prims log + (\<Sum>e\<leftarrow>e # es. entry_prims e)"
      using e'(4) by (simp add: destroys_removed_def ac_simps)
    finally show ?case using e' es'(1-5) by (simp add: destroys_removed_def)
  qed simp
  have "list_all (entry_ok ?h n) (index_entries idx)" using assms(1) by (simp add: index_ok_def)
  from entries [OF this, of log] obtain es' log' where r:
    "remove_subtree_entries root sceneDelegate (index_entries idx) log = Some (es', log')"
    "length es' = length (index_entries idx)" "list_all (entry_ok ?h n) es'"
    "map entry_map es' = map (without_subtree root sceneDelegate) (map entry_map (index_entries idx))"
    "created_prims log' = created_prims log"
    "destroyed_prims log' + (\<Sum>e\<leftarrow>es'. entry_prims e) = destroyed_prims log + (\<Sum>e\<leftarrow>index_entries idx. entry_prims e)"
    by blast
  let ?idx = "idx\<lparr>index_entries := es'\<rparr>"
  have "RemoveSubtree root sceneDelegate idx log = Some (?idx, log')" by (simp add: RemoveSubtree_def r(1))
  moreover have "index_ok env n ?idx" using assms(1) r(2,3) by (simp add: index_ok_def)
  moreover have "index_maps ?idx = map (without_subtree root sceneDelegate) (index_maps idx)"
    using r(4) by (simp add: index_maps_def del: map_map map_eq_conv)
  moreover have "balanced_step log idx log' ?idx"
    using r(6) by (simp add: balanced_step_def index_prims_def r(5) add.assoc)
  moreover have "destroyed_prims log' + index_prims ?idx = destroyed_prims log + index_prims idx"
    using r(6) by (simp add: index_prims_def)
  ultimately show ?thesis using r(5) by simp
qed

lemma clear_events_prims:
  "finite (dom m) \<Longrightarrow> distinct ks \<Longrightarrow> set ks \<subseteq> dom m \<Longrightarrow> created_prims (clear_events m ks) = {#} \<and>
   destroyed_prims (clear_events m ks) = image_mset (\<lambda>p. info_prim (the (m p))) (mset_set (set ks))"
  by (induction ks) (auto split: option.splits)

lemma Index_Clear_result:
  assumes "env_ok env" "index_ok env n idx"
  shows "case Index_Clear env idx log of (idx', log') \<Rightarrow>
    index_ok env n idx' \<and> index_types idx' = index_types idx \<and>
    index_maps idx' = map (\<lambda>_. Map.empty) (index_maps idx) \<and> balanced_step log idx log' idx'"
proof -
  let ?clear = "\<lambda>e. clear_events (entry_map e) (env_map_order env (entry_map e))"
  let ?empty = "\<lambda>e. e\<lparr>entry_map := Map.empty, entry_ids := Ids_Clear (entry_ids e)\<rparr>"
  have events: "created_prims (?clear e) = {#}" "destroyed_prims (?clear e) + entry_prims (?empty e) = entry_prims e"
    if "entry_ok (env_hash env) n e" for e
  proof -
    have D: "finite (dom (entry_map e))" using that by (simp add: entry_ok_def)
    then have "distinct (env_map_order env (entry_map e))" "set (env_map_order env (entry_map e)) = dom (entry_map e)"
      using assms(1) by (auto simp: env_ok_def)
    with clear_events_prims [OF D, of "env_map_order env (entry_map e)"]
    show "created_prims (?clear e) = {#}" "destroyed_prims (?clear e) + entry_prims (?empty e) = entry_prims e"
      by (simp_all add: entry_prims_def held_prims_def)
  qed
  have "created_prims (concat (map ?clear es)) = {#} \<and>
      destroyed_prims (concat (map ?clear es)) + (\<Sum>e\<leftarrow>map ?empty es. entry_prims e) = (\<Sum>e\<leftarrow>es. entry_prims e)"
    if "list_all (entry_ok (env_hash env) n) es" for es
    using that
  proof (induction es)
    case (Cons e es)
    then have IH: "created_prims (concat (map ?clear es)) = {#}"
      "destroyed_prims (concat (map ?clear es)) + (\<Sum>e\<leftarrow>map ?empty es. entry_prims e) = (\<Sum>e\<leftarrow>es. entry_prims e)"
      and e: "entry_ok (env_hash env) n e" by simp_all
    have "destroyed_prims (concat (map ?clear (e # es))) + (\<Sum>e\<leftarrow>map ?empty (e # es). entry_prims e)
      = (destroyed_prims (?clear e) + entry_prims (?empty e))
        + (destroyed_prims (concat (map ?clear es)) + (\<Sum>e\<leftarrow>map ?empty es. entry_prims e))"
      by (simp add: ac_simps)
    with IH events [OF e] show ?case by simp
  qed simp
  from this [of "index_entries idx"] assms(2) show ?thesis
    by (auto simp: Index_Clear_def index_ok_def index_maps_def balanced_step_def index_prims_def
        list_all_iff entry_ok_def Ids_Clear_contents ac_simps)
qed

text \<open>A query sorts the ids of its entry and returns those below the root in order.\<close>

lemma GetPrimSubtree_result:
  assumes "index_ok env n idx" "n < 2 ^ 64"
  shows "\<exists>paths idx' log'. GetPrimSubtree typeId rootPath outPaths idx log = Some (paths, idx', log') \<and>
    index_ok env n idx' \<and> index_types idx' = index_types idx \<and> index_maps idx' = index_maps idx \<and>
    balanced_step log idx log' idx' \<and>
    paths = (case index_types idx typeId of None \<Rightarrow> outPaths
      | Some k \<Rightarrow> filter (\<lambda>p. HasPrefix p rootPath) (sorted_list_of_set (dom (index_maps idx ! k))))"
proof (cases "index_types idx typeId")
  case None
  then show ?thesis using assms by (simp add: GetPrimSubtree_def balanced_step_def)
next
  case (Some k)
  note entry = index_ok_entry [OF assms(1) Some]
  let ?e = "index_entries idx ! k"
  have ok: "ids_ok (env_hash env) (entry_ids ?e)" "contents (entry_ids ?e) = mset_set (dom (entry_map ?e))"
    using entry(2) by (simp_all add: entry_ok_def)
  let ?ids = "sorted_list_of_multiset (contents (entry_ids ?e))"
  let ?e' = "?e\<lparr>entry_ids := sorted_state (contents (entry_ids ?e))\<rparr>"
  let ?idx = "idx\<lparr>index_entries := (index_entries idx)[k := ?e']\<rparr>"
  from FilterSubTree_result [OF entry_ids_gatherable(1) [OF entry(2) assms(2)], of rootPath]
  obtain g where "FilterSubTree new_gather ?ids rootPath = Some g"
    "WriteResults ?ids (gathered_ranges g) = filter (\<lambda>p. HasPrefix p rootPath) ?ids" by blast
  then have "Gather_Subtree new_gather ?ids rootPath = Some (g, filter (\<lambda>p. HasPrefix p rootPath) ?ids)"
    by (simp add: Gather_Subtree_def)
  then have "GetPrimSubtree typeId rootPath outPaths idx log = Some (filter (\<lambda>p. HasPrefix p rootPath) ?ids, ?idx, log)"
    using Some entry(1) GetIds_contents [OF ok(1)] by (simp add: GetPrimSubtree_def Let_def)
  moreover have "index_ok env n ?idx"
    using entry(2) by (intro index_ok_update [OF assms(1)]) (simp_all add: entry_ok_def)
  moreover have "index_maps ?idx = index_maps idx"
    using entry(1) by (simp add: index_maps_def map_update list_update_same_conv)
  moreover have "balanced_step log idx log ?idx"
    by (intro balanced_update [OF entry(1)]) (simp add: entry_prims_def)
  moreover have "?ids = sorted_list_of_set (dom (index_maps idx ! k))"
    using entry(1) by (simp add: ok(2) index_maps_def)
  ultimately show ?thesis using Some by auto
qed

section \<open>Fallback prims\<close>

lemma balanced_trans:
  assumes "balanced_step l0 i0 l1 i1" "balanced_step l1 i1 l2 i2"
  shows "balanced_step l0 i0 l2 i2"
proof -
  have "(created_prims l0 + destroyed_prims l1 + index_prims i1) + (created_prims l1 + destroyed_prims l2 + index_prims i2)
    = (created_prims l1 + destroyed_prims l0 + index_prims i0) + (created_prims l2 + destroyed_prims l1 + index_prims i1)"
    using assms by (simp only: balanced_step_def)
  then have "(created_prims l0 + destroyed_prims l2 + index_prims i2) + (created_prims l1 + destroyed_prims l1 + index_prims i1)
    = (created_prims l2 + destroyed_prims l0 + index_prims i0) + (created_prims l1 + destroyed_prims l1 + index_prims i1)"
    by (simp only: ac_simps)
  then show ?thesis by (simp only: balanced_step_def add_right_cancel)
qed

lemma create_fallbacks_result:
  assumes "index_ok env n idx" "distinct ts" "set ts \<subseteq> dom (index_types idx)"
    and "inj_on (index_types idx) (dom (index_types idx))"
    and "\<And>t k. t \<in> set ts \<Longrightarrow> index_types idx t = Some k \<Longrightarrow> entry_fallback (index_entries idx ! k) = None"
  shows "\<exists>success' idx' log'. create_fallbacks env ts idx log success = Some (success', idx', log') \<and>
    index_ok env n idx' \<and> index_types idx' = index_types idx \<and> index_maps idx' = index_maps idx \<and>
    balanced_step log idx log' idx'"
  using assms
proof (induction ts arbitrary: idx log success)
  case Nil
  then show ?case by (simp add: balanced_step_def)
next
  case (Cons t ts)
  from Cons.prems(3) obtain k where k: "index_types idx t = Some k" by auto
  note entry = index_ok_entry [OF Cons.prems(1) k]
  let ?e = "index_entries idx ! k" and ?prim = "env_create_fallback env log t"
  let ?idx = "idx\<lparr>index_entries := (index_entries idx)[k := ?e\<lparr>entry_fallback := ?prim\<rparr>]\<rparr>"
  let ?log = "log @ [FallbackCreated t ?prim]"
  have free: "entry_fallback ?e = None" using Cons.prems(5) [of t] k by simp
  have step: "balanced_step log idx ?log ?idx"
    using free by (intro balanced_update [OF entry(1)])
      (simp add: entry_prims_def created_by_def destroyed_by_def split: option.split)
  have "entry_ok (env_hash env) n (?e\<lparr>entry_fallback := ?prim\<rparr>)" using entry(2) by (simp add: entry_ok_def)
  then have ok: "index_ok env n ?idx" by (rule index_ok_update [OF Cons.prems(1)]) simp
  have "entry_fallback (index_entries ?idx ! j) = None" if "u \<in> set ts" "index_types ?idx u = Some j" for u j
  proof -
    have "u \<noteq> t" using that(1) Cons.prems(2) by auto
    then have "j \<noteq> k" using that(2) k Cons.prems(4) by (auto simp: inj_on_def dom_def)
    then show ?thesis using that Cons.prems(5) [of u j] by simp
  qed
  with Cons.IH [OF ok, of ?log "success \<and> ?prim \<noteq> None"] Cons.prems(2-4)
  obtain success' idx' log' where r: "create_fallbacks env ts ?idx ?log (success \<and> ?prim \<noteq> None) = Some (success', idx', log')"
    "index_ok env n idx'" "index_types idx' = index_types idx" "index_maps idx' = index_maps ?idx"
    "balanced_step ?log ?idx log' idx'" by auto
  moreover have "index_maps ?idx = index_maps idx"
    using entry(1) by (simp add: index_maps_def map_update list_update_same_conv)
  ultimately show ?case using k entry(1) balanced_trans [OF step r(5)] by (simp add: Let_def)
qed

lemma DestroyFallbackPrims_result:
  "case DestroyFallbackPrims idx log of (idx', log') \<Rightarrow>
     index_maps idx' = index_maps idx \<and> balanced_step log idx log' idx' \<and>
     list_all (\<lambda>e. entry_fallback e = None) (index_entries idx')"
proof -
  let ?free = "\<lambda>e :: ('a, 'b) prim_type_entry. e\<lparr>entry_fallback := None\<rparr>"
  have "created_prims (concat (map (\<lambda>e. destroy_events (entry_fallback e)) es)) = {#} \<and>
    destroyed_prims (concat (map (\<lambda>e. destroy_events (entry_fallback e)) es)) + (\<Sum>e\<leftarrow>map ?free es. entry_prims e)
    = (\<Sum>e\<leftarrow>es. entry_prims e)" for es
    by (induction es) (auto simp: entry_prims_def ac_simps split: option.split)
  from this [of "index_entries idx"] show ?thesis
    by (simp add: DestroyFallbackPrims_def balanced_step_def index_prims_def index_maps_def comp_def
        list_all_iff ac_simps)
qed

section \<open>The types\<close>

lemma emplace_types_result:
  assumes "\<forall>j \<in> ran m. j < k" "inj_on m (dom m)"
  shows "(\<forall>j \<in> ran (emplace_types ts k m). j < k + length ts) \<and>
    inj_on (emplace_types ts k m) (dom (emplace_types ts k m))"
  using assms
proof (induction ts k m rule: emplace_types.induct)
  case (2 t ts k m)
  let ?m = "if m t = None then m(t \<mapsto> k) else m"
  have "\<forall>j \<in> ran ?m. j < k + 1" using "2.prems"(1) by (auto simp: ran_def split: if_splits)
  moreover have "inj_on ?m (dom ?m)"
  proof (rule inj_onI)
    fix a b assume ab: "a \<in> dom ?m" "b \<in> dom ?m" "?m a = ?m b"
    show "a = b"
    proof (cases "m t = None")
      case True
      have "m c \<noteq> Some k" for c using "2.prems"(1) by (auto simp: ran_def)
      with ab True "2.prems"(2) show ?thesis
        by (auto simp: inj_on_def dom_def split: if_splits)
    next
      case False
      with ab "2.prems"(2) show ?thesis by (auto simp: inj_on_def dom_def)
    qed
  qed
  ultimately show ?case using "2.IH" by simp
qed simp

lemma new_entry_ok: "entry_ok h 0 new_entry" "entry_prims new_entry = {#}"
  by (simp_all add: entry_ok_def new_entry_def empty_ids_ok entry_prims_def held_prims_def)

lemma sum_list_empty: "sum_list (replicate n {#}) = {#}"
  by (induction n) simp_all

lemma InitPrimTypes_result:
  assumes "idx = InitPrimTypes new_index types"
  shows "index_ok env 0 idx \<and> inj_on (index_types idx) (dom (index_types idx)) \<and>
    index_prims idx = {#} \<and> list_all (\<lambda>e. e = new_entry) (index_entries idx)"
  using emplace_types_result [of Map.empty 0 types]
  by (auto simp: assms new_entry_ok InitPrimTypes_def new_index_def index_ok_def index_prims_def Let_def
      list_all_iff sum_list_empty)

section \<open>Sequences of operations\<close>

datatype 'd index_op =
    InsertOp token 'd sdf_path
  | RemoveOp token sdf_path
  | RemoveSubtreeOp sdf_path 'd
  | SubtreeQueryOp token sdf_path
  | ClearOp

fun run_index_op ::
    "('d, 'p) index_env \<Rightarrow> 'd index_op \<Rightarrow> ('d, 'p) prim_type_index \<Rightarrow> 'p hd_event list \<Rightarrow>
     (('d, 'p) prim_type_index \<times> 'p hd_event list) option" where
  "run_index_op env (InsertOp typeId sceneDelegate primId) idx log = InsertPrim env typeId sceneDelegate primId idx log"
| "run_index_op env (RemoveOp typeId primId) idx log = RemovePrim env typeId primId idx log"
| "run_index_op env (RemoveSubtreeOp root sceneDelegate) idx log = RemoveSubtree root sceneDelegate idx log"
| "run_index_op env (SubtreeQueryOp typeId rootPath) idx log = map_option snd (GetPrimSubtree typeId rootPath [] idx log)"
| "run_index_op env ClearOp idx log = Some (Index_Clear env idx log)"

fun run_index_ops ::
    "('d, 'p) index_env \<Rightarrow> 'd index_op list \<Rightarrow> ('d, 'p) prim_type_index \<Rightarrow> 'p hd_event list \<Rightarrow>
     (('d, 'p) prim_type_index \<times> 'p hd_event list) option" where
  "run_index_ops env [] idx log = Some (idx, log)"
| "run_index_ops env (x # xs) idx log =
     (case run_index_op env x idx log of None \<Rightarrow> None | Some (idx, log) \<Rightarrow> run_index_ops env xs idx log)"

lemma run_index_op_result:
  assumes "env_ok env" "index_ok env n idx" "n < 2 ^ 64"
  shows "\<exists>idx' log'. run_index_op env x idx log = Some (idx', log') \<and> index_ok env (Suc n) idx' \<and>
    index_types idx' = index_types idx \<and> balanced_step log idx log' idx'"
proof -
  have mono: "index_ok env n i \<Longrightarrow> index_ok env (Suc n) i" for i :: "('a, 'b) prim_type_index"
    by (erule index_ok_mono) simp
  show ?thesis
  proof (cases x)
    case (InsertOp typeId sceneDelegate primId)
    with InsertPrim_result [OF assms(1,2)] show ?thesis by (metis run_index_op.simps(1))
  next
    case (RemoveOp typeId primId)
    with RemovePrim_result [OF assms(2), of typeId primId log] show ?thesis by (auto intro: mono)
  next
    case (RemoveSubtreeOp root sceneDelegate)
    with RemoveSubtree_result [OF assms(2,3), of root sceneDelegate log] show ?thesis by (auto intro: mono)
  next
    case (SubtreeQueryOp typeId rootPath)
    with GetPrimSubtree_result [OF assms(2,3), of typeId rootPath "[]" log] show ?thesis by (auto intro: mono)
  next
    case ClearOp
    with Index_Clear_result [OF assms(1,2), of log] show ?thesis by (auto intro: mono)
  qed
qed

lemma run_index_ops_result:
  assumes "env_ok env" "index_ok env n idx" "n + length xs < 2 ^ 64"
  shows "\<exists>idx' log'. run_index_ops env xs idx log = Some (idx', log') \<and> index_ok env (n + length xs) idx' \<and>
    index_types idx' = index_types idx \<and> balanced_step log idx log' idx'"
  using assms(2,3)
proof (induction xs arbitrary: n idx log)
  case Nil
  then show ?case by (simp add: balanced_step_def)
next
  case (Cons x xs)
  then have "n < 2 ^ 64" by simp
  from run_index_op_result [OF assms(1) Cons.prems(1) this] obtain idx1 log1 where
    1: "run_index_op env x idx log = Some (idx1, log1)" "index_ok env (Suc n) idx1"
      "index_types idx1 = index_types idx" "balanced_step log idx log1 idx1" by blast
  from Cons.IH [OF 1(2), of log1] Cons.prems(2) obtain idx' log' where
    2: "run_index_ops env xs idx1 log1 = Some (idx', log')" "index_ok env (Suc n + length xs) idx'"
      "index_types idx' = index_types idx1" "balanced_step log1 idx1 log' idx'" by auto
  show ?case using 1 2 balanced_trans [OF 1(4) 2(4)] by simp
qed

text \<open>
  The life of an index, as the render index runs it: its types are set and the fallback prims
  created, then come the operations of the clients, then everything is cleared.
\<close>

definition run_lifecycle ::
    "('d, 'p) index_env \<Rightarrow> token list \<Rightarrow> 'd index_op list \<Rightarrow> 'p hd_event list option" where
  "run_lifecycle env types xs =
     (case CreateFallbackPrims env (InitPrimTypes new_index types) [] of
        None \<Rightarrow> None
      | Some (success, idx, log) \<Rightarrow>
          (case run_index_ops env xs idx log of
             None \<Rightarrow> None
           | Some (idx, log) \<Rightarrow>
               let (idx, log) = Index_Clear env idx log in
               Some (snd (DestroyFallbackPrims idx log))))"

definition type_order_ok :: "('d, 'p) index_env \<Rightarrow> token list \<Rightarrow> bool" where
  "type_order_ok env types \<longleftrightarrow>
     (let m = emplace_types types 0 Map.empty in
      distinct (env_type_order env m) \<and> set (env_type_order env m) = dom m)"

lemma InitPrimTypes_types: "index_types (InitPrimTypes new_index types) = emplace_types types 0 Map.empty"
  by (simp add: InitPrimTypes_def new_index_def Let_def)

lemma started_index:
  assumes "type_order_ok env types"
  shows "\<exists>success idx log. CreateFallbackPrims env (InitPrimTypes new_index types) [] = Some (success, idx, log) \<and>
    index_ok env 0 idx \<and> balanced_step [] (InitPrimTypes new_index types) log idx"
proof -
  let ?idx = "InitPrimTypes new_index types :: ('a, 'b) prim_type_index"
  note init = InitPrimTypes_result [OF refl, of env types]
  have order: "distinct (env_type_order env (index_types ?idx))" "set (env_type_order env (index_types ?idx)) \<subseteq> dom (index_types ?idx)"
    using assms unfolding InitPrimTypes_types by (simp_all add: type_order_ok_def Let_def)
  have "entry_fallback (index_entries ?idx ! k) = None" if "index_types ?idx t = Some k" for t k
  proof -
    have "index_entries ?idx ! k \<in> set (index_entries ?idx)"
      using index_ok_entry(1) [OF conjunct1 [OF init] that] by simp
    with init have "index_entries ?idx ! k = new_entry" by (auto simp: list_all_iff)
    then show ?thesis by (simp add: new_entry_def)
  qed
  with create_fallbacks_result [of env 0 ?idx "env_type_order env (index_types ?idx)" "[]" True] init order
  show ?thesis by (simp add: CreateFallbackPrims_def) blast
qed

lemma cleared_prims:
  "list_all (\<lambda>m. m = Map.empty) (index_maps idx) \<Longrightarrow> list_all (\<lambda>e. entry_fallback e = None) (index_entries idx) \<Longrightarrow>
   index_prims idx = {#}"
proof -
  assume "list_all (\<lambda>m. m = Map.empty) (index_maps idx)" "list_all (\<lambda>e. entry_fallback e = None) (index_entries idx)"
  then have "list_all (\<lambda>e. entry_prims e = {#}) (index_entries idx)"
    by (auto simp: index_maps_def list_all_iff entry_prims_def held_prims_def)
  then have "(\<Sum>e\<leftarrow>es. entry_prims e) = {#}" if "set es \<subseteq> set (index_entries idx)" for es
    using that by (induction es) (auto simp: list_all_iff)
  then show ?thesis by (simp add: index_prims_def)
qed

text \<open>C16: Over the whole life of an index no operation fails and every prim the render delegate created is
  destroyed exactly once, whatever the clients do, whatever the delegate creates or refuses to create.
\<close>

theorem lifecycle_destroys_created:
  assumes "env_ok env" "type_order_ok env types" "length xs < 2 ^ 64"
  shows "\<exists>log. run_lifecycle env types xs = Some log \<and> destroyed_prims log = created_prims log"
proof -
  let ?init = "InitPrimTypes new_index types :: ('a, 'b) prim_type_index"
  from started_index [OF assms(2)] obtain success idx1 log1 where
    1: "CreateFallbackPrims env ?init [] = Some (success, idx1, log1)" "index_ok env 0 idx1" "balanced_step [] ?init log1 idx1"
    by blast
  from run_index_ops_result [OF assms(1) 1(2), of xs log1] assms(3) obtain idx2 log2 where
    2: "run_index_ops env xs idx1 log1 = Some (idx2, log2)" "index_ok env (length xs) idx2" "balanced_step log1 idx1 log2 idx2"
    by auto
  obtain idx3 log3 where c: "Index_Clear env idx2 log2 = (idx3, log3)" by fastforce
  from Index_Clear_result [OF assms(1) 2(2), of log2] c have
    3: "index_maps idx3 = map (\<lambda>_. Map.empty) (index_maps idx2)" "balanced_step log2 idx2 log3 idx3" by simp_all
  obtain idx4 log4 where d: "DestroyFallbackPrims idx3 log3 = (idx4, log4)" by fastforce
  from DestroyFallbackPrims_result [of idx3 log3] d have
    4: "index_maps idx4 = index_maps idx3" "balanced_step log3 idx3 log4 idx4"
      "list_all (\<lambda>e. entry_fallback e = None) (index_entries idx4)" by simp_all
  have "list_all (\<lambda>m. m = Map.empty) (index_maps idx4)" using 3(1) 4(1) by (simp add: list_all_iff)
  then have "index_prims idx4 = {#}" using 4(3) by (rule cleared_prims)
  moreover have "index_prims ?init = {#}" using InitPrimTypes_result [OF refl, of env types] by simp
  moreover have "balanced_step [] ?init log4 idx4"
    by (rule balanced_trans [OF balanced_trans [OF balanced_trans [OF 1(3) 2(3)] 3(2)] 4(2)])
  ultimately have "destroyed_prims log4 = created_prims log4" by (simp add: balanced_step_def)
  moreover have "run_lifecycle env types xs = Some log4" by (simp add: run_lifecycle_def 1(1) 2(1) c d)
  ultimately show ?thesis by blast
qed

text \<open>C15: \<open>RemoveSubtree\<close> removes from every map exactly the prims below the root that belong to the
  scene delegate, keeps the container of ids of each entry equal to the keys of its map, and
  destroys what it removes.
\<close>

theorem RemoveSubtree_removes:
  assumes "index_ok env n idx" "n < 2 ^ 64"
  shows "\<exists>idx' log'. RemoveSubtree root sceneDelegate idx log = Some (idx', log') \<and>
    index_ok env n idx' \<and> index_maps idx' = map (without_subtree root sceneDelegate) (index_maps idx) \<and>
    created_prims log' = created_prims log \<and>
    destroyed_prims log' + index_prims idx' = destroyed_prims log + index_prims idx"
  using RemoveSubtree_result [OF assms, of root sceneDelegate log] by blast

lemma dom_emplace_types: "dom (emplace_types ts k m) = set ts \<union> dom m"
  by (induction ts k m rule: emplace_types.induct) auto

text \<open>After any operations, the subtree query of a supported type returns in order, without repetition,
  exactly the ids below the root for which \<open>GetPrim\<close> returns a prim.
\<close>

theorem GetPrimSubtree_agrees:
  assumes "env_ok env" "length xs < 2 ^ 64" "typeId \<in> set types"
  shows "\<exists>idx log paths r. run_index_ops env xs (InitPrimTypes new_index types) [] = Some (idx, log) \<and>
    GetPrimSubtree typeId rootPath outPaths idx log = Some (paths, r) \<and> sorted paths \<and> distinct paths \<and>
    (\<forall>p. p \<in> set paths \<longleftrightarrow> HasPrefix p rootPath \<and> (\<exists>prim. GetPrim typeId p idx log = Some (Some prim, log)))"
proof -
  have "index_ok env 0 (InitPrimTypes new_index types)" using InitPrimTypes_result [OF refl, of env types] by blast
  from run_index_ops_result [OF assms(1) this, of xs "[]"] assms(2) obtain idx log where
    run: "run_index_ops env xs (InitPrimTypes new_index types) [] = Some (idx, log)"
      "index_ok env (length xs) idx" "index_types idx = emplace_types types 0 Map.empty"
    by (auto simp: InitPrimTypes_types)
  have "typeId \<in> dom (index_types idx)" using assms(3) by (simp add: run(3) dom_emplace_types)
  then obtain k where k: "index_types idx typeId = Some k" by blast
  note entry = index_ok_entry [OF run(2) k]
  from GetPrimSubtree_result [OF run(2) assms(2), of typeId rootPath outPaths log] k obtain r where
    query: "GetPrimSubtree typeId rootPath outPaths idx log
      = Some (filter (\<lambda>p. HasPrefix p rootPath) (sorted_list_of_set (dom (index_maps idx ! k))), r)"
    by auto
  have m: "index_maps idx ! k = entry_map (index_entries idx ! k)" "finite (dom (index_maps idx ! k))"
    using entry by (simp_all add: index_maps_def entry_ok_def)
  have "GetPrim typeId p idx log = Some (Some prim, log) \<longleftrightarrow> (\<exists>info. (index_maps idx ! k) p = Some info \<and> info_prim info = prim)"
    for p prim using k entry(1) by (auto simp: GetPrim_def m(1))
  then show ?thesis using run(1) query m(2) by (auto intro!: exI [of _ idx] exI [of _ log] sorted_wrt_filter)
qed

section \<open>Instances\<close>

definition sample_env :: "(unit, nat) index_env" where
  "sample_env = \<lparr>env_hash = (\<lambda>_. 0), env_delegate_id = (\<lambda>_. AbsoluteRootPath),
     env_create = (\<lambda>log t p. Some (length log)), env_create_fallback = (\<lambda>log t. Some (length log)),
     env_initial_dirty = (\<lambda>_. 0), env_map_order = (\<lambda>m. sorted_list_of_set (dom m)),
     env_type_order = (\<lambda>m. [''camera''])\<rparr>"

lemma sample_env_ok: "env_ok sample_env" "type_order_ok sample_env [''camera'']"
  by (simp_all add: env_ok_def type_order_ok_def sample_env_def IsAbsolutePath_def AbsoluteRootPath_def path_queries)

definition sample_index_ops :: "unit index_op list" where
  "sample_index_ops = [InsertOp ''camera'' () (abs_prim [''A'']), InsertOp ''camera'' () (abs_prim [''B'']),
     RemoveSubtreeOp (abs_prim [''A'']) (), InsertOp ''light'' () (abs_prim [''C''])]"

theorem lifecycle_destroys_created_witness:
  "\<exists>log. run_lifecycle sample_env [''camera''] sample_index_ops = Some log \<and> destroyed_prims log = created_prims log"
  by (rule lifecycle_destroys_created [OF sample_env_ok]) (simp add: sample_index_ops_def)

theorem GetPrimSubtree_agrees_witness:
  "\<exists>idx log paths r. run_index_ops sample_env sample_index_ops (InitPrimTypes new_index [''camera'']) [] = Some (idx, log) \<and>
    GetPrimSubtree ''camera'' AbsoluteRootPath [] idx log = Some (paths, r) \<and> sorted paths \<and> distinct paths \<and>
    (\<forall>p. p \<in> set paths \<longleftrightarrow> HasPrefix p AbsoluteRootPath \<and> (\<exists>prim. GetPrim ''camera'' p idx log = Some (Some prim, log)))"
  by (rule GetPrimSubtree_agrees [OF sample_env_ok(1)]) (simp_all add: sample_index_ops_def)

theorem RemoveSubtree_removes_witness:
  "\<exists>idx log idx' log'.
     run_index_ops sample_env (take 2 sample_index_ops) (InitPrimTypes new_index [''camera'']) [] = Some (idx, log) \<and>
     map dom (index_maps idx) = [{abs_prim [''A''], abs_prim [''B'']}] \<and>
     RemoveSubtree (abs_prim [''A'']) () idx log = Some (idx', log') \<and>
     map dom (index_maps idx') = [{abs_prim [''B'']}] \<and>
     destroyed_prims log' + index_prims idx' = destroyed_prims log + index_prims idx"
proof -
  let ?init = "InitPrimTypes new_index [''camera''] :: (unit, nat) prim_type_index"
  let ?a = "abs_prim [''A'']" and ?b = "abs_prim [''B'']"
  have init: "index_ok sample_env 0 ?init" "index_types ?init = [''camera'' \<mapsto> 0]" "index_maps ?init = [Map.empty]"
    using InitPrimTypes_result [OF refl, of sample_env "[''camera'']"]
    by (simp_all add: InitPrimTypes_types) (simp add: InitPrimTypes_def new_index_def new_entry_def index_maps_def)
  have delegate: "HasPrefix ?a AbsoluteRootPath" "HasPrefix ?b AbsoluteRootPath" "?a \<noteq> ?b"
    "HasPrefix ?a ?a" "\<not> HasPrefix ?b ?a"
    by (simp_all add: abs_prim_def AbsoluteRootPath_def HasPrefix_iff path_queries)
  from InsertPrim_result [OF sample_env_ok(1) init(1), of "''camera''" "()" ?a "[]"] obtain idx1 log1 where
    1: "InsertPrim sample_env ''camera'' () ?a ?init [] = Some (idx1, log1)" "index_ok sample_env 1 idx1"
      "index_types idx1 = [''camera'' \<mapsto> 0]" "index_maps idx1 = [[?a \<mapsto> \<lparr>info_delegate = (), info_prim = 0\<rparr>]]"
    by (auto simp: init spec_insert_def sample_env_def delegate)
  from InsertPrim_result [OF sample_env_ok(1) 1(2), of "''camera''" "()" ?b log1] obtain idx log where
    2: "InsertPrim sample_env ''camera'' () ?b idx1 log1 = Some (idx, log)" "index_ok sample_env 2 idx"
      "index_maps idx = [[?a \<mapsto> \<lparr>info_delegate = (), info_prim = 0\<rparr>, ?b \<mapsto> \<lparr>info_delegate = (), info_prim = length log1\<rparr>]]"
    using delegate(3) by (auto simp: 1 spec_insert_def sample_env_def delegate numeral_2_eq_2)
  from RemoveSubtree_removes [OF 2(2), of ?a "()" log] obtain idx' log' where
    3: "RemoveSubtree ?a () idx log = Some (idx', log')"
      "index_maps idx' = map (without_subtree ?a ()) (index_maps idx)"
      "destroyed_prims log' + index_prims idx' = destroyed_prims log + index_prims idx" by auto
  have run: "run_index_ops sample_env (take 2 sample_index_ops) ?init [] = Some (idx, log)"
    by (simp add: sample_index_ops_def 1(1) 2(1))
  have "dom (without_subtree ?a () (index_maps idx ! 0)) = {?b}"
    unfolding 2(3) using delegate by (auto simp: without_subtree_def split: if_splits option.splits)
  then have "map dom (index_maps idx') = [{?b}]" by (simp add: 3(2) 2(3))
  moreover have "map dom (index_maps idx) = [{?a, ?b}]" by (auto simp: 2(3))
  ultimately show ?thesis using run 3(1,3)
    by (intro exI [of _ idx] exI [of _ log] exI [of _ idx'] exI [of _ log'] conjI)
qed

end
