(* ===== verification/Usd_StagePopulationMask.thy ===== *)
theory Usd_StagePopulationMask
  imports Sdf_PathOrder
begin

text \<open>
  \<open>UsdStagePopulationMask\<close> (\<open>pxr/usd/usd/stagePopulationMask.h\<close>,
  \<open>stagePopulationMask.cpp\<close>) and the two functions of \<open>path.cpp\<close> that thin out vectors of
  paths, \<open>RemoveDescendentPaths\<close> and \<open>RemoveAncestorPaths\<close>.
  A mask is its vector of paths. An operation that may post a coding error returns, beside
  its result, whether it posted one. A mask is well formed (\<open>mask_ok\<close>) if its vector is
  normalized in the sense of \<open>Prefix_Sets\<close> and holds absolute prim paths or the absolute
  root; it then stands for the subtrees below its paths, and the lemmas show that the
  two-finger merges compute union and intersection of what the masks stand for, that the
  queries by binary search answer for all paths of the mask, and which children
  \<open>GetIncludedChildNames\<close> reports.
\<close>

section \<open>Thinning out vectors of paths\<close>

definition RemoveDescendentPaths :: "sdf_path list \<Rightarrow> sdf_path list" where
  "RemoveDescendentPaths ps = std_unique (\<lambda>l r. HasPrefix r l) (std_sort (<) ps)"

text \<open>The call over reverse iterators keeps the elements at the end of the vector.\<close>

definition RemoveAncestorPaths :: "sdf_path list \<Rightarrow> sdf_path list" where
  "RemoveAncestorPaths ps =
     rev (std_unique (\<lambda>l r. HasPrefix l r) (rev (std_sort (<) ps)))"

section \<open>Masks\<close>

record UsdStagePopulationMask =
  mask_paths :: "sdf_path list"

definition empty_mask :: UsdStagePopulationMask where
  "empty_mask = \<lparr>mask_paths = []\<rparr>"

definition mask_path_valid :: "sdf_path \<Rightarrow> bool" where
  "mask_path_valid path \<longleftrightarrow> \<not> (\<not> IsAbsolutePath path \<or> \<not> IsAbsoluteRootOrPrimPath path)"

definition ValidateAndNormalize :: "UsdStagePopulationMask \<Rightarrow> UsdStagePopulationMask \<times> bool" where
  "ValidateAndNormalize m =
     (if list_ex (\<lambda>path. \<not> mask_path_valid path) (mask_paths m) then (m, True)
      else (m\<lparr>mask_paths := RemoveDescendentPaths (mask_paths m)\<rparr>, False))"

definition mask_of_paths :: "sdf_path list \<Rightarrow> UsdStagePopulationMask \<times> bool" where
  "mask_of_paths ps = ValidateAndNormalize \<lparr>mask_paths = ps\<rparr>"

text \<open>The loops of \<open>Union\<close> and \<open>Intersection\<close>; the lists are what the two iterators have
  ahead of them, the result is what is pushed.\<close>

function Union_loop :: "sdf_path list \<Rightarrow> sdf_path list \<Rightarrow> sdf_path list" where
  "Union_loop [] rs = rs"
| "Union_loop (l # ls) [] = l # ls"
| "Union_loop (l # ls) (r # rs) =
     (if HasPrefix r l then l # Union_loop ls (dropWhile (\<lambda>x. HasPrefix x l) rs)
      else if HasPrefix l r then r # Union_loop (dropWhile (\<lambda>x. HasPrefix x r) ls) rs
      else if l < r then l # Union_loop ls (r # rs)
      else r # Union_loop (l # ls) rs)"
  by pat_completeness auto
termination
  by (relation "measure (\<lambda>(ls, rs). length ls + length rs)")
    (auto simp: less_Suc_eq_le length_dropWhile_le add_mono trans_le_add1 trans_le_add2 le_SucI)

function Intersection_loop :: "sdf_path list \<Rightarrow> sdf_path list \<Rightarrow> sdf_path list" where
  "Intersection_loop [] rs = []"
| "Intersection_loop (l # ls) [] = []"
| "Intersection_loop (l # ls) (r # rs) =
     (if HasPrefix r l then
        takeWhile (\<lambda>x. HasPrefix x l) (r # rs)
        @ Intersection_loop ls (dropWhile (\<lambda>x. HasPrefix x l) (r # rs))
      else if HasPrefix l r then
        takeWhile (\<lambda>x. HasPrefix x r) (l # ls)
        @ Intersection_loop (dropWhile (\<lambda>x. HasPrefix x r) (l # ls)) rs
      else if l < r then Intersection_loop ls (r # rs)
      else Intersection_loop (l # ls) rs)"
  by pat_completeness auto
termination
  by (relation "measure (\<lambda>(ls, rs). length ls + length rs)")
    (auto simp: less_Suc_eq_le length_dropWhile_le add_mono trans_le_add1 trans_le_add2 le_SucI)

definition mask_Union ::
    "UsdStagePopulationMask \<Rightarrow> UsdStagePopulationMask \<Rightarrow> UsdStagePopulationMask" where
  "mask_Union l r = \<lparr>mask_paths = Union_loop (mask_paths l) (mask_paths r)\<rparr>"

definition mask_GetUnion_path ::
    "UsdStagePopulationMask \<Rightarrow> sdf_path \<Rightarrow> UsdStagePopulationMask \<times> bool" where
  "mask_GetUnion_path m path =
     (mask_Union m \<lparr>mask_paths = [path]\<rparr>, \<not> mask_path_valid path)"

definition mask_Intersection ::
    "UsdStagePopulationMask \<Rightarrow> UsdStagePopulationMask \<Rightarrow> UsdStagePopulationMask" where
  "mask_Intersection l r = \<lparr>mask_paths = Intersection_loop (mask_paths l) (mask_paths r)\<rparr>"

definition mask_Includes :: "UsdStagePopulationMask \<Rightarrow> UsdStagePopulationMask \<Rightarrow> bool" where
  "mask_Includes m other \<longleftrightarrow> mask_Union m other = m"

text \<open>\<open>All()\<close> adds the absolute root path to an empty mask.\<close>

definition mask_All :: UsdStagePopulationMask where
  "mask_All = fst (mask_GetUnion_path empty_mask AbsoluteRootPath)"

text \<open>The pointers \<open>prev\<close> and \<open>cur\<close> are null if there is no such element.\<close>

definition mask_Includes_path :: "UsdStagePopulationMask \<Rightarrow> sdf_path \<Rightarrow> bool" where
  "mask_Includes_path m path =
     (let paths = mask_paths m in
      if paths = [] then False
      else let it = std_lower_bound (<) paths path;
             prev = (if it = 0 then None else Some (paths ! (it - 1)));
             cur = (if it = length paths then None else Some (paths ! it))
           in (case prev of None \<Rightarrow> False | Some p \<Rightarrow> HasPrefix path p) \<or>
              (case cur of None \<Rightarrow> False | Some c \<Rightarrow> HasPrefix c path))"

definition IncludesSubtree :: "sdf_path list \<Rightarrow> sdf_path \<Rightarrow> bool \<times> nat" where
  "IncludesSubtree paths path =
     (if paths = [] then (False, length paths)
      else let it = std_lower_bound (<) paths path;
             prev = (if it = 0 then None else Some (paths ! (it - 1)));
             cur = (if it = length paths then None else Some (paths ! it))
           in ((case cur of None \<Rightarrow> False | Some c \<Rightarrow> c = path) \<or>
               (case prev of None \<Rightarrow> False | Some p \<Rightarrow> HasPrefix path p), it))"

definition mask_IncludesSubtree :: "UsdStagePopulationMask \<Rightarrow> sdf_path \<Rightarrow> bool" where
  "mask_IncludesSubtree m path = fst (IncludesSubtree (mask_paths m) path)"

text \<open>
  The walk of \<open>_GetChildNameBeneathPath\<close>; it does not end on a relative path that does not
  pass below \<open>path\<close>, since the parents of such a path go on forever.
\<close>

partial_function (option) GetChildNameBeneathPath :: "sdf_path \<Rightarrow> sdf_path \<Rightarrow> token option" where
  "GetChildNameBeneathPath p path =
     (if IsEmpty p then Some []
      else if GetParentPath p = path then Some (GetNameToken p)
      else GetChildNameBeneathPath (GetParentPath p) path)"

fun child_names_loop :: "sdf_path list \<Rightarrow> sdf_path \<Rightarrow> token list \<Rightarrow> token list option" where
  "child_names_loop [] path names = Some names"
| "child_names_loop (maskPath # rest) path names =
     (if \<not> HasPrefix maskPath path then Some names
      else case GetChildNameBeneathPath maskPath path of
        None \<Rightarrow> None
      | Some childName \<Rightarrow>
          if childName = [] then child_names_loop rest path names
          else if names = [] \<or> last names \<noteq> childName
          then child_names_loop rest path (names @ [childName])
          else child_names_loop rest path names)"

definition GetIncludedChildNames ::
    "UsdStagePopulationMask \<Rightarrow> sdf_path \<Rightarrow> (bool \<times> token list) option" where
  "GetIncludedChildNames m path =
     (case IncludesSubtree (mask_paths m) path of (included, it) \<Rightarrow>
        if included then Some (True, [])
        else map_option (\<lambda>names. (names \<noteq> [], names))
               (child_names_loop (drop it (mask_paths m)) path []))"

section \<open>Well-formed masks\<close>

definition mask_ok :: "UsdStagePopulationMask \<Rightarrow> bool" where
  "mask_ok m \<longleftrightarrow> normalized (<) HasPrefix (mask_paths m) \<and>
     list_all mask_path_valid (mask_paths m)"

text \<open>What a mask stands for: the paths of the subtrees below its paths.\<close>

definition mask_subtrees :: "UsdStagePopulationMask \<Rightarrow> sdf_path \<Rightarrow> bool" where
  "mask_subtrees m path \<longleftrightarrow> covers HasPrefix (mask_paths m) path"

lemma mask_path_not_empty: "mask_path_valid p \<Longrightarrow> \<not> IsEmpty p"
  by (simp add: mask_path_valid_def IsAbsolutePath_def)

lemma mask_ok_norm: "mask_ok m \<Longrightarrow> paths.norm (mask_paths m)"
  by (simp add: mask_ok_def)

lemma mask_ok_nonempty: "mask_ok m \<Longrightarrow> p \<in> set (mask_paths m) \<Longrightarrow> \<not> IsEmpty p"
  by (auto simp: mask_ok_def list_all_iff mask_path_not_empty)

lemma lower_bound_paths:
  "paths.norm ps \<Longrightarrow> std_lower_bound (<) ps x = length (takeWhile (\<lambda>e. e < x) ps)"
  by (intro paths.std_lower_bound_sorted paths.norm_weak_sorted)

subsection \<open>Thinning out\<close>

lemma RemoveDescendentPaths_norm:
  assumes "\<forall>p \<in> set ps. \<not> IsEmpty p"
  shows "paths.norm (RemoveDescendentPaths ps)"
    and "set (RemoveDescendentPaths ps) \<subseteq> set ps"
    and "paths.cov (RemoveDescendentPaths ps) z \<longleftrightarrow> paths.cov ps z"
proof -
  show "paths.norm (RemoveDescendentPaths ps)"
    unfolding RemoveDescendentPaths_def
    by (rule paths.norm_std_unique [OF paths.sorted_std_sort]) (use assms in simp)
  show "set (RemoveDescendentPaths ps) \<subseteq> set ps"
    unfolding RemoveDescendentPaths_def
    using set_std_unique_subset [of _ "std_sort (<) ps"] by simp
  show "paths.cov (RemoveDescendentPaths ps) z \<longleftrightarrow> paths.cov ps z"
    using paths.cov_std_unique [of "std_sort (<) ps" z] assms
    by (simp add: RemoveDescendentPaths_def covers_set [of "std_sort (<) ps" ps])
qed

text \<open>Constructing a mask from valid paths posts no error and gives a well-formed mask that
  stands for the given paths; from an invalid path it posts an error and keeps the vector.
\<close>

theorem mask_of_paths_ok:
  "(list_all mask_path_valid ps \<longrightarrow>
      \<not> snd (mask_of_paths ps) \<and> mask_ok (fst (mask_of_paths ps))
      \<and> (\<forall>z. mask_subtrees (fst (mask_of_paths ps)) z \<longleftrightarrow> covers HasPrefix ps z))
   \<and> (\<not> list_all mask_path_valid ps \<longrightarrow> mask_of_paths ps = (\<lparr>mask_paths = ps\<rparr>, True))"
proof (cases "list_all mask_path_valid ps")
  case True
  then have "\<forall>p \<in> set ps. \<not> IsEmpty p" by (auto simp: list_all_iff mask_path_not_empty)
  note norm = RemoveDescendentPaths_norm [OF this]
  have "mask_of_paths ps = (\<lparr>mask_paths = RemoveDescendentPaths ps\<rparr>, False)"
    using True by (auto simp: mask_of_paths_def ValidateAndNormalize_def list_all_iff list_ex_iff)
  moreover have "list_all mask_path_valid (RemoveDescendentPaths ps)"
    using True norm(2) unfolding list_all_iff by blast
  ultimately show ?thesis using True norm(1,3) by (simp add: mask_ok_def mask_subtrees_def)
next
  case False
  then show ?thesis
    by (auto simp: mask_of_paths_def ValidateAndNormalize_def list_all_iff list_ex_iff)
qed

subsection \<open>Union and intersection\<close>

lemma Union_loop_set: "set (Union_loop ls rs) \<subseteq> set ls \<union> set rs"
proof (induction ls rs rule: Union_loop.induct)
  case (3 l ls r rs)
  have "set (dropWhile P xs) \<subseteq> set xs" for P and xs :: "sdf_path list"
    by (blast dest: set_dropWhileD)
  from this [of "\<lambda>x. HasPrefix x l" rs] this [of "\<lambda>x. HasPrefix x r" ls] "3.IH" show ?case
    unfolding Union_loop.simps by (auto 4 3 split: if_splits)
qed auto

lemma Union_loop_norm:
  "paths.norm ls \<Longrightarrow> paths.norm rs \<Longrightarrow> \<forall>p \<in> set ls. \<not> IsEmpty p \<Longrightarrow>
   paths.norm (Union_loop ls rs)"
proof (induction ls rs rule: Union_loop.induct)
  case (3 l ls r rs)
  note norm = "3.prems"(1,2) and valid = "3.prems"(3)
  have tails: "paths.norm ls" "paths.norm rs" using norm by (auto simp: paths.norm_Cons)
  have valids: "\<forall>p \<in> set ls. \<not> IsEmpty p" "\<forall>p \<in> set (dropWhile P ls). \<not> IsEmpty p" for P
    using valid by (auto dest: set_dropWhileD)
  have drops: "paths.norm (dropWhile P ls)" "paths.norm (dropWhile P rs)" for P
    using tails by (simp_all add: dropWhile_eq_drop paths.norm_drop)
  have head: "paths.norm (x # Union_loop xs ys)"
    if "paths.norm (Union_loop xs ys)" "\<forall>y \<in> set xs. x < y \<and> \<not> HasPrefix y x"
      "\<forall>y \<in> set ys. x < y \<and> \<not> HasPrefix y x" for x xs ys
    using that Union_loop_set [of xs ys] unfolding paths.norm_Cons by blast
  have l: "\<forall>y \<in> set ls. l < y \<and> \<not> HasPrefix y l" and r: "\<forall>y \<in> set rs. r < y \<and> \<not> HasPrefix y r"
    using norm unfolding paths.norm_Cons by blast+
  consider "HasPrefix r l" | "\<not> HasPrefix r l" "HasPrefix l r"
    | "\<not> HasPrefix r l" "\<not> HasPrefix l r" "l < r" | "\<not> HasPrefix r l" "\<not> HasPrefix l r" "\<not> l < r"
    by blast
  then show ?case
  proof cases
    case 1
    from head [OF "3.IH"(1) [OF 1 tails(1) drops(2) valids(1)] l paths.merge_below [OF norm 1]] 1
    show ?thesis by simp
  next
    case 2
    from head [OF "3.IH"(2) [OF 2 drops(1) tails(2) valids(2)] paths.merge_below [OF norm(2,1) 2(2)] r] 2
    show ?thesis by simp
  next
    case 3
    from head [OF "3.IH"(3) [OF 3 tails(1) norm(2) valids(1)] l paths.merge_apart [OF norm(2) 3(3,1)]] 3
    show ?thesis by simp
  next
    case 4
    have "HasPrefix l l" using valid by (intro paths.prefix_refl) simp
    with 4 have "r < l" by (metis not_less_iff_gr_or_eq)
    from head [OF "3.IH"(4) [OF 4 norm(1) tails(2) valid] paths.merge_apart [OF norm(1) \<open>r < l\<close> 4(2)] r] 4
    show ?thesis by simp
  qed
qed auto

lemma Union_loop_cov: "paths.cov (Union_loop ls rs) z \<longleftrightarrow> paths.cov ls z \<or> paths.cov rs z"
proof (induction ls rs rule: Union_loop.induct)
  case (3 l ls r rs)
  have below: "paths.cov (dropWhile (\<lambda>x. HasPrefix x l) rs) z \<or> HasPrefix z l \<longleftrightarrow> paths.cov rs z \<or> HasPrefix z l"
    "paths.cov (dropWhile (\<lambda>x. HasPrefix x r) ls) z \<or> HasPrefix z r \<longleftrightarrow> paths.cov ls z \<or> HasPrefix z r"
    by (rule paths.cov_dropWhile_below)+
  have through: "HasPrefix r l \<longrightarrow> HasPrefix z r \<longrightarrow> HasPrefix z l"
    "HasPrefix l r \<longrightarrow> HasPrefix z l \<longrightarrow> HasPrefix z r"
    by (blast intro: paths.prefix_trans)+
  consider "HasPrefix r l" | "\<not> HasPrefix r l" "HasPrefix l r"
    | "\<not> HasPrefix r l" "\<not> HasPrefix l r" "l < r" | "\<not> HasPrefix r l" "\<not> HasPrefix l r" "\<not> l < r"
    by blast
  then show ?case
  proof cases
    case 1
    with "3.IH"(1) [OF 1] below through show ?thesis by (simp only: Union_loop.simps covers_Cons if_True) blast
  next
    case 2
    with "3.IH"(2) [OF 2] below through show ?thesis
      by (simp only: Union_loop.simps covers_Cons if_True if_False) blast
  next
    case 3
    with "3.IH"(3) [OF 3] show ?thesis by (simp only: Union_loop.simps covers_Cons if_True if_False) blast
  next
    case 4
    with "3.IH"(4) [OF 4] show ?thesis by (simp only: Union_loop.simps covers_Cons if_False) blast
  qed
qed auto

lemma Intersection_loop_set: "set (Intersection_loop ls rs) \<subseteq> set ls \<union> set rs"
proof (induction ls rs rule: Intersection_loop.induct)
  case (3 l ls r rs)
  have "set (dropWhile P xs) \<subseteq> set xs" "set (takeWhile P xs) \<subseteq> set xs" for P and xs :: "sdf_path list"
    by (blast dest: set_dropWhileD set_takeWhileD)+
  from this [of "\<lambda>x. HasPrefix x l" "r # rs"] this [of "\<lambda>x. HasPrefix x r" "l # ls"] "3.IH"
  show ?case unfolding Intersection_loop.simps by (auto 4 3 split: if_splits)
qed auto

lemma path_cases:
  assumes "\<not> IsEmpty l"
  obtains "HasPrefix r l" | "\<not> HasPrefix r l" "HasPrefix l r"
    | "\<not> HasPrefix r l" "\<not> HasPrefix l r" "l < r" | "\<not> HasPrefix r l" "\<not> HasPrefix l r" "\<not> l < r" "r < l"
  using paths.prefix_refl [OF assms] by (metis linorder_neqE)

lemma Intersection_loop_cov:
  "paths.norm ls \<Longrightarrow> paths.norm rs \<Longrightarrow> \<forall>p \<in> set ls. \<not> IsEmpty p \<Longrightarrow>
   paths.cov (Intersection_loop ls rs) z \<longleftrightarrow> paths.cov ls z \<and> paths.cov rs z"
proof (induction ls rs rule: Intersection_loop.induct)
  case (3 l ls r rs)
  note norm = "3.prems"(1,2) and valid = "3.prems"(3)
  have tails: "paths.norm ls" "paths.norm rs" using norm by (auto simp: paths.norm_Cons)
  have drops: "paths.norm (dropWhile P (l # ls))" "paths.norm (dropWhile P (r # rs))" for P
    using norm by (simp_all only: dropWhile_eq_drop paths.norm_drop)
  have valids: "\<forall>p \<in> set ls. \<not> IsEmpty p" "\<forall>p \<in> set (dropWhile P (l # ls)). \<not> IsEmpty p" for P
    using valid by (auto dest: set_dropWhileD split: if_splits)
  have "\<not> IsEmpty l" using valid by simp
  then show ?case
  proof (cases rule: path_cases [of l r])
    case 1
    from "3.IH"(1) [OF 1 tails(1) drops(2) valids(1)] paths.meet_below [OF norm 1, of z] 1
    show ?thesis by (simp only: Intersection_loop.simps covers_append if_True)
  next
    case 2
    from "3.IH"(2) [OF 2 drops(1) tails(2) valids(2)] paths.meet_below [OF norm(2,1) 2(2), of z] 2
    show ?thesis by (simp only: Intersection_loop.simps covers_append if_True if_False) blast
  next
    case 3
    from "3.IH"(3) [OF 3 tails(1) norm(2) valids(1)] paths.meet_apart [OF norm(2) 3(3,1), of ls z] 3
    show ?thesis by (simp only: Intersection_loop.simps if_True if_False)
  next
    case 4
    from "3.IH"(4) [OF 4(1-3) norm(1) tails(2) valid] paths.meet_apart [OF norm(1) 4(4,2), of rs z] 4
    show ?thesis by (simp only: Intersection_loop.simps if_False) blast
  qed
qed auto

lemma Intersection_loop_norm:
  "paths.norm ls \<Longrightarrow> paths.norm rs \<Longrightarrow> \<forall>p \<in> set ls \<union> set rs. \<not> IsEmpty p \<Longrightarrow>
   paths.norm (Intersection_loop ls rs)"
proof (induction ls rs rule: Intersection_loop.induct)
  case (3 l ls r rs)
  note norm = "3.prems"(1,2) and valid = "3.prems"(3)
  have tails: "paths.norm ls" "paths.norm rs" using norm by (auto simp: paths.norm_Cons)
  have drops: "paths.norm (dropWhile P (l # ls))" "paths.norm (dropWhile P (r # rs))" for P
    using norm by (simp_all only: dropWhile_eq_drop paths.norm_drop)
  have sub: "set (dropWhile P (l # ls)) \<subseteq> set (l # ls)" "set (dropWhile P (r # rs)) \<subseteq> set (r # rs)" for P
    by (blast dest: set_dropWhileD)+
  have valids: "\<forall>p \<in> set ls \<union> set (dropWhile P (r # rs)). \<not> IsEmpty p"
    "\<forall>p \<in> set (dropWhile P (l # ls)) \<union> set rs. \<not> IsEmpty p"
    "\<forall>p \<in> set (l # ls). \<not> IsEmpty p" "\<forall>p \<in> set (r # rs). \<not> IsEmpty p"
    "\<forall>p \<in> set ls \<union> set (r # rs). \<not> IsEmpty p" "\<forall>p \<in> set (l # ls) \<union> set rs. \<not> IsEmpty p" for P
    using valid sub(1) [of P] sub(2) [of P] by auto
  have stretch: "paths.norm (takeWhile P ks @ Intersection_loop xs ys)"
    if "paths.norm ks" "\<forall>p \<in> set ks. \<not> IsEmpty p" "paths.norm (Intersection_loop xs ys)"
      "paths.norm xs" "paths.norm ys" "\<forall>p \<in> set xs \<union> set ys. \<not> IsEmpty p"
      "xs = dropWhile P ks \<or> ys = dropWhile P ks" for P ks xs ys
  proof (rule paths.norm_stretch [OF that(1,3) _ that(2)])
    show "\<forall>y \<in> set (Intersection_loop xs ys). paths.cov (dropWhile P ks) y"
    proof
      fix y assume y: "y \<in> set (Intersection_loop xs ys)"
      then have "\<not> IsEmpty y" using Intersection_loop_set that(6) by blast
      with y have "paths.cov (Intersection_loop xs ys) y"
        unfolding covers_def using paths.prefix_refl by blast
      moreover have "\<forall>p \<in> set xs. \<not> IsEmpty p" using that(6) by blast
      ultimately show "paths.cov (dropWhile P ks) y"
        using Intersection_loop_cov [OF that(4,5), of y] that(7) by metis
    qed
  qed
  have "\<not> IsEmpty l" using valid by simp
  then show ?case
  proof (cases rule: path_cases [of l r])
    case 1
    from stretch [OF norm(2) valids(4) "3.IH"(1) [OF 1 tails(1) drops(2) valids(1)] tails(1) drops(2) valids(1)] 1
    show ?thesis by (simp only: Intersection_loop.simps if_True simp_thms)
  next
    case 2
    from stretch [OF norm(1) valids(3) "3.IH"(2) [OF 2 drops(1) tails(2) valids(2)] drops(1) tails(2) valids(2)] 2
    show ?thesis by (simp only: Intersection_loop.simps if_True if_False simp_thms)
  next
    case 3
    from "3.IH"(3) [OF 3 tails(1) norm(2) valids(5)] 3
    show ?thesis by (simp only: Intersection_loop.simps if_True if_False)
  next
    case 4
    from "3.IH"(4) [OF 4(1-3) norm(1) tails(2) valids(6)] 4
    show ?thesis by (simp only: Intersection_loop.simps if_False)
  qed
qed auto

subsection \<open>Queries\<close>

lemma IncludesSubtree_covers:
  assumes "mask_ok m" "\<not> IsEmpty path"
  shows "fst (IncludesSubtree (mask_paths m) path) \<longleftrightarrow> mask_subtrees m path"
proof -
  note nb = paths.lower_bound_neighbours(1) [OF mask_ok_norm [OF assms(1)] assms(2) refl]
  show ?thesis
    using nb length_takeWhile_le [of "\<lambda>e. e < path" "mask_paths m"]
    by (cases "mask_paths m = []")
      (auto simp: IncludesSubtree_def mask_subtrees_def lower_bound_paths [OF mask_ok_norm [OF assms(1)]]
        Let_def split: if_splits)
qed

lemma Includes_path_iff:
  assumes "mask_ok m" "\<not> IsEmpty path"
  shows "mask_Includes_path m path \<longleftrightarrow> (\<exists>p \<in> set (mask_paths m). HasPrefix path p \<or> HasPrefix p path)"
proof -
  note nb = paths.lower_bound_neighbours(2) [OF mask_ok_norm [OF assms(1)] assms(2) refl]
  show ?thesis
    using nb length_takeWhile_le [of "\<lambda>e. e < path" "mask_paths m"]
    by (cases "mask_paths m = []")
      (auto simp: mask_Includes_path_def lower_bound_paths [OF mask_ok_norm [OF assms(1)]]
        Let_def split: if_splits)
qed

lemma mask_ok_Union: "mask_ok l \<Longrightarrow> mask_ok r \<Longrightarrow> mask_ok (mask_Union l r)"
  using Union_loop_set [of "mask_paths l" "mask_paths r"] mask_ok_nonempty [of l]
    Union_loop_norm [of "mask_paths l" "mask_paths r"]
  unfolding mask_ok_def mask_Union_def list_all_iff by auto

lemma mask_subtrees_Union: "mask_subtrees (mask_Union l r) z \<longleftrightarrow> mask_subtrees l z \<or> mask_subtrees r z"
  by (simp add: mask_subtrees_def mask_Union_def Union_loop_cov)

lemma mask_ok_Intersection:
  assumes "mask_ok l" "mask_ok r"
  shows "mask_ok (mask_Intersection l r)"
proof -
  have "\<forall>p \<in> set (mask_paths l) \<union> set (mask_paths r). \<not> IsEmpty p"
    using mask_ok_nonempty assms by blast
  then have "paths.norm (Intersection_loop (mask_paths l) (mask_paths r))"
    by (intro Intersection_loop_norm mask_ok_norm assms)
  moreover have "\<forall>p \<in> set (Intersection_loop (mask_paths l) (mask_paths r)). mask_path_valid p"
    using Intersection_loop_set assms unfolding mask_ok_def list_all_iff by blast
  ultimately show ?thesis by (simp add: mask_ok_def mask_Intersection_def list_all_iff)
qed

lemma mask_subtrees_Intersection:
  assumes "mask_ok l" "mask_ok r"
  shows "mask_subtrees (mask_Intersection l r) z \<longleftrightarrow> mask_subtrees l z \<and> mask_subtrees r z"
  using Intersection_loop_cov [OF mask_ok_norm mask_ok_norm, of l r z] mask_ok_nonempty [of l] assms
  by (simp add: mask_subtrees_def mask_Intersection_def)

text \<open>A well-formed mask is determined by what it stands for.\<close>

lemma mask_canonical:
  assumes "mask_ok l" "mask_ok r" "\<And>z. \<not> IsEmpty z \<Longrightarrow> mask_subtrees l z = mask_subtrees r z"
  shows "l = r"
proof -
  have "mask_paths l = mask_paths r"
  proof (rule paths.norm_canonical)
    show "paths.norm (mask_paths l)" "paths.norm (mask_paths r)" using assms by (auto dest: mask_ok_norm)
    show "\<forall>x \<in> set (mask_paths l). \<not> IsEmpty x" "\<forall>x \<in> set (mask_paths r). \<not> IsEmpty x"
      using mask_ok_nonempty assms by blast+
    show "\<not> IsEmpty x \<Longrightarrow> paths.cov (mask_paths l) x = paths.cov (mask_paths r) x" for x
      using assms(3) by (simp add: mask_subtrees_def)
  qed
  then show ?thesis by simp
qed

text \<open>C36: Union: the result is well formed and \<open>IncludesSubtree\<close> holds of a path for it exactly if
  it holds for one of the masks; the operation is commutative, associative and idempotent.
\<close>

theorem mask_Union_ok:
  assumes "mask_ok l" "mask_ok r" "mask_ok s"
  shows "mask_ok (mask_Union l r)
    \<and> (\<forall>path. \<not> IsEmpty path \<longrightarrow>
        (mask_IncludesSubtree (mask_Union l r) path
          \<longleftrightarrow> mask_IncludesSubtree l path \<or> mask_IncludesSubtree r path))
    \<and> mask_Union l r = mask_Union r l
    \<and> mask_Union l (mask_Union r s) = mask_Union (mask_Union l r) s
    \<and> mask_Union l l = l"
proof (intro conjI allI impI)
  show "mask_Union l r = mask_Union r l" "mask_Union l l = l"
    by (rule mask_canonical; use assms mask_ok_Union in \<open>auto simp: mask_subtrees_Union\<close>)+
  show "mask_Union l (mask_Union r s) = mask_Union (mask_Union l r) s"
    by (rule mask_canonical) (use assms mask_ok_Union in \<open>auto simp: mask_subtrees_Union\<close>)
qed (use assms mask_ok_Union in \<open>auto simp: mask_IncludesSubtree_def IncludesSubtree_covers mask_subtrees_Union\<close>)

text \<open>Intersection, likewise.\<close>

theorem mask_Intersection_ok:
  assumes "mask_ok l" "mask_ok r"
  shows "mask_ok (mask_Intersection l r)
    \<and> (\<forall>path. \<not> IsEmpty path \<longrightarrow>
        (mask_IncludesSubtree (mask_Intersection l r) path
          \<longleftrightarrow> mask_IncludesSubtree l path \<and> mask_IncludesSubtree r path))
    \<and> mask_Intersection l r = mask_Intersection r l
    \<and> mask_Intersection l (mask_Union l r) = l"
proof (intro conjI allI impI)
  show "mask_Intersection l r = mask_Intersection r l"
    by (rule mask_canonical)
      (use assms in \<open>auto simp: mask_subtrees_Intersection mask_ok_Intersection\<close>)
  show "mask_Intersection l (mask_Union l r) = l"
    by (rule mask_canonical)
      (use assms in \<open>auto simp: mask_subtrees_Intersection mask_ok_Intersection mask_ok_Union
        mask_subtrees_Union\<close>)
qed (use assms in \<open>auto simp: mask_IncludesSubtree_def IncludesSubtree_covers
      mask_ok_Intersection mask_subtrees_Intersection\<close>)

text \<open>C35: The three inclusion queries: a path is included if it is below or above a path of the
  mask, its subtree is if it is below one, and a mask is if all its subtrees are.
\<close>

theorem mask_Includes_iff:
  assumes "mask_ok m" "mask_ok other" "\<not> IsEmpty path"
  shows "(mask_Includes_path m path
      \<longleftrightarrow> (\<exists>p \<in> set (mask_paths m). HasPrefix path p \<or> HasPrefix p path))
    \<and> (mask_IncludesSubtree m path \<longleftrightarrow> (\<exists>p \<in> set (mask_paths m). HasPrefix path p))
    \<and> (mask_Includes m other
      \<longleftrightarrow> (\<forall>z. \<not> IsEmpty z \<longrightarrow> mask_IncludesSubtree other z \<longrightarrow> mask_IncludesSubtree m z))"
proof (intro conjI)
  have "mask_Union m other = m \<longleftrightarrow>
      (\<forall>z. \<not> IsEmpty z \<longrightarrow> mask_subtrees other z \<longrightarrow> mask_subtrees m z)"
  proof
    assume "mask_Union m other = m"
    then show "\<forall>z. \<not> IsEmpty z \<longrightarrow> mask_subtrees other z \<longrightarrow> mask_subtrees m z"
      using mask_subtrees_Union by metis
  next
    assume "\<forall>z. \<not> IsEmpty z \<longrightarrow> mask_subtrees other z \<longrightarrow> mask_subtrees m z"
    then show "mask_Union m other = m"
      using assms by (intro mask_canonical) (auto simp: mask_ok_Union mask_subtrees_Union)
  qed
  then show "mask_Includes m other
      \<longleftrightarrow> (\<forall>z. \<not> IsEmpty z \<longrightarrow> mask_IncludesSubtree other z \<longrightarrow> mask_IncludesSubtree m z)"
    using assms by (auto simp: mask_Includes_def mask_IncludesSubtree_def IncludesSubtree_covers)
qed (use assms in \<open>simp_all add: Includes_path_iff mask_IncludesSubtree_def IncludesSubtree_covers
      mask_subtrees_def covers_def\<close>)

lemma mask_subtrees_single: "mask_subtrees \<lparr>mask_paths = [p]\<rparr> z \<longleftrightarrow> HasPrefix z p"
  by (simp add: mask_subtrees_def)

lemma mask_ok_single: "mask_path_valid p \<Longrightarrow> mask_ok \<lparr>mask_paths = [p]\<rparr>"
  by (simp add: mask_ok_def normalized_def)

text \<open>Adding one path: valid paths give well-formed masks, any other posts an error.\<close>

theorem mask_GetUnion_path_ok:
  assumes "mask_ok m"
  shows "(mask_path_valid path \<longrightarrow> \<not> snd (mask_GetUnion_path m path)
      \<and> mask_ok (fst (mask_GetUnion_path m path))
      \<and> (\<forall>z. \<not> IsEmpty z \<longrightarrow> (mask_IncludesSubtree (fst (mask_GetUnion_path m path)) z
          \<longleftrightarrow> mask_IncludesSubtree m z \<or> HasPrefix z path)))
    \<and> (snd (mask_GetUnion_path m path) \<longleftrightarrow> \<not> mask_path_valid path)"
  using assms
  by (auto simp: mask_GetUnion_path_def mask_ok_Union mask_ok_single mask_IncludesSubtree_def
      IncludesSubtree_covers mask_subtrees_Union mask_subtrees_single)

subsection \<open>Child names\<close>

definition prim_only :: "sdf_path \<Rightarrow> bool" where
  "prim_only p \<longleftrightarrow> (\<forall>n \<in> set (prim_part p). \<exists>name. n = PrimNode name \<and> name \<noteq> [])"

lemma mask_path_absolute:
  "mask_path_valid p \<Longrightarrow> p = SdfPath AbsoluteRoot (prim_part p) []"
  by (cases p) (auto simp: mask_path_valid_def path_queries)

lemma child_name_beneath:
  "GetChildNameBeneathPath (SdfPath AbsoluteRoot (ns @ n # rest) []) (SdfPath AbsoluteRoot ns [])
   = Some (prim_node_name n)"
proof (induction rest rule: rev_induct)
  case Nil
  show ?case
    by (subst GetChildNameBeneathPath.simps)
      (simp add: GetParentPath_absolute IsEmpty_def prim_handle_def null_prim_handle_def
        GetNameToken_def prim_handle_name_def butlast_append)
next
  case (snoc x xs)
  then show ?case
    by (subst GetChildNameBeneathPath.simps)
      (simp add: GetParentPath_absolute IsEmpty_def prim_handle_def null_prim_handle_def
        butlast_append)
qed

definition add_name :: "token list \<Rightarrow> token \<Rightarrow> token list" where
  "add_name names c = (if names = [] \<or> last names \<noteq> c then names @ [c] else names)"

definition child_name :: "prim_node list \<Rightarrow> sdf_path \<Rightarrow> token" where
  "child_name ns p = prim_node_name (prim_part p ! length ns)"

lemma below_absolute:
  assumes "HasPrefix p (SdfPath AbsoluteRoot ns [])" "mask_path_valid p" "prim_only p"
    "p \<noteq> SdfPath AbsoluteRoot ns []"
  obtains rest where "p = SdfPath AbsoluteRoot (ns @ PrimNode (child_name ns p) # rest) []"
    "child_name ns p \<noteq> []"
proof -
  have "prefix ns (prim_part p)" using assms(1) by (simp add: HasPrefix_iff)
  then obtain zs where zs: "prim_part p = ns @ zs" by (auto simp: prefix_def)
  with mask_path_absolute [OF assms(2)] have p: "p = SdfPath AbsoluteRoot (ns @ zs) []" by simp
  with assms(4) obtain n rest where n: "zs = n # rest" by (cases zs) auto
  with assms(3) zs obtain name where "n = PrimNode name" "name \<noteq> []" by (auto simp: prim_only_def)
  with n p zs that [of rest] show thesis by (simp add: child_name_def)
qed

lemma child_names_loop_fold:
  assumes "\<forall>p \<in> set ps. mask_path_valid p \<and> prim_only p" "SdfPath AbsoluteRoot ns [] \<notin> set ps"
  shows "child_names_loop ps (SdfPath AbsoluteRoot ns []) names =
    Some (foldl add_name names
      (map (child_name ns) (takeWhile (\<lambda>p. HasPrefix p (SdfPath AbsoluteRoot ns [])) ps)))"
  using assms
proof (induction ps arbitrary: names)
  case (Cons p ps)
  show ?case
  proof (cases "HasPrefix p (SdfPath AbsoluteRoot ns [])")
    case True
    obtain rest where p: "p = SdfPath AbsoluteRoot (ns @ PrimNode (child_name ns p) # rest) []"
      "child_name ns p \<noteq> []"
      by (rule below_absolute [OF True]) (use Cons.prems in auto)
    then have "GetChildNameBeneathPath p (SdfPath AbsoluteRoot ns []) = Some (child_name ns p)"
      by (metis child_name_beneath prim_node_name.simps(1))
    with True p(2) Cons.IH Cons.prems show ?thesis by (simp add: add_name_def)
  qed simp
qed simp

lemma fold_add_name_sorted:
  assumes "sorted xs" "sorted_wrt (<) names" "\<forall>x \<in> set xs. \<forall>n \<in> set names. n \<le> x"
  shows "sorted_wrt (<) (foldl add_name names xs) \<and> set (foldl add_name names xs) = set names \<union> set xs"
  using assms
proof (induction xs arbitrary: names)
  case (Cons x xs)
  have le: "\<forall>n \<in> set names. n \<le> x" using Cons.prems(3) by simp
  have "sorted_wrt (<) (add_name names x)" "set (add_name names x) = insert x (set names)"
  proof -
    have "\<forall>n \<in> set names. n < x" if "names \<noteq> []" "last names \<noteq> x"
    proof
      fix n assume n: "n \<in> set names"
      have "last names < x" using le that by (metis last_in_set order_le_less)
      moreover have "n \<le> last names"
        using Cons.prems(2) n that(1) by (cases names rule: rev_cases) (auto simp: sorted_wrt_append)
      ultimately show "n < x" by simp
    qed
    then show "sorted_wrt (<) (add_name names x)"
      using Cons.prems(2) by (cases "names = []") (auto simp: add_name_def sorted_wrt_append)
    show "set (add_name names x) = insert x (set names)"
      by (auto simp: add_name_def)
  qed
  moreover from this have "\<forall>y \<in> set xs. \<forall>n \<in> set (add_name names x). n \<le> y"
    using Cons.prems(1,3) by auto
  ultimately show ?case using Cons.IH [of "add_name names x"] Cons.prems(1) by simp
qed simp

lemma child_name_mono:
  assumes "p = SdfPath AbsoluteRoot (ns @ PrimNode a # xs) []"
    and "q = SdfPath AbsoluteRoot (ns @ PrimNode b # ys) []" and "p < q"
  shows "a \<le> b"
proof -
  have "ns @ PrimNode a # xs < ns @ PrimNode b # ys"
    using assms by (simp add: less_path_lex IsEmpty_def prim_handle_def null_prim_handle_def)
  then have "PrimNode a # xs < PrimNode b # ys" by (induction ns) auto
  then show ?thesis by (auto simp: less_prim_node_inst)
qed

definition child_path :: "sdf_path \<Rightarrow> token \<Rightarrow> sdf_path" where
  "child_path path name = SdfPath (path_root path) (prim_part path @ [PrimNode name]) []"

text \<open>The paths below the given one are a stretch of the vector.\<close>

lemma below_stretch_set:
  assumes "paths.norm ps" "\<not> IsEmpty path" "it = length (takeWhile (\<lambda>e. e < path) ps)"
  shows "set (takeWhile (\<lambda>p. HasPrefix p path) (drop it ps)) = {p \<in> set ps. HasPrefix p path}"
proof -
  note stretch = paths.below_stretch [OF assms]
  let ?qs = "takeWhile (\<lambda>p. HasPrefix p path) (drop it ps)"
  have "set ps = set (take it ps) \<union> set ?qs \<union> set (dropWhile (\<lambda>p. HasPrefix p path) (drop it ps))"
    by (metis Un_assoc append_take_drop_id set_append takeWhile_dropWhile_id)
  moreover have "p \<in> set ?qs \<Longrightarrow> HasPrefix p path" for p by (blast dest: set_takeWhileD)
  ultimately show ?thesis using stretch(1,2) by blast
qed

lemma child_path_queries:
  assumes "path = SdfPath AbsoluteRoot ns []"
  shows "child_path path c = SdfPath AbsoluteRoot (ns @ [PrimNode c]) []"
    and "\<not> IsEmpty path" "\<not> IsEmpty (child_path path c)" "HasPrefix (child_path path c) path"
  by (simp_all add: assms child_path_def HasPrefix_iff IsEmpty_def prim_handle_def null_prim_handle_def)

text \<open>A strict descendant of an absolute prim path whose nodes are prims.\<close>

lemma below_child_form:
  assumes "mask_path_valid p" "prim_only p" "p \<noteq> path" "HasPrefix p path" "path = SdfPath AbsoluteRoot ns []"
  obtains rest where "p = SdfPath AbsoluteRoot (ns @ PrimNode (child_name ns p) # rest) []"
  using below_absolute [of p ns] assms by metis

lemma below_child_iff:
  assumes "mask_path_valid p" "prim_only p" "p \<noteq> path" "path = SdfPath AbsoluteRoot ns []"
  shows "HasPrefix p (child_path path c) \<longleftrightarrow> HasPrefix p path \<and> child_name ns p = c"
proof
  assume pc: "HasPrefix p (child_path path c)"
  with child_path_queries(4) [OF assms(4)] have pp: "HasPrefix p path" by (blast intro: paths.prefix_trans)
  with assms obtain rest where "p = SdfPath AbsoluteRoot (ns @ PrimNode (child_name ns p) # rest) []"
    using below_child_form by blast
  with pc pp show "HasPrefix p path \<and> child_name ns p = c"
    unfolding child_path_queries(1) [OF assms(4)]
    by (metis HasPrefix_iff prim_node.inject(1) Cons_prefix_Cons same_prefix_prefix sdf_path.sel(2,3))
next
  assume pp: "HasPrefix p path \<and> child_name ns p = c"
  with assms obtain rest where "p = SdfPath AbsoluteRoot (ns @ PrimNode c # rest) []"
    using below_child_form by blast
  then show "HasPrefix p (child_path path c)" unfolding child_path_queries(1) [OF assms(4)]
    by (simp add: HasPrefix_iff IsEmpty_def prim_handle_def null_prim_handle_def)
qed

text \<open>If the path itself is not covered, a child is included exactly if it names a descendant.\<close>

lemma child_included:
  assumes ok: "mask_ok m" and prim: "list_all prim_only (mask_paths m)"
    and path: "path = SdfPath AbsoluteRoot ns []" and not_cov: "\<not> paths.cov (mask_paths m) path"
  shows "mask_Includes_path m (child_path path c)
    \<longleftrightarrow> c \<in> child_name ns ` {p \<in> set (mask_paths m). HasPrefix p path}"
proof -
  let ?c = "child_path path c"
  note q = child_path_queries [OF path]
  have elems: "mask_path_valid p \<and> prim_only p" if "p \<in> set (mask_paths m)" for p
    using ok prim that by (simp add: mask_ok_def list_all_iff)
  have ne: "p \<noteq> path" if "p \<in> set (mask_paths m)" for p
    using not_cov paths.prefix_refl [OF q(2)] that unfolding covers_def by blast
  have up: "HasPrefix ?c p \<Longrightarrow> p = ?c" if p: "p \<in> set (mask_paths m)" for p
  proof -
    assume cp: "HasPrefix ?c p"
    have "HasPrefix path p" if "p \<noteq> ?c"
      using that cp mask_path_absolute [of p] elems [OF p] unfolding q(1) unfolding path
      by (cases p) (auto simp: HasPrefix_iff path_queries)
    with not_cov p show "p = ?c" unfolding covers_def by blast
  qed
  have down: "HasPrefix p ?c \<longleftrightarrow> HasPrefix p path \<and> child_name ns p = c" if "p \<in> set (mask_paths m)" for p
    using elems [OF that] ne [OF that] path by (intro below_child_iff) blast+
  have self: "HasPrefix ?c ?c" by (rule paths.prefix_refl [OF q(3)])
  have "mask_Includes_path m ?c \<longleftrightarrow> (\<exists>p \<in> set (mask_paths m). HasPrefix p ?c)"
    unfolding Includes_path_iff [OF ok q(3)] using up self by metis
  also have "\<dots> \<longleftrightarrow> (\<exists>p \<in> set (mask_paths m). HasPrefix p path \<and> child_name ns p = c)"
    using down by blast
  finally show ?thesis by blast
qed

lemma below_names_sorted:
  assumes "paths.norm ps" "path \<notin> set ps" "path = SdfPath AbsoluteRoot ns []"
    and "\<forall>p \<in> set ps. mask_path_valid p \<and> prim_only p"
  shows "sorted (map (child_name ns) (takeWhile (\<lambda>p. HasPrefix p path) (drop it ps)))"
proof -
  let ?qs = "takeWhile (\<lambda>p. HasPrefix p path) (drop it ps)"
  have below: "\<exists>rest. p = SdfPath AbsoluteRoot (ns @ PrimNode (child_name ns p) # rest) []"
    if p: "p \<in> set ?qs" for p
  proof -
    have "HasPrefix p path" "p \<in> set ps" using p by (blast dest: set_takeWhileD in_set_dropD)+
    with assms(2,4) have "mask_path_valid p" "prim_only p" "p \<noteq> path" "HasPrefix p path" by blast+
    from below_child_form [OF this assms(3)] show ?thesis by blast
  qed
  have "sorted_wrt (<) ?qs"
    using paths.norm_sorted [OF paths.norm_take [OF paths.norm_drop [OF assms(1)]]]
    by (subst takeWhile_eq_take)
  then have "sorted_wrt (\<lambda>p q. child_name ns p \<le> child_name ns q) ?qs"
    by (rule sorted_wrt_mono_rel [rotated]) (metis below child_name_mono)
  then show ?thesis by (simp add: sorted_wrt_map)
qed

text \<open>\<open>GetIncludedChildNames\<close> always returns. If the whole subtree is included the names are
  empty; otherwise they are the names of the children the mask includes, in order and
  without repetition, and the result says whether there is one.
\<close>

theorem GetIncludedChildNames_children:
  assumes ok: "mask_ok m" and prim: "list_all prim_only (mask_paths m)"
    and path: "path = SdfPath AbsoluteRoot ns []"
  shows "\<exists>names. GetIncludedChildNames m path
        = Some (mask_IncludesSubtree m path \<or> names \<noteq> [], names)
      \<and> sorted_wrt (<) names
      \<and> set names = (if mask_IncludesSubtree m path then {}
          else {name. mask_Includes_path m (child_path path name)})"
proof (cases "mask_IncludesSubtree m path")
  case True
  then show ?thesis
    by (auto simp: GetIncludedChildNames_def mask_IncludesSubtree_def split: prod.splits)
next
  case False
  let ?ps = "mask_paths m"
  define it where "it = length (takeWhile (\<lambda>e. e < path) ?ps)"
  let ?qs = "takeWhile (\<lambda>p. HasPrefix p path) (drop it ?ps)"
  define names where "names = foldl add_name [] (map (child_name ns) ?qs)"
  note path_ok = child_path_queries(2) [OF path]
  have norm: "paths.norm ?ps" by (rule mask_ok_norm [OF ok])
  have elems: "\<forall>p \<in> set ?ps. mask_path_valid p \<and> prim_only p"
    using ok prim by (simp add: mask_ok_def list_all_iff)
  have not_cov: "\<not> paths.cov ?ps path"
    using False IncludesSubtree_covers [OF ok path_ok] by (simp add: mask_IncludesSubtree_def mask_subtrees_def)
  then have notin: "path \<notin> set ?ps" using paths.prefix_refl [OF path_ok] unfolding covers_def by blast
  have sub: "IncludesSubtree ?ps path = (False, it)"
    using False by (auto simp: mask_IncludesSubtree_def IncludesSubtree_def Let_def it_def
        lower_bound_paths [OF norm])
  have loop: "child_names_loop (drop it ?ps) path [] = Some names"
    unfolding path names_def
    by (rule child_names_loop_fold) (use elems notin path in \<open>auto dest: in_set_dropD\<close>)
  have "sorted_wrt (<) names" "set names = child_name ns ` set ?qs"
    using fold_add_name_sorted [of "map (child_name ns) ?qs" "[]"]
      below_names_sorted [OF norm notin path elems] by (simp_all add: names_def)
  moreover have "set names = {name. mask_Includes_path m (child_path path name)}"
    unfolding calculation(2) child_included [OF ok prim path not_cov]
      below_stretch_set [OF norm path_ok it_def] by blast
  ultimately show ?thesis
    unfolding GetIncludedChildNames_def sub using False by (simp add: loop)
qed

definition variant_mask :: UsdStagePopulationMask where
  "variant_mask = \<lparr>mask_paths =
     [SdfPath AbsoluteRoot [PrimNode ''A'', PrimNode ''x''] [],
      SdfPath AbsoluteRoot [PrimNode ''A'', PrimNode ''z''] [],
      SdfPath AbsoluteRoot [PrimNode ''A'', PrimVariantSelectionNode ''v'' ''x'', PrimNode ''B''] []]\<rparr>"

lemma variant_mask_ok: "mask_ok variant_mask"
  by (simp add: mask_ok_def variant_mask_def paths.norm_Cons less_path_lex less_prim_node_inst
      HasPrefix_iff mask_path_valid_def path_queries)

text \<open>The comment in \<open>GetIncludedChildNames\<close> that it is enough to compare with the last name
  "because the range is sorted" holds for prim paths only: a variant selection and a prim can
  have the same name, and a mask with paths through both reports the name twice.
\<close>

theorem GetIncludedChildNames_duplicate:
  "mask_ok variant_mask
    \<and> GetIncludedChildNames variant_mask (SdfPath AbsoluteRoot [PrimNode ''A''] [])
      = Some (True, [''x'', ''z'', ''x''])"
proof -
  let ?A = "SdfPath AbsoluteRoot [PrimNode ''A''] []"
  have name: "GetChildNameBeneathPath (SdfPath AbsoluteRoot (PrimNode ''A'' # n # rest) []) ?A
      = Some (prim_node_name n)" for n rest
    using child_name_beneath [of "[PrimNode ''A'']" n rest] by simp
  have ne: "\<not> IsEmpty ?A" by (simp add: path_queries)
  have "std_lower_bound (<) (mask_paths variant_mask) ?A = 0"
    unfolding lower_bound_paths [OF mask_ok_norm [OF variant_mask_ok]]
    by (simp add: variant_mask_def less_path_lex path_queries)
  then have "IncludesSubtree (mask_paths variant_mask) ?A = (False, 0)"
    by (simp add: IncludesSubtree_def variant_mask_def)
  then show ?thesis
    using name [of "PrimNode ''x''" "[]"] name [of "PrimNode ''z''" "[]"]
      name [of "PrimVariantSelectionNode ''v'' ''x''" "[PrimNode ''B'']"]
    by (simp add: GetIncludedChildNames_def variant_mask_ok)
      (simp add: variant_mask_def HasPrefix_iff path_queries)
qed

section \<open>Witnesses\<close>

definition mask_A :: UsdStagePopulationMask where
  "mask_A = \<lparr>mask_paths = [SdfPath AbsoluteRoot [PrimNode ''A'', PrimNode ''B''] [],
     SdfPath AbsoluteRoot [PrimNode ''A'', PrimNode ''C''] []]\<rparr>"

definition mask_B :: UsdStagePopulationMask where
  "mask_B = \<lparr>mask_paths = [SdfPath AbsoluteRoot [PrimNode ''A''] []]\<rparr>"

lemma example_masks_ok: "mask_ok mask_A" "mask_ok mask_B"
  by (simp_all add: mask_ok_def mask_A_def mask_B_def paths.norm_Cons less_path_lex
      less_prim_node_inst HasPrefix_iff mask_path_valid_def path_queries)

theorem mask_Union_ok_witness: "mask_Union mask_A mask_B = mask_Union mask_B mask_A"
  using mask_Union_ok [OF example_masks_ok example_masks_ok(2)] by blast

theorem mask_Intersection_ok_witness:
  "mask_Intersection mask_A (mask_Union mask_A mask_B) = mask_A"
  using mask_Intersection_ok [OF example_masks_ok] by blast

theorem mask_Includes_iff_witness: "mask_Includes_path mask_B (SdfPath AbsoluteRoot [] [])"
  using mask_Includes_iff [OF example_masks_ok(2,1), of "SdfPath AbsoluteRoot [] []"]
  by (simp add: path_queries mask_B_def HasPrefix_iff)

theorem mask_of_paths_ok_witness:
  "mask_ok (fst (mask_of_paths [SdfPath AbsoluteRoot [PrimNode ''A''] [], SdfPath AbsoluteRoot [] []]))"
  using mask_of_paths_ok [of "[SdfPath AbsoluteRoot [PrimNode ''A''] [], SdfPath AbsoluteRoot [] []]"]
  by (simp add: mask_path_valid_def path_queries)

theorem mask_GetUnion_path_ok_witness: "mask_ok mask_All \<and> mask_ok empty_mask"
proof -
  have "mask_ok empty_mask" by (simp add: mask_ok_def empty_mask_def)
  moreover from mask_GetUnion_path_ok [OF this, of AbsoluteRootPath] have "mask_ok mask_All"
    by (simp add: mask_All_def mask_path_valid_def path_queries)
  ultimately show ?thesis by blast
qed

theorem GetIncludedChildNames_children_witness:
  "\<exists>names. GetIncludedChildNames mask_A (SdfPath AbsoluteRoot [PrimNode ''A''] [])
     = Some (mask_IncludesSubtree mask_A (SdfPath AbsoluteRoot [PrimNode ''A''] []) \<or> names \<noteq> [], names)"
  using GetIncludedChildNames_children [OF example_masks_ok(1) _ refl, of "[PrimNode ''A'']"]
  by (auto simp: mask_A_def prim_only_def)

end
