(* ===== verification/Usd_StageLoadRules.thy ===== *)
theory Usd_StageLoadRules
  imports Sdf_PathSearch
begin

text \<open>
  The rules that govern which payloads of a stage are loaded (\<open>pxr/usd/usd/stageLoadRules.cpp\<close>):
  a vector of paths with rules, sorted by path. The searches of \<open>sdf/path.h\<close> take a function
  that gets the path of an element; here they run on the list of the paths, with the same
  positions.
\<close>

datatype Rule = AllRule | OnlyRule | NoneRule

type_synonym load_rules = "(sdf_path \<times> Rule) list"

datatype UsdLoadPolicy = UsdLoadWithDescendants | UsdLoadWithoutDescendants

section \<open>Operations\<close>

definition LoadAll :: load_rules where
  "LoadAll = []"

definition LoadNone :: load_rules where
  "LoadNone = [(AbsoluteRootPath, NoneRule)]"

text \<open>The three operations that replace the rules of a path and below it.\<close>

definition erase_range :: "nat \<times> nat \<Rightarrow> (sdf_path \<times> Rule) \<Rightarrow> load_rules \<Rightarrow> load_rules" where
  "erase_range found new rules = take (fst found) rules @ [new] @ drop (snd found) rules"

definition LoadWithDescendants :: "load_rules \<Rightarrow> sdf_path \<Rightarrow> load_rules" where
  "LoadWithDescendants rules path =
     (let found = FindPrefixedRange (map fst rules) path in erase_range found (path, AllRule) rules)"

definition LoadWithoutDescendants :: "load_rules \<Rightarrow> sdf_path \<Rightarrow> load_rules" where
  "LoadWithoutDescendants rules path =
     (let found = FindPrefixedRange (map fst rules) path in erase_range found (path, OnlyRule) rules)"

definition Unload :: "load_rules \<Rightarrow> sdf_path \<Rightarrow> load_rules" where
  "Unload rules path =
     (let found = FindPrefixedRange (map fst rules) path in erase_range found (path, NoneRule) rules)"

text \<open>The path sets are given as the lists in their order.\<close>

definition LoadAndUnload :: "load_rules \<Rightarrow> sdf_path list \<Rightarrow> sdf_path list \<Rightarrow> UsdLoadPolicy \<Rightarrow> load_rules" where
  "LoadAndUnload rules loadSet unloadSet policy =
     foldl (\<lambda>rules path. case policy of
         UsdLoadWithDescendants \<Rightarrow> LoadWithDescendants rules path
       | UsdLoadWithoutDescendants \<Rightarrow> LoadWithoutDescendants rules path)
       (foldl Unload rules unloadSet) loadSet"

definition rule_LowerBound :: "load_rules \<Rightarrow> sdf_path \<Rightarrow> nat" where
  "rule_LowerBound rules path = std_lower_bound (\<lambda>elem path. fst elem < path) rules path"

definition AddRule :: "load_rules \<Rightarrow> sdf_path \<Rightarrow> Rule \<Rightarrow> load_rules" where
  "AddRule rules path rule =
     (let iter = rule_LowerBound rules path in
      if iter < length rules \<and> fst (rules ! iter) = path then rules[iter := (fst (rules ! iter), rule)]
      else take iter rules @ [(path, rule)] @ drop iter rules)"

definition SetRules :: "load_rules \<Rightarrow> load_rules \<Rightarrow> load_rules" where
  "SetRules this rules = rules"

section \<open>Removing redundant rules\<close>

text \<open>The loop of \<open>Minimize\<close>: the stack of indices has its back at the head of the list.\<close>

function minimize_loop :: "load_rules \<Rightarrow> nat \<Rightarrow> nat list \<Rightarrow> load_rules" where
  "minimize_loop rules i parentIdxStack =
     (if i < length rules then
        let cur = rules ! i;
            parentIdxStack = dropWhile (\<lambda>j. \<not> HasPrefix (fst cur) (fst (rules ! j))) parentIdxStack;
            parentRule = (if parentIdxStack = [] then AllRule else snd (rules ! hd parentIdxStack))
        in if snd cur = parentRule then minimize_loop (take i rules @ drop (i + 1) rules) i parentIdxStack
           else minimize_loop rules (i + 1) (i # parentIdxStack)
      else rules)"
  by pat_completeness auto
termination
  by (relation "measure (\<lambda>(rules, i, stack). length rules - i)") auto

declare minimize_loop.simps [simp del]

definition Minimize :: "load_rules \<Rightarrow> load_rules" where
  "Minimize rules =
     (if rules = [] then rules
      else
        let rules = (if snd (hd rules) = AllRule \<and> fst (hd rules) = AbsoluteRootPath then tl rules else rules)
        in if length rules \<le> 1 then rules else minimize_loop rules 0 [])"

section \<open>Queries\<close>

text \<open>The inner and the outer loop over the descendant rules of \<open>GetEffectiveRuleForPath\<close>.\<close>

function skip_prefixed :: "load_rules \<Rightarrow> sdf_path \<Rightarrow> nat \<Rightarrow> nat \<Rightarrow> nat" where
  "skip_prefixed rules pre next_iter second =
     (if next_iter < second \<and> HasPrefix (fst (rules ! next_iter)) pre
      then skip_prefixed rules pre (next_iter + 1) second else next_iter)"
  by pat_completeness auto
termination
  by (relation "measure (\<lambda>(rules, pre, i, second). second - i)") auto

declare skip_prefixed.simps [simp del]

lemma skip_prefixed_ge: "i \<le> skip_prefixed rules pre i second"
proof (induction rules pre i second rule: skip_prefixed.induct)
  case (1 rules pre i second)
  then show ?case by (subst skip_prefixed.simps) (auto dest: Suc_leD)
qed

function descendant_loop :: "load_rules \<Rightarrow> nat \<Rightarrow> nat \<Rightarrow> Rule" where
  "descendant_loop rules iter second =
     (if iter < second then
        if snd (rules ! iter) = OnlyRule \<or> snd (rules ! iter) = AllRule then OnlyRule
        else descendant_loop rules (skip_prefixed rules (fst (rules ! iter)) (iter + 1) second) second
      else NoneRule)"
  by pat_completeness auto
termination
proof (relation "measure (\<lambda>(rules, i, second). second - i)", goal_cases)
  case (2 rules iter second)
  then show ?case using skip_prefixed_ge [of "iter + 1" rules "fst (rules ! iter)" second] by simp
qed simp

declare descendant_loop.simps [simp del]

definition GetEffectiveRuleForPath :: "load_rules \<Rightarrow> sdf_path \<Rightarrow> Rule" where
  "GetEffectiveRuleForPath rules path =
     (if rules = [] then AllRule
      else
        case FindLongestPrefix (map fst rules) path of
          None \<Rightarrow> AllRule
        | Some i \<Rightarrow>
            if snd (rules ! i) = AllRule then AllRule
            else if fst (rules ! i) = path \<and> snd (rules ! i) = OnlyRule then OnlyRule
            else
              let (first, second) = FindPrefixedRange (map fst (drop (i + 1) rules)) path
              in if first = second then NoneRule
                 else descendant_loop rules (i + 1 + first) (i + 1 + second))"

definition IsLoaded :: "load_rules \<Rightarrow> sdf_path \<Rightarrow> bool" where
  "IsLoaded rules path \<longleftrightarrow> GetEffectiveRuleForPath rules path \<noteq> NoneRule"

definition IsLoadedWithAllDescendants :: "load_rules \<Rightarrow> sdf_path \<Rightarrow> bool" where
  "IsLoadedWithAllDescendants rules path =
     (if rules = [] then True
      else
        let prefixIter = FindLongestPrefix (map fst rules) path in
        if (case prefixIter of None \<Rightarrow> False | Some i \<Rightarrow> snd (rules ! i) \<noteq> AllRule) then False
        else
          let (first, second) = FindPrefixedRange (map fst rules) path
          in list_all (\<lambda>e. snd e = AllRule) (take (second - first) (drop first rules)))"

text \<open>The scan for the next rule that is not a \<open>NoneRule\<close>.\<close>

fun next_rule_outside :: "sdf_path \<Rightarrow> load_rules \<Rightarrow> bool" where
  "next_rule_outside path [] = True"
| "next_rule_outside path (e # es) =
     (if snd e \<noteq> NoneRule then \<not> HasPrefix (fst e) path else next_rule_outside path es)"

definition IsLoadedWithNoDescendants :: "load_rules \<Rightarrow> sdf_path \<Rightarrow> bool" where
  "IsLoadedWithNoDescendants rules path =
     (if rules = [] then False
      else
        let iter = rule_LowerBound rules path in
        if iter = length rules \<or> fst (rules ! iter) \<noteq> path \<or> snd (rules ! iter) \<noteq> OnlyRule then False
        else next_rule_outside path (drop (iter + 1) rules))"

section \<open>What the rules mean\<close>

text \<open>Rules are sorted by path, with one rule for a path.\<close>

definition rules_ok :: "load_rules \<Rightarrow> bool" where
  "rules_ok rules \<longleftrightarrow> sorted_wrt (<) (map fst rules) \<and> list_all (\<lambda>e. path_root (fst e) \<noteq> NullRoot) rules"

definition inherited_rule :: "load_rules \<Rightarrow> sdf_path \<Rightarrow> Rule" where
  "inherited_rule rules path =
     (let above = filter (\<lambda>e. HasPrefix path (fst e)) rules in if above = [] then AllRule else snd (last above))"

text \<open>A rule below a path that loads something, with no rule in between that unloads.\<close>

definition loaded_below :: "load_rules \<Rightarrow> sdf_path \<Rightarrow> bool" where
  "loaded_below rules path \<longleftrightarrow>
     (\<exists>e \<in> set rules. snd e \<noteq> NoneRule \<and> HasPrefix (fst e) path \<and> fst e \<noteq> path
       \<and> (\<forall>e' \<in> set rules. HasPrefix (fst e) (fst e') \<and> HasPrefix (fst e') path \<and> fst e' \<noteq> path \<longrightarrow> snd e' \<noteq> NoneRule))"

definition effective_rule :: "load_rules \<Rightarrow> sdf_path \<Rightarrow> Rule" where
  "effective_rule rules path =
     (if inherited_rule rules path = AllRule then AllRule
      else if (path, OnlyRule) \<in> set rules \<or> loaded_below rules path then OnlyRule
      else NoneRule)"

lemma rules_ok_nonempty: "rules_ok rules \<Longrightarrow> list_all (\<lambda>p. \<not> IsEmpty p) (map fst rules)"
  by (auto simp: rules_ok_def list_all_iff rooted_not_empty)

lemma rules_ok_rooted: "rules_ok rules \<Longrightarrow> list_all (\<lambda>p. path_root p \<noteq> NullRoot) (map fst rules)"
  by (auto simp: rules_ok_def list_all_iff)

lemma rules_ok_append: "rules_ok (xs @ ys) \<longleftrightarrow> rules_ok xs \<and> rules_ok ys \<and> (\<forall>x \<in> set xs. \<forall>y \<in> set ys. fst x < fst y)"
  by (auto simp: rules_ok_def sorted_wrt_append)

lemma rules_ok_Cons: "rules_ok (x # xs) \<longleftrightarrow> path_root (fst x) \<noteq> NullRoot \<and> rules_ok xs \<and> (\<forall>y \<in> set xs. fst x < fst y)"
  by (auto simp: rules_ok_def)

lemma rules_ok_take_drop: "rules_ok rules \<Longrightarrow> rules_ok (take n rules) \<and> rules_ok (drop n rules)"
  by (metis append_take_drop_id rules_ok_append)

lemma rules_ok_unique: "rules_ok rules \<Longrightarrow> e \<in> set rules \<Longrightarrow> e' \<in> set rules \<Longrightarrow> fst e = fst e' \<Longrightarrow> e = e'"
  by (induction rules) (auto simp: rules_ok_Cons)

text \<open>The rule with the longest prefix is the last one with a prefix.\<close>

lemma longest_prefix_inherited:
  assumes "rules_ok rules" "path_root path \<noteq> NullRoot"
  shows "case FindLongestPrefix (map fst rules) path of
      None \<Rightarrow> filter (\<lambda>e. HasPrefix path (fst e)) rules = []
    | Some i \<Rightarrow> i < length rules \<and> HasPrefix path (fst (rules ! i)) \<and> inherited_rule rules path = snd (rules ! i)
        \<and> (\<forall>e \<in> set (drop (i + 1) rules). \<not> HasPrefix path (fst e))"
proof -
  have sorted: "sorted_wrt (<) (map fst rules)" using assms(1) by (simp add: rules_ok_def)
  have found: "longest_prefix_found (map fst rules) (\<lambda>c. HasPrefix path c) (FindLongestPrefix (map fst rules) path)"
    using FindLongestPrefix_found [OF sorted rules_ok_rooted [OF assms(1)] assms(2), of False]
    by (simp add: FindLongestPrefix_def)
  show ?thesis
  proof (cases "FindLongestPrefix (map fst rules) path")
    case None
    then show ?thesis using found by (simp add: longest_prefix_found_def list_all_iff filter_empty_conv)
  next
    case (Some i)
    then have i: "i < length rules" "HasPrefix path (fst (rules ! i))"
      "\<And>e. e \<in> set rules \<Longrightarrow> HasPrefix path (fst e) \<Longrightarrow> HasPrefix (fst (rules ! i)) (fst e)"
      using found by (auto simp: longest_prefix_found_def list_all_iff)
    have rest: "\<not> HasPrefix path (fst e)" if "e \<in> set (drop (i + 1) rules)" for e
    proof
      assume "HasPrefix path (fst e)"
      then have "HasPrefix (fst (rules ! i)) (fst e)" using i(3) that by (meson in_set_dropD)
      moreover have "fst (rules ! i) < fst e"
        using assms(1) id_take_nth_drop [OF i(1)] that by (metis Suc_eq_plus1 rules_ok_Cons rules_ok_append)
      ultimately show False using paths.less_not_prefix by blast
    qed
    then have "filter (\<lambda>e. HasPrefix path (fst e)) rules = filter (\<lambda>e. HasPrefix path (fst e)) (take i rules) @ [rules ! i]"
      by (subst id_take_nth_drop [OF i(1)]) (simp add: i(2) filter_empty_conv)
    then show ?thesis using Some i(1,2) rest by (simp add: inherited_rule_def)
  qed
qed

text \<open>The loop over descendant rules, on lists.\<close>

function topmost_loaded :: "load_rules \<Rightarrow> bool" where
  "topmost_loaded [] = False"
| "topmost_loaded (e # es) = (snd e \<noteq> NoneRule \<or> topmost_loaded (dropWhile (\<lambda>e'. HasPrefix (fst e') (fst e)) es))"
  by pat_completeness auto
termination
  by (relation "measure length") (auto simp: length_dropWhile_le le_imp_less_Suc)

lemma skip_prefixed_dropWhile:
  assumes "i \<le> second" "second \<le> length rules"
  shows "skip_prefixed rules pre i second \<le> second
    \<and> take (second - skip_prefixed rules pre i second) (drop (skip_prefixed rules pre i second) rules) =
      dropWhile (\<lambda>e. HasPrefix (fst e) pre) (take (second - i) (drop i rules))"
  using assms
proof (induction rules pre i second rule: skip_prefixed.induct)
  case (1 rules pre i second)
  show ?case
  proof (cases "i < second")
    case True
    then have "take (second - i) (drop i rules) = rules ! i # take (second - (i + 1)) (drop (i + 1) rules)"
      using 1(3) by (metis Cons_nth_drop_Suc Suc_diff_Suc Suc_eq_plus1 less_le_trans take_Suc_Cons)
    then show ?thesis using 1 True by (subst (1 2 3) skip_prefixed.simps) auto
  next
    case False
    then show ?thesis using 1(2) by (subst (1 2 3) skip_prefixed.simps) simp
  qed
qed

lemma descendant_loop_topmost:
  assumes "i \<le> second" "second \<le> length rules"
  shows "descendant_loop rules i second = (if topmost_loaded (take (second - i) (drop i rules)) then OnlyRule else NoneRule)"
  using assms
proof (induction rules i second rule: descendant_loop.induct)
  case (1 rules i second)
  show ?case
  proof (cases "i < second")
    case True
    then have cons: "take (second - i) (drop i rules) = rules ! i # take (second - (i + 1)) (drop (i + 1) rules)"
      using 1(3) by (metis Cons_nth_drop_Suc Suc_diff_Suc Suc_eq_plus1 less_le_trans take_Suc_Cons)
    have skip: "skip_prefixed rules (fst (rules ! i)) (i + 1) second \<le> second"
      "take (second - skip_prefixed rules (fst (rules ! i)) (i + 1) second) (drop (skip_prefixed rules (fst (rules ! i)) (i + 1) second) rules) =
      dropWhile (\<lambda>e. HasPrefix (fst e) (fst (rules ! i))) (take (second - (i + 1)) (drop (i + 1) rules))"
      using skip_prefixed_dropWhile [of "i + 1" second rules "fst (rules ! i)"] True 1(3) by auto
    have rule: "(snd (rules ! i) = OnlyRule \<or> snd (rules ! i) = AllRule) \<longleftrightarrow> snd (rules ! i) \<noteq> NoneRule"
      by (cases "snd (rules ! i)") simp_all
    show ?thesis
      using 1(1) [OF True _ skip(1) 1(3)] skip(2) True rule unfolding cons
      by (subst descendant_loop.simps) simp
  next
    case False
    then show ?thesis using 1(2) by (subst descendant_loop.simps) simp
  qed
qed

text \<open>A rule that loads, with none above it in the list that does not.\<close>

lemma topmost_loaded_iff:
  assumes "rules_ok es"
  shows "topmost_loaded es \<longleftrightarrow>
    (\<exists>e \<in> set es. snd e \<noteq> NoneRule \<and> (\<forall>e' \<in> set es. HasPrefix (fst e) (fst e') \<longrightarrow> snd e' \<noteq> NoneRule))"
  using assms
proof (induction es rule: topmost_loaded.induct)
  case (2 e es)
  let ?below = "\<lambda>e'. HasPrefix (fst e') (fst e)"
  have sorted: "\<And>e'. e' \<in> set es \<Longrightarrow> fst e < fst e'" and es: "rules_ok es" and e: "path_root (fst e) \<noteq> NullRoot"
    using 2(2) by (auto simp: rules_ok_Cons)
  have self: "HasPrefix (fst e) (fst e)" by (rule paths.prefix_refl [OF rooted_not_empty [OF e]])
  have above: "\<not> HasPrefix (fst e) (fst e')" if "e' \<in> set es" for e'
    using sorted [OF that] paths.less_not_prefix by blast
  show ?case
  proof (cases "snd e = NoneRule")
    case False
    have "\<forall>e' \<in> set (e # es). HasPrefix (fst e) (fst e') \<longrightarrow> snd e' \<noteq> NoneRule" using above False by auto
    then show ?thesis using False by auto
  next
    case True
    let ?rest = "dropWhile ?below es"
    have "?rest = drop (length (takeWhile ?below es)) es" by (rule dropWhile_eq_drop)
    then have rest_ok: "rules_ok ?rest" using rules_ok_take_drop [OF es] by simp
    have below: "?below e'" if "e' \<in> set (takeWhile ?below es)" for e' using set_takeWhileD [OF that] by blast
    have outside: "\<not> ?below e'" if e': "e' \<in> set ?rest" for e'
    proof
      assume b: "?below e'"
      obtain d ds where d: "?rest = d # ds" using e' by (cases ?rest) auto
      then have "\<not> ?below d" using hd_dropWhile [of ?below es] by force
      moreover have "d = e' \<or> fst d < fst e'" using e' rest_ok d by (auto simp: rules_ok_Cons)
      moreover have "fst e < fst d" using sorted [of d] d set_dropWhileD [of d ?below es] by simp
      ultimately show False using b paths.prefix_convex [OF b] by blast
    qed
    have split: "set es = set (takeWhile ?below es) \<union> set ?rest" by (metis set_append takeWhile_dropWhile_id)
    have "topmost_loaded (e # es) \<longleftrightarrow>
        (\<exists>x \<in> set ?rest. snd x \<noteq> NoneRule \<and> (\<forall>y \<in> set ?rest. HasPrefix (fst x) (fst y) \<longrightarrow> snd y \<noteq> NoneRule))"
      using True 2(1) [OF rest_ok] by simp
    also have "\<dots> \<longleftrightarrow> (\<exists>x \<in> set (e # es). snd x \<noteq> NoneRule \<and> (\<forall>y \<in> set (e # es). HasPrefix (fst x) (fst y) \<longrightarrow> snd y \<noteq> NoneRule))"
    proof (intro iffI; elim bexE conjE)
      fix x assume x: "x \<in> set ?rest" "snd x \<noteq> NoneRule" "\<forall>y \<in> set ?rest. HasPrefix (fst x) (fst y) \<longrightarrow> snd y \<noteq> NoneRule"
      have "\<not> HasPrefix (fst x) (fst y)" if "y \<in> set (takeWhile ?below es)" for y
        using outside [OF x(1)] below [OF that] paths.prefix_trans by blast
      then have "\<forall>y \<in> set (e # es). HasPrefix (fst x) (fst y) \<longrightarrow> snd y \<noteq> NoneRule"
        using x(3) outside [OF x(1)] split by auto
      moreover have "x \<in> set (e # es)" using x(1) split by auto
      ultimately show "\<exists>x \<in> set (e # es). snd x \<noteq> NoneRule \<and> (\<forall>y \<in> set (e # es). HasPrefix (fst x) (fst y) \<longrightarrow> snd y \<noteq> NoneRule)"
        using x(2) by blast
    next
      fix x assume x: "x \<in> set (e # es)" "snd x \<noteq> NoneRule"
        "\<forall>y \<in> set (e # es). HasPrefix (fst x) (fst y) \<longrightarrow> snd y \<noteq> NoneRule"
      then have "\<not> ?below x" using True by auto
      then have "x \<in> set ?rest" using x(1) split below [of x] self by auto
      then show "\<exists>x \<in> set ?rest. snd x \<noteq> NoneRule \<and> (\<forall>y \<in> set ?rest. HasPrefix (fst x) (fst y) \<longrightarrow> snd y \<noteq> NoneRule)"
        using x(2,3) split by auto
    qed
    finally show ?thesis .
  qed
qed simp

lemma same_paths_members:
  assumes "rules_ok rules" "map fst xs = map fst ys" "set xs \<subseteq> set rules" "set ys \<subseteq> set rules"
  shows "set xs = set ys"
proof -
  have sub: "set as \<subseteq> set bs" if *: "set (map fst as) = set (map fst bs)" "set as \<subseteq> set rules" "set bs \<subseteq> set rules" for as bs
  proof
    fix a assume a: "a \<in> set as"
    then have "fst a \<in> set (map fst bs)" unfolding *(1) [symmetric] by simp
    then obtain b where "b \<in> set bs" "fst a = fst b" by auto
    then show "a \<in> set bs" using rules_ok_unique [OF assms(1), of a b] a *(2,3) by auto
  qed
  have keys: "set (map fst xs) = set (map fst ys)" "set (map fst ys) = set (map fst xs)" by (simp_all only: assms(2))
  show ?thesis using sub [OF keys(1) assms(3,4)] sub [OF keys(2) assms(4,3)] by blast
qed

lemma effective_by_search:
  assumes "rules_ok rules" "path_root path \<noteq> NullRoot"
  shows "GetEffectiveRuleForPath rules path = effective_rule rules path"
proof (cases "FindLongestPrefix (map fst rules) path")
  case None
  then have "inherited_rule rules path = AllRule" using longest_prefix_inherited [OF assms] by (simp add: inherited_rule_def)
  then show ?thesis using None by (simp add: GetEffectiveRuleForPath_def effective_rule_def)
next
  case (Some i)
  then have i: "i < length rules" "HasPrefix path (fst (rules ! i))" "inherited_rule rules path = snd (rules ! i)"
    and rest: "\<And>e. e \<in> set (drop (i + 1) rules) \<Longrightarrow> \<not> HasPrefix path (fst e)"
    using longest_prefix_inherited [OF assms] by auto
  have self: "HasPrefix path path" by (rule paths.prefix_refl [OF rooted_not_empty [OF assms(2)]])
  have own: "fst (rules ! i) = path \<and> snd (rules ! i) = OnlyRule \<longleftrightarrow> (path, OnlyRule) \<in> set rules" if "snd (rules ! i) \<noteq> AllRule"
  proof
    assume "(path, OnlyRule) \<in> set rules"
    moreover have "fst (rules ! i) = path"
    proof -
      consider "(path, OnlyRule) \<in> set (take i rules)" | "(path, OnlyRule) = rules ! i" | "(path, OnlyRule) \<in> set (drop (i + 1) rules)"
        using \<open>(path, OnlyRule) \<in> set rules\<close> id_take_nth_drop [OF i(1)]
        by (metis Suc_eq_plus1 UnE insertE list.set(2) set_append)
      then show ?thesis
      proof cases
        case 1
        then have "path < fst (rules ! i)"
          using assms(1) id_take_nth_drop [OF i(1)] by (metis fst_conv list.set_intros(1) rules_ok_append)
        then show ?thesis using i(2) paths.less_not_prefix by blast
      next
        case 2
        then show ?thesis by (metis fst_conv)
      next
        case 3
        then show ?thesis using rest [OF 3] self by simp
      qed
    qed
    ultimately show "fst (rules ! i) = path \<and> snd (rules ! i) = OnlyRule"
      using rules_ok_unique [OF assms(1), of "rules ! i" "(path, OnlyRule)"] i(1) by simp
  next
    assume "fst (rules ! i) = path \<and> snd (rules ! i) = OnlyRule"
    then show "(path, OnlyRule) \<in> set rules" using nth_mem [OF i(1)] by (metis prod.collapse)
  qed
  obtain first second where fs: "FindPrefixedRange (map fst (drop (i + 1) rules)) path = (first, second)" by fastforce
  have rest_ok: "rules_ok (drop (i + 1) rules)" using rules_ok_take_drop [OF assms(1)] by blast
  have range: "first \<le> second" "second \<le> length rules - (i + 1)"
    "take (second - first) (drop first (map fst (drop (i + 1) rules))) = filter (\<lambda>p. HasPrefix p path) (map fst (drop (i + 1) rules))"
    using FindPrefixedRange_filtered [OF _ rules_ok_nonempty [OF rest_ok] rooted_not_empty [OF assms(2)] fs] rest_ok
    by (auto simp: rules_ok_def)
  let ?es = "take (second - first) (drop (i + 1 + first) rules)"
  let ?fs = "filter (\<lambda>e. HasPrefix (fst e) path) (drop (i + 1) rules)"
  have "map fst ?es = map fst ?fs"
    using range(3) by (simp add: filter_map take_map drop_map comp_def add.commute)
  moreover have "set ?es \<subseteq> set (drop (i + 1) rules)"
    by (metis add.commute drop_drop set_drop_subset set_take_subset subset_trans)
  moreover have "set ?fs \<subseteq> set (drop (i + 1) rules)" by auto
  ultimately have "set ?es = set ?fs" by (rule same_paths_members [OF rest_ok])
  then have members: "set ?es = {e \<in> set (drop (i + 1) rules). HasPrefix (fst e) path}" by simp
  have after: "e \<in> set (drop (i + 1) rules) \<longleftrightarrow> fst e \<noteq> path" if e: "e \<in> set rules" "HasPrefix (fst e) path" for e
  proof
    assume "e \<in> set (drop (i + 1) rules)"
    then show "fst e \<noteq> path" using rest [of e] self by auto
  next
    assume "fst e \<noteq> path"
    then have "path < fst e" using e(2) paths.prefix_less by blast
    moreover have "fst (rules ! i) = path \<or> fst (rules ! i) < path" using i(2) paths.prefix_less by blast
    ultimately have less: "fst (rules ! i) < fst e" by auto
    have "e \<in> set (take i rules) \<or> e = rules ! i \<or> e \<in> set (drop (i + 1) rules)"
      using e(1) id_take_nth_drop [OF i(1)] by (metis Suc_eq_plus1 UnE insertE list.set(2) set_append)
    moreover have "fst e < fst (rules ! i)" if "e \<in> set (take i rules)"
      using assms(1) id_take_nth_drop [OF i(1)] that by (metis list.set_intros(1) rules_ok_append)
    ultimately show "e \<in> set (drop (i + 1) rules)" using less by auto
  qed
  then have members': "set ?es = {e \<in> set rules. HasPrefix (fst e) path \<and> fst e \<noteq> path}"
    unfolding members by (auto dest: in_set_dropD)
  have es_ok: "rules_ok ?es" using rules_ok_take_drop assms(1) by blast
  have loop: "descendant_loop rules (i + 1 + first) (i + 1 + second) = (if topmost_loaded ?es then OnlyRule else NoneRule)"
    using descendant_loop_topmost [of "i + 1 + first" "i + 1 + second" rules] range(1,2) i(1) by simp
  have "topmost_loaded ?es \<longleftrightarrow> loaded_below rules path"
    unfolding topmost_loaded_iff [OF es_ok] members' loaded_below_def by blast
  moreover have "\<not> topmost_loaded ?es" if "first = second" using that by simp
  ultimately have "\<not> loaded_below rules path" if "first = second" using that by blast
  with \<open>topmost_loaded ?es \<longleftrightarrow> loaded_below rules path\<close> have search: "(if first = second then NoneRule else descendant_loop rules (i + 1 + first) (i + 1 + second)) =
      (if loaded_below rules path then OnlyRule else NoneRule)"
    unfolding loop by simp
  have "rules \<noteq> []" using i(1) by auto
  then show ?thesis
    unfolding GetEffectiveRuleForPath_def Some option.case Let_def fs split_conv search effective_rule_def i(3)
    using own by auto
qed

text \<open>C32: The searches by position compute the effective rule: the rule of the closest ancestor if it loads
  everything, else \<open>OnlyRule\<close> for a path with that rule or above a rule that loads, else
  \<open>NoneRule\<close>.\<close>

theorem GetEffectiveRuleForPath_effective:
  assumes "rules_ok rules" "path_root path \<noteq> NullRoot"
  shows "GetEffectiveRuleForPath rules path = effective_rule rules path"
  using effective_by_search [OF assms] .


section \<open>Loading and unloading\<close>

text \<open>The inherited rule in terms of the set of rules.\<close>

lemma above_sorted:
  assumes "rules_ok rules" "e \<in> set (filter (\<lambda>e. HasPrefix path (fst e)) rules)"
  shows "fst e \<le> fst (last (filter (\<lambda>e. HasPrefix path (fst e)) rules))"
proof -
  let ?above = "filter (\<lambda>e. HasPrefix path (fst e)) rules"
  have "?above \<noteq> []" using assms(2) by (metis empty_iff list.set(1))
  then have split: "?above = butlast ?above @ [last ?above]" by simp
  have "rules_ok ?above"
    using assms(1) by (auto simp: rules_ok_def list_all_iff sorted_wrt_map sorted_wrt_filter)
  then have "e \<in> set (butlast ?above) \<Longrightarrow> fst e < fst (last ?above)"
    using split by (metis list.set_intros(1) rules_ok_append)
  moreover have "e \<in> set (butlast ?above) \<or> e = last ?above" using assms(2) split by (metis in_set_butlast_appendI rotate1.simps(2) set_ConsD set_rotate1)
  ultimately show ?thesis by auto
qed

lemma inherited_nearest:
  assumes "rules_ok rules" "e \<in> set rules" "HasPrefix path (fst e)"
    and "\<And>e'. e' \<in> set rules \<Longrightarrow> HasPrefix path (fst e') \<Longrightarrow> HasPrefix (fst e) (fst e')"
  shows "inherited_rule rules path = snd e"
proof -
  let ?above = "filter (\<lambda>e. HasPrefix path (fst e)) rules"
  have mem: "e \<in> set ?above" using assms(2,3) by simp
  then have ne: "?above \<noteq> []" by (metis empty_iff list.set(1))
  then have l: "last ?above \<in> set rules" "HasPrefix path (fst (last ?above))" using last_in_set [OF ne] by auto
  have "HasPrefix (fst e) (fst (last ?above))" by (rule assms(4) [OF l])
  moreover have "fst e \<le> fst (last ?above)" by (rule above_sorted [OF assms(1) mem])
  ultimately have "fst e = fst (last ?above)" using paths.less_not_prefix by (auto simp: le_less)
  then have "e = last ?above" using rules_ok_unique [OF assms(1) assms(2) l(1)] by simp
  then show ?thesis using ne by (simp add: inherited_rule_def)
qed

lemma inherited_cases:
  assumes "rules_ok rules"
  obtains (none) "\<And>e. e \<in> set rules \<Longrightarrow> \<not> HasPrefix path (fst e)" "inherited_rule rules path = AllRule"
    | (nearest) e where "e \<in> set rules" "HasPrefix path (fst e)" "inherited_rule rules path = snd e"
        "\<And>e'. e' \<in> set rules \<Longrightarrow> HasPrefix path (fst e') \<Longrightarrow> HasPrefix (fst e) (fst e')"
proof -
  let ?above = "filter (\<lambda>e. HasPrefix path (fst e)) rules"
  show ?thesis
  proof (cases "?above = []")
    case True
    then have "\<not> HasPrefix path (fst e)" if "e \<in> set rules" for e using that by (simp add: filter_empty_conv)
    moreover have "inherited_rule rules path = AllRule" using True by (simp add: inherited_rule_def)
    ultimately show ?thesis by (rule none)
  next
    case False
    let ?e = "last ?above"
    have e: "?e \<in> set rules" "HasPrefix path (fst ?e)" using last_in_set [OF False] by auto
    moreover have "inherited_rule rules path = snd ?e" using False by (simp add: inherited_rule_def)
    moreover have "HasPrefix (fst ?e) (fst e')" if "e' \<in> set rules" "HasPrefix path (fst e')" for e'
    proof -
      have "fst e' \<le> fst ?e" using above_sorted [OF assms, of e' path] that by simp
      moreover have "HasPrefix (fst ?e) (fst e') \<or> HasPrefix (fst e') (fst ?e)" by (rule paths.prefix_chain [OF e(2) that(2)])
      moreover have "HasPrefix (fst ?e) (fst ?e)" using e(2) paths.prefix_valid paths.prefix_refl by blast
      ultimately show ?thesis using paths.less_not_prefix by (auto simp: le_less)
    qed
    ultimately show ?thesis by (rule nearest)
  qed
qed

text \<open>Only rules above and below a path matter.\<close>

lemma inherited_cong:
  assumes "rules_ok rules" "rules_ok rules'"
    and "\<And>e. HasPrefix path (fst e) \<Longrightarrow> e \<in> set rules \<longleftrightarrow> e \<in> set rules'"
  shows "inherited_rule rules path = inherited_rule rules' path"
  using assms(1)
proof (cases rule: inherited_cases [of rules path])
  case none
  then have "filter (\<lambda>e. HasPrefix path (fst e)) rules' = []" using assms(3) by (auto simp: filter_empty_conv)
  then show ?thesis using none(2) by (simp add: inherited_rule_def)
next
  case (nearest e)
  have "inherited_rule rules' path = snd e"
  proof (rule inherited_nearest [OF assms(2) _ nearest(2)])
    show "e \<in> set rules'" using nearest(1,2) assms(3) by blast
    show "e' \<in> set rules' \<Longrightarrow> HasPrefix path (fst e') \<Longrightarrow> HasPrefix (fst e) (fst e')" for e'
      using nearest(4) assms(3) by blast
  qed
  then show ?thesis using nearest(3) by simp
qed

lemma loaded_below_cong:
  assumes "\<And>e. HasPrefix (fst e) path \<Longrightarrow> e \<in> set rules \<longleftrightarrow> e \<in> set rules'"
  shows "loaded_below rules path \<longleftrightarrow> loaded_below rules' path"
  unfolding loaded_below_def using assms by blast

text \<open>The rules at and below a path are replaced by one rule.\<close>

definition replaces :: "sdf_path \<times> Rule \<Rightarrow> load_rules \<Rightarrow> load_rules \<Rightarrow> bool" where
  "replaces new rules rules' \<longleftrightarrow> rules_ok rules'
     \<and> set rules' = insert new {e \<in> set rules. \<not> HasPrefix (fst e) (fst new)}"

lemma dropWhile_sorted_ge:
  fixes y :: "'a :: linorder"
  shows "sorted_wrt (<) xs \<Longrightarrow> x \<in> set (dropWhile (\<lambda>e. e < y) xs) \<Longrightarrow> \<not> x < y"
  by (induction xs) (auto split: if_splits)

lemma erase_range_replaces:
  assumes "rules_ok rules" "path_root (fst new) \<noteq> NullRoot"
  shows "replaces new rules (erase_range (FindPrefixedRange (map fst rules) (fst new)) new rules)"
proof -
  let ?path = "fst new"
  obtain first second where fs: "FindPrefixedRange (map fst rules) ?path = (first, second)" by fastforce
  have sorted: "sorted_wrt (<) (map fst rules)" using assms(1) by (simp add: rules_ok_def)
  have ne: "\<not> IsEmpty ?path" by (rule rooted_not_empty [OF assms(2)])
  have found: "first \<le> second" "second \<le> length rules"
    "take (second - first) (drop first (map fst rules)) = filter (\<lambda>p. HasPrefix p ?path) (map fst rules)"
    using FindPrefixedRange_filtered [OF sorted rules_ok_nonempty [OF assms(1)] ne fs] by simp_all
  let ?A = "take first rules" and ?B = "take (second - first) (drop first rules)" and ?C = "drop second rules"
  have rules: "rules = ?A @ ?B @ ?C"
    using found(1) by (metis append_take_drop_id drop_drop le_add_diff_inverse2)
  have "map fst ?B = map fst (filter (\<lambda>e. HasPrefix (fst e) ?path) rules)"
    using found(3) by (simp add: filter_map take_map drop_map comp_def)
  moreover have "set ?B \<subseteq> set rules" "set (filter (\<lambda>e. HasPrefix (fst e) ?path) rules) \<subseteq> set rules"
    by (auto dest: in_set_takeD in_set_dropD)
  ultimately have "set ?B = set (filter (\<lambda>e. HasPrefix (fst e) ?path) rules)" by (rule same_paths_members [OF assms(1)])
  then have B: "set ?B = {e \<in> set rules. HasPrefix (fst e) ?path}" by simp
  have "distinct rules" using assms(1) by (induction rules) (auto simp: rules_ok_Cons)
  then have "distinct (?A @ ?B @ ?C)" using rules by argo
  moreover have "set rules = set (?A @ ?B @ ?C)" using rules by argo
  ultimately have "set ?A \<inter> set ?B = {}" "set ?C \<inter> set ?B = {}" "set rules = set ?A \<union> set ?B \<union> set ?C"
    unfolding distinct_append set_append by blast+
  then have AC: "set ?A \<union> set ?C = {e \<in> set rules. \<not> HasPrefix (fst e) ?path}" using B by blast
  have first: "first = length (takeWhile (\<lambda>e. e < ?path) (map fst rules))"
    using fs lower_bound_sorted_paths [OF sorted] by (simp add: FindPrefixedRange_def Let_def)
  have "map fst ?A = takeWhile (\<lambda>e. e < ?path) (map fst rules)"
    unfolding take_map [symmetric] first by (rule takeWhile_eq_take [symmetric])
  then have below: "fst e < ?path" if "e \<in> set ?A" for e
    using that by (metis image_eqI list.set_map set_takeWhileD)
  have above: "?path < fst e" if e: "e \<in> set ?C" for e
  proof -
    have "fst e \<in> set (drop first (map fst rules))"
      using e found(1) set_drop_subset_set_drop [of first second rules] by (auto simp: drop_map)
    then have "fst e \<in> set (dropWhile (\<lambda>e. e < ?path) (map fst rules))" unfolding first by (simp add: dropWhile_eq_drop)
    then have "\<not> fst e < ?path" by (rule dropWhile_sorted_ge [OF sorted])
    moreover have "\<not> HasPrefix (fst e) ?path" using e AC by blast
    then have "fst e \<noteq> ?path" using paths.prefix_refl [OF ne] by auto
    ultimately show ?thesis by auto
  qed
  have "rules_ok ?A" "rules_ok ?C" "\<forall>x \<in> set ?A. \<forall>y \<in> set ?C. fst x < fst y"
    using assms(1) rules by (metis UnCI rules_ok_append set_append)+
  then have "rules_ok (?A @ new # ?C)"
    using below above assms(2) by (auto simp: rules_ok_append rules_ok_Cons)
  then show ?thesis using fs AC by (auto simp: replaces_def erase_range_def)
qed

text \<open>What a replaced rule does to the effective rules of all paths.\<close>

lemma replaces_effective:
  assumes "rules_ok rules" "replaces (path, r) rules rules'" "path_root path \<noteq> NullRoot" "path_root q \<noteq> NullRoot"
  shows "HasPrefix q path \<Longrightarrow> effective_rule rules' q = (if r = AllRule then AllRule else if q = path then r else NoneRule)"
    and "\<not> HasPrefix q path \<Longrightarrow> \<not> HasPrefix path q \<Longrightarrow> effective_rule rules' q = effective_rule rules q"
    and "HasPrefix path q \<Longrightarrow> q \<noteq> path \<Longrightarrow> r \<noteq> NoneRule \<Longrightarrow>
      (\<And>p. (p, NoneRule) \<in> set rules \<Longrightarrow> HasPrefix path p \<Longrightarrow> HasPrefix p q \<Longrightarrow> p = q \<or> p = path) \<Longrightarrow>
      effective_rule rules' q \<noteq> NoneRule"
proof -
  have ok: "rules_ok rules'" and set: "set rules' = insert (path, r) {e \<in> set rules. \<not> HasPrefix (fst e) path}"
    using assms(2) by (auto simp: replaces_def)
  have self: "HasPrefix path path" by (rule paths.prefix_refl [OF rooted_not_empty [OF assms(3)]])
  show "effective_rule rules' q = (if r = AllRule then AllRule else if q = path then r else NoneRule)"
    if q: "HasPrefix q path"
  proof -
    have "inherited_rule rules' q = snd (path, r)"
    proof (rule inherited_nearest [OF ok])
      fix e' assume e': "e' \<in> set rules'" "HasPrefix q (fst e')"
      have "HasPrefix path (fst e') \<or> HasPrefix (fst e') path" by (rule paths.prefix_chain [OF q e'(2)])
      then show "HasPrefix (fst (path, r)) (fst e')" using e'(1) set self by auto
    qed (use set q in simp_all)
    moreover have "(q, OnlyRule) \<in> set rules' \<longleftrightarrow> q = path \<and> r = OnlyRule" using set q by auto
    moreover have "\<not> loaded_below rules' q"
    proof
      assume "loaded_below rules' q"
      then obtain e where e: "e \<in> set rules'" "HasPrefix (fst e) q" "fst e \<noteq> q" by (auto simp: loaded_below_def)
      then have "HasPrefix (fst e) path" using q paths.prefix_trans by blast
      then have "fst e = path" using e(1) set by auto
      then show False using e(2,3) q paths.prefix_antisym by blast
    qed
    ultimately show ?thesis by (cases r) (auto simp: effective_rule_def)
  qed
  have above: "e \<in> set rules' \<longleftrightarrow> e \<in> set rules" if "\<not> HasPrefix q path" "HasPrefix q (fst e)" for e
    using that set paths.prefix_trans by auto
  show "effective_rule rules' q = effective_rule rules q" if q: "\<not> HasPrefix q path" "\<not> HasPrefix path q"
  proof -
    have "inherited_rule rules' q = inherited_rule rules q"
      using above [OF q(1)] by (rule inherited_cong [OF ok assms(1)])
    moreover have "e \<in> set rules' \<longleftrightarrow> e \<in> set rules" if "HasPrefix (fst e) q" for e
      using that q set paths.prefix_chain by auto
    then have "loaded_below rules' q \<longleftrightarrow> loaded_below rules q" by (rule loaded_below_cong)
    moreover have "HasPrefix q q" by (rule paths.prefix_refl [OF rooted_not_empty [OF assms(4)]])
    then have "(q, OnlyRule) \<in> set rules' \<longleftrightarrow> (q, OnlyRule) \<in> set rules" using above [OF q(1)] by simp
    ultimately show ?thesis by (simp add: effective_rule_def)
  qed
  show "effective_rule rules' q \<noteq> NoneRule"
    if q: "HasPrefix path q" "q \<noteq> path" "r \<noteq> NoneRule"
      and between: "\<And>p. (p, NoneRule) \<in> set rules \<Longrightarrow> HasPrefix path p \<Longrightarrow> HasPrefix p q \<Longrightarrow> p = q \<or> p = path"
  proof -
    have "\<forall>e' \<in> set rules'. HasPrefix path (fst e') \<and> HasPrefix (fst e') q \<and> fst e' \<noteq> q \<longrightarrow> snd e' \<noteq> NoneRule"
    proof (intro ballI impI notI)
      fix e' assume e': "e' \<in> set rules'" "HasPrefix path (fst e') \<and> HasPrefix (fst e') q \<and> fst e' \<noteq> q" "snd e' = NoneRule"
      then have "e' \<noteq> (path, r)" using q(3) by auto
      then have e: "e' \<in> set rules" "fst e' \<noteq> path" using e'(1) set self by auto
      moreover have "e' = (fst e', NoneRule)" using e'(3) by (metis prod.collapse)
      ultimately have "(fst e', NoneRule) \<in> set rules" by simp
      then show False using between [of "fst e'"] e'(2) e(2) by blast
    qed
    moreover have "(path, r) \<in> set rules'" using set by simp
    ultimately have "loaded_below rules' q"
      unfolding loaded_below_def using q by (intro bexI [of _ "(path, r)"]) simp_all
    then show ?thesis by (simp add: effective_rule_def)
  qed
qed

text \<open>C33: Loading and unloading keep the rules sorted. A path that is loaded or unloaded, and everything below it, gets
  the rule; what is neither above nor below is not changed; and what is above a loaded path is loaded,
  unless there is a \<open>NoneRule\<close> in between.\<close>

theorem load_operations_effective:
  assumes "(load, r) \<in> {(LoadWithDescendants, AllRule), (LoadWithoutDescendants, OnlyRule), (Unload, NoneRule)}"
    and "rules_ok rules" "path_root path \<noteq> NullRoot" "path_root q \<noteq> NullRoot"
  shows "rules_ok (load rules path)
    \<and> (HasPrefix q path \<longrightarrow>
        GetEffectiveRuleForPath (load rules path) q = (if r = AllRule then AllRule else if q = path then r else NoneRule))
    \<and> (\<not> HasPrefix q path \<and> \<not> HasPrefix path q \<longrightarrow>
        GetEffectiveRuleForPath (load rules path) q = GetEffectiveRuleForPath rules q)
    \<and> (HasPrefix path q \<and> q \<noteq> path \<and> r \<noteq> NoneRule
        \<and> (\<forall>p. (p, NoneRule) \<in> set rules \<and> HasPrefix path p \<and> HasPrefix p q \<longrightarrow> p = q \<or> p = path) \<longrightarrow>
        IsLoaded (load rules path) q)"
proof -
  have load: "load rules path = erase_range (FindPrefixedRange (map fst rules) (fst (path, r))) (path, r) rules"
    using assms(1) by (auto simp: LoadWithDescendants_def LoadWithoutDescendants_def Unload_def Let_def)
  have replaces: "replaces (path, r) rules (load rules path)"
    unfolding load using assms(2,3) by (intro erase_range_replaces) simp_all
  then have ok: "rules_ok (load rules path)" by (simp add: replaces_def)
  note eff = replaces_effective [OF assms(2) replaces assms(3,4)]
  show ?thesis
    using ok eff unfolding IsLoaded_def effective_by_search [OF ok assms(4)] effective_by_search [OF assms(2,4)] by blast
qed

text \<open>Nested unloaded rules stop the search for what is loaded below: a path can be loaded although one
  above it is not.\<close>

definition example_rule_path :: "string list \<Rightarrow> sdf_path" where
  "example_rule_path names = SdfPath AbsoluteRoot (map PrimNode names) []"

theorem LoadWithDescendants_ancestor:
  "let rules = LoadWithDescendants (Unload (Unload LoadAll (example_rule_path [''A''])) (example_rule_path [''A'', ''B'']))
         (example_rule_path [''A'', ''B'', ''C''])
   in IsLoaded rules (example_rule_path [''A'', ''B'']) \<and> \<not> IsLoaded rules (example_rule_path [''A''])"
  unfolding Let_def by code_simp

section \<open>Minimizing\<close>

text \<open>The loop on lists: a rule that is the one it would inherit from the rules that are kept is left out.\<close>

definition keep_rule :: "load_rules \<Rightarrow> sdf_path \<times> Rule \<Rightarrow> load_rules" where
  "keep_rule kept e = (if snd e = inherited_rule kept (fst e) then kept else kept @ [e])"

text \<open>The stack holds the kept rules that can have later paths below them, the last one first.\<close>

definition stack_ok :: "load_rules \<Rightarrow> nat \<Rightarrow> nat list \<Rightarrow> bool" where
  "stack_ok rules i stack \<longleftrightarrow> sorted_wrt (>) stack \<and> (\<forall>j \<in> set stack. j < i)
     \<and> (\<forall>j < i. \<forall>e \<in> set (drop i rules). HasPrefix (fst e) (fst (rules ! j)) \<longrightarrow> j \<in> set stack)"

lemma rules_ok_nth_less: "rules_ok rules \<Longrightarrow> i < j \<Longrightarrow> j < length rules \<Longrightarrow> fst (rules ! i) < fst (rules ! j)"
  by (simp add: rules_ok_def sorted_wrt_iff_nth_less)

lemma sorted_wrt_dropWhile: "sorted_wrt R xs \<Longrightarrow> sorted_wrt R (dropWhile P xs)"
  by (induction xs) auto

lemma stack_inherited:
  assumes "rules_ok rules" "i < length rules" "stack_ok rules i stack"
  defines "popped \<equiv> dropWhile (\<lambda>j. \<not> HasPrefix (fst (rules ! i)) (fst (rules ! j))) stack"
  shows "(if popped = [] then AllRule else snd (rules ! hd popped)) = inherited_rule (take i rules) (fst (rules ! i))"
proof -
  let ?P = "\<lambda>j. HasPrefix (fst (rules ! i)) (fst (rules ! j))"
  have "rules ! i \<in> set (drop i rules)" using assms(2) by (metis Cons_nth_drop_Suc list.set_intros(1))
  then have mem: "j \<in> set stack" if "j < i" "?P j" for j using assms(3) that by (auto simp: stack_ok_def)
  have take_ok: "rules_ok (take i rules)" using rules_ok_take_drop [OF assms(1)] by blast
  show ?thesis
  proof (cases "popped = []")
    case True
    then have "\<not> ?P j" if "j \<in> set stack" for j using that by (simp add: popped_def)
    then have none: "\<not> ?P j" if "j < i" for j using mem [OF that] by blast
    have "\<not> HasPrefix (fst (rules ! i)) (fst e)" if e: "e \<in> set (take i rules)" for e
    proof -
      obtain j where "j < i" "e = rules ! j" using e assms(2) by (auto simp: in_set_conv_nth)
      then show ?thesis using none by blast
    qed
    then have "filter (\<lambda>e. HasPrefix (fst (rules ! i)) (fst e)) (take i rules) = []" by (simp add: filter_empty_conv)
    then show ?thesis using True by (simp add: inherited_rule_def)
  next
    case False
    let ?h = "hd popped"
    have h: "?h \<in> set stack" "?P ?h"
      using False hd_in_set [OF False] hd_dropWhile [of "\<lambda>j. \<not> ?P j" stack] set_dropWhileD
      unfolding popped_def by fastforce+
    then have less: "?h < i" using assms(3) by (auto simp: stack_ok_def)
    have last: "j \<le> ?h" if "j < i" "?P j" for j
    proof -
      have "stack = takeWhile (\<lambda>j. \<not> ?P j) stack @ popped" by (simp add: popped_def)
      then have "j \<in> set popped" using mem [OF that] that(2) set_takeWhileD by (metis Un_iff set_append)
      moreover have "sorted_wrt (>) popped"
        using assms(3) by (auto simp: popped_def stack_ok_def intro: sorted_wrt_dropWhile)
      ultimately show ?thesis using False by (cases popped) auto
    qed
    have nth: "take i rules ! ?h = rules ! ?h" using less by simp
    have "inherited_rule (take i rules) (fst (rules ! i)) = snd (rules ! ?h)"
    proof (rule inherited_nearest [OF take_ok])
      show "rules ! ?h \<in> set (take i rules)"
        unfolding in_set_conv_nth by (rule exI [of _ ?h]) (use less assms(2) nth in simp)
      fix e' assume e': "e' \<in> set (take i rules)" "HasPrefix (fst (rules ! i)) (fst e')"
      obtain j where j: "j < i" "e' = rules ! j" using e'(1) assms(2) by (auto simp: in_set_conv_nth)
      have "j \<le> ?h" using last j e'(2) by blast
      then have "fst e' \<le> fst (rules ! ?h)"
        using rules_ok_nth_less [OF assms(1), of j ?h] assms(2) j(2) less by (cases "j = ?h") auto
      moreover have "HasPrefix (fst (rules ! ?h)) (fst e') \<or> HasPrefix (fst e') (fst (rules ! ?h))"
        by (rule paths.prefix_chain [OF h(2) e'(2)])
      moreover have "HasPrefix (fst (rules ! ?h)) (fst (rules ! ?h))"
        using h(2) paths.prefix_valid paths.prefix_refl by blast
      ultimately show "HasPrefix (fst (rules ! ?h)) (fst e')" using paths.less_not_prefix by (auto simp: le_less)
    qed (rule h(2))
    then show ?thesis using False by simp
  qed
qed

lemma stack_popped:
  assumes "rules_ok rules" "i < length rules" "stack_ok rules i stack"
  defines "popped \<equiv> dropWhile (\<lambda>j. \<not> HasPrefix (fst (rules ! i)) (fst (rules ! j))) stack"
  shows "stack_ok rules (i + 1) (i # popped)"
    and "stack_ok (take i rules @ drop (i + 1) rules) i popped"
proof -
  let ?P = "\<lambda>j. HasPrefix (fst (rules ! i)) (fst (rules ! j))"
  have split: "stack = takeWhile (\<lambda>j. \<not> ?P j) stack @ popped" by (simp add: popped_def)
  have sub: "set popped \<subseteq> set stack" unfolding popped_def using set_dropWhileD by fastforce
  have sorted: "sorted_wrt (>) popped"
    using assms(3) by (auto simp: popped_def stack_ok_def intro: sorted_wrt_dropWhile)
  have small: "j < i" if "j \<in> set popped" for j using that sub assms(3) by (auto simp: stack_ok_def)
  have later: "j \<in> set popped" if j: "j < i" "e \<in> set (drop (i + 1) rules)" "HasPrefix (fst e) (fst (rules ! j))" for j e
  proof -
    have "drop i rules = rules ! i # drop (i + 1) rules" using assms(2) by (simp add: Cons_nth_drop_Suc)
    then have e: "e \<in> set (drop i rules)" "fst (rules ! i) < fst e"
      using j(2) rules_ok_take_drop [OF assms(1), of i] by (auto simp: rules_ok_Cons)
    then have "j \<in> set stack" using assms(3) j(1,3) by (auto simp: stack_ok_def)
    moreover have "fst (rules ! j) < fst (rules ! i)"
      using assms(1,2) j(1) by (simp add: rules_ok_def sorted_wrt_iff_nth_less)
    then have "?P j" using paths.prefix_convex [OF j(3) _ e(2)] by blast
    ultimately show ?thesis using split set_takeWhileD by (metis Un_iff set_append)
  qed
  show "stack_ok rules (i + 1) (i # popped)"
    unfolding stack_ok_def using sorted small later by (auto simp: less_Suc_eq)
  have "(take i rules @ drop (i + 1) rules) ! j = rules ! j" if "j < i" for j
    using that assms(2) by (simp add: nth_append)
  moreover have "drop i (take i rules @ drop (i + 1) rules) = drop (i + 1) rules" using assms(2) by simp
  ultimately show "stack_ok (take i rules @ drop (i + 1) rules) i popped"
    unfolding stack_ok_def using sorted small later by metis
qed

lemma minimize_loop_foldl:
  assumes "rules_ok rules" "i \<le> length rules" "stack_ok rules i stack"
  shows "minimize_loop rules i stack = foldl keep_rule (take i rules) (drop i rules)"
  using assms
proof (induction rules i stack rule: minimize_loop.induct)
  case (1 rules i stack)
  show ?case
  proof (cases "i < length rules")
    case True
    let ?popped = "dropWhile (\<lambda>j. \<not> HasPrefix (fst (rules ! i)) (fst (rules ! j))) stack"
    let ?without = "take i rules @ drop (i + 1) rules"
    note popped = stack_popped [OF 1(3) True 1(5)]
    note rule = stack_inherited [OF 1(3) True 1(5)]
    have split: "drop i rules = rules ! i # drop (i + 1) rules" using True by (simp add: Cons_nth_drop_Suc)
    have "rules_ok ?without"
      using 1(3) id_take_nth_drop [OF True] by (metis Suc_eq_plus1 in_set_dropD list.set_intros(2) rules_ok_Cons rules_ok_append)
    then have remove: "minimize_loop ?without i ?popped = foldl keep_rule (take i rules) (drop (i + 1) rules)"
      if "snd (rules ! i) = (if ?popped = [] then AllRule else snd (rules ! hd ?popped))"
      using 1(1) [OF True refl refl refl that _ _ popped(2)] True by simp
    have keep: "minimize_loop rules (i + 1) (i # ?popped) = foldl keep_rule (take i rules @ [rules ! i]) (drop (i + 1) rules)"
      if "snd (rules ! i) \<noteq> (if ?popped = [] then AllRule else snd (rules ! hd ?popped))"
      using 1(2) [OF True refl refl refl that 1(3) _ popped(1)] True by (simp add: take_Suc_conv_app_nth)
    have unfold: "minimize_loop rules i stack =
        (if snd (rules ! i) = (if ?popped = [] then AllRule else snd (rules ! hd ?popped))
         then minimize_loop ?without i ?popped else minimize_loop rules (i + 1) (i # ?popped))"
      by (subst minimize_loop.simps) (simp only: True if_True Let_def)
    show ?thesis
    proof (cases "snd (rules ! i) = inherited_rule (take i rules) (fst (rules ! i))")
      case True
      then have "keep_rule (take i rules) (rules ! i) = take i rules" by (simp add: keep_rule_def)
      then show ?thesis using remove True unfolding unfold rule by (simp add: split)
    next
      case False
      then have "keep_rule (take i rules) (rules ! i) = take i rules @ [rules ! i]" by (simp add: keep_rule_def)
      then show ?thesis using keep False unfolding unfold rule by (simp add: split)
    qed
  next
    case False
    then show ?thesis using 1(4) by (subst minimize_loop.simps) simp
  qed
qed

text \<open>The rule that a path would inherit without a rule of its own.\<close>

definition parent_rule :: "load_rules \<Rightarrow> sdf_path \<Rightarrow> Rule" where
  "parent_rule rules path = inherited_rule (filter (\<lambda>e. fst e \<noteq> path) rules) path"

lemma rules_ok_filter: "rules_ok rules \<Longrightarrow> rules_ok (filter P rules)"
  by (auto simp: rules_ok_def list_all_iff sorted_wrt_map sorted_wrt_filter)

lemma parent_rule_last:
  assumes "rules_ok (rules @ [e])" "x \<in> set (rules @ [e])"
  shows "parent_rule (rules @ [e]) (fst x) = (if x = e then inherited_rule rules (fst e) else parent_rule rules (fst x))"
proof -
  have before: "fst y < fst e" if "y \<in> set rules" for y using assms(1) that by (auto simp: rules_ok_append)
  show ?thesis
  proof (cases "x = e")
    case True
    have "fst y \<noteq> fst e" if "y \<in> set rules" for y using before [OF that] by simp
    then have "filter (\<lambda>y. fst y \<noteq> fst e) rules = rules" by (simp add: filter_id_conv)
    then show ?thesis using True by (simp add: parent_rule_def)
  next
    case False
    then have "fst x < fst e" using assms(2) before by auto
    then have "\<not> HasPrefix (fst x) (fst e)" by (rule paths.less_not_prefix)
    then show ?thesis using False by (simp add: parent_rule_def inherited_rule_def)
  qed
qed

text \<open>What is kept: the rules that differ from the one they would inherit. The inherited rules stay.\<close>

lemma foldl_keep_rule:
  assumes "rules_ok rules"
  shows "set (foldl keep_rule [] rules) = {e \<in> set rules. snd e \<noteq> parent_rule rules (fst e)}
    \<and> rules_ok (foldl keep_rule [] rules)
    \<and> (\<forall>q. inherited_rule (foldl keep_rule [] rules) q = inherited_rule rules q)"
  using assms
proof (induction rules rule: rev_induct)
  case (snoc e rules)
  let ?kept = "foldl keep_rule [] rules"
  have ok: "rules_ok rules" and before: "\<And>y. y \<in> set rules \<Longrightarrow> fst y < fst e" and e: "path_root (fst e) \<noteq> NullRoot"
    using snoc.prems by (auto simp: rules_ok_append rules_ok_Cons)
  note IH = snoc.IH [OF ok]
  have new: "e \<notin> set rules" using before [of e] by auto
  have kept_sub: "set ?kept \<subseteq> set rules" using IH by blast
  have inherited: "inherited_rule ?kept (fst e) = inherited_rule rules (fst e)" using IH by blast
  have "foldl keep_rule [] (rules @ [e]) = keep_rule ?kept e" by simp
  also have "\<dots> = (if snd e = inherited_rule rules (fst e) then ?kept else ?kept @ [e])"
    by (subst keep_rule_def) (simp only: inherited)
  finally have step: "foldl keep_rule [] (rules @ [e]) = (if snd e = inherited_rule rules (fst e) then ?kept else ?kept @ [e])" .
  have parent: "{x \<in> set (rules @ [e]). snd x \<noteq> parent_rule (rules @ [e]) (fst x)} =
      set ?kept \<union> (if snd e = inherited_rule rules (fst e) then {} else {e})"
  proof (rule set_eqI)
    fix x
    show "x \<in> {x \<in> set (rules @ [e]). snd x \<noteq> parent_rule (rules @ [e]) (fst x)} \<longleftrightarrow>
        x \<in> set ?kept \<union> (if snd e = inherited_rule rules (fst e) then {} else {e})"
    proof (cases "x \<in> set (rules @ [e])")
      case True
      show ?thesis
      proof (cases "x = e")
        case True
        then show ?thesis using parent_rule_last [OF snoc.prems, of e] new kept_sub by auto
      next
        case False
        then have "x \<in> set rules" using True by simp
        then show ?thesis using parent_rule_last [OF snoc.prems True] False IH by simp
      qed
    next
      case False
      then show ?thesis using kept_sub by auto
    qed
  qed
  show ?case
  proof (cases "snd e = inherited_rule rules (fst e)")
    case True
    then have fold: "foldl keep_rule [] (rules @ [e]) = ?kept" using step by simp
    have "inherited_rule ?kept q = inherited_rule (rules @ [e]) q" for q
    proof (cases "HasPrefix q (fst e)")
      case True
      have "HasPrefix q (fst k) \<longleftrightarrow> HasPrefix (fst e) (fst k)" if "k \<in> set ?kept" for k
        using paths.prefix_chain [OF True, of "fst k"] paths.prefix_trans [OF True, of "fst k"]
          paths.less_not_prefix [of "fst k" "fst e"] before kept_sub that by blast
      then have "filter (\<lambda>k. HasPrefix q (fst k)) ?kept = filter (\<lambda>k. HasPrefix (fst e) (fst k)) ?kept"
        by (rule filter_cong [OF refl])
      then have "inherited_rule ?kept q = inherited_rule ?kept (fst e)" by (simp add: inherited_rule_def)
      also have "\<dots> = snd e" using IH \<open>snd e = _\<close> by simp
      also have "\<dots> = inherited_rule (rules @ [e]) q" using True by (simp add: inherited_rule_def)
      finally show ?thesis .
    next
      case False
      then show ?thesis using IH by (simp add: inherited_rule_def)
    qed
    then show ?thesis using fold parent True IH by simp
  next
    case False
    then have fold: "foldl keep_rule [] (rules @ [e]) = ?kept @ [e]" using step by simp
    have "rules_ok [e]" using e by (simp add: rules_ok_def)
    moreover have "\<forall>x \<in> set ?kept. fst x < fst e" using before kept_sub by blast
    ultimately have "rules_ok (?kept @ [e])" using IH by (simp add: rules_ok_append)
    moreover have "inherited_rule (?kept @ [e]) q = inherited_rule (rules @ [e]) q" for q
      using IH by (cases "HasPrefix q (fst e)") (auto simp: inherited_rule_def)
    ultimately show ?thesis using fold parent False by auto
  qed
qed (simp add: rules_ok_def inherited_rule_def)

text \<open>What the removal of rules takes: no \<open>OnlyRule\<close> right below an \<open>OnlyRule\<close>, and nothing that is loaded below
  a \<open>NoneRule\<close> right below a \<open>NoneRule\<close>.\<close>

definition minimizable :: "load_rules \<Rightarrow> bool" where
  "minimizable rules \<longleftrightarrow>
     list_all (\<lambda>e. snd e = parent_rule rules (fst e) \<longrightarrow> snd e \<noteq> OnlyRule
       \<and> (snd e = NoneRule \<longrightarrow> list_all (\<lambda>e'. HasPrefix (fst e') (fst e) \<longrightarrow> snd e' = NoneRule) rules)) rules"

lemma nearest_below:
  assumes "rules_ok rules" "e \<in> set rules" "HasPrefix (fst e) q" "fst e \<noteq> q"
  shows "\<exists>t \<in> set rules. HasPrefix (fst e) (fst t) \<and> HasPrefix (fst t) q \<and> fst t \<noteq> q
    \<and> (\<forall>e' \<in> set rules. HasPrefix (fst t) (fst e') \<and> HasPrefix (fst e') q \<and> fst e' \<noteq> q \<longrightarrow> e' = t)"
proof -
  let ?between = "filter (\<lambda>x. HasPrefix (fst e) (fst x) \<and> HasPrefix (fst x) q \<and> fst x \<noteq> q) rules"
  have "HasPrefix (fst e) (fst e)" using assms(3) paths.prefix_valid paths.prefix_refl by blast
  then have "e \<in> set ?between" using assms(2-4) by simp
  then obtain t ts where t: "?between = t # ts" by (cases ?between) auto
  then have "t \<in> set ?between" by simp
  then have mem: "t \<in> set rules" "HasPrefix (fst e) (fst t)" "HasPrefix (fst t) q" "fst t \<noteq> q" by auto
  have sorted: "rules_ok (t # ts)" using rules_ok_filter [OF assms(1)] unfolding t [symmetric] .
  have "e' = t" if e': "e' \<in> set rules" "HasPrefix (fst t) (fst e')" "HasPrefix (fst e') q" "fst e' \<noteq> q" for e'
  proof -
    have "HasPrefix (fst e) (fst e')" using paths.prefix_trans [OF mem(2) e'(2)] .
    then have "e' \<in> set ?between" using e' by simp
    then have "e' = t \<or> fst t < fst e'" unfolding t using sorted by (auto simp: rules_ok_Cons)
    then show ?thesis using paths.less_not_prefix e'(2) by blast
  qed
  then show ?thesis using mem by blast
qed

text \<open>A rule right below a path without rules in between inherits what the path does.\<close>

lemma parent_of_nearest:
  assumes "rules_ok rules" "t \<in> set rules" "HasPrefix (fst t) q" "fst t \<noteq> q"
    and "\<And>e'. e' \<in> set rules \<Longrightarrow> HasPrefix (fst t) (fst e') \<Longrightarrow> HasPrefix (fst e') q \<Longrightarrow> fst e' \<noteq> q \<Longrightarrow> e' = t"
  shows "parent_rule rules (fst t) = inherited_rule rules q"
proof -
  have "HasPrefix (fst t) (fst e) \<and> fst e \<noteq> fst t \<longleftrightarrow> HasPrefix q (fst e)" if e: "e \<in> set rules" for e
  proof
    assume above: "HasPrefix (fst t) (fst e) \<and> fst e \<noteq> fst t"
    then have "HasPrefix q (fst e) \<or> HasPrefix (fst e) q" using paths.prefix_chain [OF assms(3)] by blast
    moreover have "HasPrefix q q" using assms(3) paths.prefix_valid paths.prefix_refl by blast
    ultimately show "HasPrefix q (fst e)" using assms(5) [OF e] above by (cases "fst e = q") auto
  next
    assume q: "HasPrefix q (fst e)"
    then have "HasPrefix (fst t) (fst e)" using paths.prefix_trans [OF assms(3)] by blast
    moreover have "fst e \<noteq> fst t" using q assms(3,4) paths.prefix_antisym by metis
    ultimately show "HasPrefix (fst t) (fst e) \<and> fst e \<noteq> fst t" by blast
  qed
  then have "filter (\<lambda>e. HasPrefix (fst t) (fst e) \<and> fst e \<noteq> fst t) rules = filter (\<lambda>e. HasPrefix q (fst e)) rules"
    by (rule filter_cong [OF refl])
  then show ?thesis by (simp add: parent_rule_def inherited_rule_def conj_commute)
qed

lemma minimized_effective:
  assumes "rules_ok rules" "minimizable rules" "set kept = {e \<in> set rules. snd e \<noteq> parent_rule rules (fst e)}"
    and "inherited_rule kept q = inherited_rule rules q"
  shows "effective_rule kept q = effective_rule rules q"
proof (cases "inherited_rule rules q = AllRule")
  case not_all: False
  have removed: "snd e \<noteq> OnlyRule \<and> (snd e = NoneRule \<longrightarrow> (\<forall>e' \<in> set rules. HasPrefix (fst e') (fst e) \<longrightarrow> snd e' = NoneRule))"
    if "e \<in> set rules" "e \<notin> set kept" for e
    using assms(2,3) that by (auto simp: minimizable_def list_all_iff)
  have "(q, OnlyRule) \<in> set kept \<longleftrightarrow> (q, OnlyRule) \<in> set rules"
    using removed [of "(q, OnlyRule)"] assms(3) by auto
  moreover have "loaded_below kept q \<longleftrightarrow> loaded_below rules q"
  proof
    assume "loaded_below kept q"
    then obtain e where e: "e \<in> set kept" "snd e \<noteq> NoneRule" "HasPrefix (fst e) q" "fst e \<noteq> q"
      and between: "\<And>e'. e' \<in> set kept \<Longrightarrow> HasPrefix (fst e) (fst e') \<Longrightarrow> HasPrefix (fst e') q \<Longrightarrow> fst e' \<noteq> q \<Longrightarrow> snd e' \<noteq> NoneRule"
      by (auto simp: loaded_below_def)
    have "snd e' \<noteq> NoneRule" if e': "e' \<in> set rules" "HasPrefix (fst e) (fst e')" "HasPrefix (fst e') q" "fst e' \<noteq> q" for e'
    proof (cases "e' \<in> set kept")
      case True
      then show ?thesis using between e'(2-4) by blast
    next
      case False
      have "e \<in> set rules" using e(1) assms(3) by simp
      then show ?thesis using removed [OF e'(1) False] e(2) e'(2) by blast
    qed
    then have "\<forall>e' \<in> set rules. HasPrefix (fst e) (fst e') \<and> HasPrefix (fst e') q \<and> fst e' \<noteq> q \<longrightarrow> snd e' \<noteq> NoneRule"
      by (intro ballI impI) (elim conjE)
    moreover have "e \<in> set rules" using e(1) assms(3) by simp
    ultimately show "loaded_below rules q"
      unfolding loaded_below_def by (intro bexI [of _ e] conjI e(2-4))
  next
    assume "loaded_below rules q"
    then obtain e where e: "e \<in> set rules" "snd e \<noteq> NoneRule" "HasPrefix (fst e) q" "fst e \<noteq> q"
      and between: "\<And>e'. e' \<in> set rules \<Longrightarrow> HasPrefix (fst e) (fst e') \<Longrightarrow> HasPrefix (fst e') q \<Longrightarrow> fst e' \<noteq> q \<Longrightarrow> snd e' \<noteq> NoneRule"
      by (auto simp: loaded_below_def)
    obtain t where t: "t \<in> set rules" "HasPrefix (fst e) (fst t)" "HasPrefix (fst t) q" "fst t \<noteq> q"
      and first: "\<And>e'. e' \<in> set rules \<Longrightarrow> HasPrefix (fst t) (fst e') \<Longrightarrow> HasPrefix (fst e') q \<Longrightarrow> fst e' \<noteq> q \<Longrightarrow> e' = t"
      using nearest_below [OF assms(1) e(1,3,4)] by blast
    have loads: "snd t \<noteq> NoneRule" by (rule between [OF t])
    have parent: "parent_rule rules (fst t) = inherited_rule rules q"
      by (rule parent_of_nearest [OF assms(1) t(1,3,4) first])
    have kept: "t \<in> set kept"
    proof (rule ccontr)
      assume "t \<notin> set kept"
      then have "snd t = parent_rule rules (fst t)" using assms(3) t(1) by simp
      moreover have "snd t \<noteq> OnlyRule" using removed [OF t(1) \<open>t \<notin> set kept\<close>] by (rule conjunct1)
      ultimately have "snd t = inherited_rule rules q" "snd t \<noteq> OnlyRule" using parent by simp_all
      then show False using loads not_all by (cases "snd t") auto
    qed
    have "snd e' \<noteq> NoneRule" if "e' \<in> set kept" "HasPrefix (fst t) (fst e') \<and> HasPrefix (fst e') q \<and> fst e' \<noteq> q" for e'
    proof -
      have "e' \<in> set rules" using that(1) assms(3) by simp
      then show ?thesis using first that(2) loads by blast
    qed
    then have "\<forall>e' \<in> set kept. HasPrefix (fst t) (fst e') \<and> HasPrefix (fst e') q \<and> fst e' \<noteq> q \<longrightarrow> snd e' \<noteq> NoneRule"
      by (intro ballI impI)
    then show "loaded_below kept q"
      unfolding loaded_below_def by (intro bexI [of _ t] conjI loads t(3,4) kept)
  qed
  ultimately show ?thesis using assms(4) by (simp add: effective_rule_def)
qed (simp add: effective_rule_def assms(4))

text \<open>The rule of the absolute root that loads everything can be left out.\<close>

lemma inherited_root: "inherited_rule ((r, AllRule) # rules) q = inherited_rule rules q"
  by (simp add: inherited_rule_def)

lemma HasPrefix_of_root: "HasPrefix AbsoluteRootPath q \<Longrightarrow> q = AbsoluteRootPath"
  by (cases q) (auto simp: HasPrefix_iff AbsoluteRootPath_def split: if_splits)

lemma root_rule_removed:
  assumes "rules_ok ((AbsoluteRootPath, AllRule) # rules)"
  shows "rules_ok rules" "effective_rule ((AbsoluteRootPath, AllRule) # rules) q = effective_rule rules q"
    and "minimizable ((AbsoluteRootPath, AllRule) # rules) \<Longrightarrow> minimizable rules"
proof -
  show ok: "rules_ok rules" using assms by (simp add: rules_ok_Cons)
  have "loaded_below ((AbsoluteRootPath, AllRule) # rules) q \<longleftrightarrow> loaded_below rules q"
    using HasPrefix_of_root [of q] unfolding loaded_below_def by auto
  then show "effective_rule ((AbsoluteRootPath, AllRule) # rules) q = effective_rule rules q"
    by (simp add: effective_rule_def inherited_root)
  have "fst e \<noteq> AbsoluteRootPath" if "e \<in> set rules" for e using assms that by (auto simp: rules_ok_Cons)
  then have parent: "parent_rule ((AbsoluteRootPath, AllRule) # rules) (fst e) = parent_rule rules (fst e)" if "e \<in> set rules" for e
    using that by (auto simp: parent_rule_def inherited_root)
  show "minimizable rules" if "minimizable ((AbsoluteRootPath, AllRule) # rules)"
    using that parent unfolding minimizable_def list_all_iff by auto
qed

lemma Minimize_effective_rule:
  assumes "rules_ok rules" "minimizable rules"
  shows "rules_ok (Minimize rules) \<and> effective_rule (Minimize rules) q = effective_rule rules q"
proof (cases rules)
  case Nil
  then show ?thesis using assms(1) by (simp add: Minimize_def)
next
  case (Cons e es)
  let ?rest = "if snd e = AllRule \<and> fst e = AbsoluteRootPath then es else rules"
  have e: "e = (AbsoluteRootPath, AllRule)" if "snd e = AllRule \<and> fst e = AbsoluteRootPath" using that by (cases e) simp
  have rest: "rules_ok ?rest" "minimizable ?rest" "effective_rule ?rest q = effective_rule rules q"
    using assms root_rule_removed(1,3) [of es] root_rule_removed(2) [of es q] e Cons by (auto split: if_splits)
  have M: "Minimize rules = (if length ?rest \<le> 1 then ?rest else minimize_loop ?rest 0 [])"
    using Cons by (simp add: Minimize_def Let_def)
  have "minimize_loop ?rest 0 [] = foldl keep_rule [] ?rest"
    using minimize_loop_foldl [OF rest(1), of 0 "[]"] by (simp add: stack_ok_def)
  moreover have "effective_rule (foldl keep_rule [] ?rest) q = effective_rule ?rest q"
    using foldl_keep_rule [OF rest(1)] by (intro minimized_effective [OF rest(1,2)]) blast+
  ultimately show ?thesis using M rest(1,3) foldl_keep_rule [OF rest(1)] by auto
qed

text \<open>C34: Minimizing keeps the effective rules of all paths, where no \<open>OnlyRule\<close> is right below an \<open>OnlyRule\<close> and
  nothing is loaded below a \<open>NoneRule\<close> right below a \<open>NoneRule\<close>.\<close>

theorem Minimize_effective:
  assumes "rules_ok rules" "minimizable rules" "path_root q \<noteq> NullRoot"
  shows "rules_ok (Minimize rules) \<and> GetEffectiveRuleForPath (Minimize rules) q = GetEffectiveRuleForPath rules q"
  using Minimize_effective_rule [OF assms(1,2), of q] effective_by_search [OF _ assms(3)] assms(1) by simp

text \<open>In the two other cases minimizing changes what is loaded: the rule of a path below an \<open>OnlyRule\<close> is lost, and
  a path above nested unloaded rules becomes loaded.\<close>

theorem Minimize_changes:
  "(let rules = [(example_rule_path [''A''], OnlyRule), (example_rule_path [''A'', ''B''], OnlyRule)]
    in IsLoaded rules (example_rule_path [''A'', ''B'']) \<and> \<not> IsLoaded (Minimize rules) (example_rule_path [''A'', ''B'']))
   \<and> (let rules = [(example_rule_path [''A''], NoneRule), (example_rule_path [''A'', ''B''], NoneRule),
         (example_rule_path [''A'', ''B'', ''C''], AllRule)]
      in \<not> IsLoaded rules (example_rule_path [''A'']) \<and> IsLoaded (Minimize rules) (example_rule_path [''A'']))"
  unfolding Let_def by (intro conjI; code_simp)

section \<open>Loaded with all or with no descendants\<close>

lemma prefixed_range_list:
  assumes "rules_ok rules" "path_root path \<noteq> NullRoot" "FindPrefixedRange (map fst rules) path = (first, second)"
  shows "list_all P (take (second - first) (drop first rules)) \<longleftrightarrow> (\<forall>e \<in> set rules. HasPrefix (fst e) path \<longrightarrow> P e)"
proof -
  have sorted: "sorted_wrt (<) (map fst rules)" using assms(1) by (simp add: rules_ok_def)
  let ?B = "take (second - first) (drop first rules)"
  have "take (second - first) (drop first (map fst rules)) = filter (\<lambda>p. HasPrefix p path) (map fst rules)"
    using FindPrefixedRange_filtered [OF sorted rules_ok_nonempty [OF assms(1)] rooted_not_empty [OF assms(2)] assms(3)] by simp
  then have "map fst ?B = map fst (filter (\<lambda>e. HasPrefix (fst e) path) rules)"
    by (simp add: filter_map take_map drop_map comp_def)
  moreover have "set ?B \<subseteq> set rules" "set (filter (\<lambda>e. HasPrefix (fst e) path) rules) \<subseteq> set rules"
    by (auto dest: in_set_takeD in_set_dropD)
  ultimately have "set ?B = set (filter (\<lambda>e. HasPrefix (fst e) path) rules)" by (rule same_paths_members [OF assms(1)])
  then show ?thesis by (auto simp: list_all_iff)
qed

text \<open>A path is loaded with all descendants exactly if everything at and below it is to be loaded with all
  descendants.\<close>

theorem IsLoadedWithAllDescendants_iff:
  assumes "rules_ok rules" "path_root path \<noteq> NullRoot"
  shows "IsLoadedWithAllDescendants rules path \<longleftrightarrow>
    (\<forall>q. path_root q \<noteq> NullRoot \<longrightarrow> HasPrefix q path \<longrightarrow> GetEffectiveRuleForPath rules q = AllRule)"
proof -
  obtain first second where fs: "FindPrefixedRange (map fst rules) path = (first, second)" by fastforce
  have nearest: "(case FindLongestPrefix (map fst rules) path of None \<Rightarrow> False | Some i \<Rightarrow> snd (rules ! i) \<noteq> AllRule) \<longleftrightarrow>
      inherited_rule rules path \<noteq> AllRule"
    using longest_prefix_inherited [OF assms] by (auto simp: inherited_rule_def split: option.splits)
  have code: "IsLoadedWithAllDescendants rules path \<longleftrightarrow>
      inherited_rule rules path = AllRule \<and> (\<forall>e \<in> set rules. HasPrefix (fst e) path \<longrightarrow> snd e = AllRule)"
    using nearest prefixed_range_list [OF assms fs, of "\<lambda>e. snd e = AllRule"] fs
    by (auto simp: IsLoadedWithAllDescendants_def Let_def inherited_rule_def)
  show ?thesis
    unfolding code
  proof (intro iffI allI impI conjI)
    fix q assume all: "inherited_rule rules path = AllRule \<and> (\<forall>e \<in> set rules. HasPrefix (fst e) path \<longrightarrow> snd e = AllRule)"
      and q: "path_root q \<noteq> NullRoot" "HasPrefix q path"
    have "inherited_rule rules q = AllRule"
      using assms(1)
    proof (cases rule: inherited_cases [of rules q])
      case (nearest e)
      show ?thesis
      proof (cases "HasPrefix (fst e) path")
        case True
        then show ?thesis using nearest(1,3) all by simp
      next
        case False
        then have above: "HasPrefix path (fst e)" using paths.prefix_chain [OF q(2) nearest(2)] by blast
        have "inherited_rule rules path = snd e"
          using nearest(4) paths.prefix_trans [OF q(2)] by (intro inherited_nearest [OF assms(1) nearest(1) above]) blast
        then show ?thesis using nearest(3) all by simp
      qed
    qed
    then show "GetEffectiveRuleForPath rules q = AllRule"
      unfolding effective_by_search [OF assms(1) q(1)] by (simp add: effective_rule_def)
  next
    assume all: "\<forall>q. path_root q \<noteq> NullRoot \<longrightarrow> HasPrefix q path \<longrightarrow> GetEffectiveRuleForPath rules q = AllRule"
    have eff: "inherited_rule rules q = AllRule" if "path_root q \<noteq> NullRoot" "HasPrefix q path" for q
      using all that effective_by_search [OF assms(1) that(1)] by (auto simp: effective_rule_def split: if_splits)
    show "inherited_rule rules path = AllRule"
      using eff [OF assms(2) paths.prefix_refl [OF rooted_not_empty [OF assms(2)]]] .
    show "\<forall>e \<in> set rules. HasPrefix (fst e) path \<longrightarrow> snd e = AllRule"
    proof (intro ballI impI)
      fix e assume e: "e \<in> set rules" "HasPrefix (fst e) path"
      have root: "path_root (fst e) \<noteq> NullRoot" using assms(1) e(1) by (auto simp: rules_ok_def list_all_iff)
      have "inherited_rule rules (fst e) = snd e"
        by (rule inherited_nearest [OF assms(1) e(1) paths.prefix_refl [OF rooted_not_empty [OF root]]])
      then show "snd e = AllRule" using eff [OF root e(2)] by simp
    qed
  qed
qed

lemma next_rule_outside_iff:
  assumes "rules_ok es" "\<And>e. e \<in> set es \<Longrightarrow> path < fst e"
  shows "next_rule_outside path es \<longleftrightarrow> (\<forall>e \<in> set es. HasPrefix (fst e) path \<longrightarrow> snd e = NoneRule)"
  using assms
proof (induction es)
  case (Cons e es)
  have later: "\<not> HasPrefix (fst x) path" if "\<not> HasPrefix (fst e) path" "x \<in> set es" for x
    using that Cons.prems paths.prefix_convex [of "fst x" path "fst e"] by (auto simp: rules_ok_Cons)
  show ?case
  proof (cases "snd e = NoneRule")
    case True
    then show ?thesis using Cons by (auto simp: rules_ok_Cons)
  next
    case False
    then show ?thesis using later by auto
  qed
qed simp

lemma rule_LowerBound_takeWhile:
  assumes "rules_ok rules"
  shows "rule_LowerBound rules path = length (takeWhile (\<lambda>e. fst e < path) rules)"
proof -
  have "sorted_wrt (\<lambda>a b. fst b < path \<longrightarrow> fst a < path) rules"
    using assms unfolding rules_ok_def sorted_wrt_map by (auto elim!: sorted_wrt_mono_rel [rotated])
  then show ?thesis unfolding rule_LowerBound_def std_lower_bound_def by (rule partition_point_takeWhile)
qed

text \<open>The search finds the rule of a path.\<close>

lemma rule_found:
  fixes rules :: load_rules and path :: sdf_path
  assumes "rules_ok rules"
  defines "i \<equiv> rule_LowerBound rules path"
  shows "i \<le> length rules" "(path, r) \<in> set rules \<longleftrightarrow> i < length rules \<and> rules ! i = (path, r)"
    and "i < length rules \<Longrightarrow> path \<le> fst (rules ! i)" "\<And>e. e \<in> set (take i rules) \<Longrightarrow> fst e < path"
proof -
  have i: "i = length (takeWhile (\<lambda>e. fst e < path) rules)" unfolding i_def by (rule rule_LowerBound_takeWhile [OF assms(1)])
  show "i \<le> length rules" unfolding i by (rule length_takeWhile_le)
  have take: "take i rules = takeWhile (\<lambda>e. fst e < path) rules" unfolding i by (rule takeWhile_eq_take [symmetric])
  show before: "\<And>e. e \<in> set (take i rules) \<Longrightarrow> fst e < path" unfolding take by (auto dest: set_takeWhileD)
  show at: "i < length rules \<Longrightarrow> path \<le> fst (rules ! i)"
    using nth_length_takeWhile [of "\<lambda>e. fst e < path" rules] unfolding i by (simp add: not_less)
  show "(path, r) \<in> set rules \<longleftrightarrow> i < length rules \<and> rules ! i = (path, r)"
  proof
    assume "(path, r) \<in> set rules"
    then obtain j where j: "j < length rules" "rules ! j = (path, r)" by (auto simp: in_set_conv_nth)
    have "\<not> j < i"
    proof
      assume "j < i"
      then have "rules ! j \<in> set (take i rules)" using j(1) by (auto simp: in_set_conv_nth)
      then show False using before [of "rules ! j"] j(2) by simp
    qed
    moreover have "\<not> i < j"
      using rules_ok_nth_less [OF assms(1), of i j] at j by (auto simp: not_less [symmetric])
    ultimately have "i = j" by simp
    then show "i < length rules \<and> rules ! i = (path, r)" using j by simp
  next
    assume "i < length rules \<and> rules ! i = (path, r)"
    then show "(path, r) \<in> set rules" by (metis nth_mem)
  qed
qed

lemma IsLoadedWithNoDescendants_rules:
  assumes "rules_ok rules" "path_root path \<noteq> NullRoot"
  shows "IsLoadedWithNoDescendants rules path \<longleftrightarrow>
    (path, OnlyRule) \<in> set rules \<and> (\<forall>e \<in> set rules. HasPrefix (fst e) path \<and> fst e \<noteq> path \<longrightarrow> snd e = NoneRule)"
proof -
  let ?i = "rule_LowerBound rules path"
  note found = rule_found [OF assms(1), where path = path]
  have code: "IsLoadedWithNoDescendants rules path \<longleftrightarrow>
      (?i < length rules \<and> rules ! ?i = (path, OnlyRule)) \<and> next_rule_outside path (drop (?i + 1) rules)"
    using found(1) by (auto simp: IsLoadedWithNoDescendants_def Let_def prod_eq_iff)
  show ?thesis
  proof (cases "?i < length rules \<and> rules ! ?i = (path, OnlyRule)")
    case True
    then have split: "rules = take ?i rules @ (path, OnlyRule) # drop (?i + 1) rules"
      using id_take_nth_drop [of ?i rules] by simp
    have rest: "rules_ok (drop (?i + 1) rules)" "\<And>e. e \<in> set (drop (?i + 1) rules) \<Longrightarrow> path < fst e"
      using assms(1) split by (metis fst_conv rules_ok_Cons rules_ok_append)+
    have "\<not> HasPrefix (fst e) path" if "e \<in> set (take ?i rules)" for e
      using found(4) [OF that] paths.less_not_prefix by blast
    moreover have "set rules = set (take ?i rules) \<union> {(path, OnlyRule)} \<union> set (drop (?i + 1) rules)"
      using split by (metis Un_insert_right list.set(2) set_append sup_bot_right Un_insert_left)
    moreover have "fst e \<noteq> path" if "e \<in> set (drop (?i + 1) rules)" for e using rest(2) [OF that] by auto
    ultimately have "(\<forall>e \<in> set rules. HasPrefix (fst e) path \<and> fst e \<noteq> path \<longrightarrow> snd e = NoneRule) \<longleftrightarrow>
        (\<forall>e \<in> set (drop (?i + 1) rules). HasPrefix (fst e) path \<longrightarrow> snd e = NoneRule)"
      unfolding ball_Un by (metis Un_iff fst_conv singletonD)
    then show ?thesis using code True next_rule_outside_iff [OF rest] found(2) by blast
  next
    case False
    then show ?thesis using code found(2) by blast
  qed
qed

text \<open>A child of a prim path that no rule is at or below.\<close>

lemma fresh_child:
  fixes path :: sdf_path
  assumes "prop_part path = []" "path_root path \<noteq> NullRoot"
  shows "\<exists>q. path_root q \<noteq> NullRoot \<and> HasPrefix q path \<and> q \<noteq> path \<and> (\<forall>e \<in> set (rules :: load_rules). \<not> HasPrefix (fst e) q)
    \<and> (\<forall>p. HasPrefix q p \<longrightarrow> p = q \<or> HasPrefix path p)"
proof -
  let ?nodes = "\<Union>e \<in> set rules. set (prim_part (fst e))"
  have "finite ?nodes" by simp
  moreover have "inj PrimNode" by (simp add: inj_def)
  ultimately have "finite (PrimNode -` ?nodes)" by (rule finite_vimageI)
  then obtain n where n: "n \<notin> PrimNode -` ?nodes" using ex_new_if_finite [OF infinite_UNIV_listI] by blast
  let ?q = "SdfPath (path_root path) (prim_part path @ [PrimNode n]) []"
  have ne: "\<not> IsEmpty ?q" "\<not> IsEmpty path" using assms(2) rooted_not_empty by simp_all
  have "HasPrefix ?q path" using assms(1) ne by (simp add: HasPrefix_iff)
  moreover have "?q \<noteq> path" by (metis append_self_conv list.distinct(1) sdf_path.sel(2))
  moreover have "\<not> HasPrefix (fst e) ?q" if e: "e \<in> set rules" for e
  proof
    assume "HasPrefix (fst e) ?q"
    then have "prefix (prim_part path @ [PrimNode n]) (prim_part (fst e))" by (simp add: HasPrefix_iff split: if_splits)
    then have "PrimNode n \<in> set (prim_part (fst e))" by (auto simp: prefix_def)
    then show False using n e by auto
  qed
  moreover have "p = ?q \<or> HasPrefix path p" if "HasPrefix ?q p" for p
    using that assms ne by (cases p) (auto simp: HasPrefix_iff prefix_snoc split: if_splits)
  moreover have "path_root ?q \<noteq> NullRoot" using assms(2) by simp
  ultimately show ?thesis by blast
qed

text \<open>A prim path is loaded with no descendants exactly if it is loaded and nothing below it is.\<close>

theorem IsLoadedWithNoDescendants_iff:
  assumes "rules_ok rules" "path_root path \<noteq> NullRoot" "prop_part path = []"
  shows "IsLoadedWithNoDescendants rules path \<longleftrightarrow>
    IsLoaded rules path \<and> (\<forall>q. path_root q \<noteq> NullRoot \<longrightarrow> HasPrefix q path \<longrightarrow> q \<noteq> path \<longrightarrow> \<not> IsLoaded rules q)"
  unfolding IsLoadedWithNoDescendants_rules [OF assms(1,2)]
proof (intro iffI conjI allI impI)
  assume rules: "(path, OnlyRule) \<in> set rules \<and> (\<forall>e \<in> set rules. HasPrefix (fst e) path \<and> fst e \<noteq> path \<longrightarrow> snd e = NoneRule)"
  then show "IsLoaded rules path"
    unfolding IsLoaded_def effective_by_search [OF assms(1,2)] by (simp add: effective_rule_def)
  fix q assume q: "path_root q \<noteq> NullRoot" "HasPrefix q path" "q \<noteq> path"
  have "inherited_rule rules q \<noteq> AllRule"
    using assms(1)
  proof (cases rule: inherited_cases [of rules q])
    case none
    then show ?thesis using none(1) [of "(path, OnlyRule)"] rules q(2) by simp
  next
    case (nearest e)
    have below: "HasPrefix (fst e) path" using nearest(4) [of "(path, OnlyRule)"] rules q(2) by simp
    show ?thesis
    proof (cases "fst e = path")
      case True
      then have "e = (path, OnlyRule)" using rules_ok_unique [OF assms(1) nearest(1), of "(path, OnlyRule)"] rules by simp
      then show ?thesis using nearest(3) by simp
    next
      case False
      then show ?thesis using nearest(1,3) rules below by simp
    qed
  qed
  moreover have "(q, OnlyRule) \<notin> set rules" using rules q(2,3) by force
  moreover have "\<not> loaded_below rules q"
  proof
    assume "loaded_below rules q"
    then obtain e where e: "e \<in> set rules" "snd e \<noteq> NoneRule" "HasPrefix (fst e) q" "fst e \<noteq> q" by (auto simp: loaded_below_def)
    have "HasPrefix (fst e) path" by (rule paths.prefix_trans [OF e(3) q(2)])
    moreover have "fst e \<noteq> path" using e(3) q(2,3) paths.prefix_antisym by blast
    ultimately show False using rules e(1,2) by blast
  qed
  ultimately show "\<not> IsLoaded rules q"
    unfolding IsLoaded_def effective_by_search [OF assms(1) q(1)] by (simp add: effective_rule_def)
next
  assume loaded: "IsLoaded rules path \<and> (\<forall>q. path_root q \<noteq> NullRoot \<longrightarrow> HasPrefix q path \<longrightarrow> q \<noteq> path \<longrightarrow> \<not> IsLoaded rules q)"
  have unloaded: "effective_rule rules q = NoneRule" if "path_root q \<noteq> NullRoot" "HasPrefix q path" "q \<noteq> path" for q
    using loaded that effective_by_search [OF assms(1) that(1)] by (simp add: IsLoaded_def)
  show below: "\<forall>e \<in> set rules. HasPrefix (fst e) path \<and> fst e \<noteq> path \<longrightarrow> snd e = NoneRule"
  proof (intro ballI impI)
    fix e assume e: "e \<in> set rules" "HasPrefix (fst e) path \<and> fst e \<noteq> path"
    have root: "path_root (fst e) \<noteq> NullRoot" using assms(1) e(1) by (auto simp: rules_ok_def list_all_iff)
    have none: "effective_rule rules (fst e) = NoneRule" using unloaded [OF root] e(2) by blast
    have "inherited_rule rules (fst e) = snd e"
      by (rule inherited_nearest [OF assms(1) e(1) paths.prefix_refl [OF rooted_not_empty [OF root]]])
    then show "snd e = NoneRule"
      using none e(1) by (cases e; cases "snd e") (auto simp: effective_rule_def split: if_splits)
  qed
  have "inherited_rule rules path \<noteq> AllRule"
  proof
    assume all: "inherited_rule rules path = AllRule"
    obtain q where q: "path_root q \<noteq> NullRoot" "HasPrefix q path" "q \<noteq> path" "\<forall>e \<in> set rules. \<not> HasPrefix (fst e) q"
      "\<forall>p. HasPrefix q p \<longrightarrow> p = q \<or> HasPrefix path p" using fresh_child [OF assms(3,2)] by blast
    have self: "HasPrefix q q" by (rule paths.prefix_refl [OF rooted_not_empty [OF q(1)]])
    have "HasPrefix q (fst e) \<longleftrightarrow> HasPrefix path (fst e)" if "e \<in> set rules" for e
      using q(4,5) that self paths.prefix_trans [OF q(2)] by metis
    then have "filter (\<lambda>e. HasPrefix q (fst e)) rules = filter (\<lambda>e. HasPrefix path (fst e)) rules" by (rule filter_cong [OF refl])
    then have "inherited_rule rules q = AllRule" using all by (simp add: inherited_rule_def)
    then show False using unloaded [OF q(1-3)] by (simp add: effective_rule_def)
  qed
  moreover have "\<not> loaded_below rules path" using below by (auto simp: loaded_below_def)
  moreover have "effective_rule rules path \<noteq> NoneRule"
    using loaded effective_by_search [OF assms(1,2)] by (simp add: IsLoaded_def)
  ultimately show "(path, OnlyRule) \<in> set rules" by (auto simp: effective_rule_def split: if_splits)
qed

section \<open>All operations keep the rules sorted\<close>

lemma AddRule_ok:
  assumes "rules_ok rules" "path_root path \<noteq> NullRoot"
  shows "rules_ok (AddRule rules path r) \<and> set (AddRule rules path r) = insert (path, r) {e \<in> set rules. fst e \<noteq> path}"
proof -
  let ?i = "rule_LowerBound rules path"
  note found = rule_found [OF assms(1), where path = path]
  have before: "fst e < path" if "e \<in> set (take ?i rules)" for e by (rule found(4) [OF that])
  show ?thesis
  proof (cases "?i < length rules \<and> fst (rules ! ?i) = path")
    case True
    have split: "rules = take ?i rules @ rules ! ?i # drop (?i + 1) rules" using id_take_nth_drop [of ?i rules] True by simp
    have rest: "rules_ok (take ?i rules)" "rules_ok (drop (?i + 1) rules)" "\<And>e. e \<in> set (drop (?i + 1) rules) \<Longrightarrow> path < fst e"
      using assms(1) split True by (metis rules_ok_Cons rules_ok_append)+
    have "AddRule rules path r = take ?i rules @ (path, r) # drop (?i + 1) rules"
      using True by (simp add: AddRule_def Let_def upd_conv_take_nth_drop)
    moreover have "rules_ok (take ?i rules @ (path, r) # drop (?i + 1) rules)"
      using rest before assms(2) by (fastforce simp: rules_ok_append rules_ok_Cons)
    moreover have "{e \<in> set rules. fst e \<noteq> path} = set (take ?i rules) \<union> set (drop (?i + 1) rules)"
      using arg_cong [OF split, of set] True less_imp_neq [OF before] less_imp_neq [OF rest(3)] by (auto simp del: append_take_drop_id; blast)
    ultimately show ?thesis by auto
  next
    case False
    have split: "rules = take ?i rules @ drop ?i rules" by simp
    have above: "path < fst e" if e: "e \<in> set (drop ?i rules)" for e
    proof -
      have i: "?i < length rules" using e by (cases "?i < length rules") auto
      then have "path < fst (rules ! ?i)" using False found(3) by (auto simp: le_less)
      moreover have "rules_ok (rules ! ?i # drop (?i + 1) rules)"
        using rules_ok_take_drop [OF assms(1), of ?i] Cons_nth_drop_Suc [OF i] by simp
      moreover have "drop ?i rules = rules ! ?i # drop (?i + 1) rules" using Cons_nth_drop_Suc [OF i] by simp
      ultimately show ?thesis using e by (auto simp: rules_ok_Cons)
    qed
    have "AddRule rules path r = take ?i rules @ (path, r) # drop ?i rules"
      using False by (auto simp: AddRule_def Let_def)
    moreover have "rules_ok (take ?i rules @ (path, r) # drop ?i rules)"
      using rules_ok_take_drop [OF assms(1), of ?i] before above assms(2) by (fastforce simp: rules_ok_append rules_ok_Cons)
    moreover have "{e \<in> set rules. fst e \<noteq> path} = set (take ?i rules) \<union> set (drop ?i rules)"
      using arg_cong [OF split, of set] less_imp_neq [OF before] less_imp_neq [OF above]
      by (simp only: set_append) blast
    ultimately show ?thesis by auto
  qed
qed

lemma load_operation_ok:
  assumes "rules_ok rules" "path_root path \<noteq> NullRoot"
  shows "rules_ok (LoadWithDescendants rules path)" "rules_ok (LoadWithoutDescendants rules path)" "rules_ok (Unload rules path)"
  using erase_range_replaces [OF assms(1), of "(path, AllRule)"] erase_range_replaces [OF assms(1), of "(path, OnlyRule)"]
    erase_range_replaces [OF assms(1), of "(path, NoneRule)"] assms(2)
  by (simp_all add: LoadWithDescendants_def LoadWithoutDescendants_def Unload_def Let_def replaces_def)

lemma LoadAndUnload_ok:
  assumes "rules_ok rules" "\<forall>p \<in> set loadSet \<union> set unloadSet. path_root p \<noteq> NullRoot"
  shows "rules_ok (LoadAndUnload rules loadSet unloadSet policy)"
proof -
  have foldl_ok: "(\<And>rs p. rules_ok rs \<Longrightarrow> path_root p \<noteq> NullRoot \<Longrightarrow> rules_ok (f rs p)) \<Longrightarrow>
      rules_ok rs \<Longrightarrow> \<forall>p \<in> set ps. path_root p \<noteq> NullRoot \<Longrightarrow> rules_ok (foldl f rs ps)" for f rs and ps :: "sdf_path list"
    by (induction ps arbitrary: rs) auto
  have unloaded: "rules_ok (foldl Unload rules unloadSet)"
    by (rule foldl_ok [OF load_operation_ok(3) assms(1)]) (use assms(2) in simp_all)
  have "rules_ok (case policy of UsdLoadWithDescendants \<Rightarrow> LoadWithDescendants rs p
      | UsdLoadWithoutDescendants \<Rightarrow> LoadWithoutDescendants rs p)" if "rules_ok rs" "path_root p \<noteq> NullRoot" for rs p
    using load_operation_ok(1,2) [OF that] by (cases policy) simp_all
  then show ?thesis
    unfolding LoadAndUnload_def by (rule foldl_ok [OF _ unloaded]) (use assms(2) in simp_all)
qed

section \<open>Examples\<close>

definition example_rules :: load_rules where
  "example_rules = [(example_rule_path [''A''], NoneRule), (example_rule_path [''A'', ''B''], OnlyRule),
     (example_rule_path [''A'', ''B'', ''C''], NoneRule), (example_rule_path [''A'', ''B'', ''C'', ''D''], NoneRule),
     (example_rule_path [''B''], AllRule)]"

lemma example_rules_ok: "rules_ok example_rules" "minimizable example_rules"
  by code_simp+

lemma example_rule_path_root: "path_root (example_rule_path names) \<noteq> NullRoot" "prop_part (example_rule_path names) = []"
  by (simp_all add: example_rule_path_def)

theorem GetEffectiveRuleForPath_effective_witness:
  "GetEffectiveRuleForPath example_rules (example_rule_path [''A'']) = OnlyRule"
proof -
  have "effective_rule example_rules (example_rule_path [''A'']) = OnlyRule" by code_simp
  then show ?thesis
    using GetEffectiveRuleForPath_effective [OF example_rules_ok(1) example_rule_path_root(1)] by simp
qed

theorem load_operations_effective_witness:
  "IsLoaded (LoadWithDescendants example_rules (example_rule_path [''A'', ''B'', ''C''])) (example_rule_path [''A''])
   \<and> GetEffectiveRuleForPath (Unload example_rules (example_rule_path [''B''])) (example_rule_path [''B'', ''C'']) = NoneRule"
proof -
  have prems: "HasPrefix (example_rule_path [''A'', ''B'', ''C'']) (example_rule_path [''A''])"
    "example_rule_path [''A''] \<noteq> example_rule_path [''A'', ''B'', ''C'']"
    "HasPrefix (example_rule_path [''B'', ''C'']) (example_rule_path [''B''])"
    by code_simp+
  have "list_all (\<lambda>e. snd e = NoneRule \<and> HasPrefix (example_rule_path [''A'', ''B'', ''C'']) (fst e)
      \<and> HasPrefix (fst e) (example_rule_path [''A'']) \<longrightarrow>
      fst e = example_rule_path [''A''] \<or> fst e = example_rule_path [''A'', ''B'', ''C'']) example_rules"
    by code_simp
  then have "\<forall>p. (p, NoneRule) \<in> set example_rules \<and> HasPrefix (example_rule_path [''A'', ''B'', ''C'']) p
      \<and> HasPrefix p (example_rule_path [''A'']) \<longrightarrow> p = example_rule_path [''A''] \<or> p = example_rule_path [''A'', ''B'', ''C'']"
    by (fastforce simp: list_all_iff)
  then show ?thesis
    using load_operations_effective [of LoadWithDescendants AllRule, OF _ example_rules_ok(1) example_rule_path_root(1) example_rule_path_root(1),
        of "[''A'', ''B'', ''C'']" "[''A'']"]
      load_operations_effective [of Unload NoneRule, OF _ example_rules_ok(1) example_rule_path_root(1) example_rule_path_root(1),
        of "[''B'']" "[''B'', ''C'']"] prems by simp
qed

theorem Minimize_effective_witness:
  "length (Minimize example_rules) = 3
   \<and> GetEffectiveRuleForPath (Minimize example_rules) (example_rule_path [''A'']) = OnlyRule"
proof -
  have "GetEffectiveRuleForPath example_rules (example_rule_path [''A'']) = OnlyRule" by code_simp
  moreover have "length (Minimize example_rules) = 3" by code_simp
  ultimately show ?thesis
    using Minimize_effective [OF example_rules_ok example_rule_path_root(1), of "[''A'']"] by simp
qed

theorem IsLoadedWithAllDescendants_iff_witness:
  "GetEffectiveRuleForPath example_rules (example_rule_path [''B'', ''A'']) = AllRule"
proof -
  have "IsLoadedWithAllDescendants example_rules (example_rule_path [''B''])"
    "HasPrefix (example_rule_path [''B'', ''A'']) (example_rule_path [''B''])" by code_simp+
  then show ?thesis
    using IsLoadedWithAllDescendants_iff [OF example_rules_ok(1) example_rule_path_root(1), of "[''B'']"] example_rule_path_root(1)
    by blast
qed

theorem IsLoadedWithNoDescendants_iff_witness:
  "\<not> IsLoaded example_rules (example_rule_path [''A'', ''B'', ''D''])"
proof -
  have "IsLoadedWithNoDescendants example_rules (example_rule_path [''A'', ''B''])"
    "HasPrefix (example_rule_path [''A'', ''B'', ''D'']) (example_rule_path [''A'', ''B''])"
    "example_rule_path [''A'', ''B'', ''D''] \<noteq> example_rule_path [''A'', ''B'']" by code_simp+
  then show ?thesis
    using IsLoadedWithNoDescendants_iff [OF example_rules_ok(1) example_rule_path_root, of "[''A'', ''B'']"] example_rule_path_root(1)
    by blast
qed

end
