(* ===== verification/Sdf_ListOp.thy ===== *)
theory Sdf_ListOp
  imports USD_Prelude "HOL-Library.Word"
begin

text \<open>
  List operations, \<open>SdfListOp\<close> (\<open>pxr/usd/sdf/listOp.h\<close>, \<open>listOp.cpp\<close>).
  The code applies an operation on a \<open>std::list\<close> of items, together with a \<open>std::map\<close> from
  items to list iterators. Here a list node has an identity, the number it got when it was
  inserted: the list is a list of pairs of an identity and an item, an iterator is an
  identity, and the map is a partial function from items to identities. If the list holds an
  item twice, the map knows the last one, as in the code. The map and the sets are ordered by
  the item comparator of the item type; two items it does not separate are taken to be equal.
  A callback is an optional function; \<open>mapped_items\<close> are the items it lets through.
  The lemmas show what applying an operation to a list without duplicates computes
  (\<open>applied\<close>), that composing two operations into one is sequential application, that
  reordering permutes the list and puts the ordered items into the requested order, and that
  every mutator keeps the invariant \<open>list_op_ok\<close>.
\<close>

section \<open>State\<close>

datatype SdfListOpType = SdfListOpTypeExplicit | SdfListOpTypeAdded | SdfListOpTypeDeleted
  | SdfListOpTypeOrdered | SdfListOpTypePrepended | SdfListOpTypeAppended

record 'a SdfListOp =
  isExplicit :: bool
  explicitItems :: "'a list"
  addedItems :: "'a list"
  prependedItems :: "'a list"
  appendedItems :: "'a list"
  deletedItems :: "'a list"
  orderedItems :: "'a list"

definition empty_list_op :: "'a SdfListOp" where
  "empty_list_op = \<lparr>isExplicit = False, explicitItems = [], addedItems = [], prependedItems = [],
     appendedItems = [], deletedItems = [], orderedItems = []\<rparr>"

definition HasKeys :: "'a SdfListOp \<Rightarrow> bool" where
  "HasKeys op =
     (if isExplicit op then True
      else if length (addedItems op) \<noteq> 0 \<or> length (prependedItems op) \<noteq> 0 \<or>
          length (appendedItems op) \<noteq> 0 \<or> length (deletedItems op) \<noteq> 0 then True
      else length (orderedItems op) \<noteq> 0)"

definition HasItem :: "'a SdfListOp \<Rightarrow> 'a \<Rightarrow> bool" where
  "HasItem op item =
     (if isExplicit op then List.member (explicitItems op) item
      else List.member (addedItems op) item \<or> List.member (prependedItems op) item \<or>
        List.member (appendedItems op) item \<or> List.member (deletedItems op) item \<or>
        List.member (orderedItems op) item)"

fun GetItems :: "'a SdfListOp \<Rightarrow> SdfListOpType \<Rightarrow> 'a list" where
  "GetItems op SdfListOpTypeExplicit = explicitItems op"
| "GetItems op SdfListOpTypeAdded = addedItems op"
| "GetItems op SdfListOpTypePrepended = prependedItems op"
| "GetItems op SdfListOpTypeAppended = appendedItems op"
| "GetItems op SdfListOpTypeDeleted = deletedItems op"
| "GetItems op SdfListOpTypeOrdered = orderedItems op"

section \<open>Setters\<close>

fun adjacent_find :: "('a \<Rightarrow> 'a \<Rightarrow> bool) \<Rightarrow> 'a list \<Rightarrow> 'a option" where
  "adjacent_find p (x # y # zs) = (if p x y then Some x else adjacent_find p (y # zs))"
| "adjacent_find p _ = None"

text \<open>The nested loops over all pairs.\<close>

fun all_pairs_differ :: "'a list \<Rightarrow> bool" where
  "all_pairs_differ [] = True"
| "all_pairs_differ (x # xs) = (list_all (\<lambda>y. x \<noteq> y) xs \<and> all_pairs_differ xs)"

text \<open>The loop that inserts into \<open>existingSet\<close> and \<open>uniqueItems\<close>.\<close>

definition unique_items :: "'a list \<Rightarrow> 'a list" where
  "unique_items items =
     snd (foldl (\<lambda>(existingSet, uniqueItems) it.
            if it \<in> existingSet then (existingSet, uniqueItems)
            else (insert it existingSet, uniqueItems @ [it]))
          ({}, []) items)"

text \<open>
  The result is the new vector, the returned flag, and the error message if one is written.
  The source assigns the format string and discards the item it names, which stands right of
  a comma operator.
\<close>

definition duplicate_message :: string where
  "duplicate_message = ''Duplicate item found in SdfListOp: %s.''"

definition MakeUnique :: "('a \<Rightarrow> 'a \<Rightarrow> bool) \<Rightarrow> 'a list \<Rightarrow> bool \<Rightarrow> 'a list \<times> bool \<times> string option" where
  "MakeUnique lt items reverse =
     (if length items \<le> 1 then (items, True, None)
      else if length items \<le> 10 \<and> all_pairs_differ items then (items, True, None)
      else if adjacent_find (\<lambda>l r. \<not> lt l r) items = None then (items, True, None)
      else case adjacent_find (=) (std_sort lt items) of
        None \<Rightarrow> (items, True, None)
      | Some duplicate \<Rightarrow>
          ((if reverse then rev (unique_items (rev items)) else unique_items items),
           False, Some duplicate_message))"

definition SetExplicit :: "bool \<Rightarrow> 'a SdfListOp \<Rightarrow> 'a SdfListOp" where
  "SetExplicit e op =
     (if e \<noteq> isExplicit op then empty_list_op\<lparr>isExplicit := e\<rparr> else op)"

type_synonym 'a set_result = "'a SdfListOp \<times> bool \<times> string option"

definition SetExplicitItems ::
    "('a \<Rightarrow> 'a \<Rightarrow> bool) \<Rightarrow> 'a list \<Rightarrow> 'a SdfListOp \<Rightarrow> 'a set_result" where
  "SetExplicitItems lt items op =
     (case MakeUnique lt items False of (items', r) \<Rightarrow>
        ((SetExplicit True op)\<lparr>explicitItems := items'\<rparr>, r))"

definition SetAddedItems :: "'a list \<Rightarrow> 'a SdfListOp \<Rightarrow> 'a SdfListOp" where
  "SetAddedItems items op = (SetExplicit False op)\<lparr>addedItems := items\<rparr>"

definition SetPrependedItems ::
    "('a \<Rightarrow> 'a \<Rightarrow> bool) \<Rightarrow> 'a list \<Rightarrow> 'a SdfListOp \<Rightarrow> 'a set_result" where
  "SetPrependedItems lt items op =
     (case MakeUnique lt items False of (items', r) \<Rightarrow>
        ((SetExplicit False op)\<lparr>prependedItems := items'\<rparr>, r))"

definition SetAppendedItems ::
    "('a \<Rightarrow> 'a \<Rightarrow> bool) \<Rightarrow> 'a list \<Rightarrow> 'a SdfListOp \<Rightarrow> 'a set_result" where
  "SetAppendedItems lt items op =
     (case MakeUnique lt items True of (items', r) \<Rightarrow>
        ((SetExplicit False op)\<lparr>appendedItems := items'\<rparr>, r))"

definition SetDeletedItems ::
    "('a \<Rightarrow> 'a \<Rightarrow> bool) \<Rightarrow> 'a list \<Rightarrow> 'a SdfListOp \<Rightarrow> 'a set_result" where
  "SetDeletedItems lt items op =
     (case MakeUnique lt items False of (items', r) \<Rightarrow>
        ((SetExplicit False op)\<lparr>deletedItems := items'\<rparr>, r))"

definition SetOrderedItems :: "'a list \<Rightarrow> 'a SdfListOp \<Rightarrow> 'a SdfListOp" where
  "SetOrderedItems items op = (SetExplicit False op)\<lparr>orderedItems := items\<rparr>"

fun SetItems ::
    "('a \<Rightarrow> 'a \<Rightarrow> bool) \<Rightarrow> 'a list \<Rightarrow> SdfListOpType \<Rightarrow> 'a SdfListOp \<Rightarrow> 'a set_result" where
  "SetItems lt items SdfListOpTypeExplicit op = SetExplicitItems lt items op"
| "SetItems lt items SdfListOpTypeAdded op = (SetAddedItems items op, True, None)"
| "SetItems lt items SdfListOpTypePrepended op = SetPrependedItems lt items op"
| "SetItems lt items SdfListOpTypeAppended op = SetAppendedItems lt items op"
| "SetItems lt items SdfListOpTypeDeleted op = SetDeletedItems lt items op"
| "SetItems lt items SdfListOpTypeOrdered op = (SetOrderedItems items op, True, None)"

definition Clear :: "'a SdfListOp \<Rightarrow> 'a SdfListOp" where
  "Clear op = SetExplicit False (op\<lparr>isExplicit := True\<rparr>)"

definition ClearAndMakeExplicit :: "'a SdfListOp \<Rightarrow> 'a SdfListOp" where
  "ClearAndMakeExplicit op = SetExplicit True (op\<lparr>isExplicit := False\<rparr>)"

definition CreateExplicit :: "('a \<Rightarrow> 'a \<Rightarrow> bool) \<Rightarrow> 'a list \<Rightarrow> 'a SdfListOp" where
  "CreateExplicit lt items = fst (SetExplicitItems lt items empty_list_op)"

definition Create :: "('a \<Rightarrow> 'a \<Rightarrow> bool) \<Rightarrow> 'a list \<Rightarrow> 'a list \<Rightarrow> 'a list \<Rightarrow> 'a SdfListOp" where
  "Create lt prepended appended deleted =
     (let op = fst (SetPrependedItems lt prepended empty_list_op);
          op = fst (SetAppendedItems lt appended op)
      in fst (SetDeletedItems lt deleted op))"

section \<open>Application\<close>

record 'a apply_state =
  nodes :: "(nat \<times> 'a) list"
  search :: "'a \<Rightarrow> nat option"
  fresh :: nat

text \<open>Filling the list from a vector, and the loop that fills the map.\<close>

definition apply_state_of :: "'a list \<Rightarrow> 'a apply_state" where
  "apply_state_of vec =
     (let ns = zip [0..<length vec] vec in
      \<lparr>nodes = ns, search = foldl (\<lambda>m (i, x). m(x \<mapsto> i)) Map.empty ns, fresh = length vec\<rparr>)"

definition InsertIfUnique :: "'a \<Rightarrow> 'a apply_state \<Rightarrow> 'a apply_state" where
  "InsertIfUnique item s =
     (if search s item = None
      then s\<lparr>nodes := nodes s @ [(fresh s, item)], search := (search s)(item \<mapsto> fresh s),
             fresh := fresh s + 1\<rparr>
      else s)"

datatype list_position = Begin | End

text \<open>The node with an identity, as a list of at most one element, and the list without it.\<close>

definition node_of :: "nat \<Rightarrow> (nat \<times> 'a) list \<Rightarrow> (nat \<times> 'a) list" where
  "node_of i ns = filter (\<lambda>n. fst n = i) ns"

definition without_node :: "nat \<Rightarrow> (nat \<times> 'a) list \<Rightarrow> (nat \<times> 'a) list" where
  "without_node i ns = filter (\<lambda>n. fst n \<noteq> i) ns"

definition InsertOrMove :: "'a \<Rightarrow> list_position \<Rightarrow> 'a apply_state \<Rightarrow> 'a apply_state" where
  "InsertOrMove item pos s =
     (case search s item of
        None \<Rightarrow>
          s\<lparr>nodes := (case pos of Begin \<Rightarrow> (fresh s, item) # nodes s
               | End \<Rightarrow> nodes s @ [(fresh s, item)]),
            search := (search s)(item \<mapsto> fresh s), fresh := fresh s + 1\<rparr>
      | Some i \<Rightarrow>
          (case pos of
             Begin \<Rightarrow>
               if nodes s \<noteq> [] \<and> fst (hd (nodes s)) = i then s
               else s\<lparr>nodes := node_of i (nodes s) @ without_node i (nodes s)\<rparr>
           | End \<Rightarrow> s\<lparr>nodes := without_node i (nodes s) @ node_of i (nodes s)\<rparr>))"

definition RemoveIfPresent :: "'a \<Rightarrow> 'a apply_state \<Rightarrow> 'a apply_state" where
  "RemoveIfPresent item s =
     (case search s item of
        None \<Rightarrow> s
      | Some i \<Rightarrow> s\<lparr>nodes := without_node i (nodes s), search := (search s)(item := None)\<rparr>)"

type_synonym 'a apply_callback = "(SdfListOpType \<Rightarrow> 'a \<Rightarrow> 'a option) option"

definition mapped_items :: "'a apply_callback \<Rightarrow> SdfListOpType \<Rightarrow> 'a list \<Rightarrow> 'a list" where
  "mapped_items cb t items =
     (case cb of None \<Rightarrow> items | Some f \<Rightarrow> List.map_filter (f t) items)"

definition AddKeys ::
    "'a SdfListOp \<Rightarrow> SdfListOpType \<Rightarrow> 'a apply_callback \<Rightarrow> 'a apply_state \<Rightarrow> 'a apply_state" where
  "AddKeys op t cb s = foldl (\<lambda>s x. InsertIfUnique x s) s (mapped_items cb t (GetItems op t))"

definition PrependKeys :: "'a SdfListOp \<Rightarrow> 'a apply_callback \<Rightarrow> 'a apply_state \<Rightarrow> 'a apply_state" where
  "PrependKeys op cb s = foldl (\<lambda>s x. InsertOrMove x Begin s) s
     (mapped_items cb SdfListOpTypePrepended (rev (GetItems op SdfListOpTypePrepended)))"

definition AppendKeys :: "'a SdfListOp \<Rightarrow> 'a apply_callback \<Rightarrow> 'a apply_state \<Rightarrow> 'a apply_state" where
  "AppendKeys op cb s = foldl (\<lambda>s x. InsertOrMove x End s) s
     (mapped_items cb SdfListOpTypeAppended (GetItems op SdfListOpTypeAppended))"

definition DeleteKeys :: "'a SdfListOp \<Rightarrow> 'a apply_callback \<Rightarrow> 'a apply_state \<Rightarrow> 'a apply_state" where
  "DeleteKeys op cb s = foldl (\<lambda>s x. RemoveIfPresent x s) s
     (mapped_items cb SdfListOpTypeDeleted (GetItems op SdfListOpTypeDeleted))"

text \<open>
  One step of the loop of \<open>_ReorderKeysHelper\<close>: the sequence from a node up to the next node
  whose item is in the order set is spliced from \<open>scratch\<close> to the result.
\<close>

definition splice_sequence ::
    "'a set \<Rightarrow> nat \<Rightarrow> (nat \<times> 'a) list \<times> (nat \<times> 'a) list \<Rightarrow> (nat \<times> 'a) list \<times> (nat \<times> 'a) list" where
  "splice_sequence orderSet i st =
     (case st of (result, scratch) \<Rightarrow>
        let before = takeWhile (\<lambda>n. fst n \<noteq> i) scratch;
            from = dropWhile (\<lambda>n. fst n \<noteq> i) scratch;
            rest = takeWhile (\<lambda>n. snd n \<notin> orderSet) (tl from);
            after = dropWhile (\<lambda>n. snd n \<notin> orderSet) (tl from)
        in (result @ take 1 from @ rest, before @ after))"

definition ReorderKeysHelper ::
    "'a list \<Rightarrow> 'a apply_callback \<Rightarrow> 'a apply_state \<Rightarrow> 'a apply_state" where
  "ReorderKeysHelper order cb s =
     (let uniqueOrder = unique_items (mapped_items cb SdfListOpTypeOrdered order);
          orderSet = set uniqueOrder
      in if uniqueOrder = [] then s
         else case foldl (\<lambda>st x. case search s x of None \<Rightarrow> st
               | Some i \<Rightarrow> splice_sequence orderSet i st) ([], nodes s) uniqueOrder of
           (result, scratch) \<Rightarrow> s\<lparr>nodes := scratch @ result\<rparr>)"

definition ReorderKeys :: "'a SdfListOp \<Rightarrow> 'a apply_callback \<Rightarrow> 'a apply_state \<Rightarrow> 'a apply_state" where
  "ReorderKeys op cb s = ReorderKeysHelper (GetItems op SdfListOpTypeOrdered) cb s"

definition ApplyOperations :: "'a SdfListOp \<Rightarrow> 'a apply_callback \<Rightarrow> 'a list \<Rightarrow> 'a list" where
  "ApplyOperations op cb vec =
     (if isExplicit op then
        map snd (nodes (AddKeys op SdfListOpTypeExplicit cb (apply_state_of [])))
      else if cb = None \<and> length (deletedItems op) + length (addedItems op)
          + length (prependedItems op) + length (appendedItems op) + length (orderedItems op) = 0
        then vec
      else
        let s = apply_state_of vec;
            s = DeleteKeys op cb s;
            s = AddKeys op SdfListOpTypeAdded cb s;
            s = PrependKeys op cb s;
            s = AppendKeys op cb s;
            s = ReorderKeys op cb s
        in map snd (nodes s))"

definition GetAppliedItems :: "'a SdfListOp \<Rightarrow> 'a list" where
  "GetAppliedItems op = ApplyOperations op None []"

text \<open>Applying an operation to an operation: the loops over the deleted, prepended and
  appended items of the outer one, on the triple of vectors \<open>(del, pre, app)\<close>.\<close>

type_synonym 'a triple = "'a list \<times> 'a list \<times> 'a list"

definition compose_delete :: "'a \<Rightarrow> 'a triple \<Rightarrow> 'a triple" where
  "compose_delete x st =
     (case st of (del, pre, app) \<Rightarrow>
        ((if List.member del x then del else del @ [x]), removeAll x pre, removeAll x app))"

definition compose_remove :: "'a \<Rightarrow> 'a triple \<Rightarrow> 'a triple" where
  "compose_remove x st =
     (case st of (del, pre, app) \<Rightarrow> (removeAll x del, removeAll x pre, removeAll x app))"

definition ApplyOperations_inner ::
    "('a \<Rightarrow> 'a \<Rightarrow> bool) \<Rightarrow> 'a SdfListOp \<Rightarrow> 'a SdfListOp \<Rightarrow> 'a SdfListOp option" where
  "ApplyOperations_inner lt op inner =
     (if isExplicit op then Some op
      else if addedItems op = [] \<and> orderedItems op = [] then
        if isExplicit inner then
          Some (fst (SetExplicitItems lt (ApplyOperations op None (explicitItems inner)) empty_list_op))
        else if addedItems inner = [] \<and> orderedItems inner = [] then
          let st = (deletedItems inner, prependedItems inner, appendedItems inner);
              st = foldl (\<lambda>st x. compose_delete x st) st (deletedItems op);
              (del, pre, app) = foldl (\<lambda>st x. compose_remove x st) st (prependedItems op);
              st = (del, prependedItems op @ pre, app);
              (del, pre, app) = foldl (\<lambda>st x. compose_remove x st) st (appendedItems op);
              app = app @ appendedItems op;
              r = fst (SetDeletedItems lt del empty_list_op);
              r = fst (SetPrependedItems lt pre r);
              r = fst (SetAppendedItems lt app r)
          in Some r
        else None
      else None)"

text \<open>\<open>_RegisterVtComposeOver\<close>; the flag says whether a failure to compose is reported.\<close>

definition VtComposeOver :: "('a \<Rightarrow> 'a \<Rightarrow> bool) \<Rightarrow> 'a SdfListOp \<Rightarrow> 'a SdfListOp \<Rightarrow> 'a SdfListOp \<times> bool" where
  "VtComposeOver lt strong weak =
     (case ApplyOperations_inner lt strong weak of Some r \<Rightarrow> (r, False) | None \<Rightarrow> (strong, True))"

definition VtComposeOver_background :: "('a \<Rightarrow> 'a \<Rightarrow> bool) \<Rightarrow> 'a SdfListOp \<Rightarrow> 'a SdfListOp" where
  "VtComposeOver_background lt strong = CreateExplicit lt (ApplyOperations strong None [])"

section \<open>Editing\<close>

definition ModifyCallbackHelper :: "('a \<Rightarrow> 'a option) \<Rightarrow> 'a list \<Rightarrow> 'a list \<times> bool" where
  "ModifyCallbackHelper cb itemVector =
     (case foldl (\<lambda>(modifiedVector, existingSet, didModify) item.
             case cb item of
               None \<Rightarrow> (modifiedVector, existingSet, True)
             | Some m \<Rightarrow>
                 if m \<in> existingSet then (modifiedVector, existingSet, True)
                 else if m \<noteq> item then (modifiedVector @ [m], insert m existingSet, True)
                 else (modifiedVector @ [item], insert m existingSet, didModify))
           ([], {}, False) itemVector of
        (modifiedVector, existingSet, didModify) \<Rightarrow>
          if didModify then (modifiedVector, True) else (itemVector, False))"

definition ModifyOperations :: "('a \<Rightarrow> 'a option) option \<Rightarrow> 'a SdfListOp \<Rightarrow> 'a SdfListOp \<times> bool" where
  "ModifyOperations callback op =
     (case callback of
        None \<Rightarrow> (op, False)
      | Some cb \<Rightarrow>
          let (e, d1) = ModifyCallbackHelper cb (explicitItems op);
              (a, d2) = ModifyCallbackHelper cb (addedItems op);
              (p, d3) = ModifyCallbackHelper cb (prependedItems op);
              (b, d4) = ModifyCallbackHelper cb (appendedItems op);
              (d, d5) = ModifyCallbackHelper cb (deletedItems op);
              (r, d6) = ModifyCallbackHelper cb (orderedItems op)
          in (op\<lparr>explicitItems := e, addedItems := a, prependedItems := p, appendedItems := b,
                 deletedItems := d, orderedItems := r\<rparr>, d1 \<or> d2 \<or> d3 \<or> d4 \<or> d5 \<or> d6))"

text \<open>
  Indices have type \<open>size_t\<close>, and \<open>index + n\<close> wraps around. The result is \<open>None\<close> where
  the code goes on with iterators outside of the vector, which is undefined behaviour.
\<close>

datatype 'a replace_result =
    Rejected
  | InvalidStart
  | InvalidEnd
  | Replaced "'a SdfListOp"
  | UndefinedBehaviour

definition ReplaceOperations ::
    "('a \<Rightarrow> 'a \<Rightarrow> bool) \<Rightarrow> SdfListOpType \<Rightarrow> 64 word \<Rightarrow> 64 word \<Rightarrow> 'a list \<Rightarrow> 'a SdfListOp \<Rightarrow>
     'a replace_result" where
  "ReplaceOperations lt t index n newItems op =
     (let needsModeSwitch = (isExplicit op \<and> t \<noteq> SdfListOpTypeExplicit \<or>
            \<not> isExplicit op \<and> t = SdfListOpTypeExplicit);
          itemVector = GetItems op t;
          i = unat index
      in if needsModeSwitch \<and> (n > 0 \<or> newItems = []) then Rejected
         else if i > length itemVector then InvalidStart
         else if unat (index + n) > length itemVector then InvalidEnd
         else if i + unat n > length itemVector then UndefinedBehaviour
         else if unat n = length newItems then
           Replaced (fst (SetItems lt
             (take i itemVector @ newItems @ drop (i + length newItems) itemVector) t op))
         else
           let erased = take i itemVector @ drop (i + unat n) itemVector
           in Replaced (fst (SetItems lt (take i erased @ newItems @ drop i erased) t op)))"

definition ComposeOperations ::
    "('a \<Rightarrow> 'a \<Rightarrow> bool) \<Rightarrow> 'a SdfListOp \<Rightarrow> SdfListOpType \<Rightarrow> 'a SdfListOp \<Rightarrow> 'a SdfListOp" where
  "ComposeOperations lt stronger t weaker =
     (if t = SdfListOpTypeExplicit then fst (SetItems lt (GetItems stronger t) t weaker)
      else
        let s = apply_state_of (GetItems weaker t);
            s = (case t of
                SdfListOpTypeOrdered \<Rightarrow> ReorderKeys stronger None (AddKeys stronger t None s)
              | SdfListOpTypeAdded \<Rightarrow> AddKeys stronger t None s
              | SdfListOpTypeDeleted \<Rightarrow> AddKeys stronger t None s
              | SdfListOpTypePrepended \<Rightarrow> PrependKeys stronger None s
              | SdfListOpTypeAppended \<Rightarrow> AppendKeys stronger None s
              | SdfListOpTypeExplicit \<Rightarrow> s)
        in fst (SetItems lt (map snd (nodes s)) t weaker))"

definition SdfApplyListOrdering :: "'a list \<Rightarrow> 'a list \<Rightarrow> 'a list" where
  "SdfApplyListOrdering v order =
     (if order \<noteq> [] \<and> v \<noteq> []
      then map snd (nodes (ReorderKeysHelper order None (apply_state_of v))) else v)"

section \<open>Items without duplicates\<close>

lemma unique_items_remdups: "unique_items xs = rev (remdups (rev xs))"
proof -
  have "foldl (\<lambda>(S, us) it. if it \<in> S then (S, us) else (insert it S, us @ [it])) ({}, []) xs
      = (set xs, rev (remdups (rev xs)))"
    by (induction xs rule: rev_induct) auto
  then show ?thesis by (simp add: unique_items_def)
qed

lemma set_unique_items [simp]: "set (unique_items xs) = set xs"
  by (simp add: unique_items_remdups)

lemma distinct_unique_items [simp]: "distinct (unique_items xs)"
  by (simp add: unique_items_remdups)

lemma unique_items_id: "distinct xs \<Longrightarrow> unique_items xs = xs"
  by (simp add: unique_items_remdups distinct_remdups_id)

lemma unique_items_snoc [simp]:
  "unique_items (xs @ [x]) = (if x \<in> set xs then unique_items xs else unique_items xs @ [x])"
  by (simp add: unique_items_remdups)

lemma unique_items_Nil [simp]: "unique_items [] = []"
  by (simp add: unique_items_remdups)

lemma unique_items_Cons: "unique_items (x # xs) = x # filter (\<lambda>y. y \<noteq> x) (unique_items xs)"
proof (induction xs rule: rev_induct)
  case (snoc y ys)
  then show ?case using unique_items_snoc [of "x # ys" y] by auto
qed (simp add: unique_items_remdups)

lemma all_pairs_differ_distinct: "all_pairs_differ xs \<longleftrightarrow> distinct xs"
  by (induction xs) (auto simp: list_all_iff)

lemma adjacent_find_None: "adjacent_find p xs = None \<longleftrightarrow> successively (\<lambda>x y. \<not> p x y) xs"
  by (induction p xs rule: adjacent_find.induct) auto

text \<open>
  The setters detect duplicates: whatever the size of the vector, the flag says whether its
  items are distinct, and if not the first occurrence of each item is kept, the last one for
  appended items. The error message is the same for all duplicates.
\<close>

context comparator
begin

lemma adjacent_increasing:
  "adjacent_find (\<lambda>l r. \<not> less l r) items = None \<Longrightarrow> distinct items"
  using sorted_distinct [of items] trans
  by (simp add: adjacent_find_None successively_iff_sorted_wrt_strong transpD)

lemma adjacent_differ:
  "adjacent_find (=) (std_sort less items) = None \<longleftrightarrow> distinct items"
proof
  assume "adjacent_find (=) (std_sort less items) = None"
  then have "successively (\<lambda>x y. x \<noteq> y \<and> \<not> less y x) (std_sort less items)"
    using sorted_std_sort [of items]
    by (auto simp: adjacent_find_None successively_conv_nth sorted_wrt_iff_nth_less)
  then have "successively less (std_sort less items)"
    by (rule successively_mono) (use total in blast)
  then have "sorted_wrt less (std_sort less items)"
    using trans by (simp add: successively_iff_sorted_wrt_strong transpD)
  then show "distinct items" using sorted_distinct by fastforce
next
  assume "distinct items"
  then have "distinct (std_sort less items)" by simp
  then show "adjacent_find (=) (std_sort less items) = None"
    by (auto simp: adjacent_find_None successively_conv_nth distinct_conv_nth)
qed

lemma MakeUnique_less:
  "MakeUnique less items reverse =
    (if distinct items then (items, True, None)
     else ((if reverse then remdups items else unique_items items), False, Some duplicate_message))"
proof -
  have small: "distinct items" if "length items \<le> 1"
    using that by (cases items) auto
  show ?thesis
    using adjacent_increasing [of items] adjacent_differ [of items] small
    by (auto simp: MakeUnique_def all_pairs_differ_distinct unique_items_remdups split: option.splits)
qed

end

lemmas MakeUnique_cases = comparator.MakeUnique_less

section \<open>The list of nodes refines a list without duplicates\<close>

definition refines :: "'a apply_state \<Rightarrow> 'a list \<Rightarrow> bool" where
  "refines s xs \<longleftrightarrow> distinct xs \<and> map snd (nodes s) = xs \<and> distinct (map fst (nodes s)) \<and>
     (\<forall>n \<in> set (nodes s). fst n < fresh s) \<and>
     (\<forall>x i. search s x = Some i \<longleftrightarrow> (i, x) \<in> set (nodes s))"

lemma refines_distinct: "refines s xs \<Longrightarrow> distinct xs"
  by (simp add: refines_def)

lemma refines_items: "refines s xs \<Longrightarrow> map snd (nodes s) = xs"
  by (simp add: refines_def)

lemma refines_search_None: "refines s xs \<Longrightarrow> search s x = None \<longleftrightarrow> x \<notin> set xs"
  unfolding refines_def by (metis (no_types, lifting) imageE image_eqI list.set_map option.exhaust
      option.distinct(1) prod.collapse snd_conv)

lemma refines_search_Some: "refines s xs \<Longrightarrow> search s x = Some i \<longleftrightarrow> (i, x) \<in> set (nodes s)"
  by (simp add: refines_def)

text \<open>A node of the list is determined by its identity as well as by its item.\<close>

lemma node_unique:
  assumes "refines s xs" "(i, x) \<in> set (nodes s)" "n \<in> set (nodes s)"
  shows "fst n = i \<longleftrightarrow> snd n = x"
proof -
  have "inj_on fst (set (nodes s))" "inj_on snd (set (nodes s))"
    using assms(1) by (auto simp: refines_def distinct_map)
  with assms(2,3) show ?thesis unfolding inj_on_def by (metis fst_conv snd_conv)
qed

lemma distinct_set_single: "distinct xs \<Longrightarrow> set xs = {z} \<Longrightarrow> xs = [z]"
  by (cases xs; cases "tl xs") auto

lemma removeAll_filter: "removeAll x xs = filter (\<lambda>y. y \<noteq> x) xs"
  by (induction xs) auto

lemma map_snd_filter: "map snd (filter (\<lambda>n. snd n \<noteq> x) ns) = removeAll x (map snd ns)"
  by (induction ns) auto

lemma without_node_items:
  assumes "refines s xs" "(i, x) \<in> set (nodes s)"
  shows "without_node i (nodes s) = filter (\<lambda>n. snd n \<noteq> x) (nodes s)"
    and "map snd (without_node i (nodes s)) = removeAll x xs"
    and "node_of i (nodes s) = [(i, x)]"
proof -
  show w: "without_node i (nodes s) = filter (\<lambda>n. snd n \<noteq> x) (nodes s)"
    unfolding without_node_def by (rule filter_cong [OF refl]) (simp add: node_unique [OF assms])
  show "map snd (without_node i (nodes s)) = removeAll x xs"
    unfolding w map_snd_filter using refines_items [OF assms(1)] by simp
  have "distinct (map fst (node_of i (nodes s)))"
    using assms(1) by (simp add: refines_def node_of_def distinct_map_filter)
  moreover have iff: "fst n = i \<longleftrightarrow> n = (i, x)" if "n \<in> set (nodes s)" for n
    using node_unique [OF assms that] by (auto simp: prod_eq_iff)
  have "node_of i (nodes s) = filter (\<lambda>n. n = (i, x)) (nodes s)"
    unfolding node_of_def by (rule filter_cong [OF refl iff])
  then have "set (node_of i (nodes s)) = {(i, x)}"
    using assms(2) by auto
  ultimately show "node_of i (nodes s) = [(i, x)]"
    by (intro distinct_set_single) (simp_all add: distinct_map)
qed

lemma map_of_nodes: "foldl (\<lambda>m (i, x). m(x \<mapsto> i)) m ns = (\<lambda>x. case map_of (rev (map prod.swap ns)) x of
    None \<Rightarrow> m x | Some i \<Rightarrow> Some i)"
  by (induction ns arbitrary: m) (auto simp: fun_eq_iff map_add_def map_of_append split: option.splits)

lemma refines_init: "distinct vec \<Longrightarrow> refines (apply_state_of vec) vec"
proof -
  assume d: "distinct vec"
  let ?ns = "zip [0..<length vec] vec"
  have d': "distinct (map fst (rev (map prod.swap ?ns)))"
    using d by (simp add: rev_map [symmetric] comp_def)
  have "map_of (rev (map prod.swap ?ns)) x = Some i \<longleftrightarrow> (i, x) \<in> set ?ns" for x i
    using d' by (auto simp: map_of_eq_Some_iff)
  moreover have "search (apply_state_of vec) = map_of (rev (map prod.swap ?ns))"
    by (auto simp: apply_state_of_def Let_def map_of_nodes fun_eq_iff split: option.splits)
  moreover have "fst n < length vec" if "n \<in> set ?ns" for n
    using that by (auto simp: in_set_zip)
  ultimately show ?thesis
    using d by (auto simp: refines_def apply_state_of_def Let_def)
qed

lemma refines_mem: "refines s xs \<Longrightarrow> (i, x) \<in> set (nodes s) \<Longrightarrow> x \<in> set xs \<and> i < fresh s"
  unfolding refines_def by (metis fst_conv image_eqI list.set_map snd_conv)

lemma refines_InsertIfUnique:
  "refines s xs \<Longrightarrow> refines (InsertIfUnique x s) (if x \<in> set xs then xs else xs @ [x])"
proof (cases "x \<in> set xs")
  case False
  assume r: "refines s xs"
  with False have new: "search s x = None" by (simp add: refines_search_None)
  have "(i, x) \<notin> set (nodes s)" "(fresh s, y) \<notin> set (nodes s)" for i y
    using refines_mem [OF r] False by blast+
  then show ?thesis
    using r False new by (auto simp: refines_def InsertIfUnique_def)
qed (auto simp: InsertIfUnique_def refines_search_None)

lemma refines_moved:
  assumes "refines s xs" "(i, x) \<in> set (nodes s)"
    and "ns = (i, x) # without_node i (nodes s) \<or> ns = without_node i (nodes s) @ [(i, x)]"
  shows "refines (s\<lparr>nodes := ns\<rparr>) (map snd ns)"
proof -
  have r: "distinct xs" "map snd (nodes s) = xs" "distinct (map fst (nodes s))"
    "\<forall>n \<in> set (nodes s). fst n < fresh s" "\<forall>x i. search s x = Some i \<longleftrightarrow> (i, x) \<in> set (nodes s)"
    using assms(1) by (auto simp: refines_def)
  have "set ns = set (nodes s)"
    using assms(2,3) node_unique [OF assms(1,2)] by (auto simp: without_node_def prod_eq_iff)
  moreover have "distinct (map fst ns)"
    using assms(3) r(3) by (auto simp: without_node_def distinct_map_filter)
  moreover have "distinct (map snd ns)"
    using assms(3) r(1) without_node_items(2) [OF assms(1,2)]
    by (auto simp: distinct_removeAll)
  ultimately show ?thesis using r by (simp add: refines_def)
qed

lemma refines_InsertOrMove:
  assumes "refines s xs"
  shows "refines (InsertOrMove x Begin s) (x # removeAll x xs)"
    and "refines (InsertOrMove x End s) (removeAll x xs @ [x])"
proof -
  have "refines (InsertOrMove x Begin s) (x # removeAll x xs) \<and>
    refines (InsertOrMove x End s) (removeAll x xs @ [x])"
  proof (cases "search s x")
    case None
    then have x: "x \<notin> set xs" using assms by (simp add: refines_search_None)
    have "(i, x) \<notin> set (nodes s)" "(fresh s, y) \<notin> set (nodes s)" for i y
      using refines_mem [OF assms] x by blast+
    then show ?thesis
      using assms x None by (auto simp: refines_def InsertOrMove_def)
  next
    case (Some i)
    then have mem: "(i, x) \<in> set (nodes s)" using assms by (simp add: refines_search_Some)
    note w = without_node_items [OF assms mem]
    have stay: "s\<lparr>nodes := (i, x) # without_node i (nodes s)\<rparr> = s"
      if "nodes s \<noteq> []" "fst (hd (nodes s)) = i"
    proof -
      from that obtain n ns where ns: "nodes s = n # ns" "fst n = i" by (cases "nodes s") auto
      then have "i \<notin> fst ` set ns" using assms by (auto simp: refines_def)
      then have "\<forall>n \<in> set ns. fst n \<noteq> i" by blast
      moreover have "n = (i, x)" using ns node_unique [OF assms mem, of n] by (simp add: prod_eq_iff)
      ultimately have "(i, x) # without_node i (nodes s) = nodes s"
        using ns by (simp add: without_node_def)
      then show ?thesis by simp
    qed
    have "InsertOrMove x Begin s = s\<lparr>nodes := (i, x) # without_node i (nodes s)\<rparr>"
      using stay by (auto simp: InsertOrMove_def Some w(3))
    moreover have "InsertOrMove x End s = s\<lparr>nodes := without_node i (nodes s) @ [(i, x)]\<rparr>"
      by (simp add: InsertOrMove_def Some w(3))
    moreover note refines_moved [OF assms mem disjI1 [OF refl]] refines_moved [OF assms mem disjI2 [OF refl]]
    ultimately show ?thesis by (simp add: w(2))
  qed
  then show "refines (InsertOrMove x Begin s) (x # removeAll x xs)"
    "refines (InsertOrMove x End s) (removeAll x xs @ [x])" by auto
qed

lemma refines_RemoveIfPresent: "refines s xs \<Longrightarrow> refines (RemoveIfPresent x s) (removeAll x xs)"
proof (cases "search s x")
  case None
  assume r: "refines s xs"
  with None have "x \<notin> set xs" by (simp add: refines_search_None)
  moreover from None have "RemoveIfPresent x s = s" by (simp add: RemoveIfPresent_def)
  ultimately show ?thesis using r by (simp add: removeAll_id)
next
  case (Some i)
  assume r: "refines s xs"
  with Some have mem: "(i, x) \<in> set (nodes s)" by (simp add: refines_search_Some)
  note w = without_node_items [OF r mem]
  have "distinct (map fst (without_node i (nodes s)))"
    using r by (simp add: refines_def without_node_def distinct_map_filter)
  moreover have "RemoveIfPresent x s = s\<lparr>nodes := without_node i (nodes s), search := (search s)(x := None)\<rparr>"
    using Some by (simp add: RemoveIfPresent_def)
  ultimately show ?thesis
    using r w(1) by (auto simp: refines_def map_snd_filter distinct_removeAll)
qed

text \<open>The loops over the items of an operation.\<close>

lemma refines_foldl:
  assumes "\<And>s xs x. refines s xs \<Longrightarrow> refines (f s x) (g xs x)"
  shows "refines s xs \<Longrightarrow> refines (foldl f s items) (foldl g xs items)"
  by (induction items arbitrary: s xs) (simp_all add: assms)

lemma fold_add: "foldl (\<lambda>xs x. if x \<in> set xs then xs else xs @ [x]) xs items
    = xs @ filter (\<lambda>x. x \<notin> set xs) (unique_items items)"
  by (induction items rule: rev_induct) auto

lemma fold_delete: "foldl (\<lambda>xs x. removeAll x xs) xs items = filter (\<lambda>x. x \<notin> set items) xs"
  by (induction items arbitrary: xs) (auto simp: removeAll_filter intro: filter_cong)

lemma fold_prepend: "foldl (\<lambda>xs x. x # removeAll x xs) xs (rev items)
    = unique_items items @ filter (\<lambda>x. x \<notin> set items) xs"
  by (induction items)
    (auto simp: unique_items_Cons removeAll_filter intro!: filter_cong [OF refl])

lemma fold_append: "foldl (\<lambda>xs x. removeAll x xs @ [x]) xs items
    = filter (\<lambda>x. x \<notin> set items) xs @ remdups items"
proof (induction items arbitrary: xs)
  case (Cons x items)
  have "filter (\<lambda>y. y \<notin> set items) (removeAll x xs) = filter (\<lambda>y. y \<notin> set (x # items)) xs"
    by (auto simp: removeAll_filter intro: filter_cong)
  then show ?case by (simp add: Cons.IH)
qed simp

section \<open>Reordering\<close>

text \<open>The sequence from an item up to the next one in the order, and the list without it.\<close>

definition sequence_at :: "'a set \<Rightarrow> 'a list \<Rightarrow> 'a \<Rightarrow> 'a list" where
  "sequence_at S xs x =
     (let from = dropWhile (\<lambda>y. y \<noteq> x) xs in take 1 from @ takeWhile (\<lambda>y. y \<notin> S) (tl from))"

definition remove_sequence :: "'a set \<Rightarrow> 'a list \<Rightarrow> 'a \<Rightarrow> 'a list" where
  "remove_sequence S xs x =
     takeWhile (\<lambda>y. y \<noteq> x) xs @ dropWhile (\<lambda>y. y \<notin> S) (tl (dropWhile (\<lambda>y. y \<noteq> x) xs))"

definition reordered :: "'a list \<Rightarrow> 'a list \<Rightarrow> 'a list" where
  "reordered order xs =
     takeWhile (\<lambda>x. x \<notin> set order) xs @ concat (map (sequence_at (set order) xs) order)"

lemma sequence_absent:
  assumes "x \<notin> set xs"
  shows "sequence_at S xs x = []" "remove_sequence S xs x = xs"
proof -
  have "dropWhile (\<lambda>y. y \<noteq> x) xs = []" "takeWhile (\<lambda>y. y \<noteq> x) xs = xs" using assms by auto
  then show "sequence_at S xs x = []" "remove_sequence S xs x = xs"
    by (simp_all only: sequence_at_def remove_sequence_def) simp_all
qed

lemma sequence_split:
  assumes "x \<in> set xs"
  obtains A B C where "xs = A @ x # B @ C" "sequence_at S xs x = x # B" "remove_sequence S xs x = A @ C"
    "\<forall>b \<in> set B. b \<notin> S" "C = [] \<or> hd C \<in> S" "x \<notin> set A"
proof -
  obtain A R where xs: "xs = A @ x # R" "x \<notin> set A" using assms by (meson split_list_first)
  define B C where "B = takeWhile (\<lambda>y. y \<notin> S) R" and "C = dropWhile (\<lambda>y. y \<notin> S) R"
  have "\<forall>y \<in> set A. y \<noteq> x" using xs(2) by auto
  then have d: "dropWhile (\<lambda>y. y \<noteq> x) xs = x # R" "takeWhile (\<lambda>y. y \<noteq> x) xs = A"
    unfolding xs(1) by (simp_all add: dropWhile_append2 takeWhile_append2)
  have "xs = A @ x # B @ C" by (simp add: xs(1) B_def C_def)
  moreover have "sequence_at S xs x = x # B" "remove_sequence S xs x = A @ C"
    by (simp_all add: sequence_at_def remove_sequence_def d B_def C_def)
  moreover have "\<forall>b \<in> set B. b \<notin> S" unfolding B_def by (blast dest: set_takeWhileD)
  moreover have "C = [] \<or> hd C \<in> S" unfolding C_def using hd_dropWhile [of "\<lambda>y. y \<notin> S" R] by blast
  ultimately show thesis using that xs(2) by blast
qed

lemma takeWhile_stop: "Z = [] \<or> hd Z \<in> S \<Longrightarrow>
    takeWhile (\<lambda>y. y \<notin> S) (A @ Z) = takeWhile (\<lambda>y. y \<notin> S) A"
proof -
  assume "Z = [] \<or> hd Z \<in> S"
  then have "takeWhile (\<lambda>y. y \<notin> S) Z = []" by (cases Z) auto
  then show ?thesis by (induction A) simp_all
qed

text \<open>Removing one sequence leaves the others as they are.\<close>

lemma sequence_other:
  assumes "x \<in> S" "y \<in> S" "y \<noteq> x"
  shows "sequence_at S (remove_sequence S xs x) y = sequence_at S xs y"
proof (cases "x \<in> set xs")
  case True
  obtain A B C where xs: "xs = A @ x # B @ C" and rem: "remove_sequence S xs x = A @ C"
    and B: "\<forall>b \<in> set B. b \<notin> S" and C: "C = [] \<or> hd C \<in> S"
    using sequence_split [OF True, of S] by metis
  show ?thesis
  proof (cases "y \<in> set A")
    case True
    then obtain A1 A2 where A: "A = A1 @ y # A2" "y \<notin> set A1" by (meson split_list_first)
    have "\<forall>z \<in> set A1. z \<noteq> y" using A(2) by auto
    then have "sequence_at S (A @ Z) y = y # takeWhile (\<lambda>z. z \<notin> S) (A2 @ Z)" for Z
      by (simp add: sequence_at_def A(1) dropWhile_append2)
    then show ?thesis unfolding rem unfolding xs using C assms(1) by (simp add: takeWhile_stop)
  next
    case False
    have "\<forall>z \<in> set A. z \<noteq> y" "\<forall>z \<in> set B. z \<noteq> y" using False B assms(2) by auto
    then have "dropWhile (\<lambda>z. z \<noteq> y) (A @ C) = dropWhile (\<lambda>z. z \<noteq> y) C"
      "dropWhile (\<lambda>z. z \<noteq> y) (A @ x # B @ C) = dropWhile (\<lambda>z. z \<noteq> y) C"
      using assms(3) by (simp_all add: dropWhile_append2)
    then show ?thesis unfolding rem by (simp add: sequence_at_def xs)
  qed
qed (simp add: sequence_absent)

lemma remove_sequence_head:
  assumes "x \<in> S"
  shows "takeWhile (\<lambda>y. y \<notin> S) (remove_sequence S xs x) = takeWhile (\<lambda>y. y \<notin> S) xs"
proof (cases "x \<in> set xs")
  case True
  obtain A B C where xs: "xs = A @ x # B @ C" and rem: "remove_sequence S xs x = A @ C"
    and C: "C = [] \<or> hd C \<in> S"
    using sequence_split [OF True, of S] by metis
  show ?thesis unfolding rem using takeWhile_stop [OF C] takeWhile_stop [of "x # B @ C" S A] assms
    by (simp add: xs)
qed (simp add: sequence_absent)

lemma mset_sequence: "mset (sequence_at S xs x) + mset (remove_sequence S xs x) = mset xs"
proof (cases "x \<in> set xs")
  case True
  then show ?thesis by (rule sequence_split [of x xs S]) simp
qed (simp add: sequence_absent)

lemma filter_sequence: "x \<in> S \<Longrightarrow> filter (\<lambda>y. y \<in> S) (sequence_at S xs x) = (if x \<in> set xs then [x] else [])"
proof (cases "x \<in> set xs")
  case True
  assume "x \<in> S"
  with True show ?thesis by (elim sequence_split [of x xs S]) auto
qed (simp add: sequence_absent)

definition splice_item :: "'a set \<Rightarrow> 'a list \<times> 'a list \<Rightarrow> 'a \<Rightarrow> 'a list \<times> 'a list" where
  "splice_item S st x =
     (case st of (result, scratch) \<Rightarrow> (result @ sequence_at S scratch x, remove_sequence S scratch x))"

text \<open>The whole loop, for any part of the order.\<close>

lemma splice_loop:
  assumes "set order \<subseteq> S" "distinct order"
  shows "fst (foldl (splice_item S) (r, xs) order) = r @ concat (map (sequence_at S xs) order)
    \<and> takeWhile (\<lambda>y. y \<notin> S) (snd (foldl (splice_item S) (r, xs) order)) = takeWhile (\<lambda>y. y \<notin> S) xs
    \<and> mset (fst (foldl (splice_item S) (r, xs) order)) + mset (snd (foldl (splice_item S) (r, xs) order))
      = mset r + mset xs"
  using assms
proof (induction order arbitrary: r xs)
  case (Cons x order)
  let ?r = "r @ sequence_at S xs x" and ?xs = "remove_sequence S xs x"
  have step: "foldl (splice_item S) (r, xs) (x # order) = foldl (splice_item S) (?r, ?xs) order"
    by (simp add: splice_item_def)
  have x: "x \<in> S" and sub: "set order \<subseteq> S" "distinct order" using Cons.prems by auto
  have map_eq: "map (sequence_at S ?xs) order = map (sequence_at S xs) order"
    by (rule map_cong [OF refl], rule sequence_other) (use Cons.prems in auto)
  note IH = Cons.IH [OF sub, of ?r ?xs, unfolded map_eq remove_sequence_head [OF x, of xs]]
  have sum: "mset ?r + mset ?xs = mset r + mset xs"
    by (simp add: mset_sequence [of S xs x, symmetric])
  from IH show ?case unfolding step sum list.map concat.simps append_assoc .
qed simp

lemma splice_loop_all:
  assumes "distinct order" "distinct xs"
  shows "foldl (splice_item (set order)) ([], xs) order
    = (concat (map (sequence_at (set order) xs) order), takeWhile (\<lambda>x. x \<notin> set order) xs)"
proof -
  let ?st = "foldl (splice_item (set order)) ([], xs) order"
  note loop = splice_loop [OF order_refl assms(1), of "[]" xs]
  have "x \<notin> set (snd ?st)" if x: "x \<in> set order" for x
  proof (cases "x \<in> set xs")
    case True
    then have "x \<in> set (sequence_at (set order) xs x)" by (metis list.set_intros(1) sequence_split)
    then have "x \<in> set (fst ?st)" using loop x by auto
    moreover have "distinct (fst ?st @ snd ?st)"
      using loop assms(2) by (metis append_Nil mset_append mset_eq_imp_distinct_iff)
    ultimately show ?thesis by auto
  next
    case False
    then show ?thesis using loop by (metis append_Nil mset_append set_append set_mset_mset Un_iff)
  qed
  then have "takeWhile (\<lambda>y. y \<notin> set order) (snd ?st) = snd ?st"
    by (simp add: takeWhile_eq_all_conv) blast
  with loop show ?thesis by (metis append_Nil prod.collapse)
qed

lemma mset_reordered:
  "distinct order \<Longrightarrow> distinct xs \<Longrightarrow> mset (reordered order xs) = mset xs"
  using splice_loop [OF order_refl, of order "[]" xs]
  by (simp add: splice_loop_all reordered_def add.commute)

lemma filter_reordered:
  "filter (\<lambda>x. x \<in> set order) (reordered order xs) = filter (\<lambda>x. x \<in> set xs) order"
proof -
  have "filter (\<lambda>x. x \<in> S) (concat (map (sequence_at S xs) os)) = filter (\<lambda>x. x \<in> set xs) os"
    if "set os \<subseteq> S" for S os
    using that by (induction os) (simp_all add: filter_sequence)
  then show ?thesis
    by (auto simp: reordered_def filter_empty_conv dest: set_takeWhileD)
qed

lemma reordered_Nil [simp]: "reordered [] xs = xs"
  by (simp add: reordered_def takeWhile_eq_all_conv)

text \<open>The loop on nodes is the loop on items, and moves nodes only.\<close>

lemma splice_nodes:
  assumes "refines s xs" "(i, x) \<in> set (nodes s)" "set scratch \<subseteq> set (nodes s)"
    "splice_sequence S i (result, scratch) = (result', scratch')"
  shows "splice_item S (map snd result, map snd scratch) x = (map snd result', map snd scratch')"
    and "mset result' + mset scratch' = mset result + mset scratch"
proof -
  have same: "fst n \<noteq> i \<longleftrightarrow> snd n \<noteq> x" if "n \<in> set scratch" for n
    using node_unique [OF assms(1,2)] assms(3) that by blast
  have "takeWhile (\<lambda>n. fst n \<noteq> i) scratch = takeWhile (\<lambda>n. snd n \<noteq> x) scratch"
    "dropWhile (\<lambda>n. fst n \<noteq> i) scratch = dropWhile (\<lambda>n. snd n \<noteq> x) scratch"
    by (rule takeWhile_cong [OF refl same] dropWhile_cong [OF refl same]; assumption)+
  with assms(4) have r: "result' = result @ take 1 (dropWhile (\<lambda>n. snd n \<noteq> x) scratch)
      @ takeWhile (\<lambda>n. snd n \<notin> S) (tl (dropWhile (\<lambda>n. snd n \<noteq> x) scratch))"
    "scratch' = takeWhile (\<lambda>n. snd n \<noteq> x) scratch
      @ dropWhile (\<lambda>n. snd n \<notin> S) (tl (dropWhile (\<lambda>n. snd n \<noteq> x) scratch))"
    by (simp_all add: splice_sequence_def Let_def)
  show "splice_item S (map snd result, map snd scratch) x = (map snd result', map snd scratch')"
    by (simp add: splice_item_def sequence_at_def remove_sequence_def r Let_def takeWhile_map
        dropWhile_map take_map map_tl [symmetric] comp_def)
  have "mset (take 1 ns) + mset (tl ns) = mset ns" for ns :: "(nat \<times> 'a) list" by (cases ns) auto
  moreover have "mset (takeWhile P ns) + mset (dropWhile P ns) = mset ns" for P and ns :: "(nat \<times> 'a) list"
    by (metis mset_append takeWhile_dropWhile_id)
  ultimately show "mset result' + mset scratch' = mset result + mset scratch"
    unfolding r mset_append by (metis (no_types, lifting) ab_semigroup_add_class.add_ac(1) add.commute add.left_commute)
qed

definition splice_step :: "'a apply_state \<Rightarrow> 'a set \<Rightarrow> (nat \<times> 'a) list \<times> (nat \<times> 'a) list \<Rightarrow> 'a \<Rightarrow>
    (nat \<times> 'a) list \<times> (nat \<times> 'a) list" where
  "splice_step s S st x = (case search s x of None \<Rightarrow> st | Some i \<Rightarrow> splice_sequence S i st)"

lemma splice_nodes_loop:
  assumes r: "refines s xs"
  shows "mset (fst st) + mset (snd st) = mset (nodes s) \<Longrightarrow>
    foldl (splice_item S) (map_prod (map snd) (map snd) st) order
      = map_prod (map snd) (map snd) (foldl (splice_step s S) st order)
    \<and> mset (fst (foldl (splice_step s S) st order)) + mset (snd (foldl (splice_step s S) st order))
      = mset (nodes s)"
proof (induction order arbitrary: st)
  case (Cons x order)
  obtain result scratch where st: "st = (result, scratch)" by (cases st)
  have "set_mset (mset scratch) \<subseteq> set_mset (mset (nodes s))"
    using Cons.prems by (metis set_mset_union snd_conv st sup_ge2)
  then have sub: "set scratch \<subseteq> set (nodes s)" by simp
  show ?case
  proof (cases "search s x")
    case None
    then have "x \<notin> set xs" using r by (simp add: refines_search_None)
    moreover have "snd ` set (nodes s) = set xs" using refines_items [OF r] by (metis list.set_map)
    ultimately have "x \<notin> set (map snd scratch)" using sub by auto
    then have "splice_item S (map_prod (map snd) (map snd) st) x = map_prod (map snd) (map snd) st"
      by (simp add: splice_item_def st sequence_absent)
    with Cons None show ?thesis by (simp add: splice_step_def)
  next
    case (Some i)
    then have mem: "(i, x) \<in> set (nodes s)" using r by (simp add: refines_search_Some)
    obtain result' scratch' where sp: "splice_sequence S i (result, scratch) = (result', scratch')"
      by (cases "splice_sequence S i (result, scratch)")
    note n = splice_nodes [OF r mem sub sp]
    have "mset result' + mset scratch' = mset (nodes s)" using n(2) Cons.prems st by simp
    with Cons.IH [of "(result', scratch')"] n(1) show ?thesis
      by (simp add: splice_step_def Some sp st)
  qed
qed simp

lemma refines_ReorderKeysHelper:
  assumes r: "refines s xs"
  shows "refines (ReorderKeysHelper order cb s)
    (reordered (unique_items (mapped_items cb SdfListOpTypeOrdered order)) xs)"
proof (cases "unique_items (mapped_items cb SdfListOpTypeOrdered order) = []")
  case True
  with r show ?thesis by (simp add: ReorderKeysHelper_def Let_def)
next
  case False
  define os where "os = unique_items (mapped_items cb SdfListOpTypeOrdered order)"
  define st where "st = foldl (splice_step s (set os)) ([], nodes s) os"
  have d: "distinct xs" "distinct os" using r by (auto simp: refines_def os_def)
  have "ReorderKeysHelper order cb s = s\<lparr>nodes := snd st @ fst st\<rparr>"
    using False by (simp add: ReorderKeysHelper_def Let_def os_def [symmetric] st_def
        splice_step_def [abs_def] split_beta)
  moreover have loop: "foldl (splice_item (set os)) ([], xs) os = map_prod (map snd) (map snd) st"
    "mset (fst st) + mset (snd st) = mset (nodes s)"
    using splice_nodes_loop [OF r, of "([], nodes s)" "set os" os] refines_items [OF r]
    by (simp_all add: st_def)
  have items: "map snd (snd st @ fst st) = reordered os xs"
    using loop(1) unfolding splice_loop_all [OF d(2,1)] by (cases st) (simp add: reordered_def)
  have "mset (snd st @ fst st) = mset (nodes s)" using loop(2) by (simp add: add.commute)
  then have "set (snd st @ fst st) = set (nodes s)"
    "distinct (map fst (snd st @ fst st)) = distinct (map fst (nodes s))"
    by (metis set_mset_mset, metis mset_map mset_eq_imp_distinct_iff)
  moreover have "distinct (reordered os xs)"
    using mset_reordered [OF d(2,1)] d(1) mset_eq_imp_distinct_iff by blast
  ultimately show ?thesis
    using r items unfolding os_def [symmetric] refines_def by simp
qed

section \<open>What an operation computes\<close>

definition applied :: "'a SdfListOp \<Rightarrow> 'a apply_callback \<Rightarrow> 'a list \<Rightarrow> 'a list" where
  "applied op cb vec =
     (let items = (\<lambda>t. mapped_items cb t (GetItems op t)) in
      if isExplicit op then unique_items (items SdfListOpTypeExplicit)
      else
        let xs = filter (\<lambda>x. x \<notin> set (items SdfListOpTypeDeleted)) vec;
            xs = xs @ filter (\<lambda>x. x \<notin> set xs) (unique_items (items SdfListOpTypeAdded));
            xs = unique_items (items SdfListOpTypePrepended)
               @ filter (\<lambda>x. x \<notin> set (items SdfListOpTypePrepended)) xs;
            xs = filter (\<lambda>x. x \<notin> set (items SdfListOpTypeAppended)) xs
               @ remdups (items SdfListOpTypeAppended)
        in reordered (unique_items (items SdfListOpTypeOrdered)) xs)"

lemma mapped_items_rev: "mapped_items cb t (rev items) = rev (mapped_items cb t items)"
  by (cases cb) (simp_all add: mapped_items_def List.map_filter_def rev_filter rev_map)

lemma refines_AddKeys:
  "refines s xs \<Longrightarrow> refines (AddKeys op t cb s)
     (xs @ filter (\<lambda>x. x \<notin> set xs) (unique_items (mapped_items cb t (GetItems op t))))"
  using refines_foldl [of "\<lambda>s x. InsertIfUnique x s" "\<lambda>xs x. if x \<in> set xs then xs else xs @ [x]",
      OF refines_InsertIfUnique]
  by (simp add: AddKeys_def fold_add)

lemma refines_DeleteKeys:
  "refines s xs \<Longrightarrow> refines (DeleteKeys op cb s)
     (filter (\<lambda>x. x \<notin> set (mapped_items cb SdfListOpTypeDeleted (GetItems op SdfListOpTypeDeleted))) xs)"
  using refines_foldl [of "\<lambda>s x. RemoveIfPresent x s" "\<lambda>xs x. removeAll x xs", OF refines_RemoveIfPresent]
  unfolding DeleteKeys_def fold_delete .

lemma refines_PrependKeys:
  "refines s xs \<Longrightarrow> refines (PrependKeys op cb s)
     (let items = mapped_items cb SdfListOpTypePrepended (GetItems op SdfListOpTypePrepended) in
      unique_items items @ filter (\<lambda>x. x \<notin> set items) xs)"
  using refines_foldl [of "\<lambda>s x. InsertOrMove x Begin s" "\<lambda>xs x. x # removeAll x xs",
      OF refines_InsertOrMove(1)]
  unfolding PrependKeys_def mapped_items_rev fold_prepend [symmetric] Let_def .

lemma refines_AppendKeys:
  "refines s xs \<Longrightarrow> refines (AppendKeys op cb s)
     (let items = mapped_items cb SdfListOpTypeAppended (GetItems op SdfListOpTypeAppended) in
      filter (\<lambda>x. x \<notin> set items) xs @ remdups items)"
  using refines_foldl [of "\<lambda>s x. InsertOrMove x End s" "\<lambda>xs x. removeAll x xs @ [x]",
      OF refines_InsertOrMove(2)]
  unfolding AppendKeys_def fold_append [symmetric] Let_def .

lemma ApplyOperations_refined:
  assumes "distinct vec"
  shows "ApplyOperations op cb vec = applied op cb vec" "distinct (applied op cb vec)"
proof -
  have "ApplyOperations op cb vec = applied op cb vec \<and> distinct (applied op cb vec)"
  proof (cases "isExplicit op")
    case True
    have "refines (AddKeys op SdfListOpTypeExplicit cb (apply_state_of [])) (applied op cb vec)"
      using refines_AddKeys [OF refines_init, of "[]" op SdfListOpTypeExplicit cb] True
      by (simp add: applied_def)
    with True show ?thesis by (auto simp: ApplyOperations_def refines_items refines_distinct)
  next
    case False
    let ?s = "ReorderKeys op cb (AppendKeys op cb (PrependKeys op cb
      (AddKeys op SdfListOpTypeAdded cb (DeleteKeys op cb (apply_state_of vec)))))"
    have "refines ?s (applied op cb vec)"
      using refines_ReorderKeysHelper [OF refines_AppendKeys [OF refines_PrependKeys
          [OF refines_AddKeys [OF refines_DeleteKeys [OF refines_init [OF assms], of op cb],
            of op SdfListOpTypeAdded cb], of op cb], of op cb], of "GetItems op SdfListOpTypeOrdered" cb] False
      by (simp add: applied_def Let_def ReorderKeys_def)
    then have s: "map snd (nodes ?s) = applied op cb vec" "distinct (applied op cb vec)"
      by (simp_all add: refines_items refines_distinct)
    show ?thesis
    proof (cases "cb = None \<and> length (deletedItems op) + length (addedItems op)
          + length (prependedItems op) + length (appendedItems op) + length (orderedItems op) = 0")
      case True
      then have "applied op cb vec = vec"
        using False by (simp add: applied_def mapped_items_def)
      with True False assms show ?thesis by (simp add: ApplyOperations_def)
    next
      case not_all: False
      with False s show ?thesis by (simp only: ApplyOperations_def Let_def if_False)
    qed
  qed
  then show "ApplyOperations op cb vec = applied op cb vec" "distinct (applied op cb vec)" by auto
qed

text \<open>C1: Applying an operation to a list without duplicates deletes, adds, prepends, appends and
  reorders as \<open>applied\<close> says, with or without a callback, and leaves no duplicates.
\<close>

theorem ApplyOperations_applied:
  assumes "distinct vec"
  shows "ApplyOperations op cb vec = applied op cb vec \<and> distinct (ApplyOperations op cb vec)"
  using ApplyOperations_refined [OF assms] by simp


section \<open>The invariant of list operations\<close>

definition list_op_ok :: "'a SdfListOp \<Rightarrow> bool" where
  "list_op_ok op \<longleftrightarrow>
     distinct (explicitItems op) \<and> distinct (prependedItems op) \<and>
     distinct (appendedItems op) \<and> distinct (deletedItems op) \<and>
     (if isExplicit op then addedItems op = [] \<and> prependedItems op = [] \<and>
        appendedItems op = [] \<and> deletedItems op = [] \<and> orderedItems op = []
      else explicitItems op = [])"

lemma list_op_ok_empty [simp]: "list_op_ok empty_list_op"
  by (simp add: list_op_ok_def empty_list_op_def)

lemma list_op_ok_SetExplicit:
  "list_op_ok op \<Longrightarrow> list_op_ok (SetExplicit e op) \<and> isExplicit (SetExplicit e op) = e"
  by (auto simp: SetExplicit_def list_op_ok_def empty_list_op_def)

lemma MakeUnique_distinct: "comparator lt \<Longrightarrow> distinct (fst (MakeUnique lt items r))"
  by (simp add: MakeUnique_cases)

lemma list_op_ok_SetItems:
  assumes "comparator lt" "list_op_ok op"
  shows "list_op_ok (fst (SetItems lt items t op))"
proof -
  note d = MakeUnique_distinct [OF assms(1), of items False] MakeUnique_distinct [OF assms(1), of items True]
  note ok = list_op_ok_SetExplicit [OF assms(2)]
  show ?thesis
    using d ok [of True] ok [of False]
    by (cases t) (auto simp: SetExplicitItems_def SetAddedItems_def SetPrependedItems_def
        SetAppendedItems_def SetDeletedItems_def SetOrderedItems_def list_op_ok_def split: prod.splits)
qed

text \<open>Each setter, with the vector and flag of \<open>MakeUnique\<close>.\<close>

theorem SetItems_unique:
  assumes "comparator lt" "list_op_ok op"
  shows "list_op_ok (fst (SetItems lt items t op))
    \<and> isExplicit (fst (SetItems lt items t op)) = (t = SdfListOpTypeExplicit)
    \<and> GetItems (fst (SetItems lt items t op)) t =
        (if t = SdfListOpTypeAdded \<or> t = SdfListOpTypeOrdered then items
         else if t = SdfListOpTypeAppended then remdups items else unique_items items)
    \<and> snd (SetItems lt items t op) =
        (if distinct items \<or> t = SdfListOpTypeAdded \<or> t = SdfListOpTypeOrdered then (True, None)
         else (False, Some duplicate_message))"
  using list_op_ok_SetItems [OF assms, of items t] list_op_ok_SetExplicit [OF assms(2)]
  by (cases t) (auto simp: SetExplicitItems_def SetAddedItems_def SetPrependedItems_def
      SetAppendedItems_def SetDeletedItems_def SetOrderedItems_def MakeUnique_cases [OF assms(1)]
      unique_items_id distinct_remdups_id split: prod.splits)

text \<open>\<open>ModifyOperations\<close> maps a vector, drops what the callback drops and duplicates, and
  reports exactly whether the vector changed.\<close>

lemma ModifyCallbackHelper_map:
  "ModifyCallbackHelper cb items
   = (unique_items (List.map_filter cb items), unique_items (List.map_filter cb items) \<noteq> items)"
proof -
  let ?f = "\<lambda>(modifiedVector, existingSet, didModify) item.
     case cb item of
       None \<Rightarrow> (modifiedVector, existingSet, True)
     | Some m \<Rightarrow>
         if m \<in> existingSet then (modifiedVector, existingSet, True)
         else if m \<noteq> item then (modifiedVector @ [m], insert m existingSet, True)
         else (modifiedVector @ [item], insert m existingSet, didModify)"
  let ?u = "\<lambda>xs. unique_items (List.map_filter cb xs)"
  have len: "length (?u xs) \<le> length xs" for xs
    by (induction xs rule: rev_induct) (auto simp: List.map_filter_def)
  have "foldl ?f ([], {}, False) items = (?u items, set (List.map_filter cb items), ?u items \<noteq> items)"
  proof (induction items rule: rev_induct)
    case (snoc x xs)
    have "?u xs \<noteq> xs @ [x]" using len [of xs] by (metis length_append_singleton not_less_eq_eq order_refl)
    with snoc show ?case
      by (auto simp: List.map_filter_def image_iff split: option.splits)
  qed (simp add: List.map_filter_def)
  then show ?thesis unfolding ModifyCallbackHelper_def by simp
qed

lemma list_op_ok_ModifyOperations:
  "list_op_ok op \<Longrightarrow> list_op_ok (fst (ModifyOperations cb op))"
  by (cases cb) (auto simp: ModifyOperations_def ModifyCallbackHelper_map list_op_ok_def
      Let_def List.map_filter_def)

lemma list_op_ok_ReplaceOperations:
  assumes "comparator lt" "list_op_ok op" "ReplaceOperations lt t index n newItems op = Replaced op'"
  shows "list_op_ok op'"
  using assms(3) list_op_ok_SetItems [OF assms(1,2)]
  by (auto simp: ReplaceOperations_def Let_def split: if_splits)

lemma list_op_ok_ComposeOperations:
  "comparator lt \<Longrightarrow> list_op_ok weaker \<Longrightarrow> list_op_ok (ComposeOperations lt stronger t weaker)"
  by (simp add: ComposeOperations_def Let_def list_op_ok_SetItems del: SetItems.simps GetItems.simps)

lemma list_op_ok_Clear: "list_op_ok (Clear op)" "list_op_ok (ClearAndMakeExplicit op)"
  by (simp_all add: Clear_def ClearAndMakeExplicit_def SetExplicit_def list_op_ok_def empty_list_op_def)

section \<open>Composition\<close>

lemma foldl_compose_delete:
  "foldl (\<lambda>st x. compose_delete x st) (del, pre, app) xs =
   (del @ filter (\<lambda>x. x \<notin> set del) (unique_items xs),
    filter (\<lambda>x. x \<notin> set xs) pre, filter (\<lambda>x. x \<notin> set xs) app)"
  by (induction xs rule: rev_induct)
    (auto simp: compose_delete_def removeAll_filter intro!: filter_cong)

lemma foldl_compose_remove:
  "foldl (\<lambda>st x. compose_remove x st) (del, pre, app) xs =
   (filter (\<lambda>x. x \<notin> set xs) del, filter (\<lambda>x. x \<notin> set xs) pre, filter (\<lambda>x. x \<notin> set xs) app)"
  by (induction xs rule: rev_induct)
    (auto simp: compose_remove_def removeAll_filter intro!: filter_cong)

text \<open>What an operation without added and ordered items does to a list.\<close>

definition apply_simple :: "'a list \<Rightarrow> 'a list \<Rightarrow> 'a list \<Rightarrow> 'a list \<Rightarrow> 'a list" where
  "apply_simple del pre app vec =
     filter (\<lambda>x. x \<notin> set app) (pre @ filter (\<lambda>x. x \<notin> set pre) (filter (\<lambda>x. x \<notin> set del) vec)) @ app"

lemma applied_simple:
  assumes "list_op_ok op" "\<not> isExplicit op" "addedItems op = []" "orderedItems op = []"
  shows "applied op None vec = apply_simple (deletedItems op) (prependedItems op) (appendedItems op) vec"
  using assms
  by (simp add: applied_def apply_simple_def mapped_items_def Let_def unique_items_id
      distinct_remdups_id list_op_ok_def)

lemma apply_simple_compose:
  "apply_simple
     (filter (\<lambda>x. x \<notin> set a2) (filter (\<lambda>x. x \<notin> set p2) (d1 @ filter (\<lambda>x. x \<notin> set d1) d2)))
     (filter (\<lambda>x. x \<notin> set a2) (p2 @ filter (\<lambda>x. x \<notin> set p2) (filter (\<lambda>x. x \<notin> set d2) p1)))
     (filter (\<lambda>x. x \<notin> set a2) (filter (\<lambda>x. x \<notin> set p2) (filter (\<lambda>x. x \<notin> set d2) a1)) @ a2) vec
   = apply_simple d2 p2 a2 (apply_simple d1 p1 a1 vec)"
  unfolding apply_simple_def filter_append filter_filter append_assoc
  by (intro arg_cong2 [where f = append] filter_cong refl) auto

lemma SetItems_simple:
  assumes "comparator lt" "distinct del" "distinct pre" "distinct app"
  shows "fst (SetAppendedItems lt app (fst (SetPrependedItems lt pre
      (fst (SetDeletedItems lt del empty_list_op)))))
    = empty_list_op\<lparr>prependedItems := pre, appendedItems := app, deletedItems := del\<rparr>"
  using assms
  by (simp add: SetAppendedItems_def SetPrependedItems_def SetDeletedItems_def MakeUnique_cases
      SetExplicit_def empty_list_op_def)

lemma ApplyOperations_inner_simple:
  assumes "comparator lt" "list_op_ok outer" "list_op_ok inner"
    and "\<not> isExplicit outer" "\<not> isExplicit inner"
    and "addedItems outer = []" "orderedItems outer = []" "addedItems inner = []" "orderedItems inner = []"
  shows "\<exists>c. ApplyOperations_inner lt outer inner = Some c \<and> list_op_ok c \<and>
    (\<forall>vec. applied c None vec = applied outer None (applied inner None vec))"
proof -
  define d1 p1 a1 where "d1 = deletedItems inner" "p1 = prependedItems inner" "a1 = appendedItems inner"
  define d2 p2 a2 where "d2 = deletedItems outer" "p2 = prependedItems outer" "a2 = appendedItems outer"
  note names = d1_p1_a1_def d2_p2_a2_def
  have d: "distinct d1" "distinct p1" "distinct a1" "distinct d2" "distinct p2" "distinct a2"
    using assms(2,3) by (simp_all add: names list_op_ok_def)
  define del pre app where
    "del = filter (\<lambda>x. x \<notin> set a2) (filter (\<lambda>x. x \<notin> set p2) (d1 @ filter (\<lambda>x. x \<notin> set d1) d2))"
    "pre = filter (\<lambda>x. x \<notin> set a2) (p2 @ filter (\<lambda>x. x \<notin> set p2) (filter (\<lambda>x. x \<notin> set d2) p1))"
    "app = filter (\<lambda>x. x \<notin> set a2) (filter (\<lambda>x. x \<notin> set p2) (filter (\<lambda>x. x \<notin> set d2) a1)) @ a2"
  note new = del_pre_app_def
  have dn: "distinct del" "distinct pre" "distinct app" using d by (auto simp: new)
  define c where "c = empty_list_op\<lparr>prependedItems := pre, appendedItems := app, deletedItems := del\<rparr>"
  have fields: "\<not> isExplicit c" "addedItems c = []" "orderedItems c = []" "explicitItems c = []"
    "deletedItems c = del" "prependedItems c = pre" "appendedItems c = app"
    by (simp_all add: c_def empty_list_op_def)
  have ok: "list_op_ok c" using dn by (simp add: list_op_ok_def fields)
  have "ApplyOperations_inner lt outer inner = Some c"
    using assms(4-9) SetItems_simple [OF assms(1) dn]
    by (simp add: ApplyOperations_inner_def Let_def foldl_compose_delete foldl_compose_remove
        unique_items_id d names [symmetric] new [symmetric] c_def del: filter_append filter_filter)
  moreover have "applied c None vec = applied outer None (applied inner None vec)" for vec
    unfolding applied_simple [OF ok fields(1-3)] applied_simple [OF assms(2,4,6,7)]
      applied_simple [OF assms(3,5,8,9)] fields names [symmetric] new
    by (rule apply_simple_compose)
  ultimately show ?thesis using ok by blast
qed

lemma ApplyOperations_inner_explicit:
  assumes "comparator lt" "list_op_ok inner" "isExplicit inner"
    and "\<not> isExplicit outer" "addedItems outer = []" "orderedItems outer = []"
  shows "\<exists>c. ApplyOperations_inner lt outer inner = Some c \<and> list_op_ok c \<and>
    (\<forall>vec. applied c None vec = applied outer None (applied inner None vec))"
proof -
  have d: "distinct (explicitItems inner)" using assms(2) by (simp add: list_op_ok_def)
  define items where "items = applied outer None (explicitItems inner)"
  have items: "ApplyOperations outer None (explicitItems inner) = items" "distinct items"
    using ApplyOperations_refined [OF d] by (simp_all add: items_def)
  let ?c = "empty_list_op\<lparr>isExplicit := True, explicitItems := items\<rparr>"
  have "ApplyOperations_inner lt outer inner = Some ?c"
    using assms items by (simp add: ApplyOperations_inner_def SetExplicitItems_def
        MakeUnique_cases [OF assms(1)] SetExplicit_def empty_list_op_def)
  moreover have "list_op_ok ?c" using items(2) by (simp add: list_op_ok_def empty_list_op_def)
  moreover have "applied ?c None vec = items" for vec
    using items(2) by (simp add: applied_def mapped_items_def Let_def unique_items_id empty_list_op_def)
  moreover have "applied inner None vec = explicitItems inner" for vec
    using assms(3) d by (simp add: applied_def mapped_items_def Let_def unique_items_id)
  ultimately show ?thesis using items_def by auto
qed

text \<open>The cases in which the composition exists.\<close>

definition composable :: "'a SdfListOp \<Rightarrow> 'a SdfListOp \<Rightarrow> bool" where
  "composable outer inner \<longleftrightarrow> isExplicit outer \<or>
     addedItems outer = [] \<and> orderedItems outer = [] \<and>
     (isExplicit inner \<or> addedItems inner = [] \<and> orderedItems inner = [])"

lemma ApplyOperations_inner_composable:
  assumes "comparator lt" "list_op_ok outer" "list_op_ok inner" "composable outer inner"
  shows "\<exists>c. ApplyOperations_inner lt outer inner = Some c \<and> list_op_ok c \<and>
    (\<forall>vec. applied c None vec = applied outer None (applied inner None vec))"
proof (cases "isExplicit outer")
  case True
  then have "applied outer None v = unique_items (explicitItems outer)" for v
    by (simp add: applied_def mapped_items_def Let_def)
  with True assms(2) show ?thesis by (simp add: ApplyOperations_inner_def)
next
  case False
  with assms ApplyOperations_inner_explicit ApplyOperations_inner_simple show ?thesis
    unfolding composable_def by blast
qed

lemma ApplyOperations_inner_None:
  "\<not> composable outer inner \<Longrightarrow> ApplyOperations_inner lt outer inner = None"
  by (auto simp: ApplyOperations_inner_def composable_def)

lemma list_op_ok_inner:
  assumes "comparator lt" "list_op_ok outer" "list_op_ok inner" "ApplyOperations_inner lt outer inner = Some c"
  shows "list_op_ok c"
  using ApplyOperations_inner_None [of outer inner lt] ApplyOperations_inner_composable [OF assms(1-3)] assms(4)
  by (cases "composable outer inner") auto


section \<open>The life of a list operation\<close>

text \<open>Everything a client can do to a list operation, one step at a time.\<close>

inductive list_op_step :: "('a \<Rightarrow> 'a \<Rightarrow> bool) \<Rightarrow> 'a SdfListOp \<Rightarrow> 'a SdfListOp \<Rightarrow> bool"
  for lt :: "'a \<Rightarrow> 'a \<Rightarrow> bool" where
  set_items: "list_op_step lt op (fst (SetItems lt items t op))"
| clear: "list_op_step lt op (Clear op)"
| clear_explicit: "list_op_step lt op (ClearAndMakeExplicit op)"
| modify: "list_op_step lt op (fst (ModifyOperations cb op))"
| replace: "ReplaceOperations lt t index n newItems op = Replaced op' \<Longrightarrow> list_op_step lt op op'"
| compose: "list_op_step lt op (ComposeOperations lt stronger t op)"
| compose_inner: "list_op_ok outer \<Longrightarrow> ApplyOperations_inner lt outer op = Some op' \<Longrightarrow> list_op_step lt op op'"

inductive_cases list_op_stepE: "list_op_step lt op op'"



text \<open>The check of the end index compares \<open>index + n\<close>, which wraps around: a range whose end
  overflows passes it, and the code goes on to erase with an invalid pair of iterators.
\<close>

theorem ReplaceOperations_overflow:
  assumes "0 < unat index" "unat index \<le> length (GetItems op t)" "length (GetItems op t) < 2 ^ 64"
    and "isExplicit op = (t = SdfListOpTypeExplicit)"
  shows "ReplaceOperations lt t index (- index) newItems op = UndefinedBehaviour"
proof -
  have "(unat index + unat (- index)) mod 2 ^ 64 = 0"
    using unat_word_ariths(1) [of index "- index"] by simp
  moreover have "0 < unat index + unat (- index)" using assms(1) by simp
  ultimately have "2 ^ 64 \<le> unat index + unat (- index)"
    using mod_less [of "unat index + unat (- index)" "2 ^ 64"] by linarith
  with assms show ?thesis
    by (auto simp: ReplaceOperations_def Let_def)
qed

text \<open>The error message of a setter does not say which item is duplicated: it is the same for
  all duplicates, the source's format string.
\<close>

theorem SetItems_message:
  assumes "comparator lt" "snd (SetItems lt items t op) = (False, msg)"
  shows "msg = Some ''Duplicate item found in SdfListOp: %s.''"
  using assms(2)
  by (cases t) (auto simp: SetExplicitItems_def SetPrependedItems_def SetAppendedItems_def
      SetDeletedItems_def MakeUnique_cases [OF assms(1)] duplicate_message_def
      split: prod.splits if_splits)

section \<open>Witnesses\<close>

lemma comparator_nat: "comparator ((<) :: nat \<Rightarrow> nat \<Rightarrow> bool)"
  by unfold_locales auto

definition op_A :: "nat SdfListOp" where
  "op_A = empty_list_op\<lparr>prependedItems := [1, 2], appendedItems := [3], deletedItems := [4]\<rparr>"

definition op_B :: "nat SdfListOp" where
  "op_B = empty_list_op\<lparr>prependedItems := [4], appendedItems := [1], deletedItems := [2, 5]\<rparr>"

lemma example_ops_ok: "list_op_ok op_A" "list_op_ok op_B"
  by (simp_all add: list_op_ok_def op_A_def op_B_def empty_list_op_def)

theorem ApplyOperations_applied_witness: "ApplyOperations op_A None [4, 5, 1] = [1, 2, 5, 3]"
  using ApplyOperations_applied [of "[4, 5, 1]" op_A None]
  by (simp add: applied_def op_A_def empty_list_op_def mapped_items_def unique_items_remdups Let_def)


theorem SetItems_unique_witness:
  "GetItems (fst (SetItems (<) [1, 2, 1 :: nat] SdfListOpTypePrepended op_A)) SdfListOpTypePrepended = [1, 2]"
  using SetItems_unique [OF comparator_nat example_ops_ok(1), of "[1, 2, 1]" SdfListOpTypePrepended]
  by (simp add: unique_items_remdups)




theorem ReplaceOperations_overflow_witness:
  "ReplaceOperations (<) SdfListOpTypePrepended 1 (- 1) [] op_A = UndefinedBehaviour"
  by (rule ReplaceOperations_overflow) (simp_all add: op_A_def empty_list_op_def)

theorem SetItems_message_witness:
  "snd (snd (SetItems (<) [5, 5 :: nat] SdfListOpTypeDeleted empty_list_op))
    = Some ''Duplicate item found in SdfListOp: %s.''"
proof (rule SetItems_message [OF comparator_nat])
  show "snd (SetItems (<) [5, 5 :: nat] SdfListOpTypeDeleted empty_list_op)
    = (False, snd (snd (SetItems (<) [5, 5 :: nat] SdfListOpTypeDeleted empty_list_op)))"
    by (simp add: SetDeletedItems_def MakeUnique_cases [OF comparator_nat])
qed

end
