(* ===== verification/Tf_FastCompression.thy ===== *)
theory Tf_FastCompression
  imports USD_Prelude "HOL-Library.Word" "HOL-Library.Monad_Syntax"
begin

text \<open>
  Buffers of bytes and the compression of buffers in chunks
  (\<open>pxr/base/tf/fastCompression.cpp\<close>). The LZ4 library underneath is not modelled: its two
  functions are a parameter, and \<open>lz4_contract\<close> states what \<open>lz4.h\<close> documents of them.
  A compressed buffer is read at offsets into a list of bytes; reading outside is \<open>Overrun\<close>.
\<close>

unbundle bit_operations_syntax

type_synonym bytes = "8 word list"

section \<open>Reading and writing integers\<close>

fun WriteBits :: "nat \<Rightarrow> 'a::len word \<Rightarrow> bytes" where
  "WriteBits 0 val = []"
| "WriteBits (Suc n) val = ucast val # WriteBits n (drop_bit 8 val)"

fun word_of_bytes :: "bytes \<Rightarrow> 'a::len word" where
  "word_of_bytes [] = 0"
| "word_of_bytes (b # bs) = ucast b OR push_bit 8 (word_of_bytes bs)"

text \<open>Reading a signed integer of \<open>n\<close> bytes at an offset, widened to the type of the context.\<close>

definition ReadBits :: "nat \<Rightarrow> bytes \<Rightarrow> nat \<Rightarrow> 'a::len word option" where
  "ReadBits n data p =
     (if p + n \<le> length data
      then Some (signed_take_bit (8 * n - 1) (word_of_bytes (take n (drop p data))))
      else None)"

definition buf_write :: "bytes \<Rightarrow> nat \<Rightarrow> bytes \<Rightarrow> bytes option" where
  "buf_write out p bs =
     (if p + length bs \<le> length out
      then Some (take p out @ bs @ drop (p + length bs) out)
      else None)"

lemma length_WriteBits [simp]: "length (WriteBits n val) = n"
  by (induction n arbitrary: val) auto

lemma word_of_WriteBits: "word_of_bytes (WriteBits n val) = take_bit (8 * n) val"
proof (induction n arbitrary: val)
  case (Suc n)
  show ?case
    unfolding WriteBits.simps word_of_bytes.simps Suc.IH
    by (rule bit_word_eqI) (auto simp: bit_simps)
qed simp

text \<open>A value is read back if it fits the bytes it was written to.\<close>

definition fits_bytes :: "nat \<Rightarrow> 'a::len word \<Rightarrow> bool" where
  "fits_bytes n x \<longleftrightarrow> - (2 ^ (8 * n - 1)) \<le> sint x \<and> sint x \<le> 2 ^ (8 * n - 1) - 1"

lemma signed_take_bit_fits:
  fixes x :: "'a::len word"
  assumes "fits_bytes n x"
  shows "signed_take_bit (8 * n - Suc 0) x = x"
proof -
  define m where "m = 8 * n - Suc 0"
  have self: "signed_take_bit m (sint x) = sint x"
    using assms by (simp add: fits_bytes_def m_def signed_take_bit_int_eq_self)
  show ?thesis unfolding m_def [symmetric]
  proof (rule bit_word_eqI)
    fix k assume k: "k < LENGTH('a)"
    have low: "bit x j = bit (sint x) j" if "j < LENGTH('a)" for j
      using that by (simp add: bit_sint_iff)
    have "bit (sint x) k = bit (sint x) (min m k)"
      using self by (metis bit_signed_take_bit_iff possible_bit_int min.commute)
    then show "bit (signed_take_bit m x) k = bit x k"
      using k low [of k] low [of "min m k"] by (simp add: bit_signed_take_bit_iff)
  qed
qed

lemma ReadBits_at:
  assumes "length bs = n" "p = length pre"
  shows "ReadBits n (pre @ bs @ post) p = Some (signed_take_bit (8 * n - 1) (word_of_bytes bs))"
  using assms by (simp add: ReadBits_def)

lemma ReadBits_bounds: "ReadBits n data p = None \<longleftrightarrow> length data < p + n"
  by (auto simp: ReadBits_def)

lemma ReadBits_WriteBits:
  fixes val :: "'a::len word"
  assumes "fits_bytes n val" "p = length pre" "n > 0"
  shows "ReadBits n (pre @ WriteBits n val @ post) p = Some val"
proof -
  have "signed_take_bit (8 * n - 1) (take_bit (8 * n) val) = signed_take_bit (8 * n - 1) val"
    using assms(3) by (intro bit_word_eqI) (auto simp: bit_simps)
  then show ?thesis
    using assms by (simp add: ReadBits_at word_of_WriteBits signed_take_bit_fits)
qed

lemma fits_bytes_all:
  fixes x :: "'a::len word"
  assumes "LENGTH('a) = 8 * n"
  shows "fits_bytes n x"
  using sint_greater_eq [of x] sint_less [of x] assms by (simp add: fits_bytes_def)

lemma buf_write_at:
  assumes "length old = length bs" "p = length pre"
  shows "buf_write (pre @ old @ post) p bs = Some (pre @ bs @ post)"
  using assms by (simp add: buf_write_def)

section \<open>The LZ4 library\<close>

text \<open>\<open>LZ4_compress_default\<close> into a buffer of the size \<open>LZ4_compressBound\<close> asks for, and
  \<open>LZ4_decompress_safe\<close> with the capacity of its output, \<open>None\<close> for a negative result.\<close>

record lz4 =
  LZ4_compress_default :: "bytes \<Rightarrow> bytes"
  LZ4_decompress_safe :: "bytes \<Rightarrow> nat \<Rightarrow> bytes option"

definition LZ4_MAX_INPUT_SIZE :: nat where
  "LZ4_MAX_INPUT_SIZE = 0x7E000000"

definition LZ4_compressBound :: "nat \<Rightarrow> nat" where
  "LZ4_compressBound isize = (if isize > LZ4_MAX_INPUT_SIZE then 0 else isize + isize div 255 + 16)"

text \<open>What \<open>lz4.h\<close> promises: compression fits the bound, decompression fits its capacity,
  and a block that was compressed is decompressed if its contents fit.\<close>

definition lz4_contract :: "lz4 \<Rightarrow> bool" where
  "lz4_contract codec \<longleftrightarrow>
     (\<forall>src. length src \<le> LZ4_MAX_INPUT_SIZE \<longrightarrow>
        length (LZ4_compress_default codec src) \<le> LZ4_compressBound (length src)) \<and>
     (\<forall>src cap dst. LZ4_decompress_safe codec src cap = Some dst \<longrightarrow> length dst \<le> cap) \<and>
     (\<forall>src cap. length src \<le> LZ4_MAX_INPUT_SIZE \<longrightarrow> length src \<le> cap \<longrightarrow>
        LZ4_decompress_safe codec (LZ4_compress_default codec src) cap = Some src)"

section \<open>Compression in chunks\<close>

definition FastCompression_GetMaxInputSize :: nat where
  "FastCompression_GetMaxInputSize = 127 * LZ4_MAX_INPUT_SIZE"

definition FastCompression_GetCompressedBufferSize :: "nat \<Rightarrow> nat" where
  "FastCompression_GetCompressedBufferSize inputSize =
     (if inputSize > FastCompression_GetMaxInputSize then 0
      else if inputSize \<le> LZ4_MAX_INPUT_SIZE then LZ4_compressBound inputSize + 1
      else
        let nWholeChunks = inputSize div LZ4_MAX_INPUT_SIZE;
            partChunkSz = inputSize mod LZ4_MAX_INPUT_SIZE
        in 1 + nWholeChunks * (LZ4_compressBound LZ4_MAX_INPUT_SIZE + 4)
           + (if partChunkSz \<noteq> 0 then LZ4_compressBound partChunkSz + 4 else 0))"

text \<open>\<open>writeChunk\<close> appends the size of the compressed chunk, four bytes, and the chunk.\<close>

definition writeChunk :: "lz4 \<Rightarrow> bytes \<Rightarrow> bytes" where
  "writeChunk codec chunk =
     (let c = LZ4_compress_default codec chunk
      in WriteBits 4 (of_nat (length c) :: 32 word) @ c)"

fun writeChunks :: "lz4 \<Rightarrow> nat \<Rightarrow> bytes \<Rightarrow> bytes \<times> bytes" where
  "writeChunks codec 0 input = ([], input)"
| "writeChunks codec (Suc n) input =
     (let (written, rest) = writeChunks codec n (drop LZ4_MAX_INPUT_SIZE input)
      in (writeChunk codec (take LZ4_MAX_INPUT_SIZE input) @ written, rest))"

text \<open>Nothing for an input that is too large, otherwise the bytes written.\<close>

definition FastCompression_CompressToBuffer :: "lz4 \<Rightarrow> bytes \<Rightarrow> bytes option" where
  "FastCompression_CompressToBuffer codec input =
     (if length input > FastCompression_GetMaxInputSize then None
      else if length input \<le> LZ4_MAX_INPUT_SIZE
      then Some (0 # LZ4_compress_default codec input)
      else
        let nWholeChunks = length input div LZ4_MAX_INPUT_SIZE;
            partChunkSz = length input mod LZ4_MAX_INPUT_SIZE;
            (written, rest) = writeChunks codec nWholeChunks input
        in Some (of_nat (nWholeChunks + (if partChunkSz \<noteq> 0 then 1 else 0))
             # written @ (if partChunkSz \<noteq> 0 then writeChunk codec rest else [])))"

section \<open>Decompression\<close>

text \<open>The result of decompression: the bytes, the error that LZ4 reports (zero bytes for the
  caller), or an access behind the compressed buffer.\<close>

datatype decompress_result = Decompressed bytes | DecompressFailed | Overrun

text \<open>The loop over the chunks. The size of a chunk is read from the buffer; LZ4 reads that many
  bytes behind it. A negative size is no valid argument for LZ4.\<close>

fun readChunks :: "lz4 \<Rightarrow> nat \<Rightarrow> bytes \<Rightarrow> nat \<Rightarrow> decompress_result" where
  "readChunks codec 0 compressed maxOutputSize = Decompressed []"
| "readChunks codec (Suc n) compressed maxOutputSize =
     (case ReadBits 4 compressed 0 of
       None \<Rightarrow> Overrun
     | Some (chunkSize :: 32 word) \<Rightarrow>
         let compressed = drop 4 compressed in
         if sint chunkSize < 0 \<or> unat chunkSize > length compressed then Overrun
         else
           (case LZ4_decompress_safe codec (take (unat chunkSize) compressed)
               (min LZ4_MAX_INPUT_SIZE maxOutputSize) of
             None \<Rightarrow> DecompressFailed
           | Some out \<Rightarrow>
               (case readChunks codec n (drop (unat chunkSize) compressed)
                   (maxOutputSize - length out) of
                 Decompressed rest \<Rightarrow> Decompressed (out @ rest)
               | r \<Rightarrow> r)))"

text \<open>The first byte is a signed character and becomes an \<open>int\<close>; the loop over the chunks counts
  up from zero until it meets that number, around the range of \<open>int\<close> if it is negative.\<close>

definition FastCompression_DecompressFromBuffer :: "lz4 \<Rightarrow> bytes \<Rightarrow> nat \<Rightarrow> decompress_result" where
  "FastCompression_DecompressFromBuffer codec compressed maxOutputSize =
     (case compressed of
       [] \<Rightarrow> Overrun
     | first # compressed \<Rightarrow>
         let nChunks = (scast first :: 32 word) in
         if nChunks = 0
         then (case LZ4_decompress_safe codec compressed maxOutputSize of
                 None \<Rightarrow> DecompressFailed
               | Some out \<Rightarrow> Decompressed out)
         else readChunks codec (unat nChunks) compressed maxOutputSize)"

section \<open>Chunks are read back\<close>

lemma LZ4_MAX_INPUT_SIZE_pos [simp]: "LZ4_MAX_INPUT_SIZE > 0" "LZ4_MAX_INPUT_SIZE \<noteq> 0"
  by (simp_all add: LZ4_MAX_INPUT_SIZE_def)

text \<open>The size of a compressed chunk always fits the four bytes of an \<open>int\<close>.\<close>

lemma compressBound_int: "n \<le> LZ4_MAX_INPUT_SIZE \<Longrightarrow> LZ4_compressBound n < 2 ^ 31"
  unfolding LZ4_compressBound_def LZ4_MAX_INPUT_SIZE_def by simp

lemma compressBound_mono: "m \<le> n \<Longrightarrow> n \<le> LZ4_MAX_INPUT_SIZE \<Longrightarrow> LZ4_compressBound m \<le> LZ4_compressBound n"
  unfolding LZ4_compressBound_def by (simp add: add_mono div_le_mono)

lemma sint_of_nat32: "n < 2 ^ 31 \<Longrightarrow> sint (of_nat n :: 32 word) = int n"
  by (simp add: sint_uint unsigned_of_nat take_bit_nat_eq_self signed_take_bit_int_eq_self
      take_bit_int_eq_self)

lemma compressed_length:
  assumes "lz4_contract codec" "length chunk \<le> LZ4_MAX_INPUT_SIZE"
  shows "length (LZ4_compress_default codec chunk) \<le> LZ4_compressBound (length chunk)"
    and "length (LZ4_compress_default codec chunk) < 2 ^ 31"
  using assms compressBound_int [OF assms(2)] by (auto simp: lz4_contract_def intro: le_less_trans)

lemma length_writeChunk:
  "lz4_contract codec \<Longrightarrow> length chunk \<le> LZ4_MAX_INPUT_SIZE \<Longrightarrow>
   length (writeChunk codec chunk) \<le> LZ4_compressBound (length chunk) + 4"
  using compressed_length(1) [of codec chunk] by (simp add: writeChunk_def Let_def)

text \<open>What comes before the result of the rest of the loop.\<close>

fun then_output :: "bytes \<Rightarrow> decompress_result \<Rightarrow> decompress_result" where
  "then_output out (Decompressed rest) = Decompressed (out @ rest)"
| "then_output out r = r"

lemma then_output_append: "then_output (xs @ ys) r = then_output xs (then_output ys r)"
  by (cases r) auto

lemma readChunks_written:
  assumes "lz4_contract codec" "length chunk \<le> LZ4_MAX_INPUT_SIZE" "length chunk \<le> cap"
  shows "readChunks codec (Suc n) (writeChunk codec chunk @ behind) cap
    = then_output chunk (readChunks codec n behind (cap - length chunk))"
proof -
  define c where "c = LZ4_compress_default codec chunk"
  have c: "length c < 2 ^ 31" unfolding c_def by (rule compressed_length(2) [OF assms(1,2)])
  then have size: "sint (of_nat (length c) :: 32 word) = int (length c)"
    "unat (of_nat (length c) :: 32 word) = length c"
    by (simp_all add: sint_of_nat32 unat_of_nat)
  have read: "ReadBits 4 (WriteBits 4 (of_nat (length c) :: 32 word) @ c @ behind) 0
      = Some (of_nat (length c) :: 32 word)"
    using ReadBits_WriteBits [of 4 "of_nat (length c) :: 32 word" 0 "[]"] by (simp add: fits_bytes_all)
  have "LZ4_decompress_safe codec c (min LZ4_MAX_INPUT_SIZE cap) = Some chunk"
    using assms unfolding lz4_contract_def c_def by simp
  with read show ?thesis
    by (cases "readChunks codec n behind (cap - length chunk)")
      (simp_all add: writeChunk_def c_def [symmetric] Let_def size)
qed

lemma writeChunks_read:
  assumes "lz4_contract codec" "n * LZ4_MAX_INPUT_SIZE \<le> length input" "length input \<le> cap"
  shows "snd (writeChunks codec n input) = drop (n * LZ4_MAX_INPUT_SIZE) input
    \<and> length (fst (writeChunks codec n input)) \<le> n * (LZ4_compressBound LZ4_MAX_INPUT_SIZE + 4)
    \<and> readChunks codec (n + k) (fst (writeChunks codec n input) @ behind) cap
      = then_output (take (n * LZ4_MAX_INPUT_SIZE) input)
          (readChunks codec k behind (cap - n * LZ4_MAX_INPUT_SIZE))"
  using assms(2,3)
proof (induction n arbitrary: input cap)
  case 0
  then show ?case by (cases "readChunks codec k behind cap") simp_all
next
  case (Suc n)
  let ?M = "LZ4_MAX_INPUT_SIZE"
  let ?first = "take ?M input" and ?rest = "drop ?M input"
  have len: "length ?first = ?M" "n * ?M \<le> length ?rest" "length ?rest \<le> cap - ?M"
    using Suc.prems by auto
  note IH = Suc.IH [OF len(2,3)]
  have split: "take (?M + n * ?M) input = ?first @ take (n * ?M) ?rest"
    by (simp add: take_add)
  have "readChunks codec (Suc (n + k)) (writeChunk codec ?first @ fst (writeChunks codec n ?rest) @ behind) cap
      = then_output ?first (readChunks codec (n + k) (fst (writeChunks codec n ?rest) @ behind) (cap - ?M))"
    using readChunks_written [OF assms(1), of ?first cap] Suc.prems len(1) by simp
  moreover have "length (writeChunk codec ?first) \<le> LZ4_compressBound ?M + 4"
    using length_writeChunk [OF assms(1), of ?first] len(1) by simp
  ultimately show ?case
    using IH by (simp add: split then_output_append split_beta add.commute)
qed

lemma first_byte:
  assumes "k < 128"
  shows "unat (scast (of_nat k :: 8 word) :: 32 word) = k"
proof -
  have "sint (of_nat k :: 8 word) = int k"
    using assms by (simp add: sint_uint unsigned_of_nat take_bit_nat_eq_self
        signed_take_bit_int_eq_self take_bit_int_eq_self)
  then have "(scast (of_nat k :: 8 word) :: 32 word) = of_nat k" by (simp add: scast_eq)
  then show ?thesis using assms by (simp add: unat_of_nat)
qed

text \<open>The case of several chunks.\<close>

lemma CompressToBuffer_chunks:
  assumes "lz4_contract codec" "length input \<le> FastCompression_GetMaxInputSize"
    and "length input > LZ4_MAX_INPUT_SIZE" "length input \<le> cap"
  obtains c where "FastCompression_CompressToBuffer codec input = Some c"
    and "length c \<le> FastCompression_GetCompressedBufferSize (length input)"
    and "FastCompression_DecompressFromBuffer codec c cap = Decompressed input"
proof -
  let ?M = "LZ4_MAX_INPUT_SIZE"
  define n p where "n = length input div ?M" "p = length input mod ?M"
  define k :: nat where "k = (if p \<noteq> 0 then 1 else 0)"
  define last where "last = (if p \<noteq> 0 then writeChunk codec (drop (n * ?M) input) else [])"
  define written where "written = fst (writeChunks codec n input)"
  have np: "length input = n * ?M + p" "p < ?M" by (simp_all add: n_p_def)
  have "n * ?M + p \<le> 127 * ?M" using assms(2) np by (simp add: FastCompression_GetMaxInputSize_def)
  then have "p \<noteq> 0 \<Longrightarrow> n * ?M < 127 * ?M" "n * ?M \<le> 127 * ?M" by linarith+
  then have nk: "n + k < 128"
    using mult_less_cancel2 [of n ?M 127] mult_le_cancel2 [of n ?M 127] by (auto simp: k_def)
  have pos: "n + k > 0" using np assms(3) by (auto simp: k_def intro!: Nat.gr0I)
  have "n * ?M \<le> length input" using np(1) by simp
  note chunks = writeChunks_read [OF assms(1) this assms(4), of k last, folded written_def]
  have last: "length last \<le> k * (LZ4_compressBound p + 4)"
    "readChunks codec k last (cap - n * ?M) = Decompressed (drop (n * ?M) input)"
  proof -
    have len: "length (drop (n * ?M) input) = p" using np(1) by simp
    show "length last \<le> k * (LZ4_compressBound p + 4)"
      using length_writeChunk [OF assms(1), of "drop (n * ?M) input"] len np(2) by (simp add: last_def k_def)
    have "p \<le> cap - n * ?M" using np(1) assms(4) by simp
    then show "readChunks codec k last (cap - n * ?M) = Decompressed (drop (n * ?M) input)"
      using readChunks_written [OF assms(1), of "drop (n * ?M) input" "cap - n * ?M" 0 "[]"] len np(2)
      by (auto simp: last_def k_def)
  qed
  let ?c = "of_nat (n + k) # written @ last"
  have compress: "FastCompression_CompressToBuffer codec input = Some ?c"
    using assms(2,3) chunks
    by (auto simp: FastCompression_CompressToBuffer_def Let_def n_p_def [symmetric] written_def
        last_def k_def split_beta)
  have size: "length ?c \<le> FastCompression_GetCompressedBufferSize (length input)"
    using assms(2,3) chunks last(1)
    by (auto simp: FastCompression_GetCompressedBufferSize_def Let_def n_p_def [symmetric] k_def
        split: if_splits)
  have "unat (scast (of_nat (n + k) :: 8 word) :: 32 word) = n + k" by (rule first_byte [OF nk])
  moreover from this have "(scast (of_nat (n + k) :: 8 word) :: 32 word) \<noteq> 0"
    using pos by (metis unat_0 less_numeral_extra(3))
  ultimately have "FastCompression_DecompressFromBuffer codec ?c cap = Decompressed input"
    using chunks last(2) by (simp add: FastCompression_DecompressFromBuffer_def Let_def)
  with compress size show ?thesis by (rule that)
qed

lemma FastCompression_round_trip_aux:
  assumes "lz4_contract codec" "length input \<le> FastCompression_GetMaxInputSize" "length input \<le> cap"
  shows "\<exists>c. FastCompression_CompressToBuffer codec input = Some c
    \<and> length c \<le> FastCompression_GetCompressedBufferSize (length input)
    \<and> FastCompression_DecompressFromBuffer codec c cap = Decompressed input"
proof (cases "length input \<le> LZ4_MAX_INPUT_SIZE")
  case True
  then have "length (LZ4_compress_default codec input) \<le> LZ4_compressBound (length input)"
    "LZ4_decompress_safe codec (LZ4_compress_default codec input) cap = Some input"
    using assms(1,3) by (auto simp: lz4_contract_def)
  with True assms(2) show ?thesis
    by (simp add: FastCompression_CompressToBuffer_def FastCompression_GetCompressedBufferSize_def
        FastCompression_DecompressFromBuffer_def)
next
  case False
  then have "length input > LZ4_MAX_INPUT_SIZE" by simp
  from CompressToBuffer_chunks [OF assms(1,2) this assms(3)] show ?thesis by metis
qed

text \<open>The space needed grows with the number of bytes to compress.\<close>

lemma GetCompressedBufferSize_mono:
  assumes "m \<le> n" "n \<le> FastCompression_GetMaxInputSize"
  shows "FastCompression_GetCompressedBufferSize m \<le> FastCompression_GetCompressedBufferSize n"
proof -
  let ?M = "LZ4_MAX_INPUT_SIZE" and ?f = "FastCompression_GetCompressedBufferSize"
  define B where "B = LZ4_compressBound ?M + 4"
  define part where "part = (\<lambda>p. if p \<noteq> 0 then LZ4_compressBound p + 4 else 0)"
  have f: "?f k = (if k \<le> ?M then LZ4_compressBound k + 1 else 1 + k div ?M * B + part (k mod ?M))"
    if "k \<le> n" for k
    using that assms(2) by (auto simp: FastCompression_GetCompressedBufferSize_def Let_def B_def part_def)
  have part_mono: "part p \<le> part q" if "p \<le> q" "q < ?M" for p q
    using that compressBound_mono [of p q] by (auto simp: part_def)
  have part_le: "part p \<le> B" if "p < ?M" for p
    using that compressBound_mono [of p ?M] by (auto simp: part_def B_def)
  have mod: "k mod ?M < ?M" for k by simp
  consider "n \<le> ?M" | "m \<le> ?M" "n > ?M" | "m > ?M" using assms(1) by linarith
  then show ?thesis
  proof cases
    case 1
    then show ?thesis using assms(1) compressBound_mono by (simp add: f)
  next
    case 2
    have "1 \<le> n div ?M" using 2 by (simp add: div_greater_zero_iff Suc_le_eq)
    then have "B \<le> n div ?M * B" by (metis mult_le_mono1 nat_mult_1)
    moreover have "LZ4_compressBound m + 1 \<le> B + 1"
      using compressBound_mono [OF 2(1) order_refl] by (simp add: B_def)
    ultimately have "LZ4_compressBound m + 1 \<le> 1 + n div ?M * B + part (n mod ?M)" by linarith
    moreover have "\<not> n \<le> ?M" using 2(2) by simp
    ultimately show ?thesis using 2(1) assms(1) by (simp only: f order_refl if_True if_False)
  next
    case 3
    show ?thesis
    proof (cases "m div ?M = n div ?M")
      case True
      then have "m mod ?M \<le> n mod ?M" using assms(1) by (metis add_le_cancel_left div_mult_mod_eq)
      then show ?thesis using True 3 assms(1) part_mono mod by (simp add: f)
    next
      case False
      then have "m div ?M + 1 \<le> n div ?M" using div_le_mono [OF assms(1), of ?M] by linarith
      then have "m div ?M * B + B \<le> n div ?M * B" by (metis add_mult_distrib mult_1 mult_le_mono1)
      then show ?thesis using 3 assms(1) part_le [OF mod, of m] by (simp add: f)
    qed
  qed
qed



text \<open>A codec that stores its input satisfies the contract.\<close>

definition stored_lz4 :: lz4 where
  "stored_lz4 = \<lparr>LZ4_compress_default = (\<lambda>src. src),
     LZ4_decompress_safe = (\<lambda>src cap. if length src \<le> cap then Some src else None)\<rparr>"

lemma stored_lz4_contract: "lz4_contract stored_lz4"
  by (simp add: lz4_contract_def stored_lz4_def LZ4_compressBound_def)



end
