(* ===== verification/Sdf_IntegerCoding.thy ===== *)
theory Sdf_IntegerCoding
  imports Tf_FastCompression
begin

text \<open>
  The integer coding of binary crate files (\<open>pxr/usd/sdf/integerCoding.cpp\<close>): a list of integers
  becomes the most common difference between neighbours, two bits of code per integer and the
  other differences in as few bytes as they need.

  The templates over the integer type are definitions over a word type, used at 32 and 64
  bits; a signed integer is the word with its bits, read by \<open>sint\<close>. The code subtracts and adds
  signed values, which C++ leaves undefined on overflow; the model takes the two's complement
  result, as the decoder must to recover what the encoder saw. Pointers into a buffer are offsets
  into a list of bytes, and an access outside the buffer is \<open>None\<close>, so that a result proves that
  all accesses are inside. Reading and writing an integer uses the byte order of a
  little-endian machine. The buffer itself goes through \<open>TfFastCompression\<close>.
\<close>

unbundle bit_operations_syntax

section \<open>Signed values and their sizes\<close>

text \<open>\<open>_Signed\<close> of an unsigned value: both branches keep the bits.\<close>

definition Signed :: "'a::len word \<Rightarrow> 'a word" where
  "Signed x =
     (if x \<le> mask (LENGTH('a) - 1) then x
      else (x - push_bit (LENGTH('a) - 1) 1) + push_bit (LENGTH('a) - 1) 1)"

definition sizeof_Int :: "'a::len itself \<Rightarrow> nat" where
  "sizeof_Int t = LENGTH('a) div 8"

text \<open>\<open>_SmallTypes\<close>: one and two bytes for 32 bits, two and four bytes for 64 bits.\<close>

definition sizeof_SmallInt :: "'a::len itself \<Rightarrow> nat" where
  "sizeof_SmallInt t = (if sizeof_Int t = 4 then 1 else 2)"

definition sizeof_MediumInt :: "'a::len itself \<Rightarrow> nat" where
  "sizeof_MediumInt t = (if sizeof_Int t = 4 then 2 else 4)"

definition GetEncodedBufferSize :: "'a::len itself \<Rightarrow> nat \<Rightarrow> nat" where
  "GetEncodedBufferSize t numInts =
     (if numInts \<noteq> 0
      then sizeof_Int t + (numInts * 2 + 7) div 8 + numInts * sizeof_Int t
      else 0)"

section \<open>Encoding\<close>

datatype int_code = Common | Small | Medium | Large

fun code_bits :: "int_code \<Rightarrow> 8 word" where
  "code_bits Common = 0"
| "code_bits Small = 1"
| "code_bits Medium = 2"
| "code_bits Large = 3"

definition getCode :: "'a::len word \<Rightarrow> 'a word \<Rightarrow> int_code" where
  "getCode commonValue x =
     (if x = Signed commonValue then Common
      else if fits_bytes (sizeof_SmallInt TYPE('a)) x then Small
      else if fits_bytes (sizeof_MediumInt TYPE('a)) x then Medium
      else Large)"

text \<open>The bytes written for a value: none for the common one.\<close>

definition code_size :: "'a::len itself \<Rightarrow> int_code \<Rightarrow> nat" where
  "code_size t code = (case code of
       Common \<Rightarrow> 0
     | Small \<Rightarrow> sizeof_SmallInt t
     | Medium \<Rightarrow> sizeof_MediumInt t
     | Large \<Rightarrow> sizeof_Int t)"

text \<open>The loop of \<open>_EncodeNHelper\<close> at index \<open>i\<close>: the code byte so far, the previous value, the
  offset of the next integer and the output buffer.\<close>

fun encode_vals :: "'a::len word \<Rightarrow> nat \<Rightarrow> 'a word list \<Rightarrow> 8 word \<times> 'a word \<times> nat \<times> bytes
    \<Rightarrow> (8 word \<times> 'a word \<times> nat \<times> bytes) option" where
  "encode_vals commonValue i [] st = Some st"
| "encode_vals commonValue i (x # cur) (codeByte, prevVal, vintsOut, out) =
     (let val = Signed x - prevVal;
          code = getCode commonValue val;
          n = code_size TYPE('a) code
      in do {
        out \<leftarrow> buf_write out vintsOut (WriteBits n val);
        encode_vals commonValue (Suc i) cur
          (codeByte OR push_bit (2 * i) (code_bits code), Signed x, vintsOut + n, out)
      })"

record 'i encode_state =
  enc_prevVal :: 'i
  enc_codesOut :: nat
  enc_vintsOut :: nat
  enc_output :: bytes

definition EncodeNHelper :: "'a::len word \<Rightarrow> 'a word list \<Rightarrow> 'a word encode_state \<Rightarrow> 'a word encode_state option" where
  "EncodeNHelper commonValue cur st = do {
     (codeByte, prevVal, vintsOut, out) \<leftarrow>
       encode_vals commonValue 0 cur (0, enc_prevVal st, enc_vintsOut st, enc_output st);
     out \<leftarrow> buf_write out (enc_codesOut st) [codeByte];
     Some \<lparr>enc_prevVal = prevVal, enc_codesOut = enc_codesOut st + 1,
           enc_vintsOut = vintsOut, enc_output = out\<rparr>
   }"

fun encode_groups :: "'a::len word \<Rightarrow> 'a word list \<Rightarrow> 'a word encode_state \<Rightarrow> 'a word encode_state option" where
  "encode_groups commonValue (x1 # x2 # x3 # x4 # cur) st =
     Option.bind (EncodeNHelper commonValue [x1, x2, x3, x4] st) (encode_groups commonValue cur)"
| "encode_groups commonValue [] st = Some st"
| "encode_groups commonValue cur st = EncodeNHelper commonValue cur st"

text \<open>The search for the most common difference: the value, its count, the counts of all
  differences and the previous value. Ties go to the largest value.\<close>

definition count_step :: "'a::len word \<times> nat \<times> ('a word \<Rightarrow> nat) \<times> 'a word \<Rightarrow> 'a word
    \<Rightarrow> 'a word \<times> nat \<times> ('a word \<Rightarrow> nat) \<times> 'a word" where
  "count_step = (\<lambda>(commonValue, commonCount, counts, prevVal) x.
     let val = Signed x - prevVal;
         counts = counts(val := counts val + 1);
         count = counts val
     in if count > commonCount then (val, count, counts, Signed x)
        else if count = commonCount \<and> sint val > sint commonValue
        then (val, commonCount, counts, Signed x)
        else (commonValue, commonCount, counts, Signed x))"

definition common_value :: "'a::len word list \<Rightarrow> 'a word" where
  "common_value ints = fst (foldl count_step (0, 0, \<lambda>_. 0, 0) ints)"

text \<open>\<open>_EncodeIntegers\<close>: the output buffer afterwards and the number of bytes used.\<close>

definition EncodeIntegers :: "'a::len word list \<Rightarrow> bytes \<Rightarrow> (bytes \<times> nat) option" where
  "EncodeIntegers ints out =
     (if ints = [] then Some (out, 0)
      else
        let commonValue = common_value ints;
            p = sizeof_Int TYPE('a)
        in do {
          out \<leftarrow> buf_write out 0 (WriteBits p commonValue);
          st \<leftarrow> encode_groups commonValue ints
            \<lparr>enc_prevVal = 0, enc_codesOut = p,
             enc_vintsOut = p + (length ints * 2 + 7) div 8, enc_output = out\<rparr>;
          Some (enc_output st, enc_vintsOut st)
        })"

section \<open>Decoding\<close>

text \<open>The loop of \<open>_DecodeNHelper\<close> over the indexes from \<open>i\<close> on: the previous value, the offset
  of the next integer and the integers decoded.\<close>

fun decode_vals :: "bytes \<Rightarrow> 'a::len word \<Rightarrow> 8 word \<Rightarrow> nat \<Rightarrow> nat \<Rightarrow> 'a word \<times> nat
    \<Rightarrow> ('a word list \<times> 'a word \<times> nat) option" where
  "decode_vals data commonValue codeByte i 0 (prevVal, vintsIn) = Some ([], prevVal, vintsIn)"
| "decode_vals data commonValue codeByte i (Suc n) (prevVal, vintsIn) =
     (let code = drop_bit (2 * i) codeByte AND 3;
          k = (if code = 1 then sizeof_SmallInt TYPE('a)
               else if code = 2 then sizeof_MediumInt TYPE('a)
               else if code = 3 then sizeof_Int TYPE('a)
               else 0)
      in do {
        val \<leftarrow> (if k = 0 then Some commonValue else ReadBits k data vintsIn);
        (output, st) \<leftarrow>
          decode_vals data commonValue codeByte (Suc i) n (prevVal + val, vintsIn + k);
        Some ((prevVal + val) # output, st)
      })"

definition DecodeNHelper :: "bytes \<Rightarrow> 'a::len word \<Rightarrow> nat \<Rightarrow> 'a word \<times> nat \<times> nat
    \<Rightarrow> ('a word list \<times> 'a word \<times> nat \<times> nat) option" where
  "DecodeNHelper data commonValue n = (\<lambda>(prevVal, codesIn, vintsIn).
     if codesIn < length data
     then do {
       (output, prevVal, vintsIn) \<leftarrow>
         decode_vals data commonValue (data ! codesIn) 0 n (prevVal, vintsIn);
       Some (output, prevVal, codesIn + 1, vintsIn)
     }
     else None)"

fun decode_groups :: "bytes \<Rightarrow> 'a::len word \<Rightarrow> nat \<Rightarrow> 'a word \<times> nat \<times> nat \<Rightarrow> 'a word list option" where
  "decode_groups data commonValue (Suc (Suc (Suc (Suc intsLeft)))) st = do {
     (output, st) \<leftarrow> DecodeNHelper data commonValue 4 st;
     rest \<leftarrow> decode_groups data commonValue intsLeft st;
     Some (output @ rest)
   }"
| "decode_groups data commonValue 0 st = Some []"
| "decode_groups data commonValue intsLeft st = map_option fst (DecodeNHelper data commonValue intsLeft st)"

definition DecodeIntegers :: "bytes \<Rightarrow> nat \<Rightarrow> 'a::len word list option" where
  "DecodeIntegers data numInts = do {
     commonValue \<leftarrow> ReadBits (sizeof_Int TYPE('a)) data 0;
     let codesIn = sizeof_Int TYPE('a);
     decode_groups data commonValue numInts (0, codesIn, codesIn + (numInts * 2 + 7) div 8)
   }"

section \<open>Compression\<close>

text \<open>\<open>_CompressIntegers\<close>, with the codec of \<open>TfFastCompression\<close> and the initial contents of the
  encoding buffer.\<close>

definition CompressIntegers :: "lz4 \<Rightarrow> bytes \<Rightarrow> 'a::len word list \<Rightarrow> bytes option" where
  "CompressIntegers codec encodeBuffer ints = do {
     (encoded, encodedSize) \<leftarrow> EncodeIntegers ints encodeBuffer;
     FastCompression_CompressToBuffer codec (take encodedSize encoded)
   }"

text \<open>\<open>_DecompressIntegers\<close> into a working space with its initial contents: nothing on
  failure, otherwise the integers.\<close>

definition DecompressIntegers :: "lz4 \<Rightarrow> bytes \<Rightarrow> bytes \<Rightarrow> nat \<Rightarrow> 'a::len word list option" where
  "DecompressIntegers codec workingSpace compressed numInts =
     (case FastCompression_DecompressFromBuffer codec compressed
         (GetEncodedBufferSize TYPE('a) numInts) of
       Decompressed decomp \<Rightarrow>
         (if decomp = [] then Some []
          else DecodeIntegers (decomp @ drop (length decomp) workingSpace) numInts)
     | DecompressFailed \<Rightarrow> Some []
     | Overrun \<Rightarrow> None)"

text \<open>The sizes the clients allocate.\<close>

definition GetCompressedBufferSize :: "'a::len itself \<Rightarrow> nat \<Rightarrow> nat" where
  "GetCompressedBufferSize t numInts = FastCompression_GetCompressedBufferSize (GetEncodedBufferSize t numInts)"

definition GetDecompressionWorkingSpaceSize :: "'a::len itself \<Rightarrow> nat \<Rightarrow> nat" where
  "GetDecompressionWorkingSpaceSize t numInts = GetEncodedBufferSize t numInts"

section \<open>The two instances of the templates\<close>

definition int_type :: "'a::len itself \<Rightarrow> bool" where
  "int_type t \<longleftrightarrow> LENGTH('a) = 32 \<or> LENGTH('a) = 64"

lemma int_type_sizes:
  assumes "int_type TYPE('a::len)"
  shows "8 * sizeof_Int TYPE('a) = LENGTH('a)" "sizeof_Int TYPE('a) > 0"
    "sizeof_SmallInt TYPE('a) > 0" "sizeof_SmallInt TYPE('a) \<le> sizeof_Int TYPE('a)"
    "sizeof_MediumInt TYPE('a) > 0" "sizeof_MediumInt TYPE('a) \<le> sizeof_Int TYPE('a)"
  using assms by (auto simp: int_type_def sizeof_Int_def sizeof_SmallInt_def sizeof_MediumInt_def)

lemma int_type_32: "int_type TYPE(32)" and int_type_64: "int_type TYPE(64)"
  by (simp_all add: int_type_def)

lemma Signed_id [simp]: "Signed x = x"
  by (simp add: Signed_def)

lemma code_size_le:
  "int_type TYPE('a::len) \<Longrightarrow> code_size TYPE('a) code \<le> sizeof_Int TYPE('a)"
  using int_type_sizes [where 'a = 'a] by (cases code) (auto simp: code_size_def)

section \<open>The layout of the output\<close>

text \<open>The codes and the integers of a list, and the codes packed into a byte from index \<open>i\<close> on.\<close>

fun codes_of :: "'a::len word \<Rightarrow> 'a word \<Rightarrow> 'a word list \<Rightarrow> int_code list" where
  "codes_of c prev [] = []"
| "codes_of c prev (x # xs) = getCode c (x - prev) # codes_of c x xs"

fun vints_of :: "'a::len word \<Rightarrow> 'a word \<Rightarrow> 'a word list \<Rightarrow> bytes" where
  "vints_of c prev [] = []"
| "vints_of c prev (x # xs) =
     WriteBits (code_size TYPE('a) (getCode c (x - prev))) (x - prev) @ vints_of c x xs"

fun pack_codes :: "nat \<Rightarrow> 8 word \<Rightarrow> int_code list \<Rightarrow> 8 word" where
  "pack_codes i b [] = b"
| "pack_codes i b (code # cs) = pack_codes (Suc i) (b OR push_bit (2 * i) (code_bits code)) cs"

fun code_bytes :: "'a::len word \<Rightarrow> 'a word \<Rightarrow> 'a word list \<Rightarrow> bytes" where
  "code_bytes c prev (x1 # x2 # x3 # x4 # xs) =
     pack_codes 0 0 (codes_of c prev [x1, x2, x3, x4]) # code_bytes c x4 xs"
| "code_bytes c prev [] = []"
| "code_bytes c prev xs = [pack_codes 0 0 (codes_of c prev xs)]"

definition encoded :: "'a::len word list \<Rightarrow> bytes" where
  "encoded ints = WriteBits (sizeof_Int TYPE('a)) (common_value ints)
     @ code_bytes (common_value ints) 0 ints @ vints_of (common_value ints) 0 ints"

lemma length_codes_of [simp]: "length (codes_of c prev xs) = length xs"
  by (induction c prev xs rule: codes_of.induct) auto

lemma length_code_bytes: "length (code_bytes c prev xs) = (length xs * 2 + 7) div 8"
  by (induction c prev xs rule: code_bytes.induct) auto

lemma length_vints_of:
  "int_type TYPE('a) \<Longrightarrow> length (vints_of (c :: 'a::len word) prev xs) \<le> length xs * sizeof_Int TYPE('a)"
  by (induction c prev xs rule: vints_of.induct) (auto simp: code_size_le add_mono)

lemma vints_of_append:
  "vints_of c prev (xs @ ys) = vints_of c prev xs @ vints_of c (last (prev # xs)) ys"
  by (induction c prev xs rule: vints_of.induct) auto

lemma length_encoded:
  fixes ints :: "'a::len word list"
  assumes "int_type TYPE('a)" "ints \<noteq> []"
  shows "length (encoded ints) \<le> GetEncodedBufferSize TYPE('a) (length ints)"
  using length_vints_of [OF assms(1)] assms(2)
  by (simp add: encoded_def GetEncodedBufferSize_def length_code_bytes)

section \<open>The encoder writes the layout\<close>

lemma encode_vals_writes:
  fixes c :: "'a::len word"
  assumes "int_type TYPE('a)" "length xs * sizeof_Int TYPE('a) \<le> length tail"
  shows "encode_vals c i xs (b, prev, length A, A @ tail)
    = Some (pack_codes i b (codes_of c prev xs), last (prev # xs),
        length (A @ vints_of c prev xs), A @ vints_of c prev xs @ drop (length (vints_of c prev xs)) tail)"
  using assms(2)
proof (induction xs arbitrary: i b prev A tail)
  case (Cons x xs)
  define bs where "bs = WriteBits (code_size TYPE('a) (getCode c (x - prev))) (x - prev)"
  have len: "length bs \<le> sizeof_Int TYPE('a)"
    unfolding bs_def by (simp add: code_size_le [OF assms(1)])
  with Cons.prems have fit: "length bs \<le> length tail" by simp
  have "buf_write (A @ take (length bs) tail @ drop (length bs) tail) (length A) bs
      = Some (A @ bs @ drop (length bs) tail)"
    using fit by (intro buf_write_at) simp_all
  then have "buf_write (A @ tail) (length A) bs = Some ((A @ bs) @ drop (length bs) tail)" by simp
  moreover have "length xs * sizeof_Int TYPE('a) \<le> length (drop (length bs) tail)"
    using Cons.prems len by simp
  note Cons.IH [OF this, of _ _ _ "A @ bs"]
  ultimately show ?case
    by (simp add: Let_def bs_def [symmetric] add.commute) (simp add: bs_def)
qed simp

lemma EncodeNHelper_writes:
  fixes c :: "'a::len word"
  assumes "int_type TYPE('a)" "length xs * sizeof_Int TYPE('a) \<le> length tail"
  shows "EncodeNHelper c xs \<lparr>enc_prevVal = prev, enc_codesOut = length H,
      enc_vintsOut = length (H @ [g] @ gap @ V), enc_output = H @ [g] @ gap @ V @ tail\<rparr>
    = Some \<lparr>enc_prevVal = last (prev # xs), enc_codesOut = length H + 1,
        enc_vintsOut = length (H @ [g] @ gap @ V @ vints_of c prev xs),
        enc_output = H @ [pack_codes 0 0 (codes_of c prev xs)] @ gap @ V @ vints_of c prev xs
          @ drop (length (vints_of c prev xs)) tail\<rparr>"
proof -
  let ?A = "H @ [g] @ gap @ V" and ?vs = "vints_of c prev xs"
  have "encode_vals c 0 xs (0, prev, length ?A, H @ [g] @ gap @ V @ tail)
      = Some (pack_codes 0 0 (codes_of c prev xs), last (prev # xs), length (?A @ ?vs),
          H @ [g] @ gap @ V @ ?vs @ drop (length ?vs) tail)"
    using encode_vals_writes [OF assms, of c 0 0 prev ?A] by simp
  moreover have "buf_write (H @ [g] @ gap @ V @ ?vs @ drop (length ?vs) tail) (length H)
      [pack_codes 0 0 (codes_of c prev xs)]
    = Some (H @ [pack_codes 0 0 (codes_of c prev xs)] @ gap @ V @ ?vs @ drop (length ?vs) tail)"
    by (rule buf_write_at) simp_all
  ultimately show ?thesis by (simp add: EncodeNHelper_def)
qed

text \<open>All groups: \<open>H\<close> is written, \<open>gap\<close> the room for the codes, \<open>V\<close> the integers so far.\<close>

definition group_state :: "'a::len word \<Rightarrow> bytes \<Rightarrow> bytes \<Rightarrow> bytes \<Rightarrow> bytes \<Rightarrow> 'a word encode_state" where
  "group_state prev H gap V tail = \<lparr>enc_prevVal = prev, enc_codesOut = length H,
     enc_vintsOut = length (H @ gap @ V), enc_output = H @ gap @ V @ tail\<rparr>"

lemma EncodeNHelper_group:
  fixes c :: "'a::len word"
  assumes "int_type TYPE('a)" "length xs * sizeof_Int TYPE('a) \<le> length tail" "gap \<noteq> []"
  shows "EncodeNHelper c xs (group_state prev H gap V tail)
    = Some (group_state (last (prev # xs)) (H @ [pack_codes 0 0 (codes_of c prev xs)]) (tl gap)
        (V @ vints_of c prev xs) (drop (length (vints_of c prev xs)) tail))"
  using EncodeNHelper_writes [OF assms(1,2), of c prev H "hd gap" "tl gap" V] assms(3)
  by (cases gap) (simp_all add: group_state_def)

lemma EncodeNHelper_last:
  fixes c :: "'a::len word"
  assumes "int_type TYPE('a)" "length xs * sizeof_Int TYPE('a) \<le> length tail" "length gap = 1"
  shows "EncodeNHelper c xs (group_state prev H gap V tail)
    = Some (group_state (last (prev # xs)) (H @ [pack_codes 0 0 (codes_of c prev xs)]) []
        (V @ vints_of c prev xs) (drop (length (vints_of c prev xs)) tail))"
proof -
  have "gap \<noteq> []" "tl gap = []" using assms(3) by (auto simp: length_Suc_conv)
  with EncodeNHelper_group [OF assms(1,2) this(1)] show ?thesis by metis
qed

lemma encode_groups_writes:
  fixes c :: "'a::len word"
  assumes "int_type TYPE('a)"
    and "length xs * sizeof_Int TYPE('a) \<le> length tail" "length gap = (length xs * 2 + 7) div 8"
  shows "encode_groups c xs (group_state prev H gap V tail)
    = Some (group_state (last (prev # xs)) (H @ code_bytes c prev xs) []
        (V @ vints_of c prev xs) (drop (length (vints_of c prev xs)) tail))"
  using assms(2,3)
proof (induction c prev xs arbitrary: H gap V tail rule: code_bytes.induct)
  case (1 c prev x1 x2 x3 x4 xs)
  let ?g = "[x1, x2, x3, x4]"
  have gap: "gap \<noteq> []" "length (tl gap) = (length xs * 2 + 7) div 8" using "1.prems"(2) by auto
  have vs: "length (vints_of c prev ?g) \<le> 4 * sizeof_Int TYPE('a)"
    using length_vints_of [OF assms(1), of c prev ?g] by (simp add: mult.commute)
  have room: "4 * sizeof_Int TYPE('a) + length xs * sizeof_Int TYPE('a) \<le> length tail"
    using "1.prems"(1) by (simp add: algebra_simps)
  note step = EncodeNHelper_group [OF assms(1) _ gap(1), of ?g tail c prev H V]
  have "length xs * sizeof_Int TYPE('a) \<le> length (drop (length (vints_of c prev ?g)) tail)"
    using vs room by simp
  note IH = "1.IH" [OF this gap(2)]
  have app: "vints_of c prev (x1 # x2 # x3 # x4 # xs) = vints_of c prev ?g @ vints_of c x4 xs"
    using vints_of_append [of c prev ?g xs] by simp
  show ?case
    unfolding app using step IH room
    by (simp del: vints_of.simps codes_of.simps add: add.commute)
next
  case (2 c prev)
  then show ?case by (simp add: group_state_def)
qed (use EncodeNHelper_last [OF assms(1)] in
    \<open>simp_all del: codes_of.simps vints_of.simps\<close>)

lemma EncodeIntegers_writes:
  fixes ints :: "'a::len word list"
  assumes "int_type TYPE('a)" "ints \<noteq> []" "GetEncodedBufferSize TYPE('a) (length ints) \<le> length out"
  shows "EncodeIntegers ints out
    = Some (encoded ints @ drop (length (encoded ints)) out, length (encoded ints))"
proof -
  let ?p = "sizeof_Int TYPE('a)" and ?n = "(length ints * 2 + 7) div 8"
  let ?c = "common_value ints"
  have room: "?p + ?n + length ints * ?p \<le> length out"
    using assms(2,3) by (simp add: GetEncodedBufferSize_def)
  define gap tail where "gap = take ?n (drop ?p out)" "tail = drop ?n (drop ?p out)"
  have out: "out = take ?p out @ gap @ tail" unfolding gap_tail_def by (metis append_take_drop_id)
  have gap: "length gap = ?n" using room by (simp add: gap_tail_def)
  have tail: "length ints * ?p \<le> length tail" using room by (simp add: gap_tail_def)
  have "buf_write ([] @ take ?p out @ gap @ tail) 0 (WriteBits ?p ?c) = Some ([] @ WriteBits ?p ?c @ gap @ tail)"
    using room by (intro buf_write_at) simp_all
  then have "buf_write out 0 (WriteBits ?p ?c) = Some (WriteBits ?p ?c @ gap @ tail)"
    using out by simp
  moreover note encode_groups_writes [OF assms(1) tail gap, of ?c 0 "WriteBits ?p ?c" "[]"]
  moreover have "drop (length (vints_of ?c 0 ints)) tail = drop (length (encoded ints)) out"
    by (simp add: gap_tail_def encoded_def length_code_bytes add.commute add.left_commute)
  ultimately show ?thesis
    using assms(2) by (simp add: EncodeIntegers_def Let_def group_state_def encoded_def gap)
qed

section \<open>The decoder reads the layout\<close>

lemma pack_codes_low: "n < 2 * i \<Longrightarrow> bit (pack_codes i b cs) n = bit b n"
proof (induction i b cs rule: pack_codes.induct)
  case (2 i b code cs)
  then show ?case by (simp add: bit_or_iff bit_push_bit_iff)
qed simp

lemma code_bits_less: "bit (code_bits code) n \<Longrightarrow> n < 2"
proof -
  have "take_bit 2 (code_bits code) = code_bits code" by (cases code) simp_all
  then show "bit (code_bits code) n \<Longrightarrow> n < 2" by (metis bit_take_bit_iff)
qed

text \<open>The code at each index of a packed byte.\<close>

lemma unpack_codes:
  assumes "\<forall>n \<ge> 2 * i. \<not> bit b n" "i + length cs \<le> 4" "j < length cs"
  shows "drop_bit (2 * (i + j)) (pack_codes i b cs) AND 3 = code_bits (cs ! j)"
  using assms
proof (induction i b cs arbitrary: j rule: pack_codes.induct)
  case (2 i b code cs)
  let ?b = "b OR push_bit (2 * i) (code_bits code)"
  have high: "\<forall>n \<ge> 2 * Suc i. \<not> bit ?b n"
    using "2.prems"(1) code_bits_less [of code]
    by (auto simp: bit_or_iff bit_push_bit_iff) fastforce
  show ?case
  proof (cases j)
    case 0
    have "bit (drop_bit (2 * i) (pack_codes (Suc i) ?b cs)) n = bit (code_bits code) n" if "n < 2" for n
      using that pack_codes_low [of "2 * i + n" "Suc i" ?b cs] "2.prems"(1,2)
      by (simp add: bit_simps)
    then have "take_bit 2 (drop_bit (2 * i) (pack_codes (Suc i) ?b cs)) = code_bits code"
      using code_bits_less [of code] by (intro bit_word_eqI) (auto simp: bit_take_bit_iff)
    then show ?thesis using 0 by (simp add: take_bit_eq_mask mask_eq_exp_minus_1)
  next
    case (Suc k)
    with "2.IH" [OF high, of k] "2.prems" show ?thesis by simp
  qed
qed simp

text \<open>A value is read back from the bytes its code stands for.\<close>

definition read_value :: "bytes \<Rightarrow> 'a::len word \<Rightarrow> int_code \<Rightarrow> nat \<Rightarrow> 'a word option" where
  "read_value data c code p =
     (if code = Common then Some c else ReadBits (code_size TYPE('a) code) data p)"

lemma decode_vals_Suc:
  fixes c :: "'a::len word"
  assumes "int_type TYPE('a)" "drop_bit (2 * i) b AND 3 = code_bits code"
  shows "decode_vals data c b i (Suc n) (prev, p) = do {
      val \<leftarrow> read_value data c code p;
      (output, st) \<leftarrow> decode_vals data c b (Suc i) n (prev + val, p + code_size TYPE('a) code);
      Some ((prev + val) # output, st)
    }"
  unfolding decode_vals.simps Let_def assms(2)
  using int_type_sizes [OF assms(1)] by (cases code) (simp_all add: read_value_def code_size_def)

lemma read_value_written:
  fixes c :: "'a::len word"
  assumes "int_type TYPE('a)" "code = getCode c val"
  shows "read_value (A @ WriteBits (code_size TYPE('a) code) val @ B) c code (length A) = Some val"
proof (cases "code = Common")
  case True
  then show ?thesis using assms(2) by (simp add: getCode_def read_value_def split: if_splits)
next
  case False
  then have "fits_bytes (code_size TYPE('a) code) val"
    using assms(2) fits_bytes_all [of "sizeof_Int TYPE('a)" val] int_type_sizes(1) [OF assms(1)]
    by (auto simp: getCode_def code_size_def split: if_splits)
  moreover have "code_size TYPE('a) code > 0"
    using False int_type_sizes [OF assms(1)] by (cases code) (auto simp: code_size_def)
  ultimately show ?thesis
    using False by (simp add: read_value_def ReadBits_WriteBits)
qed

lemma decode_vals_reads:
  fixes c :: "'a::len word"
  assumes "int_type TYPE('a)"
    and "\<forall>j < length xs. drop_bit (2 * (i + j)) b AND 3 = code_bits (codes_of c prev xs ! j)"
  shows "decode_vals (A @ vints_of c prev xs @ B) c b i (length xs) (prev, length A)
    = Some (xs, last (prev # xs), length (A @ vints_of c prev xs))"
  using assms(2)
proof (induction xs arbitrary: i prev A)
  case (Cons x xs)
  define code where "code = getCode c (x - prev)"
  define bs where "bs = WriteBits (code_size TYPE('a) code) (x - prev)"
  have first: "drop_bit (2 * i) b AND 3 = code_bits code"
    using Cons.prems [rule_format, of 0] by (simp add: code_def)
  have rest: "\<forall>j < length xs. drop_bit (2 * (Suc i + j)) b AND 3 = code_bits (codes_of c x xs ! j)"
    using Cons.prems by (auto dest: spec [of _ "Suc _"])
  have data: "A @ vints_of c prev (x # xs) @ B = A @ bs @ vints_of c x xs @ B"
    by (simp add: bs_def code_def)
  have "read_value (A @ bs @ vints_of c x xs @ B) c code (length A) = Some (x - prev)"
    unfolding bs_def by (rule read_value_written [OF assms(1) code_def])
  moreover have "length bs = code_size TYPE('a) code" by (simp add: bs_def)
  moreover note Cons.IH [OF rest, of "A @ bs"]
  ultimately show ?case
    unfolding data by (simp add: decode_vals_Suc [OF assms(1) first] code_def del: decode_vals.simps)
qed simp

lemma DecodeNHelper_reads:
  fixes c :: "'a::len word"
  assumes "int_type TYPE('a)" "length xs \<le> 4"
    and "data = H @ pack_codes 0 0 (codes_of c prev xs) # rest" "data = A @ vints_of c prev xs @ B"
  shows "DecodeNHelper data c (length xs) (prev, length H, length A)
    = Some (xs, last (prev # xs), length H + 1, length (A @ vints_of c prev xs))"
proof -
  have "\<forall>j < length xs. drop_bit (2 * (0 + j)) (pack_codes 0 0 (codes_of c prev xs)) AND 3
      = code_bits (codes_of c prev xs ! j)"
    using unpack_codes [of 0 0 "codes_of c prev xs"] assms(2) by simp
  note decode_vals_reads [OF assms(1) this, of A B, folded assms(4)]
  moreover have "data ! length H = pack_codes 0 0 (codes_of c prev xs)" "length H < length data"
    using assms(3) by simp_all
  ultimately show ?thesis by (simp add: DecodeNHelper_def)
qed

lemma decode_groups_last:
  fixes c :: "'a::len word"
  assumes "int_type TYPE('a)" "0 < length xs" "length xs < 4"
    and "data = H @ [pack_codes 0 0 (codes_of c prev xs)] @ rest" "data = A @ vints_of c prev xs @ B"
  shows "decode_groups data c (length xs) (prev, length H, length A) = Some xs"
proof -
  have "DecodeNHelper data c (length xs) (prev, length H, length A)
    = Some (xs, last (prev # xs), length H + 1, length (A @ vints_of c prev xs))"
    using assms by (intro DecodeNHelper_reads [where rest = rest and B = B]) simp_all
  moreover have "length xs = 1 \<or> length xs = 2 \<or> length xs = 3" using assms(2,3) by linarith
  ultimately show ?thesis by (auto simp: eval_nat_numeral)
qed

lemma decode_groups_reads:
  fixes c :: "'a::len word"
  assumes "int_type TYPE('a)"
    and "data = H @ code_bytes c prev xs @ rest" "data = A @ vints_of c prev xs @ B"
  shows "decode_groups data c (length xs) (prev, length H, length A) = Some xs"
  using assms(2,3)
proof (induction c prev xs arbitrary: H A rule: code_bytes.induct)
  case (1 c prev x1 x2 x3 x4 xs)
  let ?g = "[x1, x2, x3, x4]"
  let ?b = "pack_codes 0 0 (codes_of c prev ?g)"
  have app: "vints_of c prev (x1 # x2 # x3 # x4 # xs) = vints_of c prev ?g @ vints_of c x4 xs"
    using vints_of_append [of c prev ?g xs] by simp
  have codes: "data = H @ ?b # code_bytes c x4 xs @ rest"
    using "1.prems"(1) by (simp del: codes_of.simps)
  have vints: "data = A @ vints_of c prev ?g @ (vints_of c x4 xs @ B)"
    using "1.prems"(2) unfolding app by simp
  have "DecodeNHelper data c 4 (prev, length H, length A)
      = Some (?g, x4, length H + 1, length (A @ vints_of c prev ?g))"
    using DecodeNHelper_reads [OF assms(1) _ codes vints]
    by (simp del: vints_of.simps add: eval_nat_numeral)
  moreover have "decode_groups data c (length xs) (x4, length (H @ [?b]), length (A @ vints_of c prev ?g)) = Some xs"
    by (rule "1.IH") (simp_all only: codes [symmetric] vints [symmetric] append_assoc append_Cons append_Nil)
  ultimately show ?case by (simp del: vints_of.simps codes_of.simps)
next
  case (2 c prev)
  then show ?case by simp
next
  case "3_1"
  show ?case by (rule decode_groups_last [OF assms(1) _ _ _ "3_1.prems"(2)]) (use "3_1.prems"(1) in simp_all)
next
  case "3_2"
  show ?case by (rule decode_groups_last [OF assms(1) _ _ _ "3_2.prems"(2)]) (use "3_2.prems"(1) in simp_all)
next
  case "3_3"
  show ?case by (rule decode_groups_last [OF assms(1) _ _ _ "3_3.prems"(2)]) (use "3_3.prems"(1) in simp_all)
qed

lemma DecodeIntegers_encoded:
  fixes ints :: "'a::len word list"
  assumes "int_type TYPE('a)"
  shows "DecodeIntegers (encoded ints @ rest) (length ints) = Some ints"
proof -
  let ?p = "sizeof_Int TYPE('a)" and ?c = "common_value ints"
  let ?cs = "code_bytes ?c 0 ints" and ?vs = "vints_of ?c 0 ints"
  let ?data = "encoded ints @ rest"
  have data: "?data = WriteBits ?p ?c @ ?cs @ (?vs @ rest)"
    "?data = (WriteBits ?p ?c @ ?cs) @ ?vs @ rest"
    by (simp_all add: encoded_def)
  have "fits_bytes ?p ?c" using int_type_sizes(1) [OF assms] by (simp add: fits_bytes_all)
  then have "ReadBits ?p ?data 0 = Some ?c"
    using ReadBits_WriteBits [of ?p ?c 0 "[]"] int_type_sizes(2) [OF assms] data(1) by simp
  with decode_groups_reads [OF assms data] show ?thesis
    by (simp add: DecodeIntegers_def length_code_bytes)
qed

text \<open>Encoding into a buffer of the advertised size writes within the buffer and within that
  size, and decoding the bytes written, whatever follows them, gives the integers back: all of
  them, at 32 and at 64 bits, wrap-around of the differences included.\<close>

theorem EncodeIntegers_round_trip:
  fixes ints :: "'a::len word list"
  assumes "int_type TYPE('a)" "ints \<noteq> []" "GetEncodedBufferSize TYPE('a) (length ints) \<le> length out"
  shows "\<exists>out' n. EncodeIntegers ints out = Some (out', n)
    \<and> length out' = length out \<and> n \<le> GetEncodedBufferSize TYPE('a) (length ints)
    \<and> drop n out' = drop n out
    \<and> (\<forall>rest. DecodeIntegers (take n out' @ rest) (length ints) = Some ints)"
proof -
  have "length (encoded ints) \<le> GetEncodedBufferSize TYPE('a) (length ints)"
    by (rule length_encoded [OF assms(1,2)])
  then show ?thesis
    using EncodeIntegers_writes [OF assms] DecodeIntegers_encoded [OF assms(1)] assms(3) by simp
qed

section \<open>The decoder stays within its working space\<close>

lemma ReadBits_within: "p + n \<le> length data \<Longrightarrow> \<exists>val. ReadBits n data p = Some val"
  by (simp add: ReadBits_def)

lemma decode_vals_within:
  fixes c :: "'a::len word"
  assumes "int_type TYPE('a)" "p + n * sizeof_Int TYPE('a) \<le> length data"
  shows "\<exists>output prev' p'. decode_vals data c b i n (prev, p) = Some (output, prev', p')
    \<and> length output = n \<and> p' \<le> p + n * sizeof_Int TYPE('a)"
  using assms(2)
proof (induction n arbitrary: i prev p)
  case (Suc n)
  define k where "k = (let code = drop_bit (2 * i) b AND 3 in if code = 1 then sizeof_SmallInt TYPE('a)
    else if code = 2 then sizeof_MediumInt TYPE('a) else if code = 3 then sizeof_Int TYPE('a) else 0)"
  have k: "k \<le> sizeof_Int TYPE('a)" using int_type_sizes [OF assms(1)] by (simp add: k_def Let_def)
  have "\<exists>val. (if k = 0 then Some c else ReadBits k data p) = Some val"
    using Suc.prems k ReadBits_within [of p k data] by auto
  then obtain val where val: "(if k = 0 then Some c else ReadBits k data p) = Some val" by blast
  have "p + k + n * sizeof_Int TYPE('a) \<le> length data" using Suc.prems k by simp
  from Suc.IH [OF this, of "Suc i" "prev + val"] k val show ?case
    by (auto simp: k_def Let_def)
qed simp

lemma DecodeNHelper_within:
  fixes c :: "'a::len word"
  assumes "int_type TYPE('a)" "p + n * sizeof_Int TYPE('a) \<le> length data" "q < length data"
  shows "\<exists>output prev' p'. DecodeNHelper data c n (prev, q, p) = Some (output, prev', q + 1, p')
    \<and> length output = n \<and> p' \<le> p + n * sizeof_Int TYPE('a)"
  using decode_vals_within [OF assms(1,2), of c "data ! q" 0 prev] assms(3)
  by (auto simp: DecodeNHelper_def)

lemma decode_groups_within:
  fixes c :: "'a::len word"
  assumes "int_type TYPE('a)"
    and "q + (n * 2 + 7) div 8 \<le> length data" "p + n * sizeof_Int TYPE('a) \<le> length data"
  shows "\<exists>output. decode_groups data c n (prev, q, p) = Some output \<and> length output = n"
  using assms(2,3)
proof (induction n arbitrary: prev q p rule: less_induct)
  case (less n)
  have q: "n > 0 \<Longrightarrow> q < length data" using less.prems(1) by simp
  consider (none) "n = 0" | (some) "n = 1 \<or> n = 2 \<or> n = 3" | (group) m where "n = Suc (Suc (Suc (Suc m)))"
    by (metis One_nat_def not0_implies_Suc numeral_2_eq_2 numeral_3_eq_3)
  then show ?case
  proof cases
    case some
    with DecodeNHelper_within [OF assms(1) less.prems(2) q, of c prev]
    show ?thesis by (auto simp: eval_nat_numeral)
  next
    case group
    have room: "p + 4 * sizeof_Int TYPE('a) + m * sizeof_Int TYPE('a) \<le> length data"
      using less.prems(2) by (simp add: group algebra_simps)
    then obtain ints prev' p' where
      step: "DecodeNHelper data c 4 (prev, q, p) = Some (ints, prev', q + 1, p')"
      "length ints = 4" "p' \<le> p + 4 * sizeof_Int TYPE('a)"
      using DecodeNHelper_within [OF assms(1) _ q, of p 4 c prev] group by fastforce
    moreover have "\<exists>output. decode_groups data c m (prev', q + 1, p') = Some output \<and> length output = m"
      by (rule less.IH) (use less.prems(1) room step(3) group in auto)
    ultimately show ?thesis by (auto simp: group)
  qed simp
qed


section \<open>The most common difference\<close>

fun differences :: "'a::len word \<Rightarrow> 'a word list \<Rightarrow> 'a word list" where
  "differences prev [] = []"
| "differences prev (x # xs) = (x - prev) # differences x xs"

lemma differences_snoc: "differences prev (xs @ [x]) = differences prev xs @ [x - last (prev # xs)]"
  by (induction prev xs rule: differences.induct) auto

lemma differences_eq_Nil [simp]: "differences prev xs = [] \<longleftrightarrow> xs = []"
  by (cases xs) auto

text \<open>The most frequent of some values, the largest in case of a tie.\<close>

definition most_common :: "'a::len word list \<Rightarrow> 'a word \<Rightarrow> bool" where
  "most_common ds v \<longleftrightarrow> v \<in> set ds \<and>
     (\<forall>d. count_list ds d \<le> count_list ds v \<and> (count_list ds d = count_list ds v \<longrightarrow> sint d \<le> sint v))"

lemma most_common_snoc:
  fixes ds :: "'a::len word list" and d :: "'a word"
  assumes "ds \<noteq> [] \<Longrightarrow> most_common ds v"
  defines "n \<equiv> count_list (ds @ [d]) d"
  shows "most_common (ds @ [d])
    (if ds = [] \<or> n > count_list ds v then d
     else if n = count_list ds v \<and> sint d > sint v then d else v)"
proof (cases "ds = []")
  case False
  have count: "count_list (ds @ [d]) x = count_list ds x + (if x = d then 1 else 0)" for x
    by simp
  note mc = assms(1) [OF False, unfolded most_common_def]
  let ?w = "if ds = [] \<or> n > count_list ds v then d
     else if n = count_list ds v \<and> sint d > sint v then d else v"
  have n: "n = count_list ds d + 1" by (simp add: n_def)
  have "count_list (ds @ [d]) x \<le> count_list (ds @ [d]) ?w
      \<and> (count_list (ds @ [d]) x = count_list (ds @ [d]) ?w \<longrightarrow> sint x \<le> sint ?w)" for x
    using spec [OF conjunct2 [OF mc], of x] spec [OF conjunct2 [OF mc], of d] False
    unfolding count n by (cases "x = d"; cases "v = d") auto
  then show ?thesis using mc unfolding most_common_def by auto
qed (simp add: most_common_def n_def)

lemma count_loop:
  "foldl count_step (0, 0, \<lambda>_. 0, 0) ints = (v, n, counts, prev) \<Longrightarrow>
   counts = count_list (differences 0 ints) \<and> prev = last (0 # ints) \<and>
   (if ints = [] then n = 0 else n = count_list (differences 0 ints) v \<and> most_common (differences 0 ints) v)"
proof (induction ints arbitrary: v n counts prev rule: rev_induct)
  case (snoc x ints)
  obtain v0 n0 counts0 prev0 where st: "foldl count_step (0, 0, \<lambda>_. 0, 0) ints = (v0, n0, counts0, prev0)"
    by (metis prod_cases4)
  let ?ds = "differences 0 ints" and ?d = "x - last (0 # ints)"
  note IH = snoc.IH [OF st]
  have ds: "differences 0 (ints @ [x]) = ?ds @ [?d]" by (rule differences_snoc)
  have "?ds \<noteq> [] \<Longrightarrow> most_common ?ds v0" using IH by (auto split: if_splits)
  note mc = most_common_snoc [OF this, of ?d]
  have counts: "counts0(?d := counts0 ?d + 1) = count_list (?ds @ [?d])"
    using IH by (simp add: fun_eq_iff)
  from snoc.prems have "count_step (v0, n0, counts0, prev0) x = (v, n, counts, prev)" by (simp add: st)
  then show ?case
    unfolding ds using IH mc counts
    by (auto simp: count_step_def Let_def most_common_def split: if_splits)
qed (auto simp: fun_eq_iff)

text \<open>The common value of the encoding is the most frequent difference of neighbours, and of the most
  frequent ones the largest.\<close>

theorem common_value_most_common:
  assumes "ints \<noteq> []"
  shows "most_common (differences 0 ints) (common_value ints)"
proof -
  obtain v n counts prev where st: "foldl count_step (0, 0, \<lambda>_. 0, 0) ints = (v, n, counts, prev)"
    by (metis prod_cases4)
  from count_loop [OF st] st assms show ?thesis by (simp add: common_value_def)
qed

section \<open>Compressed integers\<close>

lemma CompressIntegers_round_trip_aux:
  fixes ints :: "'a::len word list"
  assumes "int_type TYPE('a)" "lz4_contract codec" "ints \<noteq> []"
    and "GetEncodedBufferSize TYPE('a) (length ints) \<le> FastCompression_GetMaxInputSize"
    and "length encodeBuffer = GetEncodedBufferSize TYPE('a) (length ints)"
  shows "\<exists>c. CompressIntegers codec encodeBuffer ints = Some c
    \<and> FastCompression_CompressToBuffer codec (encoded ints) = Some c
    \<and> length c \<le> FastCompression_GetCompressedBufferSize (length (encoded ints))
    \<and> DecompressIntegers codec workingSpace c (length ints) = Some ints"
proof -
  let ?n = "GetEncodedBufferSize TYPE('a) (length ints)"
  have len: "length (encoded ints) \<le> ?n" by (rule length_encoded [OF assms(1,3)])
  with assms(4) have max: "length (encoded ints) \<le> FastCompression_GetMaxInputSize" by simp
  from FastCompression_round_trip_aux [OF assms(2) max len] obtain c where c:
    "FastCompression_CompressToBuffer codec (encoded ints) = Some c"
    "length c \<le> FastCompression_GetCompressedBufferSize (length (encoded ints))"
    "FastCompression_DecompressFromBuffer codec c ?n = Decompressed (encoded ints)" by blast
  have "EncodeIntegers ints encodeBuffer
      = Some (encoded ints @ drop (length (encoded ints)) encodeBuffer, length (encoded ints))"
    by (rule EncodeIntegers_writes [OF assms(1,3)]) (simp add: assms(5))
  then have "CompressIntegers codec encodeBuffer ints = Some c"
    by (simp add: CompressIntegers_def c(1))
  moreover have "encoded ints \<noteq> []"
    using int_type_sizes(2) [OF assms(1)] by (auto simp: encoded_def simp flip: length_0_conv)
  then have "DecompressIntegers codec workingSpace c (length ints) = Some ints"
    using DecodeIntegers_encoded [OF assms(1)] by (simp add: DecompressIntegers_def c(3))
  ultimately show ?thesis using c by blast
qed


section \<open>The example of the documentation\<close>

definition documented_ints :: "32 word list" where
  "documented_ints = [123, 124, 125, 100125, 100125, 100126, 100126]"

lemma common_value_documented: "common_value documented_ints = 1"
  by (simp add: common_value_def documented_ints_def count_step_def)

text \<open>The example in the documentation of the coding has the output it lists, which takes 13 bytes and
  not the 12 it states.\<close>

theorem EncodeIntegers_documented:
  "EncodeIntegers documented_ints (replicate 34 0)
   = Some ([1, 0, 0, 0, 0xC1, 0x11, 123, 0xA0, 0x86, 1, 0, 0, 0] @ replicate 21 0, 13)"
  by code_simp

section \<open>Instances\<close>

lemma EncodeIntegers_round_trip_witness:
  "\<exists>out' n. EncodeIntegers [1, 0xFFFFFFFF, 0x7FFFFFFF :: 32 word] (replicate 17 0) = Some (out', n)
    \<and> length out' = 17 \<and> n \<le> 17 \<and> drop n out' = drop n (replicate 17 0)
    \<and> (\<forall>rest. DecodeIntegers (take n out' @ rest) 3 = Some [1, 0xFFFFFFFF, 0x7FFFFFFF :: 32 word])"
proof -
  have len: "length [1, 0xFFFFFFFF, 0x7FFFFFFF :: 32 word] = 3" by simp
  have size: "GetEncodedBufferSize TYPE(32) 3 = 17" by (simp add: GetEncodedBufferSize_def sizeof_Int_def)
  show ?thesis
    using EncodeIntegers_round_trip [OF int_type_32, of "[1, 0xFFFFFFFF, 0x7FFFFFFF]" "replicate 17 0"]
    unfolding len size length_replicate by blast
qed


lemma common_value_most_common_witness:
  "most_common (differences 0 [5, 7, 9 :: 32 word]) (common_value [5, 7, 9])"
  using common_value_most_common [of "[5, 7, 9 :: 32 word]"] by simp


end
